(* ===== verification/Prelude.thy ===== *)
theory Prelude
  imports Main "HOL-Library.Word" "HOL-Library.Multiset"
begin

text \<open>
  Shared vocabulary of the development: the Go integer types as machine words, byte
  strings, run-time panics as values, and the generic facts on words, lists and options
  that the component theories rest on.  Facts that turn bit operations into arithmetic on
  the unsigned values are collected in \<open>unat_bits\<close>.
\<close>

unbundle bit_operations_syntax

section \<open>Types\<close>

text \<open>
  A Go \<open>byte\<close> is a \<open>uint8\<close>, a \<open>rune\<close> is an \<open>int32\<close>; signed types are words
  read with \<^const>\<open>sint\<close>.  A Go string is an immutable sequence of bytes.
\<close>

type_synonym byte = "8 word"
type_synonym uint16 = "16 word"
type_synonym uint32 = "32 word"
type_synonym uint64 = "64 word"
type_synonym int64 = "64 word"
type_synonym rune = "32 word"
type_synonym gostring = "byte list"

text \<open>The run-time panics of the modelled code, as values of the left summand of a result.\<close>

datatype gopanic = IndexOutOfRange | SliceBoundsOutOfRange | DivideByZero | NilPointer | PanicMsg string

type_synonym 'a go = "gopanic + 'a"

text \<open>
  Values of the type \<open>error\<close>: the sentinels of \<open>io\<close> that the modelled code compares
  against, and the errors made by \<open>errors.New\<close>, by their message.  A nil error is
  \<^const>\<open>None\<close>.
\<close>

datatype goerror = EOF | ErrUnexpectedEOF | ErrShortWrite | NewError string

text \<open>Code after a call that may panic.\<close>

definition bind_go :: "'a go \<Rightarrow> ('a \<Rightarrow> 'b go) \<Rightarrow> 'b go" where
  "bind_go m f = (case m of Inl p \<Rightarrow> Inl p | Inr x \<Rightarrow> f x)"

lemma bind_go_simps [simp]: "bind_go (Inl p) f = Inl p" "bind_go (Inr x) f = f x"
  by (simp_all add: bind_go_def)

lemma bind_go_cong [fundef_cong]:
  "m = m' \<Longrightarrow> (\<And>x. m' = Inr x \<Longrightarrow> f x = g x) \<Longrightarrow> bind_go m f = bind_go m' g"
  by (auto simp: bind_go_def split: sum.split)

lemma bind_go_Inr: "bind_go m f = Inr y \<longleftrightarrow> (\<exists>x. m = Inr x \<and> f x = Inr y)"
  by (auto simp: bind_go_def split: sum.split)

text \<open>The bytes of a source string literal.\<close>

definition bytes_of :: "string \<Rightarrow> byte list" where
  "bytes_of s = map (\<lambda>c. of_nat (of_char c)) s"

named_theorems unat_bits "bit operations on words as arithmetic on their unsigned values"

section \<open>Words\<close>

lemma unat_byte_less [simp]: "unat (b :: byte) < 256"
  using unsigned_less [of b] by simp

lemma unat_rune_less: "unat (r :: 32 word) < 4294967296"
  using unsigned_less [of r] by simp

lemma unat_take_bit [unat_bits]: "unat (take_bit n w) = unat w mod 2 ^ n"
  by (metis take_bit_eq_mod unsigned_take_bit_eq)

lemma unat_drop_bit [unat_bits]: "unat (drop_bit n w) = unat w div 2 ^ n"
  by (metis drop_bit_eq_div unat_drop_bit_eq)

lemma unat_and_mask [unat_bits]: "unat (w AND mask n) = unat w mod 2 ^ n"
  by (simp add: unat_take_bit flip: take_bit_eq_mask)

lemma unat_ucast_gen: "unat (ucast (w :: 'a::len word) :: 'b::len word) = unat w mod 2 ^ LENGTH('b)"
  by (simp add: unsigned_ucast_eq take_bit_eq_mod)

lemma unat_push_bit_gen:
  "unat (push_bit n (w :: 'a::len word)) = unat w * 2 ^ n mod 2 ^ LENGTH('a)"
  by (metis push_bit_eq_mult take_bit_eq_mod unsigned_push_bit_eq)

text \<open>Two naturals on disjoint bit ranges: the bitwise or is the sum.\<close>

lemma nat_or_disjoint:
  fixes a b :: nat
  assumes "2 ^ k dvd a" "b < 2 ^ k"
  shows "a OR b = a + b"
proof -
  have "a AND b = 0"
  proof (rule bit_eqI)
    fix n
    have "bit a n \<Longrightarrow> k \<le> n"
      using assms(1) by (metis bit_push_bit_iff dvdE mult.commute push_bit_eq_mult)
    moreover have "bit b n \<Longrightarrow> n < k"
      using assms(2) by (metis bit_take_bit_iff take_bit_nat_eq_self)
    ultimately show "bit (a AND b) n = bit 0 n"
      by (auto simp: bit_and_iff)
  qed
  then show ?thesis by (simp add: disjunctive_add_eq_or)
qed

lemma unat_or_disjoint:
  "2 ^ k dvd unat a \<Longrightarrow> unat b < 2 ^ k \<Longrightarrow> unat (a OR b) = unat a + unat b"
  by (simp add: unsigned_or_eq nat_or_disjoint)

text \<open>A property of every byte is a check of the 256 byte values.\<close>

lemma all_bytes: "(\<And>n. n < 256 \<Longrightarrow> P (word_of_nat n)) \<Longrightarrow> P (b :: byte)"
proof -
  assume "\<And>n. n < 256 \<Longrightarrow> P (word_of_nat n)"
  then have "P (word_of_nat (unat b))" by (meson unat_byte_less)
  then show ?thesis by simp
qed

lemma all_bytes_list: "list_all (\<lambda>n. P (word_of_nat n)) [0..<256] \<Longrightarrow> P (b :: byte)"
  by (rule all_bytes) (simp add: list_all_iff)

lemma list_all_upt: "list_all P [0..<n] \<Longrightarrow> i < n \<Longrightarrow> P i"
  by (simp add: list_all_iff)

lemma byte_le_iff: "(a :: byte) \<le> b \<longleftrightarrow> unat a \<le> unat b"
  by (rule word_le_nat_alt)

lemma byte_less_iff: "(a :: byte) < b \<longleftrightarrow> unat a < unat b"
  by (rule word_less_nat_alt)

text \<open>A non-negative \<open>int32\<close> reads the same signed and unsigned.\<close>

lemma mod_shift_half: "((x :: int) + a) mod (2 * a) = (x - a) mod (2 * a)"
  by algebra

lemma sint_unat:
  fixes w :: "'a::len word"
  shows "sint w = (if unat w < 2 ^ (LENGTH('a) - 1) then int (unat w)
                   else int (unat w) - 2 ^ LENGTH('a))"
proof -
  obtain n where n: "LENGTH('a) = Suc n"
    using len_gt_0 [where 'a = 'a] by (cases "LENGTH('a)") auto
  have lt: "uint w < 2 * 2 ^ n"
    using unsigned_less [of w, where 'a = int] by (simp add: n)
  have eq: "sint w = (uint w + 2 ^ n) mod (2 * 2 ^ n) - 2 ^ n"
    by (simp add: n sint_uint signed_take_bit_eq_take_bit_shift take_bit_eq_mod)
  have nat_less: "unat w < 2 ^ n \<longleftrightarrow> uint w < 2 ^ n"
    using of_nat_less_iff [of "unat w" "2 ^ n", where 'a = int] by simp
  show ?thesis
  proof (cases "uint w < 2 ^ n")
    case True
    then have "(uint w + 2 ^ n) mod (2 * 2 ^ n) = uint w + 2 ^ n"
      by (intro mod_pos_pos_trivial) auto
    with True eq nat_less show ?thesis by (simp add: n)
  next
    case False
    have "(uint w + 2 ^ n) mod (2 * 2 ^ n) = (uint w - 2 ^ n) mod (2 * 2 ^ n)"
      by (rule mod_shift_half)
    also have "\<dots> = uint w - 2 ^ n"
      using False lt by (intro mod_pos_pos_trivial) auto
    finally show ?thesis using False eq nat_less by (simp add: n)
  qed
qed

end
