(* ===== verification/Bits.thy ===== *)
theory Bits
  imports Prelude
begin

text \<open>
  The package \<open>math/bits\<close> on a 64-bit platform (\<open>UintSize = 64\<close>): bit lengths, trailing
  zeros by de Bruijn multiplication, rotations, byte and bit reversal, and the
  extended-precision addition, subtraction, multiplication and division.  A \<open>uint\<close> is a
  64-bit word; results of type \<open>int\<close> that count bits are naturals.
\<close>

abbreviation UintSize :: nat where "UintSize \<equiv> 64"

section \<open>Bit lengths\<close>

definition len8tab :: "nat list" where
  "len8tab =
     [0, 1] @ replicate 2 2 @ replicate 4 3 @ replicate 8 4 @ replicate 16 5 @
     replicate 32 6 @ replicate 64 7 @ replicate 128 8"

definition Len8 :: "byte \<Rightarrow> nat" where
  "Len8 x = len8tab ! unat x"

definition Len16 :: "uint16 \<Rightarrow> nat" where
  "Len16 x =
     (let (x, n) = (if x \<ge> 2 ^ 8 then (drop_bit 8 x, 8) else (x, 0))
      in n + len8tab ! unat (ucast x :: byte))"

definition Len32 :: "uint32 \<Rightarrow> nat" where
  "Len32 x =
     (let (x, n) = (if x \<ge> 2 ^ 16 then (drop_bit 16 x, 16) else (x, 0));
          (x, n) = (if x \<ge> 2 ^ 8 then (drop_bit 8 x, n + 8) else (x, n))
      in n + len8tab ! unat (ucast x :: byte))"

definition Len64 :: "uint64 \<Rightarrow> nat" where
  "Len64 x =
     (let (x, n) = (if x \<ge> 2 ^ 32 then (drop_bit 32 x, 32) else (x, 0));
          (x, n) = (if x \<ge> 2 ^ 16 then (drop_bit 16 x, n + 16) else (x, n));
          (x, n) = (if x \<ge> 2 ^ 8 then (drop_bit 8 x, n + 8) else (x, n))
      in n + len8tab ! unat (ucast x :: byte))"

definition bits_Len :: "uint64 \<Rightarrow> nat" where
  "bits_Len x = (if UintSize = 32 then Len32 (ucast x) else Len64 x)"

definition LeadingZeros8 :: "byte \<Rightarrow> nat" where
  "LeadingZeros8 x = 8 - Len8 x"

definition LeadingZeros16 :: "uint16 \<Rightarrow> nat" where
  "LeadingZeros16 x = 16 - Len16 x"

definition LeadingZeros32 :: "uint32 \<Rightarrow> nat" where
  "LeadingZeros32 x = 32 - Len32 x"

definition LeadingZeros64 :: "uint64 \<Rightarrow> nat" where
  "LeadingZeros64 x = 64 - Len64 x"

definition LeadingZeros :: "uint64 \<Rightarrow> nat" where
  "LeadingZeros x = UintSize - bits_Len x"

section \<open>Trailing zeros\<close>

definition deBruijn32 :: uint32 where
  "deBruijn32 = 0x077CB531"

definition deBruijn32tab :: "nat list" where
  "deBruijn32tab =
     [0, 1, 28, 2, 29, 14, 24, 3, 30, 22, 20, 15, 25, 17, 4, 8,
      31, 27, 13, 23, 21, 19, 16, 7, 26, 12, 18, 6, 11, 5, 10, 9]"

definition deBruijn64 :: uint64 where
  "deBruijn64 = 0x03f79d71b4ca8b09"

definition deBruijn64tab :: "nat list" where
  "deBruijn64tab =
     [0, 1, 56, 2, 57, 49, 28, 3, 61, 58, 42, 50, 38, 29, 17, 4,
      62, 47, 59, 36, 45, 43, 51, 22, 53, 39, 33, 30, 24, 18, 12, 5,
      63, 55, 48, 27, 60, 41, 37, 16, 46, 35, 44, 21, 52, 32, 23, 11,
      54, 26, 40, 15, 34, 20, 31, 10, 25, 14, 19, 9, 13, 8, 7, 6]"

definition TrailingZeros16 :: "uint16 \<Rightarrow> nat" where
  "TrailingZeros16 x =
     (if x = 0 then 16
      else deBruijn32tab ! unat (drop_bit (32 - 5) (ucast (x AND - x) * deBruijn32)))"

definition TrailingZeros32 :: "uint32 \<Rightarrow> nat" where
  "TrailingZeros32 x =
     (if x = 0 then 32
      else deBruijn32tab ! unat (drop_bit (32 - 5) ((x AND - x) * deBruijn32)))"

definition TrailingZeros64 :: "uint64 \<Rightarrow> nat" where
  "TrailingZeros64 x =
     (if x = 0 then 64
      else deBruijn64tab ! unat (drop_bit (64 - 6) ((x AND - x) * deBruijn64)))"

definition TrailingZeros :: "uint64 \<Rightarrow> nat" where
  "TrailingZeros x =
     (if UintSize = 32 then TrailingZeros32 (ucast x) else TrailingZeros64 x)"

section \<open>Rotation and reversal\<close>

text \<open>
  The rotation count is an \<open>int\<close>; \<open>uint(k) & (n - 1)\<close> keeps its low bits, so a negative
  count rotates to the right.
\<close>

definition RotateLeft8 :: "byte \<Rightarrow> uint64 \<Rightarrow> byte" where
  "RotateLeft8 x k = (let s = unat (k AND (8 - 1)) in push_bit s x OR drop_bit (8 - s) x)"

definition RotateLeft16 :: "uint16 \<Rightarrow> uint64 \<Rightarrow> uint16" where
  "RotateLeft16 x k = (let s = unat (k AND (16 - 1)) in push_bit s x OR drop_bit (16 - s) x)"

definition RotateLeft32 :: "uint32 \<Rightarrow> uint64 \<Rightarrow> uint32" where
  "RotateLeft32 x k = (let s = unat (k AND (32 - 1)) in push_bit s x OR drop_bit (32 - s) x)"

definition RotateLeft64 :: "uint64 \<Rightarrow> uint64 \<Rightarrow> uint64" where
  "RotateLeft64 x k = (let s = unat (k AND (64 - 1)) in push_bit s x OR drop_bit (64 - s) x)"

definition RotateLeft :: "uint64 \<Rightarrow> uint64 \<Rightarrow> uint64" where
  "RotateLeft x k =
     (if UintSize = 32 then ucast (RotateLeft32 (ucast x) k) else RotateLeft64 x k)"

abbreviation bits_m0 :: uint64 where "bits_m0 \<equiv> 0x5555555555555555"
abbreviation bits_m1 :: uint64 where "bits_m1 \<equiv> 0x3333333333333333"
abbreviation bits_m2 :: uint64 where "bits_m2 \<equiv> 0x0f0f0f0f0f0f0f0f"
abbreviation bits_m3 :: uint64 where "bits_m3 \<equiv> 0x00ff00ff00ff00ff"
abbreviation bits_m4 :: uint64 where "bits_m4 \<equiv> 0x0000ffff0000ffff"

definition ReverseBytes16 :: "uint16 \<Rightarrow> uint16" where
  "ReverseBytes16 x = drop_bit 8 x OR push_bit 8 x"

definition ReverseBytes32 :: "uint32 \<Rightarrow> uint32" where
  "ReverseBytes32 x =
     (let m = 0x00ff00ff;
          x = (drop_bit 8 x AND m) OR push_bit 8 (x AND m)
      in drop_bit 16 x OR push_bit 16 x)"

definition ReverseBytes64 :: "uint64 \<Rightarrow> uint64" where
  "ReverseBytes64 x =
     (let x = (drop_bit 8 x AND bits_m3) OR push_bit 8 (x AND bits_m3);
          x = (drop_bit 16 x AND bits_m4) OR push_bit 16 (x AND bits_m4)
      in drop_bit 32 x OR push_bit 32 x)"

definition ReverseBytes :: "uint64 \<Rightarrow> uint64" where
  "ReverseBytes x =
     (if UintSize = 32 then ucast (ReverseBytes32 (ucast x)) else ReverseBytes64 x)"

definition Reverse32 :: "uint32 \<Rightarrow> uint32" where
  "Reverse32 x =
     (let x = (drop_bit 1 x AND 0x55555555) OR push_bit 1 (x AND 0x55555555);
          x = (drop_bit 2 x AND 0x33333333) OR push_bit 2 (x AND 0x33333333);
          x = (drop_bit 4 x AND 0x0f0f0f0f) OR push_bit 4 (x AND 0x0f0f0f0f)
      in ReverseBytes32 x)"

definition Reverse64 :: "uint64 \<Rightarrow> uint64" where
  "Reverse64 x =
     (let x = (drop_bit 1 x AND bits_m0) OR push_bit 1 (x AND bits_m0);
          x = (drop_bit 2 x AND bits_m1) OR push_bit 2 (x AND bits_m1);
          x = (drop_bit 4 x AND bits_m2) OR push_bit 4 (x AND bits_m2)
      in ReverseBytes64 x)"

definition bits_Reverse :: "uint64 \<Rightarrow> uint64" where
  "bits_Reverse x = (if UintSize = 32 then ucast (Reverse32 (ucast x)) else Reverse64 x)"

section \<open>Extended precision\<close>

definition Add32 :: "uint32 \<Rightarrow> uint32 \<Rightarrow> uint32 \<Rightarrow> uint32 \<times> uint32" where
  "Add32 x y carry =
     (let sum64 = (ucast x + ucast y + ucast carry :: uint64)
      in (ucast sum64, ucast (drop_bit 32 sum64)))"

definition Add64 :: "uint64 \<Rightarrow> uint64 \<Rightarrow> uint64 \<Rightarrow> uint64 \<times> uint64" where
  "Add64 x y carry =
     (let sum = x + y + carry
      in (sum, drop_bit 63 ((x AND y) OR ((x OR y) AND NOT sum))))"

definition Sub32 :: "uint32 \<Rightarrow> uint32 \<Rightarrow> uint32 \<Rightarrow> uint32 \<times> uint32" where
  "Sub32 x y borrow =
     (let diff = x - y - borrow
      in (diff, drop_bit 31 ((NOT x AND y) OR (NOT (x XOR y) AND diff))))"

definition Sub64 :: "uint64 \<Rightarrow> uint64 \<Rightarrow> uint64 \<Rightarrow> uint64 \<times> uint64" where
  "Sub64 x y borrow =
     (let diff = x - y - borrow
      in (diff, drop_bit 63 ((NOT x AND y) OR (NOT (x XOR y) AND diff))))"

definition Mul32 :: "uint32 \<Rightarrow> uint32 \<Rightarrow> uint32 \<times> uint32" where
  "Mul32 x y =
     (let tmp = (ucast x * ucast y :: uint64) in (ucast (drop_bit 32 tmp), ucast tmp))"

abbreviation mask32 :: uint64 where "mask32 \<equiv> 0xFFFFFFFF"
abbreviation two32 :: uint64 where "two32 \<equiv> 0x100000000"

definition Mul64 :: "uint64 \<Rightarrow> uint64 \<Rightarrow> uint64 \<times> uint64" where
  "Mul64 x y =
     (let x0 = x AND mask32; x1 = drop_bit 32 x;
          y0 = y AND mask32; y1 = drop_bit 32 y;
          w0 = x0 * y0;
          t = x1 * y0 + drop_bit 32 w0;
          w1 = t AND mask32;
          w2 = drop_bit 32 t;
          w1 = w1 + x0 * y1;
          hi = x1 * y1 + w2 + drop_bit 32 w1;
          lo = x * y
      in (hi, lo))"

text \<open>\<open>Div32\<close> does not test for zero itself: the integer division below it panics.\<close>

definition Div32 :: "uint32 \<Rightarrow> uint32 \<Rightarrow> uint32 \<Rightarrow> (uint32 \<times> uint32) go" where
  "Div32 hi lo y =
     (if y \<noteq> 0 \<and> y \<le> hi then Inl (PanicMsg ''integer overflow'')
      else if y = 0 then Inl DivideByZero
      else
        let z = push_bit 32 (ucast hi :: uint64) OR ucast lo
        in Inr (ucast (z div ucast y), ucast (z mod ucast y)))"

text \<open>
  The correction loop of \<open>Div64\<close>, which decrements the trial digit.  The source has no
  bound on it, so a run that does not end is the result \<^const>\<open>None\<close>.
\<close>

partial_function (option) div64_adjust ::
  "uint64 \<Rightarrow> uint64 \<Rightarrow> uint64 \<Rightarrow> uint64 \<Rightarrow> uint64 \<Rightarrow> (uint64 \<times> uint64) option" where
  "div64_adjust yn1 yn0 un q rhat =
     (if q \<ge> two32 \<or> q * yn0 > two32 * rhat + un then
        let q = q - 1; rhat = rhat + yn1 in
        if rhat \<ge> two32 then Some (q, rhat) else div64_adjust yn1 yn0 un q rhat
      else Some (q, rhat))"

definition Div64 :: "uint64 \<Rightarrow> uint64 \<Rightarrow> uint64 \<Rightarrow> (uint64 \<times> uint64) go option" where
  "Div64 hi lo y =
     (if y = 0 then Some (Inl DivideByZero)
      else if y \<le> hi then Some (Inl (PanicMsg ''integer overflow''))
      else if hi = 0 then Some (Inr (lo div y, lo mod y))
      else
        let s = LeadingZeros64 y;
            y = push_bit s y;
            yn1 = drop_bit 32 y;
            yn0 = y AND mask32;
            un32 = push_bit s hi OR drop_bit (64 - s) lo;
            un10 = push_bit s lo;
            un1 = drop_bit 32 un10;
            un0 = un10 AND mask32;
            q1 = un32 div yn1;
            rhat = un32 - q1 * yn1
        in case div64_adjust yn1 yn0 un1 q1 rhat of
             None \<Rightarrow> None
           | Some (q1, rhat) \<Rightarrow>
               let un21 = un32 * two32 + un1 - q1 * y;
                   q0 = un21 div yn1;
                   rhat = un21 - q0 * yn1
               in case div64_adjust yn1 yn0 un0 q0 rhat of
                    None \<Rightarrow> None
                  | Some (q0, rhat) \<Rightarrow>
                      Some (Inr (q1 * two32 + q0,
                                 drop_bit s (un21 * two32 + un0 - q0 * y))))"

definition Rem32 :: "uint32 \<Rightarrow> uint32 \<Rightarrow> uint32 \<Rightarrow> uint32 go" where
  "Rem32 hi lo y =
     (if y = 0 then Inl DivideByZero
      else Inr (ucast ((push_bit 32 (ucast hi :: uint64) OR ucast lo) mod ucast y)))"

definition Rem64 :: "uint64 \<Rightarrow> uint64 \<Rightarrow> uint64 \<Rightarrow> uint64 go option" where
  "Rem64 hi lo y =
     (if y = 0 then Some (Inl DivideByZero)
      else map_option (map_sum id snd) (Div64 (hi mod y) lo y))"

end
