(* ===== verification/ByteOrder.thy ===== *)
theory ByteOrder
  imports Prelude
begin

text \<open>
  The package \<open>internal/byteorder\<close>: reading, writing and appending unsigned integers in
  little-endian and big-endian order.  The explicit bounds checks of the source
  (\<open>_ = b[7]\<close>) are the panics of the model.
\<close>

section \<open>Little endian\<close>

definition LEUint16 :: "byte list \<Rightarrow> uint16 go" where
  "LEUint16 b =
     (if length b \<le> 1 then Inl IndexOutOfRange else Inr (ucast (b ! 0) OR push_bit 8 (ucast (b ! 1))))"

definition LEPutUint16 :: "byte list \<Rightarrow> uint16 \<Rightarrow> byte list go" where
  "LEPutUint16 b v =
     (if length b \<le> 1 then Inl IndexOutOfRange
      else Inr (b[0 := ucast v, 1 := ucast (drop_bit 8 v)]))"

definition LEAppendUint16 :: "byte list \<Rightarrow> uint16 \<Rightarrow> byte list" where
  "LEAppendUint16 b v = b @ [ucast v, ucast (drop_bit 8 v)]"

definition LEUint32 :: "byte list \<Rightarrow> uint32 go" where
  "LEUint32 b =
     (if length b \<le> 3 then Inl IndexOutOfRange
      else Inr (ucast (b ! 0) OR push_bit 8 (ucast (b ! 1)) OR push_bit 16 (ucast (b ! 2)) OR
                push_bit 24 (ucast (b ! 3))))"

definition LEPutUint32 :: "byte list \<Rightarrow> uint32 \<Rightarrow> byte list go" where
  "LEPutUint32 b v =
     (if length b \<le> 3 then Inl IndexOutOfRange
      else Inr (b[0 := ucast v, 1 := ucast (drop_bit 8 v), 2 := ucast (drop_bit 16 v),
                  3 := ucast (drop_bit 24 v)]))"

definition LEAppendUint32 :: "byte list \<Rightarrow> uint32 \<Rightarrow> byte list" where
  "LEAppendUint32 b v =
     b @ [ucast v, ucast (drop_bit 8 v), ucast (drop_bit 16 v), ucast (drop_bit 24 v)]"

definition LEUint64 :: "byte list \<Rightarrow> uint64 go" where
  "LEUint64 b =
     (if length b \<le> 7 then Inl IndexOutOfRange
      else Inr (ucast (b ! 0) OR push_bit 8 (ucast (b ! 1)) OR push_bit 16 (ucast (b ! 2)) OR
                push_bit 24 (ucast (b ! 3)) OR push_bit 32 (ucast (b ! 4)) OR
                push_bit 40 (ucast (b ! 5)) OR push_bit 48 (ucast (b ! 6)) OR
                push_bit 56 (ucast (b ! 7))))"

definition LEPutUint64 :: "byte list \<Rightarrow> uint64 \<Rightarrow> byte list go" where
  "LEPutUint64 b v =
     (if length b \<le> 7 then Inl IndexOutOfRange
      else Inr (b[0 := ucast v, 1 := ucast (drop_bit 8 v), 2 := ucast (drop_bit 16 v),
                  3 := ucast (drop_bit 24 v), 4 := ucast (drop_bit 32 v),
                  5 := ucast (drop_bit 40 v), 6 := ucast (drop_bit 48 v),
                  7 := ucast (drop_bit 56 v)]))"

definition LEAppendUint64 :: "byte list \<Rightarrow> uint64 \<Rightarrow> byte list" where
  "LEAppendUint64 b v =
     b @ [ucast v, ucast (drop_bit 8 v), ucast (drop_bit 16 v), ucast (drop_bit 24 v),
          ucast (drop_bit 32 v), ucast (drop_bit 40 v), ucast (drop_bit 48 v),
          ucast (drop_bit 56 v)]"

section \<open>Big endian\<close>

definition BEUint16 :: "byte list \<Rightarrow> uint16 go" where
  "BEUint16 b =
     (if length b \<le> 1 then Inl IndexOutOfRange else Inr (ucast (b ! 1) OR push_bit 8 (ucast (b ! 0))))"

definition BEPutUint16 :: "byte list \<Rightarrow> uint16 \<Rightarrow> byte list go" where
  "BEPutUint16 b v =
     (if length b \<le> 1 then Inl IndexOutOfRange
      else Inr (b[0 := ucast (drop_bit 8 v), 1 := ucast v]))"

definition BEAppendUint16 :: "byte list \<Rightarrow> uint16 \<Rightarrow> byte list" where
  "BEAppendUint16 b v = b @ [ucast (drop_bit 8 v), ucast v]"

definition BEUint32 :: "byte list \<Rightarrow> uint32 go" where
  "BEUint32 b =
     (if length b \<le> 3 then Inl IndexOutOfRange
      else Inr (ucast (b ! 3) OR push_bit 8 (ucast (b ! 2)) OR push_bit 16 (ucast (b ! 1)) OR
                push_bit 24 (ucast (b ! 0))))"

definition BEPutUint32 :: "byte list \<Rightarrow> uint32 \<Rightarrow> byte list go" where
  "BEPutUint32 b v =
     (if length b \<le> 3 then Inl IndexOutOfRange
      else Inr (b[0 := ucast (drop_bit 24 v), 1 := ucast (drop_bit 16 v),
                  2 := ucast (drop_bit 8 v), 3 := ucast v]))"

definition BEAppendUint32 :: "byte list \<Rightarrow> uint32 \<Rightarrow> byte list" where
  "BEAppendUint32 b v =
     b @ [ucast (drop_bit 24 v), ucast (drop_bit 16 v), ucast (drop_bit 8 v), ucast v]"

definition BEUint64 :: "byte list \<Rightarrow> uint64 go" where
  "BEUint64 b =
     (if length b \<le> 7 then Inl IndexOutOfRange
      else Inr (ucast (b ! 7) OR push_bit 8 (ucast (b ! 6)) OR push_bit 16 (ucast (b ! 5)) OR
                push_bit 24 (ucast (b ! 4)) OR push_bit 32 (ucast (b ! 3)) OR
                push_bit 40 (ucast (b ! 2)) OR push_bit 48 (ucast (b ! 1)) OR
                push_bit 56 (ucast (b ! 0))))"

definition BEPutUint64 :: "byte list \<Rightarrow> uint64 \<Rightarrow> byte list go" where
  "BEPutUint64 b v =
     (if length b \<le> 7 then Inl IndexOutOfRange
      else Inr (b[0 := ucast (drop_bit 56 v), 1 := ucast (drop_bit 48 v),
                  2 := ucast (drop_bit 40 v), 3 := ucast (drop_bit 32 v),
                  4 := ucast (drop_bit 24 v), 5 := ucast (drop_bit 16 v),
                  6 := ucast (drop_bit 8 v), 7 := ucast v]))"

definition BEAppendUint64 :: "byte list \<Rightarrow> uint64 \<Rightarrow> byte list" where
  "BEAppendUint64 b v =
     b @ [ucast (drop_bit 56 v), ucast (drop_bit 48 v), ucast (drop_bit 40 v),
          ucast (drop_bit 32 v), ucast (drop_bit 24 v), ucast (drop_bit 16 v),
          ucast (drop_bit 8 v), ucast v]"

section \<open>Round trips\<close>

text \<open>An integer is the union of its shifted bytes: each byte extends the low part by 8 bits.\<close>

lemma ucast_byte: "ucast (ucast v :: byte) = take_bit 8 (v :: 'a::len word)"
  by (rule bit_eqI) (auto simp: bit_simps dest: bit_imp_le_length)

lemma take_bit_next_byte:
  "take_bit k v OR push_bit k (take_bit 8 (drop_bit k v)) = take_bit (k + 8) (v :: 'a::len word)"
  by (rule bit_eqI) (auto simp: bit_simps dest: bit_imp_le_length)

lemma take_bit_next_bytes:
  fixes v :: "'a::len word"
  shows "take_bit 8 v OR push_bit 8 (take_bit 8 (drop_bit 8 v)) = take_bit 16 v"
    "take_bit 16 v OR push_bit 16 (take_bit 8 (drop_bit 16 v)) = take_bit 24 v"
    "take_bit 24 v OR push_bit 24 (take_bit 8 (drop_bit 24 v)) = take_bit 32 v"
    "take_bit 32 v OR push_bit 32 (take_bit 8 (drop_bit 32 v)) = take_bit 40 v"
    "take_bit 40 v OR push_bit 40 (take_bit 8 (drop_bit 40 v)) = take_bit 48 v"
    "take_bit 48 v OR push_bit 48 (take_bit 8 (drop_bit 48 v)) = take_bit 56 v"
    "take_bit 56 v OR push_bit 56 (take_bit 8 (drop_bit 56 v)) = take_bit 64 v"
  using take_bit_next_byte [of 8 v] take_bit_next_byte [of 16 v] take_bit_next_byte [of 24 v]
    take_bit_next_byte [of 32 v] take_bit_next_byte [of 40 v] take_bit_next_byte [of 48 v]
    take_bit_next_byte [of 56 v] by simp_all

lemma take_bit_all:
  "take_bit 16 (a :: uint16) = a" "take_bit 32 (b :: uint32) = b" "take_bit 64 (c :: uint64) = c"
  by (simp_all add: take_bit_word_eq_self)

lemmas word_of_bytes = ucast_byte or.assoc [symmetric] take_bit_next_bytes take_bit_all

text \<open>An integer appended to a byte slice in either order is read back from where it was appended,
  whatever follows it.
\<close>

theorem byteorder_append_read:
  "LEUint16 (drop (length b) (LEAppendUint16 b u @ t)) = Inr u \<and>
   LEUint32 (drop (length b) (LEAppendUint32 b v @ t)) = Inr v \<and>
   LEUint64 (drop (length b) (LEAppendUint64 b w @ t)) = Inr w \<and>
   BEUint16 (drop (length b) (BEAppendUint16 b u @ t)) = Inr u \<and>
   BEUint32 (drop (length b) (BEAppendUint32 b v @ t)) = Inr v \<and>
   BEUint64 (drop (length b) (BEAppendUint64 b w @ t)) = Inr w"
  by (simp add: LEUint16_def LEUint32_def LEUint64_def BEUint16_def BEUint32_def BEUint64_def
      LEAppendUint16_def LEAppendUint32_def LEAppendUint64_def BEAppendUint16_def
      BEAppendUint32_def BEAppendUint64_def) (simp only: word_of_bytes simp_thms)

text \<open>Writing into a slice panics exactly when the slice is too short, and otherwise the integer is
  read back and the rest of the slice is untouched.
\<close>

theorem byteorder_put_read:
  "(case LEPutUint32 b v of Inl e \<Rightarrow> e = IndexOutOfRange \<and> length b < 4
    | Inr c \<Rightarrow> LEUint32 c = Inr v \<and> drop 4 c = drop 4 b \<and> length c = length b) \<and>
   (case BEPutUint32 b v of Inl e \<Rightarrow> e = IndexOutOfRange \<and> length b < 4
    | Inr c \<Rightarrow> BEUint32 c = Inr v \<and> drop 4 c = drop 4 b \<and> length c = length b) \<and>
   (case LEPutUint64 b w of Inl e \<Rightarrow> e = IndexOutOfRange \<and> length b < 8
    | Inr c \<Rightarrow> LEUint64 c = Inr w \<and> drop 8 c = drop 8 b \<and> length c = length b) \<and>
   (case BEPutUint64 b w of Inl e \<Rightarrow> e = IndexOutOfRange \<and> length b < 8
    | Inr c \<Rightarrow> BEUint64 c = Inr w \<and> drop 8 c = drop 8 b \<and> length c = length b)"
proof -
  have four: "\<exists>b0 b1 b2 b3 t. b = b0 # b1 # b2 # b3 # t" if "\<not> length b \<le> 3"
    using that by (auto simp: not_le Suc_le_eq [symmetric] Suc_le_length_iff numeral_eq_Suc)
  have eight: "\<exists>b0 b1 b2 b3 b4 b5 b6 b7 t. b = b0 # b1 # b2 # b3 # b4 # b5 # b6 # b7 # t" if "\<not> length b \<le> 7"
    using that by (auto simp: not_le Suc_le_eq [symmetric] Suc_le_length_iff numeral_eq_Suc)
  have "(case LEPutUint32 b v of Inl e \<Rightarrow> e = IndexOutOfRange \<and> length b < 4
      | Inr c \<Rightarrow> LEUint32 c = Inr v \<and> drop 4 c = drop 4 b \<and> length c = length b)"
    "(case BEPutUint32 b v of Inl e \<Rightarrow> e = IndexOutOfRange \<and> length b < 4
      | Inr c \<Rightarrow> BEUint32 c = Inr v \<and> drop 4 c = drop 4 b \<and> length c = length b)"
    using four by (auto simp: LEPutUint32_def BEPutUint32_def LEUint32_def BEUint32_def word_of_bytes)
  moreover have "(case LEPutUint64 b w of Inl e \<Rightarrow> e = IndexOutOfRange \<and> length b < 8
      | Inr c \<Rightarrow> LEUint64 c = Inr w \<and> drop 8 c = drop 8 b \<and> length c = length b)"
    "(case BEPutUint64 b w of Inl e \<Rightarrow> e = IndexOutOfRange \<and> length b < 8
      | Inr c \<Rightarrow> BEUint64 c = Inr w \<and> drop 8 c = drop 8 b \<and> length c = length b)"
    using eight by (auto simp: LEPutUint64_def BEPutUint64_def LEUint64_def BEUint64_def word_of_bytes)
  ultimately show ?thesis by blast
qed

end
