(* ===== verification/Field25519.thy ===== *)
theory Field25519
  imports Bits ByteOrder
begin

text \<open>
  Arithmetic modulo \<open>2 ^ 255 - 19\<close> (\<open>crypto/internal/fips140/edwards25519/field\<close>): the generic
  code of \<open>fe_generic.go\<close> and every method of \<open>fe.go\<close>.  An element has five limbs of 51 bits with
  some room above.  A method that sets its receiver returns the new value; every method reads
  what it needs of its arguments before it overwrites it, so that they may be the receiver.
\<close>

section \<open>Wide products\<close>

record uint128 =
  lo128 :: uint64
  hi128 :: uint64

definition fe_mul :: "uint64 \<Rightarrow> uint64 \<Rightarrow> uint128" where
  "fe_mul a b = (let (hi, lo) = Mul64 a b in \<lparr>lo128 = lo, hi128 = hi\<rparr>)"

definition addMul :: "uint128 \<Rightarrow> uint64 \<Rightarrow> uint64 \<Rightarrow> uint128" where
  "addMul v a b =
     (let (hi, lo) = Mul64 a b;
          (lo, c) = Add64 lo (lo128 v) 0;
          (hi, _) = Add64 hi (hi128 v) c
      in \<lparr>lo128 = lo, hi128 = hi\<rparr>)"

definition mul19 :: "uint64 \<Rightarrow> uint64" where
  "mul19 v = v + push_bit 1 (v + push_bit 3 v)"

definition addMul19 :: "uint128 \<Rightarrow> uint64 \<Rightarrow> uint64 \<Rightarrow> uint128" where
  "addMul19 v a b =
     (let (hi, lo) = Mul64 (mul19 a) b;
          (lo, c) = Add64 lo (lo128 v) 0;
          (hi, _) = Add64 hi (hi128 v) c
      in \<lparr>lo128 = lo, hi128 = hi\<rparr>)"

definition addMul38 :: "uint128 \<Rightarrow> uint64 \<Rightarrow> uint64 \<Rightarrow> uint128" where
  "addMul38 v a b =
     (let (hi, lo) = Mul64 (mul19 a) (b * 2);
          (lo, c) = Add64 lo (lo128 v) 0;
          (hi, _) = Add64 hi (hi128 v) c
      in \<lparr>lo128 = lo, hi128 = hi\<rparr>)"

definition shiftRightBy51 :: "uint128 \<Rightarrow> uint64" where
  "shiftRightBy51 a = push_bit (64 - 51) (hi128 a) OR drop_bit 51 (lo128 a)"

section \<open>Elements\<close>

record fe =
  l0 :: uint64
  l1 :: uint64
  l2 :: uint64
  l3 :: uint64
  l4 :: uint64

definition maskLow51Bits :: uint64 where
  "maskLow51Bits = push_bit 51 1 - 1"

definition feZero :: fe where "feZero = \<lparr>l0 = 0, l1 = 0, l2 = 0, l3 = 0, l4 = 0\<rparr>"

definition feOne :: fe where "feOne = \<lparr>l0 = 1, l1 = 0, l2 = 0, l3 = 0, l4 = 0\<rparr>"

definition carryPropagate :: "fe \<Rightarrow> fe" where
  "carryPropagate v =
     (let t0 = l0 v;
          v = v\<lparr>l0 := (l0 v AND maskLow51Bits) + mul19 (drop_bit 51 (l4 v))\<rparr>;
          v = v\<lparr>l4 := (l4 v AND maskLow51Bits) + drop_bit 51 (l3 v)\<rparr>;
          v = v\<lparr>l3 := (l3 v AND maskLow51Bits) + drop_bit 51 (l2 v)\<rparr>;
          v = v\<lparr>l2 := (l2 v AND maskLow51Bits) + drop_bit 51 (l1 v)\<rparr>;
          v = v\<lparr>l1 := (l1 v AND maskLow51Bits) + drop_bit 51 t0\<rparr>
      in v)"

text \<open>
  The end of \<open>feMulGeneric\<close> and of \<open>feSquareGeneric\<close>: the five columns are carried once at full
  width and once more in single words.
\<close>

definition fe_columns :: "uint128 \<Rightarrow> uint128 \<Rightarrow> uint128 \<Rightarrow> uint128 \<Rightarrow> uint128 \<Rightarrow> fe" where
  "fe_columns r0 r1 r2 r3 r4 =
     (let c0 = shiftRightBy51 r0; c1 = shiftRightBy51 r1; c2 = shiftRightBy51 r2;
          c3 = shiftRightBy51 r3; c4 = shiftRightBy51 r4;
          rr0 = (lo128 r0 AND maskLow51Bits) + mul19 c4;
          rr1 = (lo128 r1 AND maskLow51Bits) + c0;
          rr2 = (lo128 r2 AND maskLow51Bits) + c1;
          rr3 = (lo128 r3 AND maskLow51Bits) + c2;
          rr4 = (lo128 r4 AND maskLow51Bits) + c3
      in \<lparr>l0 = (rr0 AND maskLow51Bits) + mul19 (drop_bit 51 rr4),
          l1 = (rr1 AND maskLow51Bits) + drop_bit 51 rr0,
          l2 = (rr2 AND maskLow51Bits) + drop_bit 51 rr1,
          l3 = (rr3 AND maskLow51Bits) + drop_bit 51 rr2,
          l4 = (rr4 AND maskLow51Bits) + drop_bit 51 rr3\<rparr>)"

definition feMulGeneric :: "fe \<Rightarrow> fe \<Rightarrow> fe" where
  "feMulGeneric a b =
     (let a0 = l0 a; a1 = l1 a; a2 = l2 a; a3 = l3 a; a4 = l4 a;
          b0 = l0 b; b1 = l1 b; b2 = l2 b; b3 = l3 b; b4 = l4 b;
          r0 = fe_mul a0 b0;
          r0 = addMul19 r0 a1 b4;
          r0 = addMul19 r0 a2 b3;
          r0 = addMul19 r0 a3 b2;
          r0 = addMul19 r0 a4 b1;
          r1 = fe_mul a0 b1;
          r1 = addMul r1 a1 b0;
          r1 = addMul19 r1 a2 b4;
          r1 = addMul19 r1 a3 b3;
          r1 = addMul19 r1 a4 b2;
          r2 = fe_mul a0 b2;
          r2 = addMul r2 a1 b1;
          r2 = addMul r2 a2 b0;
          r2 = addMul19 r2 a3 b4;
          r2 = addMul19 r2 a4 b3;
          r3 = fe_mul a0 b3;
          r3 = addMul r3 a1 b2;
          r3 = addMul r3 a2 b1;
          r3 = addMul r3 a3 b0;
          r3 = addMul19 r3 a4 b4;
          r4 = fe_mul a0 b4;
          r4 = addMul r4 a1 b3;
          r4 = addMul r4 a2 b2;
          r4 = addMul r4 a3 b1;
          r4 = addMul r4 a4 b0
      in fe_columns r0 r1 r2 r3 r4)"

definition feSquareGeneric :: "fe \<Rightarrow> fe" where
  "feSquareGeneric a =
     (let a0 = l0 a; a1 = l1 a; a2 = l2 a; a3 = l3 a; a4 = l4 a;
          r0 = fe_mul a0 a0;
          r0 = addMul38 r0 a1 a4;
          r0 = addMul38 r0 a2 a3;
          r1 = fe_mul (a0 * 2) a1;
          r1 = addMul38 r1 a2 a4;
          r1 = addMul19 r1 a3 a3;
          r2 = fe_mul (a0 * 2) a2;
          r2 = addMul r2 a1 a1;
          r2 = addMul38 r2 a3 a4;
          r3 = fe_mul (a0 * 2) a3;
          r3 = addMul r3 (a1 * 2) a2;
          r3 = addMul19 r3 a4 a4;
          r4 = fe_mul (a0 * 2) a4;
          r4 = addMul r4 (a1 * 2) a3;
          r4 = addMul r4 a2 a2
      in fe_columns r0 r1 r2 r3 r4)"

definition fe_Multiply :: "fe \<Rightarrow> fe \<Rightarrow> fe" where
  "fe_Multiply x y = feMulGeneric x y"

definition fe_Square :: "fe \<Rightarrow> fe" where
  "fe_Square x = feSquareGeneric x"

section \<open>Reduction, sums and differences\<close>

definition fe_reduce :: "fe \<Rightarrow> fe" where
  "fe_reduce v =
     (let v = carryPropagate v;
          c = drop_bit 51 (l0 v + 19);
          c = drop_bit 51 (l1 v + c);
          c = drop_bit 51 (l2 v + c);
          c = drop_bit 51 (l3 v + c);
          c = drop_bit 51 (l4 v + c);
          v = v\<lparr>l0 := l0 v + 19 * c\<rparr>;
          v = v\<lparr>l1 := l1 v + drop_bit 51 (l0 v)\<rparr>;
          v = v\<lparr>l0 := l0 v AND maskLow51Bits\<rparr>;
          v = v\<lparr>l2 := l2 v + drop_bit 51 (l1 v)\<rparr>;
          v = v\<lparr>l1 := l1 v AND maskLow51Bits\<rparr>;
          v = v\<lparr>l3 := l3 v + drop_bit 51 (l2 v)\<rparr>;
          v = v\<lparr>l2 := l2 v AND maskLow51Bits\<rparr>;
          v = v\<lparr>l4 := l4 v + drop_bit 51 (l3 v)\<rparr>;
          v = v\<lparr>l3 := l3 v AND maskLow51Bits\<rparr>;
          v = v\<lparr>l4 := l4 v AND maskLow51Bits\<rparr>
      in v)"

definition fe_Add :: "fe \<Rightarrow> fe \<Rightarrow> fe" where
  "fe_Add a b =
     carryPropagate
       \<lparr>l0 = l0 a + l0 b, l1 = l1 a + l1 b, l2 = l2 a + l2 b, l3 = l3 a + l3 b, l4 = l4 a + l4 b\<rparr>"

definition fe_Subtract :: "fe \<Rightarrow> fe \<Rightarrow> fe" where
  "fe_Subtract a b =
     carryPropagate
       \<lparr>l0 = (l0 a + 0xFFFFFFFFFFFDA) - l0 b,
        l1 = (l1 a + 0xFFFFFFFFFFFFE) - l1 b,
        l2 = (l2 a + 0xFFFFFFFFFFFFE) - l2 b,
        l3 = (l3 a + 0xFFFFFFFFFFFFE) - l3 b,
        l4 = (l4 a + 0xFFFFFFFFFFFFE) - l4 b\<rparr>"

definition fe_Negate :: "fe \<Rightarrow> fe" where
  "fe_Negate a = fe_Subtract feZero a"

definition mul51 :: "uint64 \<Rightarrow> uint32 \<Rightarrow> uint64 \<times> uint64" where
  "mul51 a b =
     (let (mh, ml) = Mul64 a (ucast b)
      in (ml AND maskLow51Bits, push_bit 13 mh OR drop_bit 51 ml))"

definition fe_Mult32 :: "fe \<Rightarrow> uint32 \<Rightarrow> fe" where
  "fe_Mult32 x y =
     (let (x0lo, x0hi) = mul51 (l0 x) y;
          (x1lo, x1hi) = mul51 (l1 x) y;
          (x2lo, x2hi) = mul51 (l2 x) y;
          (x3lo, x3hi) = mul51 (l3 x) y;
          (x4lo, x4hi) = mul51 (l4 x) y
      in \<lparr>l0 = x0lo + 19 * x4hi, l1 = x1lo + x0hi, l2 = x2lo + x1hi, l3 = x3lo + x2hi, l4 = x4lo + x3hi\<rparr>)"

section \<open>Bytes\<close>

definition slice_go :: "nat \<Rightarrow> nat \<Rightarrow> byte list \<Rightarrow> byte list go" where
  "slice_go i j x = (if i \<le> j \<and> j \<le> length x then Inr (drop i (take j x)) else Inl SliceBoundsOutOfRange)"

definition le_field :: "byte list \<Rightarrow> nat \<Rightarrow> nat \<Rightarrow> nat \<Rightarrow> uint64 go" where
  "le_field x i j s =
     bind_go (slice_go i j x) (\<lambda>b. bind_go (LEUint64 b) (\<lambda>w. Inr (drop_bit s w AND maskLow51Bits)))"

definition fe_SetBytes :: "byte list \<Rightarrow> (fe option \<times> goerror option) go" where
  "fe_SetBytes x =
     (if length x \<noteq> 32 then Inr (None, Some (NewError ''edwards25519: invalid field element input size''))
      else
        bind_go (le_field x 0 8 0) (\<lambda>w0.
        bind_go (le_field x 6 14 3) (\<lambda>w1.
        bind_go (le_field x 12 20 6) (\<lambda>w2.
        bind_go (le_field x 19 27 1) (\<lambda>w3.
        bind_go (le_field x 24 32 12) (\<lambda>w4.
          Inr (Some \<lparr>l0 = w0, l1 = w1, l2 = w2, l3 = w3, l4 = w4\<rparr>, None)))))))"

text \<open>\<open>LEPutUint64(out[8 * i:], u)\<close> on the array of the result.\<close>

definition put_word :: "nat \<Rightarrow> uint64 \<Rightarrow> byte list \<Rightarrow> byte list go" where
  "put_word i u out = map_sum id (\<lambda>b. take (i * 8) out @ b) (LEPutUint64 (drop (i * 8) out) u)"

definition fe_Bytes :: "fe \<Rightarrow> byte list go" where
  "fe_Bytes v =
     (let t = fe_reduce v;
          u0 = push_bit 51 (l1 t) OR l0 t;
          u1 = push_bit (102 - 64) (l2 t) OR drop_bit (64 - 51) (l1 t);
          u2 = push_bit (153 - 128) (l3 t) OR drop_bit (128 - 102) (l2 t);
          u3 = push_bit (204 - 192) (l4 t) OR drop_bit (192 - 153) (l3 t)
      in bind_go (put_word 0 u0 (replicate 32 0)) (\<lambda>out.
         bind_go (put_word 1 u1 out) (\<lambda>out.
         bind_go (put_word 2 u2 out) (\<lambda>out. put_word 3 u3 out))))"

text \<open>The intrinsic \<open>boolToUint8\<close> is the conversion its name says.\<close>

definition ByteEq :: "byte \<Rightarrow> byte \<Rightarrow> nat" where
  "ByteEq x y = of_bool (x = y)"

definition ConstantTimeCompare :: "byte list \<Rightarrow> byte list \<Rightarrow> nat" where
  "ConstantTimeCompare x y =
     (if length x \<noteq> length y then 0
      else ByteEq (fold (\<lambda>i v. v OR (x ! i XOR y ! i)) [0..<length x] 0) 0)"

definition fe_Equal :: "fe \<Rightarrow> fe \<Rightarrow> nat go" where
  "fe_Equal v u =
     bind_go (fe_Bytes u) (\<lambda>sa. bind_go (fe_Bytes v) (\<lambda>sv. Inr (ConstantTimeCompare sa sv)))"

definition fe_IsNegative :: "fe \<Rightarrow> nat go" where
  "fe_IsNegative v = bind_go (fe_Bytes v) (\<lambda>b. if b = [] then Inl IndexOutOfRange else Inr (unat (b ! 0 AND 1)))"

section \<open>Selection\<close>

definition mask64Bits :: "nat \<Rightarrow> uint64" where
  "mask64Bits cond = NOT (of_nat cond - 1)"

definition fe_Select :: "fe \<Rightarrow> fe \<Rightarrow> nat \<Rightarrow> fe" where
  "fe_Select a b cond =
     (let m = mask64Bits cond
      in \<lparr>l0 = (m AND l0 a) OR (NOT m AND l0 b),
          l1 = (m AND l1 a) OR (NOT m AND l1 b),
          l2 = (m AND l2 a) OR (NOT m AND l2 b),
          l3 = (m AND l3 a) OR (NOT m AND l3 b),
          l4 = (m AND l4 a) OR (NOT m AND l4 b)\<rparr>)"

definition fe_Swap :: "fe \<Rightarrow> fe \<Rightarrow> nat \<Rightarrow> fe \<times> fe" where
  "fe_Swap v u cond =
     (let m = mask64Bits cond;
          t = m AND (l0 v XOR l0 u); v = v\<lparr>l0 := l0 v XOR t\<rparr>; u = u\<lparr>l0 := l0 u XOR t\<rparr>;
          t = m AND (l1 v XOR l1 u); v = v\<lparr>l1 := l1 v XOR t\<rparr>; u = u\<lparr>l1 := l1 u XOR t\<rparr>;
          t = m AND (l2 v XOR l2 u); v = v\<lparr>l2 := l2 v XOR t\<rparr>; u = u\<lparr>l2 := l2 u XOR t\<rparr>;
          t = m AND (l3 v XOR l3 u); v = v\<lparr>l3 := l3 v XOR t\<rparr>; u = u\<lparr>l3 := l3 u XOR t\<rparr>;
          t = m AND (l4 v XOR l4 u); v = v\<lparr>l4 := l4 v XOR t\<rparr>; u = u\<lparr>l4 := l4 u XOR t\<rparr>
      in (v, u))"

definition fe_Absolute :: "fe \<Rightarrow> fe go" where
  "fe_Absolute u = bind_go (fe_IsNegative u) (\<lambda>c. Inr (fe_Select (fe_Negate u) u c))"

section \<open>Powers\<close>

text \<open>A loop that squares \<open>t\<close> in place \<open>n\<close> times is \<open>(fe_Square ^^ n) t\<close>.\<close>

definition fe_Invert :: "fe \<Rightarrow> fe" where
  "fe_Invert z =
     (let z2 = fe_Square z;
          t = fe_Square z2;
          t = fe_Square t;
          z9 = fe_Multiply t z;
          z11 = fe_Multiply z9 z2;
          t = fe_Square z11;
          z2_5_0 = fe_Multiply t z9;
          t = fe_Square z2_5_0;
          t = (fe_Square ^^ 4) t;
          z2_10_0 = fe_Multiply t z2_5_0;
          t = fe_Square z2_10_0;
          t = (fe_Square ^^ 9) t;
          z2_20_0 = fe_Multiply t z2_10_0;
          t = fe_Square z2_20_0;
          t = (fe_Square ^^ 19) t;
          t = fe_Multiply t z2_20_0;
          t = fe_Square t;
          t = (fe_Square ^^ 9) t;
          z2_50_0 = fe_Multiply t z2_10_0;
          t = fe_Square z2_50_0;
          t = (fe_Square ^^ 49) t;
          z2_100_0 = fe_Multiply t z2_50_0;
          t = fe_Square z2_100_0;
          t = (fe_Square ^^ 99) t;
          t = fe_Multiply t z2_100_0;
          t = fe_Square t;
          t = (fe_Square ^^ 49) t;
          t = fe_Multiply t z2_50_0;
          t = fe_Square t;
          t = fe_Square t;
          t = fe_Square t;
          t = fe_Square t;
          t = fe_Square t
      in fe_Multiply t z11)"

definition fe_Pow22523 :: "fe \<Rightarrow> fe" where
  "fe_Pow22523 x =
     (let t0 = fe_Square x;
          t1 = fe_Square t0;
          t1 = fe_Square t1;
          t1 = fe_Multiply x t1;
          t0 = fe_Multiply t0 t1;
          t0 = fe_Square t0;
          t0 = fe_Multiply t1 t0;
          t1 = fe_Square t0;
          t1 = (fe_Square ^^ 4) t1;
          t0 = fe_Multiply t1 t0;
          t1 = fe_Square t0;
          t1 = (fe_Square ^^ 9) t1;
          t1 = fe_Multiply t1 t0;
          t2 = fe_Square t1;
          t2 = (fe_Square ^^ 19) t2;
          t1 = fe_Multiply t2 t1;
          t1 = fe_Square t1;
          t1 = (fe_Square ^^ 9) t1;
          t0 = fe_Multiply t1 t0;
          t1 = fe_Square t0;
          t1 = (fe_Square ^^ 49) t1;
          t1 = fe_Multiply t1 t0;
          t2 = fe_Square t1;
          t2 = (fe_Square ^^ 99) t2;
          t1 = fe_Multiply t2 t1;
          t1 = fe_Square t1;
          t1 = (fe_Square ^^ 49) t1;
          t0 = fe_Multiply t1 t0;
          t0 = fe_Square t0;
          t0 = fe_Square t0
      in fe_Multiply t0 x)"

definition sqrtM1 :: fe where
  "sqrtM1 = \<lparr>l0 = 1718705420411056, l1 = 234908883556509, l2 = 2233514472574048, l3 = 2117202627021982, l4 = 765476049583133\<rparr>"

definition fe_SqrtRatio :: "fe \<Rightarrow> fe \<Rightarrow> (fe \<times> nat) go" where
  "fe_SqrtRatio u v =
     (let v2 = fe_Square v;
          uv3 = fe_Multiply u (fe_Multiply v2 v);
          uv7 = fe_Multiply uv3 (fe_Square v2);
          rr = fe_Multiply uv3 (fe_Pow22523 uv7);
          check = fe_Multiply v (fe_Square rr);
          uNeg = fe_Negate u
      in bind_go (fe_Equal check u) (\<lambda>correctSignSqrt.
         bind_go (fe_Equal check uNeg) (\<lambda>flippedSignSqrt.
         bind_go (fe_Equal check (fe_Multiply uNeg sqrtM1)) (\<lambda>flippedSignSqrtI.
           let rPrime = fe_Multiply rr sqrtM1;
               rr = fe_Select rPrime rr (flippedSignSqrt OR flippedSignSqrtI)
           in bind_go (fe_Absolute rr) (\<lambda>r. Inr (r, correctSignSqrt OR flippedSignSqrt))))))"

end
