(* ===== verification/Bits_Correct.thy ===== *)
theory Bits_Correct
  imports Bits
begin

text \<open>
  Correctness of \<open>math/bits\<close>: bit lengths and trailing zeros against their arithmetic
  meaning, reversal bit by bit, and the extended-precision operations against exact
  arithmetic on naturals.
\<close>

section \<open>Bit lengths\<close>

definition bitlen :: "nat \<Rightarrow> nat \<Rightarrow> bool" where
  "bitlen n k \<longleftrightarrow> (if n = 0 then k = 0 else 0 < k \<and> 2 ^ (k - 1) \<le> n \<and> n < 2 ^ k)"

lemma len8tab_nth:
  "len8tab ! 0 = 0" "len8tab ! Suc 0 = 1"
  "2 \<le> n \<Longrightarrow> n < 4 \<Longrightarrow> len8tab ! n = 2"
  "4 \<le> n \<Longrightarrow> n < 8 \<Longrightarrow> len8tab ! n = 3"
  "8 \<le> n \<Longrightarrow> n < 16 \<Longrightarrow> len8tab ! n = 4"
  "16 \<le> n \<Longrightarrow> n < 32 \<Longrightarrow> len8tab ! n = 5"
  "32 \<le> n \<Longrightarrow> n < 64 \<Longrightarrow> len8tab ! n = 6"
  "64 \<le> n \<Longrightarrow> n < 128 \<Longrightarrow> len8tab ! n = 7"
  "128 \<le> n \<Longrightarrow> n < 256 \<Longrightarrow> len8tab ! n = 8"
  by (simp_all add: len8tab_def nth_append nth_Cons' less_diff_conv2)

lemma bitlen_len8tab:
  assumes "n < 256"
  shows "bitlen n (len8tab ! n)"
proof -
  consider "n = 0" | "n = 1" | "2 \<le> n" "n < 4" | "4 \<le> n" "n < 8" | "8 \<le> n" "n < 16"
    | "16 \<le> n" "n < 32" | "32 \<le> n" "n < 64" | "64 \<le> n" "n < 128" | "128 \<le> n" "n < 256"
    using assms by linarith
  then show ?thesis by cases (simp_all add: len8tab_nth bitlen_def)
qed

lemma bitlen_shift:
  assumes "2 ^ j \<le> n" "bitlen (n div 2 ^ j) k"
  shows "bitlen n (k + j)"
proof -
  have nz: "n div 2 ^ j \<noteq> 0" using assms(1) by (simp add: div_eq_0_iff)
  with assms(2) have k: "0 < k" "2 ^ (k - 1) \<le> n div 2 ^ j" "n div 2 ^ j < 2 ^ k"
    by (auto simp: bitlen_def)
  have "2 ^ (k + j - 1) = 2 ^ (k - 1) * (2 ^ j :: nat)"
    using k(1) by (simp flip: power_add)
  also have "\<dots> \<le> n" using k(2) by (metis less_eq_div_iff_mult_less_eq zero_less_numeral zero_less_power)
  finally have "2 ^ (k + j - 1) \<le> n" .
  moreover have "n < 2 ^ (k + j)"
    using k(3) by (simp add: power_add div_less_iff_less_mult)
  moreover have "n \<noteq> 0" using nz by (cases n) auto
  ultimately show ?thesis using k(1) by (simp add: bitlen_def)
qed

lemma bitlen_len8_ucast:
  "unat (x :: 'a::len word) < 256 \<Longrightarrow> bitlen (unat x) (len8tab ! unat (ucast x :: byte))"
  by (simp add: unat_ucast_gen bitlen_len8tab)

lemma bitlen_Len64: "bitlen (unat x) (Len64 x)"
proof -
  define x1 n1 where "x1 = (if x \<ge> 2 ^ 32 then drop_bit 32 x else x)"
    and "n1 = (if x \<ge> 2 ^ 32 then 32 else 0 :: nat)"
  define x2 n2 where "x2 = (if x1 \<ge> 2 ^ 16 then drop_bit 16 x1 else x1)"
    and "n2 = (if x1 \<ge> 2 ^ 16 then n1 + 16 else n1)"
  define x3 n3 where "x3 = (if x2 \<ge> 2 ^ 8 then drop_bit 8 x2 else x2)"
    and "n3 = (if x2 \<ge> 2 ^ 8 then n2 + 8 else n2)"
  have len: "Len64 x = n3 + len8tab ! unat (ucast x3 :: byte)"
    unfolding Len64_def Let_def x3_def n3_def x2_def n2_def x1_def n1_def by auto
  have b1: "unat x1 < 2 ^ 32"
    using unsigned_less [of x] by (auto simp: x1_def word_le_nat_alt unat_drop_bit div_less_iff_less_mult)
  have b2: "unat x2 < 2 ^ 16"
    using b1 by (auto simp: x2_def word_le_nat_alt unat_drop_bit div_less_iff_less_mult)
  have b3: "unat x3 < 256"
    using b2 by (auto simp: x3_def word_le_nat_alt unat_drop_bit div_less_iff_less_mult)
  define k where "k = len8tab ! unat (ucast x3 :: byte)"
  have "bitlen (unat x3) k" unfolding k_def by (rule bitlen_len8_ucast [OF b3])
  then have "bitlen (unat x2) (k + (n3 - n2))"
    using bitlen_shift [of 8 "unat x2" k] by (auto simp: x3_def n3_def word_le_nat_alt unat_drop_bit)
  then have "bitlen (unat x1) (k + (n3 - n2) + (n2 - n1))"
    using bitlen_shift [of 16 "unat x1" "k + (n3 - n2)"]
    by (auto simp: x2_def n2_def word_le_nat_alt unat_drop_bit add.assoc)
  then have "bitlen (unat x) (k + (n3 - n2) + (n2 - n1) + n1)"
    using bitlen_shift [of 32 "unat x" "k + (n3 - n2) + (n2 - n1)"]
    by (auto simp: x1_def n1_def word_le_nat_alt unat_drop_bit add.assoc)
  moreover have "k + (n3 - n2) + (n2 - n1) + n1 = n3 + k"
    by (simp add: n3_def n2_def)
  ultimately show ?thesis by (simp add: len k_def add.commute)
qed

section \<open>Addition and subtraction with carry\<close>

lemma drop_bit_top: "unat (drop_bit 63 (w :: uint64)) = (if 2 ^ 63 \<le> unat w then 1 else 0)"
  using unsigned_less [of w] by (auto simp: unat_drop_bit intro: div_nat_eqI)

lemma bit_top: "bit (w :: uint64) 63 \<longleftrightarrow> 2 ^ 63 \<le> unat w"
proof -
  have "bit w 63 \<longleftrightarrow> odd (unat w div 2 ^ 63)"
    using bit_unsigned_iff [of w 63, where 'a = nat] by (simp add: bit_iff_odd)
  moreover have "unat w div 2 ^ 63 = (if 2 ^ 63 \<le> unat w then 1 else 0)"
    using drop_bit_top [of w] by (simp add: unat_drop_bit)
  ultimately show ?thesis by simp
qed

lemma unat_add_cases:
  fixes x y :: "'a::len word"
  shows "unat (x + y) = (if unat x + unat y < 2 ^ LENGTH('a) then unat x + unat y
                         else unat x + unat y - 2 ^ LENGTH('a))"
proof -
  have "unat (x + y) = (unat x + unat y) mod 2 ^ LENGTH('a)" by (simp add: unat_word_ariths)
  moreover have "unat x + unat y < 2 * 2 ^ LENGTH('a)"
    using unsigned_less [of x, where 'a = nat] unsigned_less [of y, where 'a = nat] by linarith
  ultimately show ?thesis by (simp add: mod_if le_mod_geq not_less)
qed

lemma unat_sub_cases:
  fixes x y :: "'a::len word"
  shows "unat (x - y) = (if unat y \<le> unat x then unat x - unat y
                         else 2 ^ LENGTH('a) + unat x - unat y)"
  using unat_sub_if' [of x y] by (simp add: add.commute)

lemma carry_bit: "unat (drop_bit 63 (w :: uint64)) = (if bit w 63 then 1 else 0)"
  by (simp only: drop_bit_top bit_top)

lemma Add64_exact:
  assumes "unat carry \<le> 1" "Add64 x y carry = (s, carryOut)"
  shows "unat carryOut * 2 ^ 64 + unat s = unat x + unat y + unat carry \<and> unat carryOut \<le> 1"
proof -
  have s: "s = x + y + carry" and c: "carryOut = drop_bit 63 ((x AND y) OR ((x OR y) AND NOT s))"
    using assms(2) by (auto simp: Add64_def Let_def)
  obtain a b d where v: "unat x = a" "unat y = b" "unat carry = d" by blast
  have lt: "a < 2 ^ 64" "b < 2 ^ 64" using unsigned_less [of x, where 'a = nat] unsigned_less [of y, where 'a = nat] v by simp_all
  have co: "unat carryOut = (if 2 ^ 63 \<le> a \<and> 2 ^ 63 \<le> b \<or> (2 ^ 63 \<le> a \<or> 2 ^ 63 \<le> b) \<and> \<not> 2 ^ 63 \<le> unat s then 1 else 0)"
    by (simp only: c carry_bit bit_or_iff bit_and_iff bit_not_iff) (simp add: bit_top v)
  have su: "unat s = (if a + b + d < 2 ^ 64 then a + b + d else a + b + d - 2 ^ 64)"
    using lt assms(1) by (simp add: s unat_add_cases v)
  show ?thesis using lt assms(1) by (auto simp: co su v)
qed

lemma Sub64_exact:
  assumes "unat borrow \<le> 1" "Sub64 x y borrow = (diff, borrowOut)"
  shows "unat diff + unat y + unat borrow = unat x + unat borrowOut * 2 ^ 64 \<and> unat borrowOut \<le> 1"
proof -
  have s: "diff = x - y - borrow" and c: "borrowOut = drop_bit 63 ((NOT x AND y) OR (NOT (x XOR y) AND diff))"
    using assms(2) by (auto simp: Sub64_def Let_def)
  obtain a b d where v: "unat x = a" "unat y = b" "unat borrow = d" by blast
  have lt: "a < 2 ^ 64" "b < 2 ^ 64" using unsigned_less [of x, where 'a = nat] unsigned_less [of y, where 'a = nat] v by simp_all
  have co: "unat borrowOut = (if \<not> 2 ^ 63 \<le> a \<and> 2 ^ 63 \<le> b \<or> (2 ^ 63 \<le> a \<longleftrightarrow> 2 ^ 63 \<le> b) \<and> 2 ^ 63 \<le> unat diff then 1 else 0)"
    by (simp only: c carry_bit bit_or_iff bit_and_iff bit_not_iff bit_xor_iff) (simp add: bit_top v)
  have su: "unat diff = (if b + d \<le> a then a - b - d else 2 ^ 64 + a - b - d)"
    using lt assms(1) by (auto simp: s unat_sub_cases v)
  show ?thesis using lt assms(1) by (auto simp: co su v split: if_splits)
qed

section \<open>Multiplication\<close>

lemma two_digits: "(p :: nat) < B \<Longrightarrow> q < B \<Longrightarrow> p * B + q < B * B"
proof -
  assume "p < B" "q < B"
  then have "p * B + q < Suc p * B" by simp
  also have "\<dots> \<le> B * B" using \<open>p < B\<close> by (intro mult_le_mono1) simp
  finally show ?thesis .
qed

lemma mul_split:
  fixes B x0 x1 y0 y1 :: nat
  assumes B: "0 < B"
  defines "t \<equiv> x1 * y0 + x0 * y0 div B"
  defines "w1 \<equiv> t mod B + x0 * y1"
  shows "(x1 * B + x0) * (y1 * B + y0) div (B * B) = x1 * y1 + t div B + w1 div B"
proof -
  have "(x1 * B + x0) * (y1 * B + y0) = x1 * y1 * (B * B) + (x1 * y0 + x0 * y1) * B + x0 * y0"
    by (simp add: algebra_simps)
  also have "x0 * y0 = (x0 * y0 div B) * B + x0 * y0 mod B" by simp
  also have "x1 * y1 * (B * B) + (x1 * y0 + x0 * y1) * B + ((x0 * y0 div B) * B + x0 * y0 mod B)
     = x1 * y1 * (B * B) + (t + x0 * y1) * B + x0 * y0 mod B"
    by (simp add: t_def algebra_simps)
  also have "t + x0 * y1 = (t div B) * B + w1" by (simp add: w1_def)
  also have "x1 * y1 * (B * B) + (t div B * B + w1) * B + x0 * y0 mod B
      = (x1 * y1 + t div B) * (B * B) + w1 * B + x0 * y0 mod B"
    by (simp add: distrib_right mult.assoc)
  also have "w1 * B = w1 div B * (B * B) + w1 mod B * B"
    by (metis div_mult_mod_eq distrib_right mult.assoc)
  also have "(x1 * y1 + t div B) * (B * B) + (w1 div B * (B * B) + w1 mod B * B) + x0 * y0 mod B
      = (x1 * y1 + t div B + w1 div B) * (B * B) + (w1 mod B * B + x0 * y0 mod B)"
    by (simp add: distrib_right)
  finally show ?thesis using B two_digits [of "w1 mod B" B "x0 * y0 mod B"] by simp
qed

lemma unat_and_mask32: "unat (w AND mask32) = unat w mod 2 ^ 32"
  using unat_and_mask [of w 32] by (simp add: mask_eq_exp_minus_1)

lemma unat_mult_lt:
  "unat x * unat y < 2 ^ LENGTH('a) \<Longrightarrow> unat (x * y) = unat x * unat (y :: 'a::len word)"
  by (simp add: unat_word_ariths)

lemma unat_add_lt:
  "unat x + unat y < 2 ^ LENGTH('a) \<Longrightarrow> unat (x + y) = unat x + unat (y :: 'a::len word)"
  by (simp add: unat_word_ariths)

lemma Mul64_exact:
  assumes "Mul64 x y = (hi, lo)"
  shows "unat hi * 2 ^ 64 + unat lo = unat x * unat y"
proof -
  define B :: nat where "B = 2 ^ 32"
  define X0 X1 Y0 Y1 where "X0 = unat x mod B" and "X1 = unat x div B"
    and "Y0 = unat y mod B" and "Y1 = unat y div B"
  define T where "T = X1 * Y0 + X0 * Y0 div B"
  define W1 where "W1 = T mod B + X0 * Y1"
  have B0: "0 < B" and BB: "B * B = 2 ^ 64" by (simp_all add: B_def)
  have b: "X0 < B" "Y0 < B" "X1 < B" "Y1 < B"
    using unsigned_less [of x, where 'a = nat] unsigned_less [of y, where 'a = nat]
    by (auto simp: X0_def Y0_def X1_def Y1_def div_less_iff_less_mult B0 BB)
  have le: "p * q \<le> (B - 1) * (B - 1)" if "p < B" "q < B" for p q
    using that by (intro mult_le_mono) auto
  have sq: "(B - 1) * (B - 1) + 2 * (B - 1) < B * B" by (simp add: B_def)
  have d: "p * q div B \<le> B - 1" if "p < B" "q < B" for p q
  proof -
    have "p * q < B * B" using that by (intro mult_strict_mono) auto
    then show ?thesis using B0 by (metis Suc_pred' less_Suc_eq_le div_less_iff_less_mult)
  qed
  have T: "T \<le> (B - 1) * (B - 1) + (B - 1)" unfolding T_def using le d b by (intro add_mono) auto
  have m: "T mod B \<le> B - 1" using B0 by (metis Suc_pred' less_Suc_eq_le mod_less_divisor)
  have W1: "W1 \<le> (B - 1) * (B - 1) + (B - 1)" unfolding W1_def using m le [of X0 Y1] b by simp
  have hilo: "hi = drop_bit 32 x * drop_bit 32 y + drop_bit 32 (drop_bit 32 x * (y AND mask32) + drop_bit 32 ((x AND mask32) * (y AND mask32)))
     + drop_bit 32 (((drop_bit 32 x * (y AND mask32) + drop_bit 32 ((x AND mask32) * (y AND mask32))) AND mask32) + (x AND mask32) * drop_bit 32 y)"
    "lo = x * y"
    using assms by (auto simp: Mul64_def Let_def)
  have u: "unat (x AND mask32) = X0" "unat (y AND mask32) = Y0" "unat (drop_bit 32 x) = X1" "unat (drop_bit 32 y) = Y1"
    by (simp_all only: unat_and_mask32 unat_drop_bit X0_def X1_def Y0_def Y1_def B_def)
  define t where "t = drop_bit 32 x * (y AND mask32) + drop_bit 32 ((x AND mask32) * (y AND mask32))"
  define w where "w = (t AND mask32) + (x AND mask32) * drop_bit 32 y"
  have hi': "hi = drop_bit 32 x * drop_bit 32 y + drop_bit 32 t + drop_bit 32 w"
    by (simp only: hilo t_def w_def)
  have L: "2 ^ LENGTH(64) = B * B" by (simp add: B_def)
  have addB: "unat (v + w) = unat v + unat w" if "unat v + unat w < B * B" for v w :: uint64
    using that unfolding L [symmetric] by (rule unat_add_lt)
  have mulB: "unat (v * w) = unat v * unat w" if "unat v < B" "unat w < B" for v w :: uint64
    using le [OF that] sq unfolding L [symmetric] by (intro unat_mult_lt) linarith
  have dB: "unat (drop_bit 32 w) = unat w div B" and mB: "unat (w AND mask32) = unat w mod B" for w :: uint64
    by (simp_all only: unat_and_mask32 unat_drop_bit B_def)
  have "X1 * Y0 + X0 * Y0 div B < B * B" using T sq by (simp add: T_def)
  then have t: "unat t = T" by (simp only: t_def T_def addB mulB b u dB [of "(x AND mask32) * (y AND mask32)"])
  have "T mod B + X0 * Y1 < B * B" using W1 sq by (simp add: W1_def)
  then have w: "unat w = W1" by (simp only: w_def W1_def addB mulB b u mB [of t] t)
  have eq: "unat x * unat y div (B * B) = X1 * Y1 + T div B + W1 div B"
    using mul_split [OF B0, of X1 X0 Y1 Y0] by (simp add: X0_def X1_def Y0_def Y1_def T_def W1_def)
  have "unat x * unat y < B * B * (B * B)"
    using unsigned_less [of x, where 'a = nat] unsigned_less [of y, where 'a = nat] L
    by (intro mult_strict_mono) auto
  then have "unat x * unat y div (B * B) < B * B" using B0 by (simp only: div_less_iff_less_mult mult_pos_pos)
  then have "X1 * Y1 + T div B + W1 div B < B * B" by (simp only: eq)
  then have "unat hi = X1 * Y1 + T div B + W1 div B"
    by (simp only: hi' addB mulB b u dB [of t] dB [of w] t w add_lessD1 [of "X1 * Y1 + T div B"])
  moreover have "unat lo = unat x * unat y mod 2 ^ 64" by (simp add: hilo unat_word_ariths)
  ultimately show ?thesis using eq BB by (metis div_mult_mod_eq)
qed


section \<open>Division\<close>

text \<open>
  One digit of the long division of \<open>u * B + d\<close> by a normalised two-digit divisor
  \<open>v = v1 * B + v0\<close>.  The invariant of the correction loop is that the trial digit \<open>q\<close>
  is not below the true one and that \<open>q * v1 + rhat = u\<close>.
\<close>

lemma trial_too_big:
  fixes B u d v v1 v0 q rhat :: nat
  assumes "v = v1 * B + v0" "q * v1 + rhat = u"
  shows "q * v0 > B * rhat + d \<longleftrightarrow> q * v > u * B + d"
proof -
  have "q * v = q * v1 * B + q * v0" by (simp add: assms(1) algebra_simps)
  moreover have "u * B = q * v1 * B + B * rhat" by (simp add: assms(2)[symmetric] algebra_simps)
  ultimately show ?thesis by simp
qed

lemma word_of_nat_eqI: "unat w = n \<Longrightarrow> w = word_of_nat n"
  by auto

lemma trial_le_div:
  fixes v :: nat
  assumes "0 < v"
  shows "q * v \<le> n \<longleftrightarrow> q \<le> n div v"
  using assms by (simp add: less_eq_div_iff_mult_less_eq)

lemma unat_le_two32: "x \<ge> two32 \<longleftrightarrow> unat x \<ge> 2 ^ 32"
  by (simp add: word_le_nat_alt)

lemma div64_adjust_exact:
  fixes u :: nat
  assumes v: "v = unat yn1 * 2 ^ 32 + unat yn0"
    and b: "2 ^ 31 \<le> unat yn1" "unat yn1 < 2 ^ 32" "unat yn0 < 2 ^ 32" "unat un < 2 ^ 32"
    and u: "u < v"
    and inv: "unat q * unat yn1 + unat rhat = u" "(u * 2 ^ 32 + unat un) div v \<le> unat q"
      "unat q \<le> 2 ^ 32 + 1" "unat rhat < 2 ^ 32"
  shows "\<exists>r. div64_adjust yn1 yn0 un q rhat = Some (word_of_nat ((u * 2 ^ 32 + unat un) div v), r)"
  using inv
proof (induction "2 ^ 32 - unat rhat" arbitrary: q rhat rule: less_induct)
  case less
  define B :: nat where "B = 2 ^ 32"
  define Q where "Q = (u * B + unat un) div v"
  have v0: "0 < v" using b(1) by (simp add: v)
  have QB: "Q < B"
  proof -
    have "u * B + unat un < v * B" using u b(4) unfolding B_def[symmetric]
      by (metis add.commute add_less_le_mono less_le_trans mult_Suc mult_le_mono1 Suc_leI nat_add_left_cancel_less)
    then show ?thesis using v0 by (simp add: Q_def div_less_iff_less_mult mult.commute)
  qed
  have pr: "p * r < 2 ^ LENGTH(64)" if "p < B" "r < B" for p r
    using two_digits [of p B 0] mult_strict_mono [OF that] that by (simp add: B_def)
  have mul: "unat (q * yn0) = unat q * unat yn0" if "unat q < B"
    using pr that b(3) by (intro unat_mult_lt) (simp add: B_def)
  have add: "unat (two32 * rhat + un) = B * unat rhat + unat un"
  proof -
    have "unat rhat * B + unat un < B * B"
      using less.prems(4) b(4) by (intro two_digits) (simp_all add: B_def)
    then show ?thesis
      by (subst unat_add_lt; subst unat_mult_lt) (simp_all add: B_def)
  qed
  have cond: "(q \<ge> two32 \<or> q * yn0 > two32 * rhat + un) \<longleftrightarrow> Q < unat q"
  proof (cases "unat q < B")
    case True
    then have "(q \<ge> two32 \<or> q * yn0 > two32 * rhat + un)
        \<longleftrightarrow> unat q * unat yn0 > B * unat rhat + unat un"
      by (simp only: word_less_nat_alt mul add unat_le_two32 B_def) simp
    also have "\<dots> \<longleftrightarrow> unat q * v > u * B + unat un"
      by (rule trial_too_big [OF v [folded B_def] less.prems(1)])
    also have "\<dots> \<longleftrightarrow> Q < unat q" using trial_le_div [OF v0] by (metis Q_def not_less)
    finally show ?thesis .
  qed (use QB in \<open>simp add: unat_le_two32 B_def\<close>)
  show ?case
  proof (cases "Q < unat q")
    case False
    then have "unat q = Q" using less.prems(2) by (simp add: Q_def B_def)
    then have "q = word_of_nat Q" by (rule word_of_nat_eqI)
    with cond False show ?thesis by (subst div64_adjust.simps) (simp add: Q_def B_def)
  next
    case True
    then have q': "unat (q - 1) = unat q - 1" by (simp add: unat_sub_cases)
    have r': "unat (rhat + yn1) = unat rhat + unat yn1"
      using less.prems(4) b(2) by (intro unat_add_lt) simp
    have inv': "unat (q - 1) * unat yn1 + unat (rhat + yn1) = u"
      using less.prems(1) True by (simp add: q' r' algebra_simps) 
    have Qq: "Q \<le> unat (q - 1)" using True by (simp add: q')
    have step: "div64_adjust yn1 yn0 un q rhat =
       (if rhat + yn1 \<ge> two32 then Some (q - 1, rhat + yn1) else div64_adjust yn1 yn0 un (q - 1) (rhat + yn1))"
      using cond True by (subst div64_adjust.simps) (simp add: Let_def)
    show ?thesis
    proof (cases "unat (rhat + yn1) < B")
      case True
      have "\<exists>r. div64_adjust yn1 yn0 un (q - 1) (rhat + yn1)
          = Some (word_of_nat ((u * 2 ^ 32 + unat un) div v), r)"
      proof (rule less.hyps)
        show "2 ^ 32 - unat (rhat + yn1) < 2 ^ 32 - unat rhat"
          using True r' b(1) less.prems(4) by (simp add: B_def)
        show "unat (q - 1) \<le> 2 ^ 32 + 1" using less.prems(3) q' by simp
      qed (use inv' Qq True in \<open>simp_all add: Q_def B_def\<close>)
      then show ?thesis using True by (simp add: step unat_le_two32 B_def)
    next
      case False
      have "unat (q - 1) * unat yn0 \<le> B * unat (rhat + yn1)"
        using False b(3) less.prems(3) q' by (intro mult_le_mono) (simp_all add: B_def)
      then have "unat (q - 1) \<le> Q"
        using trial_too_big [OF v [folded B_def] inv', of "unat un"] trial_le_div [OF v0]
        by (metis Q_def not_less trans_le_add1)
      then have "q - 1 = word_of_nat Q" using Qq by (intro word_of_nat_eqI) simp
      then show ?thesis using False by (simp add: step unat_le_two32 Q_def B_def)
    qed
  qed
qed

text \<open>The invariant holds for the first trial digit \<open>u div v1\<close>.\<close>

lemma div64_digit:
  assumes v: "v = unat yn1 * 2 ^ 32 + unat yn0"
    and b: "2 ^ 31 \<le> unat yn1" "unat yn1 < 2 ^ 32" "unat yn0 < 2 ^ 32" "unat un < 2 ^ 32"
    and u: "unat u < v"
  shows "\<exists>r. div64_adjust yn1 yn0 un (u div yn1) (u - u div yn1 * yn1)
      = Some (word_of_nat ((unat u * 2 ^ 32 + unat un) div v), r)"
proof (rule div64_adjust_exact [OF v b u])
  obtain U V1 V0 D where n: "unat u = U" "unat yn1 = V1" "unat yn0 = V0" "unat un = D" by blast
  note b = b [unfolded n] and v = v [unfolded n] and u = u [unfolded n]
  have q: "unat (u div yn1) = U div V1" by (simp add: unat_div n)
  have r: "unat (u - u div yn1 * yn1) = U mod V1"
    by (simp add: minus_div_mult_eq_mod unat_mod n)
  show "unat (u div yn1) * unat yn1 + unat (u - u div yn1 * yn1) = unat u"
    by (simp add: q r n)
  show "unat (u - u div yn1 * yn1) < 2 ^ 32" using b(1,2) by (simp add: r less_trans [OF mod_less_divisor])
  have "U < V1 * (2 ^ 32 + 2)" using u v b(1,3) by simp
  then show "unat (u div yn1) \<le> 2 ^ 32 + 1" using b(1) by (simp add: q div_less_iff_less_mult less_Suc_eq_le[symmetric] mult.commute)
  have "(U * 2 ^ 32 + D) div v \<le> (U * 2 ^ 32 + D) div (V1 * 2 ^ 32)"
    using b(1) v by (intro div_le_mono2) auto
  also have "\<dots> = U div V1" using b(4) by (subst mult.commute, subst div_mult2_eq) simp
  finally show "(unat u * 2 ^ 32 + unat un) div v \<le> unat (u div yn1)" by (simp add: q n)
qed

text \<open>The partial remainder is computed modulo \<open>2 ^ 64\<close>, and is exact all the same.\<close>

lemma div64_rem:
  assumes "unat y = v" "0 < v"
  shows "unat (u * two32 + un - word_of_nat ((unat u * 2 ^ 32 + unat un) div v) * y)
      = (unat u * 2 ^ 32 + unat un) mod v"
proof -
  define n where "n = unat u * 2 ^ 32 + unat un"
  have "u * two32 + un = word_of_nat n" by (simp add: n_def)
  moreover have "word_of_nat (n div v) * y = word_of_nat (n div v * v)"
    using assms(1) by auto
  ultimately have "u * two32 + un - word_of_nat (n div v) * y = word_of_nat (n mod v)"
    by (metis add_diff_cancel_left' div_mult_mod_eq of_nat_add)
  moreover have "n mod v < 2 ^ LENGTH(64)"
    using assms unsigned_less [of y, where 'a = nat] by (metis less_trans mod_less_divisor)
  ultimately have "unat (u * two32 + un - word_of_nat (n div v) * y) = n mod v"
    by (simp add: unat_of_nat)
  then show ?thesis by (simp only: n_def)
qed

lemma unat_or_high_low:
  assumes "unat hi < 2 ^ (64 - s)" "s \<le> 64"
  shows "unat (push_bit s hi OR drop_bit (64 - s) lo :: uint64) = unat hi * 2 ^ s + unat lo div 2 ^ (64 - s)"
proof -
  have "unat hi * 2 ^ s < 2 ^ (64 - s) * 2 ^ s" using assms(1) by simp
  also have "\<dots> = 2 ^ 64" using assms(2) by (simp flip: power_add)
  finally have p: "unat (push_bit s hi) = unat hi * 2 ^ s" by (simp add: unat_push_bit_gen)
  have d: "unat (drop_bit (64 - s) lo) = unat lo div 2 ^ (64 - s)" by (rule unat_drop_bit)
  have "(2 :: nat) ^ 64 = 2 ^ s * 2 ^ (64 - s)" using assms(2) by (simp flip: power_add)
  then have "unat lo < 2 ^ s * 2 ^ (64 - s)" using unsigned_less [of lo, where 'a = nat] by simp
  then have "unat lo div 2 ^ (64 - s) < 2 ^ s" by (simp add: div_less_iff_less_mult)
  then show ?thesis by (subst unat_or_disjoint [of s]) (simp_all add: p d)
qed

lemma div64_normalize:
  fixes hi lo :: nat
  assumes "s \<le> 64" "lo < 2 ^ 64"
  shows "(hi * 2 ^ s + lo div 2 ^ (64 - s)) * 2 ^ 64 + lo * 2 ^ s mod 2 ^ 64 = (hi * 2 ^ 64 + lo) * 2 ^ s"
proof -
  have e: "(2 :: nat) ^ 64 = 2 ^ (64 - s) * 2 ^ s" using assms(1) by (simp flip: power_add)
  have "lo * 2 ^ s mod 2 ^ 64 = lo mod 2 ^ (64 - s) * 2 ^ s" unfolding e by simp
  moreover have "lo div 2 ^ (64 - s) * 2 ^ 64 + lo mod 2 ^ (64 - s) * 2 ^ s = lo * 2 ^ s"
    unfolding e by (metis div_mult_mod_eq distrib_right mult.assoc)
  ultimately show ?thesis by (simp add: distrib_right mult.assoc mult.commute [of "2 ^ s"])
qed

lemma div_two_steps:
  fixes u d1 d0 B v :: nat
  assumes "0 < v" "d0 < B"
  defines "n \<equiv> u * B + d1"
  shows "(n * B + d0) div v = n div v * B + (n mod v * B + d0) div v"
    and "(n * B + d0) mod v = (n mod v * B + d0) mod v"
proof -
  have "n * B + d0 = n div v * B * v + (n mod v * B + d0)"
    by (metis add.assoc div_mult_mod_eq distrib_right mult.assoc mult.commute)
  then show "(n * B + d0) div v = n div v * B + (n mod v * B + d0) div v"
    "(n * B + d0) mod v = (n mod v * B + d0) mod v"
    using assms(1) by (simp_all only: div_mult_self3 mod_mult_self3 not_gr_zero)
qed

lemma LeadingZeros64_normal:
  assumes "y \<noteq> 0"
  defines "s \<equiv> LeadingZeros64 y"
  shows "s \<le> 63" "2 ^ 63 \<le> unat y * 2 ^ s" "unat y < 2 ^ (64 - s)"
proof -
  have b: "0 < Len64 y" "2 ^ (Len64 y - 1) \<le> unat y" "unat y < 2 ^ Len64 y"
    using bitlen_Len64 [of y] assms(1) by (auto simp: bitlen_def unat_eq_0)
  have "(2 :: nat) ^ (Len64 y - 1) < 2 ^ 64"
    using b(2) unsigned_less [of y, where 'a = nat] by simp
  then have le: "Len64 y \<le> 64" using b(1) by (subst (asm) power_strict_increasing_iff) simp_all
  show "s \<le> 63" "unat y < 2 ^ (64 - s)"
    using b le by (simp_all add: s_def LeadingZeros64_def)
  have "(2 :: nat) ^ 63 = 2 ^ (Len64 y - 1) * 2 ^ s"
    using b(1) le by (simp add: s_def LeadingZeros64_def flip: power_add)
  also have "\<dots> \<le> unat y * 2 ^ s" using b(2) by simp
  finally show "2 ^ 63 \<le> unat y * 2 ^ s" .
qed

lemma Div64_value:
  fixes hi lo y :: uint64
  assumes hy: "hi < y"
  defines "N \<equiv> unat hi * 2 ^ 64 + unat lo"
  shows "Div64 hi lo y = Some (Inr (word_of_nat (N div unat y), word_of_nat (N mod unat y)))"
proof (cases "hi = 0")
  case True
  then have "lo div y = word_of_nat (N div unat y)" "lo mod y = word_of_nat (N mod unat y)"
    by (auto simp: N_def unat_div unat_mod intro!: word_of_nat_eqI)
  then show ?thesis using hy True by (auto simp: Div64_def)
next
  case False
  define s where "s = LeadingZeros64 y"
  define y' where "y' = push_bit s y"
  define v where "v = unat y * 2 ^ s"
  define u where "u = push_bit s hi OR drop_bit (64 - s) lo"
  define w where "w = push_bit s lo"
  define u2 where "u2 = u * two32 + drop_bit 32 w - word_of_nat ((unat u * 2 ^ 32 + unat (drop_bit 32 w)) div v) * y'"
  have y0: "y \<noteq> 0" "0 < unat y" using hy by (auto simp: word_less_nat_alt)
  note nz = LeadingZeros64_normal [OF y0(1), folded s_def]
  have "unat y * 2 ^ s < 2 ^ (64 - s) * 2 ^ s" using nz(3) by simp
  also have "\<dots> = 2 ^ 64" using nz(1) by (simp flip: power_add)
  finally have v64: "v < 2 ^ 64" by (simp add: v_def)
  have y'v: "unat y' = v" using v64 by (simp add: y'_def unat_push_bit_gen v_def)
  have v0: "0 < v" using nz(2) by (simp add: v_def y0)
  have hs: "unat hi < 2 ^ (64 - s)" using hy nz(3) by (simp add: word_less_nat_alt)
  have uu: "unat u = unat hi * 2 ^ s + unat lo div 2 ^ (64 - s)"
    unfolding u_def using hs nz(1) by (intro unat_or_high_low) auto
  have ww: "unat w = unat lo * 2 ^ s mod 2 ^ 64" by (simp add: w_def unat_push_bit_gen)
  define d1 d0 where "d1 = unat (drop_bit 32 w)" and "d0 = unat (w AND mask32)"
  have ds: "d1 * 2 ^ 32 + d0 = unat w" "d0 < 2 ^ 32" "d1 < 2 ^ 32"
    using unsigned_less [of w, where 'a = nat]
    by (simp_all add: d1_def d0_def unat_and_mask32 unat_drop_bit div_less_iff_less_mult)
  define n where "n = unat u * 2 ^ 32 + d1"
  have "(unat hi * 2 ^ s + unat lo div 2 ^ (64 - s)) * 2 ^ 64 + unat lo * 2 ^ s mod 2 ^ 64 = N * 2 ^ s"
    unfolding N_def using nz(1) unsigned_less [of lo, where 'a = nat] by (intro div64_normalize) auto
  then have nN: "n * 2 ^ 32 + d0 = N * 2 ^ s"
    using ds(1) unfolding n_def uu [symmetric] ww [symmetric] by (simp add: distrib_right)
  have "N < unat y * 2 ^ 64"
  proof -
    have "N < Suc (unat hi) * 2 ^ 64" using unsigned_less [of lo, where 'a = nat] by (simp add: N_def)
    also have "\<dots> \<le> unat y * 2 ^ 64" using hy by (intro mult_le_mono1) (simp add: word_less_nat_alt Suc_leI)
    finally show ?thesis .
  qed
  then have "N * 2 ^ s < unat y * 2 ^ 64 * 2 ^ s" by (intro mult_strict_right_mono) simp_all
  then have "n * 2 ^ 32 + d0 < v * 2 ^ 64" unfolding nN v_def by (simp only: mult.assoc mult.commute [of "2 ^ 64"])
  then have uv: "unat u < v" by (simp add: n_def)
  have yv: "v = unat (drop_bit 32 y') * 2 ^ 32 + unat (y' AND mask32)"
    by (simp add: unat_drop_bit unat_and_mask32 y'v)
  have yb: "2 ^ 31 \<le> unat (drop_bit 32 y')" "unat (drop_bit 32 y') < 2 ^ 32" "unat (y' AND mask32) < 2 ^ 32"
    using v64 nz(2) by (simp_all add: unat_drop_bit unat_and_mask32 y'v div_less_iff_less_mult less_eq_div_iff_mult_less_eq v_def)
  note digit = div64_digit [OF yv yb]
  have u2: "unat u2 = n mod v"
    unfolding u2_def n_def d1_def by (rule div64_rem [OF y'v v0])
  obtain r1 where D1: "div64_adjust (drop_bit 32 y') (y' AND mask32) (drop_bit 32 w) (u div drop_bit 32 y') (u - u div drop_bit 32 y' * drop_bit 32 y')
      = Some (word_of_nat (n div v), r1)"
    using digit [OF _ uv, of "drop_bit 32 w"] ds(3) unfolding n_def d1_def by blast
  have "unat u2 < v" using v0 by (simp add: u2)
  then obtain r2 where D2: "div64_adjust (drop_bit 32 y') (y' AND mask32) (w AND mask32) (u2 div drop_bit 32 y') (u2 - u2 div drop_bit 32 y' * drop_bit 32 y')
      = Some (word_of_nat ((n mod v * 2 ^ 32 + d0) div v), r2)"
    using digit [of "w AND mask32" u2] ds(2) unfolding d0_def u2 by blast
  have st: "(n * 2 ^ 32 + d0) div v = N div unat y" "(n * 2 ^ 32 + d0) mod v = N mod unat y * 2 ^ s"
    by (simp_all only: nN v_def mult_mod_left [symmetric]) simp
  have two: "(n * 2 ^ 32 + d0) div v = n div v * 2 ^ 32 + (n mod v * 2 ^ 32 + d0) div v"
    "(n * 2 ^ 32 + d0) mod v = (n mod v * 2 ^ 32 + d0) mod v"
    using div_two_steps [OF v0 ds(2), of "unat u" d1] by (simp_all only: n_def)
  have Q: "word_of_nat (n div v) * two32 + word_of_nat ((n mod v * 2 ^ 32 + d0) div v)
     = (word_of_nat (N div unat y) :: uint64)"
    unfolding st(1) [symmetric] two(1) by simp
  have "unat (u2 * two32 + (w AND mask32) - word_of_nat ((n mod v * 2 ^ 32 + d0) div v) * y')
     = N mod unat y * 2 ^ s"
    using div64_rem [OF y'v v0, of u2 "w AND mask32"] st(2) two(2) unfolding u2 d0_def by simp
  then have "unat (drop_bit s (u2 * two32 + (w AND mask32) - word_of_nat ((n mod v * 2 ^ 32 + d0) div v) * y')) = N mod unat y"
    by (simp only: unat_drop_bit) simp
  then have R: "drop_bit s (u2 * two32 + (w AND mask32) - word_of_nat ((n mod v * 2 ^ 32 + d0) div v) * y') = word_of_nat (N mod unat y)"
    by (rule word_of_nat_eqI)
  have u2': "u * two32 + drop_bit 32 w - word_of_nat (n div v) * y' = u2"
    by (simp only: u2_def n_def d1_def)
  have nle: "\<not> y \<le> hi" using hy by simp
  show ?thesis
    unfolding Div64_def Let_def if_not_P [OF y0(1)] if_not_P [OF nle] if_not_P [OF False]
      s_def [symmetric] y'_def [symmetric] u_def [symmetric] w_def [symmetric] D1 option.case prod.case u2' D2 Q R
    by (rule refl)
qed

section \<open>Trailing zeros\<close>

lemma isolate_lowest_bit:
  fixes x :: "'a::len word"
  assumes k: "bit x k" "\<And>i. i < k \<Longrightarrow> \<not> bit x i"
  shows "x AND - x = push_bit k 1"
proof -
  have len: "k < LENGTH('a)" using k(1) by (rule bit_imp_le_length)
  define h where "h = x AND NOT (mask (Suc k))"
  have bh: "bit h i \<longleftrightarrow> bit x i \<and> k < i" for i
    by (auto simp: h_def bit_simps dest: bit_imp_le_length)
  have "h AND push_bit k 1 = 0" by (rule bit_eqI) (auto simp: bh bit_simps)
  then have "h + push_bit k 1 = h OR push_bit k 1" by (rule disjunctive_add_eq_or)
  also have "\<dots> = x"
    using k len by (intro bit_eqI) (auto simp: bh bit_simps dest: bit_imp_le_length intro: linorder_cases)
  finally have "x - 1 = h + mask k" by (simp add: mask_eq_exp_minus_1 algebra_simps)
  also have "\<dots> = h OR mask k"
    by (rule disjunctive_add_eq_or, rule bit_eqI) (auto simp: bh bit_simps)
  finally have "- x = NOT (h OR mask k)" by (simp add: minus_eq_not_minus_1)
  then show ?thesis
    using k len by (intro bit_eqI) (auto simp: bh bit_simps dest: bit_imp_le_length intro: linorder_cases)
qed

lemma deBruijn64_table:
  "list_all (\<lambda>k. deBruijn64tab ! unat (drop_bit (64 - 6) (push_bit k 1 * deBruijn64)) = k) [0..<64]"
  by (simp add: upt_rec deBruijn64tab_def deBruijn64_def)

section \<open>Reversal and rotation\<close>

text \<open>
  One round of the parallel reversal exchanges neighbouring blocks of \<open>k\<close> bits; \<open>swap_index\<close>
  is its effect on bit positions.
\<close>

definition swap_index :: "nat \<Rightarrow> nat \<Rightarrow> nat" where
  "swap_index k i = (if even (i div k) then i + k else i - k)"

lemma swap_round:
  fixes x m :: uint64
  assumes m: "\<And>i. i < 64 \<Longrightarrow> bit m i \<longleftrightarrow> even (i div k)" and k: "k \<in> {1, 2, 4, 8, 16}"
    and i: "i < 64"
  shows "bit ((drop_bit k x AND m) OR push_bit k (x AND m)) i \<longleftrightarrow> bit x (swap_index k i)"
proof (cases "even (i div k)")
  case True
  have "\<not> bit (push_bit k (x AND m)) i"
  proof
    assume "bit (push_bit k (x AND m)) i"
    then have "k \<le> i" "bit m (i - k)" by (auto simp: bit_simps)
    moreover have "i div k = Suc ((i - k) div k)" using k \<open>k \<le> i\<close> by (auto simp: le_div_geq)
    ultimately show False using True m [of "i - k"] i by simp
  qed
  then have "bit ((drop_bit k x AND m) OR push_bit k (x AND m)) i \<longleftrightarrow> bit (drop_bit k x AND m) i"
    by (simp only: bit_or_iff simp_thms)
  then show ?thesis using True m i by (simp add: bit_and_iff bit_drop_bit_eq swap_index_def add.commute)
next
  case False
  then have ki: "k \<le> i" by (metis div_less even_zero not_less)
  have "i div k = Suc ((i - k) div k)" using k ki by (auto simp: le_div_geq)
  then have "even ((i - k) div k)" using False by simp
  then show ?thesis using False m i ki by (simp add: bit_simps swap_index_def)
qed

lemma reverse_masks:
  "i < 64 \<Longrightarrow> bit bits_m0 i \<longleftrightarrow> even (i div 1)" "i < 64 \<Longrightarrow> bit bits_m1 i \<longleftrightarrow> even (i div 2)"
  "i < 64 \<Longrightarrow> bit bits_m2 i \<longleftrightarrow> even (i div 4)" "i < 64 \<Longrightarrow> bit bits_m3 i \<longleftrightarrow> even (i div 8)"
  "i < 64 \<Longrightarrow> bit bits_m4 i \<longleftrightarrow> even (i div 16)"
proof -
  have "list_all (\<lambda>i. (bit bits_m0 i \<longleftrightarrow> even (i div 1)) \<and> (bit bits_m1 i \<longleftrightarrow> even (i div 2)) \<and>
      (bit bits_m2 i \<longleftrightarrow> even (i div 4)) \<and> (bit bits_m3 i \<longleftrightarrow> even (i div 8)) \<and>
      (bit bits_m4 i \<longleftrightarrow> even (i div 16))) [0..<64]"
    by code_simp
  note list_all_upt [OF this, of i]
  moreover assume "i < 64"
  ultimately show "bit bits_m0 i \<longleftrightarrow> even (i div 1)" "bit bits_m1 i \<longleftrightarrow> even (i div 2)"
    "bit bits_m2 i \<longleftrightarrow> even (i div 4)" "bit bits_m3 i \<longleftrightarrow> even (i div 8)" "bit bits_m4 i \<longleftrightarrow> even (i div 16)"
    by (simp_all only: simp_thms)
qed

lemma swap_index_less: "k \<in> {1, 2, 4, 8, 16, 32} \<Longrightarrow> i < 64 \<Longrightarrow> swap_index k i < 64"
proof -
  have "list_all (\<lambda>k. list_all (\<lambda>i. swap_index k i < 64) [0..<64]) [1, 2, 4, 8, 16, 32]" by code_simp
  then show "k \<in> {1, 2, 4, 8, 16, 32} \<Longrightarrow> i < 64 \<Longrightarrow> swap_index k i < 64"
    by (auto dest: list_all_upt [of _ _ i])
qed

lemma swap_index_rounds:
  "list_all (\<lambda>i. swap_index 1 (swap_index 2 (swap_index 4 (swap_index 8 (swap_index 16 (swap_index 32 i))))) = 63 - i) [0..<64]"
  by (simp add: upt_rec swap_index_def)

lemma swap_halves: "i < 64 \<Longrightarrow> bit (drop_bit 32 x OR push_bit 32 x :: uint64) i \<longleftrightarrow> bit x (swap_index 32 i)"
proof (cases "i < 32")
  case False
  moreover assume "i < 64"
  moreover have "i div 32 = 1" using calculation by (intro div_nat_eqI) simp_all
  ultimately show ?thesis by (auto simp: bit_simps swap_index_def dest: bit_imp_le_length)
qed (simp add: bit_simps swap_index_def add.commute)

section \<open>Properties\<close>

text \<open>C32.
  \<open>Div64\<close> returns for every dividend \<open>hi:lo\<close> with \<open>hi < y\<close>, with the exact quotient and
  remainder: its correction loops end and none of its wrapping operations loses a digit.
\<close>

theorem Div64_exact:
  assumes "hi < y"
  shows "\<exists>q r. Div64 hi lo y = Some (Inr (q, r)) \<and>
      unat q * unat y + unat r = unat hi * 2 ^ 64 + unat lo \<and> r < y"
proof -
  define N where "N = unat hi * 2 ^ 64 + unat lo"
  have y0: "0 < unat y" using assms by (simp add: word_less_nat_alt)
  have "N < Suc (unat hi) * 2 ^ 64" using unsigned_less [of lo, where 'a = nat] by (simp add: N_def)
  also have "\<dots> \<le> 2 ^ 64 * unat y" 
    using assms by (subst mult.commute, intro mult_le_mono2) (simp add: word_less_nat_alt Suc_leI)
  finally have "N div unat y < 2 ^ 64" using y0 by (simp add: div_less_iff_less_mult)
  then have q: "unat (word_of_nat (N div unat y) :: uint64) = N div unat y" by (simp add: unat_of_nat)
  have m: "N mod unat y < unat y" using y0 by simp
  then have r: "unat (word_of_nat (N mod unat y) :: uint64) = N mod unat y"
    using unsigned_less [of y, where 'a = nat] by (simp add: unat_of_nat)
  show ?thesis
    unfolding Div64_value [OF assms, of lo, folded N_def] N_def [symmetric] using q r m
    by (simp add: word_less_nat_alt)
qed

theorem Div64_exact_witness:
  "(5 :: uint64) < 0x8000000000000001 \<and>
   (\<exists>q r. Div64 5 7 0x8000000000000001 = Some (Inr (q, r)) \<and>
      unat q * unat (0x8000000000000001 :: uint64) + unat r = unat (5 :: uint64) * 2 ^ 64 + unat (7 :: uint64) \<and>
      r < 0x8000000000000001)"
  using Div64_exact [of 5 "0x8000000000000001" 7] by simp

text \<open>\<open>Rem64\<close> panics only for a zero divisor, and returns the remainder of every 128-bit dividend,
  even where the quotient does not fit.
\<close>

theorem Rem64_exact:
  "Rem64 hi lo y =
     (if y = 0 then Some (Inl DivideByZero)
      else Some (Inr (word_of_nat ((unat hi * 2 ^ 64 + unat lo) mod unat y))))"
proof (cases "y = 0")
  case False
  have "hi mod y < y" using False by (simp add: word_less_nat_alt unat_mod unat_gt_0)
  then have "Rem64 hi lo y
      = Some (Inr (word_of_nat ((unat (hi mod y) * 2 ^ 64 + unat lo) mod unat y)))"
    using False by (simp only: Rem64_def Div64_value) simp
  also have "(unat (hi mod y) * 2 ^ 64 + unat lo) mod unat y = (unat hi * 2 ^ 64 + unat lo) mod unat y"
    unfolding unat_mod by (metis mod_add_left_eq mod_mult_left_eq)
  finally show ?thesis unfolding if_not_P [OF False] .
qed (simp add: Rem64_def)

text \<open>\<open>Mul64\<close> returns the two halves of the full 128-bit product.
\<close>

theorem Mul64_product:
  "unat (fst (Mul64 x y)) * 2 ^ 64 + unat (snd (Mul64 x y)) = unat x * unat y"
  by (rule Mul64_exact) simp

text \<open>C40.
  \<open>Add64\<close> and \<open>Sub64\<close> are exact: with an incoming carry or borrow of at most one, the outgoing
  one is at most one and completes the 64-bit result to the true sum or difference.
\<close>

theorem Add64_Sub64_exact:
  assumes "unat c \<le> 1"
  shows "unat (snd (Add64 x y c)) * 2 ^ 64 + unat (fst (Add64 x y c)) = unat x + unat y + unat c \<and>
    unat (snd (Add64 x y c)) \<le> 1 \<and>
    unat (fst (Sub64 x y c)) + unat y + unat c = unat x + unat (snd (Sub64 x y c)) * 2 ^ 64 \<and>
    unat (snd (Sub64 x y c)) \<le> 1"
  using Add64_exact [OF assms, of x y] Sub64_exact [OF assms, of x y]
  by (metis prod.collapse)

theorem Add64_Sub64_exact_witness:
  "unat (1 :: uint64) \<le> 1 \<and>
   unat (snd (Add64 (- 1) 7 1)) * 2 ^ 64 + unat (fst (Add64 (- 1) 7 1))
     = unat (- 1 :: uint64) + unat (7 :: uint64) + unat (1 :: uint64)"
  using Add64_Sub64_exact [of 1 "- 1" 7] by simp

text \<open>The de Bruijn lookup of \<open>TrailingZeros64\<close> finds the position of the lowest one bit.
\<close>

theorem TrailingZeros64_exact:
  "if x = 0 then TrailingZeros64 x = 64
   else bit x (TrailingZeros64 x) \<and> (\<forall>i<TrailingZeros64 x. \<not> bit x i)"
proof (cases "x = 0")
  case False
  then obtain j where "bit x j" by (auto simp: bit_eq_iff)
  then obtain k where k: "bit x k" "\<And>i. i < k \<Longrightarrow> \<not> bit x i"
    using exists_least_iff [of "bit x"] by blast
  then have "k < 64" using bit_imp_le_length [of x k] by simp
  then have "deBruijn64tab ! unat (drop_bit (64 - 6) (push_bit k 1 * deBruijn64)) = k"
    using deBruijn64_table by (simp add: list_all_iff)
  then have "TrailingZeros64 x = k"
    using isolate_lowest_bit [of x k] k False by (simp add: TrailingZeros64_def)
  then show ?thesis using False k by simp
qed (simp add: TrailingZeros64_def)
theorem TrailingZeros64_exact_witness: "bit (8 :: uint64) (TrailingZeros64 8) \<and> TrailingZeros64 0 = 64"
  using TrailingZeros64_exact [of 8] TrailingZeros64_exact [of 0] by simp

text \<open>\<open>Len64\<close> is the number of bits needed to write its argument.
\<close>

theorem Len64_bitlen:
  "if x = 0 then Len64 x = 0
   else 0 < Len64 x \<and> 2 ^ (Len64 x - 1) \<le> unat x \<and> unat x < 2 ^ Len64 x"
  using bitlen_Len64 [of x] by (auto simp: bitlen_def unat_eq_0)

text \<open>\<open>Reverse64\<close> moves bit \<open>i\<close> to bit \<open>63 - i\<close>.
\<close>

theorem Reverse64_bit:
  assumes "i < 64"
  shows "bit (Reverse64 x) i \<longleftrightarrow> bit x (63 - i)"
proof -
  have "swap_index 1 (swap_index 2 (swap_index 4 (swap_index 8 (swap_index 16 (swap_index 32 i))))) = 63 - i"
    by (rule list_all_upt [OF swap_index_rounds assms])
  moreover have "bit (Reverse64 x) i \<longleftrightarrow> bit x (swap_index 1 (swap_index 2 (swap_index 4 (swap_index 8 (swap_index 16 (swap_index 32 i))))))"
    unfolding Reverse64_def ReverseBytes64_def Let_def
    by (simp only: swap_halves [OF assms] swap_round [OF reverse_masks(1)] swap_round [OF reverse_masks(2)]
      swap_round [OF reverse_masks(3)] swap_round [OF reverse_masks(4)] swap_round [OF reverse_masks(5)]
      swap_index_less assms insert_iff simp_thms)
  ultimately show ?thesis by simp
qed

theorem Reverse64_bit_witness: "(3 :: nat) < 64 \<and> (bit (Reverse64 5) 3 \<longleftrightarrow> bit (5 :: uint64) (63 - 3))"
  using Reverse64_bit [of 3 5] by simp

end
