(* ===== verification/Prime25519.thy ===== *)
theory Prime25519
  imports Main "HOL-Library.Word"
begin

text \<open>
  The number \<open>2 ^ 255 - 19\<close> is prime.  Fermat's little theorem and a criterion of Pocklington's kind are
  proved from the divisibility of natural numbers, and the criterion is applied down a chain of
  five primes.  The powers it needs are checked step by step against given quotients and remainders:
  only sums and products of numerals are computed, never a division.
\<close>

section \<open>Prime numbers\<close>

definition nprime :: "nat \<Rightarrow> bool" where
  "nprime r \<longleftrightarrow> 1 < r \<and> (\<forall>d. d dvd r \<longrightarrow> d = 1 \<or> d = r)"

lemma nprime_coprime: "nprime r \<Longrightarrow> \<not> r dvd a \<Longrightarrow> coprime r a"
  unfolding nprime_def by (metis coprime_iff_gcd_eq_1 gcd_dvd1 gcd_dvd2)

lemma nprime_dvd_mult: "nprime r \<Longrightarrow> r dvd a * b \<Longrightarrow> r dvd a \<or> r dvd b"
  using nprime_coprime [of r a] coprime_dvd_mult_right_iff [of r a b] by blast

lemma nprime_divisor:
  assumes "1 < n"
  obtains r where "nprime r" "r dvd n"
proof -
  define r where "r = (LEAST d. d dvd n \<and> 1 < d)"
  have r: "r dvd n \<and> 1 < r" unfolding r_def by (rule LeastI [of _ n]) (use assms in simp)
  have "d = 1 \<or> d = r" if "d dvd r" for d
  proof (cases "1 < d")
    case True
    have "d dvd n" using that r dvd_trans by blast
    then have "r \<le> d" unfolding r_def by (rule Least_le [OF conjI]) (rule True)
    then show ?thesis using that r dvd_imp_le [of d r] by auto
  next
    case False
    then show ?thesis using that r by (cases d) auto
  qed
  then show thesis using that [of r] r by (simp add: nprime_def)
qed

text \<open>Fermat's little theorem: multiplication by \<open>a\<close> permutes the residues that are not zero.\<close>

lemma nprime_cancel:
  assumes "nprime r" "\<not> r dvd c" "c * a mod r = c * b mod r"
  shows "a mod r = b mod r"
proof -
  have "int (c * a) mod int r = int (c * b) mod int r" using assms(3) by (simp only: zmod_int [symmetric])
  then have "int r dvd int c * (int a - int b)" by (simp add: mod_eq_dvd_iff right_diff_distrib)
  moreover have "coprime (int r) (int c)" using nprime_coprime [OF assms(1,2)] by simp
  ultimately have "int r dvd int a - int b" using coprime_dvd_mult_right_iff by blast
  then have "int (a mod r) = int (b mod r)" by (simp add: mod_eq_dvd_iff zmod_int)
  then show ?thesis by simp
qed

lemma prod_mod: "(\<Prod>x\<in>S. f x mod r) mod r = (\<Prod>x\<in>S. f x) mod (r :: nat)"
  by (rule mod_prod_eq)

lemma fermat:
  assumes r: "nprime r" and a: "\<not> r dvd a"
  shows "a ^ (r - 1) mod r = 1"
proof -
  define S where "S = {1..<r}"
  have one: "1 < r" using r by (simp add: nprime_def)
  have inS: "\<not> r dvd x" if "x \<in> S" for x using that by (auto simp: S_def dest: dvd_imp_le)
  have inj: "inj_on (\<lambda>x. a * x mod r) S"
  proof (rule inj_onI)
    fix x y assume xy: "x \<in> S" "y \<in> S" and eq: "a * x mod r = a * y mod r"
    have "x mod r = y mod r" by (rule nprime_cancel [OF r a eq])
    then show "x = y" using xy by (simp add: S_def)
  qed
  have "(\<lambda>x. a * x mod r) ` S \<subseteq> S"
  proof
    fix y assume "y \<in> (\<lambda>x. a * x mod r) ` S"
    then obtain x where x: "x \<in> S" "y = a * x mod r" by blast
    have "\<not> r dvd a * x" using nprime_dvd_mult [OF r] a inS [OF x(1)] by blast
    then have "0 < y" using x(2) by (simp add: dvd_eq_mod_eq_0)
    then show "y \<in> S" using x(2) one by (simp add: S_def)
  qed
  then have img: "(\<lambda>x. a * x mod r) ` S = S" using inj by (intro endo_inj_surj) (simp_all add: S_def)
  have "(\<Prod>x\<in>S. x) = (\<Prod>x\<in>S. a * x mod r)" using prod.reindex [OF inj, of "\<lambda>x. x"] by (simp add: img o_def)
  then have "(\<Prod>x\<in>S. x) mod r = (\<Prod>x\<in>S. a * x) mod r" by (metis prod_mod)
  also have "(\<Prod>x\<in>S. a * x) = a ^ (r - 1) * (\<Prod>x\<in>S. x)" by (simp add: prod.distrib S_def)
  finally have eq: "(\<Prod>x\<in>S. x) * a ^ (r - 1) mod r = (\<Prod>x\<in>S. x) * 1 mod r" by (simp add: mult.commute)
  have "\<not> r dvd (\<Prod>x\<in>S. x)"
  proof -
    have "\<not> r dvd (\<Prod>x\<in>T. x)" if "finite T" "T \<subseteq> S" for T
      using that
    proof (induction T rule: finite_induct)
      case empty
      then show ?case using one by simp
    next
      case (insert x T)
      then show ?case using nprime_dvd_mult [OF r, of x "\<Prod>x\<in>T. x"] inS by auto
    qed
    then show ?thesis by (simp add: S_def)
  qed
  then have "a ^ (r - 1) mod r = 1 mod r" by (rule nprime_cancel [OF r _ eq])
  then show ?thesis using one by simp
qed

section \<open>The criterion\<close>

lemma power_one_mod: "b mod r = 1 mod r \<Longrightarrow> b ^ k mod r = 1 mod (r :: nat)"
  by (metis power_mod power_one)

text \<open>A prime divisor \<open>r\<close> of \<open>n\<close> is \<open>1\<close> modulo \<open>q\<close>.\<close>

lemma pocklington_divisor:
  assumes q: "nprime q" and n: "n = q * m + 1" and pw: "a ^ (q * m) mod n = 1 mod n" and inv: "c * (a ^ m mod n) mod n = (c + 1) mod n"
    and r: "nprime r" "r dvd n"
  shows "q dvd r - 1"
proof (rule ccontr)
  assume "\<not> q dvd r - 1"
  then have "coprime q (r - 1)" by (rule nprime_coprime [OF q])
  moreover have "q \<noteq> 0" using q by (simp add: nprime_def)
  ultimately obtain x y where xy: "q * x = (r - 1) * y + 1" using bezout_nat [of q "r - 1"] by (auto simp: coprime_iff_gcd_eq_1)
  have one: "1 < r" using r by (simp add: nprime_def)
  have down: "s mod r = t mod r" if "s mod n = t mod n" for s t
    using that r(2) by (metis mod_mod_cancel)
  define b where "b = a ^ m"
  have bq: "b ^ q mod r = 1 mod r" using down [OF pw] by (simp add: b_def power_mult mult.commute)
  have "0 < q" using \<open>q \<noteq> 0\<close> by simp
  have "\<not> r dvd b"
  proof
    assume "r dvd b"
    then have "r dvd b ^ q" using \<open>0 < q\<close> by (simp add: dvd_power_iff_le dvd_trans dvd_power)
    then show False using bq one by (simp add: dvd_eq_mod_eq_0)
  qed
  then have br: "b ^ (r - 1) mod r = 1 mod r" using fermat [OF r(1)] one by simp
  have "b ^ (q * x) mod r = 1 mod r" unfolding power_mult by (rule power_one_mod [OF bq])
  moreover have "b ^ (q * x) mod r = b ^ ((r - 1) * y) * b mod r" by (simp add: xy mult.commute)
  moreover have "b ^ ((r - 1) * y) * b mod r = b mod r"
    using power_one_mod [OF br, of y] by (metis mod_mult_left_eq mult_1 power_mult)
  ultimately have b1: "b mod r = 1 mod r" by simp
  have "c * b mod n = (c + 1) mod n" using inv by (simp add: b_def mod_mult_right_eq)
  then have "c * b mod r = (c + 1) mod r" by (rule down)
  moreover have "c * b mod r = c mod r" using b1 by (metis mod_mult_right_eq mult.right_neutral)
  ultimately have "int (c mod r) = int ((c + 1) mod r)" by simp
  then have "int r dvd 1" by (simp add: zmod_int mod_eq_dvd_iff)
  then show False using one by simp
qed

lemma pocklington:
  assumes q: "nprime q" and n: "n = q * m + 1" and pw: "a ^ (q * m) mod n = 1 mod n" and inv: "c * (a ^ m mod n) mod n = (c + 1) mod n"
    and big: "m div q + 1 < m mod q" 
  shows "nprime n"
proof -
  have m0: "0 < m" using big by (cases m) auto
  have q1: "1 < q" using q by (simp add: nprime_def)
  have n1: "1 < n" using m0 q1 n by simp
  obtain r where r: "nprime r" "r dvd n" using nprime_divisor [OF n1] .
  have r1: "1 < r" using r by (simp add: nprime_def)
  obtain x where "r - 1 = q * x" using pocklington_divisor [OF assms(1-4) r] by (elim dvdE)
  then have x: "r = 1 + q * x" using r1 by simp
  obtain e where e: "n = r * e" using r(2) by (elim dvdE)
  have "(r * e) mod q = e mod q" unfolding x by (simp add: distrib_right mult.assoc)
  then have "e mod q = 1" using n e q1 by (metis mod_mult_self4 mod_less add.commute mod_mult_self2 mult.commute)
  then obtain y where y: "e = 1 + q * y" by (metis mult_div_mod_eq add.commute)
  have "y = 0"
  proof (rule ccontr)
    assume "y \<noteq> 0"
    have "x \<noteq> 0" using x r1 by auto
    have "q * m = q * (x + y + q * (x * y))" using n e x y by (simp add: algebra_simps)
    then have m: "m = x + y + q * (x * y)" using q1 by simp
    obtain x' y' where xy: "x = Suc x'" "y = Suc y'" using \<open>x \<noteq> 0\<close> \<open>y \<noteq> 0\<close> by (meson not0_implies_Suc)
    have le: "x + y \<le> x * y + 1" by (simp add: xy)
    have "x * y \<le> m div q" using m q1 by simp
    then have "x + y < q" using le big mod_less_divisor [of q m] q1 by linarith
    then have "m div q = x * y" "m mod q = x + y" using m by simp_all
    then show False using big le by simp
  qed
  then have "n = r" using e y by simp
  then show ?thesis using r(1) by simp
qed


section \<open>Powers of two, step by step\<close>

text \<open>
  A step squares \<open>x\<close>, and doubles the square where the exponent has a bit; the quotient \<open>k\<close> and the
  remainder \<open>y\<close> modulo \<open>M - c\<close> are given.
\<close>

definition sq :: "nat \<Rightarrow> nat" where
  "sq x = x * x"

lemma sq_numeral: "sq (numeral k) = numeral (Num.sqr k)"
  by (simp add: sq_def numeral_sqr)

lemma sq_one: "sq 1 = 1"
  by (simp add: sq_def)

fun pw_chain :: "nat \<Rightarrow> nat \<Rightarrow> (bool \<times> nat \<times> nat) list \<Rightarrow> nat \<times> nat \<Rightarrow> nat \<times> nat \<Rightarrow> bool" where
  "pw_chain M c [] ex ex' = (ex = ex')"
| "pw_chain M c ((False, k, y) # cs) (e, x) ex' = (sq x + c * k = M * k + y \<and> pw_chain M c cs (2 * e, y) ex')"
| "pw_chain M c ((True, k, y) # cs) (e, x) ex' = (2 * sq x + c * k = M * k + y \<and> pw_chain M c cs (2 * e + 1, y) ex')"

lemma pw_chain_sound:
  assumes "M = n + c" "pw_chain M c cs (e, x) (e', x')" "2 ^ e mod n = x mod n"
  shows "2 ^ e' mod n = x' mod n"
  using assms(2,3) unfolding assms(1)
proof (induction "n + c" c cs "(e, x)" "(e', x')" arbitrary: e x rule: pw_chain.induct)
  case (2 c k y cs e x)
  have "x * x = n * k + y" using 2(2) by (simp add: sq_def distrib_right)
  then have "(x mod n) * (x mod n) mod n = y mod n" by (simp add: mod_mult_eq)
  then have "2 ^ (2 * e) mod n = y mod n" using 2(3) by (metis mod_mult_eq mult_2 power_add)
  then show ?case using 2 by simp
next
  case (3 c k y cs e x)
  have "2 * (x * x) = n * k + y" using 3(2) by (simp add: sq_def distrib_right)
  then have "2 * ((x mod n) * (x mod n)) mod n = y mod n" by (metis mod_mult_eq mod_mult_right_eq mod_mult_self4)
  then have "2 ^ (2 * e + 1) mod n = y mod n" using 3(3) by (metis mod_mult_eq mod_mult_right_eq mult_2 power_add power_one_right mult.commute)
  then show ?case using 3 by simp
qed simp

lemmas pw_eval = sq_one mult_1 mult_1_right numeral_plus_one eq_num_simps rel_simps pw_chain.simps sq_numeral Num.sqr.simps numeral_times_numeral numeral_plus_numeral mult_num_simps add_num_simps
  arith_simps simp_thms prod.inject

text \<open>The criterion with the powers of two and the inverse given by numerals.\<close>

lemma pocklington_two:
  assumes "nprime q" "n = q * m + 1" "e = q * m" "2 ^ e mod n = 1 mod n" "2 ^ m mod n = w mod n" "c * w = n * t + (c + 1)"
    "m div q + 1 < m mod q"
  shows "nprime n"
proof (rule pocklington [where a = 2])
  have "c * (2 ^ m mod n) mod n = c * w mod n" unfolding assms(5) by (rule mod_mult_right_eq)
  then show "c * (2 ^ m mod n) mod n = (c + 1) mod n" unfolding assms(6) by simp
  show "2 ^ (q * m) mod n = 1 mod n" using assms(4) unfolding assms(3) .
qed (rule assms)+

lemma nprime_trial:
  assumes "1 < n" "n < k * k" "list_all (\<lambda>d. n mod d \<noteq> 0) [2..<k]"
  shows "nprime n"
  unfolding nprime_def
proof (intro conjI allI impI)
  fix d assume "d dvd n"
  then obtain e where e: "n = d * e" by (elim dvdE)
  have small: "x = 1" if "x < k" "x dvd n" for x
  proof (rule ccontr)
    assume "x \<noteq> 1"
    moreover have "x \<noteq> 0" using that(2) assms(1) by (cases x) auto
    ultimately have "x \<in> set [2..<k]" using that(1) by simp
    then have "n mod x \<noteq> 0" using assms(3) unfolding list_all_iff by blast
    then show False using that(2) by (simp add: dvd_eq_mod_eq_0)
  qed
  have "d < k \<or> e < k"
  proof (rule ccontr)
    assume "\<not> (d < k \<or> e < k)"
    then have "k * k \<le> d * e" by (intro mult_le_mono) auto
    then show False using assms(2) e by simp
  qed
  then show "d = 1 \<or> d = n" using small [of d] small [of e] e by auto
qed (rule assms(1))

section \<open>The chain of primes\<close>

lemma prime_991: "nprime 991"
  by (rule nprime_trial [where k = 32]) (simp_all add: upt_conv_Cons)

text \<open>A prime of 24 bits.\<close>

lemma q4_m0:
  "pw_chain 8574134 1
    [(False, 0, 4),
     (False, 0, 16),
     (False, 0, 256),
     (False, 0, 65536),
     (True, 1001, 7227459),
     (True, 12184593, 6260493),
     (True, 9142329, 430341),
     (False, 21599, 677614),
     (False, 53551, 7336713),
     (True, 12555755, 2003323),
     (True, 936142, 69772),
     (False, 567, 6598573),
     (False, 5078200, 3435729)]
    (1, 2) (8652, 3435729)"
  by (simp only: pw_eval)

lemma q4_pow_m: "2 ^ 8652 mod 8574133 = 3435729 mod (8574133 :: nat)"
proof -
  have M: "8574134 = 8574133 + (1 :: nat)" by simp
  have start: "2 ^ 1 mod 8574133 = 2 mod (8574133 :: nat)" by simp
  note s0 = pw_chain_sound [OF M q4_m0 start]
  show ?thesis by (rule s0)
qed

lemma q4_e0:
  "pw_chain 8574134 1
    [(False, 0, 4),
     (False, 0, 16),
     (False, 0, 256),
     (False, 0, 65536),
     (False, 500, 7900796),
     (True, 14560673, 7995723),
     (False, 7456332, 4032573),
     (True, 3793187, 168787),
     (True, 6645, 2988953),
     (False, 1041952, 5008593),
     (True, 5851554, 5426616),
     (False, 3434535, 1328301),
     (True, 411559, 5489855),
     (False, 3515050, 1719375),
     (False, 344787, 795954),
     (True, 147780, 165492),
     (False, 3194, 1821262),
     (True, 773721, 3786395),
     (True, 3344195, 1484115),
     (False, 256888, 5455121),
     (True, 6941423, 6238023),
     (False, 4538409, 8574132),
     (False, 8574131, 1)]
    (1, 2) (8574132, 1)"
  by (simp only: pw_eval)

lemma q4_pow_e: "2 ^ 8574132 mod 8574133 = 1 mod (8574133 :: nat)"
proof -
  have M: "8574134 = 8574133 + (1 :: nat)" by simp
  have start: "2 ^ 1 mod 8574133 = 2 mod (8574133 :: nat)" by simp
  note s0 = pw_chain_sound [OF M q4_e0 start]
  show ?thesis by (rule s0)
qed

lemma prime_q4: "nprime 8574133"
proof (rule pocklington_two [OF prime_991 _ _ q4_pow_e q4_pow_m])
  show "1014251 * 3435729 = 8574133 * 406419 + (1014251 + (1 :: nat))"
    by (simp only: pw_eval)
qed simp_all

text \<open>A prime of 51 bits.\<close>

lemma q3_m0:
  "pw_chain 1919519569386764 1
    [(True, 0, 8),
     (False, 0, 64),
     (True, 0, 8192),
     (False, 0, 67108864),
     (True, 4, 1329120977193940),
     (False, 920314958071172, 1050703024027364),
     (True, 1150263703800570, 1672969091722082),
     (True, 2916173011720386, 925947007178930),
     (False, 446662734664136, 1131232746713132),
     (False, 666670737639295, 1867384059597339),
     (False, 1816664587145774, 439825148891359),
     (False, 100778426374213, 1175992818124362),
     (False, 720471481685335, 1417188017686439),
     (False, 1046314874568149, 230433742489034),
     (False, 27663020749752, 1384618485920380),
     (True, 1997550201756923, 708183098878551),
     (False, 261275430339817, 821990456217230),
     (False, 351998656793099, 1538409348524363),
     (True, 2465932998415072, 1639521232619602),
     (False, 1400365964004865, 1373123636036409),
     (False, 982260639543366, 280066608751023),
     (True, 81725976216389, 1337932286834251),
     (False, 932557725746660, 661679051269421),
     (False, 228087889215254, 1001669444392439)]
    (1, 2) (27984164, 1001669444392439)"
  by (simp only: pw_eval)

lemma q3_m1:
  "pw_chain 1919519569386764 1
    [(False, 522704582871222, 1817493499934335),
     (True, 3441780615301434, 364420849266308),
     (False, 69185309437821, 1059928654987441)]
    (27984164, 1001669444392439) (223873314, 1059928654987441)"
  by (simp only: pw_eval)

lemma q3_pow_m: "2 ^ 223873314 mod 1919519569386763 = 1059928654987441 mod (1919519569386763 :: nat)"
proof -
  have M: "1919519569386764 = 1919519569386763 + (1 :: nat)" by simp
  have start: "2 ^ 1 mod 1919519569386763 = 2 mod (1919519569386763 :: nat)" by simp
  note s0 = pw_chain_sound [OF M q3_m0 start]
  note s1 = pw_chain_sound [OF M q3_m1 s0]
  show ?thesis by (rule s1)
qed

lemma q3_e0:
  "pw_chain 1919519569386764 1
    [(True, 0, 8),
     (False, 0, 64),
     (True, 0, 8192),
     (True, 0, 134217728),
     (False, 9, 738722385001117),
     (True, 568590985791386, 727545914671860),
     (False, 275758094055179, 1707982561664023),
     (False, 1519757588030409, 1883053606468462),
     (False, 1847280403589061, 1218399375645901),
     (True, 1546738113275479, 1048428561119125),
     (True, 1145289128905818, 983029438644116),
     (True, 1006863272094369, 1276865007405365),
     (False, 849370995293977, 1782700633356774),
     (False, 1655633836119701, 155115138769213),
     (True, 25069508703241, 1540151232679855),
     (False, 1235760164864112, 1337673856271569),
     (True, 1864395002051589, 1240524135727115),
     (False, 801711092642386, 1605194465086707),
     (True, 2684681429497665, 1584898865799303),
     (True, 2617221991244825, 1234761903320143),
     (True, 1588560994330330, 1236775547659108),
     (True, 1593746455813585, 663762456135973),
     (True, 459052989302332, 319119283482142),
     (False, 53053440409930, 583227397151574)]
    (1, 2) (28603070, 583227397151574)"
  by (simp only: pw_eval)

lemma q3_e1:
  "pw_chain 1919519569386764 1
    [(True, 354415971801600, 1285925159134152),
     (False, 861467390729690, 1288133935665634),
     (False, 864429340901971, 982476880612083),
     (False, 502865840146461, 1576128850903146),
     (False, 1294168704642539, 102480519386059),
     (True, 10942588990631, 478332744685509),
     (False, 119197646269096, 1487279716212833),
     (False, 1152372181839647, 1304919163493228),
     (True, 1774208557608892, 1547425167823372),
     (False, 1247460400092810, 1260964203976354),
     (True, 1656696549561819, 1320395793464735),
     (False, 908271569201220, 1801342537169365),
     (False, 1690441185370361, 570314888571782),
     (True, 338896333555542, 1457759193220502),
     (True, 2214160146434757, 904421507342417),
     (True, 852273950199791, 980872974037245),
     (False, 501225309989436, 913994118954357),
     (True, 870410766116893, 1653595313679539),
     (False, 1424511375154407, 54183760337980),
     (False, 1529486821174, 1009058406760638),
     (False, 530444640676211, 404389713772051),
     (False, 85193734522271, 1499052552647828),
     (True, 2341376031209599, 636366037097131),
     (False, 210970359265512, 828224193213505)]
    (28603070, 583227397151574) (479879892346690, 828224193213505)"
  by (simp only: pw_eval)

lemma q3_e2:
  "pw_chain 1919519569386764 1
    [(True, 714715624851176, 1919519569386762),
     (False, 1919519569386761, 1)]
    (479879892346690, 828224193213505) (1919519569386762, 1)"
  by (simp only: pw_eval)

lemma q3_pow_e: "2 ^ 1919519569386762 mod 1919519569386763 = 1 mod (1919519569386763 :: nat)"
proof -
  have M: "1919519569386764 = 1919519569386763 + (1 :: nat)" by simp
  have start: "2 ^ 1 mod 1919519569386763 = 2 mod (1919519569386763 :: nat)" by simp
  note s0 = pw_chain_sound [OF M q3_e0 start]
  note s1 = pw_chain_sound [OF M q3_e1 s0]
  note s2 = pw_chain_sound [OF M q3_e2 s1]
  show ?thesis by (rule s2)
qed

lemma prime_q3: "nprime 1919519569386763"
proof (rule pocklington_two [OF prime_q4 _ _ q3_pow_e q3_pow_m])
  show "1290547218147893 * 1059928654987441 = 1919519569386763 * 712619969572013 + (1290547218147893 + (1 :: nat))"
    by (simp only: pw_eval)
qed simp_all

text \<open>A prime of 116 bits.\<close>

lemma q2_m0:
  "pw_chain 75445702479781427272750846543864802 1
    [(False, 0, 4),
     (False, 0, 16),
     (False, 0, 256),
     (True, 0, 131072),
     (False, 0, 17179869184),
     (False, 0, 295147905179352825856),
     (False, 1154635, 37249017818367551225803357327630101),
     (False, 18390568088419540713180144552603353, 102469992448),
     (True, 0, 21000198704586354065408),
     (False, 5845373972, 57540172156127493524011025089846892),
     (True, 87768323520986892609440763078941370, 54651969301387637110966512518401958),
     (True, 79178472738596464028603992035732427, 61606591580989321780200720816865501),
     (True, 100612016363528196112949330697066484, 51294626676562810936092654843532318),
     (False, 34874600400109785010110741815565865, 70907221727050507061373817639835259),
     (True, 133283511924261151466384833446453474, 32799974849867834837920162526425488),
     (False, 14259769805182405020291244956113789, 38671091502185017926787332828197155),
     (True, 39643167703849810160785550627061568, 64134687226725695320034102205120082),
     (True, 109038897391729833739089875975893259, 49129946330668696747602969976096989),
     (False, 31993228866829677464604812351954812, 52731668160668534429276816145493709),
     (False, 36856026726665311569831140646019472, 53232007837694667884745803777171609),
     (False, 37558755042300401026910323427360228, 6815899006979597721589967479114253),
     (True, 1231520888437489561043967924920373, 27351563169514572318976779253005245),
     (False, 9915846538991804092978480448020986, 36418643877802785581023883602796239),
     (False, 17579763701632442834351678143176982, 25515915370493845880933608929334539)]
    (1, 2) (17873604, 25515915370493845880933608929334539)"
  by (simp only: pw_eval)

lemma q2_m1:
  "pw_chain 75445702479781427272750846543864802 1
    [(False, 8629543046122224655388998502785386, 57793553327652931187992881475744335),
     (True, 88543010309470439154820839753932743, 62153849922490962393205786330105307),
     (False, 51203725768512740208766088776196223, 61109090482572984699313167350717626),
     (True, 98993602468160378399605572779308692, 74425325943528844932868703682001460),
     (True, 146837499280623176155056190186076751, 12989690226474060391927371730921649),
     (False, 2236470025910010689164230430725332, 9010903371459702397200566003040269),
     (True, 2152445451523061074391132479695943, 41483535797710063532135253890982379),
     (True, 45619132322111234617260342837222865, 36992927490348523016874968511124417),
     (False, 18138563752825011389988221154025764, 513309348704093895960925166856925),
     (True, 6984797776589922606771900453178, 25107384053856714034524019378123672),
     (False, 8355422685563742011965376336700514, 48786791113838861753548469283555870),
     (True, 63095733990234880993683556426399714, 23550372780047042618185787221846886),
     (True, 14702495698222504060133497094678883, 34192708828629508492652582794096709),
     (False, 15496460349782741374426957909312839, 23725588849222751655399262015150642),
     (True, 14922084300115426627936480004087657, 74284037970676428699992465145163071),
     (False, 73140260026178284946026360103387949, 1679490236568257179254066873467892),
     (False, 37386986428869317886938646893687, 57875049575816904056842656006512377),
     (True, 88792900146987093422421437432117938, 69140185463195222053869748749479920),
     (True, 126723327870560004734161261178324345, 12685289843374237635476675559532455),
     (True, 4265758634921249914798644829340890, 13171760403748371563029534295641160),
     (True, 4599208872904276656265734953986787, 38784832849308944787944580903906813),
     (False, 19938355793717465847682208159383547, 3782964574628778339320135515987822),
     (True, 379367425910877502586785532538328, 38877602689008559621761620122014640),
     (True, 40067702762777282563722963685911553, 14314454708794176124149993472713247)]
    (17873604, 25515915370493845880933608929334539) (299869320993403, 14314454708794176124149993472713247)"
  by (simp only: pw_eval)

lemma q2_m2:
  "pw_chain 75445702479781427272750846543864802 1
    [(True, 5431816707254639246062512913804549, 72466306610823254233320016583786269),
     (False, 69604568864888641168444927591077276, 52923723913192322483970867785578285),
     (False, 37124984734424324294785152761527766, 43675134191290428119386496951976659),
     (False, 25283313481485823676523318387740688, 11400356044965588482423009162079193),
     (True, 3445341846656232865445853964758427, 18935679146042012693248632693634471),
     (False, 4752556248222889451123733574281160, 60679732404325505920101321558000681),
     (True, 97607413110038762878864400532412072, 41712449112149596090570426404649850),
     (True, 46123989935674606507037057687651255, 6531672565481006475695702252069745),
     (True, 1130952329964462953850246691678513, 13823227504923762148479631860009137),
     (True, 5065407634161494487114558160920292, 72088510220800202732826346861527646),
     (False, 68880706720798111363682571039351209, 1888738652562569663194994370406907),
     (True, 94566915819754618137492420024240, 67921444504051573029934253803837058),
     (False, 61147586567349870743199647966593842, 44692679468887818587537417286939922),
     (False, 26475140829181573416469200498415960, 25373835843271755692855209936742124),
     (False, 8533707345012022015661890767769502, 65810772782638593774538249456932274),
     (False, 57406289184049389055471778293765177, 2709456275567807824939095492976299),
     (False, 97303796875390224746540460292342, 56747016255153332959347766392083459)]
    (299869320993403, 14314454708794176124149993472713247) (39304471641247389600, 56747016255153332959347766392083459)"
  by (simp only: pw_eval)

lemma q2_pow_m: "2 ^ 39304471641247389600 mod 75445702479781427272750846543864801 = 56747016255153332959347766392083459 mod (75445702479781427272750846543864801 :: nat)"
proof -
  have M: "75445702479781427272750846543864802 = 75445702479781427272750846543864801 + (1 :: nat)" by simp
  have start: "2 ^ 1 mod 75445702479781427272750846543864801 = 2 mod (75445702479781427272750846543864801 :: nat)" by simp
  note s0 = pw_chain_sound [OF M q2_m0 start]
  note s1 = pw_chain_sound [OF M q2_m1 s0]
  note s2 = pw_chain_sound [OF M q2_m2 s1]
  show ?thesis by (rule s2)
qed

lemma q2_e0:
  "pw_chain 75445702479781427272750846543864802 1
    [(True, 0, 8),
     (True, 0, 128),
     (False, 0, 16384),
     (True, 0, 536870912),
     (False, 0, 288230376151711744),
     (False, 1, 7631047256775814783737094723656735),
     (False, 771851547816808051379443778815459, 22009193676612644322150778486101566),
     (False, 6420572549171516046176593860100809, 33022602890864803253515466140928347),
     (True, 28908003129270132855419763652819504, 70920670989751728757172309344426114),
     (True, 133334077576771846642839878728962976, 3666131857123157179898322131674216),
     (True, 356296577592744755834612203261588, 25401643620139515029795923209865324),
     (True, 17104844342260377155191118617761288, 53020601934196140453117330471626264),
     (True, 74522050615615866528901395825227785, 28575338561705314560517295720499607),
     (False, 10823015056886887261668044373608357, 48331021020716018721794112955412492),
     (False, 30961174939432559984738738584029315, 848533773164639574462622689008749),
     (False, 9543413879590745612390818824318, 45310555848504975522005669435514283),
     (False, 27212238786572118819693610976292909, 72659396762334320014469372026007980),
     (True, 139951985715319802782717575504616292, 75115654692204849562303423817422908),
     (False, 74787050744880317833576541907568545, 16253006180525765547641381402891919),
     (True, 7002657572841888628464483393536952, 17986039111192952197589181705378570),
     (False, 4287820144507981290238773629741760, 27776406887544879715908757031455140),
     (True, 20452557381627174631868233265512926, 8878805395285718583017608002921474),
     (False, 1044899611988915660444025085319451, 15425342777689016851465101770788425),
     (False, 3153807201582730232094456086824652, 67408165950774277419106926032106373)]
    (1, 2) (30472276, 67408165950774277419106926032106373)"
  by (simp only: pw_eval)

lemma q2_e1:
  "pw_chain 75445702479781427272750846543864802 1
    [(True, 120453801541971900053355372750195147, 10005173418326397981809162040109511),
     (False, 1326828326074791530425417056591862, 11328494954179109637847746107809659),
     (False, 1701021976185506177894356976435511, 2653889685712704246275783694347970),
     (False, 93353633572697574796185448788719, 8917658717885293657369277093140981),
     (True, 2108129009203334261133622343411113, 72164657861411213226753396050351209),
     (True, 138052604007502018451222615905547201, 72558332017281532167041635227551361),
     (True, 139562927299694608715632413544391673, 45958847638036517107644543883702569),
     (False, 27996500884623667420435143924148067, 671042825854817169564334903710094),
     (True, 11937021177631509171511817293558, 72730494059566331181901874714725714),
     (True, 140226006048951515550643993067215071, 62579464969018112921471466292003721),
     (True, 103814778233606042352647539079357791, 29585290492468826343356455945677091),
     (True, 23203161605085027457686910115065657, 73885246701094968368169048238205305),
     (False, 72357066083977699180045520576918136, 41118096192318202911291004101212089),
     (True, 44818930142079864549256404367283342, 33981126060794659516081780212042900),
     (True, 30610542162267458784582308358080773, 40288467135992077388000188531248827),
     (True, 43028576335488475641251044159569169, 36330444707391624204415264033831489),
     (False, 17494716985245889738608394253763934, 17328165532291647471499732182069987),
     (False, 3979886340046577149477472973859038, 33422583774579774592479576262258731),
     (False, 14806265558573926326230418156236496, 18214631634308223648371789179753065),
     (False, 4397504359674470949521980787952437, 64511884726821717771000457030424188),
     (False, 55162628674867767836158767029343180, 1568420735889759100484093464052164),
     (False, 32605483465784016117553503132009, 31025647283008206690781557961567687),
     (True, 25517445200741491635749351223738569, 373269120475705429462412059850169),
     (False, 1846756431727114921091744224038, 58443280288287018208066001403042123)]
    (30472276, 67408165950774277419106926032106373) (511239965832962, 58443280288287018208066001403042123)"
  by (simp only: pw_eval)

lemma q2_e2:
  "pw_chain 75445702479781427272750846543864802 1
    [(True, 90545038314690585729151912632905452, 39403710217996611059649496120899206),
     (False, 20579732548185144847843165374966669, 18955090873233773816598658194112567),
     (True, 9524610632629136865444052036528022, 42633892693946410887213151918705356),
     (True, 48184290065455906893236368133099501, 50883925065132556536787338661609171),
     (False, 34318373942212199395003219355572734, 60096831411452045530469413933371307),
     (True, 95741149647704955959868512600149897, 53089291438676901358685779159701001),
     (False, 37357633010522906255630588371906398, 51886847680512235165321472581505203),
     (False, 35684537007819210446477302226859212, 49840655314755229486864938926674397),
     (False, 32925545664710938880561163616926857, 45520326194272497356190822741453152),
     (False, 27464786312888658465645388256308953, 12912471922656530731785220892871751),
     (True, 4419918581792659853936465172959736, 54300938652674903527848974066959466),
     (False, 39082304778748024630635265073521629, 42251550788399836408018112961724327),
     (True, 47323929272264168801660546544978889, 63923979436728860874743583272019769),
     (True, 108323602610033582017702304908250862, 47120619430889036148662387133918260),
     (True, 58859622286523375400773844436846332, 23801074297811254038167421302095268),
     (True, 15017187702155587466082072505627193, 39222906842721171021682631194850055),
     (False, 20391306206010426744923801599057214, 27744432708764247686018176453778611),
     (False, 10202748745529044120012868028398902, 31767803252733235124306576616240819),
     (True, 26752837877672897617525915342998659, 74062341163093794085330143583279663),
     (False, 72704344956274686391157189808741468, 4776198761470204658446448715125701),
     (False, 302364135520944856992216994587885, 18710024028905304295913796078205516),
     (True, 9279918872941165399340898018341428, 10169410796074325407272506376376684),
     (True, 2741492557963194209676007709349556, 42122498252050953737874994404293356),
     (False, 23517639847936053940406944463800117, 115754809044341432461161369761019)]
    (511239965832962, 58443280288287018208066001403042123) (8577183334612235202342, 115754809044341432461161369761019)"
  by (simp only: pw_eval)

lemma q2_e3:
  "pw_chain 75445702479781427272750846543864802 1
    [(True, 355200505170795452952356421100, 43065186470477596355140615720135622),
     (True, 49164106762317459954868940441862303, 38510769545584726525888116656157065),
     (True, 39315145124152939114948633505931618, 59466506355214148198268088155650432),
     (True, 93743321670108453423228119801881632, 31186897834198124570994992750338016),
     (False, 12891689845175253577576619877130907, 23092477347457125080713115068311749),
     (False, 7068162831219294747801995350537192, 18698798374500036049255497881260209),
     (False, 4634393333986200328317558958439351, 21869121206656224245178971064539530),
     (False, 6339108082128186258628870511208919, 12652077428391528779183729931260781),
     (True, 4243450799518041716040183281473006, 28598385840957074477577761062398116),
     (True, 21680961163491933049892391326433752, 71375989008579367626260943189535560),
     (True, 135051610350320963652278521676015308, 43061262500733731668528957050653492),
     (False, 24577573900302943555059758083120298, 32672444468793351880644993920963366),
     (False, 14149097860841839966656012334961331, 70209680790526841665283081887039825),
     (True, 130674090496504969134018827651768795, 52503834489303885292749499281376455),
     (True, 73076465470487655495873936216625714, 17400049045635351684533718020641136),
     (True, 8025949705263923730563316570232921, 64908780416863095875975808887427271),
     (False, 55843469365715368362468480707808829, 69878509489605860253502975384379412),
     (False, 64722123699458232616333721538099691, 42111761612063696322752344005589253),
     (True, 47011305025532297537912876921461014, 49087257122501680141152876489827804),
     (False, 31937654930793781474880405364272074, 60893762817002960278746117535595142),
     (True, 98297191970798516002569059625159782, 43505566370828698512508536837366946),
     (False, 25087370692238060902812612345126444, 67404298166118396548341553467469272),
     (True, 120439979003033448417266417710996846, 23086303469702392307886813367002322),
     (True, 14128767852298133961808644817361610, 69745012537714770577004439339093758)]
    (8577183334612235202342, 115754809044341432461161369761019) (143901257476389746232511227691, 69745012537714770577004439339093758)"
  by (simp only: pw_eval)

lemma q2_e4:
  "pw_chain 75445702479781427272750846543864802 1
    [(False, 64475067684465982501133245190500532, 47172212163931318384902249787988432),
     (True, 58988584566106527512851937131785000, 16904542676557169922233050131852248),
     (True, 7575343689857589041504428760550448, 46920499357148902318201176553326160),
     (False, 29180366642012458176251648635799663, 10454444063557555172302156146983537),
     (False, 1448663039585902268113875523803170, 37698059884210767352741902333811199),
     (True, 37673284821342637999663428757360586, 40901371546101489892846476765501816),
     (False, 22173856685880343095672505025355721, 27768446176039279899917307143421335),
     (False, 10220417832788193175143522916513345, 21857673977610154683191029340912880),
     (False, 6332473500919813117686273409683965, 3778066346658827974554880652278435),
     (True, 378385642935227281731222357250068, 47402446319426680179615426392041982),
     (True, 59565802775003540489587975525891621, 50973463510006534321207876498244227),
     (True, 68878515191830318193214070706977873, 10766594200423649952741019267106785),
     (True, 3072926538331623821743296868229081, 66188423355148447244671870825594569),
     (True, 116134047195448747364847061652810939, 47449036182200125127963758294733383),
     (False, 29841474870263003462022108898837555, 68050878837970674823646249073223134),
     (False, 61380860120709968955617829202648356, 75445702479781427272750846543864800),
     (False, 75445702479781427272750846543864799, 1),
     (False, 0, 1),
     (False, 0, 1)]
    (143901257476389746232511227691, 69745012537714770577004439339093758) (75445702479781427272750846543864800, 1)"
  by (simp only: pw_eval)

lemma q2_pow_e: "2 ^ 75445702479781427272750846543864800 mod 75445702479781427272750846543864801 = 1 mod (75445702479781427272750846543864801 :: nat)"
proof -
  have M: "75445702479781427272750846543864802 = 75445702479781427272750846543864801 + (1 :: nat)" by simp
  have start: "2 ^ 1 mod 75445702479781427272750846543864801 = 2 mod (75445702479781427272750846543864801 :: nat)" by simp
  note s0 = pw_chain_sound [OF M q2_e0 start]
  note s1 = pw_chain_sound [OF M q2_e1 s0]
  note s2 = pw_chain_sound [OF M q2_e2 s1]
  note s3 = pw_chain_sound [OF M q2_e3 s2]
  note s4 = pw_chain_sound [OF M q2_e4 s3]
  show ?thesis by (rule s4)
qed

lemma prime_q2: "nprime 75445702479781427272750846543864801"
proof (rule pocklington_two [OF prime_q3 _ _ q2_pow_e q2_pow_m])
  show "74602835786463724888147869570305675 * 56747016255153332959347766392083459 = 75445702479781427272750846543864801 * 56113048138023733339996598108928949 + (74602835786463724888147869570305675 + (1 :: nat))"
    by (simp only: pw_eval)
qed simp_all

text \<open>A prime of 236 bits.\<close>

lemma q1_m0:
  "pw_chain 74058212732561358302231226437062788676166966415465897661863160754340908 1
    [(False, 0, 4),
     (True, 0, 32),
     (True, 0, 2048),
     (True, 0, 8388608),
     (True, 0, 140737488355328),
     (False, 0, 19807040628566084398385987584),
     (True, 0, 784637716923335095479473677900958302012794430558004314112),
     (False, 8313140759174391779718174581384026376896512, 212676479325586539664609129644855132160),
     (False, 610753, 9257276591570169787778903304632848584520870801933237207732895094292629),
     (False, 1157159573946271223472362913079106073065108850241654650966611886786580, 42814904236012035268477427783926924703409027458941222085764639811103581),
     (False, 24752366511444457889588512937582753344158343999700394018332682390794398, 67350303327341567303664872675307345658867663549221305857041082473184575),
     (True, 122499941354661786233472485700937432900040061875414728670643570416423129, 35611163889389469987654922301840199380342240245497212783977253210223247),
     (True, 34247518182392854538658558488959479179165561695714089566764733098606499, 18418446759371592376799735687423774052183681127705011041697004266691425),
     (False, 4580709802609802649694377758614016532721444361670007055497436936751638, 50018382064960117726139413037012994628874463203589051724205103925874959),
     (True, 67564108073494849678595397947439726516616132207039525643727448587378233, 10820701348675090188781782904093358004259012783131519068556942373226031),
     (False, 1581020839647386328200544932585097837298665051318182793897979002137636, 53882086226459911720719223514639819256392573009799262795782854936937109),
     (False, 39202663809886529253829340683248242738319684636566099630114377491659839, 31026804441375728781910736262517853733312237591303124398479010334543908),
     (False, 12998728410037856559383389039278423275684310698596745005302581405835765, 47195183252526024137441526692345440730174986827957158703624900316773609),
     (True, 60152283995376325647994584946875018567274401010329036844172158211024392, 36291934579476949170961539441498659148733234289554665606497081457366218),
     (False, 17784719167843759080248451890735372301385571443822841055181066035614389, 42939280187358984190817754633417682473964471607542586091661680867112701),
     (True, 49792770173019843489725682141248297432707771882927195984556953030874538, 45426864663646518485482412603622655631572460763133737969073214472904836),
     (False, 27864567034871860577519570032741016091881146573544984347461671156536517, 10649518422501175337413347620245076517440441695780975935993576699785977),
     (False, 1531393189851146376704041272811734152287088311846553906206315285154993, 26468137062010504766510494899990372716311976644238514025378256550645878),
     (True, 18919232686946983744373444805709571712730402048416539839092954989149622, 66794171489631038307525793128576800918843618272561686581786016898594614)]
    (1, 2) (24779305, 66794171489631038307525793128576800918843618272561686581786016898594614)"
  by (simp only: pw_eval)

lemma q1_m1:
  "pw_chain 74058212732561358302231226437062788676166966415465897661863160754340908 1
    [(True, 120485255594742648986484332523939123206351848922475636959752293680741737, 73723555997206006869384972328794329770427073036451337622245846298282533),
     (False, 73390411519929622829017518506288214258016127354227274680845614202410503, 47260047413850295524340801117859846689527409952507389999000405073549868),
     (False, 30158870963103383167930169422001574142469989357132966553994989329114467, 29758508075917093950376460550151922150999953377758899990487414539215855),
     (True, 23915478654673573194654470649307953392326271387887334466044588590288941, 15533081651677870270914748886790375115989360391793347345549385420752563),
     (True, 6515864120809629562991073281810391185062248833494516442093267749654094, 33032251797657976845775598082804288848602308872313537746715500337914680),
     (True, 29466810460688823946860703076646646679531392451812386380617098723491770, 6555666814127633506350188197211693389805847507378088565552137930169410),
     (True, 1160621240835282919050951948335245017146723158855308505665375786774892, 23106016685637634157287559334335934391370487219714175683276611963389156),
     (False, 7209031751886025387357323333454626263696774267179995147736760732841760, 9873998029049892886497741387572415978018053328879846957763859972516016),
     (True, 2632951390003365084335973123342242516486752734134481300714631218267153, 55979328769682415423166058127506160050484147169866874315296139590696741),
     (True, 84627622889592046404741497839485731337406975361735117551817279388666868, 3972333587906236889512936773951033395330448889846802252475024928072886),
     (True, 426135969297305335777391151775550010303196914667681621025775474146311, 27761516180245189731908187747824767962457452781687581946686976166293915),
     (True, 20813404811946240880143617252782535100322497885252814408259941941988084, 54086688036442362388769764764538014158049767788699155274639419664302262),
     (False, 39500950871114295143440728316281270050926568457830745950227210798568014, 62243176476028797547480952347273962206710983379796077722592821316367946),
     (False, 52313077441074672624183715521083514587340275789277486460515344096561948, 51023904306648405031493181512252039755800111751213581856066693820252080),
     (False, 35153951393554941235147189430086615163186688036328760545643930766393754, 71590560715488230603160546455438943176626670054473393316687045232831522),
     (True, 138410263884334697668989585783302797008286071685872971375087258913406678, 39357750593411277626853990861866899611033627664285504489485487331296022),
     (True, 41832835943989741901730126654307403538393699855890783072761033985881251, 73994299027674238557536821761741624074404976648766356356064316312414311),
     (True, 147860880963161488871598148691873729884102879153389967580661187774800616, 3030880329163152304462673657469374079447722318864915893063539017610730),
     (False, 124040740800502784159158201309001499428680217044235259742974989680252, 20186061522064547348942138738928635052949347431942743397747040877464336),
     (False, 5502118735217848572772976548618763168088411846233689071287546854155947, 31080597194559010657524423485039797717674499604036372503093027172496967),
     (True, 26087681199082037160337956481740719429391040715835570765273587255223214, 58440526477421557842028399989200600975360531510958556328261883512183080),
     (True, 92232718261552073960188940938004804758259176366793297784778916704704998, 41516042357108640934693520320558199706115539433164765985243275517819614),
     (True, 46546674822451590717534199232606053465495981671076303325335704820198264, 56850440753119798199641765124701563093724562108599945471550834900632544),
     (False, 43640975046147379448907198182990012079866321109616377133488698686605918, 59905247070155557589792938963250773898075121489390557708937474376224310)]
    (24779305, 66794171489631038307525793128576800918843618272561686581786016898594614) (415727762731470, 59905247070155557589792938963250773898075121489390557708937474376224310)"
  by (simp only: pw_eval)

lemma q1_m2:
  "pw_chain 74058212732561358302231226437062788676166966415465897661863160754340908 1
    [(True, 96913994927089439735818909119857892936373873868475114751776280327832044, 51610221560379778677873092924641887428558216155829860483579101455328292),
     (False, 35966503527844003029378274477109145875613536457707873368619714971706678, 12607433573230962643467891411585419083539293033581933793753662675160318),
     (True, 4292498439772539875113245926749808401244742909257348505721785574529891, 7644206704861915064519872494262899263124054706753901718355019928171111),
     (False, 789026550744237461417279879360768391737729621402180595280289091941320, 3656616792795971615964429652879790037527250914219750234205407575397081),
     (False, 180545085764386863080941208067206450607736793694004694604330827698515, 44910072599201880858785016335765272683153853309518365827614176295667456),
     (True, 54468357969940630847903070755584533619290143295762725935134971578551561, 42823733237427961866644958426854511007334944364622345030286946804018045),
     (False, 24762576096899098336158060060456886499967271944551491259875345372347245, 44229501098471092128779605976169943203831069068326638942217283173370810),
     (False, 26415014557319269354969579381474410077524440398545516613213450453762340, 15709313432981918239605436276139977726167899692337037488190852642013720),
     (False, 3332277669552274439986146704874254702288430677915795500904412771491518, 64736048859960574996725171318638238837341298743207500270134321237311574),
     (False, 56587323233587066496277858691136475818689270052206261830675480492579315, 7070111891805060864548757543425365476045914473664363518210803907818771),
     (True, 1349924075082780276702753767445467218150842080270606888311729582469349, 73006098937535659217249858779868473560363143744827874117540793935541339),
     (True, 143937864158956110630592553985582406544529904432008671955108538038374068, 26261028886456709935438836247269744776045331597228431455996526695426166),
     (False, 9312156109758469703849824938210800892317925220974681000635591841851007, 59164004801848140152236676725967919273956568472762473385950375178216207),
     (True, 94530487167808446290027239163393343673157767949897615521410548333089510, 5074814565478457957282033174263980056348248120341405154030853789348128),
     (False, 347749991847549650111835462083637654481009403032134019260908499036193, 70469177349291559466123681724612771667726699584267318722499984723657333),
     (False, 67054075072251032263986933927948862439647103053025031552768932082185748, 55224902731661154825095012409331249029123573085174738085104203915879453),
     (False, 41180981408973794870941102491021225379444826167519209874220736658769210, 12219301287136083619979772169428104279429169654296992171429375052505739),
     (True, 4032269168714558224485966390252941702192553538323437086566338828580863, 43395268309710450924767376581795593145242126782251477239918119537609501),
     (True, 50855921097425868668342240572447226372236984656075340425431102992866322, 55268776644369205451234458373855931073298096374039012089695711263703948),
     (False, 41246440591215224387854183769107645143015597121762276314351387414069189, 31449701159615089460857935188139667440059681354380461699459251599772281),
     (False, 13355489776682415329489866032965129616121053900198373837916608007368668, 4270266321051578943348609850947362855436106466744013275257027353441085),
     (True, 492455158715702634150911974863731001342068732473452735588521925698743, 32447942494260381179317789457463668218690385819077244298629524728574549),
     (False, 14216775334734902284854741485048253965239136015444041419028832683728650, 54980755414433188203062458250353229448483829906751478486261111467667851),
     (True, 81635334000239669851652805874673961220647979182055961350941960933546749, 67956744329022132767714645437480684503377926765859351246559220350355059)]
    (415727762731470, 59905247070155557589792938963250773898075121489390557708937474376224310) (6974754472542632948837, 67956744329022132767714645437480684503377926765859351246559220350355059)"
  by (simp only: pw_eval)

lemma q1_m3:
  "pw_chain 74058212732561358302231226437062788676166966415465897661863160754340908 1
    [(False, 62357960439539771786128189601645106508750870812756374588267956349195311, 65059046996379679682899910575007640085683652944613117515805467747006404),
     (False, 57153412699306839625973651182967669345816692900568340219861985411391345, 24299272528052384420260690148753539293873449786856489604039988297761301),
     (True, 15945689846035256996305345415711374281493662633141366364906721213568476, 63451802044238897392199271441770955419508672762410507456557591853977470),
     (False, 54364411914724758443541641883992307341046508006289583044300701856578485, 22597814082411409699612966302411864418534596497329094182886460976015005),
     (False, 6895402717148043514959193901617493506645197422235451317313759372319685, 41038390859567015992972922737202606252633949239260025002469908108295730),
     (False, 22740888042010760031754550134738071144892501565620546614805772040026926, 6863649637622606812243395657090806345933121645807069554558333472971018),
     (True, 1272233952449249670485281565529823906902578794808389441858449973350695, 17624207582733641917495387846056778294471677926149874945567454640532283),
     (True, 8388338887976380979233632060637142191133287221350053799020984786454163, 49193208058566577959104148180871418100167009799773547090851024499038337),
     (False, 32676615189626696606969688926059182374810154778338336992834428126877671, 61578077530096916426596978715402478932905687967287143836897864375537972),
     (False, 51201068624161522796693086448446449429537990654770489420832469529821372, 4105875347237545186198470304769667924697171896217700108781547111408380),
     (False, 227634609924105556505695070201995370181179909042028064268988017474773, 10828997928446210701989189866324491273221686470919068671602815019785289),
     (True, 3166892416314906918693693430858285187093676442534392119535258251078632, 48346849457390357025693369405251523959762280159930721241142046330427818),
     (False, 31561899298008145797706081370360994443202422805003922511586819844195260, 47059771906714119819812480879258455447475740669393630153716347794740304),
     (False, 29903802025433582900323457948355307970738108896316002842234649276338173, 40688680805101588592102734332792292787896502688139661668364615742469505),
     (False, 22354964892793509691491052911460174674276674138938529269381598747491505, 68648931893065637410210464875532471739450541519771408167643509998449990),
     (True, 127269499929120772464615526585854164988136094233458206394173569538618142, 17818161401505918158556069249545863733577477380957474073626904299065406),
     (True, 8573981575186599190983813337084739610965500400993071700566079170689824, 44777293032195950306999229438824625693916416402529125060476520480059304),
     (True, 54146755567315981072578964901811582330213354162598612804536251080325523, 39730253019602770864519918142779519123052512407983580023337025838859471),
     (False, 21314219541077787215780681680441156076396487056065405556911207908716445, 69739347985785909195117120511593078001038509240396491072119825759284226),
     (True, 131344694343242240387140996989731845634947517757697103505563730114988853, 5714243634965736365600732601690172024192946701703246837947486037928481),
     (False, 440904244309287667153166437186660481486210696506512803525611201829458, 8966701809750480175132281441372376453010733244796307400251428263928955),
     (False, 1085655977620320063290744023886737844277678485243321116528451044092305, 38083218005577667609334965538993191743775586963748294557364486941971390),
     (True, 39167337156725204457292637679172753909629793556775606512403684320159701, 25367839317771031639952215701897139861415218974366781842116251919875393),
     (True, 17378957657975145986220623857802246461732111946846172678789774784278273, 10980063351514778157005549468018301628451670697274289593367167498595287)]
    (6974754472542632948837, 67956744329022132767714645437480684503377926765859351246559220350355059) (117016962332813822191357596115, 10980063351514778157005549468018301628451670697274289593367167498595287)"
  by (simp only: pw_eval)

lemma q1_m4:
  "pw_chain 74058212732561358302231226437062788676166966415465897661863160754340908 1
    [(True, 3255865534823263176614466836109888802190293622813622970500202692453021, 10622552789254092636906058105188141289654609219000383430847022521194691),
     (True, 3047295461152220427189866373814562132881496811975363930449659464845927, 37997587183541663779003367602879257353611870065895468345626288664735173),
     (True, 38991398212234826587318456173136271795483567459637684363610044019533792, 21856358015838061538321139640202557757811906244077066571949230072250514),
     (True, 12900672811037390088026761126188186993060667560218988915459697638922959, 21775303980155605413463449083452253346837572633045873128875810151344579),
     (False, 6402583129307733717762468072347783353048882562596280557838598256236721, 37207812695334010458645991763120351975762241618636847401056575066841294),
     (True, 37387381479768463221894128959083980892545541552905982316545567930718411, 37066768459898215312323199364324727412010576745391323375440717851850095),
     (False, 18552234429708552230906066971278449227825349130870566166955128734613604, 65626805947523963538669627678002060436780939641818486051885986015610197),
     (False, 58155301079529712686891825227722310086196770252801774077643867699556862, 25627939115667223615495161442228810027303364201690768059766515471224975),
     (True, 17737162134553459723163524430514104903164791560191599596628031593964703, 22215998879008375740440568544676670894116847390171418840696984340495629),
     (False, 6664360210452402490315611173150786364623480370785771235336876870711858, 35672966278453353814284990201267606061600807179621978912351760668730435),
     (False, 17183246477998790248640666963798796068560927665391050837232183657209882, 593108134046836163611118372097765501214679492636961049514195218046251),
     (True, 9500020205533612460863607035023226341966507504527386742282590405388, 66000338066974899546734582618282039671499733981041187452017325268703086),
     (False, 58819197280462360685460293366817666672279025779735201958445338425775591, 25128021495193710391433785416588563254141892544643471369982176932522359),
     (False, 8525961415556822751429961544556541119070489617166438859227337066592683, 43572807545398728076739399730915348192078017524923048607277794141141400),
     (True, 51272897018039938331575911114022356578353089632635441588719792364967345, 64430789838214670370977400022716497713195584758074789776176847535238085),
     (False, 56054913101500797078504486632617290810907833942075047478446719477245190, 23925621013128056732313651708555195202385702977930316835875695148479895),
     (True, 15459064423577447528741810599168204838058394903725897591957194247937479, 59871792106663572955832521242387634588680708476662779603162677650268597),
     (True, 96805779070265861016038157719736767487428588851836723333874565562545129, 39745327798338992893948292242152723184584720464885888454686274650404815),
     (False, 21330397041878268220440035344430235221085025770882907312885155271526734, 31696639904365753107769442767829799140366231137872339266966295574876487),
     (True, 27132088235915598731399234909181487362125011788829694942919061461604934, 44759233612880384862059565985245276826796294382194269589621359021687200),
     (False, 27051543909748800298682990317910115598901721947196911740163252889717035, 43289307772775068289359397777382943891461722110298613870449815488589255),
     (True, 50607869088423557493687882383678272885283588652159591838997884593648727, 25581444385703881019328578566098791501234095168041173362738593038334661),
     (False, 8836431135896618987616964895708495005000121305835174671583745728515123, 69490809710348678725736597923071784769591275419387514694139338586948360)]
    (117016962332813822191357596115, 10980063351514778157005549468018301628451670697274289593367167498595287) (981609426360740691344999861639072106, 69490809710348678725736597923071784769591275419387514694139338586948360)"
  by (simp only: pw_eval)

lemma q1_pow_m: "2 ^ 981609426360740691344999861639072106 mod 74058212732561358302231226437062788676166966415465897661863160754340907 = 69490809710348678725736597923071784769591275419387514694139338586948360 mod (74058212732561358302231226437062788676166966415465897661863160754340907 :: nat)"
proof -
  have M: "74058212732561358302231226437062788676166966415465897661863160754340908 = 74058212732561358302231226437062788676166966415465897661863160754340907 + (1 :: nat)" by simp
  have start: "2 ^ 1 mod 74058212732561358302231226437062788676166966415465897661863160754340907 = 2 mod (74058212732561358302231226437062788676166966415465897661863160754340907 :: nat)" by simp
  note s0 = pw_chain_sound [OF M q1_m0 start]
  note s1 = pw_chain_sound [OF M q1_m1 s0]
  note s2 = pw_chain_sound [OF M q1_m2 s1]
  note s3 = pw_chain_sound [OF M q1_m3 s2]
  note s4 = pw_chain_sound [OF M q1_m4 s3]
  show ?thesis by (rule s4)
qed

lemma q1_e0:
  "pw_chain 74058212732561358302231226437062788676166966415465897661863160754340908 1
    [(False, 0, 4),
     (True, 0, 32),
     (False, 0, 1024),
     (True, 0, 2097152),
     (False, 0, 4398046511104),
     (True, 0, 38685626227668133590597632),
     (True, 0, 2993155353253689176481146537402947624255349848014848),
     (True, 241944239217974006306559737462784, 6189700196426901374495621120),
     (False, 0, 38312388521647221458958675678757729590468478054590054400),
     (True, 39640144153472861193266747385902530560000, 1014120480182583521197362564300800000),
     (False, 13, 65683582802456118417849795416527812824039352619930744988659550193568209),
     (True, 116511940825442459782292841703638125063030228513369450879955054967226566, 730750818665451459101842416358141509827966271488000000000000000000000),
     (True, 14421000434039473909530624000000000000000000000000000000000000000000, 368934881474191032320000000000000000000000000000000000000000000),
     (True, 3675836662704939085518685401140046680296925041297496916, 48809625924748483731799561722316200977022350985513074122619159554857188),
     (True, 64338025318464444342955632505924485856417067396673730327657275284651864, 67081965265659839634802011309121912357716721342572711216089355881534040),
     (True, 121525753805416138346706430465419786222643613467622023455459269458319525, 30154185761289111773970318579344453837419843928642106479836178173134025),
     (False, 12277840436278147552078235941909291386797414739826283931274334589850559, 55979714146881556420759296722019659924749169523733696577652506942183612),
     (False, 42314394046789586056170298750879232160358089862891485603888972641663161, 40097780151135862601136023226120261922348134251869195310714167864139517),
     (False, 21710380438899056550880882523674926494225350295417576107727986598290590, 1210888236669141735186113147451254750685152564225750524109014530828159),
     (True, 39597237567658272342972383747201565209443028065569145797417347431752, 28520090902772294742046987392738656069000542015245104328082450850379498),
     (True, 21966384418152920108892035586816546868272827355371715526077605686746527, 41710527951791149713114816387363791986883722089053417275356928181184019),
     (False, 23491900193430169338230511734225025668169639839191002159248911146484986, 34746133445292654476404191408099243906648796514322579982377258539870059),
     (False, 16301956864093628504845736357669873534101208890285929289259442799565959, 37168282550746136069562020480225900979641675608676994072986479886278668),
     (False, 18653990918750600808612360746129714363898173638984590966165350393279350, 30180817980606422945931729257869200279483962493746904484364669768483774)]
    (1, 2) (22503192, 30180817980606422945931729257869200279483962493746904484364669768483774)"
  by (simp only: pw_eval)

lemma q1_e1:
  "pw_chain 74058212732561358302231226437062788676166966415465897661863160754340908 1
    [(True, 24599075250920990965964699924108170285272263897712958188511692950423425, 49776262735654995675949713078166983576478491690678278633806933354019677),
     (True, 66911588614117068699398198904270071263095738967568361097386900839281259, 31511304206676897539353435348422870797651826956634285735201501264206745),
     (False, 13407861953022192525515360583100287614807282997531869052634610591277547, 27071408473785301719267339466455760447765971657451334478969063010779896),
     (True, 19791489146545815957710465607018317600638300961522000315343557077080252, 24391468614948384584822873476414723340324948636000652721214898110073068),
     (False, 8033460695878117978682157814213164973805128294136129073486315269504367, 67991436203480062011377816698281207040786449478338401343544614655691755),
     (True, 124843288176717387873822850524755294937458186777864783524456997656225301, 880828378382020692075198874285136798836540666071079671388607397272043),
     (True, 20952669623958573490256909832744100882436509587586334947770868543999, 22906709256919254590005944459787451047742989873516294463124058323720605),
     (False, 7085201081963547004621310899972178859872023860771231827852045034468135, 71193885456389275711222123659939371302120480839112041332913070883067580),
     (False, 68440340906970955918417931053723558575222049878558585240858522205423169, 29596813727301841531266856669040513952004016718050767059676957224782117),
     (False, 11828146406555963407498340128829463776682417463180776224064809712746281, 60136936040100778026256873057448037088452343450894865905279539052584822),
     (False, 48832545950722327106968703327736863850574969650003431199148506143721019, 52248726147229723934982818896812307170100359754709075293969653677347451),
     (True, 73723879723279689681075846441963043174047828067315577063571933055945487, 5841746583726320904423855299782584688288008460993874986493030346258093),
     (False, 460799712676213109078599451342233557917315491938000279079920491277712, 61225978126980705145234224568666104933462598634206971520310012109031865),
     (False, 50617213936049451760329835836911741592497795996980314558122623020134983, 65844596459662995620483832892725162873656939931473157843798725246728644),
     (True, 117083864785995837582446063901718310733878952819052637374389001523679883, 20269069502620816045826404259086698194222588945148611863458302620283591),
     (False, 5547462777500169565927641909138379308051443465979013509197324566949899, 588689268238225880525105826480755253714375946370781501769488228636888),
     (True, 9358990495499417880797574914767462389414660853306623862857812540087, 54208291038285986846608731172563448427404381397389132408824583907210179),
     (False, 39678770373559422596579463319250590625830746047139749136302791641803688, 1903373312369808671736401335508154227937402110727764556046729759347025),
     (False, 48918679408647929858807711168237769945938890480377818395390656076058, 38744820234148713509762808072501451283394866837178441210523335723646019),
     (True, 40540030324455300949257782296521158712512606539462195184941912757687639, 37798037297565389228397042573846662626704094872312706911312376803148149),
     (True, 38582935526878786759394025651029532941714226794487982930667748980889568, 25891268270107415469466517377151780355649291799369648101454552092294226),
     (True, 18103536337163944864326810218785880679831479395602015558143254185273641, 15908287438488163818480650177431493194381694457278569326087031910745765),
     (True, 6834450897146503842002265860324869196607242540210851113752294300488154, 40729185305644356602471113997308306873711468525915510672642752299754772),
     (True, 44798989185764085087805109285957930200207618363493558989041277163666182, 6795530159490208196831931101530331812181693444406796752822567498436894)]
    (22503192, 30180817980606422945931729257869200279483962493746904484364669768483774) (377540926902943, 6795530159490208196831931101530331812181693444406796752822567498436894)"
  by (simp only: pw_eval)

lemma q1_e2:
  "pw_chain 74058212732561358302231226437062788676166966415465897661863160754340908 1
    [(True, 1247106254516382020535322853340860581486120327131864668180951923576370, 55802762359278333881226989276906773914815768748406544547543072971166882),
     (False, 42047305383552329065389796056815762550943742864003237672220601269223990, 1663190257379797455312707478216743777890029539443109098327944890842994),
     (True, 74703445578206725337880371510212540465338717546293321598425402665503, 14162800904931526615012748995142333227296089548240445547911808167136851),
     (False, 2708476508838804249589949099719298802085741610587571089441447117111464, 57211532943859799763179490378765801052502680223075031480627305988338353),
     (False, 44197117119290633377031165494278981764515687475426588704837601782045038, 72907279837916971497300275126577552617498010984657512108897279730983143),
     (False, 71774233501415137551310396610848049247142192561497618457390729234601608, 32328679742323808219068828510519929470394330636680182913290076587779993),
     (False, 14112459581707092939640859692748710450068367064333981774987523091351578, 69154356490087322061631554050411007707958335379094549133504182966678803),
     (True, 129150430319672724259410128078734413569652292497152383744766518651813647, 18402770134385423725185354813800355047402070047756377956366356666067789),
     (True, 9145830992222359328933659404161580131060258617162843878388149887352589, 42126851920915005625171105633964786856854733728541705473121395271638819),
     (True, 47926397013532734275927932079572006001817621927189168052086288634883675, 69857631736146941638172888169435319112487008579276313494290372736436297),
     (True, 131790615293568477940479791101471756477023285259219933120635646576137086, 54971131539354450080167780782426534409394490757801049490480321068567416),
     (False, 40803378737067416663211678580442507687233016445292123198127626149838996, 66585474824006023019233591479211333526341719200781927828928736390307684),
     (False, 59866762833570203175434000515249822549601329942551312020519837418097231, 64974567623958624928939173270096282043509708696028124184384972742715339),
     (True, 114010162604537429603397092469945552629739612186302982646856991095907394, 45143829606920028129673909172889586166806093048832988822411433993803484),
     (True, 55036849429194826205394413004231651025399103326518522442242498154493620, 26596996121627577852081410249423876413661278861323620857775274184563172),
     (False, 9551948076959842891510470332262714253283633962413599332716018210125653, 5169004220268844479662039395953943080061671322545161257583638790714313),
     (False, 360778415293969005705801296163636098162236537781129035199499132306740, 26426925306653506511956028880989540477808333972575967220542133529248789),
     (True, 18860362825266616604738181723031978496623246290742695436994668586214886, 69686016781411071573556506425205506628386200024346879272626804513791440),
     (False, 65571943416938469255479411601748511730792281704222321973416381770238343, 14842155056088000237117729575040584202820008981654614719133426552476499),
     (True, 5949092169006755644280529959686782227817844531137311494779797567746566, 27378136373781835887380960678823690592405020921155290137443961352018640),
     (True, 20242517977262340111082808093030316287576662699776115335757052434066608, 73897920342445066099554659736840845329445322776616809871444763037765744),
     (False, 73737974890897518168223147532165808207476750093432879294464560515998955, 11507059938801480943257649702941781109380472083653630088630755694121351),
     (False, 1787950634365658153654330154255912436475972925692615714648232989906020, 11575481651535816289095526060707621436894830536713696523528230942505061),
     (False, 1809276385711774710218255692895462635366600511830705055316713858574302, 73160989648500722026522734601311851100744409331112055870209121313041807)]
    (377540926902943, 6795530159490208196831931101530331812181693444406796752822567498436894) (6334085679490896356952, 73160989648500722026522734601311851100744409331112055870209121313041807)"
  by (simp only: pw_eval)

lemma q1_e3:
  "pw_chain 74058212732561358302231226437062788676166966415465897661863160754340908 1
    [(False, 72274636517047210161838838299878735250120768525623608106380555677685718, 19677919667653376163205777550172168859062839113855364850020142752759023),
     (True, 10457193285097180032197860381909360352689418158927263166073390181877596, 61493201761240616122836949448005318528848131214881558422131556686209486),
     (False, 51060020534171794685584282432167144672638554553072715014847489029349633, 66895820984520153930884558881655022791892265993191813421871458899047065),
     (True, 120852251224404994312558357178129885501973565583621168084549210292802628, 41646374919127363639626962706346082991126921242761601502463380192724854),
     (True, 46839384314278590109111690303226737369832740128019584227836963478867183, 63771197083703303638928520175010618730578834685447334638218992541887651),
     (False, 54913093733093612969366581165866566352462485209116707759985417376257652, 4344743331522370801808607581166885845277142061742932513297732830927437),
     (False, 254891306720780509869741426372090695606780670421430349920818474074129, 42504708377583645764111761142422646144110649251708338747683099104293966),
     (True, 48790003636398720844135427358060673647845485752811357259749186790958484, 24043902206389682617894133330407712169336764096622551039823516468113324),
     (True, 15612292330037609068830135758322590335544423211108801601280396480629957, 17278778333687914028586444848967849751467247669258324457566774517906953),
     (False, 4031371669511758950850958966633089684386084544731198578557291190533331, 60233265726770213189450582006011692329433240180509170371870873245472992),
     (False, 48989114998133881404416340281097052230269767171664267672630033427453814, 60820270238998972862249066232796158277396963384580032146982953048062766),
     (True, 99897233148281726614189953888924404808250238257670667348407642724567184, 70640098909694273413588329749586013261595645984561894855608650190145624),
     (False, 67379746146336772436161749568212698472383248773092431963790485755510136, 4406678748180705506302781773185306899880917534396269136478702088416024),
     (True, 524420368063501753393595530269143180099376963496812007390816474711527, 56180952915245190993788456698826427684794825039644019230068422759402163),
     (False, 42619168813363208511569771229344720368800878184356190234174802364346600, 51664660411505319543700658924188458532239555282771118362962258462712369),
     (True, 72084838046937497703549266037183389428045118085910027509566679020829845, 1685424981771679104233551395510540837314303998250209591721423681214907),
     (False, 38357087814665907553205985506817556556466234281380663820675817697685, 12334987667742760053084921955351810396442917290110794341299433164318354),
     (True, 4108981709100008086870218149571624456683889633849458626552593310246090, 31304862361337566926401003864563934971240609838502601234876602998735002),
     (True, 26465516012416888691440439724500514468257624100928562686629143586206419, 67188599152476500874689596276645233373323937881120211430759801642197975),
     (True, 121912416989435366864920496114246600011202502113319428907221013424149238, 1724346344410183833957087761184970646040264191300951389144386291922384),
     (False, 40149096309118127213997439922872975442417757512317783437807047646245, 33984562432935311328468307985087061856833307323228393623644465611799241),
     (True, 31190341790419095539225854271449784415807002908531881436062815287881633, 43359525697595373534492882811674932240875324754652609195426505430491031),
     (False, 25386090203252069367653233068459727876966959837785149403798707608172487, 47187004159082483081724448004954366680502756479244549016220283315417252),
     (True, 60131436591644532903439796264455364036932917185970612363417097872066710, 12847847765631538722781430775144455135845590792712512921539177732557038)]
    (6334085679490896356952, 73160989648500722026522734601311851100744409331112055870209121313041807) (106268323607325538214202676597, 12847847765631538722781430775144455135845590792712512921539177732557038)"
  by (simp only: pw_eval)

lemma q1_e4:
  "pw_chain 74058212732561358302231226437062788676166966415465897661863160754340908 1
    [(False, 2228884361616086093427613451569548708055730289760187099865727586139650, 41526555005473071820040659994934019140970310808736237868957761713670894),
     (True, 46570250806616760940766832329998068584441785963827448536924460390587801, 17601061033416049584635823575318794839593260508838009914252889816042965),
     (True, 8366319900826542236336784451892163702131654462900497894741003212049942, 33035755916368915456977716356087298747415237788201918946351394874405056),
     (True, 29473062573276557771440180389483045446662140050962056101569171998843657, 34608180838089270840823085441893908061873628475607798697337812744149373),
     (False, 16172766486373524657696927765600885080963931174646428545869017745296365, 6522968632259737771027378940987292260324457273851785467142686378390074),
     (False, 574536141333813163093391742950352521009870550124385731868085988789261, 49421921693561797025135452013156968248492409362363954542714533127125749),
     (False, 32981167837590044084749169926450407903106652686916958552151924181896775, 3719270902293315676913879590351825470894680919292685433305143824936076),
     (False, 186785172558772210274367252790679558487493390513009926834740015802412, 26872085030823407601232587488278887734386583979467138670025759685410092),
     (True, 19501117492842546605525661584242433135700908834319973712863105630934657, 20797523938062385107636473558487426179008764296274767909801124011783029),
     (True, 11681000283283998875297055350928677822014479865972912473336535167562533, 53949796156249671765111839220045754263671811973865112270055265422392251),
     (False, 39301252324459481579418729155774110222894688396232575053438175285137182, 44155466570178235231746793219378044927823704343159774808887758215542927),
     (False, 26326657855907126762020450004385027141326385110646539089919402024375804, 67541925131790651374026940477084915069041771127582919051088165281513101),
     (True, 123197994717543772830557617818868253102064282042263959139607067999260492, 63655470315081472835443801685947839736590627812400790976250357204726158),
     (False, 54713970963177961893633941986720736359083196720595683613558171200480570, 59032841656826355744827068436173139724069086490056196771956619759763974),
     (False, 47055907312596119670687956905079191347877163758466819765741958644092488, 17003456201910042268455537999865231696299265181341204739845810598466060),
     (True, 7807844994972611886501010124359647896759955000000232346571103040751770, 11307252466868823978123244758450966712904123045199138913613301800191810),
     (True, 3452796216166238587215439921043093960653830186536296899860945722354308, 39731388950274938964332675378663441351547410625853272247101306710074844),
     (False, 21315438351430399708104930606656756798581526204128113964567988105612710, 22210738863175814643719246656298956898501988172999921136982108629496366),
     (True, 13322409565287567448862009401331391087826501265899296601740410454314156, 12555930738284717605221800068936190903814989045768415641056879114432420),
     (True, 4257499361317641753417502945323102616946903552967095840097525410606720, 53738843327677809785806468536116422374192007739281846609530456909017760),
     (False, 38994504129141477862489263227002511310986404755292057633218480429288697, 27485025906527658478771401216277066778545321415554191951216502935589421),
     (True, 20400887928810526748954386339043582748115609265398149939882103380027958, 29380218613773937568925503763498610646666484153405066650971161851152576),
     (True, 23311317244728064496052928125977837543162480976322105295795709476086436, 72885410000590038761575123319085450629785042909541386059367062320234100),
     (True, 143462360079841510390250664117972286220343782210688328026862213385906085, 25137699770428729501672369570826265739588416154349410591076020429900905)]
    (106268323607325538214202676597, 12847847765631538722781430775144455135845590792712512921539177732557038) (1782886619117999736935932573053405623, 25137699770428729501672369570826265739588416154349410591076020429900905)"
  by (simp only: pw_eval)

lemma q1_e5:
  "pw_chain 74058212732561358302231226437062788676166966415465897661863160754340908 1
    [(True, 17065060752414885677817200105951939088729424245318239522682946198373942, 61060179921610788803594550077734425072989128526755825234331654906192656),
     (True, 100686890339178556989077209929243914080430182440261307014888864026888982, 43224207947713978688801966697801691685727988192724080544956128506481998),
     (False, 25227886061119674363874196504779428799854682813747659235477659153368279, 43610344547510440350454762450190574342242188659447340553401182612182951),
     (True, 51361275984894978142385904015726653108585354843345728720458736657162185, 60770911049761636692668892298401719223478869677737745221485788311135007),
     (True, 99735154105178261957482352426424680572112358220488747964896996707969553, 4173928215597823069758775732405228258212734161951505802098802423375527),
     (False, 235243008251855847210610737157342683541303875517121181365280221614701, 46175009929261682961633605127717391311692518097554279897886990305653922),
     (False, 28789940552129682194269331551976940047273675348116793676043142061951660, 66267797832674393404470501047122165242061726151100426696985814639426464),
     (True, 118593762057166633253663353951989434575567328401308381388121387221598797, 39420382232380275937187141601225203597660591858650231537001623207997713),
     (True, 41966082572331001496877800834194476917951773222383841389551992737893816, 48257209805730229101842072778521561073615999246804312603900098795329626),
     (False, 31444970278230530831318274809572508353950366721436080287693528769385449, 67100145689033418875040802211365771840091768724170831836868256562037633),
     (True, 121591634077064777060720356863116366221170097948256022629398995259021921, 31883895717314731501400458372106407226583725821538212481175137996463031),
     (True, 27453614355606429318163204060816016781305848672615527195827185278716237, 65572332690103799341317212542260920768975289175863125890785358285206963),
     (False, 58058798015404739050734018980819848464408754805656062743531556660894685, 60202360900183063175843834734374262996203530227822534885432731629304074),
     (False, 48938856667308888942624355463717991815067154273228352113491315633618401, 30873770386263388028027379186981350911836767754537063046821661250767769),
     (True, 25741633849735692324168196468275902870614685345190193116394524727193260, 19511929459557011745494177265406429735818009226034392658299692625787902),
     (True, 10281517125171958111582099330815074638707691759463214586733857873771233, 28664853416633696533245297446176271618923221953557438452339769167394877),
     (False, 11094972334321931806445148125206173209973747906146395544921359416067551, 50083665339571999901453157528322324678974241789743124432037324051236372),
     (False, 33870295289254028506715422887161685532169888246151617792962910941976914, 54420459838678711313062262204705926895975264192147026698902892135901386),
     (True, 79979960082161542122551288975516606357422513753806340547176808768144168, 66831750851970837154095734385505919531577486724420426262193317037561616),
     (False, 60310433605375343872067667957542336166875856200022022268674156070877818, 60993710531500889557467619745590608863780307348793147209901009480230530),
     (False, 50233898269122535370812160634506104455075601846484111811164957678358469, 25312200468660705119087111941185186638056780823555767023019320167489517),
     (False, 8651403658354365950512056765192429737825676794868618449442577376825401, 1632428298284055903792939127788568055920755048753152468010304533914582),
     (True, 71965607883673099319684998261430341864345641816014817391884246808469, 37100738299146412317848671375362022295887528214199392353262721383728065),
     (False, 18586254401148351430918545766482724117146762481066036309812130160383728, 12053259378776376607547404775574758213399343703264929587730561021082929)]
    (1782886619117999736935932573053405623, 25137699770428729501672369570826265739588416154349410591076020429900905) (29911873912452411074517318939552765686952738, 12053259378776376607547404775574758213399343703264929587730561021082929)"
  by (simp only: pw_eval)

lemma q1_e6:
  "pw_chain 74058212732561358302231226437062788676166966415465897661863160754340908 1
    [(True, 3923428780996887303506339052417387812253874045425035214474466415562237, 12106181457794696123156400140310079588551317081658839873916479016909123),
     (False, 1978978753083165853099225530645222004750445483988463053387987985845528, 50158997052850196156263669520171797259540197777147100756465453687215233),
     (False, 33972261718404280063673340839595905705713768357004220981264525938274862, 36933310750005739049702850162572125534446707461127682936868669050864455),
     (False, 18418881480200043867775457049512580892214822982992595159394441733059180, 30670870238916976211998749522309455782502670038340511423624669056570765),
     (True, 25404401389202907010478404551716936352220240991939304011936947864776338, 38830790641689920261660618126621514298733780334227306558172466746311884),
     (False, 20360068738140125222329236367141572554558562513965405662377333364984158, 60573575090487335294681566312639857066368736642309426361150524413278150),
     (False, 49544241804659160793103366359854295507167628220698737886287838388225951, 58047558531492412171294509217981555140488985426678404435591087269144943),
     (False, 45498249649029846458662985504298241629623034762092266108388774445501152, 71956345811095097043018662016819458469228319029010456966087001273248385),
     (True, 139828265129315058350567291859407338658655406199094507139493508402633582, 31516048918991027863909765562476480797649995385598915766609042375677576),
     (True, 26823799895120230366968158431507871297094071739328206043028718473447274, 13476776121212525161362788187960532316608594014644863451902338132634034),
     (False, 2452442314225998891430317586871079545140067130406663002193373961404937, 59307343457309437952483864704741626739534987323867616797677467804255297),
     (False, 47494543254306456634187540140861072791235376021289173464634916060199046, 48683791108696266531568100622383771238941977176667262092147205792383487),
     (True, 64006716588587097785199862212293423941673893610372226678199435486352884, 39790635832330873218509457357152036395280887709044957745541660301932550),
     (True, 42758112612270550546651416396006940563678933283567202089784152668361484, 34479642621743694635577181794735211116616616324950393341850817454579012),
     (True, 32105710128769057766473843996692965775879254377186648066842138082940994, 38663037850172365383115411625994481092194499770489887536609381660350730),
     (True, 40369067538855825639795474306325464020743987467434004885529017126612705, 13704275865888149275794676763287620894018348514550168763363331495642365),
     (False, 2535939905633055274842257795578661222912280550149851472602374548352879, 13551349414357860249908075916199745209512284495358581550701117881871972),
     (False, 2479658422397710330012625184756782827433614377674414740248090893697491, 33932284979406229403113260990952285179991263649839727073381857054604447),
     (True, 31094457223308029759053966049028257360517340476414384454268967601081011, 73525767946833325945475388437268047154731489947177759492627783246134641),
     (True, 145994302392736424327734583887392652190700359041474204977770915379056976, 43444524791103223440687318752434279504679972593740957081825886919880530),
     (True, 50971436244097556542171802180531959471079845931542472767146439481730603, 42913593086873152749705770531607006318314770849854076087203945949484879),
     (False, 24866607006518221665135324002937712779832279637647723828696695609444891, 5503157699251386519229540231365925115443018937762161837769708606188504),
     (False, 408931616702578686805731658412424481059421492054151328480712797574356, 64146323121780501790772438873864757920782118009658552924684459276777124),
     (False, 55561032574510525980811946533517515656256250334454406765601612170092534, 8448695484825664945238721065649273784968573624098830844940127998223038)]
    (29911873912452411074517318939552765686952738, 12053259378776376607547404775574758213399343703264929587730561021082929) (501837969593979190317969155589767693327394476183352, 8448695484825664945238721065649273784968573624098830844940127998223038)"
  by (simp only: pw_eval)

lemma q1_e7:
  "pw_chain 74058212732561358302231226437062788676166966415465897661863160754340908 1
    [(False, 963842533617200777529872551704294465739432868084547376299656793340100, 58218842247205537338930168241243444907978151046097012050548003000478744),
     (False, 45767153534273230119803183689658394174119338888071527602437551725596302, 3517868117704116821433767305011249521814711172584470600716643629291622),
     (True, 334207257694675226493145517048546871519223312689665784053143576878198, 34682534062405588826209638324503698278234708795114633810106470930936182),
     (True, 32484666442971057137475460141792734132135190829073254091761447090361023, 43021845738621842786194280271189811461611913004803748065086384866206387),
     (False, 24992220882262714322437353562598600958526235688608085836415601264907336, 47066334363725288404856629467803093493806134956241335006120413770400017),
     (True, 59824285483033482700310763785498556915632419499050892390328357621115896, 71656034249665291474297382609825600053444359999652331335496169046442906),
     (False, 69331773680944754514479899069051023238760945605998461367209747882034063, 4532302360208299749403241410270928214223685654265822641217187429409695),
     (True, 554746433282964599580543692920099043585547168473980960587457404612955, 5227283813084482351057592282595757205232929300754167317839829861335865),
     (True, 737919402975848926532617339139569812720628805554487898746227205291867, 2847114559590946038175189897136983487593681548170783648679622518093081),
     (False, 109455265207483659818413418817795214683932649600847222972059778418425, 5715366183194059776962833633270066047975495884770259774577830840061086),
     (True, 882154980595046217254413850801531376286308609089161787778731883961650, 17933614173297055511922295723820007865348816158729258544227326608782242),
     (True, 8685451766925398087735394539420545666846717508866261202517166924707319, 21301626889227226263625563291793148689220520457389901851489044625094795),
     (True, 12254125272141300667981376258331438027319661938469778968871149480582226, 70821372087203339451857537476944788478712781340909509991681790223265068),
     (True, 135452006178616666522928181057801551179630964561447692455416125547424853, 26973529761829739022345561867696200422970490834377115937555646051727577),
     (True, 19648632635511108246094495798290204070665746341189705553489474284927781, 19665966182876234773894961531385267549563018203118193934856893695544491),
     (True, 10444492558918809331152482095796181384956773143718507275283278331773493, 52187323999123130187600620080883698994007515539645557825728786292720011),
     (False, 36775351250030877848164639147076042724576521526205588205425533355366493, 4471128737530873481284777674846266020985451170124038560214503192810970),
     (False, 269936195459722907219766989625492426608213151971318212816958081951607, 37922230838219070753528911483387832304133275852565260739553414597853351),
     (False, 19418448524276665747052227245036427285895855799940499090992660732473022, 11033982827422101398945521420857576080426888604651567781262753533418247),
     (False, 1643960508141134817898618855031376917768182009896346667251303558838704, 21844806126079074109894001712787690717781434044294229504591652390488481),
     (False, 6443519726964354495139817960529472990220475209256097696624859394997208, 28910326956718588816415863524541457101931201421019134029175532648499705),
     (False, 11285811173470139117262896956251092048546541717293831227149243799562329, 33175761488626935141893194324837008986637658350459085929962373924194622),
     (False, 14861702838074903264906061111788974840240051981959729610077689958679402, 67669655054887480815198666427380935079507581610359144013526378706825270),
     (False, 61832199917972343505335105824854408023143002160785009623745373379282994, 18573837424811328134602619977051715522890118259630663428463053606937342)]
    (501837969593979190317969155589767693327394476183352, 8448695484825664945238721065649273784968573624098830844940127998223038) (8419444012879621175469677204667139980775455844134955630336, 18573837424811328134602619977051715522890118259630663428463053606937342)"
  by (simp only: pw_eval)

lemma q1_e8:
  "pw_chain 74058212732561358302231226437062788676166966415465897661863160754340908 1
    [(True, 9316655748340532839129173678780078817116369614430638599059307013953268, 27991669789329847409119017525371437913417746441263231818342528389315852),
     (False, 10579968766251134632235376680884874103471235872838135027142423675061509, 24986173978925398832557262649792579047937169125637163149541932638637241),
     (False, 8429975111060670478121680428046347418402436421027935337414329474581678, 20900041245058112250503790054780818558090897407947872730601493163990135),
     (True, 11796442499160559715649844764145086002498299358939713438718642506862857, 36116959692707414051940197944129288971907897422201316999787947480645151),
     (False, 17613641071183020145148214416641903888405823497618050899645221035535719, 69487203005999170773463835168583453754519556391435070454236221678455668),
     (False, 65198324445574882092627146192950561993540215547731090022695844683255303, 12507583686202808041695131112942876322562025814023259963167936463746403),
     (False, 2112387592073018181881607718924988042356042399183352913390511783172580, 31507824184723945878832113918198168431772766076685992097063750960708349),
     (True, 26809801323195946135663716941227000144640189606897270503593969956933306, 41203322383448585388700040599864801103667270417501808011465282690063060),
     (False, 22924044650728617757396971204009796881211081587141699424277701838768201, 41228301801423507583633737205527941910280079533870771191245734271465293),
     (False, 22951848373217863006414109126907227344045372337350067861248336289862118, 56125151366490582836076494185473101342318992994627436971405044306514823),
     (True, 85069096314459046486005483223257024896516859384976130028554281753173860, 28323761401501423319740767466650676138144076600591380874351201756351638),
     (True, 21664996502851358033563678221940433639881523412145393339269683323210525, 61713465242387963666511984434176895115856388939392619341212151030119913),
     (False, 51426461045945709931077878611194005762970409335505083633698147530735675, 25677987152966124656899148729216654306172613138876553253444975702370344),
     (False, 8903253263874559108534599510582667504951660227310517946829518866381336, 64143741142054044476126401709388927497443333794931240198945431324566584),
     (False, 55556559845115457975148521832572028259277813177472938110199794949008877, 62816709427018371758752275322786913405457365846212456517178180422197617),
     (True, 106563170717824735821877229609777454951650256165801511649834694519992754, 53605215187800231406943822520335594815195613158644993794267991915169500),
     (True, 77601632264802451058902456180736783509576878675289213540364937881739406, 35392279588354369277993449029050445321426086244161024528575505200818758),
     (True, 33827806754766731082942017440750152200563215011024825764426215474781908, 13579505235554460919771912888675496432924108849128554118413807021414572),
     (True, 4979946332444345007054088109777354203951990246960909455785306641231212, 12905168316996862587497280861171246250276409168631769110130187731097084),
     (True, 4497634040709035314329848686269391067208787621571238969033350444162374, 44367265816835265920392817004338982583288201075085204477264586408172894),
     (False, 26579824214367570016128428951672519200001873387857709159464209172852359, 68649737656217639088429373915437396526988251581046571986587271131185623),
     (True, 127272487584497797956099697869743553450906921082534703332005528865775889, 44052610961805763982480161818411383224039063983382025675465361996804935),
     (True, 52408300469259545963078364539176642844114745895432879313819418519703425, 67584883153018401499646129463741082013570789564504231118977617895201975),
     (False, 61677378676448281631155529256291444843811171236668202924396310444121372, 154897093454864164673284149172368787040389364342111296446117471336221)]
    (8419444012879621175469677204667139980775455844134955630336, 18573837424811328134602619977051715522890118259630663428463053606937342) (141254830803988186459028675912976815559705670195514483760572740086, 154897093454864164673284149172368787040389364342111296446117471336221)"
  by (simp only: pw_eval)

lemma q1_e9:
  "pw_chain 74058212732561358302231226437062788676166966415465897661863160754340908 1
    [(False, 323976351514297519352972091676551704304260822184369386738042145310, 5996887571432884123438277110117309742510610214550343191702649855364671),
     (True, 971199795876100115820377981384736540607655503349989044722150013749977, 68156330500015474086691528651616712821509879803100966198641816668467343),
     (False, 62724783867015135270872863355045327579570637439264391614276737304857226, 20335694180036956263044578371823592011105868227634549230537469291135667),
     (False, 5583991869711521878250766871642526098528744775747110816679283838593004, 60610485487539643929815319136520230057582842949063641416126294358320261),
     (False, 49604639586718777852514068025287067812506951152709812861161191980584447, 42732548644083999593479100713225724899157858561619164308371159303034692),
     (False, 24657234440875619818912855734834011426994283728303767461221500039340629, 68352252903802304832858361082475876366669527947750335776421694793724361),
     (False, 63085919908666488397705547098528211924262849603331453152749747736732847, 2786068502745900137331916046524629063614996769852269060408656222186092),
     (False, 104811842138609507853813718162029486478777092290370493566120674335887, 61352076294671624087145649929828696798128712623770133243418458856002955),
     (True, 101651852692152443482070296074344756479986351125776182099306781882292818, 56259280756580902628877884367340347832555477781774206380530866367758124),
     (False, 42738091488618708585196030333883241738832486794588896120352483917557647, 14089565386620262440165445902014486780087349267751962340098937105233547),
     (False, 2680537991116896444346222810526362411811769618968717346310989742934646, 69529853600877686293661527628521915365708567600651392372158799708837287),
     (False, 65278385251038212909243676963413868554031372916388830518355303177304370, 61931814477778937429008662884532670820208057811185456178089965160656779),
     (False, 51791010112017504347938927686146680973294750337136069882326296139115700, 10464509856658871519864692477362649148353176417673175016912935322714941),
     (True, 2957294336431208945892095356056039616653902407857070108411605172800352, 31114441842078133924436296787384452518187950854211847891728777031667698),
     (False, 13072263769584759036951504788660681830372047370536091154590209563847902, 28971653454968445710694108194287351302172831323253192144090114291892090),
     (True, 22667484751377021302471908717174759355659454968494349782144967342564599, 6403130495642331776968542037196945651880428015040772196646625093384907),
     (False, 553619627471757853402618358293982562180842736178066726090886863796111, 24459794481472842914152717352883748826152361873207615800257387020585972),
     (True, 16157061425081931724191962349576967558364483024451733902105846052138466, 74058212732561358302231226437062788676166966415465897661863160754340906),
     (False, 74058212732561358302231226437062788676166966415465897661863160754340905, 1)]
    (141254830803988186459028675912976815559705670195514483760572740086, 154897093454864164673284149172368787040389364342111296446117471336221) (74058212732561358302231226437062788676166966415465897661863160754340906, 1)"
  by (simp only: pw_eval)

lemma q1_pow_e: "2 ^ 74058212732561358302231226437062788676166966415465897661863160754340906 mod 74058212732561358302231226437062788676166966415465897661863160754340907 = 1 mod (74058212732561358302231226437062788676166966415465897661863160754340907 :: nat)"
proof -
  have M: "74058212732561358302231226437062788676166966415465897661863160754340908 = 74058212732561358302231226437062788676166966415465897661863160754340907 + (1 :: nat)" by simp
  have start: "2 ^ 1 mod 74058212732561358302231226437062788676166966415465897661863160754340907 = 2 mod (74058212732561358302231226437062788676166966415465897661863160754340907 :: nat)" by simp
  note s0 = pw_chain_sound [OF M q1_e0 start]
  note s1 = pw_chain_sound [OF M q1_e1 s0]
  note s2 = pw_chain_sound [OF M q1_e2 s1]
  note s3 = pw_chain_sound [OF M q1_e3 s2]
  note s4 = pw_chain_sound [OF M q1_e4 s3]
  note s5 = pw_chain_sound [OF M q1_e5 s4]
  note s6 = pw_chain_sound [OF M q1_e6 s5]
  note s7 = pw_chain_sound [OF M q1_e7 s6]
  note s8 = pw_chain_sound [OF M q1_e8 s7]
  note s9 = pw_chain_sound [OF M q1_e9 s8]
  show ?thesis by (rule s9)
qed

lemma prime_q1: "nprime 74058212732561358302231226437062788676166966415465897661863160754340907"
proof (rule pocklington_two [OF prime_q2 _ _ q1_pow_e q1_pow_m])
  show "70463328703800545008217672123162676565183935400628861884889913886334520 * 69490809710348678725736597923071784769591275419387514694139338586948360 = 74058212732561358302231226437062788676166966415465897661863160754340907 * 66117633491858138461393741777649859022484251587227054915412604379442197 + (70463328703800545008217672123162676565183935400628861884889913886334520 + (1 :: nat))"
    by (simp only: pw_eval)
qed simp_all

text \<open>The prime of the field.\<close>

lemma p25519_m0:
  "pw_chain 57896044618658097711785492504343953926634992332820282019728792003956564819968 19
    [(False, 0, 4),
     (True, 0, 32),
     (True, 0, 2048),
     (True, 0, 8388608),
     (True, 0, 140737488355328),
     (True, 0, 39614081257132168796771975168),
     (False, 0, 1569275433846670190958947355801916604025588861116008628224),
     (True, 85070591730234615865843651857942052864, 1616341242874457701451029385300899004416),
     (True, 90, 14474011154664524427946373126085988481658748083205070504932198000989141206702),
     (False, 3618502788666131106986593281521497120414687020801267626233049500247285302104, 10855508365998393320959779844564491361244061062403802878699148500741858844108),
     (True, 4070815637249397495359917441711684260466522898401426079512180687778198169178, 19449452489080454700052938888178047022228942736806813491002641081120681299406),
     (True, 13067600891100930501598068315494625343060070901292077814267399487995699632785, 5844730090286895362261548132457574450357316730865145506988119120372289477707),
     (True, 1180076119303530875144116285532815935167358627057121551494565672490314011965, 10011112483763715096745842972409582215110234036302095062009100585929643265913),
     (False, 1731074615247051634489172293683676124410868977223555680707173906843900652117, 50082932276091518066455387449031094497791709234718174193352973575247037041536),
     (False, 43324204993500061597826158612414131961250850909546105626879919447147686421064, 13343768986571359007854455104042816243275199009921288930213888121862028233560),
     (False, 3075446206036701470872393826992783401752763128678510908850634197157076446817, 29021988539057075980713355158958070277907045233294037432382353502841631121267),
     (True, 29096143762806239262705528706363760764796179979535943756800641576788782737836, 6814271218530413793737419123678870252773648441814096715214653977322709480214),
     (False, 802028749036987574340757424989663227075669220565584140869463940457761020232, 40021463743779041745397667549197261276748984932910244056888199122096431277628),
     (False, 27665405654990747157847101006816744579137975244959593346139654333549227807747, 427094198651976259540344842774561673889945192655078505504941250475370961481)]
    (1, 2) (781764, 427094198651976259540344842774561673889945192655078505504941250475370961481)"
  by (simp only: pw_eval)

lemma p25519_pow_m: "2 ^ 781764 mod 57896044618658097711785492504343953926634992332820282019728792003956564819949 = 427094198651976259540344842774561673889945192655078505504941250475370961481 mod (57896044618658097711785492504343953926634992332820282019728792003956564819949 :: nat)"
proof -
  have M: "57896044618658097711785492504343953926634992332820282019728792003956564819968 = 57896044618658097711785492504343953926634992332820282019728792003956564819949 + (19 :: nat)" by simp
  have start: "2 ^ 1 mod 57896044618658097711785492504343953926634992332820282019728792003956564819949 = 2 mod (57896044618658097711785492504343953926634992332820282019728792003956564819949 :: nat)" by simp
  note s0 = pw_chain_sound [OF M p25519_m0 start]
  show ?thesis by (rule s0)
qed

lemma p25519_e0:
  "pw_chain 57896044618658097711785492504343953926634992332820282019728792003956564819968 19
    [(True, 0, 8),
     (True, 0, 128),
     (True, 0, 32768),
     (True, 0, 2147483648),
     (True, 0, 9223372036854775808),
     (True, 0, 170141183460469231731687303715884105728),
     (True, 1, 19),
     (True, 0, 722),
     (True, 0, 1042568),
     (True, 0, 2173896069248),
     (True, 0, 9451648239783810422571008),
     (True, 0, 178667308897216803844041172019681532254433604272128),
     (True, 1102735341553402596310854, 5224276227137439182359211610032770964119227448329156370456386700117210870322),
     (True, 942829938632377296283697278013626408871977656445920132388689198435089693638, 14046422762284079012395795304813587913913707185210629010741763570782359982906),
     (True, 6815733051070227683007179917180087812609369800448030980539184427408636433503, 57667402193205334524132346572890988529514358996637946074273776214954518058325),
     (True, 114879325439831120582747090688887667074747292471742683459243989529882896618193, 6282583251470661375988401844536932193162997771953941038931304321688160879093),
     (True, 1363507734306928362696447675741476609570644136198115698492051297579001177689, 41773579711171363526115061832776734394027191205387144658354332233763888087437),
     (True, 60281560627484322310792839924240717015033807934019655554939244451219324850406, 12423445338605615203288152012494886359718374004368866621880955284358764908644),
     (True, 5331693904062729566037547984692072219510661479864448302962544173935049584407, 31860177317140150806945610515978157008538745288633840599826077183006098902229),
     (True, 35065293505473288976672381607127066069505943702778691011549454109933861234535, 29965682538202139238154452199528621436240239400679311591035909128474666598167),
     (True, 31019118348922017079496557108320858793725621413120280228424085478614676735374, 37220419053942053202281425929749818891562230118522756619478076890995066343852),
     (True, 47856795871840759911024015570744251322235577976228105126831564726359485557293, 41673073471405172056591865107464322704643582559670806345915694214728927557751),
     (True, 59991837576878843771554544271772015880025582439139954621350529534145438039506, 14357806875099573081046010407345500900557142388859621890028323395882441450808),
     (True, 7121267769516051285566233254304252315191214831187063451453953938710815970236, 55874371979775216649385573191891013441786433360772204296104158392582684667764)]
    (1, 2) (33554431, 55874371979775216649385573191891013441786433360772204296104158392582684667764)"
  by (simp only: pw_eval)

lemma p25519_e1:
  "pw_chain 57896044618658097711785492504343953926634992332820282019728792003956564819968 19
    [(True, 107846588301411657130737652676825599297713318326640615414520771407115973263167, 8456664400796649213982160158192303565222228470151974305050350702246773000909),
     (True, 2470468345765169256498627346708025649968788340042232423154962042227618355247, 24730223749460300751989297794801363965226145514383745241035203824332555230159),
     (True, 21126968888001574160911701676469058525009290688311535334857835858306499080215, 1444992902726793028090455788455824656657439623120520683073984908815343121527),
     (True, 72129434840800993737594766937562980241504242759286808727511959662022683254, 831549168060017679827524564160905062311858293960840749036373044768214189412),
     (True, 23886744714801014886696507769537827772679352855246385159771542539295817218, 31481322809643635092733215727019093627902277071797746415030516831487441729606),
     (True, 34236317605904163585681062992716918235371304725150807566214975380922891374656, 37822683121557414710095899167460663848543473551043355343191920648275892017928),
     (True, 49418068814073027786939222965101384818570426595103275001994154559470811450263, 26842178458649787340962453003574671094533543717061574803129506058013583129781),
     (True, 24889525671458636133049918620134199815995737275128861818537651559096112549957, 31330852820456173428782778976368283529963853047524718861656227614838005523729),
     (True, 33909823889445468395816053112666583997348647557673551830151649432773615972057, 1410276654374142921912072096561494027695175688319923564839723865256343965789),
     (True, 68705220018839470701708344091363781623830380996174727005071506490276201279, 31212145392841138827272572664870072556204669421137992332397064300137686270271),
     (True, 33653353227861115471807244732842623038077835185459716990702003422470968482121, 2312173971283518761497399288637533573442699377561835361619694099549526195053),
     (True, 184680957350171053601008169484232251864932553604089789576768160930510728638, 45194746422429305393991597713404774341842436791187289784139113732634335346156),
     (True, 70559746098075625025131452555425960169398508764954262929862801133083377400181, 4500455057296538258870812134262857057835079713243151331317076981750702941903),
     (True, 699671138370607142638158399561479379192385640216381956865657898524272280113, 1153787188972287606307593351232234866874600405081045113565790564094448148581),
     (True, 45986729705108761893603616490337953950205357797901125778761069926574284463, 40855687261085163679075598424383040827337295504513323885754385820034201474735),
     (True, 57661527400359551235189990161715595912155971929750886157147215303049275347867, 12725503070822417001986919429249837080124537636621394363448261139776490441667),
     (True, 5594110253028340288798724916772088337448547922689054508110472075031578891454, 37940261703003466530301850464572031464419938347212980071669803697540934661932),
     (True, 49725796211940085457352700556331510706638872021124800585935446561303865667288, 46131046929608509272025581854558611791457008173809605434919116803945800816936),
     (True, 73513605457459201063452174545633124813758896002802747858592922549656155836418, 38312950625439929102367916361458591974819898438434820790339388288940301753510),
     (True, 50707511896394559525332794583552196075700316238902702544794226182985420195280, 31618672342086410660348971369570541766697605926830740459969996597839974999480),
     (True, 34535707828096941879021334208018637816193227708579053180709331689349993804823, 46829877536710347127320434698448566838685447823836470715081022519073557726773),
     (True, 75757763576012600060890577488242269808913106080196825788218696325009937112779, 43507094491014531035987560149431406451208903237536722355187496825765599958787),
     (True, 65388483220840084844503722245902371806649787950636647710512328994131542996056, 57216950547371830068827719320242948460997140955201589226694955077452539901594),
     (True, 113091643876664973192676911548936802639023553217373243526750777290065189757887, 25208240221263666284244628749673508130280695788255750471349331134717349793909)]
    (33554431, 55874371979775216649385573191891013441786433360772204296104158392582684667764) (562949953421311, 25208240221263666284244628749673508130280695788255750471349331134717349793909)"
  by (simp only: pw_eval)

lemma p25519_e2:
  "pw_chain 57896044618658097711785492504343953926634992332820282019728792003956564819968 19
    [(True, 21951598912791625014794482044960899374008813768385607956460346571117008405495, 29425705163516375894843110016508176480686115837392058736552579167725289780807),
     (True, 29911270452874792860804306021600080138446300369475900803036699849147729663689, 45046667171868977845557852166343106279028118565024834275292957446337603010637),
     (True, 70098129730927745549334358220234237641903814119017147622221604529308147930369, 33554756388950575406643830339888255401410403513173150599997540331253196160357),
     (True, 38894597506198890090533248757559052673473776389786401076392118655196940720228, 44642026779291232422354173453679535107134480188421520711687674042532114506526),
     (True, 68844445871547581578443438305970153888435062845642087781737184812917979347250, 14064963947811269298278524791691281423084908609845960596586683121720194887102),
     (True, 6833738372153958390816763840328580942651894780661843387767566082887943899746, 42377152215527182989335328374971173558542091039079385017153574542379655083854),
     (True, 62036121525276786361129582727978514126980334016848541147639853690961492930535, 21847452534710602092746359412823104712261255210105361772448459469926903743917),
     (True, 16488559292791830443437233576266510341323679343687904878891414320641194052143, 51233491304434306593820827809579342932574496836920566022732946117164516405071),
     (True, 90675300826876570257964173589869632215551221053836429204874863958324782489758, 3544437534908314905125170100574045874120208348111117397610725049021502447740),
     (True, 433986035544067378768525724930806284753631410967524787277712256961097284482, 11031103431658649564284950039691621335441819141482003785330424283625700483782),
     (True, 4203577074097247009668451653940048620250453719405284675649793245333694165784, 22694371332599253447191450960592330978402329053668220499847134565853973622032),
     (True, 17791698675592190232474878770473095402612049298441782134410277495684257472537, 28310783642159936751895284043735237400895841602549197481456743190793174377435),
     (True, 27687572638594103054705923628922746716039573944299549405064096788681639080602, 40774605092474466487059636332982967235493057760401563919383642614545645829152),
     (True, 57432884453438137317648403559665629027897111204616886666763003208069461109571, 29681671761315073482538582626460610693621576637624872798416464178705770446329),
     (True, 30433914591206086655608294228763483276043747474712097525447955223123828159904, 18878952571897396674442432668174851814068411255301696874725003248685998027586),
     (True, 12312234887876602463302682203350084809372534625901331288256269873514451665759, 50961823044044079682291874088886034062798460829831489998068398232543870548501),
     (True, 89716229323738468356297928799983150520706210586994565637666193051278784164853, 46281085050630773963913766411004831667293261619053526625279778566314907641505),
     (True, 73992579201980196177133953064924036416258108289854623838354300765080031423563, 42518445290574344389416482979224524143612826477025266152184200731679946271763),
     (True, 62450490420720726365096473025375917461390301069702083230526517023196685986030, 10776410042155387628757347139278587990459279206029733971475795250528422943868),
     (True, 4011708024670205646904773237461208104412745582931813139880285262458445039294, 57140289167386179571914958435061541047398071664847524067297069223469617526842),
     (True, 112788798186061165568232112285415094613530685650188299178786624149805459222425, 32267931274891655478184199467643527553561737611723686052487006347161512829603),
     (True, 35968584576694150731802210657912269816102424359723198576522881775916193206618, 31270142707819730893125732811113788503899031967334786644522954160691301052736),
     (True, 33778536389074492167093623245750137635126640889871494829332431893709929059776, 34258166528311316488034424742641032338801523995662611775475450041611407899968),
     (True, 40542388745613475419412795521961885166191856346960060743357652930813232951229, 32701138785477294685022258595473138323480591694189213720300681212597505534727)]
    (562949953421311, 25208240221263666284244628749673508130280695788255750471349331134717349793909) (9444732965739290427391, 32701138785477294685022258595473138323480591694189213720300681212597505534727)"
  by (simp only: pw_eval)

lemma p25519_e3:
  "pw_chain 57896044618658097711785492504343953926634992332820282019728792003956564819968 19
    [(True, 36940847510761537049519302323760336569418914353754154818909612656321600318701, 6551952651523179037334401176720959874396649372538283057572150954033323362809),
     (True, 1482936661063965941508723763038234862371988036480666090347743413112811770965, 2265485014633511331062933614384272003015725064121437119583661948537437760177),
     (True, 177297858094954578974222487749192763172459566360835587831674896873228531320, 21840033593278604262908027835695239214198655467837862420243244211695626839978),
     (True, 16477362849130450598533503689684345657660639061566213704638782611607952819942, 544734975573418274629760138647082823830392536981593142938960017249991458010),
     (True, 10250655137755083936554601777335218503622461026677150232654266668018655170, 43584484221788900868419546690254479977558121850951190428318500286667018333870),
     (True, 65621314111920564825831336846232123239208664988423875896416652106963270576764, 49591944006784683262192128848541511732298204188838084179687636006996535288764),
     (True, 84957821439134776331261502280840113420261735806276486858221555402042411995466, 20756486169383920521134455532562552711687687217901827738778514137285634944158),
     (True, 14882941345564124828066017612008485121994852820235293373220361869233929282172, 43765620297419971205843694015456769443004566965438152645146172353629561008700),
     (True, 66167888761114278329360047299677447646835902200218611490803830916393541628264, 34446819942962459076117508892498008554615060722037806425794218891933501941464),
     (True, 40990137132804309067993861405480738383748193085991310918309078030973619724934, 17428871526260863785429713356690096210201905366964099854960834977827949018226),
     (True, 10493482402112578222049733773275244280863471691002947925447218845449690248560, 48984009914529255597717947851481220773766393842112514106411440539177103850712),
     (True, 82887639150859627985695389084459401301614568515524425440814149350044640278977, 34173355633475482035240025096660577257963197104544359244241478442929630901715),
     (True, 40341900485396506810626534887925053320998289030557401725810308111996057365195, 839549009537373727335591448127933459387573416171681425111262846257465607395),
     (True, 24348555900761357856719497658816941186952571108290407458726547343078040770, 30924531555065913850500907411981598969540926802104713979980629951941826051320),
     (True, 33035992638159361878070554388821304506817225796044458999502934228030073007292, 10206601475148846935039781527637194584781325524341657018546582116449603416692),
     (True, 3598681545818014046532595030349327627238966246022107880752365188520292762450, 10078996197941591827521117654050648724757670787365913398510810294488290330678),
     (True, 3509260953049044626037840471861058536515752603446055066082547407964220423174, 24829494668832271851873095263695645243787012425653556421762256145675278781242),
     (True, 21296923116951245854307701228943322563305897622673032852674013740373971891202, 7738230911551345549198896152119266338804972681543835554519681511733634936430),
     (True, 2068542610636003040148657141626538149954058585666694678296033673991557851997, 28386134145047664064908648067853568489164700854806897628919141988772787201647),
     (True, 27835152366901602869213775208870338142669300156406924730895913480295754491170, 46946574363901951083065463873840241654700729642342945764501467377662918674888),
     (True, 76135800261391303496220006170475584376563810867234292070259099341430269826758, 55660232023739941517405710433965571046517923154926197258950504889269991229746),
     (True, 107021522777331710532511463055934353685744418295791798033768540634561326231025, 19328068596642071616388258773760056600004400873025819700775715201434807731307),
     (True, 12905000268571371168102031251766382466034814903427797583691205750547279589538, 50474905824970365894909409390984680001117021966810417657380743844501021762936),
     (True, 88010023303684465038199101971432350675823760395079792878159552348849283571707, 31033228444585348421315759418180536040465828339768681257889441578444681097249)]
    (9444732965739290427391, 32701138785477294685022258595473138323480591694189213720300681212597505534727) (158456325028528675187087900671, 31033228444585348421315759418180536040465828339768681257889441578444681097249)"
  by (simp only: pw_eval)

lemma p25519_e4:
  "pw_chain 57896044618658097711785492504343953926634992332820282019728792003956564819968 19
    [(True, 33268637746747086649300906977479322187440244455853081277110274589156067877483, 34893493536391011707119872334858521129496918020628390137352446654800704427635),
     (True, 42060071605713142253378839584932387232486306678018152651713985412535598399254, 33959849040268441603383559630429610870692267676446120304775157931210777468404),
     (True, 39839382964208848360334067271390003525226080343821050650903459576745340575850, 54432116579986566612700064865178477388249008452809642039202947956959208982782),
     (True, 102350871631821708217226978349463918223567800242376397877045874881216697941533, 24977296195056901874042652720105099310444481248060662814903730573525270877231),
     (True, 21551224416963073931958173655969196502583458339059700066971628739627552918331, 44666734350811345786922297534185848357330186680870171487507256750286031869603),
     (True, 68920672239601872127110438747516143379289217536109008933192685770761686249272, 43913945491668488238467437891642359526858952048146193627709874418675378428090),
     (True, 66617145310951226535649859049230895090316809445487499335578021564514512252907, 57608036939302764840478145776034576230768319873591038614247645218099795254457),
     (True, 114642923946157193179762947389674802568062366165219526288805946914335514412463, 12388985866120953976310377947444982970384487555830578790313727805310640105311),
     (True, 5302157403045826681819926891373769556938583205314960449317747356958154950146, 56452777568112233575728564218974371806371177993011520015533434823606779550888),
     (True, 110090978274799507594614258164302118311941260200430991148351067799459978824447, 27121771317718166130446342152088812480578842322560199196561157068188728683885),
     (True, 25410733470850677615756904457297141522519319513288968301441171753949001603956, 8693388228197790815718534177035537785053224711574691503741616077445171268206),
     (True, 2610713715728084432186256106008826940331119867475596889210724823511239868971, 7165800087628305419906348963162552686507119412646729856902501367281806014393),
     (True, 1773823798640148924971310911663430344809015098267929626626178457686530130358, 49792237624548631371459520503827467480723489230450235332529824117671677405156),
     (True, 85645468321354912537564040079950959173999572124923354990543607696877755765852, 31811642783378886829211474911892627132032788008300638327977767020779768187124),
     (True, 34958540716999933903659224261659778987741104028921057937050563883786112750261, 21880558264494216808287980994218397563141933685170264459882187058272291026063),
     (True, 16538567811302158141411194913492995872801123104428166834159714586081056640480, 57587431105925644872911601351995929038311179672182140389836888104460665624418),
     (True, 114560925300620211026059563263751061831340433501817202116617979490432906880385, 1852334911467617730563258363249118600141597140885538955656229673690870877083),
     (True, 118527773247431684770500858927808657703675953607098613768931043887889997902, 2999873641857064848050458994987355362871396067847211588725782548222771430780),
     (True, 310875878529656691448703851227893817197627909111716434032923063868271649320, 56741858940553540454691345612168397481200062484931002208351244857929594532120),
     (True, 111221365025412675747956376611849817076852491744775589072119894329333407438431, 52983284024645604748356606426061694763976161113936548640232552828396605328781),
     (True, 96974790057819721861825314266735192123796800858614364812552591900009386467466, 23441663550800467214817254139361687330701016758839580700761892247398777612688),
     (True, 18982698857871083086182549736300479685966229295121067527056855531859555548581, 44219520063360469453149303383715684669581732282357224556220104279732889728319),
     (True, 67547479884447420660787454060870603558801664896804797072970719315679249953620, 55937530409946316548552502116686273223393472796871774714777090375113360366142),
     (True, 108090538100604096118304240725110680872291140372784317374303727527994397312650, 4043360565791032338078027380609862533945144841446388649871217817879889873478)]
    (158456325028528675187087900671, 31033228444585348421315759418180536040465828339768681257889441578444681097249) (2658455991569831745807614120560689151, 4043360565791032338078027380609862533945144841446388649871217817879889873478)"
  by (simp only: pw_eval)

lemma p25519_e5:
  "pw_chain 57896044618658097711785492504343953926634992332820282019728792003956564819968 19
    [(True, 564762749257840590673440239729974843475440910701497854226515968137418131555, 30004323796572083792199736105378546854862298935002078911621058436625125242273),
     (True, 31099169292798843622050696140956521451060393021839821803782179280418658226990, 21002727013096797169004675847215356244075625075770601455342047954896970189548),
     (True, 15238158146800529077116263893970360384118671085496816356940712432952763817373, 17683968136273031964748761461046074121640974398427507673212257537224433714631),
     (True, 10802904796157320391335265115260989674685824036037660820338680353868854321115, 33670049901019569500871006427074058907676259723424101617658397332857683009187),
     (True, 39162338906026079335215335328304674344687630835566103104216223267883526155280, 11338079573254137144714295952580911299677830590163390051859627963489637121218),
     (True, 4440788632666432019249815997819417179592159489060161313891228094890738425608, 50503907384779849179363696987365820920550266664725850379172394941928600753056),
     (True, 88111188870696254755449552974409393815014423354944383796027125958950030473209, 26963434268030124490232869225365333943046998147329985868172663616110233431931),
     (True, 25114903524586653826662315338969714662406522073540194989592059475750281158218, 4187519072817056328568485486024279769409738840626811667464950563644469086640),
     (True, 605751778060345461671016514523729909423593143178471046232124619385626244189, 7107064703472137553390016727696887278224065643217254122925776710931760452839),
     (True, 1744864231469849974112354672122145060993553896207903176120682340458473632686, 29496294275899497481912582965637454402090666302592967900353443089829135066828),
     (True, 30054950445788393613605989667092520738884439554979612480591510034787511326693, 50000476100785037372762746889064864080695006262063619269247590084856389364511),
     (True, 86363330233426273396377911430734596397474272800053473858361391588585251686947, 31135492015806444414737471008134301620896546760764129796378474588803284032539),
     (True, 33488258807715967697761766448059055738404468817230433671428649140773875457260, 46812062959751952380575244630234810940688005458028127061524926515372476693302),
     (True, 75700136442190403065218753352009466604487886460409827937139038491364131597516, 40106794658385117354770859867621150384110113681558623316461986703750067679724),
     (True, 55567007672627143614729654096522897032199591137465526892863225225929085584284, 33417327200782650993787628772606431437902672847704516142353609196254157350836),
     (True, 38576651120110702197779600441666693884358827431915363858168627966250487250875, 17648620390273356357020134462309692498714675943790013590705331000182812092417),
     (True, 10759761007217206031325290023206550541743494695725873171292104845553763856339, 13112761563863023931459458615335431701999506154879951249469996812584060497067),
     (True, 5939767283352931431985716365734046376026248774106787094486113023710149896781, 27824130243647834693943021692430694884199168506770451210322983763184031520809),
     (True, 26743872708913286202373842799721015217206051541719712602785366798746573947123, 20214254819784530476572656051887077550238535948296280650423414391220058472235),
     (True, 14115509983820132625438042482052551167784297491585821798176394036057575417378, 9071231205899977564151271366498780104845740454626553539977526889129436116728),
     (True, 2842585745982893617293124083823514537634167012734764358418444497757315728595, 31317987425793256789907905358765479205452620350800147189927333389226957110313),
     (True, 33881980811036541472033898503473800664499624824355458435912878190270506044514, 1359025561427706785952284000887504036478567612089220490382823253603912706152),
     (True, 63802302515798422379245586793185974195111664963371835224704263527059282209, 14398822984063074768968153532697637190471276264929534688614638524962533306867),
     (True, 7162012696790284798398180312341660849474109904106232763679276648418733861101, 57536954078394898341561058596771979671434564551776157719280604183017138807529)]
    (2658455991569831745807614120560689151, 4043360565791032338078027380609862533945144841446388649871217817879889873478) (44601490397061246283071436545296723011960831, 57536954078394898341561058596771979671434564551776157719280604183017138807529)"
  by (simp only: pw_eval)

lemma p25519_e6:
  "pw_chain 57896044618658097711785492504343953926634992332820282019728792003956564819968 19
    [(True, 114360181474381813137840557426815433171026860246966996689286650914105276457265, 40547459852214399804323473420694576591072346817955398647431362105468896192197),
     (True, 56794777995493576020240577562350491590808922494996314790896039574132059826598, 45971980921394367875587158654687982103435759201417385735055715081479896170116),
     (True, 73007510055564560104349826962464043465309804757690126818907219567773497171056, 27684301228299730442981507030630901095912202244823809002810756354766128710768),
     (True, 26475747680083983496230108936423991337635288002028276688922985176814745290899, 35757025066575975253653098954451781796433373486781824308350643199978034955497),
     (True, 44167605923106563104188016223590846343945229021755613036295058864461190317974, 38127182720244788537581039343329974557372141358442408506114334627016172570692),
     (True, 50216973258116365209524540063075467803417184657892748373851398968378418394460, 13901224617088797557110006582934073320367546309008609680113272247555915635188),
     (True, 6675552609080276611244349742173351464965958472069789748282620977888559021339, 5454410152077933777103100970173391160692099338506939472643174185754823698977),
     (True, 1027724443113446721845149397926748437689418674520782065013613455796394928743, 55362729019363284635602246820605937821515778654018841355971440409296941798951),
     (True, 105880523778775898649789442283871116994999172150061642298388401429050124189705, 21765073601240440394004195196733367356284140392914731226844435028259364975757),
     (True, 16364448797414004016935442433817151154903072771179003446381278293219766429705, 6868468521684803207615437430387374804254365021580786674773294649260505261053),
     (True, 1629674709010145781567724911074021394837156596698000293511699479921077136332, 21540161437867206792264745630437124108648831241490862309653559019023251050550),
     (True, 16027988019749990667968078807425288476783301496478787031260703591891746647388, 23310579803174567687392393518795196592504696180061856406369418281530699461788),
     (True, 18770993228959014375168938097518852292827013663389723557022526825773154578937, 9295663124364450797527547070745142724484968397426519232838479866529431499675),
     (True, 2984982946272706557730076495588203411743423818118343095025383949986404589165, 26389076693310116141985250835199949026874418449444379430995625568753508958665),
     (True, 24056336605108267934262722213082671422221194304435394145711208271514514723157, 41577931303125218655368411065379178664242088974509779353166293289040071305457),
     (True, 59718220228477775803430539865569976364492777564242064434753391855748161551541, 26581867791059424736998914131786935395247100185720215298147869473475247466289),
     (True, 24409118098325100620684301060475331658149855347303882843425660276191920168233, 55590360218998282887189888048440386046650429025517689767088323422846948382925),
     (True, 106752997363902227275846233111344972455748592338486832573991598035947091827971, 7138300081214773490902001799287249147252904381900996808424164052295966117771),
     (True, 1760235207261448101400917070109583781090077042682496295978264267509801174521, 21363423181746877609111268711041542253138779060801629243052671443405792697453),
     (True, 15766045955247093706865167660048932482760871291574595400024946796442405901939, 27935597705990857044596004281158840715176448634484849678803416174709500393307),
     (True, 26958581517310207078548026223582635705116482300748825839201561774177508778390, 35579438349793358381572025108442492934664453576748305360961308541578088690388),
     (True, 43729979884628844514961163959984934689027826546456740975827991814152907761552, 57866903068063127764661670395535172659072410669887183287178532001232342380240),
     (True, 115675552371309004746650172950541549573762991964391863556167314696094380637985, 43360846569293993820275693050384192156330769926392333168517301831384209752435),
     (True, 64949618841489442485459062567039650228872921051349390588448231638339439105859, 15684242169343610675938633510107053195079618631387286693842602453664090877259)]
    (44601490397061246283071436545296723011960831, 57536954078394898341561058596771979671434564551776157719280604183017138807529) (748288838313422294120286634350736906063837462003711, 15684242169343610675938633510107053195079618631387286693842602453664090877259)"
  by (simp only: pw_eval)

lemma p25519_e7:
  "pw_chain 57896044618658097711785492504343953926634992332820282019728792003956564819968 19
    [(True, 8497832763771902775038090377298488152418614983823215514164015516462540094787, 1536504363613701847894867300414741110172459555250118742995152291136358200299),
     (True, 81554644188702301886043824368740835519840372024765971879505442436884737630, 10174754984538454556267894105915698025200616652384454510632651876057352397932),
     (True, 3576259472552189766538554144532384344725373148939601174843544444239720922392, 53241440335614123920049335849618705599788617803539401677470731327189273355240),
     (True, 97922094252954841580436158849962182015990245232388346444910758876004225220097, 14027931116174711974312877722162477075845082495311616644575421411282769600147),
     (True, 6797799493774940782315341229939043353078157670583260907545545786492207907446, 6065461000593967686201644147469699507884414012396859043024075587031478402964),
     (True, 1270892248064565011731931979229484580348423213730173914072204635218210266200, 16440926874779247207396427489514528874519454921103911874653412964701567546792),
     (True, 9337566263196083440880237632939595892353753175270164222661303864127377219790, 6194970277937707253775099527297108592051974592490823042763801755464669391818),
     (True, 1325743649581327930090533642166358718458614003655066599811942150110280948209, 684614496836416649787906379392285011927598899598562528098251400672931668907),
     (True, 16190985493593925008338701609184484960630540785055286743058726999387120317, 54365033985168141306022265729958169761829617159194845758540630505539836345465),
     (True, 102098750948385263615548679805957788779318581884505064888051734666373773862407, 41386377741921754056700424941473791974722792115338212604641688420019397375207),
     (True, 59169232505567184305421169843227849156496285224945090245673964009779441861981, 53502266011507298565676768324199732940023720279442518681700110239273703126729),
     (True, 98883869777991591692200403316074888097861101298223795119979037365591047168210, 29769714498032076210166807474819013544447509023848694974789569031297101857592),
     (True, 30614730492615893651777564138148123007690506370754340805410261947675162337450, 6528249132286365709654196922569572509716464893905265972235628165028866286878),
     (True, 1472226194860407327939406112525751104797216619309044555009447628076961690518, 12854018797251641308374136387378939352483716320918111721110096356924659430186),
     (True, 5707671407550746083628861245160355009642684000121147243669686455470024521054, 24023237773304088355367946030695448843319069214091389862021789217161946282946),
     (True, 19936282587661189517389820021190447876345778058782210102910438172928597695032, 37008626383577036881806629661822850263240381849752111154573360970710289084464),
     (True, 47313713253488906042808340731428985355312158499563503835177313716807217353298, 40976972857154150938827157254409068204129712880595484192193128742204960992790),
     (True, 58004387539622085164282737983403807747971906696474994356321912320073377024490, 30460314274043604819673758530503676511725237214240063293831192481254650417190),
     (True, 32051610840941404713960218040075651889489654966559030743224553634388224793791, 48311673985348507728741468902012948953142664038330626952387585498656526855541),
     (True, 80627886020193451209957314133038230128900897545505519542167669177457174326302, 24233097835806840212876053465345452678284176986654458383856149761728159806764),
     (True, 20286119184402312896158504202260467186492442673769965307943695141234975076626, 44543206194479786795328863844863295531809228891211781783131460436919471891318),
     (True, 68539992020267633820485159182892409706122368845377809604639198334172019229466, 53821164031703208189080431028209409696023511366568294270491627813890002137014),
     (True, 100066169176399347822725591111289443593712392604818543848675560599062036023280, 32059910633176193622138024243719773757257401337919911903483392576788485259672),
     (True, 35506324363858311991321119460829789107798122759392181367135885037886599880587, 51112254427615305009901759741924517510279757244838123682606985713533983665105)]
    (748288838313422294120286634350736906063837462003711, 15684242169343610675938633510107053195079618631387286693842602453664090877259) (12554203470773361527671578846415332832204710888928069025791, 51112254427615305009901759741924517510279757244838123682606985713533983665105)"
  by (simp only: pw_eval)

lemma p25519_e8:
  "pw_chain 57896044618658097711785492504343953926634992332820282019728792003956564819968 19
    [(True, 90246667795034992004292730401003788333181651450349129958268996401971357097414, 48754557550952872105209550496347674417710959653730114307448477872931425810164),
     (True, 82112928357912042852474345081823957601113537828821950574218809391071779775414, 36227438829045814509927442875215714798190109276434149535428280465454964479906),
     (True, 45337374349380054044296182014974884345690896089732339320745467038170136790065, 38725988975554836836261693331247132583308376864819596228891641900046618530987),
     (True, 51806724691223113204700370986623414773557566701137437371103298936036983839482, 45479349884507628301698123796250445596652345077353159483318819597649710961920),
     (True, 71451211547909170306290127088657338243372272262820662278598676986816170828882, 43148221398861912654878150651583556894950920730774984615012326700886961205782),
     (True, 64314203920079705065838344435537391234321221815124083317341594043375963705872, 50200440481698919585213819744643434144352553022329073818314918686710226422520),
     (True, 87055488545220954442423999313867354390128224210491086455916563780750119739487, 32130093957348876535958107736349013334990574945634455035178054147542185674637),
     (True, 35661950466832917681117845387774122029854310315808135677675700499843949427455, 11056534755336441226498492808108261289195462485940569264063461083603937863743),
     (True, 4222981435127824194292833681671228515188221348082536523085798595517273828694, 5509472318170026184457828863391795017510754830936479629593488654910888123492),
     (True, 1048578894279059557835586831415461858190826159564810201554052990818311686293, 39182422482334497014118289882429877725228100176802129302739402859527968289071),
     (True, 53035133632924709134138584286381598742332730364314402303128189876192530140635, 31298399990674153193572642070113929186128749250418980644598906944843612558467),
     (True, 33839611960660277626943348216192562676643815907243995882872804003236853248769, 16016535929395975659978764171596312767014544623914800237889741581420795887397),
     (True, 8861725351612733179999554277473080924110981746402813108971046972581479777367, 6867356314802072500137672020365772398649811024958711628042637258408446576935),
     (True, 1629146967295707459833087767044304513434445771118578304807454679216681049649, 2623918248308615220828121720255052394918917448532756518915771777981733340549),
     (True, 237838250234737005399441533290637460414814956761644585837062302903020817331, 27289357948726713611986542207589493182563159105075691984536234051570781506683),
     (True, 25725731771794899367554746637524451810544976575527858686160411599106482776284, 24779736756518239262134786564833979098176951288651987557576585047857040035462),
     (True, 21211651254132705903606869028799928617524066286236292272655086648503571851196, 44073974636539183643196518952896103138684389691110778399627147914726074797884),
     (True, 67103556142979995951677411268714025613358797236225737859292948855529943662172, 57079518814717006129559040589390601886102144762720731787304697448910039485684),
     (True, 112549017452900656837600807460527727797542322127410421293783528396358024973824, 3071949427213583281562656910526188114764181754740924459574672836798483880736),
     (True, 325993713232584152403783305726775850020875897191370107993638466699407322542, 17144314256986813274476140473712444112177023766797766200554335356044944813034),
     (True, 10153630123726883954600382569867503067257969122756506876810668466206730065849, 3165891640717593200786762078156449118083566803391380297476050855428833748611),
     (True, 346236774784282048982287196507942687420048610765782093316028690887186637220, 54864376144835610778091815697625521774567190232236766343665203152016606956862),
     (True, 103982915917262684091713821539452261199422400941298162738031943512584732294036, 38167929923336629992940764174428308519642977592094795664038841569520591249924),
     (True, 50324366171407062071915938371308680622477068193435267725030145000815887663853, 40708934432730130651322167211264057559822842830536907232677053187710079408055)]
    (12554203470773361527671578846415332832204710888928069025791, 51112254427615305009901759741924517510279757244838123682606985713533983665105) (210624583337114373395836055367340864637790190801098222508621955071, 40708934432730130651322167211264057559822842830536907232677053187710079408055)"
  by (simp only: pw_eval)

lemma p25519_e9:
  "pw_chain 57896044618658097711785492504343953926634992332820282019728792003956564819968 19
    [(True, 57248033214146416679004895045047970885313643423296373108434881316451182644036, 11547632910069633913615370700207887367810604134713919823128354979068299091886),
     (True, 4606457201145289209030883952814959167680934483499460463844363761512686800012, 9142642502628947595601055162406050501866612098636667730066404712196791034604),
     (True, 2887517186413785412147386624891128719852770957645866966101228741041567248543, 4882997256204588887345417740635705617157621401990104841753515336715323289325),
     (True, 823671543061422590538933473883423503098856488889328699614575005671998107518, 23831477938961091992659029161882590259549528906548330511742067278450904634668),
     (True, 19619279503324135551736184995424164311143606891945765330952709817161126290394, 56713486864942564343515026382452337645161272677378998056718354471378196670542),
     (True, 111110166974807829943924490733480896646621990295083136777488477894090277179203, 21316658154331738910193541779585055043469702896516072202627221661286878826881),
     (True, 15697097024904490023314644856311081511390184007456081443080285325696271689298, 24605409678848788938025967347965514085894017404791575956843964561310096170520),
     (True, 20914250341339401260809467524537702095655217325448129132055419330101915082559, 52690110670145470389354969733677398040905379530483294791374464377200528971309),
     (True, 95904574508272335054729634748457204111150957928688871484759248037084303558943, 12329658577085121505735788901738140674414910983404876297849933017120786593055),
     (True, 5251497978101848495924295816387004670950041672497871491771754700927306395447, 168274596723269311747058085710366988357898918760177840875994024352600093847),
     (True, 978178737041163663962443647466362324135524544872190231728991176354193162, 47786050790763851049981906562182647077748863621709482674342791699566717530080),
     (True, 78882993310446606079518835831723378978727237688761759971463048956226180081609, 19503180772758402817567362257769427592749798537153604074569836368588198394859),
     (True, 13139897993387627732373127986684184230359577417313662381823690285498056949606, 16826699064328860228531004055853964690023742207467919279868379270196598769668),
     (True, 9780903108888347696821915469366969466452103835306477429771145416059591070340, 32688828802654143177559518765903582606604909550033534751544165635592339447788),
     (True, 36913040796740976079687075135687449967910678913365092604224181346215831692497, 37708960546153945843958973812618546261670618580507553614517327413904816963235),
     (True, 49121342048058996202818384028079788763593058647873047451064990681005274235703, 2057919991675863527054010271309791625846740817386352880445591432005900891303),
     (True, 146297893751946087527890098974944408979994736920338507732265225322737550232, 20249007912788656877858290429492512521631358125394076339539349770885218897450),
     (True, 14164087517648491448500441193429708359853486060666517814462096397014080965130, 42571996530428911894693132740212666761429091441709467178347503787900635626630),
     (True, 62607900091426251028123606207181133541054944544110251303837911916825046308784, 5435299199213152975492301500219858938085329969184343786141514702871513181784),
     (True, 1020535256926567958458839914698197869451370729839077744084739366158170552195, 33882242112267496923536051823032213047892495906645674409515910817898777107257),
     (True, 39657504691930067112915947409546498072870526491711844916946027419326767452697, 51123978885619834460123720657013633389779939782597154962641759658222584675645),
     (True, 90288075267062399135209955216705382931132191343215404981108169191282315586235, 43219276769744686065183324647184717045656222363829659343670365424300554530035),
     (True, 64526200254371939979393726796435021455763766592346840061891252458320216944910, 54540094052611622470445204756022498502301992064615059872118586784666432192860),
     (True, 102757343057217881138175483961920935187940444696857123649281189953567037407512, 37551472053155023094598280749600284614585691400890565658685849766312449902312)]
    (210624583337114373395836055367340864637790190801098222508621955071, 40708934432730130651322167211264057559822842830536907232677053187710079408055) (3533694129556768659166595001485837031654967793751237916243212402585239551, 37551472053155023094598280749600284614585691400890565658685849766312449902312)"
  by (simp only: pw_eval)

lemma p25519_e10:
  "pw_chain 57896044618658097711785492504343953926634992332820282019728792003956564819968 19
    [(True, 48711896042184790895959322374384436421661016505908593212167207426933367124203, 3803914040724051894386236598260692734658987734458578662976073884998070765041),
     (True, 499853215345713923513103460321439700651913380186534994724074057614202994348, 3829772649397305401114698789991079656979851534689771153023122197422770815110),
     (True, 506672213712675151645405134118650569071260076722547223063257836022000498282, 17987939655220351027887281615378337919756346108173807249081199009637994796582),
     (True, 11177481127461117559186485083179962760857158521012151917702231051862375128175, 30348741544180654946814210571832604891148323009090688159164939748200445802373),
     (True, 31817237926428301716481629198920036835377433245612531690899656520295840587170, 15513182470649566372280220337745372463859220538938362347543710404034055407928),
     (True, 8313480893308283612982297008344614904647976932613507160336014299061426140185, 32785846204757843728184147904964674237443212419005095899022797234058411955803),
     (True, 37132474884670226093998080357299778750522178901260223182847880066502652096073, 25685400396258068827309542784701451615252568774064705527532856139406555789341),
     (True, 22790496237232776564747423127153361809538546195459431229453633992955460259161, 25910928650365661088611546722392363794011740157349981708915610625600295625773),
     (True, 23192472920955859091132356263708257444097148224505203993727824985973104756014, 57692109581687170544952182944730090749826224675958039702824471609347838771772),
     (False, 57488892892568471791421702514207109143894690784151447750986744052104094219481, 22961221025933304929473883566500786080839636259902234537901881337279050793515),
     (True, 18212562687982170203641850479078031168141106034460617211550174573135082294351, 38788602997682801834296285904666247971040529424372086091236406538540197302351),
     (True, 51974387280576871821953725479083298163253499104296142594374103994723114637850, 19681161376707505956807079304988542015446066515923890162744021073123829784752),
     (False, 6690407189080634018507799843845558368979872843924222843531373839242004886244, 57896044618658097711785492504343953926634992332820282019728792003956564819948),
     (False, 57896044618658097711785492504343953926634992332820282019728792003956564819947, 1)]
    (3533694129556768659166595001485837031654967793751237916243212402585239551, 37551472053155023094598280749600284614585691400890565658685849766312449902312) (57896044618658097711785492504343953926634992332820282019728792003956564819948, 1)"
  by (simp only: pw_eval)

lemma p25519_pow_e: "2 ^ 57896044618658097711785492504343953926634992332820282019728792003956564819948 mod 57896044618658097711785492504343953926634992332820282019728792003956564819949 = 1 mod (57896044618658097711785492504343953926634992332820282019728792003956564819949 :: nat)"
proof -
  have M: "57896044618658097711785492504343953926634992332820282019728792003956564819968 = 57896044618658097711785492504343953926634992332820282019728792003956564819949 + (19 :: nat)" by simp
  have start: "2 ^ 1 mod 57896044618658097711785492504343953926634992332820282019728792003956564819949 = 2 mod (57896044618658097711785492504343953926634992332820282019728792003956564819949 :: nat)" by simp
  note s0 = pw_chain_sound [OF M p25519_e0 start]
  note s1 = pw_chain_sound [OF M p25519_e1 s0]
  note s2 = pw_chain_sound [OF M p25519_e2 s1]
  note s3 = pw_chain_sound [OF M p25519_e3 s2]
  note s4 = pw_chain_sound [OF M p25519_e4 s3]
  note s5 = pw_chain_sound [OF M p25519_e5 s4]
  note s6 = pw_chain_sound [OF M p25519_e6 s5]
  note s7 = pw_chain_sound [OF M p25519_e7 s6]
  note s8 = pw_chain_sound [OF M p25519_e8 s7]
  note s9 = pw_chain_sound [OF M p25519_e9 s8]
  note s10 = pw_chain_sound [OF M p25519_e10 s9]
  show ?thesis by (rule s10)
qed

lemma prime_p25519: "nprime 57896044618658097711785492504343953926634992332820282019728792003956564819949"
proof (rule pocklington_two [OF prime_q1 _ _ p25519_pow_e p25519_pow_m])
  show "55540832096118778044507775605005710249233119951144946814680141076505643269084 * 427094198651976259540344842774561673889945192655078505504941250475370961481 = 57896044618658097711785492504343953926634992332820282019728792003956564819949 * 409719996120619553712206717513598108624848060785013849502386565616653579131 + (55540832096118778044507775605005710249233119951144946814680141076505643269084 + (1 :: nat))"
    by (simp only: pw_eval)
qed simp_all

end
