(* ===== verification/Field25519_Correct.thy ===== *)
theory Field25519_Correct
  imports Field25519 Bits_Correct Prime25519
begin

text \<open>
  Arithmetic modulo \<open>2 ^ 255 - 19\<close> is exact.  \<open>fe_val\<close> is the integer modulo the prime that an
  element stands for, and \<open>fe_ok\<close> the bound on the limbs that every operation needs and keeps: at
  most the least limb of twice the prime, so that \<open>Subtract\<close> does not go below zero.  No carry or
  sum of products overflows its word within that bound.  The encodings are canonical and keep the
  value.  The prime is one (\<open>Prime25519\<close>), so \<open>Invert\<close> gives inverses, and \<open>SqrtRatio\<close> tells the
  squares from the other elements and gives the documented root in both cases.
\<close>

section \<open>Wide products\<close>

definition val128 :: "uint128 \<Rightarrow> nat" where
  "val128 v = unat (hi128 v) * 2 ^ 64 + unat (lo128 v)"

lemma mul19_eq: "mul19 v = 19 * v"
  by (simp add: mul19_def push_bit_eq_mult algebra_simps)

lemma addMul_mul19:
  "addMul19 v a b = addMul v (mul19 a) b" "addMul38 v a b = addMul v (mul19 a) (b * 2)"
  by (simp_all add: addMul19_def addMul38_def addMul_def)

lemma fe_mul_val: "val128 (fe_mul a b) = unat a * unat b"
  using Mul64_exact [of a b] by (cases "Mul64 a b") (simp add: fe_mul_def val128_def)

lemma addMul_val:
  assumes "val128 v + unat a * unat b < 2 ^ 128"
  shows "val128 (addMul v a b) = val128 v + unat a * unat b"
proof -
  obtain hi lo where m: "Mul64 a b = (hi, lo)" by fastforce
  obtain lo' c where s: "Add64 lo (lo128 v) 0 = (lo', c)" by fastforce
  obtain hi' c' where t: "Add64 hi (hi128 v) c = (hi', c')" by fastforce
  have 1: "unat hi * 2 ^ 64 + unat lo = unat a * unat b" by (rule Mul64_exact [OF m])
  have 2: "unat c * 2 ^ 64 + unat lo' = unat lo + unat (lo128 v)" "unat c \<le> 1" using Add64_exact [OF _ s] by simp_all
  have 3: "unat c' * 2 ^ 64 + unat hi' = unat hi + unat (hi128 v) + unat c" "unat c' \<le> 1" using Add64_exact [OF 2(2) t] by simp_all
  have "val128 v + unat a * unat b = unat c' * 2 ^ 128 + unat hi' * 2 ^ 64 + unat lo'"
    using 1 2(1) 3(1) unfolding val128_def by simp
  moreover from this have "unat c' = 0" using assms by (cases "unat c'") simp_all
  ultimately show ?thesis by (simp add: addMul_def m s t val128_def)
qed

text \<open>A column: its value, and a bound in units of the product of two limbs.\<close>

definition col :: "uint128 \<Rightarrow> nat \<Rightarrow> nat \<Rightarrow> bool" where
  "col v n k \<longleftrightarrow> val128 v = n \<and> n \<le> k * 2 ^ 104"

lemma limb_prod: "a < 2 ^ 52 \<Longrightarrow> b < 2 ^ 52 \<Longrightarrow> a * b \<le> (2 ^ 104 :: nat)"
  using mult_le_mono [of a "2 ^ 52" b "2 ^ 52"] by simp

lemma unat_times:
  "unat a < 2 ^ 52 \<Longrightarrow> unat (mul19 a) = 19 * unat a" "unat a < 2 ^ 52 \<Longrightarrow> unat (a * 2 :: uint64) = 2 * unat a"
  by (simp_all add: mul19_eq unat_mult_lt)

lemma col_mul:
  assumes "unat a < 2 ^ 52" "unat b < 2 ^ 52"
  shows "col (fe_mul a b) (unat a * unat b) 1" "col (fe_mul (a * 2) b) (2 * (unat a * unat b)) 2"
  using limb_prod [OF assms] using unat_times(2) [OF assms(1)] by (simp_all add: col_def fe_mul_val)

lemma col_add:
  assumes "col v n k" "unat a < 2 ^ 52" "unat b < 2 ^ 52" "k \<le> 100"
  shows "col (addMul v a b) (n + unat a * unat b) (k + 1)"
    "col (addMul v (a * 2) b) (n + 2 * (unat a * unat b)) (k + 2)"
    "col (addMul19 v a b) (n + 19 * (unat a * unat b)) (k + 19)"
    "col (addMul38 v a b) (n + 38 * (unat a * unat b)) (k + 38)"
proof -
  note p = limb_prod [OF assms(2,3)]
  have k: "k * 2 ^ 104 \<le> 100 * 2 ^ 104" using assms(4) by (intro mult_le_mono1) simp
  have v: "val128 v = n" "n \<le> k * 2 ^ 104" using assms(1) by (simp_all add: col_def)
  show "col (addMul v a b) (n + unat a * unat b) (k + 1)"
    using addMul_val [of v a b] v k p by (simp add: col_def)
  show "col (addMul v (a * 2) b) (n + 2 * (unat a * unat b)) (k + 2)"
    using addMul_val [of v "a * 2" b] v k p unat_times(2) [OF assms(2)] by (simp add: col_def)
  show "col (addMul19 v a b) (n + 19 * (unat a * unat b)) (k + 19)"
    using addMul_val [of v "mul19 a" b] v k p unat_times(1) [OF assms(2)] by (simp add: col_def addMul_mul19)
  show "col (addMul38 v a b) (n + 38 * (unat a * unat b)) (k + 38)"
    using addMul_val [of v "mul19 a" "b * 2"] v k p unat_times(1) [OF assms(2)] unat_times(2) [OF assms(3)]
    by (simp add: col_def addMul_mul19)
qed

lemma unat_mask51: "unat (w AND maskLow51Bits) = unat w mod 2 ^ 51"
  using unat_and_mask [of w 51] by (simp add: maskLow51Bits_def mask_eq_exp_minus_1 push_bit_of_1)

lemma unat_shift51: "unat (drop_bit 51 w) = unat w div 2 ^ 51"
  by (rule unat_drop_bit)

lemma col_low: "col v n k \<Longrightarrow> unat (lo128 v AND maskLow51Bits) = n mod 2 ^ 51"
proof -
  have "(unat (hi128 v) * 2 ^ 64 + unat (lo128 v)) mod 2 ^ 51 = (unat (lo128 v) + 2 ^ 51 * (2 ^ 13 * unat (hi128 v))) mod 2 ^ 51"
    by (simp add: algebra_simps)
  then show "col v n k \<Longrightarrow> unat (lo128 v AND maskLow51Bits) = n mod 2 ^ 51"
    unfolding col_def val128_def unat_mask51 by (metis mod_mult_self2)
qed

lemma unat64_less: "unat (w :: uint64) < 18446744073709551616"
  using unsigned_less [of w] by simp

lemma col_high:
  assumes "col v n k" "k \<le> 100"
  shows "unat (shiftRightBy51 v) = n div 2 ^ 51"
proof -
  have "k * 2 ^ 104 \<le> 100 * 2 ^ 104" using assms(2) by (intro mult_le_mono1) simp
  then have n: "unat (hi128 v) * 2 ^ 64 + unat (lo128 v) = n" "n \<le> 100 * 2 ^ 104" using assms(1) by (simp_all add: col_def val128_def)
  then have hi: "unat (hi128 v) * 2 ^ 13 < 2 ^ 64" by simp
  have "unat (shiftRightBy51 v) = unat (push_bit 13 (hi128 v)) + unat (drop_bit 51 (lo128 v))"
    unfolding shiftRightBy51_def using unat64_less [of "lo128 v"]
    by (simp, intro unat_or_disjoint [where k = 13]) (simp_all add: unat_push_bit_gen unat_drop_bit dvd_mod_iff less_mult_imp_div_less)
  also have "\<dots> = unat (hi128 v) * 2 ^ 13 + unat (lo128 v) div 2 ^ 51"
    using hi by (simp add: unat_push_bit_gen unat_drop_bit)
  also have "\<dots> = n div 2 ^ 51" using n(1) by simp
  finally show ?thesis .
qed


section \<open>Elements as integers\<close>

definition fe_nat :: "fe \<Rightarrow> nat" where
  "fe_nat v = unat (l0 v) + unat (l1 v) * 2 ^ 51 + unat (l2 v) * 2 ^ 102 + unat (l3 v) * 2 ^ 153 + unat (l4 v) * 2 ^ 204"

definition p25519 :: nat where
  "p25519 = 2 ^ 255 - 19"

text \<open>Every limb is at most the least limb of twice the prime, which \<open>Subtract\<close> adds.\<close>

definition fe_ok :: "fe \<Rightarrow> bool" where
  "fe_ok v \<longleftrightarrow> unat (l0 v) \<le> 2 ^ 52 - 38 \<and> unat (l1 v) \<le> 2 ^ 52 - 38 \<and> unat (l2 v) \<le> 2 ^ 52 - 38 \<and>
     unat (l3 v) \<le> 2 ^ 52 - 38 \<and> unat (l4 v) \<le> 2 ^ 52 - 38"

lemma fe_okD:
  assumes "fe_ok v"
  shows "unat (l0 v) < 2 ^ 52" "unat (l1 v) < 2 ^ 52" "unat (l2 v) < 2 ^ 52" "unat (l3 v) < 2 ^ 52" "unat (l4 v) < 2 ^ 52"
  using assms by (simp_all add: fe_ok_def)

text \<open>One round of carries from limbs \<open>n\<close>, the top carry multiplied by 19.\<close>

lemma carry_round:
  fixes n0 n1 n2 n3 n4 M :: nat
  assumes "M = 2 ^ 51"
  shows "(n0 mod M + 19 * (n4 div M)) + (n1 mod M + n0 div M) * 2 ^ 51 + (n2 mod M + n1 div M) * 2 ^ 102 +
      (n3 mod M + n2 div M) * 2 ^ 153 + (n4 mod M + n3 div M) * 2 ^ 204 + p25519 * (n4 div M) =
    n0 + n1 * 2 ^ 51 + n2 * 2 ^ 102 + n3 * 2 ^ 153 + n4 * 2 ^ 204"
proof -
  have split: "n = n div M * 2251799813685248 + n mod M" for n by (simp add: assms)
  show ?thesis
    using split [of n0] split [of n1] split [of n2] split [of n3] split [of n4] by (simp add: p25519_def)
qed

lemma unat_low_add: "unat w < 2 ^ 63 \<Longrightarrow> unat ((v AND maskLow51Bits) + w) = unat v mod 2 ^ 51 + unat w"
proof -
  assume w: "unat w < 2 ^ 63"
  have "unat v mod 2 ^ 51 < 2 ^ 51" by simp
  then have "unat (v AND maskLow51Bits) + unat w < 2 ^ 64" using w unfolding unat_mask51 by simp
  then show ?thesis by (subst unat_add_lt) (simp_all add: unat_mask51)
qed

lemma unat_top_shift: "unat (drop_bit 51 (w :: uint64)) < 2 ^ 13"
  using unat64_less [of w] unfolding unat_shift51 by (simp add: less_mult_imp_div_less)

lemma unat_shift_add: "unat ((v AND maskLow51Bits) + drop_bit 51 w) = unat v mod 2 ^ 51 + unat w div 2 ^ 51"
  using unat_low_add [of "drop_bit 51 w" v] unat_top_shift [of w] by (simp add: unat_shift51)

lemma unat_fold_add: "unat ((v AND maskLow51Bits) + mul19 (drop_bit 51 w)) = unat v mod 2 ^ 51 + 19 * (unat w div 2 ^ 51)"
proof -
  have "unat (drop_bit 51 w) < 2 ^ 52" using unat_top_shift [of w] by simp
  then have "unat (mul19 (drop_bit 51 w)) = 19 * unat (drop_bit 51 w)" by (rule unat_times(1))
  then show ?thesis using unat_low_add [of "mul19 (drop_bit 51 w)" v] unat_top_shift [of w] by (simp add: unat_shift51)
qed

lemmas unat_carries = unat_shift_add unat_fold_add

lemma carryPropagate_eq:
  "carryPropagate v =
     \<lparr>l0 = (l0 v AND maskLow51Bits) + mul19 (drop_bit 51 (l4 v)), l1 = (l1 v AND maskLow51Bits) + drop_bit 51 (l0 v),
      l2 = (l2 v AND maskLow51Bits) + drop_bit 51 (l1 v), l3 = (l3 v AND maskLow51Bits) + drop_bit 51 (l2 v),
      l4 = (l4 v AND maskLow51Bits) + drop_bit 51 (l3 v)\<rparr>"
  by (simp add: carryPropagate_def Let_def)

lemma carryPropagate_limbs:
  "unat (l0 (carryPropagate v)) = unat (l0 v) mod 2 ^ 51 + 19 * (unat (l4 v) div 2 ^ 51)"
  "unat (l1 (carryPropagate v)) = unat (l1 v) mod 2 ^ 51 + unat (l0 v) div 2 ^ 51"
  "unat (l2 (carryPropagate v)) = unat (l2 v) mod 2 ^ 51 + unat (l1 v) div 2 ^ 51"
  "unat (l3 (carryPropagate v)) = unat (l3 v) mod 2 ^ 51 + unat (l2 v) div 2 ^ 51"
  "unat (l4 (carryPropagate v)) = unat (l4 v) mod 2 ^ 51 + unat (l3 v) div 2 ^ 51"
  by (simp_all only: carryPropagate_eq fe.simps unat_carries)

lemma div51_less: "unat (w :: uint64) div 2 ^ 51 < 2 ^ 13"
  using unat_top_shift [of w] by (simp only: unat_shift51)

lemma limb_bounds:
  "n mod 2 ^ 51 + 19 * (unat (w :: uint64) div 2 ^ 51) \<le> 2 ^ 52 - 38"
  "n mod 2 ^ 51 + unat (w :: uint64) div 2 ^ 51 \<le> 2 ^ 52 - 38"
proof -
  have "n mod 2251799813685248 < 2251799813685248" by simp
  then have n: "n mod 2251799813685248 \<le> 2251799813685247" by linarith
  have w: "unat w div 2 ^ 51 \<le> 8191" using div51_less [of w] by simp
  show "n mod 2 ^ 51 + 19 * (unat w div 2 ^ 51) \<le> 2 ^ 52 - 38" "n mod 2 ^ 51 + unat w div 2 ^ 51 \<le> 2 ^ 52 - 38"
    using add_le_mono [OF n mult_le_mono2 [OF w, of 19]] add_le_mono [OF n w] by simp_all
qed

lemma carryPropagate_ok: "fe_ok (carryPropagate v)"
  unfolding fe_ok_def carryPropagate_limbs by (intro conjI limb_bounds)

lemma carryPropagate_val: "fe_nat (carryPropagate v) + p25519 * (unat (l4 v) div 2 ^ 51) = fe_nat v"
  unfolding fe_nat_def carryPropagate_limbs by (rule carry_round) simp

lemma fe_columns_val:
  assumes c: "col r0 n0 k0" "col r1 n1 k1" "col r2 n2 k2" "col r3 n3 k3" "col r4 n4 k4"
    and k: "k0 \<le> 77" "k1 \<le> 77" "k2 \<le> 77" "k3 \<le> 77" "k4 \<le> 5"
  shows "fe_ok (fe_columns r0 r1 r2 r3 r4)"
    "\<exists>q. fe_nat (fe_columns r0 r1 r2 r3 r4) + p25519 * q = n0 + n1 * 2 ^ 51 + n2 * 2 ^ 102 + n3 * 2 ^ 153 + n4 * 2 ^ 204"
proof -
  define M :: nat where "M = 2 ^ 51"
  have bound: "n div M \<le> k * 2 ^ 53" if "col r n k" for r n k
    using that div_le_mono [of n "k * 2 ^ 104" M] by (simp add: col_def M_def)
  have c: "unat (shiftRightBy51 r0) = n0 div M" "unat (shiftRightBy51 r1) = n1 div M" "unat (shiftRightBy51 r2) = n2 div M"
    "unat (shiftRightBy51 r3) = n3 div M" "unat (shiftRightBy51 r4) = n4 div M"
    using col_high [OF assms(1)] col_high [OF assms(2)] col_high [OF assms(3)] col_high [OF assms(4)] col_high [OF assms(5)] k
    unfolding M_def by simp_all
  have b: "n0 div M \<le> 77 * 2 ^ 53" "n1 div M \<le> 77 * 2 ^ 53" "n2 div M \<le> 77 * 2 ^ 53" "n3 div M \<le> 77 * 2 ^ 53" "n4 div M \<le> 5 * 2 ^ 53"
    using bound [OF assms(1)] bound [OF assms(2)] bound [OF assms(3)] bound [OF assms(4)] bound [OF assms(5)] k by simp_all
  define rr0 rr1 rr2 rr3 rr4 where
    "rr0 = (lo128 r0 AND maskLow51Bits) + mul19 (shiftRightBy51 r4)" and
    "rr1 = (lo128 r1 AND maskLow51Bits) + shiftRightBy51 r0" and
    "rr2 = (lo128 r2 AND maskLow51Bits) + shiftRightBy51 r1" and
    "rr3 = (lo128 r3 AND maskLow51Bits) + shiftRightBy51 r2" and
    "rr4 = (lo128 r4 AND maskLow51Bits) + shiftRightBy51 r3"
  have low: "unat (lo128 r0) mod 2 ^ 51 = n0 mod M" "unat (lo128 r1) mod 2 ^ 51 = n1 mod M" "unat (lo128 r2) mod 2 ^ 51 = n2 mod M"
    "unat (lo128 r3) mod 2 ^ 51 = n3 mod M" "unat (lo128 r4) mod 2 ^ 51 = n4 mod M"
    unfolding M_def unat_mask51 [symmetric]
    by (rule col_low [OF assms(1)] col_low [OF assms(2)] col_low [OF assms(3)] col_low [OF assms(4)] col_low [OF assms(5)])+
  have m19: "unat (mul19 (shiftRightBy51 r4)) = 19 * (n4 div M)"
    using b(5) c(5) by (simp add: mul19_eq unat_mult_lt)
  have rr: "unat rr0 = n0 mod M + 19 * (n4 div M)" "unat rr1 = n1 mod M + n0 div M" "unat rr2 = n2 mod M + n1 div M"
    "unat rr3 = n3 mod M + n2 div M" "unat rr4 = n4 mod M + n3 div M"
    unfolding rr0_def rr1_def rr2_def rr3_def rr4_def
    using unat_low_add [of "mul19 (shiftRightBy51 r4)" "lo128 r0"] unat_low_add [of "shiftRightBy51 r0" "lo128 r1"]
      unat_low_add [of "shiftRightBy51 r1" "lo128 r2"] unat_low_add [of "shiftRightBy51 r2" "lo128 r3"]
      unat_low_add [of "shiftRightBy51 r3" "lo128 r4"] b unfolding c m19 low by simp_all
  define v where "v = \<lparr>l0 = rr0, l1 = rr1, l2 = rr2, l3 = rr3, l4 = rr4\<rparr>"
  have v: "fe_columns r0 r1 r2 r3 r4 = carryPropagate v"
    by (simp add: fe_columns_def carryPropagate_def Let_def v_def rr0_def rr1_def rr2_def rr3_def rr4_def)
  show "fe_ok (fe_columns r0 r1 r2 r3 r4)" unfolding v by (rule carryPropagate_ok)
  have "fe_nat v + p25519 * (n4 div M) = n0 + n1 * 2 ^ 51 + n2 * 2 ^ 102 + n3 * 2 ^ 153 + n4 * 2 ^ 204"
    using carry_round [OF M_def] by (simp only: fe_nat_def v_def fe.simps rr)
  then have "fe_nat (carryPropagate v) + p25519 * (unat rr4 div 2 ^ 51 + n4 div M) = n0 + n1 * 2 ^ 51 + n2 * 2 ^ 102 + n3 * 2 ^ 153 + n4 * 2 ^ 204"
    using carryPropagate_val [of v] by (simp add: v_def algebra_simps)
  then show "\<exists>q. fe_nat (fe_columns r0 r1 r2 r3 r4) + p25519 * q = n0 + n1 * 2 ^ 51 + n2 * 2 ^ 102 + n3 * 2 ^ 153 + n4 * 2 ^ 204"
    unfolding v by blast
qed


section \<open>Products\<close>

lemma mul_columns:
  fixes a0 :: nat
  shows "(a0 * b0 + 19 * (a1 * b4) + 19 * (a2 * b3) + 19 * (a3 * b2) + 19 * (a4 * b1)) +
     (a0 * b1 + a1 * b0 + 19 * (a2 * b4) + 19 * (a3 * b3) + 19 * (a4 * b2)) * 2 ^ 51 +
     (a0 * b2 + a1 * b1 + a2 * b0 + 19 * (a3 * b4) + 19 * (a4 * b3)) * 2 ^ 102 +
     (a0 * b3 + a1 * b2 + a2 * b1 + a3 * b0 + 19 * (a4 * b4)) * 2 ^ 153 +
     (a0 * b4 + a1 * b3 + a2 * b2 + a3 * b1 + a4 * b0) * 2 ^ 204 +
     p25519 * ((a1 * b4 + a2 * b3 + a3 * b2 + a4 * b1) + (a2 * b4 + a3 * b3 + a4 * b2) * 2 ^ 51 + (a3 * b4 + a4 * b3) * 2 ^ 102 + a4 * b4 * 2 ^ 153)
   = (a0 + a1 * 2 ^ 51 + a2 * 2 ^ 102 + a3 * 2 ^ 153 + a4 * 2 ^ 204) * (b0 + b1 * 2 ^ 51 + b2 * 2 ^ 102 + b3 * 2 ^ 153 + b4 * 2 ^ 204)"
  by (simp add: p25519_def algebra_simps)

lemma square_columns:
  fixes a0 :: nat
  shows "(a0 * a0 + 38 * (a1 * a4) + 38 * (a2 * a3)) +
     (2 * (a0 * a1) + 38 * (a2 * a4) + 19 * (a3 * a3)) * 2 ^ 51 +
     (2 * (a0 * a2) + a1 * a1 + 38 * (a3 * a4)) * 2 ^ 102 +
     (2 * (a0 * a3) + 2 * (a1 * a2) + 19 * (a4 * a4)) * 2 ^ 153 +
     (2 * (a0 * a4) + 2 * (a1 * a3) + a2 * a2) * 2 ^ 204 +
     p25519 * ((2 * (a1 * a4) + 2 * (a2 * a3)) + (2 * (a2 * a4) + a3 * a3) * 2 ^ 51 + 2 * (a3 * a4) * 2 ^ 102 + a4 * a4 * 2 ^ 153)
   = (a0 + a1 * 2 ^ 51 + a2 * 2 ^ 102 + a3 * 2 ^ 153 + a4 * 2 ^ 204) * (a0 + a1 * 2 ^ 51 + a2 * 2 ^ 102 + a3 * 2 ^ 153 + a4 * 2 ^ 204)"
  by (simp add: p25519_def algebra_simps)

definition fe_val :: "fe \<Rightarrow> int" where
  "fe_val v = int (fe_nat v) mod int p25519"

lemma fe_val_eqI:
  assumes "fe_nat v + p25519 * q = n" "n + p25519 * k = m"
  shows "fe_val v = int m mod int p25519"
proof -
  have "int m = int (fe_nat v) + (int q + int k) * int p25519" using assms by (simp flip: assms add: algebra_simps)
  then show ?thesis unfolding fe_val_def by simp
qed

lemma feMulGeneric_val:
  assumes "fe_ok a" "fe_ok b"
  shows "fe_ok (feMulGeneric a b) \<and> fe_val (feMulGeneric a b) = fe_val a * fe_val b mod int p25519"
proof -
  note A = fe_okD [OF assms(1)] and B = fe_okD [OF assms(2)]
  define a0 a1 a2 a3 a4 where a: "a0 = unat (l0 a)" "a1 = unat (l1 a)" "a2 = unat (l2 a)" "a3 = unat (l3 a)" "a4 = unat (l4 a)"
  define b0 b1 b2 b3 b4 where b: "b0 = unat (l0 b)" "b1 = unat (l1 b)" "b2 = unat (l2 b)" "b3 = unat (l3 b)" "b4 = unat (l4 b)"
  let ?r0 = "addMul19 (addMul19 (addMul19 (addMul19 (fe_mul (l0 a) (l0 b)) (l1 a) (l4 b)) (l2 a) (l3 b)) (l3 a) (l2 b)) (l4 a) (l1 b)"
  let ?r1 = "addMul19 (addMul19 (addMul19 (addMul (fe_mul (l0 a) (l1 b)) (l1 a) (l0 b)) (l2 a) (l4 b)) (l3 a) (l3 b)) (l4 a) (l2 b)"
  let ?r2 = "addMul19 (addMul19 (addMul (addMul (fe_mul (l0 a) (l2 b)) (l1 a) (l1 b)) (l2 a) (l0 b)) (l3 a) (l4 b)) (l4 a) (l3 b)"
  let ?r3 = "addMul19 (addMul (addMul (addMul (fe_mul (l0 a) (l3 b)) (l1 a) (l2 b)) (l2 a) (l1 b)) (l3 a) (l0 b)) (l4 a) (l4 b)"
  let ?r4 = "addMul (addMul (addMul (addMul (fe_mul (l0 a) (l4 b)) (l1 a) (l3 b)) (l2 a) (l2 b)) (l3 a) (l1 b)) (l4 a) (l0 b)"
  have r: "feMulGeneric a b = fe_columns ?r0 ?r1 ?r2 ?r3 ?r4" by (simp only: feMulGeneric_def Let_def)
  have c0: "col ?r0 (a0 * b0 + 19 * (a1 * b4) + 19 * (a2 * b3) + 19 * (a3 * b2) + 19 * (a4 * b1)) (1 + 19 + 19 + 19 + 19)"
    unfolding a b by (intro col_add(3) col_mul(1) A B) simp_all
  have c1: "col ?r1 (a0 * b1 + a1 * b0 + 19 * (a2 * b4) + 19 * (a3 * b3) + 19 * (a4 * b2)) (1 + 1 + 19 + 19 + 19)"
    unfolding a b by (intro col_add(1,3) col_mul(1) A B) simp_all
  have c2: "col ?r2 (a0 * b2 + a1 * b1 + a2 * b0 + 19 * (a3 * b4) + 19 * (a4 * b3)) (1 + 1 + 1 + 19 + 19)"
    unfolding a b by (intro col_add(1,3) col_mul(1) A B) simp_all
  have c3: "col ?r3 (a0 * b3 + a1 * b2 + a2 * b1 + a3 * b0 + 19 * (a4 * b4)) (1 + 1 + 1 + 1 + 19)"
    unfolding a b by (intro col_add(1,3) col_mul(1) A B) simp_all
  have c4: "col ?r4 (a0 * b4 + a1 * b3 + a2 * b2 + a3 * b1 + a4 * b0) (1 + 1 + 1 + 1 + 1)"
    unfolding a b by (intro col_add(1) col_mul(1) A B) simp_all
  note res = fe_columns_val [OF c0 c1 c2 c3 c4]
  have "fe_ok (feMulGeneric a b)" unfolding r by (rule res(1)) simp_all
  moreover obtain q where q: "fe_nat (feMulGeneric a b) + p25519 * q =
      (a0 * b0 + 19 * (a1 * b4) + 19 * (a2 * b3) + 19 * (a3 * b2) + 19 * (a4 * b1)) +
      (a0 * b1 + a1 * b0 + 19 * (a2 * b4) + 19 * (a3 * b3) + 19 * (a4 * b2)) * 2 ^ 51 +
      (a0 * b2 + a1 * b1 + a2 * b0 + 19 * (a3 * b4) + 19 * (a4 * b3)) * 2 ^ 102 +
      (a0 * b3 + a1 * b2 + a2 * b1 + a3 * b0 + 19 * (a4 * b4)) * 2 ^ 153 +
      (a0 * b4 + a1 * b3 + a2 * b2 + a3 * b1 + a4 * b0) * 2 ^ 204"
    using res(2) unfolding r by fastforce
  have "fe_val (feMulGeneric a b) = int (fe_nat a * fe_nat b) mod int p25519"
    using fe_val_eqI [OF q mul_columns] by (simp only: fe_nat_def a b)
  ultimately show ?thesis by (simp add: fe_val_def mod_mult_eq)
qed

lemma feSquareGeneric_val:
  assumes "fe_ok a"
  shows "fe_ok (feSquareGeneric a) \<and> fe_val (feSquareGeneric a) = fe_val a * fe_val a mod int p25519"
proof -
  note A = fe_okD [OF assms]
  define a0 a1 a2 a3 a4 where a: "a0 = unat (l0 a)" "a1 = unat (l1 a)" "a2 = unat (l2 a)" "a3 = unat (l3 a)" "a4 = unat (l4 a)"
  let ?r0 = "addMul38 (addMul38 (fe_mul (l0 a) (l0 a)) (l1 a) (l4 a)) (l2 a) (l3 a)"
  let ?r1 = "addMul19 (addMul38 (fe_mul (l0 a * 2) (l1 a)) (l2 a) (l4 a)) (l3 a) (l3 a)"
  let ?r2 = "addMul38 (addMul (fe_mul (l0 a * 2) (l2 a)) (l1 a) (l1 a)) (l3 a) (l4 a)"
  let ?r3 = "addMul19 (addMul (fe_mul (l0 a * 2) (l3 a)) (l1 a * 2) (l2 a)) (l4 a) (l4 a)"
  let ?r4 = "addMul (addMul (fe_mul (l0 a * 2) (l4 a)) (l1 a * 2) (l3 a)) (l2 a) (l2 a)"
  have r: "feSquareGeneric a = fe_columns ?r0 ?r1 ?r2 ?r3 ?r4" by (simp only: feSquareGeneric_def Let_def)
  have c0: "col ?r0 (a0 * a0 + 38 * (a1 * a4) + 38 * (a2 * a3)) (1 + 38 + 38)"
    unfolding a by (intro col_add(4) col_mul(1) A) simp_all
  have c1: "col ?r1 (2 * (a0 * a1) + 38 * (a2 * a4) + 19 * (a3 * a3)) (2 + 38 + 19)"
    unfolding a by (intro col_add(3,4) col_mul(2) A) simp_all
  have c2: "col ?r2 (2 * (a0 * a2) + a1 * a1 + 38 * (a3 * a4)) (2 + 1 + 38)"
    unfolding a by (intro col_add(1,4) col_mul(2) A) simp_all
  have c3: "col ?r3 (2 * (a0 * a3) + 2 * (a1 * a2) + 19 * (a4 * a4)) (2 + 2 + 19)"
    unfolding a by (intro col_add(2,3) col_mul(2) A) simp_all
  have c4: "col ?r4 (2 * (a0 * a4) + 2 * (a1 * a3) + a2 * a2) (2 + 2 + 1)"
    unfolding a by (rule col_add(1) [OF col_add(2) [OF col_mul(2)]]; (rule A | simp))
  note res = fe_columns_val [OF c0 c1 c2 c3 c4]
  have "fe_ok (feSquareGeneric a)" unfolding r by (rule res(1)) simp_all
  moreover obtain q where q: "fe_nat (feSquareGeneric a) + p25519 * q =
      (a0 * a0 + 38 * (a1 * a4) + 38 * (a2 * a3)) + (2 * (a0 * a1) + 38 * (a2 * a4) + 19 * (a3 * a3)) * 2 ^ 51 +
      (2 * (a0 * a2) + a1 * a1 + 38 * (a3 * a4)) * 2 ^ 102 + (2 * (a0 * a3) + 2 * (a1 * a2) + 19 * (a4 * a4)) * 2 ^ 153 +
      (2 * (a0 * a4) + 2 * (a1 * a3) + a2 * a2) * 2 ^ 204"
    using res(2) unfolding r by fastforce
  have "fe_val (feSquareGeneric a) = int (fe_nat a * fe_nat a) mod int p25519"
    using fe_val_eqI [OF q square_columns] by (simp only: fe_nat_def a)
  ultimately show ?thesis by (simp add: fe_val_def mod_mult_eq)
qed



section \<open>Sums, differences and small multiples\<close>

lemma Add_val:
  assumes "fe_ok a" "fe_ok b"
  shows "fe_ok (fe_Add a b) \<and> fe_val (fe_Add a b) = (fe_val a + fe_val b) mod int p25519"
proof -
  define v where "v = \<lparr>l0 = l0 a + l0 b, l1 = l1 a + l1 b, l2 = l2 a + l2 b, l3 = l3 a + l3 b, l4 = l4 a + l4 b\<rparr>"
  have sum: "unat (x + y) = unat x + unat y" if "unat x < 2 ^ 52" "unat y < 2 ^ 52" for x y :: uint64
    using that by (intro unat_add_lt) simp
  note A = fe_okD [OF assms(1)] and B = fe_okD [OF assms(2)]
  have v: "fe_nat v = fe_nat a + fe_nat b"
    unfolding fe_nat_def v_def fe.simps sum [OF A(1) B(1)] sum [OF A(2) B(2)] sum [OF A(3) B(3)] sum [OF A(4) B(4)] sum [OF A(5) B(5)]
    by (simp add: algebra_simps)
  have r: "fe_Add a b = carryPropagate v" by (simp add: fe_Add_def v_def)
  have "fe_val (fe_Add a b) = int (fe_nat a + fe_nat b) mod int p25519"
    unfolding r by (rule fe_val_eqI [OF carryPropagate_val, where k = 0]) (simp add: v)
  then show ?thesis by (simp add: r carryPropagate_ok fe_val_def mod_add_eq)
qed

lemma Subtract_val:
  assumes "fe_ok a" "fe_ok b"
  shows "fe_ok (fe_Subtract a b) \<and> fe_val (fe_Subtract a b) = (fe_val a - fe_val b) mod int p25519"
proof -
  define v where "v = \<lparr>l0 = (l0 a + 0xFFFFFFFFFFFDA) - l0 b, l1 = (l1 a + 0xFFFFFFFFFFFFE) - l1 b,
        l2 = (l2 a + 0xFFFFFFFFFFFFE) - l2 b, l3 = (l3 a + 0xFFFFFFFFFFFFE) - l3 b, l4 = (l4 a + 0xFFFFFFFFFFFFE) - l4 b\<rparr>"
  have diff: "unat (x + k - y) + unat y = unat x + unat k"
    if "unat x < 2 ^ 52" "unat y \<le> 2 ^ 52 - 38" "2 ^ 52 - 38 \<le> unat k" "unat k < 2 ^ 52" for x y k :: uint64
  proof -
    have "unat (x + k) = unat x + unat k" using that by (intro unat_add_lt) simp
    then show ?thesis using that unat_sub_cases [of "x + k" y] by simp
  qed
  note A = fe_okD [OF assms(1)] and B = assms(2) [unfolded fe_ok_def]
  have l: "unat (l0 v) + unat (l0 b) = unat (l0 a) + 0xFFFFFFFFFFFDA" "unat (l1 v) + unat (l1 b) = unat (l1 a) + 0xFFFFFFFFFFFFE"
    "unat (l2 v) + unat (l2 b) = unat (l2 a) + 0xFFFFFFFFFFFFE" "unat (l3 v) + unat (l3 b) = unat (l3 a) + 0xFFFFFFFFFFFFE"
    "unat (l4 v) + unat (l4 b) = unat (l4 a) + 0xFFFFFFFFFFFFE"
    using diff [OF A(1), where y = "l0 b" and k = "0xFFFFFFFFFFFDA"] diff [OF A(2), where y = "l1 b" and k = "0xFFFFFFFFFFFFE"] diff [OF A(3), where y = "l2 b" and k = "0xFFFFFFFFFFFFE"]
      diff [OF A(4), where y = "l3 b" and k = "0xFFFFFFFFFFFFE"] diff [OF A(5), where y = "l4 b" and k = "0xFFFFFFFFFFFFE"] B
    by (simp_all add: v_def)
  have v: "fe_nat v + fe_nat b = fe_nat a + 2 * p25519"
    using l unfolding fe_nat_def p25519_def by simp
  have r: "fe_Subtract a b = carryPropagate v" by (simp add: fe_Subtract_def v_def)
  have "fe_val (fe_Subtract a b) = int (fe_nat v) mod int p25519"
    unfolding r by (rule fe_val_eqI [OF carryPropagate_val, where k = 0]) simp
  also have "int (fe_nat v) = int (fe_nat a) - int (fe_nat b) + 2 * int p25519" using v by linarith
  finally show ?thesis by (simp add: r carryPropagate_ok fe_val_def mod_diff_eq)
qed

lemma feZero_ok: "fe_ok feZero" "fe_val feZero = 0"
  by (simp_all add: fe_ok_def feZero_def fe_val_def fe_nat_def)

lemma feOne_ok: "fe_ok feOne" "fe_val feOne = 1"
  by (simp_all add: fe_ok_def feOne_def fe_val_def fe_nat_def p25519_def)

lemma Negate_val: "fe_ok a \<Longrightarrow> fe_ok (fe_Negate a) \<and> fe_val (fe_Negate a) = (- fe_val a) mod int p25519"
  using Subtract_val [OF feZero_ok(1), of a] by (simp add: fe_Negate_def feZero_ok(2))

lemma mul51_col:
  assumes "unat a < 2 ^ 52" "mul51 a y = (lo, hi)"
  shows "unat lo = unat a * unat y mod 2 ^ 51" "unat hi = unat a * unat y div 2 ^ 51" "unat hi < 2 ^ 33"
proof -
  have y: "unat (ucast y :: uint64) = unat y" "unat y < 4294967296" using unat_rune_less [of y] by (simp_all add: unat_ucast_gen)
  have col: "col (fe_mul a (ucast y)) (unat a * unat y) 1" using col_mul(1) [OF assms(1), of "ucast y"] y by simp
  have m: "mul51 a y = (lo128 (fe_mul a (ucast y)) AND maskLow51Bits, shiftRightBy51 (fe_mul a (ucast y)))"
    by (cases "Mul64 a (ucast y)") (simp add: mul51_def fe_mul_def shiftRightBy51_def)
  show "unat lo = unat a * unat y mod 2 ^ 51" using col_low [OF col] assms(2) unfolding m by simp
  show hi: "unat hi = unat a * unat y div 2 ^ 51" using col_high [OF col] assms(2) unfolding m by simp
  have "unat a * unat y < 2 ^ 52 * 2 ^ 32" using assms(1) y(2) by (intro mult_strict_mono) simp_all
  then show "unat hi < 2 ^ 33" unfolding hi by (simp add: less_mult_imp_div_less)
qed

lemma Mult32_val:
  assumes "fe_ok x"
  shows "fe_ok (fe_Mult32 x y) \<and> fe_val (fe_Mult32 x y) = fe_val x * uint y mod int p25519"
proof -
  note A = fe_okD [OF assms]
  obtain x0 h0 where 0: "mul51 (l0 x) y = (x0, h0)" by fastforce
  obtain x1 h1 where 1: "mul51 (l1 x) y = (x1, h1)" by fastforce
  obtain x2 h2 where 2: "mul51 (l2 x) y = (x2, h2)" by fastforce
  obtain x3 h3 where 3: "mul51 (l3 x) y = (x3, h3)" by fastforce
  obtain x4 h4 where 4: "mul51 (l4 x) y = (x4, h4)" by fastforce
  have r: "fe_Mult32 x y = \<lparr>l0 = x0 + 19 * h4, l1 = x1 + h0, l2 = x2 + h1, l3 = x3 + h2, l4 = x4 + h3\<rparr>"
    by (simp add: fe_Mult32_def 0 1 2 3 4)
  note m = mul51_col [OF A(1) 0] mul51_col [OF A(2) 1] mul51_col [OF A(3) 2] mul51_col [OF A(4) 3] mul51_col [OF A(5) 4]
  have low: "n mod (2 ^ 51 :: nat) < 2251799813685248" for n by simp
  have sum: "unat (w + h) = unat w + unat h \<and> unat w + unat h \<le> 2 ^ 52 - 38"
    if "unat w = n mod 2 ^ 51" "unat h < 2 ^ 40" for w h :: uint64 and n
  proof -
    have "unat w < 2251799813685248" using low [of n] that(1) by simp
    then show ?thesis using that(2) by (simp add: unat_add_lt)
  qed
  have h4: "unat (19 * h4) = 19 * unat h4" using m(15) by (simp add: unat_mult_lt)
  note s = sum [OF m(1), of "19 * h4"] sum [OF m(4), of h0] sum [OF m(7), of h1] sum [OF m(10), of h2] sum [OF m(13), of h3]
  have small: "unat (19 * h4) < 2 ^ 40" "unat h0 < 2 ^ 40" "unat h1 < 2 ^ 40" "unat h2 < 2 ^ 40" "unat h3 < 2 ^ 40"
    using m(3,6,9,12,15) h4 by simp_all
  have ok: "fe_ok (fe_Mult32 x y)" using s small unfolding r fe_ok_def by simp
  have "fe_nat (fe_Mult32 x y) + p25519 * (unat (l4 x) * unat y div 2 ^ 51) =
      unat (l0 x) * unat y + unat (l1 x) * unat y * 2 ^ 51 + unat (l2 x) * unat y * 2 ^ 102 +
      unat (l3 x) * unat y * 2 ^ 153 + unat (l4 x) * unat y * 2 ^ 204"
    using carry_round [of "2 ^ 51" "unat (l0 x) * unat y" "unat (l4 x) * unat y"] s small
    unfolding r fe_nat_def fe.simps by (simp add: h4 m)
  also have "\<dots> = fe_nat x * unat y" by (simp add: fe_nat_def algebra_simps)
  finally have "fe_val (fe_Mult32 x y) = int (fe_nat x * unat y) mod int p25519"
    by (rule fe_val_eqI [where k = 0]) simp
  then show ?thesis using ok by (simp add: fe_val_def mod_mult_left_eq)
qed

section \<open>Reduction\<close>

definition fe_canonical :: "fe \<Rightarrow> bool" where
  "fe_canonical v \<longleftrightarrow> unat (l0 v) < 2 ^ 51 \<and> unat (l1 v) < 2 ^ 51 \<and> unat (l2 v) < 2 ^ 51 \<and> unat (l3 v) < 2 ^ 51 \<and> unat (l4 v) < 2 ^ 51"

text \<open>A chain of carries through five limbs computes a quotient by \<open>2 ^ 255\<close>.\<close>

lemma carry_chain:
  fixes n0 n1 n2 n3 n4 c :: nat
  defines "c0 \<equiv> (n0 + c) div 2 ^ 51"
  defines "c1 \<equiv> (n1 + c0) div 2 ^ 51"
  defines "c2 \<equiv> (n2 + c1) div 2 ^ 51"
  defines "c3 \<equiv> (n3 + c2) div 2 ^ 51"
  shows "n0 + n1 * 2 ^ 51 + n2 * 2 ^ 102 + n3 * 2 ^ 153 + n4 * 2 ^ 204 + c =
    (n0 + c) mod 2 ^ 51 + (n1 + c0) mod 2 ^ 51 * 2 ^ 51 + (n2 + c1) mod 2 ^ 51 * 2 ^ 102 + (n3 + c2) mod 2 ^ 51 * 2 ^ 153 +
      (n4 + c3) mod 2 ^ 51 * 2 ^ 204 + (n4 + c3) div 2 ^ 51 * 2 ^ 255"
    "(n0 + c) mod 2 ^ 51 + (n1 + c0) mod 2 ^ 51 * 2 ^ 51 + (n2 + c1) mod 2 ^ 51 * 2 ^ 102 + (n3 + c2) mod 2 ^ 51 * 2 ^ 153 +
      (n4 + c3) mod 2 ^ 51 * 2 ^ 204 < 2 ^ 255"
proof -
  have split: "n = n div 2 ^ 51 * 2251799813685248 + n mod 2 ^ 51" for n :: nat by simp
  have less: "n mod 2 ^ 51 \<le> (2251799813685247 :: nat)" for n
    using less_Suc_eq_le [of "n mod 2251799813685248" 2251799813685247] by simp
  define d where "d = (n4 + c3) div 2 ^ 51"
  show "n0 + n1 * 2 ^ 51 + n2 * 2 ^ 102 + n3 * 2 ^ 153 + n4 * 2 ^ 204 + c =
    (n0 + c) mod 2 ^ 51 + (n1 + c0) mod 2 ^ 51 * 2 ^ 51 + (n2 + c1) mod 2 ^ 51 * 2 ^ 102 + (n3 + c2) mod 2 ^ 51 * 2 ^ 153 +
      (n4 + c3) mod 2 ^ 51 * 2 ^ 204 + (n4 + c3) div 2 ^ 51 * 2 ^ 255"
    using split [of "n0 + c", folded c0_def] split [of "n1 + c0", folded c1_def] split [of "n2 + c1", folded c2_def]
      split [of "n3 + c2", folded c3_def] split [of "n4 + c3", folded d_def] unfolding d_def [symmetric] by simp
  show "(n0 + c) mod 2 ^ 51 + (n1 + c0) mod 2 ^ 51 * 2 ^ 51 + (n2 + c1) mod 2 ^ 51 * 2 ^ 102 + (n3 + c2) mod 2 ^ 51 * 2 ^ 153 +
      (n4 + c3) mod 2 ^ 51 * 2 ^ 204 < 2 ^ 255"
    using less [of "n0 + c"] less [of "n1 + c0"] less [of "n2 + c1"] less [of "n3 + c2"] less [of "n4 + c3"] by simp
qed



lemma unat_add_shift:
  assumes "unat x < 2 ^ 63"
  shows "unat (x + drop_bit 51 y :: uint64) = unat x + unat y div 2 ^ 51"
  using assms unat_top_shift [of y] by (subst unat_add_lt) (simp_all add: unat_shift51)

lemma fe_reduce_eq:
  fixes v
  defines "w \<equiv> carryPropagate v"
  defines "c \<equiv> drop_bit 51 (l4 w + drop_bit 51 (l3 w + drop_bit 51 (l2 w + drop_bit 51 (l1 w + drop_bit 51 (l0 w + 19)))))"
  defines "k0 \<equiv> l0 w + 19 * c"
  defines "k1 \<equiv> l1 w + drop_bit 51 k0"
  defines "k2 \<equiv> l2 w + drop_bit 51 k1"
  defines "k3 \<equiv> l3 w + drop_bit 51 k2"
  defines "k4 \<equiv> l4 w + drop_bit 51 k3"
  shows "fe_reduce v = \<lparr>l0 = k0 AND maskLow51Bits, l1 = k1 AND maskLow51Bits, l2 = k2 AND maskLow51Bits,
    l3 = k3 AND maskLow51Bits, l4 = k4 AND maskLow51Bits\<rparr>"
  unfolding w_def [symmetric] c_def k0_def k1_def k2_def k3_def k4_def fe_reduce_def Let_def by simp

lemma fe_reduce_val: "fe_canonical (fe_reduce v) \<and> int (fe_nat (fe_reduce v)) = fe_val v"
proof -
  define w where "w = carryPropagate v"
  define c where "c = drop_bit 51 (l4 w + drop_bit 51 (l3 w + drop_bit 51 (l2 w + drop_bit 51 (l1 w + drop_bit 51 (l0 w + 19)))))"
  define k0 where "k0 = l0 w + 19 * c"
  define k1 where "k1 = l1 w + drop_bit 51 k0"
  define k2 where "k2 = l2 w + drop_bit 51 k1"
  define k3 where "k3 = l3 w + drop_bit 51 k2"
  define k4 where "k4 = l4 w + drop_bit 51 k3"
  have r: "fe_reduce v = \<lparr>l0 = k0 AND maskLow51Bits, l1 = k1 AND maskLow51Bits, l2 = k2 AND maskLow51Bits,
    l3 = k3 AND maskLow51Bits, l4 = k4 AND maskLow51Bits\<rparr>"
    using fe_reduce_eq [of v] by (simp only: w_def c_def k0_def k1_def k2_def k3_def k4_def)
  have ok: "fe_ok w" unfolding w_def by (rule carryPropagate_ok)
  note b = fe_okD [OF ok]
  have small: "unat (l0 w) < 2 ^ 63" "unat (l1 w) < 2 ^ 63" "unat (l2 w) < 2 ^ 63" "unat (l3 w) < 2 ^ 63" "unat (l4 w) < 2 ^ 63"
    using b by simp_all
  have start: "unat (l0 w + 19) = unat (l0 w) + 19" using b(1) by (simp add: unat_add_lt)
  have uc: "unat c = (unat (l4 w) + (unat (l3 w) + (unat (l2 w) + (unat (l1 w) + (unat (l0 w) + 19) div 2 ^ 51) div 2 ^ 51) div 2 ^ 51) div 2 ^ 51) div 2 ^ 51"
    unfolding c_def by (simp only: unat_shift51 unat_add_shift small start)
  obtain R1 where R1: "fe_nat w + 19 = R1 + unat c * 2 ^ 255" "R1 < 2 ^ 255"
    using carry_chain [where ?n0.0 = "unat (l0 w)" and c = 19 and ?n1.0 = "unat (l1 w)" and ?n2.0 = "unat (l2 w)" and ?n3.0 = "unat (l3 w)" and ?n4.0 = "unat (l4 w)", folded uc]
    unfolding fe_nat_def by blast
  have w2: "fe_nat w < 2 * p25519"
    using ok unfolding fe_ok_def fe_nat_def p25519_def by simp
  have c1: "unat c \<le> 1"
  proof (rule ccontr)
    assume "\<not> unat c \<le> 1"
    then have "2 * 2 ^ 255 \<le> unat c * 2 ^ 255" by (intro mult_le_mono1) simp
    then show False using R1(1) w2 by (simp add: p25519_def)
  qed
  have "unat (19 * c) = 19 * unat c" using c1 by (simp add: unat_mult_lt)
  then have k0: "unat k0 = unat (l0 w) + 19 * unat c" using b(1) c1 by (simp add: k0_def unat_add_lt)
  have k: "unat k1 = unat (l1 w) + unat k0 div 2 ^ 51" "unat k2 = unat (l2 w) + unat k1 div 2 ^ 51"
    "unat k3 = unat (l3 w) + unat k2 div 2 ^ 51" "unat k4 = unat (l4 w) + unat k3 div 2 ^ 51"
    unfolding k1_def k2_def k3_def k4_def by (simp_all only: unat_add_shift small)
  have can: "fe_canonical (fe_reduce v)" unfolding r fe_canonical_def by (simp add: unat_mask51)
  have R2: "fe_nat w + 19 * unat c = fe_nat (fe_reduce v) + unat k4 div 2 ^ 51 * 2 ^ 255" "fe_nat (fe_reduce v) < 2 ^ 255"
    using carry_chain [where ?n0.0 = "unat (l0 w)" and c = "19 * unat c" and ?n1.0 = "unat (l1 w)" and ?n2.0 = "unat (l2 w)" and ?n3.0 = "unat (l3 w)" and ?n4.0 = "unat (l4 w)", folded k0, folded k]
    unfolding r fe_nat_def fe.simps unat_mask51 by blast+
  have "fe_nat (fe_reduce v) < p25519 \<and> (fe_nat (fe_reduce v) = fe_nat w \<or> fe_nat (fe_reduce v) + p25519 = fe_nat w)"
  proof (cases "unat c = 0")
    case True
    then have "fe_nat w + 19 < 2 ^ 255" using R1 by simp
    then have "unat k4 div 2 ^ 51 = 0" using R2(1) True by (cases "unat k4 div 2 ^ 51") auto
    then show ?thesis using R1 R2(1) True by (simp add: p25519_def)
  next
    case False
    then have c: "unat c = 1" using c1 by simp
    have "unat k4 div 2 ^ 51 = 1"
    proof (cases "unat k4 div 2 ^ 51 \<le> 1")
      case True
      then show ?thesis using R1 R2 c by (cases "unat k4 div 2 ^ 51 = 0") simp_all
    next
      case False
      then have "2 * 2 ^ 255 \<le> unat k4 div 2 ^ 51 * 2 ^ 255" by (intro mult_le_mono1) simp
      then show ?thesis using R2(1) w2 c by (simp add: p25519_def)
    qed
    then show ?thesis using R1 R2(1) c w2 by (simp add: p25519_def)
  qed
  then have "fe_nat (fe_reduce v) = fe_nat w mod p25519" by (metis mod_add_self2 mod_less)
  then have "int (fe_nat (fe_reduce v)) = fe_val w" by (simp add: fe_val_def zmod_int)
  moreover have "fe_val w = fe_val v"
    unfolding w_def using fe_val_eqI [OF carryPropagate_val, where k = 0] by (simp add: fe_val_def)
  ultimately show ?thesis using can by simp
qed


section \<open>Encodings\<close>

text \<open>The value of bytes in little-endian order.\<close>

fun le_val :: "byte list \<Rightarrow> nat" where
  "le_val [] = 0"
| "le_val (b # bs) = unat b + 256 * le_val bs"

lemma le_val_append: "le_val (xs @ ys) = le_val xs + 256 ^ length xs * le_val ys"
  by (induction xs) (simp_all add: algebra_simps)

lemma le_val_zeros: "le_val (replicate n 0) = 0"
  by (induction n) simp_all

lemma le_val_less: "le_val xs < 256 ^ length xs"
proof (induction xs)
  case (Cons b xs)
  have "unat b \<le> 255" using unat_byte_less [of b] by linarith
  then show ?case using Cons by simp
qed simp

lemma digit_unique:
  fixes a b m n :: nat
  shows "a < 256 \<Longrightarrow> b < 256 \<Longrightarrow> a + 256 * m = b + 256 * n \<Longrightarrow> a = b \<and> m = n"
proof -
  assume ab: "a < 256" "b < 256" and eq: "a + 256 * m = b + 256 * n"
  have "a = (a + 256 * m) mod 256" "b = (b + 256 * n) mod 256" using ab by simp_all
  then have "a = b" using eq by simp
  then show ?thesis using eq by simp
qed

lemma le_val_inject: "length xs = length ys \<Longrightarrow> le_val xs = le_val ys \<longleftrightarrow> xs = ys"
proof (induction xs ys rule: list_induct2)
  case (Cons x xs y ys)
  have "unat x = unat y \<and> le_val xs = le_val ys" if "unat x + 256 * le_val xs = unat y + 256 * le_val ys"
    by (rule digit_unique [OF unat_byte_less unat_byte_less that])
  then show ?case using Cons by (auto simp: word_unat_eq_iff)
qed simp

lemma le_val_take: "le_val (take n xs) = le_val xs mod 256 ^ n"
proof (cases "n \<le> length xs")
  case True
  have "le_val xs = le_val (take n xs) + 256 ^ n * le_val (drop n xs)"
    using le_val_append [of "take n xs" "drop n xs"] True by simp
  moreover have "le_val (take n xs) < 256 ^ n" using le_val_less [of "take n xs"] True by simp
  ultimately show ?thesis by simp
next
  case False
  have "le_val xs < 256 ^ length xs" by (rule le_val_less)
  also have "\<dots> \<le> 256 ^ n" using False by (intro power_increasing) simp_all
  finally show ?thesis using False by simp
qed

lemma le_val_drop: "le_val (drop n xs) = le_val xs div 256 ^ n"
proof (cases "n \<le> length xs")
  case True
  have "le_val xs = le_val (take n xs) + 256 ^ n * le_val (drop n xs)"
    using le_val_append [of "take n xs" "drop n xs"] True by simp
  moreover have "le_val (take n xs) < 256 ^ n" using le_val_less [of "take n xs"] True by simp
  ultimately show ?thesis by simp
next
  case False
  have "le_val xs < 256 ^ length xs" by (rule le_val_less)
  also have "\<dots> \<le> 256 ^ n" using False by (intro power_increasing) simp_all
  finally show ?thesis using False by simp
qed

text \<open>The bytes of a word.\<close>

definition le_bytes :: "uint64 \<Rightarrow> byte list" where
  "le_bytes v = [ucast v, ucast (drop_bit 8 v), ucast (drop_bit 16 v), ucast (drop_bit 24 v), ucast (drop_bit 32 v),
     ucast (drop_bit 40 v), ucast (drop_bit 48 v), ucast (drop_bit 56 v)]"

lemma LEPutUint64_bytes: "length b \<ge> 8 \<Longrightarrow> LEPutUint64 b v = Inr (le_bytes v @ drop 8 b)"
proof -
  assume "length b \<ge> 8"
  then obtain x0 x1 x2 x3 x4 x5 x6 x7 rest where "b = x0 # x1 # x2 # x3 # x4 # x5 # x6 # x7 # rest"
    by (auto simp: numeral_eq_Suc Suc_le_length_iff)
  then show ?thesis by (simp add: LEPutUint64_def le_bytes_def numeral_eq_Suc)
qed

lemma le_val_bytes: "le_val (le_bytes v) = unat v"
proof -
  have split: "x = x mod 256 + 256 * (x div 256)" for x :: nat by simp
  have top: "unat v div 2 ^ 56 < 256" using unat64_less [of v] by (simp add: less_mult_imp_div_less)
  have byte: "unat (ucast (drop_bit n v) :: byte) = unat v div 2 ^ n mod 256" for n
    by (simp add: unat_ucast_gen unat_drop_bit)
  have b0: "unat (ucast v :: byte) = unat v mod 256" by (simp add: unat_ucast_gen)
  have step: "unat v div 2 ^ n mod 256 + 256 * (unat v div 2 ^ (n + 8)) = unat v div 2 ^ n" for n
    using split [of "unat v div 2 ^ n"] by (simp add: div_mult2_eq power_add)
  have "le_val (le_bytes v) = unat v mod 256 + 256 * (unat v div 2 ^ 8 mod 256 + 256 * (unat v div 2 ^ 16 mod 256 + 256 * (unat v div 2 ^ 24 mod 256 +
      256 * (unat v div 2 ^ 32 mod 256 + 256 * (unat v div 2 ^ 40 mod 256 + 256 * (unat v div 2 ^ 48 mod 256 + 256 * (unat v div 2 ^ 56)))))))"
    using top unfolding le_bytes_def by (simp add: byte b0 del: power_numeral)
  also have "\<dots> = unat v"
    using step [of 0] step [of 8] step [of 16] step [of 24] step [of 32] step [of 40] step [of 48] by simp
  finally show ?thesis .
qed



lemma pack:
  assumes "unat lo < 2 ^ k" "k + j = 64"
  shows "unat (push_bit k hi OR lo :: uint64) = unat hi mod 2 ^ j * 2 ^ k + unat lo"
proof -
  have "unat (push_bit k hi) = unat hi mod 2 ^ j * 2 ^ k"
  proof -
    have "unat (push_bit k hi) = unat hi * 2 ^ k mod 2 ^ 64" by (simp add: unat_push_bit_gen)
    also have "(2 ^ 64 :: nat) = 2 ^ j * 2 ^ k" using assms(2) by (metis power_add add.commute)
    finally show ?thesis by (simp only: mod_mult_mult2)
  qed
  moreover from this have "unat (push_bit k hi OR lo) = unat (push_bit k hi) + unat lo"
    using assms(1) by (intro unat_or_disjoint) simp_all
  ultimately show ?thesis by simp
qed

lemma length_le_bytes [simp]: "length (le_bytes u) = 8"
  by (simp add: le_bytes_def)

lemma put_word_bytes:
  assumes "length a = i * 8" "length b \<ge> 8"
  shows "put_word i u (a @ b) = Inr (a @ le_bytes u @ drop 8 b)"
  using assms LEPutUint64_bytes [of b u] by (simp add: put_word_def)

lemma fe_Bytes_val:
  obtains b where "fe_Bytes v = Inr b" "length b = 32" "int (le_val b) = fe_val v"
proof -
  define t where "t = fe_reduce v"
  have can: "fe_canonical t" and val: "int (fe_nat t) = fe_val v" using fe_reduce_val [of v] by (simp_all add: t_def)
  define t0 t1 t2 t3 t4 where ts: "t0 = unat (l0 t)" "t1 = unat (l1 t)" "t2 = unat (l2 t)" "t3 = unat (l3 t)" "t4 = unat (l4 t)"
  have b: "t0 < 2 ^ 51" "t1 < 2 ^ 51" "t2 < 2 ^ 51" "t3 < 2 ^ 51" "t4 < 2 ^ 51" using can by (simp_all add: fe_canonical_def ts)
  define u0 u1 u2 u3 where u: "u0 = push_bit 51 (l1 t) OR l0 t" "u1 = push_bit 38 (l2 t) OR drop_bit 13 (l1 t)"
    "u2 = push_bit 25 (l3 t) OR drop_bit 26 (l2 t)" "u3 = push_bit 12 (l4 t) OR drop_bit 39 (l3 t)"
  have v0: "unat u0 = t1 mod 2 ^ 13 * 2 ^ 51 + t0"
    unfolding u ts by (rule pack) (use b in \<open>simp_all add: ts\<close>)
  have v1: "unat u1 = t2 mod 2 ^ 26 * 2 ^ 38 + t1 div 2 ^ 13"
    unfolding u ts unat_drop_bit [symmetric] by (rule pack) (use b in \<open>simp_all add: ts unat_drop_bit less_mult_imp_div_less\<close>)
  have v2: "unat u2 = t3 mod 2 ^ 39 * 2 ^ 25 + t2 div 2 ^ 26"
    unfolding u ts unat_drop_bit [symmetric] by (rule pack) (use b in \<open>simp_all add: ts unat_drop_bit less_mult_imp_div_less\<close>)
  have v3: "unat u3 = t4 mod 2 ^ 52 * 2 ^ 12 + t3 div 2 ^ 39"
    unfolding u ts unat_drop_bit [symmetric] by (rule pack) (use b in \<open>simp_all add: ts unat_drop_bit less_mult_imp_div_less\<close>)
  define bs where "bs = le_bytes u0 @ le_bytes u1 @ le_bytes u2 @ le_bytes u3"
  have "fe_Bytes v = bind_go (put_word 0 u0 ([] @ replicate 32 0)) (\<lambda>out.
         bind_go (put_word 1 u1 out) (\<lambda>out.
         bind_go (put_word 2 u2 out) (\<lambda>out. put_word 3 u3 out)))"
    by (simp add: fe_Bytes_def u t_def [symmetric] Let_def)
  also have "\<dots> = Inr bs"
    using put_word_bytes [of "[]" 0 "replicate 32 0" u0] put_word_bytes [of "le_bytes u0" 1 "replicate 24 0" u1]
      put_word_bytes [of "le_bytes u0 @ le_bytes u1" 2 "replicate 16 0" u2]
      put_word_bytes [of "le_bytes u0 @ le_bytes u1 @ le_bytes u2" 3 "replicate 8 0" u3]
    by (simp add: bs_def)
  finally have 1: "fe_Bytes v = Inr bs" .
  have "le_val bs = unat u0 + unat u1 * 2 ^ 64 + unat u2 * 2 ^ 128 + unat u3 * 2 ^ 192"
    by (simp add: bs_def le_val_append le_val_bytes)
  also have "\<dots> = t0 + t1 * 2 ^ 51 + t2 * 2 ^ 102 + t3 * 2 ^ 153 + t4 * 2 ^ 204"
  proof -
    define q1 q2 q3 r1 r2 r3 where d: "q1 = t1 div 2 ^ 13" "q2 = t2 div 2 ^ 26" "q3 = t3 div 2 ^ 39"
      "r1 = t1 mod 2 ^ 13" "r2 = t2 mod 2 ^ 26" "r3 = t3 mod 2 ^ 39"
    have s: "t1 = q1 * 2 ^ 13 + r1" "t2 = q2 * 2 ^ 26 + r2" "t3 = q3 * 2 ^ 39 + r3"
      unfolding d by (rule div_mult_mod_eq [symmetric])+
    have "t4 mod 2 ^ 52 = t4" using b(5) by simp
    then show ?thesis unfolding v0 v1 v2 v3 d [symmetric] unfolding s by simp
  qed
  finally have 2: "int (le_val bs) = fe_val v" using val by (simp only: fe_nat_def ts)
  have 3: "length bs = 32" by (simp add: bs_def)
  show thesis by (rule that [OF 1 3 2])
qed

lemma LEUint64_val:
  assumes "length b = 8"
  obtains w where "LEUint64 b = Inr w" "unat w = le_val b"
proof -
  define w :: uint64 where "w = word_of_nat (le_val b)"
  have "le_val b < 256 ^ 8" using le_val_less [of b] assms by simp
  then have w: "unat w = le_val b" by (simp add: w_def unat_of_nat)
  then have "le_bytes w = b" using le_val_inject [of "le_bytes w" b] assms by (simp add: le_val_bytes)
  moreover have "LEUint64 (le_bytes w) = Inr w" by (simp add: LEUint64_def le_bytes_def word_of_bytes)
  ultimately have "LEUint64 b = Inr w" by simp
  then show thesis using w that by blast
qed

lemma le_field_val:
  assumes "length x = 32" "j = i + 8" "j \<le> 32" "s \<le> 13"
  obtains w where "le_field x i j s = Inr w" "unat w = le_val x div 2 ^ (8 * i + s) mod 2 ^ 51"
proof -
  define b where "b = drop i (take j x)"
  have "length b = 8" using assms by (simp add: b_def)
  then obtain w where w: "LEUint64 b = Inr w" "unat w = le_val b" by (rule LEUint64_val)
  have pow: "(256 :: nat) ^ k = 2 ^ (8 * k)" for k by (simp add: power_mult)
  have "b = take 8 (drop i x)" using assms(2) by (simp add: b_def drop_take)
  then have b: "le_val b = le_val x div 2 ^ (8 * i) mod 2 ^ 64" by (simp add: le_val_take le_val_drop pow)
  have "le_field x i j s = Inr (drop_bit s w AND maskLow51Bits)"
    using assms w(1) by (simp add: le_field_def slice_go_def b_def)
  moreover have "unat (drop_bit s w AND maskLow51Bits) = le_val x div 2 ^ (8 * i + s) mod 2 ^ 51"
  proof -
    have "n mod 2 ^ 64 div 2 ^ s mod 2 ^ 51 = n div 2 ^ s mod 2 ^ 51" for n :: nat
    proof -
      have "take_bit 51 (drop_bit s (take_bit 64 n)) = take_bit 51 (drop_bit s n)"
        using assms(4) by (auto intro!: bit_eqI simp: bit_simps)
      then show ?thesis by (simp add: take_bit_eq_mod drop_bit_eq_div)
    qed
    then show ?thesis unfolding unat_mask51 unat_drop_bit w(2) b by (simp add: power_add div_mult2_eq)
  qed
  ultimately show thesis by (rule that)
qed

lemma fe_SetBytes_val:
  assumes "length x = 32"
  obtains w where "fe_SetBytes x = Inr (Some w, None)" "fe_canonical w" "fe_nat w = le_val x mod 2 ^ 255"
proof -
  define N where "N = le_val x"
  obtain w0 where 0: "le_field x 0 8 0 = Inr w0" "unat w0 = N div 2 ^ 0 mod 2 ^ 51" using le_field_val [OF assms, of 8 0 0] by (auto simp: N_def)
  obtain w1 where 1: "le_field x 6 14 3 = Inr w1" "unat w1 = N div 2 ^ 51 mod 2 ^ 51" using le_field_val [OF assms, of 14 6 3] by (auto simp: N_def)
  obtain w2 where 2: "le_field x 12 20 6 = Inr w2" "unat w2 = N div 2 ^ 102 mod 2 ^ 51" using le_field_val [OF assms, of 20 12 6] by (auto simp: N_def)
  obtain w3 where 3: "le_field x 19 27 1 = Inr w3" "unat w3 = N div 2 ^ 153 mod 2 ^ 51" using le_field_val [OF assms, of 27 19 1] by (auto simp: N_def)
  obtain w4 where 4: "le_field x 24 32 12 = Inr w4" "unat w4 = N div 2 ^ 204 mod 2 ^ 51" using le_field_val [OF assms, of 32 24 12] by (auto simp: N_def)
  define w where "w = \<lparr>l0 = w0, l1 = w1, l2 = w2, l3 = w3, l4 = w4\<rparr>"
  have "fe_SetBytes x = Inr (Some w, None)" using assms 0 1 2 3 4 by (simp add: fe_SetBytes_def w_def)
  moreover have "fe_canonical w" by (simp add: fe_canonical_def w_def 0 1 2 3 4)
  moreover have "fe_nat w = N mod 2 ^ 255"
  proof -
    define N1 N2 N3 N4 N5 where n: "N1 = N div 2 ^ 51" "N2 = N1 div 2 ^ 51" "N3 = N2 div 2 ^ 51" "N4 = N3 div 2 ^ 51" "N5 = N4 div 2 ^ 51"
    have d: "N div 2 ^ 102 = N2" "N div 2 ^ 153 = N3" "N div 2 ^ 204 = N4" unfolding n by (simp_all flip: div_mult2_eq)
    have ws: "unat w0 = N mod 2 ^ 51" "unat w1 = N1 mod 2 ^ 51" "unat w2 = N2 mod 2 ^ 51" "unat w3 = N3 mod 2 ^ 51" "unat w4 = N4 mod 2 ^ 51"
      using 0 1 2 3 4 unfolding d n(1) by simp_all
    have "N = N1 * 2 ^ 51 + unat w0" "N1 = N2 * 2 ^ 51 + unat w1" "N2 = N3 * 2 ^ 51 + unat w2" "N3 = N4 * 2 ^ 51 + unat w3" "N4 = N5 * 2 ^ 51 + unat w4"
      unfolding ws n by (rule div_mult_mod_eq [symmetric])+
    then have "N = fe_nat w + N5 * 2 ^ 255" by (simp add: fe_nat_def w_def)
    moreover have "fe_nat w < 2 ^ 255"
      using \<open>fe_canonical w\<close> unfolding fe_canonical_def fe_nat_def by simp
    ultimately show ?thesis by simp
  qed
  ultimately show thesis using that by (simp add: N_def)
qed

lemma xor_zero: "a XOR b = 0 \<longleftrightarrow> a = (b :: 'a::len word)"
proof
  assume h: "a XOR b = 0"
  have "bit a n = bit b n" for n using arg_cong [OF h, of "\<lambda>w. bit w n"] by (simp add: bit_xor_iff)
  then show "a = b" by (simp add: bit_eq_iff)
qed simp

lemma fold_xor_zero:
  "fold (\<lambda>i v. v OR (x ! i XOR y ! i)) is (a :: byte) = 0 \<longleftrightarrow> a = 0 \<and> (\<forall>i\<in>set is. x ! i = y ! i)"
proof (induction "is" arbitrary: a)
  case (Cons i "is")
  have "a OR (x ! i XOR y ! i) = 0 \<longleftrightarrow> a = 0 \<and> x ! i = y ! i"
    by (simp add: or_eq_0_iff xor_zero)
  then show ?case using Cons by auto
qed simp

lemma ConstantTimeCompare_iff: "length x = length y \<Longrightarrow> ConstantTimeCompare x y = of_bool (x = y)"
proof -
  assume l: "length x = length y"
  have "fold (\<lambda>i v. v OR (x ! i XOR y ! i)) [0..<length x] (0 :: byte) = 0 \<longleftrightarrow> x = y"
    unfolding fold_xor_zero using nth_equalityI [OF l] by auto
  then show ?thesis using l by (simp only: ConstantTimeCompare_def ByteEq_def simp_thms if_False)
qed

lemma fe_Equal_val: "fe_Equal v u = Inr (of_bool (fe_val v = fe_val u))"
proof -
  obtain b where b: "fe_Bytes u = Inr b" "length b = 32" "int (le_val b) = fe_val u" by (rule fe_Bytes_val)
  obtain c where c: "fe_Bytes v = Inr c" "length c = 32" "int (le_val c) = fe_val v" by (rule fe_Bytes_val)
  have "b = c \<longleftrightarrow> fe_val v = fe_val u" using le_val_inject [of b c] b c by auto
  then show ?thesis using b c by (simp add: fe_Equal_def ConstantTimeCompare_iff)
qed

lemma fe_IsNegative_val: "fe_IsNegative v = Inr (nat (fe_val v mod 2))"
proof -
  obtain b where b: "fe_Bytes v = Inr b" "length b = 32" "int (le_val b) = fe_val v" by (rule fe_Bytes_val)
  obtain a as where as: "b = a # as" using b(2) by (cases b) auto
  have "unat (a AND 1) = unat a mod 2" using unat_and_mask [of a 1] by simp
  also have "\<dots> = le_val b mod 2" by (simp add: as mod_add_eq) presburger
  finally have "unat (a AND 1) = le_val b mod 2" .
  moreover have "nat (fe_val v mod 2) = le_val b mod 2" using b(3) by (metis nat_int of_nat_mod of_nat_numeral)
  ultimately show ?thesis using b(1) by (simp add: fe_IsNegative_def as)
qed

lemma fe_Select_val: "fe_Select a b 1 = a" "fe_Select a b 0 = b"
  by (simp_all add: fe_Select_def mask64Bits_def Let_def)

lemma fe_Swap_val: "fe_Swap v u 1 = (u, v)" "fe_Swap v u 0 = (v, u)"
proof -
  have "v0 XOR (v0 XOR u0) = u0" "u0 XOR (v0 XOR u0) = v0" for v0 u0 :: uint64
    by (auto intro!: bit_eqI simp: bit_simps)
  then show "fe_Swap v u 1 = (u, v)" "fe_Swap v u 0 = (v, u)" by (simp_all add: fe_Swap_def mask64Bits_def Let_def)
qed



section \<open>Powers\<close>

abbreviation P25519 :: int where "P25519 \<equiv> int p25519"

definition fe_pow :: "fe \<Rightarrow> fe \<Rightarrow> nat \<Rightarrow> bool" where
  "fe_pow z t e \<longleftrightarrow> fe_ok t \<and> fe_val t = fe_val z ^ e mod P25519"

lemma fe_val_mod [simp]: "fe_val z mod P25519 = fe_val z"
  by (simp add: fe_val_def)

lemma pow_self: "fe_ok z \<Longrightarrow> fe_pow z z 1"
  by (simp add: fe_pow_def)

lemma pow_mult:
  assumes "fe_pow z s e" "fe_pow z t f"
  shows "fe_pow z (fe_Multiply s t) (e + f)"
  using assms feMulGeneric_val [of s t] by (simp add: fe_pow_def fe_Multiply_def power_add mod_mult_eq)

lemma pow_square: "fe_pow z t e \<Longrightarrow> fe_pow z (fe_Square t) (2 * e)"
  using feSquareGeneric_val [of t] by (simp add: fe_pow_def fe_Square_def mult_2 power_add mod_mult_eq)

lemma pow_iter: "fe_pow z t e \<Longrightarrow> fe_pow z ((fe_Square ^^ n) t) (2 ^ n * e)"
  by (induction n) (auto dest: pow_square simp: mult.assoc)

lemma Invert_pow:
  assumes "fe_ok z"
  shows "fe_pow z (fe_Invert z) (2 ^ 255 - 21)"
proof -
  note z = pow_self [OF assms]
  note z2 = pow_square [OF z]
  note z9 = pow_mult [OF pow_square [OF pow_square [OF z2]] z]
  note z11 = pow_mult [OF z9 z2]
  note z5 = pow_mult [OF pow_square [OF z11] z9]
  note z10 = pow_mult [OF pow_iter [OF pow_square [OF z5], of 4] z5]
  note z20 = pow_mult [OF pow_iter [OF pow_square [OF z10], of 9] z10]
  note z40 = pow_mult [OF pow_iter [OF pow_square [OF z20], of 19] z20]
  note z50 = pow_mult [OF pow_iter [OF pow_square [OF z40], of 9] z10]
  note z100 = pow_mult [OF pow_iter [OF pow_square [OF z50], of 49] z50]
  note z200 = pow_mult [OF pow_iter [OF pow_square [OF z100], of 99] z100]
  note z250 = pow_mult [OF pow_iter [OF pow_square [OF z200], of 49] z50]
  note z255 = pow_square [OF pow_square [OF pow_square [OF pow_square [OF pow_square [OF z250]]]]]
  show ?thesis using pow_mult [OF z255 z11] unfolding fe_Invert_def Let_def by simp
qed

lemma Pow22523_pow:
  assumes "fe_ok z"
  shows "fe_pow z (fe_Pow22523 z) (2 ^ 252 - 3)"
proof -
  note z = pow_self [OF assms]
  note z2 = pow_square [OF z]
  note z9 = pow_mult [OF z pow_square [OF pow_square [OF z2]]]
  note z11 = pow_mult [OF z2 z9]
  note z5 = pow_mult [OF z9 pow_square [OF z11]]
  note z10 = pow_mult [OF pow_iter [OF pow_square [OF z5], of 4] z5]
  note z20 = pow_mult [OF pow_iter [OF pow_square [OF z10], of 9] z10]
  note z40 = pow_mult [OF pow_iter [OF pow_square [OF z20], of 19] z20]
  note z50 = pow_mult [OF pow_iter [OF pow_square [OF z40], of 9] z10]
  note z100 = pow_mult [OF pow_iter [OF pow_square [OF z50], of 49] z50]
  note z200 = pow_mult [OF pow_iter [OF pow_square [OF z100], of 99] z100]
  note z250 = pow_mult [OF pow_iter [OF pow_square [OF z200], of 49] z50]
  show ?thesis using pow_mult [OF pow_square [OF pow_square [OF z250]] z] unfolding fe_Pow22523_def Let_def by simp
qed

section \<open>Square roots\<close>

lemma Multiply_val: "fe_ok a \<Longrightarrow> fe_ok b \<Longrightarrow> fe_ok (fe_Multiply a b) \<and> fe_val (fe_Multiply a b) = fe_val a * fe_val b mod P25519"
  by (simp add: fe_Multiply_def feMulGeneric_val)

lemma Square_val: "fe_ok a \<Longrightarrow> fe_ok (fe_Square a) \<and> fe_val (fe_Square a) = fe_val a * fe_val a mod P25519"
  by (simp add: fe_Square_def feSquareGeneric_val)

lemma sqrtM1_val: "fe_ok sqrtM1" "fe_val sqrtM1 * fe_val sqrtM1 mod P25519 = - 1 mod P25519"
  by (simp_all add: sqrtM1_def fe_ok_def fe_val_def fe_nat_def p25519_def)

lemma p25519_facts: "odd P25519" "0 < P25519"
  by (simp_all add: p25519_def)

lemma fe_val_range: "0 \<le> fe_val v" "fe_val v < P25519"
  using p25519_facts(2) by (simp_all add: fe_val_def)

lemma Absolute_val:
  assumes "fe_ok u"
  obtains r where "fe_Absolute u = Inr r" "fe_ok r" "even (fe_val r)" "fe_val r = fe_val u \<or> fe_val r = - fe_val u mod P25519"
proof (cases "even (fe_val u)")
  case True
  then have "fe_Absolute u = Inr u" by (simp add: fe_Absolute_def fe_IsNegative_val fe_Select_val even_iff_mod_2_eq_zero)
  then show thesis using that assms True by blast
next
  case False
  then have "fe_Absolute u = Inr (fe_Negate u)" using fe_Select_val(1) by (simp add: fe_Absolute_def fe_IsNegative_val odd_iff_mod_2_eq_one)
  moreover have "fe_val (fe_Negate u) = - fe_val u mod P25519" "fe_ok (fe_Negate u)" using Negate_val [OF assms] by simp_all
  moreover have "- fe_val u mod P25519 = P25519 - fe_val u"
    using False fe_val_range [of u] by (subst zmod_zminus1_eq_if) auto
  moreover have "even (P25519 - fe_val u)" using False p25519_facts(1) by simp
  ultimately show thesis using that by metis
qed

text \<open>The run of \<open>SqrtRatio\<close>: the candidate \<open>R\<close>, what is checked of it and what is made of it.\<close>

lemma SqrtRatio_run:
  assumes u: "fe_ok u" and v: "fe_ok v"
  obtains r w R C where "fe_SqrtRatio u v = Inr (r, w)" "fe_ok r" "even (fe_val r)"
    "R = fe_val u * fe_val v ^ 3 * (fe_val u * fe_val v ^ 7) ^ (2 ^ 252 - 3) mod P25519" "C = fe_val v * (R * R) mod P25519"
    "w = of_bool (C = fe_val u \<or> C = - fe_val u mod P25519)" "R = 0 \<Longrightarrow> fe_val r = 0"
    "fe_val v * (fe_val r * fe_val r) mod P25519 =
      (if C = - fe_val u mod P25519 \<or> C = - (fe_val u * fe_val sqrtM1) mod P25519 then - C else C) mod P25519"
proof -
  define v2 where "v2 = fe_Square v"
  define uv3 where "uv3 = fe_Multiply u (fe_Multiply v2 v)"
  define uv7 where "uv7 = fe_Multiply uv3 (fe_Square v2)"
  define rr where "rr = fe_Multiply uv3 (fe_Pow22523 uv7)"
  define check where "check = fe_Multiply v (fe_Square rr)"
  have ok: "fe_ok v2" "fe_ok uv3" "fe_ok uv7" "fe_ok (fe_Pow22523 uv7)" "fe_ok rr" "fe_ok check"
  proof -
    show 1: "fe_ok v2" using Square_val v by (simp add: v2_def)
    show 2: "fe_ok uv3" using Multiply_val u v 1 by (simp add: uv3_def)
    show 3: "fe_ok uv7" using Multiply_val Square_val 1 2 by (simp add: uv7_def)
    show 4: "fe_ok (fe_Pow22523 uv7)" using Pow22523_pow [OF 3] by (simp add: fe_pow_def)
    show 5: "fe_ok rr" using Multiply_val 2 4 by (simp add: rr_def)
    show "fe_ok check" using Multiply_val Square_val 5 v by (simp add: check_def)
  qed
  define C U V R I where cs: "C = fe_val check" "U = fe_val u" "V = fe_val v" "R = fe_val rr" "I = fe_val sqrtM1"
  define c1 where "c1 \<longleftrightarrow> C = U"
  define c2 where "c2 \<longleftrightarrow> C = - U mod P25519"
  define c3 where "c3 \<longleftrightarrow> C = (- U mod P25519) * I mod P25519"
  have C: "C = V * (R * R) mod P25519"
    using Multiply_val [OF v, of "fe_Square rr"] Square_val [OF ok(5)] by (simp add: check_def cs mod_mult_right_eq)
  have Rval: "R = U * V ^ 3 * (U * V ^ 7) ^ (2 ^ 252 - 3) mod P25519"
  proof -
    have 2: "fe_val v2 = V ^ 2 mod P25519" using Square_val [OF v] by (simp add: v2_def cs power2_eq_square)
    have 3: "fe_val uv3 = U * V ^ 3 mod P25519"
      using Multiply_val [OF u, of "fe_Multiply v2 v"] Multiply_val [OF ok(1) v] 2
      by (simp add: uv3_def cs mod_mult_right_eq mod_mult_left_eq power2_eq_square power3_eq_cube)
    have "fe_val uv7 = (U * V ^ 3 mod P25519) * ((V ^ 2 mod P25519) * (V ^ 2 mod P25519) mod P25519) mod P25519"
      using Multiply_val [OF ok(2), of "fe_Square v2"] Square_val [OF ok(1)] 2 3 by (simp add: uv7_def)
    also have "\<dots> = U * V ^ 3 * (V ^ 2 * V ^ 2) mod P25519" by (simp add: mod_mult_eq)
    also have "U * V ^ 3 * (V ^ 2 * V ^ 2) = U * V ^ 7" by (simp add: mult.assoc flip: power_add)
    finally have 7: "fe_val uv7 = U * V ^ 7 mod P25519" .
    have "R = fe_val uv3 * (fe_val uv7 ^ (2 ^ 252 - 3) mod P25519) mod P25519"
      using Multiply_val [OF ok(2,4)] Pow22523_pow [OF ok(3)] by (simp only: rr_def cs fe_pow_def)
    then show ?thesis unfolding 3 7 power_mod by (simp only: mod_mult_eq)
  qed
  have eqs: "fe_Equal check u = Inr (of_bool c1)" "fe_Equal check (fe_Negate u) = Inr (of_bool c2)"
    "fe_Equal check (fe_Multiply (fe_Negate u) sqrtM1) = Inr (of_bool c3)"
    using Negate_val [OF u] Multiply_val [of "fe_Negate u" sqrtM1] sqrtM1_val(1)
    by (simp_all add: fe_Equal_val c1_def c2_def c3_def cs)
  define s where "s = (if c2 \<or> c3 then fe_Multiply rr sqrtM1 else rr)"
  have sel: "fe_Select (fe_Multiply rr sqrtM1) rr (of_bool c2 OR of_bool c3) = s"
    using fe_Select_val by (auto simp: s_def)
  have s_ok: "fe_ok s" using Multiply_val [OF ok(5) sqrtM1_val(1)] ok(5) by (simp add: s_def)
  obtain r where r: "fe_Absolute s = Inr r" "fe_ok r" "even (fe_val r)" "fe_val r = fe_val s \<or> fe_val r = - fe_val s mod P25519"
    using Absolute_val [OF s_ok] by metis
  have res: "fe_SqrtRatio u v = Inr (r, of_bool c1 OR of_bool c2)"
    unfolding fe_SqrtRatio_def Let_def v2_def [symmetric] uv3_def [symmetric] uv7_def [symmetric] rr_def [symmetric] check_def [symmetric]
    by (simp add: eqs sel r(1))
  have sq: "V * (fe_val r * fe_val r) mod P25519 = (if c2 \<or> c3 then - C else C) mod P25519"
  proof -
    have "fe_val r * fe_val r mod P25519 = fe_val s * fe_val s mod P25519"
      using r(4) by (auto simp: mod_mult_eq) 
    then have "V * (fe_val r * fe_val r) mod P25519 = V * (fe_val s * fe_val s) mod P25519" by (metis mod_mult_right_eq)
    also have "\<dots> = (if c2 \<or> c3 then - C else C) mod P25519"
    proof (cases "c2 \<or> c3")
      case True
      then have s: "fe_val s = R * I mod P25519" using Multiply_val [OF ok(5) sqrtM1_val(1)] by (simp add: s_def cs)
      have "V * (fe_val s * fe_val s) mod P25519 = V * (R * I * (R * I)) mod P25519" unfolding s by (metis mod_mult_eq mod_mult_right_eq)
      also have "\<dots> = (V * (R * R)) * (I * I) mod P25519" by (simp add: algebra_simps)
      also have "\<dots> = (V * (R * R) mod P25519) * (I * I mod P25519) mod P25519" by (rule mod_mult_eq [symmetric])
      also have "\<dots> = C * (- 1 mod P25519) mod P25519" using sqrtM1_val(2) by (simp add: C cs)
      also have "\<dots> = - C mod P25519" by (simp add: mod_mult_right_eq)
      finally show ?thesis using True by simp
    next
      case False
      then show ?thesis using C by (simp add: s_def cs)
    qed
    finally show ?thesis .
  qed
  have c3: "c3 \<longleftrightarrow> C = - (U * I) mod P25519" by (simp add: c3_def mod_mult_left_eq)
  have R0: "fe_val r = 0" if "R = 0"
  proof -
    have "fe_val s = 0" using that Multiply_val [OF ok(5) sqrtM1_val(1)] by (simp add: s_def cs)
    then show ?thesis using r(4) by auto
  qed
  show thesis
  proof (rule that [OF res r(2,3)])
    show "R = fe_val u * fe_val v ^ 3 * (fe_val u * fe_val v ^ 7) ^ (2 ^ 252 - 3) mod P25519" using Rval by (simp only: cs)
    show "C = fe_val v * (R * R) mod P25519" using C by (simp only: cs)
    show "(of_bool c1 OR of_bool c2 :: nat) = of_bool (C = fe_val u \<or> C = - fe_val u mod P25519)"
      by (simp add: c1_def c2_def cs)
    show "R = 0 \<Longrightarrow> fe_val r = 0" by (rule R0)
    show "fe_val v * (fe_val r * fe_val r) mod P25519 =
        (if C = - fe_val u mod P25519 \<or> C = - (fe_val u * fe_val sqrtM1) mod P25519 then - C else C) mod P25519"
      using sq by (simp only: c2_def c3 cs)
  qed
qed


section \<open>The integers modulo the prime are a field\<close>

lemma p25519_prime: "nprime p25519"
  using prime_p25519 by (simp add: p25519_def)

lemma field_dvd_mult: "P25519 dvd a * b \<longleftrightarrow> P25519 dvd a \<or> P25519 dvd b"
proof -
  have abs: "P25519 dvd c \<longleftrightarrow> p25519 dvd nat \<bar>c\<bar>" for c
    by (metis abs_ge_zero dvd_abs_iff int_dvd_int_iff nat_0_le)
  have "p25519 dvd nat \<bar>a\<bar> * nat \<bar>b\<bar> \<longleftrightarrow> p25519 dvd nat \<bar>a\<bar> \<or> p25519 dvd nat \<bar>b\<bar>"
    using nprime_dvd_mult [OF p25519_prime] dvd_mult dvd_mult2 by blast
  then show ?thesis by (simp only: abs abs_mult nat_mult_distrib [OF abs_ge_zero])
qed

lemma field_fermat:
  assumes "\<not> P25519 dvd a"
  shows "a ^ (p25519 - 1) mod P25519 = 1"
proof -
  define b where "b = nat (a mod P25519)"
  have b: "int b = a mod P25519" using p25519_facts(2) by (simp add: b_def)
  then have "\<not> p25519 dvd b" using assms by (metis dvd_mod_iff dvd_refl int_dvd_int_iff)
  then have "int (b ^ (p25519 - 1) mod p25519) = int 1" using fermat [OF p25519_prime] by simp
  then show ?thesis by (simp only: zmod_int of_nat_power b power_mod of_nat_1)
qed

lemma field_root:
  assumes "x * x mod P25519 = y * y mod P25519"
  shows "x mod P25519 = y mod P25519 \<or> x mod P25519 = - y mod P25519"
proof -
  have "P25519 dvd (x - y) * (x + y)" using assms by (simp add: mod_eq_dvd_iff algebra_simps)
  then have "P25519 dvd x - y \<or> P25519 dvd x - - y" by (simp add: field_dvd_mult)
  then show ?thesis by (simp only: mod_eq_dvd_iff)
qed

lemma field_cancel:
  assumes "\<not> P25519 dvd c" "c * a mod P25519 = c * b mod P25519"
  shows "a mod P25519 = b mod P25519"
proof -
  have "P25519 dvd c * (a - b)" using assms(2) by (simp add: mod_eq_dvd_iff right_diff_distrib)
  then show ?thesis using assms(1) by (simp add: field_dvd_mult mod_eq_dvd_iff)
qed

lemma fe_val_zero: "P25519 dvd fe_val v \<longleftrightarrow> fe_val v = 0"
  by (simp add: dvd_eq_mod_eq_0)

text \<open>Euler's criterion for \<open>T\<close>: its power to a quarter of \<open>p - 1\<close> is a fourth root of one.\<close>

lemma quarter_power:
  assumes "\<not> P25519 dvd T"
  defines "X \<equiv> T ^ (2 ^ 253 - 5)"
  shows "X * X mod P25519 = 1 \<or> X * X mod P25519 = - 1 mod P25519"
proof -
  have "X * X * (X * X) = T ^ ((2 ^ 253 - 5) + (2 ^ 253 - 5) + ((2 ^ 253 - 5) + (2 ^ 253 - 5)))"
    unfolding X_def by (simp only: power_add)
  also have "(2 ^ 253 - 5) + (2 ^ 253 - 5) + ((2 ^ 253 - 5) + (2 ^ 253 - 5)) = p25519 - 1" by (simp add: p25519_def)
  finally have "(X * X) * (X * X) mod P25519 = 1 * 1 mod P25519" using field_fermat [OF assms(1)] by (simp add: p25519_def)
  from field_root [OF this] show ?thesis by (simp add: p25519_def)
qed

lemma quarter_power_square:
  assumes "\<not> P25519 dvd a"
  shows "(a * a) ^ (2 ^ 253 - 5) * (a * a) ^ (2 ^ 253 - 5) mod P25519 = 1"
proof -
  have "(a * a) ^ (2 ^ 253 - 5) * (a * a) ^ (2 ^ 253 - 5) = a ^ ((2 ^ 253 - 5) + (2 ^ 253 - 5) + ((2 ^ 253 - 5) + (2 ^ 253 - 5)))"
    by (simp only: power_add power_mult_distrib mult.assoc)
  also have "(2 ^ 253 - 5) + (2 ^ 253 - 5) + ((2 ^ 253 - 5) + (2 ^ 253 - 5)) = p25519 - 1" by (simp add: p25519_def)
  finally show ?thesis using field_fermat [OF assms] by simp
qed

section \<open>Squares and their roots\<close>

text \<open>The candidate that \<open>SqrtRatio\<close> checks, up to the fourth root of one.\<close>

lemma candidate:
  assumes "R = U * V ^ 3 * (U * V ^ 7) ^ (2 ^ 252 - 3) mod P25519"
  shows "V * (R * R) mod P25519 = U * (U * V ^ 7) ^ (2 ^ 253 - 5) mod P25519"
proof -
  define E where "E = (U * V ^ 7) ^ (2 ^ 252 - 3)"
  have "V * (R * R) mod P25519 = V * ((U * V ^ 3 * E) * (U * V ^ 3 * E)) mod P25519"
    unfolding assms E_def [symmetric] by (metis mod_mult_eq mod_mult_right_eq)
  also have "V * ((U * V ^ 3 * E) * (U * V ^ 3 * E)) = U * ((U * (V * (V ^ 3 * V ^ 3))) * E * E)" by (simp only: ac_simps)
  also have "V * (V ^ 3 * V ^ 3) = V ^ 7" by (simp flip: power_add power_Suc)
  also have "U * V ^ 7 * E * E = (U * V ^ 7) ^ (1 + (2 ^ 252 - 3) + (2 ^ 252 - 3))" unfolding E_def by (simp only: power_add power_one_right)
  also have "1 + (2 ^ 252 - 3) + (2 ^ 252 - 3) = (2 ^ 253 - 5 :: nat)" by simp
  finally show ?thesis .
qed

lemma SqrtRatio_exact:
  assumes u: "fe_ok u" and v: "fe_ok v"
  shows "\<exists>r w. fe_SqrtRatio u v = Inr (r, w) \<and> fe_ok r \<and> even (fe_val r) \<and>
    (if \<exists>a. fe_val v * (a * a) mod P25519 = fe_val u
     then w = 1 \<and> fe_val v * (fe_val r * fe_val r) mod P25519 = fe_val u
     else w = 0 \<and> (if fe_val v = 0 then fe_val r = 0
       else fe_val v * (fe_val r * fe_val r) mod P25519 = fe_val sqrtM1 * fe_val u mod P25519))"
proof -
  define U V I where cs: "U = fe_val u" "V = fe_val v" "I = fe_val sqrtM1"
  obtain r w R C where run: "fe_SqrtRatio u v = Inr (r, w)" "fe_ok r" "even (fe_val r)"
    and R: "R = U * V ^ 3 * (U * V ^ 7) ^ (2 ^ 252 - 3) mod P25519" and C: "C = V * (R * R) mod P25519"
    and w: "w = of_bool (C = U \<or> C = - U mod P25519)" and R0: "R = 0 \<Longrightarrow> fe_val r = 0"
    and sq: "V * (fe_val r * fe_val r) mod P25519 =
      (if C = - U mod P25519 \<or> C = - (U * I) mod P25519 then - C else C) mod P25519"
    using SqrtRatio_run [OF assms] unfolding cs by metis
  define X where "X = (U * V ^ 7) ^ (2 ^ 253 - 5)"
  have CX: "C = U * X mod P25519" using candidate [OF R] C by (simp only: X_def)
  have mods: "U mod P25519 = U" "V mod P25519 = V" "C mod P25519 = C" by (simp_all add: cs CX)
  have II: "I * I mod P25519 = - 1 mod P25519" using sqrtM1_val(2) by (simp only: cs)
  have one: "1 mod P25519 = 1" "- 1 mod P25519 \<noteq> 1" by (simp_all add: p25519_def)
  have I0: "\<not> P25519 dvd I" using II by (auto simp: p25519_def)
  have zero: "P25519 dvd U \<longleftrightarrow> U = 0" "P25519 dvd V \<longleftrightarrow> V = 0" by (simp_all add: cs fe_val_zero)
  have root: "V * (fe_val r * fe_val r) mod P25519 = U" if "C = U \<or> C = - U mod P25519"
  proof (cases "C = - U mod P25519")
    case True
    then have "- C mod P25519 = U" using mods(1) by (simp add: mod_minus_eq)
    then show ?thesis using sq True by simp
  next
    case False
    then have CU: "C = U" using that by simp
    show ?thesis
    proof (cases "C = - (U * I) mod P25519")
      case True
      then have eq: "U * 1 mod P25519 = U * - I mod P25519" using CU mods(1) by simp
      have "U = 0"
      proof (rule ccontr)
        assume "U \<noteq> 0"
        then have "1 mod P25519 = - I mod P25519" using field_cancel [OF _ eq] zero by simp
        then have "I * I mod P25519 = 1 mod P25519" by (metis minus_mult_minus mod_mult_eq mult_1)
        then show False using II one by simp
      qed
      then show ?thesis using sq CU by simp
    next
      case c: False
      then show ?thesis using sq False CU mods(1) by simp
    qed
  qed
  have main: "if \<exists>a. V * (a * a) mod P25519 = U then w = 1 \<and> V * (fe_val r * fe_val r) mod P25519 = U
     else w = 0 \<and> (if V = 0 then fe_val r = 0 else V * (fe_val r * fe_val r) mod P25519 = I * U mod P25519)"
  proof (cases "U = 0 \<or> V = 0")
    case True
    then have C0: "C = 0" using C CX by auto
    show ?thesis
    proof (cases "U = 0")
      case True
      then have "w = 1" "V * (fe_val r * fe_val r) mod P25519 = U" using w root C0 by simp_all
      then show ?thesis by (metis (no_types, lifting))
    next
      case False
      then have V: "V = 0" using True by simp
      then have "R = 0" using R by simp
      moreover have "C \<noteq> - U mod P25519" using False mods(1) C0 zero(1) by (simp add: dvd_eq_mod_eq_0 [symmetric])
      ultimately show ?thesis using R0 w C0 False V by simp
    qed
  next
    case False
    then have T: "\<not> P25519 dvd U * V ^ 7" by (simp add: field_dvd_mult zero power_numeral_reduce)
    have UX: "C = U * Y mod P25519 \<Longrightarrow> X mod P25519 = Y mod P25519" for Y
      using field_cancel [of U X Y] CX False zero by simp
    consider "X * X mod P25519 = 1" | "X * X mod P25519 = - 1 mod P25519"
      using quarter_power [OF T] unfolding X_def by blast
    then show ?thesis
    proof cases
      case 1
      then have "X mod P25519 = 1 mod P25519 \<or> X mod P25519 = - 1 mod P25519" using field_root [of X 1] one by simp
      then have "C = U \<or> C = - U mod P25519" using CX mods(1) by (metis mod_mult_right_eq mult.right_neutral mult_minus1_right)
      then have "w = 1" "V * (fe_val r * fe_val r) mod P25519 = U" using w root by simp_all
      then show ?thesis by (metis (no_types, lifting))
    next
      case 2
      have no: "C \<noteq> U \<and> C \<noteq> - U mod P25519"
      proof (rule ccontr)
        assume "\<not> (C \<noteq> U \<and> C \<noteq> - U mod P25519)"
        then have "C = U * 1 mod P25519 \<or> C = U * - 1 mod P25519" using mods(1) by auto
        then have "X mod P25519 = 1 mod P25519 \<or> X mod P25519 = - 1 mod P25519" using UX by blast
        then have "X * X mod P25519 = 1 * 1 mod P25519 \<or> X * X mod P25519 = - 1 * - 1 mod P25519" by (metis mod_mult_eq)
        then show False using 2 one by simp
      qed
      have "X * X mod P25519 = I * I mod P25519" using 2 II by simp
      then have XI: "X mod P25519 = I mod P25519 \<or> X mod P25519 = - I mod P25519" by (rule field_root)
      have "(if C = - (U * I) mod P25519 then - C else C) mod P25519 = I * U mod P25519"
      proof (cases "C = - (U * I) mod P25519")
        case True
        then show ?thesis by (simp add: mod_minus_eq mult.commute)
      next
        case False
        then have "X mod P25519 = I mod P25519" using XI CX by (metis mod_mult_right_eq mult_minus_right)
        then have "C = U * I mod P25519" using CX by (metis mod_mult_right_eq)
        then show ?thesis using False by (simp add: mult.commute)
      qed
      then have rt: "V * (fe_val r * fe_val r) mod P25519 = I * U mod P25519" using sq no by simp
      have "\<nexists>a. V * (a * a) mod P25519 = U"
      proof
        assume "\<exists>a. V * (a * a) mod P25519 = U"
        then obtain a where a: "V * (a * a) mod P25519 = U" by blast
        define b where "b = V ^ 4 * a"
        have "U * V ^ 7 mod P25519 = V * (a * a) * V ^ 7 mod P25519" using a by (metis mod_mult_left_eq)
        also have "V * (a * a) * V ^ 7 = b * b" by (simp add: b_def power_numeral_reduce ac_simps)
        finally have Tb: "U * V ^ 7 mod P25519 = b * b mod P25519" .
        then have "\<not> P25519 dvd b" using T by (metis dvd_mod_iff dvd_mult dvd_refl)
        then have "(b * b) ^ (2 ^ 253 - 5) * (b * b) ^ (2 ^ 253 - 5) mod P25519 = 1" by (rule quarter_power_square)
        moreover have "(b * b) ^ (2 ^ 253 - 5) mod P25519 = X mod P25519" unfolding X_def using Tb by (metis power_mod)
        ultimately have "X * X mod P25519 = 1" by (metis mod_mult_eq)
        then show False using 2 one by simp
      qed
      then show ?thesis using w no rt False by simp
    qed
  qed
  show ?thesis using run main unfolding cs by blast
qed

section \<open>Limbs that wrap around\<close>

text \<open>
  \<open>Subtract\<close> within the documented bound, limbs below \<open>2 ^ 52\<close>: a limb of \<open>b\<close> above the one of \<open>a\<close>
  and the constant wraps around, which adds \<open>2 ^ 64\<close> at its place.
\<close>

definition fe_documented :: "fe \<Rightarrow> bool" where
  "fe_documented v \<longleftrightarrow> l0 v < 2 ^ 52 \<and> l1 v < 2 ^ 52 \<and> l2 v < 2 ^ 52 \<and> l3 v < 2 ^ 52 \<and> l4 v < 2 ^ 52"

definition sub_wraps :: "fe \<Rightarrow> fe \<Rightarrow> bool list" where
  "sub_wraps a b =
     [l0 a + 0xFFFFFFFFFFFDA < l0 b, l1 a + 0xFFFFFFFFFFFFE < l1 b, l2 a + 0xFFFFFFFFFFFFE < l2 b,
      l3 a + 0xFFFFFFFFFFFFE < l3 b, l4 a + 0xFFFFFFFFFFFFE < l4 b]"

fun wrap_sum :: "bool list \<Rightarrow> nat" where
  "wrap_sum [] = 0"
| "wrap_sum (c # cs) = of_bool c * 2 ^ 64 + 2 ^ 51 * wrap_sum cs"

lemma sub_limb:
  fixes x y k :: uint64
  assumes "x < 2 ^ 52" "y < 2 ^ 52" "k < 2 ^ 52"
  shows "unat (x + k - y) + unat y = unat x + unat k + of_bool (x + k < y) * 2 ^ 64"
proof -
  have "unat x < 2 ^ 52" "unat y < 2 ^ 52" "unat k < 2 ^ 52" using assms by (simp_all add: word_less_nat_alt)
  then have "unat (x + k) = unat x + unat k" by (intro unat_add_lt) simp
  then show ?thesis using unat_sub_cases [of "x + k" y] unat64_less [of y] by (auto simp: word_less_nat_alt)
qed

lemma Subtract_wraps:
  assumes "fe_documented a" "fe_documented b"
  shows "fe_val (fe_Subtract a b) = (fe_val a - fe_val b + int (wrap_sum (sub_wraps a b))) mod int p25519"
proof -
  define v where "v = \<lparr>l0 = (l0 a + 0xFFFFFFFFFFFDA) - l0 b, l1 = (l1 a + 0xFFFFFFFFFFFFE) - l1 b,
        l2 = (l2 a + 0xFFFFFFFFFFFFE) - l2 b, l3 = (l3 a + 0xFFFFFFFFFFFFE) - l3 b, l4 = (l4 a + 0xFFFFFFFFFFFFE) - l4 b\<rparr>"
  note A = assms(1) [unfolded fe_documented_def] and B = assms(2) [unfolded fe_documented_def]
  define c0 c1 c2 c3 c4 where c: "c0 \<longleftrightarrow> l0 a + 0xFFFFFFFFFFFDA < l0 b" "c1 \<longleftrightarrow> l1 a + 0xFFFFFFFFFFFFE < l1 b" "c2 \<longleftrightarrow> l2 a + 0xFFFFFFFFFFFFE < l2 b"
      "c3 \<longleftrightarrow> l3 a + 0xFFFFFFFFFFFFE < l3 b" "c4 \<longleftrightarrow> l4 a + 0xFFFFFFFFFFFFE < l4 b"
  have l: "unat (l0 v) + unat (l0 b) = unat (l0 a) + 0xFFFFFFFFFFFDA + of_bool c0 * 2 ^ 64"
    "unat (l1 v) + unat (l1 b) = unat (l1 a) + 0xFFFFFFFFFFFFE + of_bool c1 * 2 ^ 64"
    "unat (l2 v) + unat (l2 b) = unat (l2 a) + 0xFFFFFFFFFFFFE + of_bool c2 * 2 ^ 64"
    "unat (l3 v) + unat (l3 b) = unat (l3 a) + 0xFFFFFFFFFFFFE + of_bool c3 * 2 ^ 64"
    "unat (l4 v) + unat (l4 b) = unat (l4 a) + 0xFFFFFFFFFFFFE + of_bool c4 * 2 ^ 64"
    using sub_limb [of "l0 a" "l0 b" "0xFFFFFFFFFFFDA"] sub_limb [of "l1 a" "l1 b" "0xFFFFFFFFFFFFE"] sub_limb [of "l2 a" "l2 b" "0xFFFFFFFFFFFFE"]
      sub_limb [of "l3 a" "l3 b" "0xFFFFFFFFFFFFE"] sub_limb [of "l4 a" "l4 b" "0xFFFFFFFFFFFFE"] A B
    by (simp_all only: v_def fe.simps c) simp_all
  have v: "fe_nat v + fe_nat b = fe_nat a + 2 * p25519 + wrap_sum (sub_wraps a b)"
    using l unfolding fe_nat_def p25519_def sub_wraps_def c [symmetric] by simp
  have r: "fe_Subtract a b = carryPropagate v" by (simp add: fe_Subtract_def v_def)
  have "fe_val (fe_Subtract a b) = int (fe_nat v) mod int p25519"
    unfolding r by (rule fe_val_eqI [OF carryPropagate_val, where k = 0]) simp
  also have "int (fe_nat v) = int (fe_nat a) - int (fe_nat b) + int (wrap_sum (sub_wraps a b)) + 2 * int p25519" using v by linarith
  also have "\<dots> mod int p25519 = (int (fe_nat a) - int (fe_nat b) + int (wrap_sum (sub_wraps a b))) mod int p25519" by simp
  also have "\<dots> = (fe_val a - fe_val b + int (wrap_sum (sub_wraps a b))) mod int p25519"
    unfolding fe_val_def by (metis mod_add_left_eq mod_diff_eq)
  finally show ?thesis .
qed

lemma wrap_sum_zero: "int p25519 dvd int (wrap_sum (sub_wraps a b)) \<longleftrightarrow> \<not> list_ex id (sub_wraps a b)"
proof -
  have "p25519 dvd wrap_sum [c0, c1, c2, c3, c4] \<longleftrightarrow> \<not> (c0 \<or> c1 \<or> c2 \<or> c3 \<or> c4)" for c0 c1 c2 c3 c4
    by (cases c0; cases c1; cases c2; cases c3; cases c4) (simp_all add: p25519_def dvd_eq_mod_eq_0)
  then show ?thesis by (simp add: sub_wraps_def del: wrap_sum.simps)
qed

lemma Subtract_wraps_iff:
  assumes "fe_documented a" "fe_documented b"
  shows "fe_val (fe_Subtract a b) = (fe_val a - fe_val b) mod int p25519 \<longleftrightarrow> \<not> list_ex id (sub_wraps a b)"
proof -
  have "fe_val (fe_Subtract a b) = (fe_val a - fe_val b) mod int p25519 \<longleftrightarrow> int p25519 dvd int (wrap_sum (sub_wraps a b))"
    unfolding Subtract_wraps [OF assms] mod_eq_dvd_iff by simp
  then show ?thesis unfolding wrap_sum_zero .
qed

section \<open>Properties\<close>

text \<open>C6.
  The operations of a field element compute in the integers modulo the prime.
\<close>

theorem fe_arith:
  assumes "fe_ok a" "fe_ok b"
  shows "fe_val (fe_Add a b) = (fe_val a + fe_val b) mod int p25519 \<and>
    fe_val (fe_Subtract a b) = (fe_val a - fe_val b) mod int p25519 \<and>
    fe_val (fe_Negate a) = (- fe_val a) mod int p25519 \<and>
    fe_val (fe_Multiply a b) = fe_val a * fe_val b mod int p25519 \<and>
    fe_val (fe_Square a) = fe_val a ^ 2 mod int p25519 \<and>
    fe_val (fe_Mult32 a y) = fe_val a * uint y mod int p25519"
  using Add_val [OF assms] Subtract_val [OF assms] Negate_val [OF assms(1)] Multiply_val [OF assms] Square_val [OF assms(1)]
    Mult32_val [OF assms(1), of y] by (simp add: power2_eq_square)

theorem fe_arith_witness:
  "fe_val (fe_Multiply sqrtM1 feOne) = fe_val sqrtM1 * fe_val feOne mod int p25519 \<and>
   fe_val (fe_Subtract sqrtM1 feOne) = (fe_val sqrtM1 - fe_val feOne) mod int p25519"
  using fe_arith [OF sqrtM1_val(1) feOne_ok(1), of 0] by blast

text \<open>C22.
  Every operation gives an element within the bound on the limbs that the operations need.
\<close>

theorem fe_types:
  assumes "fe_ok a" "fe_ok b" "length x = 32"
  shows "fe_ok (fe_Add a b) \<and> fe_ok (fe_Subtract a b) \<and> fe_ok (fe_Negate a) \<and> fe_ok (fe_Multiply a b) \<and> fe_ok (fe_Square a) \<and>
    fe_ok (fe_Mult32 a y) \<and> fe_ok (fe_Invert a) \<and> fe_ok (fe_Pow22523 a) \<and> fe_ok (fe_reduce a) \<and>
    (\<exists>r w. fe_SqrtRatio a b = Inr (r, w) \<and> fe_ok r \<and> w \<le> 1) \<and> (\<exists>r. fe_Absolute a = Inr r \<and> fe_ok r) \<and>
    (\<exists>w. fe_SetBytes x = Inr (Some w, None) \<and> fe_ok w)"
proof -
  have can: "fe_ok w" if "fe_canonical w" for w using that by (simp add: fe_canonical_def fe_ok_def)
  obtain w where "fe_SetBytes x = Inr (Some w, None)" "fe_canonical w"
    using fe_SetBytes_val [OF assms(3)] by metis
  moreover obtain r where "fe_Absolute a = Inr r" "fe_ok r" using Absolute_val [OF assms(1)] by metis
  moreover obtain r' w' where "fe_SqrtRatio a b = Inr (r', w')" "fe_ok r'" "w' \<le> 1" using SqrtRatio_exact [OF assms(1,2)] by (metis le_numeral_extra(3,4) zero_le_one)
  ultimately show ?thesis
    using can fe_reduce_val [of a] Add_val [OF assms(1,2)] Subtract_val [OF assms(1,2)] Negate_val [OF assms(1)] Multiply_val [OF assms(1,2)]
      Square_val [OF assms(1)] Mult32_val [OF assms(1), of y] Invert_pow [OF assms(1)] Pow22523_pow [OF assms(1)]
    by (simp add: fe_pow_def)
qed

theorem fe_types_witness: "fe_ok (fe_Invert sqrtM1) \<and> fe_ok (fe_Subtract sqrtM1 feOne)"
  using fe_types [OF sqrtM1_val(1) feOne_ok(1), of "replicate 32 0" 0] by simp

text \<open>C39.
  The bound that the documentation of the type gives, limbs below \<open>2 ^ 52\<close>, is not enough for
  \<open>Subtract\<close>.  Within it each limb of \<open>b\<close> that is above the limb of \<open>a\<close> plus the constant wraps
  around and adds \<open>2 ^ 64\<close> at its place, and the difference is right exactly when none does.
\<close>

theorem fe_Subtract_documented_bound:
  assumes "fe_documented a" "fe_documented b"
  shows "fe_val (fe_Subtract a b) = (fe_val a - fe_val b + int (wrap_sum (sub_wraps a b))) mod int p25519 \<and>
    (fe_val (fe_Subtract a b) = (fe_val a - fe_val b) mod int p25519 \<longleftrightarrow>
      l0 b \<le> l0 a + 0xFFFFFFFFFFFDA \<and> l1 b \<le> l1 a + 0xFFFFFFFFFFFFE \<and> l2 b \<le> l2 a + 0xFFFFFFFFFFFFE \<and>
      l3 b \<le> l3 a + 0xFFFFFFFFFFFFE \<and> l4 b \<le> l4 a + 0xFFFFFFFFFFFFE)"
  using Subtract_wraps [OF assms] Subtract_wraps_iff [OF assms] by (simp add: sub_wraps_def linorder_not_less)

theorem fe_Subtract_documented_bound_witness:
  "let b = \<lparr>l0 = 0, l1 = 2 ^ 52 - 1, l2 = 0, l3 = 0, l4 = 0\<rparr>
   in fe_val (fe_Negate b) = (2 ^ 115 - fe_val b) mod int p25519 \<and> fe_val (fe_Negate b) \<noteq> (- fe_val b) mod int p25519"
  using fe_Subtract_documented_bound [of feZero "\<lparr>l0 = 0, l1 = 2 ^ 52 - 1, l2 = 0, l3 = 0, l4 = 0\<rparr>"] feZero_ok(2)
  by (simp add: fe_documented_def feZero_def fe_Negate_def sub_wraps_def)

text \<open>C15.
  \<open>Bytes\<close> gives the 32 bytes of the value of the element, the least non-negative residue, in
  little-endian order; \<open>SetBytes\<close> gives the element of any 32 bytes without their top bit, so it
  turns the bytes of an element back into one of the same value, and refuses any other length;
  the encodings below the prime, read by \<open>SetBytes\<close>, are written back unchanged; and \<open>Equal\<close>
  compares the values.
\<close>

theorem fe_encoding:
  "(\<exists>b w. fe_Bytes v = Inr b \<and> length b = 32 \<and> int (le_val b) = fe_val v \<and>
      fe_SetBytes b = Inr (Some w, None) \<and> fe_val w = fe_val v) \<and>
   (if length x = 32
    then \<exists>w. fe_SetBytes x = Inr (Some w, None) \<and> fe_nat w = le_val x mod 2 ^ 255 \<and> (le_val x < p25519 \<longrightarrow> fe_Bytes w = Inr x)
    else \<exists>e. fe_SetBytes x = Inr (None, Some e)) \<and>
   fe_Equal u v = Inr (of_bool (fe_val u = fe_val v))"
proof -
  have small: "n mod 2 ^ 255 = n" if "n < p25519" for n using that by (simp add: p25519_def)
  have val: "fe_val w = int n" if "fe_nat w = n" "n < p25519" for w n
    using that by (simp add: fe_val_def)
  obtain b where b: "fe_Bytes v = Inr b" "length b = 32" "int (le_val b) = fe_val v" by (rule fe_Bytes_val)
  have bp: "le_val b < p25519" using b(3) fe_val_range(2) [of v] by simp
  obtain w where w: "fe_SetBytes b = Inr (Some w, None)" "fe_nat w = le_val b mod 2 ^ 255" using fe_SetBytes_val [OF b(2)] by metis
  have "fe_nat w = le_val b" using w(2) small [OF bp] by simp
  then have wv: "fe_val w = fe_val v" using val [of w "le_val b"] bp b(3) by simp
  have set: "\<exists>w. fe_SetBytes x = Inr (Some w, None) \<and> fe_nat w = le_val x mod 2 ^ 255 \<and> (le_val x < p25519 \<longrightarrow> fe_Bytes w = Inr x)"
    if x: "length x = 32"
  proof -
    obtain w where w: "fe_SetBytes x = Inr (Some w, None)" "fe_nat w = le_val x mod 2 ^ 255" using fe_SetBytes_val [OF x] by metis
    obtain c where c: "fe_Bytes w = Inr c" "length c = 32" "int (le_val c) = fe_val w" by (rule fe_Bytes_val)
    have "c = x" if "le_val x < p25519"
    proof -
      have "fe_nat w = le_val x" using w(2) small [OF that] by simp
      then have "le_val c = le_val x" using c(3) val [of w "le_val x"] that by simp
      then show ?thesis using c(2) x le_val_inject [of c x] by simp
    qed
    then show ?thesis using w c(1) by auto
  qed
  have bad: "\<exists>e. fe_SetBytes x = Inr (None, Some e)" if "length x \<noteq> 32" using that by (simp add: fe_SetBytes_def)
  show ?thesis using b w(1) wv set bad fe_Equal_val [of u v] by auto
qed

theorem fe_encoding_witness:
  "\<exists>w. fe_SetBytes (9 # replicate 31 0) = Inr (Some w, None) \<and> fe_nat w = 9 \<and> fe_Bytes w = Inr (9 # replicate 31 0)"
  using fe_encoding [of feOne "9 # replicate 31 0" feOne] by (simp add: p25519_def le_val_zeros)

text \<open>C24.
  \<open>Invert\<close> raises to the power of the prime minus two, so that the product with the argument is its
  power to the prime minus one; that is one unless the argument is zero, whose inverse is zero.
\<close>

theorem fe_Invert_exact:
  assumes "fe_ok z"
  shows "fe_val (fe_Invert z) = fe_val z ^ (p25519 - 2) mod int p25519 \<and>
    fe_val (fe_Multiply z (fe_Invert z)) = fe_val z ^ (p25519 - 1) mod int p25519 \<and>
    fe_val (fe_Multiply z (fe_Invert z)) = of_bool (fe_val z \<noteq> 0) \<and> (fe_val z = 0 \<longrightarrow> fe_val (fe_Invert z) = 0)"
proof -
  have p: "p25519 - 2 = 2 ^ 255 - 21" "1 + (2 ^ 255 - 21) = p25519 - 1" by (simp_all add: p25519_def)
  have pw: "fe_val (fe_Invert z) = fe_val z ^ (p25519 - 2) mod int p25519"
    "fe_val (fe_Multiply z (fe_Invert z)) = fe_val z ^ (p25519 - 1) mod int p25519"
    using Invert_pow [OF assms] pow_mult [OF pow_self [OF assms] Invert_pow [OF assms]] unfolding fe_pow_def p by blast+
  have pos: "0 < p25519 - 1" "0 < p25519 - 2" by (simp_all add: p25519_def)
  show ?thesis
  proof (cases "fe_val z = 0")
    case True
    show ?thesis unfolding pw True zero_power [OF pos(1)] zero_power [OF pos(2)] by simp
  next
    case False
    then have "fe_val z ^ (p25519 - 1) mod int p25519 = 1" using field_fermat fe_val_zero by blast
    then show ?thesis using pw False by simp
  qed
qed

theorem fe_Invert_exact_witness:
  "fe_val (fe_Multiply sqrtM1 (fe_Invert sqrtM1)) = 1 \<and> fe_val (fe_Invert feZero) = 0"
proof -
  have "fe_val sqrtM1 \<noteq> 0" by (simp add: sqrtM1_def fe_val_def fe_nat_def p25519_def)
  then show ?thesis using fe_Invert_exact [OF sqrtM1_val(1)] fe_Invert_exact [OF feZero_ok(1)] feZero_ok(2) by simp
qed

text \<open>C14.
  \<open>SqrtRatio\<close> reports a square exactly when the ratio of \<open>u\<close> and \<open>v\<close> has a root, that is when \<open>u\<close> is
  \<open>v\<close> times a square.  Its result is non-negative and is that root; otherwise it is the documented
  root of the ratio times the root of minus one, or zero if \<open>v\<close> is.
\<close>

theorem fe_SqrtRatio_exact:
  assumes "fe_ok u" "fe_ok v"
  shows "\<exists>r w. fe_SqrtRatio u v = Inr (r, w) \<and> fe_IsNegative r = Inr 0 \<and>
    (if \<exists>a. fe_val v * a ^ 2 mod int p25519 = fe_val u
     then w = 1 \<and> fe_val v * fe_val r ^ 2 mod int p25519 = fe_val u
     else w = 0 \<and> (if fe_val v = 0 then fe_val r = 0
       else fe_val v * fe_val r ^ 2 mod int p25519 = fe_val sqrtM1 * fe_val u mod int p25519))"
proof -
  have neg: "fe_IsNegative r = Inr 0" if "even (fe_val r)" for r
    using that by (simp add: fe_IsNegative_val even_iff_mod_2_eq_zero)
  show ?thesis using SqrtRatio_exact [OF assms] neg unfolding power2_eq_square by blast
qed

theorem fe_SqrtRatio_exact_witness:
  "\<exists>r. fe_SqrtRatio \<lparr>l0 = 36, l1 = 0, l2 = 0, l3 = 0, l4 = 0\<rparr> \<lparr>l0 = 4, l1 = 0, l2 = 0, l3 = 0, l4 = 0\<rparr> = Inr (r, 1) \<and>
     fe_IsNegative r = Inr 0 \<and> 4 * fe_val r ^ 2 mod int p25519 = 36"
proof -
  let ?u = "\<lparr>l0 = 36, l1 = 0, l2 = 0, l3 = 0, l4 = 0\<rparr> :: fe" and ?v = "\<lparr>l0 = 4, l1 = 0, l2 = 0, l3 = 0, l4 = 0\<rparr> :: fe"
  have ok: "fe_ok ?u" "fe_ok ?v" by (simp_all add: fe_ok_def)
  have val: "fe_val ?u = 36" "fe_val ?v = 4" by (simp_all add: fe_val_def fe_nat_def p25519_def)
  have "\<exists>a. fe_val ?v * a ^ 2 mod int p25519 = fe_val ?u" unfolding val by (rule exI [of _ 3]) (simp add: p25519_def)
  then show ?thesis using fe_SqrtRatio_exact [OF ok] unfolding val by auto
qed

end
