(* ===== verification/Linked_List.thy ===== *)
theory Linked_List
  imports Prelude
begin

text \<open>
  Doubly linked lists (\<open>container/list/list.go\<close>) on an explicit store.  A list is a ring through
  its sentinel \<open>root\<close>, a field of the \<open>List\<close> value itself; a pointer to an element is therefore
  the address of a sentinel or of an element that was allocated.  A nil pointer is \<^const>\<open>None\<close>,
  and following it is a panic.  A value of type \<open>any\<close> is an option, with \<^const>\<open>None\<close> for nil.
\<close>

section \<open>The store\<close>

datatype ref = Root nat | Elem nat

record 'v Element =
  enext :: "ref option"
  eprev :: "ref option"
  elist :: "nat option"
  Value :: "'v option"

text \<open>The elements, the lengths of the lists, and the number of elements allocated so far.\<close>

record 'v list_store =
  cells :: "ref \<Rightarrow> 'v Element"
  lens :: "nat \<Rightarrow> int"
  allocated :: nat

definition deref :: "ref option \<Rightarrow> ref go" where
  "deref p = (case p of None \<Rightarrow> Inl NilPointer | Some r \<Rightarrow> Inr r)"

definition set_next :: "ref \<Rightarrow> ref option \<Rightarrow> 'v list_store \<Rightarrow> 'v list_store" where
  "set_next r p h = h\<lparr>cells := (cells h)(r := (cells h r)\<lparr>enext := p\<rparr>)\<rparr>"

definition set_prev :: "ref \<Rightarrow> ref option \<Rightarrow> 'v list_store \<Rightarrow> 'v list_store" where
  "set_prev r p h = h\<lparr>cells := (cells h)(r := (cells h r)\<lparr>eprev := p\<rparr>)\<rparr>"

definition set_list :: "ref \<Rightarrow> nat option \<Rightarrow> 'v list_store \<Rightarrow> 'v list_store" where
  "set_list r l h = h\<lparr>cells := (cells h)(r := (cells h r)\<lparr>elist := l\<rparr>)\<rparr>"

definition set_len :: "nat \<Rightarrow> int \<Rightarrow> 'v list_store \<Rightarrow> 'v list_store" where
  "set_len l n h = h\<lparr>lens := (lens h)(l := n)\<rparr>"

section \<open>Observers\<close>

definition Element_Next :: "'v list_store \<Rightarrow> ref \<Rightarrow> ref option" where
  "Element_Next h e =
     (let p = enext (cells h e) in
      case elist (cells h e) of
        Some l \<Rightarrow> if p \<noteq> Some (Root l) then p else None
      | None \<Rightarrow> None)"

definition Element_Prev :: "'v list_store \<Rightarrow> ref \<Rightarrow> ref option" where
  "Element_Prev h e =
     (let p = eprev (cells h e) in
      case elist (cells h e) of
        Some l \<Rightarrow> if p \<noteq> Some (Root l) then p else None
      | None \<Rightarrow> None)"

definition List_Len :: "'v list_store \<Rightarrow> nat \<Rightarrow> int" where
  "List_Len h l = lens h l"

definition List_Front :: "'v list_store \<Rightarrow> nat \<Rightarrow> ref option" where
  "List_Front h l = (if lens h l = 0 then None else enext (cells h (Root l)))"

definition List_Back :: "'v list_store \<Rightarrow> nat \<Rightarrow> ref option" where
  "List_Back h l = (if lens h l = 0 then None else eprev (cells h (Root l)))"

section \<open>Linking\<close>

definition List_Init :: "nat \<Rightarrow> 'v list_store \<Rightarrow> 'v list_store" where
  "List_Init l h = set_len l 0 (set_prev (Root l) (Some (Root l)) (set_next (Root l) (Some (Root l)) h))"

definition lazyInit :: "nat \<Rightarrow> 'v list_store \<Rightarrow> 'v list_store" where
  "lazyInit l h = (if enext (cells h (Root l)) = None then List_Init l h else h)"

definition list_insert :: "nat \<Rightarrow> ref \<Rightarrow> ref option \<Rightarrow> 'v list_store \<Rightarrow> ('v list_store \<times> ref) go" where
  "list_insert l e at h =
     (let h = set_prev e at h in
      bind_go (deref at) (\<lambda>a.
        let h = set_next e (enext (cells h a)) h in
        bind_go (deref (eprev (cells h e))) (\<lambda>p.
          let h = set_next p (Some e) h in
          bind_go (deref (enext (cells h e))) (\<lambda>n.
            let h = set_prev n (Some e) h; h = set_list e (Some l) h; h = set_len l (lens h l + 1) h
            in Inr (h, e)))))"

text \<open>\<open>&Element{Value: v}\<close> is the next element of the store.\<close>

definition new_Element :: "'v option \<Rightarrow> 'v list_store \<Rightarrow> 'v list_store \<times> ref" where
  "new_Element v h =
     (let e = Elem (allocated h) in
      (h\<lparr>cells := (cells h)(e := \<lparr>enext = None, eprev = None, elist = None, Value = v\<rparr>), allocated := allocated h + 1\<rparr>, e))"

definition insertValue :: "nat \<Rightarrow> 'v option \<Rightarrow> ref option \<Rightarrow> 'v list_store \<Rightarrow> ('v list_store \<times> ref) go" where
  "insertValue l v at h = (let (h, e) = new_Element v h in list_insert l e at h)"

definition list_remove :: "nat \<Rightarrow> ref \<Rightarrow> 'v list_store \<Rightarrow> 'v list_store go" where
  "list_remove l e h =
     bind_go (deref (eprev (cells h e))) (\<lambda>p.
       let h = set_next p (enext (cells h e)) h in
       bind_go (deref (enext (cells h e))) (\<lambda>n.
         let h = set_prev n (eprev (cells h e)) h;
             h = set_next e None h; h = set_prev e None h; h = set_list e None h
         in Inr (set_len l (lens h l - 1) h)))"

definition list_move :: "ref \<Rightarrow> ref option \<Rightarrow> 'v list_store \<Rightarrow> 'v list_store go" where
  "list_move e at h =
     (if Some e = at then Inr h
      else
        bind_go (deref (eprev (cells h e))) (\<lambda>p.
          let h = set_next p (enext (cells h e)) h in
          bind_go (deref (enext (cells h e))) (\<lambda>n.
            let h = set_prev n (eprev (cells h e)) h; h = set_prev e at h in
            bind_go (deref at) (\<lambda>a.
              let h = set_next e (enext (cells h a)) h in
              bind_go (deref (eprev (cells h e))) (\<lambda>p.
                let h = set_next p (Some e) h in
                bind_go (deref (enext (cells h e))) (\<lambda>n. Inr (set_prev n (Some e) h)))))))"

section \<open>Operations\<close>

definition List_Remove :: "nat \<Rightarrow> ref \<Rightarrow> 'v list_store \<Rightarrow> ('v list_store \<times> 'v option) go" where
  "List_Remove l e h =
     bind_go (if elist (cells h e) = Some l then list_remove l e h else Inr h) (\<lambda>h. Inr (h, Value (cells h e)))"

definition PushFront :: "nat \<Rightarrow> 'v option \<Rightarrow> 'v list_store \<Rightarrow> ('v list_store \<times> ref) go" where
  "PushFront l v h = (let h = lazyInit l h in insertValue l v (Some (Root l)) h)"

definition PushBack :: "nat \<Rightarrow> 'v option \<Rightarrow> 'v list_store \<Rightarrow> ('v list_store \<times> ref) go" where
  "PushBack l v h = (let h = lazyInit l h in insertValue l v (eprev (cells h (Root l))) h)"

definition InsertBefore :: "nat \<Rightarrow> 'v option \<Rightarrow> ref \<Rightarrow> 'v list_store \<Rightarrow> ('v list_store \<times> ref option) go" where
  "InsertBefore l v mark h =
     (if elist (cells h mark) \<noteq> Some l then Inr (h, None)
      else bind_go (insertValue l v (eprev (cells h mark)) h) (\<lambda>(h, e). Inr (h, Some e)))"

definition InsertAfter :: "nat \<Rightarrow> 'v option \<Rightarrow> ref \<Rightarrow> 'v list_store \<Rightarrow> ('v list_store \<times> ref option) go" where
  "InsertAfter l v mark h =
     (if elist (cells h mark) \<noteq> Some l then Inr (h, None)
      else bind_go (insertValue l v (Some mark) h) (\<lambda>(h, e). Inr (h, Some e)))"

definition MoveToFront :: "nat \<Rightarrow> ref \<Rightarrow> 'v list_store \<Rightarrow> 'v list_store go" where
  "MoveToFront l e h =
     (if elist (cells h e) \<noteq> Some l \<or> enext (cells h (Root l)) = Some e then Inr h
      else list_move e (Some (Root l)) h)"

definition MoveToBack :: "nat \<Rightarrow> ref \<Rightarrow> 'v list_store \<Rightarrow> 'v list_store go" where
  "MoveToBack l e h =
     (if elist (cells h e) \<noteq> Some l \<or> eprev (cells h (Root l)) = Some e then Inr h
      else list_move e (eprev (cells h (Root l))) h)"

definition MoveBefore :: "nat \<Rightarrow> ref \<Rightarrow> ref \<Rightarrow> 'v list_store \<Rightarrow> 'v list_store go" where
  "MoveBefore l e mark h =
     (if elist (cells h e) \<noteq> Some l \<or> e = mark \<or> elist (cells h mark) \<noteq> Some l then Inr h
      else list_move e (eprev (cells h mark)) h)"

definition MoveAfter :: "nat \<Rightarrow> ref \<Rightarrow> ref \<Rightarrow> 'v list_store \<Rightarrow> 'v list_store go" where
  "MoveAfter l e mark h =
     (if elist (cells h e) \<noteq> Some l \<or> e = mark \<or> elist (cells h mark) \<noteq> Some l then Inr h
      else list_move e (Some mark) h)"

text \<open>The loops over the other list; its length is read once, before the first insertion.\<close>

fun PushBackList_loop :: "nat \<Rightarrow> nat \<Rightarrow> ref option \<Rightarrow> 'v list_store \<Rightarrow> 'v list_store go" where
  "PushBackList_loop 0 l e h = Inr h"
| "PushBackList_loop (Suc i) l e h =
     bind_go (deref e) (\<lambda>e.
     bind_go (insertValue l (Value (cells h e)) (eprev (cells h (Root l))) h) (\<lambda>(h, _).
       PushBackList_loop i l (Element_Next h e) h))"

definition PushBackList :: "nat \<Rightarrow> nat \<Rightarrow> 'v list_store \<Rightarrow> 'v list_store go" where
  "PushBackList l other h =
     (let h = lazyInit l h in PushBackList_loop (nat (List_Len h other)) l (List_Front h other) h)"

fun PushFrontList_loop :: "nat \<Rightarrow> nat \<Rightarrow> ref option \<Rightarrow> 'v list_store \<Rightarrow> 'v list_store go" where
  "PushFrontList_loop 0 l e h = Inr h"
| "PushFrontList_loop (Suc i) l e h =
     bind_go (deref e) (\<lambda>e.
     bind_go (insertValue l (Value (cells h e)) (Some (Root l)) h) (\<lambda>(h, _).
       PushFrontList_loop i l (Element_Prev h e) h))"

definition PushFrontList :: "nat \<Rightarrow> nat \<Rightarrow> 'v list_store \<Rightarrow> 'v list_store go" where
  "PushFrontList l other h =
     (let h = lazyInit l h in PushFrontList_loop (nat (List_Len h other)) l (List_Back h other) h)"

end
