(* ===== verification/Linked_List_Correct.thy ===== *)
theory Linked_List_Correct
  imports Linked_List
begin

text \<open>
  The doubly linked lists implement lists.  \<open>list_rel\<close> relates a store to the abstract state:
  following \<open>next\<close> from a sentinel visits the contents of its list and comes back, \<open>prev\<close> is its
  inverse, and every element points at the list it is in.  Every operation is shown to keep the
  relation and to return what its specification on plain lists returns, so that a sequence of
  calls on zero lists never panics and behaves as the specification does.  \<open>Init\<close> leaves the
  elements it drops pointing at the list: the relation says nothing of their pointers, and the
  contract of a sequence of calls (\<open>ops_ok\<close>) is that no call names such an element.
\<close>

section \<open>Links\<close>

lemma cells_simps [simp]:
  "enext (cells (set_next r p h) x) = (if x = r then p else enext (cells h x))"
  "eprev (cells (set_next r p h) x) = eprev (cells h x)"
  "elist (cells (set_next r p h) x) = elist (cells h x)"
  "Value (cells (set_next r p h) x) = Value (cells h x)"
  "lens (set_next r p h) = lens h" "allocated (set_next r p h) = allocated h"
  "enext (cells (set_prev r p h) x) = enext (cells h x)"
  "eprev (cells (set_prev r p h) x) = (if x = r then p else eprev (cells h x))"
  "elist (cells (set_prev r p h) x) = elist (cells h x)"
  "Value (cells (set_prev r p h) x) = Value (cells h x)"
  "lens (set_prev r p h) = lens h" "allocated (set_prev r p h) = allocated h"
  "enext (cells (set_list r l h) x) = enext (cells h x)"
  "eprev (cells (set_list r l h) x) = eprev (cells h x)"
  "elist (cells (set_list r l h) x) = (if x = r then l else elist (cells h x))"
  "Value (cells (set_list r l h) x) = Value (cells h x)"
  "lens (set_list r l h) = lens h" "allocated (set_list r l h) = allocated h"
  "cells (set_len k n h) = cells h" "allocated (set_len k n h) = allocated h"
  "lens (set_len k n h) = (lens h)(k := n)"
  by (simp_all add: set_next_def set_prev_def set_list_def set_len_def)

lemma deref_simps [simp]: "deref (Some r) = Inr r" "deref None = Inl NilPointer"
  by (simp_all add: deref_def)

text \<open>Consecutive elements of a path point at each other.\<close>

fun chain :: "'v list_store \<Rightarrow> ref list \<Rightarrow> bool" where
  "chain h (a # b # p) = (enext (cells h a) = Some b \<and> eprev (cells h b) = Some a \<and> chain h (b # p))"
| "chain h p = True"

lemma chain_append: "chain h (us @ a # vs) \<longleftrightarrow> chain h (us @ [a]) \<and> chain h (a # vs)"
proof (induction us)
  case (Cons u us)
  then show ?case by (cases us) auto
qed (cases vs; simp)

lemma chain_frame:
  assumes "chain h p" "\<And>r. r \<in> set (butlast p) \<Longrightarrow> enext (cells h' r) = enext (cells h r)"
    "\<And>r. r \<in> set (tl p) \<Longrightarrow> eprev (cells h' r) = eprev (cells h r)"
  shows "chain h' p"
  using assms
proof (induction h p rule: chain.induct)
  case (1 h a b p)
  have "chain h' (b # p)" by (rule "1.IH") (use "1.prems" in \<open>auto split: if_splits\<close>)
  then show ?case using "1.prems"(1) "1.prems"(2) [of a] "1.prems"(3) [of b] by simp
qed simp_all

text \<open>A ring path visits its sentinel at both ends and nothing else twice.\<close>

definition ring_path :: "nat \<Rightarrow> nat list \<Rightarrow> ref list" where
  "ring_path l xs = Root l # map Elem xs @ [Root l]"

definition before_at :: "nat \<Rightarrow> nat list \<Rightarrow> ref" where
  "before_at l xs = last (Root l # map Elem xs)"

definition after_at :: "nat \<Rightarrow> nat list \<Rightarrow> ref" where
  "after_at l ys = hd (map Elem ys @ [Root l])"

lemma ring_path_split: "ring_path l (xs @ ys) = butlast (Root l # map Elem xs) @ before_at l xs # after_at l ys # tl (map Elem ys @ [Root l])"
proof -
  have "ring_path l (xs @ ys) = (Root l # map Elem xs) @ (map Elem ys @ [Root l])" by (simp add: ring_path_def)
  also have "\<dots> = (butlast (Root l # map Elem xs) @ [before_at l xs]) @ (after_at l ys # tl (map Elem ys @ [Root l]))"
    unfolding before_at_def after_at_def
    by (simp only: append_butlast_last_id list.distinct(2) not_Cons_self2 Nil_is_append_conv list.collapse append_is_Nil_conv simp_thms)
  finally show ?thesis by simp
qed

lemma distinct_ring: "distinct xs \<Longrightarrow> distinct (butlast (ring_path l xs)) \<and> distinct (tl (ring_path l xs))"
  by (auto simp: ring_path_def butlast_append distinct_map inj_on_def)

lemma after_at_simps [simp]: "after_at l [] = Root l" "after_at l (y # ys) = Elem y"
  by (simp_all add: after_at_def)

lemma before_at_simps [simp]: "before_at l [] = Root l" "before_at l (xs @ [x]) = Elem x"
  by (simp_all add: before_at_def)

section \<open>Linking and unlinking\<close>

definition link :: "ref \<Rightarrow> ref \<Rightarrow> ref \<Rightarrow> 'v list_store \<Rightarrow> 'v list_store" where
  "link e a b h = set_prev b (Some e) (set_next a (Some e) (set_next e (Some b) (set_prev e (Some a) h)))"

definition unlink :: "ref \<Rightarrow> ref \<Rightarrow> 'v list_store \<Rightarrow> 'v list_store" where
  "unlink a b h = set_prev b (Some a) (set_next a (Some b) h)"

lemma list_insert_link:
  assumes "enext (cells h a) = Some b" "e \<noteq> a" "e \<noteq> b"
  shows "list_insert l e (Some a) h = Inr (set_len l (lens h l + 1) (set_list e (Some l) (link e a b h)), e)"
  using assms by (simp add: list_insert_def link_def Let_def)

lemma list_remove_unlink:
  assumes "eprev (cells h e) = Some a" "enext (cells h e) = Some b" "e \<noteq> a"
  shows "list_remove l e h = Inr (set_len l (lens h l - 1) (set_list e None (set_prev e None (set_next e None (unlink a b h)))))"
  using assms by (simp add: list_remove_def unlink_def Let_def)

lemma list_move_link:
  assumes "eprev (cells h e) = Some a" "enext (cells h e) = Some b" "e \<noteq> a" "e \<noteq> c"
    "enext (cells (unlink a b h) c) = Some d" "e \<noteq> d"
  shows "list_move e (Some c) h = Inr (link e c d (unlink a b h))"
proof -
  have "enext (cells (set_prev e (Some c) (unlink a b h)) c) = Some d" using assms by simp
  then show ?thesis using assms
    by (simp add: list_move_def Let_def unlink_def [symmetric] link_def del: cells_simps) (simp add: unlink_def)
qed

lemma path_facts:
  assumes "distinct (butlast (us @ a # q))" "distinct (tl (us @ a # q))" "q \<noteq> []"
  shows "a \<notin> set us" "a \<notin> set (butlast q)" "hd q \<notin> set (tl (us @ [a]))" "hd q \<notin> set (tl q)"
proof -
  have "butlast (us @ a # q) = us @ a # butlast q" using assms(3) by (simp add: butlast_append)
  then show "a \<notin> set us" "a \<notin> set (butlast q)" using assms(1) by auto
  have "tl (us @ a # q) = tl (us @ [a]) @ q" by (cases us) simp_all
  then have "set (tl (us @ [a])) \<inter> set q = {}" "distinct q" using assms(2) by auto
  then show "hd q \<notin> set (tl (us @ [a]))" "hd q \<notin> set (tl q)" using assms(3) by (cases q; auto)+
qed

lemma chain_link:
  assumes chain: "chain h (us @ a # b # vs)" and d: "distinct (butlast (us @ a # b # vs))" "distinct (tl (us @ a # b # vs))"
    and e: "e \<notin> set (us @ a # b # vs)"
  shows "chain (link e a b h) (us @ a # e # b # vs)"
proof -
  note facts = path_facts [OF d, simplified]
  have "chain (link e a b h) (us @ [a])"
  proof (rule chain_frame)
    show "chain h (us @ [a])" using chain chain_append [of h us a "b # vs"] by simp
    show "enext (cells (link e a b h) r) = enext (cells h r)" if "r \<in> set (butlast (us @ [a]))" for r
      using that facts(1) e by (auto simp: link_def)
    show "eprev (cells (link e a b h) r) = eprev (cells h r)" if "r \<in> set (tl (us @ [a]))" for r
    proof -
      have "r \<in> set (us @ [a])" using that by (metis list.set_sel(2) tl_Nil empty_iff set_empty)
      then show ?thesis using that facts(3) e by (auto simp: link_def)
    qed
  qed
  moreover have "chain (link e a b h) (b # vs)"
  proof (rule chain_frame)
    show "chain h (b # vs)" using chain chain_append [of h us a "b # vs"] by simp
    show "enext (cells (link e a b h) r) = enext (cells h r)" if "r \<in> set (butlast (b # vs))" for r
      using that facts(2) e in_set_butlastD [OF that] by (auto simp: link_def)
    show "eprev (cells (link e a b h) r) = eprev (cells h r)" if "r \<in> set (tl (b # vs))" for r
      using that facts(4) e by (auto simp: link_def)
  qed
  ultimately show ?thesis using e by (subst chain_append) (auto simp: link_def)
qed

lemma chain_unlink:
  assumes chain: "chain h (us @ a # e # b # vs)" and d: "distinct (butlast (us @ a # b # vs))" "distinct (tl (us @ a # b # vs))"
  shows "chain (unlink a b h) (us @ a # b # vs)"
proof -
  note facts = path_facts [OF d, simplified]
  have "chain (unlink a b h) (us @ [a])"
  proof (rule chain_frame)
    show "chain h (us @ [a])" using chain chain_append [of h us a "e # b # vs"] by simp
  qed (use facts in \<open>auto simp: unlink_def\<close>)
  moreover have "chain (unlink a b h) (b # vs)"
  proof (rule chain_frame)
    show "chain h (b # vs)" using chain chain_append [of h us a "e # b # vs"] by simp
  qed (use facts in \<open>auto simp: unlink_def\<close>)
  ultimately show ?thesis by (subst chain_append) (auto simp: unlink_def)
qed

section \<open>The abstract lists\<close>

text \<open>
  The elements of every list in order, the list each element is in, the values, the number
  of elements made so far, and the elements that a call of \<open>Init\<close> dropped.
\<close>

record 'v lists =
  contents :: "nat \<Rightarrow> nat list"
  owner :: "nat \<Rightarrow> nat option"
  vals :: "nat \<Rightarrow> 'v option"
  made :: nat
  stale :: "nat set"

definition ring_ok :: "'v list_store \<Rightarrow> nat \<Rightarrow> nat list \<Rightarrow> bool" where
  "ring_ok h l xs \<longleftrightarrow>
     (enext (cells h (Root l)) = None \<and> xs = [] \<or> chain h (ring_path l xs)) \<and> lens h l = int (length xs) \<and> distinct xs"

definition list_rel :: "'v list_store \<Rightarrow> 'v lists \<Rightarrow> bool" where
  "list_rel h A \<longleftrightarrow>
     (\<forall>l. ring_ok h l (contents A l)) \<and>
     (\<forall>x. x \<notin> stale A \<longrightarrow> elist (cells h (Elem x)) = owner A x) \<and>
     (\<forall>x l. owner A x = Some l \<longleftrightarrow> x \<in> set (contents A l)) \<and>
     (\<forall>x l. owner A x = Some l \<longrightarrow> x < made A) \<and>
     (\<forall>x. Value (cells h (Elem x)) = vals A x) \<and>
     allocated h = made A \<and>
     (\<forall>x. x \<in> stale A \<longrightarrow> owner A x = None \<and> x < made A)"

lemma list_relD:
  assumes "list_rel h A"
  shows "ring_ok h l (contents A l)" "x \<notin> stale A \<Longrightarrow> elist (cells h (Elem x)) = owner A x"
    "owner A x = Some l \<longleftrightarrow> x \<in> set (contents A l)" "owner A x = Some l \<Longrightarrow> x < made A"
    "Value (cells h (Elem x)) = vals A x" "allocated h = made A"
    "distinct (contents A l)" "lens h l = int (length (contents A l))"
    "x \<in> stale A \<Longrightarrow> owner A x = None" "x \<in> stale A \<Longrightarrow> x < made A"
  using assms unfolding list_rel_def ring_ok_def by blast+

lemma owned:
  assumes "list_rel h A" "owner A x = Some l"
  shows "x \<notin> stale A" "elist (cells h (Elem x)) = Some l"
proof -
  show "x \<notin> stale A" using list_relD(9) [OF assms(1), of x] assms(2) by auto
  then show "elist (cells h (Elem x)) = Some l" using list_relD(2) [OF assms(1), of x] assms(2) by simp
qed

text \<open>One list changes: its new ring, the owners, the dropped elements and the frame.\<close>

lemma list_rel_update_stale:
  assumes rel: "list_rel h A" and ring: "chain h' (ring_path l zs)" "distinct zs"
    and len: "lens h' = (lens h)(l := int (length zs))"
    and owner: "\<And>x. x \<notin> st \<Longrightarrow> elist (cells h' (Elem x)) = ow x"
      "\<And>x k. ow x = Some k \<longleftrightarrow> x \<in> set (((contents A)(l := zs)) k)" "\<And>x. x \<in> set zs \<Longrightarrow> x < made A"
    and stale: "\<And>x. x \<in> st \<Longrightarrow> ow x = None \<and> x < made A"
    and frame: "\<And>r. r \<noteq> Root l \<Longrightarrow> (\<And>x. r = Elem x \<Longrightarrow> x \<notin> set (contents A l) \<and> x \<notin> set zs) \<Longrightarrow>
      enext (cells h' r) = enext (cells h r) \<and> eprev (cells h' r) = eprev (cells h r)"
    and vals: "\<And>x. Value (cells h' (Elem x)) = Value (cells h (Elem x))" "allocated h' = allocated h"
  shows "list_rel h' (A\<lparr>contents := (contents A)(l := zs), owner := ow, stale := st\<rparr>)"
proof -
  have other: "ring_ok h' k (contents A k)" if "k \<noteq> l" for k
  proof -
    have out: "x \<notin> set (contents A l) \<and> x \<notin> set zs" if "x \<in> set (contents A k)" for x
      using list_relD(3) [OF rel, of x k] list_relD(3) [OF rel, of x l] owner(2) [of x k] owner(2) [of x l] that \<open>k \<noteq> l\<close> by auto
    have same: "enext (cells h' r) = enext (cells h r) \<and> eprev (cells h' r) = eprev (cells h r)" if "r \<in> set (ring_path k (contents A k))" for r
      by (rule frame) (use that out \<open>k \<noteq> l\<close> in \<open>auto simp: ring_path_def\<close>)
    have "chain h' (ring_path k (contents A k))" if "chain h (ring_path k (contents A k))"
      by (rule chain_frame [OF that]) (use same in \<open>auto dest: in_set_butlastD list.set_sel(2) [rotated] simp: ring_path_def\<close>)
    moreover have "enext (cells h' (Root k)) = enext (cells h (Root k))" using same [of "Root k"] by (simp add: ring_path_def)
    ultimately show ?thesis using list_relD(1) [OF rel, of k] that by (auto simp: ring_ok_def len)
  qed
  have "ring_ok h' l zs" using ring len by (simp add: ring_ok_def)
  then show ?thesis using other owner stale vals list_relD(4-8) [OF rel] list_relD(3) [OF rel] unfolding list_rel_def
    by (auto split: if_splits)
qed

lemma list_rel_update:
  assumes rel: "list_rel h A" and ring: "chain h' (ring_path l zs)" "distinct zs"
    and len: "lens h' = (lens h)(l := int (length zs))"
    and owner: "\<And>x. x \<notin> stale A \<Longrightarrow> elist (cells h' (Elem x)) = ow x"
      "\<And>x k. ow x = Some k \<longleftrightarrow> x \<in> set (((contents A)(l := zs)) k)" "\<And>x. x \<in> set zs \<Longrightarrow> x < made A"
      "\<And>x. x \<in> stale A \<Longrightarrow> ow x = None"
    and frame: "\<And>r. r \<noteq> Root l \<Longrightarrow> (\<And>x. r = Elem x \<Longrightarrow> x \<notin> set (contents A l) \<and> x \<notin> set zs) \<Longrightarrow>
      enext (cells h' r) = enext (cells h r) \<and> eprev (cells h' r) = eprev (cells h r)"
    and vals: "\<And>x. Value (cells h' (Elem x)) = Value (cells h (Elem x))" "allocated h' = allocated h"
  shows "list_rel h' (A\<lparr>contents := (contents A)(l := zs), owner := ow\<rparr>)"
proof -
  have "list_rel h' (A\<lparr>contents := (contents A)(l := zs), owner := ow, stale := stale A\<rparr>)"
    by (rule list_rel_update_stale [OF rel ring len owner(1-3) _ frame vals]) (use owner(4) list_relD(10) [OF rel] in auto)
  then show ?thesis by simp
qed

lemma ring_links:
  assumes "chain h (ring_path l (xs @ ys))"
  shows "enext (cells h (before_at l xs)) = Some (after_at l ys)" "eprev (cells h (after_at l ys)) = Some (before_at l xs)"
  using assms unfolding ring_path_split by (subst (asm) chain_append; simp)+

lemma before_after_mem: "before_at l xs = Root l \<or> (\<exists>x\<in>set xs. before_at l xs = Elem x)"
  "after_at l ys = Root l \<or> (\<exists>y\<in>set ys. after_at l ys = Elem y)"
  by (auto simp: before_at_def after_at_def hd_append hd_map last_map dest: last_in_set hd_in_set)

lemma off_ring:
  assumes "r \<noteq> Root l" "\<And>y. r = Elem y \<Longrightarrow> y \<notin> set xs"
  shows "r \<noteq> before_at l xs" "r \<noteq> after_at l xs"
  using assms before_after_mem(1) [of l xs] before_after_mem(2) [of l xs] by auto

lemma chain_link_ring:
  assumes "chain h (ring_path l (xs @ ys))" "distinct (xs @ ys)" "x \<notin> set (xs @ ys)"
  shows "chain (link (Elem x) (before_at l xs) (after_at l ys) h) (ring_path l (xs @ x # ys))"
proof -
  have "ring_path l (xs @ x # ys) = butlast (Root l # map Elem xs) @ before_at l xs # Elem x # after_at l ys # tl (map Elem ys @ [Root l])"
    using ring_path_split [of l xs "x # ys"] by (cases ys) simp_all
  moreover have "Elem x \<notin> set (ring_path l (xs @ ys))" using assms(3) by (auto simp: ring_path_def)
  ultimately show ?thesis
    using chain_link [of h "butlast (Root l # map Elem xs)" "before_at l xs" "after_at l ys" "tl (map Elem ys @ [Root l])" "Elem x"]
      assms(1) distinct_ring [OF assms(2), of l] unfolding ring_path_split by simp
qed

lemma chain_unlink_ring:
  assumes "chain h (ring_path l (xs @ x # ys))" "distinct (xs @ x # ys)"
  shows "chain (unlink (before_at l xs) (after_at l ys) h) (ring_path l (xs @ ys))"
proof -
  have "ring_path l (xs @ x # ys) = butlast (Root l # map Elem xs) @ before_at l xs # Elem x # after_at l ys # tl (map Elem ys @ [Root l])"
    using ring_path_split [of l xs "x # ys"] by (cases ys) simp_all
  moreover have "distinct (xs @ ys)" using assms(2) by auto
  ultimately show ?thesis
    using chain_unlink [of h "butlast (Root l # map Elem xs)" "before_at l xs" "Elem x" "after_at l ys" "tl (map Elem ys @ [Root l])"]
      assms(1) distinct_ring [of "xs @ ys" l] unfolding ring_path_split by simp
qed

section \<open>The operations on the store\<close>

lemma lazyInit_rel:
  assumes "list_rel h A"
  shows "list_rel (lazyInit l h) A" "chain (lazyInit l h) (ring_path l (contents A l))"
proof -
  have "list_rel (lazyInit l h) A \<and> chain (lazyInit l h) (ring_path l (contents A l))"
  proof (cases "enext (cells h (Root l)) = None")
    case True
    then have "contents A l = []"
      using list_relD(1) [OF assms, of l] by (cases "contents A l") (auto simp: ring_ok_def ring_path_def)
    moreover have "chain (List_Init l h) (ring_path l [])" by (simp add: ring_path_def List_Init_def)
    moreover have "list_rel (List_Init l h) (A\<lparr>contents := (contents A)(l := []), owner := owner A\<rparr>)"
      by (rule list_rel_update [OF assms]) (use calculation list_relD [OF assms] in \<open>auto simp: List_Init_def ring_path_def\<close>)
    moreover have "A\<lparr>contents := (contents A)(l := []), owner := owner A\<rparr> = A"
      using calculation(1) by (simp add: fun_upd_idem)
    ultimately show ?thesis using True by (simp add: lazyInit_def)
  next
    case False
    then show ?thesis using assms list_relD(1) [OF assms, of l] by (auto simp: lazyInit_def ring_ok_def)
  qed
  then show "list_rel (lazyInit l h) A" "chain (lazyInit l h) (ring_path l (contents A l))" by auto
qed

text \<open>Abstractly, a new element of value \<open>v\<close> makes the list \<open>l\<close> into \<open>zs\<close>.\<close>

definition add_elem :: "nat \<Rightarrow> nat list \<Rightarrow> 'v option \<Rightarrow> 'v lists \<Rightarrow> 'v lists" where
  "add_elem l zs v A =
     \<lparr>contents = (contents A)(l := zs), owner = (owner A)(made A := Some l), vals = (vals A)(made A := v),
      made = made A + 1, stale = stale A\<rparr>"

lemma new_Element_rel:
  assumes "list_rel h A" "new_Element v h = (h', e)"
  shows "e = Elem (made A)" "list_rel h' (A\<lparr>vals := (vals A)(made A := v), made := made A + 1\<rparr>)"
    "chain h (ring_path l (contents A l)) \<Longrightarrow> chain h' (ring_path l (contents A l))"
proof -
  note D = list_relD [OF assms(1)]
  show e: "e = Elem (made A)" using assms(2) D(6) by (simp add: new_Element_def Let_def)
  have h': "h' = h\<lparr>cells := (cells h)(Elem (made A) := \<lparr>enext = None, eprev = None, elist = None, Value = v\<rparr>), allocated := made A + 1\<rparr>"
    using assms(2) D(6) by (auto simp: new_Element_def Let_def)
  have out: "Elem (made A) \<notin> set (ring_path l (contents A l))" for l
    using D(3,4) by (force simp: ring_path_def)
  have chain: "chain h' (ring_path l (contents A l))" if "chain h (ring_path l (contents A l))" for l
  proof (rule chain_frame [OF that])
    have tl: "r \<in> set (tl (ring_path l (contents A l))) \<Longrightarrow> r \<in> set (ring_path l (contents A l))" for r
      by (simp add: ring_path_def)
    show "enext (cells h' r) = enext (cells h r)" if "r \<in> set (butlast (ring_path l (contents A l)))" for r
      using in_set_butlastD [OF that] out by (auto simp: h')
    show "eprev (cells h' r) = eprev (cells h r)" if "r \<in> set (tl (ring_path l (contents A l)))" for r
      using tl [OF that] out by (auto simp: h')
  qed
  then show "chain h (ring_path l (contents A l)) \<Longrightarrow> chain h' (ring_path l (contents A l))" .
  have "ring_ok h' l (contents A l)" for l using D(1) [of l] chain [of l] by (auto simp: ring_ok_def h')
  moreover have "owner A (made A) = None" using D(4) [of "made A"] by (cases "owner A (made A)") auto
  ultimately show "list_rel h' (A\<lparr>vals := (vals A)(made A := v), made := made A + 1\<rparr>)"
    using D(2-6,9,10) unfolding list_rel_def by (auto simp: h' less_Suc_eq)
qed

lemma insertValue_rel:
  assumes rel: "list_rel h A" and chain: "chain h (ring_path l (contents A l))" and xs: "contents A l = xs @ ys"
  shows "\<exists>h'. insertValue l v (Some (before_at l xs)) h = Inr (h', Elem (made A)) \<and> list_rel h' (add_elem l (xs @ made A # ys) v A)
    \<and> chain h' (ring_path l (xs @ made A # ys))"
proof -
  obtain h1 e where new: "new_Element v h = (h1, e)" by fastforce
  define A1 where "A1 = A\<lparr>vals := (vals A)(made A := v), made := made A + 1\<rparr>"
  note n = new_Element_rel [OF rel new, folded A1_def]
  note D = list_relD [OF n(2)]
  define x where "x = made A"
  have A1: "contents A1 = contents A" "owner A1 = owner A" "made A1 = x + 1" by (simp_all add: A1_def x_def)
  have c1: "chain h1 (ring_path l (xs @ ys))" using n(3) [OF chain] xs by simp
  have x: "x \<notin> set (xs @ ys)" using list_relD(3,4) [OF rel, of x l] xs by (auto simp: x_def)
  have d: "distinct (xs @ ys)" using list_relD(7) [OF rel, of l] xs by simp
  note links = ring_links [OF c1]
  have ne: "Elem x \<noteq> before_at l xs" "Elem x \<noteq> after_at l ys"
    using x before_after_mem(1) [of l xs] before_after_mem(2) [of l ys] by auto
  define h2 where "h2 = set_len l (lens h1 l + 1) (set_list (Elem x) (Some l) (link (Elem x) (before_at l xs) (after_at l ys) h1))"
  have ins: "insertValue l v (Some (before_at l xs)) h = Inr (h2, Elem x)"
    using new n(1) list_insert_link [OF links(1) ne] by (simp add: insertValue_def h2_def x_def)
  have chain2: "chain h2 (ring_path l (xs @ x # ys))"
    using chain_link_ring [OF c1 d x] by (rule chain_frame) (simp_all add: h2_def)
  have "list_rel h2 (A1\<lparr>contents := (contents A1)(l := xs @ x # ys), owner := (owner A)(x := Some l)\<rparr>)"
  proof (rule list_rel_update [OF n(2) chain2])
    show "distinct (xs @ x # ys)" using d x by auto
    show "lens h2 = (lens h1)(l := int (length (xs @ x # ys)))"
      using D(8) [of l] xs by (simp add: h2_def A1 link_def ac_simps)
    show "elist (cells h2 (Elem y)) = ((owner A)(x := Some l)) y" if "y \<notin> stale A1" for y
      using D(2) [OF that] by (simp add: h2_def A1 link_def)
    show "((owner A)(x := Some l)) y = None" if "y \<in> stale A1" for y
      using that list_relD(9,10) [OF rel, of y] by (auto simp: A1_def x_def)
    show "(((owner A)(x := Some l)) y = Some k) = (y \<in> set (((contents A1)(l := xs @ x # ys)) k))" for y k
      using D(3) [of y k] list_relD(3,4) [OF rel, of x k] xs by (auto simp: A1 x_def)
    show "y < made A1" if "y \<in> set (xs @ x # ys)" for y
      using that list_relD(3,4) [OF rel, of y l] xs by (auto simp: A1 x_def)
    show "enext (cells h2 r) = enext (cells h1 r) \<and> eprev (cells h2 r) = eprev (cells h1 r)"
      if "r \<noteq> Root l" "\<And>y. r = Elem y \<Longrightarrow> y \<notin> set (contents A1 l) \<and> y \<notin> set (xs @ x # ys)" for r
      using that before_after_mem(1) [of l xs] before_after_mem(2) [of l ys] by (auto simp: h2_def link_def A1 xs)
  qed (simp_all add: h2_def link_def)
  moreover have "A1\<lparr>contents := (contents A1)(l := xs @ x # ys), owner := (owner A)(x := Some l)\<rparr> = add_elem l (xs @ made A # ys) v A"
    by (simp add: add_elem_def A1_def x_def)
  ultimately show ?thesis using ins chain2 by (auto simp: x_def)
qed

lemma elem_at:
  assumes rel: "list_rel h A" and x: "owner A x = Some l"
  obtains xs ys where "contents A l = xs @ x # ys" "chain h (ring_path l (xs @ x # ys))" "x \<notin> set (xs @ ys)"
    "eprev (cells h (Elem x)) = Some (before_at l xs)" "enext (cells h (Elem x)) = Some (after_at l ys)"
proof -
  have "x \<in> set (contents A l)" using list_relD(3) [OF rel] x by simp
  then obtain xs ys where xs: "contents A l = xs @ x # ys" by (meson split_list)
  then have chain: "chain h (ring_path l (xs @ x # ys))" using list_relD(1) [OF rel, of l] by (auto simp: ring_ok_def)
  have "x \<notin> set (xs @ ys)" using list_relD(7) [OF rel, of l] xs by auto
  moreover have "eprev (cells h (Elem x)) = Some (before_at l xs)" using ring_links(2) [OF chain] by simp
  moreover have "enext (cells h (Elem x)) = Some (after_at l ys)" using ring_links(1) [of h l "xs @ [x]" ys] chain by simp
  ultimately show thesis using that xs chain by blast
qed

definition del_elem :: "nat \<Rightarrow> nat \<Rightarrow> 'v lists \<Rightarrow> 'v lists" where
  "del_elem l x A = A\<lparr>contents := (contents A)(l := remove1 x (contents A l)), owner := (owner A)(x := None)\<rparr>"

lemma Remove_rel:
  assumes rel: "list_rel h A" and x: "owner A x = Some l"
  shows "\<exists>h'. list_remove l (Elem x) h = Inr h' \<and> list_rel h' (del_elem l x A) \<and> Value (cells h' (Elem x)) = vals A x"
proof -
  note D = list_relD [OF rel]
  obtain xs ys where xs: "contents A l = xs @ x # ys" and chain: "chain h (ring_path l (xs @ x # ys))" and nx: "x \<notin> set (xs @ ys)"
    and p: "eprev (cells h (Elem x)) = Some (before_at l xs)" "enext (cells h (Elem x)) = Some (after_at l ys)"
    using elem_at [OF assms] .
  have ne: "Elem x \<noteq> before_at l xs" "Elem x \<noteq> after_at l ys"
    using nx before_after_mem(1) [of l xs] before_after_mem(2) [of l ys] by auto
  define h1 where "h1 = unlink (before_at l xs) (after_at l ys) h"
  define h2 where "h2 = set_len l (lens h l - 1) (set_list (Elem x) None (set_prev (Elem x) None (set_next (Elem x) None h1)))"
  have step: "list_remove l (Elem x) h = Inr h2"
    using list_remove_unlink [OF p ne(1)] by (simp add: h2_def h1_def)
  have d: "distinct (xs @ x # ys)" using D(7) [of l] xs by simp
  have "chain h1 (ring_path l (xs @ ys))" unfolding h1_def by (rule chain_unlink_ring [OF chain d])
  then have chain2: "chain h2 (ring_path l (xs @ ys))"
  proof (rule chain_frame)
    have out: "Elem x \<notin> set (ring_path l (xs @ ys))" using nx by (auto simp: ring_path_def)
    show "enext (cells h2 r) = enext (cells h1 r)" if "r \<in> set (butlast (ring_path l (xs @ ys)))" for r
      using in_set_butlastD [OF that] out by (auto simp: h2_def)
    have "r \<in> set (tl (ring_path l (xs @ ys))) \<Longrightarrow> r \<in> set (ring_path l (xs @ ys))" for r by (simp add: ring_path_def)
    then show "eprev (cells h2 r) = eprev (cells h1 r)" if "r \<in> set (tl (ring_path l (xs @ ys)))" for r
      using that out by (auto simp: h2_def)
  qed
  have "list_rel h2 (A\<lparr>contents := (contents A)(l := xs @ ys), owner := (owner A)(x := None)\<rparr>)"
  proof (rule list_rel_update [OF rel chain2])
    show "distinct (xs @ ys)" using d by simp
    show "lens h2 = (lens h)(l := int (length (xs @ ys)))"
      using D(8) [of l] xs by (simp add: h2_def h1_def unlink_def)
    show "((owner A)(x := None)) y = None" if "y \<in> stale A" for y using D(9) [OF that] by simp
    show "elist (cells h2 (Elem y)) = ((owner A)(x := None)) y" if "y \<notin> stale A" for y
      using D(2) [OF that] by (simp add: h2_def h1_def unlink_def)
    show "(((owner A)(x := None)) y = Some k) = (y \<in> set (((contents A)(l := xs @ ys)) k))" for y k
      using D(3) [of y k] x xs nx by (auto simp: fun_upd_def)
    show "y < made A" if "y \<in> set (xs @ ys)" for y using that D(3,4) [of y l] xs by auto
    show "enext (cells h2 r) = enext (cells h r) \<and> eprev (cells h2 r) = eprev (cells h r)"
      if "r \<noteq> Root l" "\<And>y. r = Elem y \<Longrightarrow> y \<notin> set (contents A l) \<and> y \<notin> set (xs @ ys)" for r
      using that before_after_mem(1) [of l xs] before_after_mem(2) [of l ys] by (auto simp: h2_def h1_def unlink_def xs)
  qed (simp_all add: h2_def h1_def unlink_def)
  moreover have "remove1 x (contents A l) = xs @ ys" using nx by (simp add: xs remove1_append)
  moreover have "Value (cells h2 (Elem x)) = vals A x" using D(4,5) x by (simp add: h2_def h1_def unlink_def)
  ultimately show ?thesis using step by (simp add: del_elem_def)
qed

definition place :: "nat \<Rightarrow> nat list \<Rightarrow> 'v lists \<Rightarrow> 'v lists" where
  "place l zs A = A\<lparr>contents := (contents A)(l := zs)\<rparr>"

lemma move_rel:
  assumes rel: "list_rel h A" and x: "owner A x = Some l" and us: "remove1 x (contents A l) = us @ vs"
  shows "\<exists>h'. list_move (Elem x) (Some (before_at l us)) h = Inr h' \<and> list_rel h' (place l (us @ x # vs) A)"
proof -
  note D = list_relD [OF rel]
  obtain xs ys where xs: "contents A l = xs @ x # ys" and chain: "chain h (ring_path l (xs @ x # ys))" and nx: "x \<notin> set (xs @ ys)"
    and p: "eprev (cells h (Elem x)) = Some (before_at l xs)" "enext (cells h (Elem x)) = Some (after_at l ys)"
    using elem_at [OF rel x] .
  have uv: "us @ vs = xs @ ys" using us nx by (simp add: xs remove1_append)
  then have nu: "x \<notin> set (us @ vs)" using nx by simp
  have ne: "Elem x \<noteq> before_at l xs" "Elem x \<noteq> before_at l us" "Elem x \<noteq> after_at l vs"
    using nx nu before_after_mem(1) [of l xs] before_after_mem(1) [of l us] before_after_mem(2) [of l vs] by auto
  have d: "distinct (xs @ x # ys)" using D(7) [of l] xs by simp
  define h1 where "h1 = unlink (before_at l xs) (after_at l ys) h"
  have c1: "chain h1 (ring_path l (us @ vs))" unfolding h1_def uv by (rule chain_unlink_ring [OF chain d])
  have du: "distinct (us @ vs)" using d unfolding uv by simp
  define h2 where "h2 = link (Elem x) (before_at l us) (after_at l vs) h1"
  have step: "list_move (Elem x) (Some (before_at l us)) h = Inr h2"
    using list_move_link [OF p ne(1,2) ring_links(1) [OF c1, unfolded h1_def] ne(3)] by (simp add: h2_def h1_def)
  have chain2: "chain h2 (ring_path l (us @ x # vs))" unfolding h2_def by (rule chain_link_ring [OF c1 du nu])
  have set_eq: "set (us @ x # vs) = set (contents A l)" using arg_cong [OF uv, of set] by (auto simp: xs)
  have "list_rel h2 (A\<lparr>contents := (contents A)(l := us @ x # vs), owner := owner A\<rparr>)"
  proof (rule list_rel_update [OF rel chain2])
    show "distinct (us @ x # vs)" using du nu by auto
    show "lens h2 = (lens h)(l := int (length (us @ x # vs)))"
      using D(8) [of l] arg_cong [OF uv, of length] xs by (simp add: h2_def h1_def unlink_def link_def fun_upd_idem)
    show "owner A y = None" if "y \<in> stale A" for y using D(9) [OF that] .
    show "elist (cells h2 (Elem y)) = owner A y" if "y \<notin> stale A" for y
      using D(2) [OF that] by (simp add: h2_def h1_def unlink_def link_def)
    show "(owner A y = Some k) = (y \<in> set (((contents A)(l := us @ x # vs)) k))" for y k
      using D(3) [of y k] set_eq by auto
    show "y < made A" if "y \<in> set (us @ x # vs)" for y using that D(3,4) [of y l] set_eq by auto
    show "enext (cells h2 r) = enext (cells h r) \<and> eprev (cells h2 r) = eprev (cells h r)"
      if "r \<noteq> Root l" "\<And>y. r = Elem y \<Longrightarrow> y \<notin> set (contents A l) \<and> y \<notin> set (us @ x # vs)" for r
    proof -
      have "r \<noteq> before_at l xs" "r \<noteq> after_at l ys" "r \<noteq> before_at l us" "r \<noteq> after_at l vs" "r \<noteq> Elem x"
        using off_ring [OF that(1)] that(2) by (auto simp: xs)
      then show ?thesis by (simp add: h2_def h1_def unlink_def link_def)
    qed
  qed (simp_all add: h2_def h1_def unlink_def link_def)
  then show ?thesis using step by (simp add: place_def)
qed


section \<open>The observers\<close>

lemma elem_links:
  assumes rel: "list_rel h A" and xs: "contents A l = xs @ x # ys"
  shows "eprev (cells h (Elem x)) = Some (before_at l xs)" "enext (cells h (Elem x)) = Some (after_at l ys)"
    "elist (cells h (Elem x)) = Some l"
proof -
  have chain: "chain h (ring_path l (xs @ x # ys))" using list_relD(1) [OF rel, of l] xs by (auto simp: ring_ok_def)
  show "eprev (cells h (Elem x)) = Some (before_at l xs)" using ring_links(2) [OF chain] by simp
  show "enext (cells h (Elem x)) = Some (after_at l ys)" using ring_links(1) [of h l "xs @ [x]" ys] chain by simp
  show "elist (cells h (Elem x)) = Some l" using owned(2) [OF rel, of x l] list_relD(3) [OF rel, of x l] xs by simp
qed

lemma after_at_Root: "after_at l ys = Root k \<longleftrightarrow> ys = [] \<and> k = l"
  by (cases ys) auto

lemma before_at_Root: "before_at l xs = Root k \<longleftrightarrow> xs = [] \<and> k = l"
  by (cases xs rule: rev_cases) auto

fun next_in :: "nat \<Rightarrow> nat list \<Rightarrow> nat option" where
  "next_in x [] = None"
| "next_in x (z # zs) = (if z = x then (case zs of [] \<Rightarrow> None | y # _ \<Rightarrow> Some y) else next_in x zs)"

lemma next_in_split: "x \<notin> set xs \<Longrightarrow> next_in x (xs @ x # ys) = (case ys of [] \<Rightarrow> None | y # _ \<Rightarrow> Some y)"
  by (induction xs) auto

lemma Next_split:
  assumes "list_rel h A" "contents A l = xs @ x # ys"
  shows "Element_Next h (Elem x) = (case ys of [] \<Rightarrow> None | y # _ \<Rightarrow> Some (Elem y))"
  using elem_links [OF assms] by (cases ys) (auto simp: Element_Next_def Let_def)

lemma Prev_split:
  assumes "list_rel h A" "contents A l = xs @ x # ys"
  shows "Element_Prev h (Elem x) = (case rev xs of [] \<Rightarrow> None | y # _ \<Rightarrow> Some (Elem y))"
  using elem_links [OF assms] by (cases xs rule: rev_cases) (auto simp: Element_Prev_def Let_def)

lemma Next_rel:
  assumes "list_rel h A" "x \<notin> stale A"
  shows "Element_Next h (Elem x) = (case owner A x of None \<Rightarrow> None | Some l \<Rightarrow> map_option Elem (next_in x (contents A l)))"
proof (cases "owner A x")
  case None
  then show ?thesis using list_relD(2) [OF assms] by (simp add: Element_Next_def Let_def)
next
  case (Some l)
  obtain xs ys where "contents A l = xs @ x # ys" "x \<notin> set (xs @ ys)" using elem_at [OF assms(1) Some] by metis
  then show ?thesis using Next_split [OF assms(1)] Some by (simp add: next_in_split split: list.split)
qed

lemma Prev_rel:
  assumes "list_rel h A" "x \<notin> stale A"
  shows "Element_Prev h (Elem x) = (case owner A x of None \<Rightarrow> None | Some l \<Rightarrow> map_option Elem (next_in x (rev (contents A l))))"
proof (cases "owner A x")
  case None
  then show ?thesis using list_relD(2) [OF assms] by (simp add: Element_Prev_def Let_def)
next
  case (Some l)
  obtain xs ys where "contents A l = xs @ x # ys" "x \<notin> set (xs @ ys)" using elem_at [OF assms(1) Some] by metis
  then show ?thesis using Prev_split [OF assms(1)] Some by (simp add: next_in_split split: list.split)
qed

lemma Front_Back_rel:
  assumes "list_rel h A"
  shows "List_Len h l = int (length (contents A l))"
    "List_Front h l = (case contents A l of [] \<Rightarrow> None | y # _ \<Rightarrow> Some (Elem y))"
    "List_Back h l = (case rev (contents A l) of [] \<Rightarrow> None | y # _ \<Rightarrow> Some (Elem y))"
proof -
  note D = list_relD(1,8) [OF assms, of l]
  show "List_Len h l = int (length (contents A l))" using D by (simp add: List_Len_def)
  show "List_Front h l = (case contents A l of [] \<Rightarrow> None | y # _ \<Rightarrow> Some (Elem y))"
  proof (cases "contents A l")
    case (Cons y ys)
    then show ?thesis using D ring_links(1) [of h l "[]" "y # ys"] by (auto simp: List_Front_def ring_ok_def)
  qed (use D in \<open>simp add: List_Front_def\<close>)
  show "List_Back h l = (case rev (contents A l) of [] \<Rightarrow> None | y # _ \<Rightarrow> Some (Elem y))"
  proof (cases "contents A l" rule: rev_cases)
    case (snoc ys y)
    then show ?thesis using D ring_links(2) [of h l "ys @ [y]" "[]"] by (auto simp: List_Back_def ring_ok_def)
  qed (use D in \<open>simp add: List_Back_def\<close>)
qed


section \<open>Insertions\<close>

fun put_before :: "nat \<Rightarrow> nat \<Rightarrow> nat list \<Rightarrow> nat list" where
  "put_before x m [] = []"
| "put_before x m (z # zs) = (if z = m then x # z # zs else z # put_before x m zs)"

fun put_after :: "nat \<Rightarrow> nat \<Rightarrow> nat list \<Rightarrow> nat list" where
  "put_after x m [] = []"
| "put_after x m (z # zs) = (if z = m then z # x # zs else z # put_after x m zs)"

lemma put_split [simp]:
  assumes "m \<notin> set us"
  shows "put_before x m (us @ m # vs) = us @ x # m # vs" "put_after x m (us @ m # vs) = us @ m # x # vs"
  using assms by (induction us) auto

lemma insert_back:
  assumes "list_rel h A" "chain h (ring_path l (contents A l))"
  shows "\<exists>h'. insertValue l v (eprev (cells h (Root l))) h = Inr (h', Elem (made A)) \<and> list_rel h' (add_elem l (contents A l @ [made A]) v A)
    \<and> chain h' (ring_path l (contents A l @ [made A]))"
  using insertValue_rel [OF assms, of "contents A l" "[]" v] ring_links(2) [of h l "contents A l" "[]"] assms(2) by simp

lemma insert_front:
  assumes "list_rel h A" "chain h (ring_path l (contents A l))"
  shows "\<exists>h'. insertValue l v (Some (Root l)) h = Inr (h', Elem (made A)) \<and> list_rel h' (add_elem l (made A # contents A l) v A)
    \<and> chain h' (ring_path l (made A # contents A l))"
  using insertValue_rel [OF assms, of "[]" "contents A l" v] by simp

lemma Push_rel:
  assumes "list_rel h A"
  shows "\<exists>h'. PushFront l v h = Inr (h', Elem (made A)) \<and> list_rel h' (add_elem l (made A # contents A l) v A)"
    "\<exists>h'. PushBack l v h = Inr (h', Elem (made A)) \<and> list_rel h' (add_elem l (contents A l @ [made A]) v A)"
  using insert_front [OF lazyInit_rel [OF assms, of l], of v] insert_back [OF lazyInit_rel [OF assms, of l], of v]
  by (auto simp: PushFront_def PushBack_def Let_def)

lemma Insert_rel:
  assumes rel: "list_rel h A" and m: "owner A m = Some l"
  shows "\<exists>h'. InsertBefore l v (Elem m) h = Inr (h', Some (Elem (made A))) \<and> list_rel h' (add_elem l (put_before (made A) m (contents A l)) v A)"
    "\<exists>h'. InsertAfter l v (Elem m) h = Inr (h', Some (Elem (made A))) \<and> list_rel h' (add_elem l (put_after (made A) m (contents A l)) v A)"
proof -
  obtain xs ys where xs: "contents A l = xs @ m # ys" and chain: "chain h (ring_path l (xs @ m # ys))" and nm: "m \<notin> set (xs @ ys)"
    and p: "eprev (cells h (Elem m)) = Some (before_at l xs)"
    using elem_at [OF assms] by metis
  have o: "elist (cells h (Elem m)) = Some l" using owned(2) [OF rel m] .
  show "\<exists>h'. InsertBefore l v (Elem m) h = Inr (h', Some (Elem (made A))) \<and> list_rel h' (add_elem l (put_before (made A) m (contents A l)) v A)"
    using insertValue_rel [OF rel, of l xs "m # ys" v] chain nm by (auto simp: InsertBefore_def o p xs)
  show "\<exists>h'. InsertAfter l v (Elem m) h = Inr (h', Some (Elem (made A))) \<and> list_rel h' (add_elem l (put_after (made A) m (contents A l)) v A)"
    using insertValue_rel [OF rel, of l "xs @ [m]" ys v] chain nm by (auto simp: InsertAfter_def o xs)
qed

section \<open>Moves\<close>

lemma place_same: "contents A l = zs \<Longrightarrow> place l zs A = A"
  by (auto simp: place_def)

lemma remove1_middle:
  assumes "distinct (xs @ m # ys)" "x \<noteq> m"
  shows "remove1 x (xs @ m # ys) = remove1 x xs @ m # remove1 x ys"
proof -
  have "remove1 x ys = ys" if "x \<in> set xs" using assms that by (intro remove1_idem) auto
  then show ?thesis using assms by (auto simp: remove1_append remove1_idem)
qed

lemma before_at_remove1:
  assumes "distinct xs" "before_at l xs \<noteq> Elem x"
  shows "before_at l (remove1 x xs) = before_at l xs"
  using assms by (cases xs rule: rev_cases) (auto simp: remove1_append)

lemma list_move_self: "list_move e (Some e) h = Inr h"
  by (simp add: list_move_def)

lemma MoveToFront_rel:
  assumes rel: "list_rel h A" and x: "owner A x = Some l"
  shows "\<exists>h'. MoveToFront l (Elem x) h = Inr h' \<and> list_rel h' (place l (x # remove1 x (contents A l)) A)"
proof -
  obtain xs ys where xs: "contents A l = xs @ x # ys" and chain: "chain h (ring_path l (xs @ x # ys))" and nx: "x \<notin> set (xs @ ys)"
    using elem_at [OF assms] by metis
  have first: "enext (cells h (Root l)) = Some (after_at l (xs @ x # ys))" using ring_links(1) [of h l "[]"] chain by simp
  have o: "elist (cells h (Elem x)) = Some l" using owned(2) [OF rel x] .
  show ?thesis
  proof (cases xs)
    case Nil
    then have "place l (x # remove1 x (contents A l)) A = A" using xs by (intro place_same) simp
    then show ?thesis using rel Nil by (simp add: MoveToFront_def first)
  next
    case (Cons y zs)
    then show ?thesis using move_rel [OF rel x, of "[]" "remove1 x (contents A l)"] nx first o by (simp add: MoveToFront_def)
  qed
qed

lemma MoveToBack_rel:
  assumes rel: "list_rel h A" and x: "owner A x = Some l"
  shows "\<exists>h'. MoveToBack l (Elem x) h = Inr h' \<and> list_rel h' (place l (remove1 x (contents A l) @ [x]) A)"
proof -
  obtain xs ys where xs: "contents A l = xs @ x # ys" and chain: "chain h (ring_path l (contents A l))" and nx: "x \<notin> set (xs @ ys)"
    using elem_at [OF assms] by metis
  have last: "eprev (cells h (Root l)) = Some (before_at l (contents A l))" using ring_links(2) [of h l "contents A l" "[]"] chain by simp
  have o: "elist (cells h (Elem x)) = Some l" using owned(2) [OF rel x] .
  show ?thesis
  proof (cases "before_at l (contents A l) = Elem x")
    case True
    then have "ys = []" using nx xs by (cases ys rule: rev_cases) (auto simp: before_at_def)
    then have "place l (remove1 x (contents A l) @ [x]) A = A" using nx xs by (intro place_same) (simp add: remove1_append)
    then show ?thesis using rel True by (simp add: MoveToBack_def last)
  next
    case False
    then have "before_at l (remove1 x (contents A l)) = before_at l (contents A l)"
      by (rule before_at_remove1 [OF list_relD(7) [OF rel]])
    then show ?thesis using move_rel [OF rel x, of "remove1 x (contents A l)" "[]"] False o last by (simp add: MoveToBack_def)
  qed
qed

lemma MoveBefore_rel:
  assumes rel: "list_rel h A" and x: "owner A x = Some l" and m: "owner A m = Some l" and ne: "x \<noteq> m"
  shows "\<exists>h'. MoveBefore l (Elem x) (Elem m) h = Inr h' \<and> list_rel h' (place l (put_before x m (remove1 x (contents A l))) A)"
proof -
  obtain xs ys where xs: "contents A l = xs @ m # ys" and nm: "m \<notin> set (xs @ ys)"
    and p: "eprev (cells h (Elem m)) = Some (before_at l xs)"
    using elem_at [OF rel m] by metis
  have d: "distinct (xs @ m # ys)" using list_relD(7) [OF rel, of l] xs by simp
  have rem: "remove1 x (contents A l) = remove1 x xs @ m # remove1 x ys" using remove1_middle [OF d ne] xs by simp
  have put: "put_before x m (remove1 x (contents A l)) = remove1 x xs @ x # m # remove1 x ys"
    using nm rem set_remove1_subset [of x xs] by (auto simp del: set_remove1_eq)
  have o: "elist (cells h (Elem x)) = Some l" "elist (cells h (Elem m)) = Some l" using owned(2) [OF rel x] owned(2) [OF rel m] by simp_all
  show ?thesis
  proof (cases "before_at l xs = Elem x")
    case True
    then obtain zs where "xs = zs @ [x]" by (cases xs rule: rev_cases) auto
    then have "contents A l = remove1 x xs @ x # m # remove1 x ys" using d xs by (auto simp: remove1_append remove1_idem)
    then have "place l (put_before x m (remove1 x (contents A l))) A = A" unfolding put by (rule place_same)
    then show ?thesis using rel True ne by (simp add: MoveBefore_def p o list_move_self)
  next
    case False
    have "before_at l (remove1 x xs) = before_at l xs" by (rule before_at_remove1 [OF _ False]) (use d in simp)
    then show ?thesis using move_rel [OF rel x rem] ne o p unfolding put by (simp add: MoveBefore_def)
  qed
qed

lemma MoveAfter_rel:
  assumes rel: "list_rel h A" and x: "owner A x = Some l" and m: "owner A m = Some l" and ne: "x \<noteq> m"
  shows "\<exists>h'. MoveAfter l (Elem x) (Elem m) h = Inr h' \<and> list_rel h' (place l (put_after x m (remove1 x (contents A l))) A)"
proof -
  obtain xs ys where xs: "contents A l = xs @ m # ys" and nm: "m \<notin> set (xs @ ys)" using elem_at [OF rel m] by metis
  have d: "distinct (xs @ m # ys)" using list_relD(7) [OF rel, of l] xs by simp
  have rem: "remove1 x (contents A l) = remove1 x xs @ m # remove1 x ys" using remove1_middle [OF d ne] xs by simp
  have put: "put_after x m (remove1 x (contents A l)) = (remove1 x xs @ [m]) @ x # remove1 x ys"
    using nm rem set_remove1_subset [of x xs] by (auto simp del: set_remove1_eq)
  have o: "elist (cells h (Elem x)) = Some l" "elist (cells h (Elem m)) = Some l" using owned(2) [OF rel x] owned(2) [OF rel m] by simp_all
  show ?thesis using move_rel [OF rel x, of "remove1 x xs @ [m]" "remove1 x ys"] rem ne o unfolding put by (simp add: MoveAfter_def)
qed


section \<open>Copies\<close>

definition push_back :: "nat \<Rightarrow> 'v option \<Rightarrow> 'v lists \<Rightarrow> 'v lists" where
  "push_back l v A = add_elem l (contents A l @ [made A]) v A"

definition push_front :: "nat \<Rightarrow> 'v option \<Rightarrow> 'v lists \<Rightarrow> 'v lists" where
  "push_front l v A = add_elem l (made A # contents A l) v A"

lemma contents_push:
  "contents (push_back l v A) l = contents A l @ [made A]" "contents (push_front l v A) l = made A # contents A l"
  by (simp_all add: push_back_def push_front_def add_elem_def)

lemma vals_push:
  assumes "list_rel h A" "set rest \<subseteq> set (contents A k)"
  shows "map (vals (add_elem l zs v A)) rest = map (vals A) rest"
  using assms(2) list_relD(3,4) [OF assms(1), of _ k] by (force simp: add_elem_def)

lemma PushBackList_loop_rel:
  assumes "list_rel h A" "chain h (ring_path l (contents A l))" "contents A k = pre @ rest @ extra"
    "rest \<noteq> [] \<Longrightarrow> e = Some (Elem (hd rest))"
  shows "\<exists>h'. PushBackList_loop (length rest) l e h = Inr h' \<and> list_rel h' (fold (push_back l) (map (vals A) rest) A)"
  using assms
proof (induction rest arbitrary: h A pre extra e)
  case (Cons x rest)
  note rel = Cons.prems(1) and chain = Cons.prems(2) and xs = Cons.prems(3)
  obtain h1 where ins: "insertValue l (vals A x) (eprev (cells h (Root l))) h = Inr (h1, Elem (made A))"
    and rel1: "list_rel h1 (push_back l (vals A x) A)" and chain1: "chain h1 (ring_path l (contents A l @ [made A]))"
    using insert_back [OF rel chain, of "vals A x"] unfolding push_back_def by blast
  define extra1 where "extra1 = (if k = l then extra @ [made A] else extra)"
  have xs1: "contents (push_back l (vals A x) A) k = (pre @ [x]) @ rest @ extra1"
    using xs by (auto simp: push_back_def add_elem_def extra1_def)
  have next1: "rest \<noteq> [] \<Longrightarrow> Element_Next h1 (Elem x) = Some (Elem (hd rest))"
    using Next_split [OF rel1, of k pre x "rest @ extra1"] xs1 by (cases rest) simp_all
  obtain h2 where "PushBackList_loop (length rest) l (Element_Next h1 (Elem x)) h1 = Inr h2"
    "list_rel h2 (fold (push_back l) (map (vals (push_back l (vals A x) A)) rest) (push_back l (vals A x) A))"
    using Cons.IH [OF rel1 _ xs1 next1] chain1 contents_push(1) [of l "vals A x" A] by auto
  moreover have "map (vals (push_back l (vals A x) A)) rest = map (vals A) rest"
    unfolding push_back_def by (rule vals_push [OF rel, of _ k]) (use xs in auto)
  ultimately show ?case using Cons.prems(4) ins list_relD(5) [OF rel, of x] by simp
qed simp

lemma PushFrontList_loop_rel:
  assumes "list_rel h A" "chain h (ring_path l (contents A l))" "contents A k = extra @ rev rest @ post"
    "rest \<noteq> [] \<Longrightarrow> e = Some (Elem (hd rest))"
  shows "\<exists>h'. PushFrontList_loop (length rest) l e h = Inr h' \<and> list_rel h' (fold (push_front l) (map (vals A) rest) A)"
  using assms
proof (induction rest arbitrary: h A post extra e)
  case (Cons x rest)
  note rel = Cons.prems(1) and chain = Cons.prems(2) and xs = Cons.prems(3)
  obtain h1 where ins: "insertValue l (vals A x) (Some (Root l)) h = Inr (h1, Elem (made A))"
    and rel1: "list_rel h1 (push_front l (vals A x) A)" and chain1: "chain h1 (ring_path l (made A # contents A l))"
    using insert_front [OF rel chain, of "vals A x"] unfolding push_front_def by blast
  define extra1 where "extra1 = (if k = l then made A # extra else extra)"
  have xs1: "contents (push_front l (vals A x) A) k = extra1 @ rev rest @ x # post"
    using xs by (auto simp: push_front_def add_elem_def extra1_def)
  have next1: "rest \<noteq> [] \<Longrightarrow> Element_Prev h1 (Elem x) = Some (Elem (hd rest))"
    using Prev_split [OF rel1, of k "extra1 @ rev rest" x post] xs1 by (cases rest) simp_all
  obtain h2 where "PushFrontList_loop (length rest) l (Element_Prev h1 (Elem x)) h1 = Inr h2"
    "list_rel h2 (fold (push_front l) (map (vals (push_front l (vals A x) A)) rest) (push_front l (vals A x) A))"
    using Cons.IH [OF rel1 _ xs1 next1] chain1 contents_push(2) [of l "vals A x" A] by auto
  moreover have "map (vals (push_front l (vals A x) A)) rest = map (vals A) rest"
    unfolding push_front_def by (rule vals_push [OF rel, of _ k]) (use xs in auto)
  ultimately show ?case using Cons.prems(4) ins list_relD(5) [OF rel, of x] by simp
qed simp

lemma PushBackList_rel:
  assumes "list_rel h A"
  shows "\<exists>h'. PushBackList l k h = Inr h' \<and> list_rel h' (fold (push_back l) (map (vals A) (contents A k)) A)"
proof -
  note rel = lazyInit_rel [OF assms, of l]
  have "contents A k \<noteq> [] \<Longrightarrow> List_Front (lazyInit l h) k = Some (Elem (hd (contents A k)))"
    using Front_Back_rel(2) [OF rel(1), of k] by (cases "contents A k") simp_all
  then show ?thesis
    using PushBackList_loop_rel [OF rel, of k "[]" "contents A k" "[]" "List_Front (lazyInit l h) k"] Front_Back_rel(1) [OF rel(1), of k]
    by (simp add: PushBackList_def Let_def)
qed

lemma PushFrontList_rel:
  assumes "list_rel h A"
  shows "\<exists>h'. PushFrontList l k h = Inr h' \<and> list_rel h' (fold (push_front l) (map (vals A) (rev (contents A k))) A)"
proof -
  note rel = lazyInit_rel [OF assms, of l]
  have "contents A k \<noteq> [] \<Longrightarrow> List_Back (lazyInit l h) k = Some (Elem (hd (rev (contents A k))))"
    using Front_Back_rel(3) [OF rel(1), of k] by (cases "contents A k" rule: rev_cases) simp_all
  then show ?thesis
    using PushFrontList_loop_rel [OF rel, of k "[]" "rev (contents A k)" "[]" "List_Back (lazyInit l h) k"] Front_Back_rel(1) [OF rel(1), of k]
    by (simp add: PushFrontList_def Let_def)
qed

section \<open>Sequences of calls\<close>

datatype 'v list_op =
    OInit nat
  | OPushFront nat "'v option" | OPushBack nat "'v option"
  | OInsertBefore nat "'v option" nat | OInsertAfter nat "'v option" nat
  | ORemove nat nat
  | OMoveToFront nat nat | OMoveToBack nat nat | OMoveBefore nat nat nat | OMoveAfter nat nat nat
  | OPushBackList nat nat | OPushFrontList nat nat
  | ONext nat | OPrev nat | OFront nat | OBack nat | OLen nat

datatype 'v list_out = RNone | RRef "ref option" | RVal "'v option" | RInt int

fun run_op :: "'v list_op \<Rightarrow> 'v list_store \<Rightarrow> ('v list_store \<times> 'v list_out) go" where
  "run_op (OInit l) h = Inr (List_Init l h, RNone)"
| "run_op (OPushFront l v) h = bind_go (PushFront l v h) (\<lambda>(h, e). Inr (h, RRef (Some e)))"
| "run_op (OPushBack l v) h = bind_go (PushBack l v h) (\<lambda>(h, e). Inr (h, RRef (Some e)))"
| "run_op (OInsertBefore l v m) h = bind_go (InsertBefore l v (Elem m) h) (\<lambda>(h, e). Inr (h, RRef e))"
| "run_op (OInsertAfter l v m) h = bind_go (InsertAfter l v (Elem m) h) (\<lambda>(h, e). Inr (h, RRef e))"
| "run_op (ORemove l x) h = bind_go (List_Remove l (Elem x) h) (\<lambda>(h, v). Inr (h, RVal v))"
| "run_op (OMoveToFront l x) h = bind_go (MoveToFront l (Elem x) h) (\<lambda>h. Inr (h, RNone))"
| "run_op (OMoveToBack l x) h = bind_go (MoveToBack l (Elem x) h) (\<lambda>h. Inr (h, RNone))"
| "run_op (OMoveBefore l x m) h = bind_go (MoveBefore l (Elem x) (Elem m) h) (\<lambda>h. Inr (h, RNone))"
| "run_op (OMoveAfter l x m) h = bind_go (MoveAfter l (Elem x) (Elem m) h) (\<lambda>h. Inr (h, RNone))"
| "run_op (OPushBackList l k) h = bind_go (PushBackList l k h) (\<lambda>h. Inr (h, RNone))"
| "run_op (OPushFrontList l k) h = bind_go (PushFrontList l k h) (\<lambda>h. Inr (h, RNone))"
| "run_op (ONext x) h = Inr (h, RRef (Element_Next h (Elem x)))"
| "run_op (OPrev x) h = Inr (h, RRef (Element_Prev h (Elem x)))"
| "run_op (OFront l) h = Inr (h, RRef (List_Front h l))"
| "run_op (OBack l) h = Inr (h, RRef (List_Back h l))"
| "run_op (OLen l) h = Inr (h, RInt (List_Len h l))"

text \<open>The specification, on lists of elements: an operation on an element of another list does nothing.\<close>

definition when_in :: "nat \<Rightarrow> nat \<Rightarrow> ('v lists \<Rightarrow> 'v lists) \<Rightarrow> 'v lists \<Rightarrow> 'v lists" where
  "when_in l x f A = (if owner A x = Some l then f A else A)"

definition move_spec :: "nat \<Rightarrow> nat \<Rightarrow> (nat list \<Rightarrow> nat list) \<Rightarrow> 'v lists \<Rightarrow> 'v lists" where
  "move_spec l x f A = place l (f (remove1 x (contents A l))) A"

definition hd_ref :: "nat list \<Rightarrow> ref option" where
  "hd_ref xs = (case xs of [] \<Rightarrow> None | y # _ \<Rightarrow> Some (Elem y))"

text \<open>\<open>Init\<close> empties a list; its elements are in no list any more.\<close>

definition drop_all :: "nat \<Rightarrow> 'v lists \<Rightarrow> 'v lists" where
  "drop_all l A =
     A\<lparr>contents := (contents A)(l := []), owner := (\<lambda>x. if owner A x = Some l then None else owner A x),
       stale := stale A \<union> set (contents A l)\<rparr>"

fun spec_op :: "'v list_op \<Rightarrow> 'v lists \<Rightarrow> 'v lists \<times> 'v list_out" where
  "spec_op (OInit l) A = (drop_all l A, RNone)"
| "spec_op (OPushFront l v) A = (push_front l v A, RRef (Some (Elem (made A))))"
| "spec_op (OPushBack l v) A = (push_back l v A, RRef (Some (Elem (made A))))"
| "spec_op (OInsertBefore l v m) A =
     (if owner A m = Some l then (add_elem l (put_before (made A) m (contents A l)) v A, RRef (Some (Elem (made A)))) else (A, RRef None))"
| "spec_op (OInsertAfter l v m) A =
     (if owner A m = Some l then (add_elem l (put_after (made A) m (contents A l)) v A, RRef (Some (Elem (made A)))) else (A, RRef None))"
| "spec_op (ORemove l x) A = (when_in l x (del_elem l x) A, RVal (vals A x))"
| "spec_op (OMoveToFront l x) A = (when_in l x (move_spec l x (\<lambda>zs. x # zs)) A, RNone)"
| "spec_op (OMoveToBack l x) A = (when_in l x (move_spec l x (\<lambda>zs. zs @ [x])) A, RNone)"
| "spec_op (OMoveBefore l x m) A =
     ((if x = m then A else when_in l m (when_in l x (move_spec l x (put_before x m))) A), RNone)"
| "spec_op (OMoveAfter l x m) A =
     ((if x = m then A else when_in l m (when_in l x (move_spec l x (put_after x m))) A), RNone)"
| "spec_op (OPushBackList l k) A = (fold (push_back l) (map (vals A) (contents A k)) A, RNone)"
| "spec_op (OPushFrontList l k) A = (fold (push_front l) (map (vals A) (rev (contents A k))) A, RNone)"
| "spec_op (ONext x) A = (A, RRef (case owner A x of None \<Rightarrow> None | Some l \<Rightarrow> map_option Elem (next_in x (contents A l))))"
| "spec_op (OPrev x) A = (A, RRef (case owner A x of None \<Rightarrow> None | Some l \<Rightarrow> map_option Elem (next_in x (rev (contents A l)))))"
| "spec_op (OFront l) A = (A, RRef (hd_ref (contents A l)))"
| "spec_op (OBack l) A = (A, RRef (hd_ref (rev (contents A l))))"
| "spec_op (OLen l) A = (A, RInt (int (length (contents A l))))"

text \<open>The elements a call names, and the contract of a sequence of calls.\<close>

fun op_elems :: "'v list_op \<Rightarrow> nat list" where
  "op_elems (OInsertBefore l v m) = [m]"
| "op_elems (OInsertAfter l v m) = [m]"
| "op_elems (ORemove l x) = [x]"
| "op_elems (OMoveToFront l x) = [x]"
| "op_elems (OMoveToBack l x) = [x]"
| "op_elems (OMoveBefore l x m) = [x, m]"
| "op_elems (OMoveAfter l x m) = [x, m]"
| "op_elems (ONext x) = [x]"
| "op_elems (OPrev x) = [x]"
| "op_elems _ = []"

fun ops_ok :: "'v list_op list \<Rightarrow> 'v lists \<Rightarrow> bool" where
  "ops_ok [] A = True"
| "ops_ok (c # cs) A = (list_all (\<lambda>x. x \<notin> stale A) (op_elems c) \<and> ops_ok cs (fst (spec_op c A)))"

lemma Init_rel:
  assumes rel: "list_rel h A"
  shows "list_rel (List_Init l h) (drop_all l A)"
  unfolding drop_all_def
proof (rule list_rel_update_stale [OF rel])
  show "chain (List_Init l h) (ring_path l [])" by (simp add: ring_path_def List_Init_def)
  show "elist (cells (List_Init l h) (Elem x)) = (if owner A x = Some l then None else owner A x)"
    if "x \<notin> stale A \<union> set (contents A l)" for x
    using that list_relD(2,3) [OF rel, of x] by (auto simp: List_Init_def)
  show "(if owner A x = Some l then None else owner A x) = None \<and> x < made A" if "x \<in> stale A \<union> set (contents A l)" for x
    using that list_relD(3,4,9,10) [OF rel, of x] by auto
  show "((if owner A x = Some l then None else owner A x) = Some k) = (x \<in> set (((contents A)(l := [])) k))" for x k
    using list_relD(3) [OF rel, of x k] list_relD(3) [OF rel, of x l] by auto
qed (simp_all add: List_Init_def set_len_def)

lemma not_in: "list_rel h A \<Longrightarrow> x \<notin> stale A \<Longrightarrow> owner A x \<noteq> Some l \<Longrightarrow> elist (cells h (Elem x)) \<noteq> Some l"
  using list_relD(2) [of h A x] by auto

lemma no_op:
  "elist (cells h e) \<noteq> Some l \<Longrightarrow> InsertBefore l v e h = Inr (h, None)"
  "elist (cells h e) \<noteq> Some l \<Longrightarrow> InsertAfter l v e h = Inr (h, None)"
  "elist (cells h e) \<noteq> Some l \<Longrightarrow> MoveToFront l e h = Inr h"
  "elist (cells h e) \<noteq> Some l \<Longrightarrow> MoveToBack l e h = Inr h"
  "elist (cells h e) \<noteq> Some l \<or> elist (cells h m) \<noteq> Some l \<or> e = m \<Longrightarrow> MoveBefore l e m h = Inr h"
  "elist (cells h e) \<noteq> Some l \<or> elist (cells h m) \<noteq> Some l \<or> e = m \<Longrightarrow> MoveAfter l e m h = Inr h"
  by (auto simp: InsertBefore_def InsertAfter_def MoveToFront_def MoveToBack_def MoveBefore_def MoveAfter_def)

lemma List_Remove_rel:
  assumes rel: "list_rel h A" and fresh: "x \<notin> stale A"
  shows "\<exists>h'. List_Remove l (Elem x) h = Inr (h', vals A x) \<and> list_rel h' (when_in l x (del_elem l x) A)"
proof (cases "owner A x = Some l")
  case True
  then show ?thesis using Remove_rel [OF rel True] list_relD(2) [OF rel fresh] by (auto simp: List_Remove_def when_in_def)
next
  case False
  then show ?thesis using rel not_in [OF rel fresh False] list_relD(5) [OF rel, of x] by (simp add: List_Remove_def when_in_def)
qed

lemma run_op_rel:
  assumes rel: "list_rel h A" and ok: "list_all (\<lambda>x. x \<notin> stale A) (op_elems c)"
  shows "\<exists>h'. run_op c h = Inr (h', snd (spec_op c A)) \<and> list_rel h' (fst (spec_op c A))"
proof (cases c)
  case (OInit l)
  then show ?thesis using Init_rel [OF rel, of l] by simp
next
  case (OPushFront l v)
  then show ?thesis using Push_rel(1) [OF rel, of l v] by (auto simp: push_front_def)
next
  case (OPushBack l v)
  then show ?thesis using Push_rel(2) [OF rel, of l v] by (auto simp: push_back_def)
next
  case (OInsertBefore l v m)
  then show ?thesis using Insert_rel(1) [OF rel, of m l v] not_in [OF rel, of m l] rel ok
    by (cases "owner A m = Some l") (auto simp: no_op)
next
  case (OInsertAfter l v m)
  then show ?thesis using Insert_rel(2) [OF rel, of m l v] not_in [OF rel, of m l] rel ok
    by (cases "owner A m = Some l") (auto simp: no_op)
next
  case (ORemove l x)
  then show ?thesis using List_Remove_rel [OF rel, of x l] ok by auto
next
  case (OMoveToFront l x)
  then show ?thesis using MoveToFront_rel [OF rel, of x l] not_in [OF rel, of x l] rel ok
    by (cases "owner A x = Some l") (auto simp: no_op when_in_def move_spec_def)
next
  case (OMoveToBack l x)
  then show ?thesis using MoveToBack_rel [OF rel, of x l] not_in [OF rel, of x l] rel ok
    by (cases "owner A x = Some l") (auto simp: no_op when_in_def move_spec_def)
next
  case (OMoveBefore l x m)
  then show ?thesis using MoveBefore_rel [OF rel, of x l m] not_in [OF rel, of x l] not_in [OF rel, of m l] rel ok
    by (cases "owner A x = Some l \<and> owner A m = Some l \<and> x \<noteq> m") (auto simp: no_op when_in_def move_spec_def)
next
  case (OMoveAfter l x m)
  then show ?thesis using MoveAfter_rel [OF rel, of x l m] not_in [OF rel, of x l] not_in [OF rel, of m l] rel ok
    by (cases "owner A x = Some l \<and> owner A m = Some l \<and> x \<noteq> m") (auto simp: no_op when_in_def move_spec_def)
next
  case (OPushBackList l k)
  then show ?thesis using PushBackList_rel [OF rel, of l k] by auto
next
  case (OPushFrontList l k)
  then show ?thesis using PushFrontList_rel [OF rel, of l k] by auto
next
  case (ONext x)
  then show ?thesis using rel ok Next_rel [OF rel, of x] by simp
next
  case (OPrev x)
  then show ?thesis using rel ok Prev_rel [OF rel, of x] by simp
qed (use rel in \<open>simp_all add: Front_Back_rel hd_ref_def\<close>)

fun run_ops :: "'v list_op list \<Rightarrow> 'v list_store \<Rightarrow> ('v list_store \<times> 'v list_out list) go" where
  "run_ops [] h = Inr (h, [])"
| "run_ops (c # cs) h =
     bind_go (run_op c h) (\<lambda>(h, r). bind_go (run_ops cs h) (\<lambda>(h, rs). Inr (h, r # rs)))"

fun spec_ops :: "'v list_op list \<Rightarrow> 'v lists \<Rightarrow> 'v lists \<times> 'v list_out list" where
  "spec_ops [] A = (A, [])"
| "spec_ops (c # cs) A =
     (let (A, r) = spec_op c A; (A, rs) = spec_ops cs A in (A, r # rs))"

lemma run_ops_rel:
  assumes "list_rel h A" "ops_ok cs A"
  shows "\<exists>h'. run_ops cs h = Inr (h', snd (spec_ops cs A)) \<and> list_rel h' (fst (spec_ops cs A))"
  using assms
proof (induction cs arbitrary: h A)
  case (Cons c cs)
  obtain h1 where h1: "run_op c h = Inr (h1, snd (spec_op c A))" "list_rel h1 (fst (spec_op c A))"
    using run_op_rel [OF Cons.prems(1)] Cons.prems(2) by auto
  obtain h2 where h2: "run_ops cs h1 = Inr (h2, snd (spec_ops cs (fst (spec_op c A))))" "list_rel h2 (fst (spec_ops cs (fst (spec_op c A))))"
    using Cons.IH [OF h1(2)] Cons.prems(2) by auto
  show ?case using h1(1) h2 by (simp add: Let_def split_beta)
qed simp

definition zero_store :: "'v list_store" where
  "zero_store = \<lparr>cells = (\<lambda>_. \<lparr>enext = None, eprev = None, elist = None, Value = None\<rparr>), lens = (\<lambda>_. 0), allocated = 0\<rparr>"

definition no_lists :: "'v lists" where
  "no_lists = \<lparr>contents = (\<lambda>_. []), owner = (\<lambda>_. None), vals = (\<lambda>_. None), made = 0, stale = {}\<rparr>"

lemma zero_rel: "list_rel zero_store no_lists"
  by (simp add: list_rel_def ring_ok_def zero_store_def no_lists_def)


section \<open>Iteration\<close>

text \<open>The loop \<open>for e := l.Front(); e != nil; e = e.Next()\<close> of the package documentation, with fuel.\<close>

fun walk :: "('v list_store \<Rightarrow> ref \<Rightarrow> ref option) \<Rightarrow> nat \<Rightarrow> 'v list_store \<Rightarrow> ref option \<Rightarrow> ref list option" where
  "walk step n h None = Some []"
| "walk step 0 h (Some e) = None"
| "walk step (Suc n) h (Some e) = map_option ((#) e) (walk step n h (step h e))"

lemma walk_Next:
  assumes "list_rel h A" "contents A l = xs @ ys"
  shows "walk Element_Next (length ys) h (hd_ref ys) = Some (map Elem ys)"
  using assms(2)
proof (induction ys arbitrary: xs)
  case (Cons y ys)
  have "Element_Next h (Elem y) = hd_ref ys" using Next_split [OF assms(1) Cons.prems] by (simp add: hd_ref_def)
  moreover have "walk Element_Next (length ys) h (hd_ref ys) = Some (map Elem ys)"
    by (rule Cons.IH [of "xs @ [y]"]) (use Cons.prems in simp)
  ultimately show ?case by (simp add: hd_ref_def [of "y # ys"])
qed (simp add: hd_ref_def)

lemma walk_Prev:
  assumes "list_rel h A" "contents A l = rev ys @ xs"
  shows "walk Element_Prev (length ys) h (hd_ref ys) = Some (map Elem ys)"
  using assms(2)
proof (induction ys arbitrary: xs)
  case (Cons y ys)
  have "Element_Prev h (Elem y) = hd_ref ys" using Prev_split [OF assms(1), of l "rev ys" y xs] Cons.prems by (simp add: hd_ref_def)
  moreover have "walk Element_Prev (length ys) h (hd_ref ys) = Some (map Elem ys)"
    by (rule Cons.IH [of "y # xs"]) (use Cons.prems in simp)
  ultimately show ?case by (simp add: hd_ref_def [of "y # ys"])
qed (simp add: hd_ref_def)

lemma iteration_rel:
  assumes "list_rel h A"
  shows "\<exists>es. walk Element_Next (nat (List_Len h l)) h (List_Front h l) = Some es \<and>
    walk Element_Prev (nat (List_Len h l)) h (List_Back h l) = Some (rev es) \<and> int (length es) = List_Len h l \<and> distinct es"
  using walk_Next [OF assms, of l "[]" "contents A l"] walk_Prev [OF assms, of l "rev (contents A l)" "[]"]
    Front_Back_rel [OF assms, of l] list_relD(7) [OF assms, of l]
  by (auto simp: hd_ref_def rev_map distinct_map inj_on_def)

section \<open>Elements that Init dropped\<close>

lemma Remove_dropped:
  assumes rel: "list_rel h A" and x: "owner A x = Some l"
  shows "\<exists>h'. List_Remove l (Elem x) (List_Init l h) = Inr (h', vals A x) \<and> List_Len h' l = - 1"
proof -
  obtain xs ys where nx: "x \<notin> set (xs @ ys)"
    and p: "eprev (cells h (Elem x)) = Some (before_at l xs)" "enext (cells h (Elem x)) = Some (after_at l ys)"
    using elem_at [OF assms] by metis
  have ne: "Elem x \<noteq> before_at l xs" using nx before_after_mem(1) [of l xs] by auto
  have p': "eprev (cells (List_Init l h) (Elem x)) = Some (before_at l xs)" "enext (cells (List_Init l h) (Elem x)) = Some (after_at l ys)"
    "elist (cells (List_Init l h) (Elem x)) = Some l" "lens (List_Init l h) l = 0" "Value (cells (List_Init l h) (Elem x)) = vals A x"
    using p owned(2) [OF assms] list_relD(5) [OF rel, of x] by (simp_all add: List_Init_def set_len_def)
  show ?thesis
    using list_remove_unlink [OF p'(1,2) ne, of l] p'(3-5) by (simp add: List_Remove_def List_Len_def unlink_def set_len_def [of _ "- 1"])
qed

section \<open>Properties\<close>

text \<open>C16. A sequence of calls of the methods, \<open>Init\<close> included, on any number of lists that start as
  zero values, in which no call names an element that an earlier \<open>Init\<close> dropped, never panics, returns
  what the specification on plain lists returns, and leaves rings that represent its lists.\<close>

theorem lists_refine:
  assumes "ops_ok cs no_lists"
  shows "\<exists>h. run_ops cs zero_store = Inr (h, snd (spec_ops cs no_lists)) \<and> list_rel h (fst (spec_ops cs no_lists))"
  by (rule run_ops_rel [OF zero_rel assms])

theorem lists_refine_witness:
  "snd (spec_ops [OPushBack 0 (Some CHR ''a''), OPushFront 0 (Some CHR ''b''), OPushBack 1 None, OInit 1, OMoveToBack 0 1, OInsertBefore 0 (Some CHR ''c'') 1,
      OPushBackList 1 0, ONext 0, ORemove 0 3, OLen 0, OLen 1] no_lists) =
    [RRef (Some (Elem 0)), RRef (Some (Elem 1)), RRef (Some (Elem 2)), RNone, RNone, RRef (Some (Elem 3)), RNone, RRef (Some (Elem 3)),
     RVal (Some CHR ''c''), RInt 2, RInt 3] \<and>
   (\<exists>h. run_ops [OPushBack 0 (Some CHR ''a''), OPushFront 0 (Some CHR ''b''), OPushBack 1 None, OInit 1, OMoveToBack 0 1, OInsertBefore 0 (Some CHR ''c'') 1,
      OPushBackList 1 0, ONext 0, ORemove 0 3, OLen 0, OLen 1] zero_store =
    Inr (h, [RRef (Some (Elem 0)), RRef (Some (Elem 1)), RRef (Some (Elem 2)), RNone, RNone, RRef (Some (Elem 3)), RNone, RRef (Some (Elem 3)),
     RVal (Some CHR ''c''), RInt 2, RInt 3]))"
  using lists_refine [of "[OPushBack 0 (Some CHR ''a''), OPushFront 0 (Some CHR ''b''), OPushBack 1 None, OInit 1, OMoveToBack 0 1,
      OInsertBefore 0 (Some CHR ''c'') 1, OPushBackList 1 0, ONext 0, ORemove 0 3, OLen 0, OLen 1]"]
  by (auto simp: no_lists_def push_front_def push_back_def add_elem_def when_in_def move_spec_def place_def del_elem_def drop_all_def Let_def)

text \<open>C23. After a sequence of calls that keeps the contract the documented loop over a list ends after as
  many steps as \<open>Len\<close> says, visits no element twice, and the loop from the back visits the same elements
  in the opposite order.\<close>

theorem lists_iterate:
  assumes "ops_ok cs no_lists"
  shows "case run_ops cs zero_store of Inl e \<Rightarrow> False
   | Inr (h, rs) \<Rightarrow>
       \<exists>es. walk Element_Next (nat (List_Len h l)) h (List_Front h l) = Some es \<and>
         walk Element_Prev (nat (List_Len h l)) h (List_Back h l) = Some (rev es) \<and> int (length es) = List_Len h l \<and> distinct es"
proof -
  obtain h where "run_ops cs zero_store = Inr (h, snd (spec_ops cs no_lists))" "list_rel h (fst (spec_ops cs no_lists))"
    using run_ops_rel [OF zero_rel assms] by blast
  then show ?thesis using iteration_rel by simp
qed

theorem lists_iterate_witness:
  "case run_ops [OPushBack 0 (Some True), OInit 0, OPushBack 0 None, OPushFront 0 (Some False)] zero_store of Inl e \<Rightarrow> False
   | Inr (h, rs) \<Rightarrow>
       \<exists>es. walk Element_Next (nat (List_Len h 0)) h (List_Front h 0) = Some es \<and>
         walk Element_Prev (nat (List_Len h 0)) h (List_Back h 0) = Some (rev es) \<and> int (length es) = List_Len h 0 \<and> distinct es"
  by (rule lists_iterate) simp

text \<open>C38. \<open>Init\<close> does not detach the elements of the list: after any sequence of calls that keeps the
  contract, a \<open>Remove\<close> of an element of the list that comes after its \<open>Init\<close>, although the element is no
  longer in it, returns its value and makes the length of the emptied list negative.\<close>

theorem Remove_after_Init:
  assumes "ops_ok cs no_lists" "x \<in> set (contents (fst (spec_ops cs no_lists)) l)"
  shows "\<exists>h. run_ops cs zero_store = Inr (h, snd (spec_ops cs no_lists)) \<and> List_Len (List_Init l h) l = 0 \<and>
    (\<exists>h'. List_Remove l (Elem x) (List_Init l h) = Inr (h', vals (fst (spec_ops cs no_lists)) x) \<and> List_Len h' l = - 1)"
proof -
  obtain h where h: "run_ops cs zero_store = Inr (h, snd (spec_ops cs no_lists))" "list_rel h (fst (spec_ops cs no_lists))"
    using run_ops_rel [OF zero_rel assms(1)] by blast
  have "owner (fst (spec_ops cs no_lists)) x = Some l" using list_relD(3) [OF h(2)] assms(2) by simp
  then show ?thesis using Remove_dropped [OF h(2)] h(1) by (auto simp: List_Len_def List_Init_def set_len_def)
qed

theorem Remove_after_Init_witness:
  "\<exists>h. run_ops [OPushBack 2 (Some True), OPushBack 2 (Some False)] zero_store = Inr (h, [RRef (Some (Elem 0)), RRef (Some (Elem 1))]) \<and>
    List_Len (List_Init 2 h) 2 = 0 \<and> (\<exists>h'. List_Remove 2 (Elem 1) (List_Init 2 h) = Inr (h', Some False) \<and> List_Len h' 2 = - 1)"
  using Remove_after_Init [of "[OPushBack 2 (Some True), OPushBack 2 (Some False)]" 1 2]
  by (simp add: no_lists_def push_back_def add_elem_def Let_def)

end
