(* ===== verification/Strconv.thy ===== *)
theory Strconv
  imports Bits
begin

text \<open>
  Integers and truth values as text: \<open>internal/strconv/atoi.go\<close>, \<open>itoa.go\<close> and \<open>atob.go\<close>, and the
  functions of \<open>strconv/number.go\<close> that give their errors the public types.

  A digit buffer that the code fills from its end is the list of the bytes written so far and
  the size of the array; a write in front of the array is the panic of the index expression.
  The platform is one of 64 bits, so \<open>int\<close> is \<open>int64\<close>.  Characters are their codes.
\<close>

section \<open>Parsing\<close>

definition lower :: "byte \<Rightarrow> byte" where
  "lower c = c OR (0x78 - 0x58)"

datatype strconv_Error = ErrRange | ErrSyntax | ErrBase | ErrBitSize

definition Error_string :: "strconv_Error \<Rightarrow> string" where
  "Error_string e =
     (case e of
        ErrRange \<Rightarrow> ''value out of range''
      | ErrSyntax \<Rightarrow> ''invalid syntax''
      | ErrBase \<Rightarrow> ''invalid base''
      | ErrBitSize \<Rightarrow> ''invalid bit size'')"

abbreviation IntSize :: int where "IntSize \<equiv> 64"

text \<open>
  The placement of underscores.  \<open>saw\<close> is the class of the last character: \<open>^\<close> (0x5E) for the
  beginning, \<open>0\<close> (0x30) for a digit or a prefix, \<open>_\<close> (0x5F), \<open>!\<close> (0x21) for anything else.
\<close>

fun underscoreOK_loop :: "bool \<Rightarrow> byte \<Rightarrow> gostring \<Rightarrow> bool" where
  "underscoreOK_loop hex saw [] = (saw \<noteq> 0x5F)"
| "underscoreOK_loop hex saw (c # s) =
     (if 0x30 \<le> c \<and> c \<le> 0x39 \<or> hex \<and> 0x61 \<le> lower c \<and> lower c \<le> 0x66 then underscoreOK_loop hex 0x30 s
      else if c = 0x5F then
        if saw \<noteq> 0x30 then False else underscoreOK_loop hex 0x5F s
      else if saw = 0x5F then False
      else underscoreOK_loop hex 0x21 s)"

definition underscoreOK :: "gostring \<Rightarrow> bool" where
  "underscoreOK s =
     (let s = (if length s \<ge> 1 \<and> (s ! 0 = 0x2D \<or> s ! 0 = 0x2B) then drop 1 s else s) in
      if length s \<ge> 2 \<and> s ! 0 = 0x30 \<and> (lower (s ! 1) = 0x62 \<or> lower (s ! 1) = 0x6F \<or> lower (s ! 1) = 0x78)
      then underscoreOK_loop (lower (s ! 1) = 0x78) 0x30 (drop 2 s)
      else underscoreOK_loop False 0x5E s)"

text \<open>The first switch of \<open>ParseUint\<close>: the base and what follows its prefix.\<close>

definition ParseUint_base :: "gostring \<Rightarrow> int \<Rightarrow> (int \<times> gostring) option" where
  "ParseUint_base s base =
     (if 2 \<le> base \<and> base \<le> 36 then Some (base, s)
      else if base = 0 then
        if s ! 0 = 0x30 then
          if length s \<ge> 3 \<and> lower (s ! 1) = 0x62 then Some (2, drop 2 s)
          else if length s \<ge> 3 \<and> lower (s ! 1) = 0x6F then Some (8, drop 2 s)
          else if length s \<ge> 3 \<and> lower (s ! 1) = 0x78 then Some (16, drop 2 s)
          else Some (8, drop 1 s)
        else Some (10, s)
      else None)"

text \<open>The digit that a character stands for.\<close>

definition ParseUint_digit :: "byte \<Rightarrow> byte option" where
  "ParseUint_digit c =
     (if 0x30 \<le> c \<and> c \<le> 0x39 then Some (c - 0x30)
      else if 0x61 \<le> lower c \<and> lower c \<le> 0x7A then Some (lower c - 0x61 + 10)
      else None)"

text \<open>The loop over the characters: the value and whether there were underscores, or the early return.\<close>

fun ParseUint_loop ::
  "bool \<Rightarrow> int \<Rightarrow> uint64 \<Rightarrow> uint64 \<Rightarrow> bool \<Rightarrow> uint64 \<Rightarrow> gostring \<Rightarrow> (uint64 \<times> strconv_Error) + (uint64 \<times> bool)"
where
  "ParseUint_loop base0 base cutoff maxVal underscores n [] = Inr (n, underscores)"
| "ParseUint_loop base0 base cutoff maxVal underscores n (c # s) =
     (if c = 0x5F \<and> base0 then ParseUint_loop base0 base cutoff maxVal True n s
      else
        case ParseUint_digit c of
          None \<Rightarrow> Inl (0, ErrSyntax)
        | Some d \<Rightarrow>
            if d \<ge> word_of_int base then Inl (0, ErrSyntax)
            else if n \<ge> cutoff then Inl (maxVal, ErrRange)
            else
              let n = n * word_of_int base; n1 = n + ucast d in
              if n1 < n \<or> n1 > maxVal then Inl (maxVal, ErrRange)
              else ParseUint_loop base0 base cutoff maxVal underscores n1 s)"

abbreviation maxUint64 :: uint64 where "maxUint64 \<equiv> - 1"

definition ParseUint :: "gostring \<Rightarrow> int \<Rightarrow> int \<Rightarrow> uint64 \<times> strconv_Error option" where
  "ParseUint s base bitSize =
     (if s = [] then (0, Some ErrSyntax)
      else
        let base0 = (base = 0); s0 = s in
        case ParseUint_base s base of
          None \<Rightarrow> (0, Some ErrBase)
        | Some (base, s) \<Rightarrow>
            if bitSize < 0 \<or> bitSize > 64 then (0, Some ErrBitSize)
            else
              let bitSize = (if bitSize = 0 then IntSize else bitSize);
                  cutoff =
                    (if base = 10 then maxUint64 div 10 + 1
                     else if base = 16 then maxUint64 div 16 + 1
                     else maxUint64 div word_of_int base + 1);
                  maxVal = push_bit (nat bitSize) 1 - 1
              in case ParseUint_loop base0 base cutoff maxVal False 0 s of
                   Inl (v, e) \<Rightarrow> (v, Some e)
                 | Inr (n, underscores) \<Rightarrow>
                     if underscores \<and> \<not> underscoreOK s0 then (0, Some ErrSyntax) else (n, None))"

definition ParseInt :: "gostring \<Rightarrow> int \<Rightarrow> int \<Rightarrow> int64 \<times> strconv_Error option" where
  "ParseInt s base bitSize =
     (if s = [] then (0, Some ErrSyntax)
      else
        let (neg, s) =
          (if s ! 0 = 0x2B then (False, drop 1 s) else if s ! 0 = 0x2D then (True, drop 1 s) else (False, s));
            (un, err) = ParseUint s base bitSize
        in if err \<noteq> None \<and> err \<noteq> Some ErrRange then (0, err)
           else
             let bitSize = (if bitSize = 0 then IntSize else bitSize); cutoff = push_bit (nat (bitSize - 1)) 1 in
             if \<not> neg \<and> un \<ge> cutoff then (cutoff - 1, Some ErrRange)
             else if neg \<and> un > cutoff then (- cutoff, Some ErrRange)
             else (if neg then - un else un, None))"

text \<open>\<open>Atoi\<close>, with its path for short texts.\<close>

fun Atoi_loop :: "int64 \<Rightarrow> gostring \<Rightarrow> int64 option" where
  "Atoi_loop n [] = Some n"
| "Atoi_loop n (c # s) = (let ch = c - 0x30 in if ch > 9 then None else Atoi_loop (n * 10 + ucast ch) s)"

definition Atoi :: "gostring \<Rightarrow> int64 \<times> strconv_Error option" where
  "Atoi s =
     (if 0 < length s \<and> length s < 19 then
        let s0 = s; s = (if s ! 0 = 0x2D \<or> s ! 0 = 0x2B then drop 1 s else s) in
        if (s0 ! 0 = 0x2D \<or> s0 ! 0 = 0x2B) \<and> length s < 1 then (0, Some ErrSyntax)
        else
          case Atoi_loop 0 s of
            None \<Rightarrow> (0, Some ErrSyntax)
          | Some n \<Rightarrow> (if s0 ! 0 = 0x2D then - n else n, None)
      else ParseInt s 10 0)"

section \<open>Formatting\<close>

definition digits :: gostring where
  "digits = bytes_of ''0123456789abcdefghijklmnopqrstuvwxyz''"

definition smalls :: gostring where
  "smalls = bytes_of
     (''00010203040506070809'' @
      ''10111213141516171819'' @
      ''20212223242526272829'' @
      ''30313233343536373839'' @
      ''40414243444546474849'' @
      ''50515253545556575859'' @
      ''60616263646566676869'' @
      ''70717273747576777879'' @
      ''80818283848586878889'' @
      ''90919293949596979899'')"

abbreviation nSmalls :: int64 where "nSmalls \<equiv> 100"

definition small :: "int64 \<Rightarrow> gostring" where
  "small i = (if i <s 10 then take 1 (drop (unat i) digits) else take 2 (drop (unat i * 2) smalls))"

text \<open>An index expression, and \<open>i--; a[i] = c\<close> on an array of \<open>cap\<close> bytes.\<close>

definition index_go :: "'a list \<Rightarrow> nat \<Rightarrow> 'a go" where
  "index_go xs k = (if k < length xs then Inr (xs ! k) else Inl IndexOutOfRange)"

definition put_front :: "nat \<Rightarrow> byte \<Rightarrow> byte list \<Rightarrow> byte list go" where
  "put_front cap c a = (if length a < cap then Inr (c # a) else Inl IndexOutOfRange)"

lemma put_front_length: "put_front cap c a = Inr a' \<Longrightarrow> cap - length a' < cap - length a"
  by (auto simp: put_front_def split: if_splits)

text \<open>The loops of \<open>formatBits\<close>: by shifts for a power of two, by division otherwise.\<close>

function formatBits_shift :: "nat \<Rightarrow> nat \<Rightarrow> uint64 \<Rightarrow> uint64 \<Rightarrow> uint64 \<Rightarrow> byte list \<Rightarrow> byte list go" where
  "formatBits_shift cap shift m b u a =
     (if u \<ge> b then
        bind_go (index_go digits (unat (u AND m))) (\<lambda>c.
        bind_go (put_front cap c a) (\<lambda>a. formatBits_shift cap shift m b (drop_bit shift u) a))
      else bind_go (index_go digits (unat u)) (\<lambda>c. put_front cap c a))"
  by auto
termination
  by (relation "measure (\<lambda>(cap, shift, m, b, u, a). cap - length a)") (auto dest: put_front_length)

function formatBits_div :: "nat \<Rightarrow> uint64 \<Rightarrow> uint64 \<Rightarrow> byte list \<Rightarrow> byte list go" where
  "formatBits_div cap b u a =
     (if u \<ge> b then
        let q = u div b in
        bind_go (index_go digits (unat (u - q * b))) (\<lambda>c.
        bind_go (put_front cap c a) (\<lambda>a. formatBits_div cap b q a))
      else bind_go (index_go digits (unat u)) (\<lambda>c. put_front cap c a))"
  by auto
termination
  by (relation "measure (\<lambda>(cap, b, u, a). cap - length a)") (auto dest: put_front_length)

declare formatBits_shift.simps [simp del] formatBits_div.simps [simp del]

definition isPowerOfTwo :: "int \<Rightarrow> bool" where
  "isPowerOfTwo x \<longleftrightarrow> x AND (x - 1) = 0"

definition formatBits :: "byte list \<Rightarrow> uint64 \<Rightarrow> int \<Rightarrow> bool \<Rightarrow> bool \<Rightarrow> (byte list \<times> gostring) go" where
  "formatBits dst u base neg app =
     (if base < 2 \<or> base = 10 \<or> base > int (length digits)
      then Inl (PanicMsg ''strconv: illegal AppendInt/FormatInt base'')
      else
        let cap = 64 + 1; u = (if neg then - u else u); b = word_of_int base in
        bind_go
          (if isPowerOfTwo base
           then formatBits_shift cap (TrailingZeros (word_of_int base)) (word_of_int base - 1) b u []
           else formatBits_div cap b u [])
          (\<lambda>a. bind_go (if neg then put_front cap 0x2D a else Inr a)
          (\<lambda>a. Inr (if app then (dst @ a, []) else ([], a)))))"

text \<open>\<open>formatBase10\<close>: two digits of a chunk, four times two digits, and the loops over the chunks.\<close>

definition put_two :: "nat \<Rightarrow> uint32 \<Rightarrow> byte list \<Rightarrow> byte list go" where
  "put_two cap dd a =
     bind_go (index_go smalls (unat (dd + 0))) (\<lambda>c0.
     bind_go (index_go smalls (unat (dd + 1))) (\<lambda>c1.
     bind_go (put_front cap c1 a) (\<lambda>a. put_front cap c0 a)))"

fun formatBase10_pairs :: "nat \<Rightarrow> nat \<Rightarrow> uint32 \<Rightarrow> byte list \<Rightarrow> (uint32 \<times> byte list) go" where
  "formatBase10_pairs 0 cap lo a = Inr (lo, a)"
| "formatBase10_pairs (Suc k) cap lo a =
     (let dd = (lo mod 100) * 2; lo = lo div 100 in
      bind_go (put_two cap dd a) (\<lambda>a. formatBase10_pairs k cap lo a))"

text \<open>The final chunk, at most 8 digits.\<close>

function formatBase10_final :: "nat \<Rightarrow> uint32 \<Rightarrow> byte list \<Rightarrow> byte list go" where
  "formatBase10_final cap lo a =
     (if lo \<ge> 100 then
        let dd = (lo mod 100) * 2; lo = lo div 100 in
        bind_go (put_two cap dd a) (\<lambda>a. formatBase10_final cap lo a)
      else
        let dd = lo * 2 in
        bind_go (index_go smalls (unat (dd + 1))) (\<lambda>c.
        bind_go (put_front cap c a) (\<lambda>a.
          if lo \<ge> 10 then bind_go (index_go smalls (unat (dd + 0))) (\<lambda>c. put_front cap c a)
          else Inr a)))"
  by auto
termination
proof (relation "measure (\<lambda>(cap, lo, a). unat lo)", goal_cases)
  case (2 cap lo a)
  then have "100 \<le> unat lo" by (simp add: word_le_nat_alt)
  then show ?case using 2 by (simp add: unat_div)
qed simp

function formatBase10_loop :: "nat \<Rightarrow> uint64 \<Rightarrow> byte list \<Rightarrow> byte list go" where
  "formatBase10_loop cap u a =
     (if drop_bit 29 u \<noteq> 0 then
        let lo = ucast (u mod 1000000000); u = u div 1000000000 in
        bind_go (formatBase10_pairs 4 cap lo a) (\<lambda>(lo, a).
        bind_go (index_go smalls (unat (lo * 2 + 1))) (\<lambda>c.
        bind_go (put_front cap c a) (\<lambda>a.
          if u = 0 then Inr a else formatBase10_loop cap u a)))
      else formatBase10_final cap (ucast u) a)"
  by auto
termination
proof (relation "measure (\<lambda>(cap, u, a). unat u)", goal_cases)
  case (2 cap u a)
  then have "unat u \<noteq> 0" by (auto simp: unat_eq_0)
  then show ?case using 2 by (simp add: unat_div)
qed simp

declare formatBase10_final.simps [simp del] formatBase10_loop.simps [simp del]

definition formatBase10 :: "nat \<Rightarrow> uint64 \<Rightarrow> byte list go" where
  "formatBase10 cap u = formatBase10_loop cap u []"

definition RuntimeFormatBase10 :: "nat \<Rightarrow> uint64 \<Rightarrow> byte list go" where
  "RuntimeFormatBase10 cap u = formatBase10 cap u"

definition FormatUint :: "uint64 \<Rightarrow> int \<Rightarrow> gostring go" where
  "FormatUint i base =
     (if base = 10 then
        if i < nSmalls then Inr (small i) else formatBase10 24 i
      else bind_go (formatBits [] i base False False) (\<lambda>(_, s). Inr s))"

definition FormatInt :: "int64 \<Rightarrow> int \<Rightarrow> gostring go" where
  "FormatInt i base =
     (if base = 10 then
        if 0 \<le>s i \<and> i <s nSmalls then Inr (small i)
        else
          let u = (if i <s 0 then - i else i) in
          bind_go (formatBase10 24 u) (\<lambda>a. if i <s 0 then put_front 24 0x2D a else Inr a)
      else bind_go (formatBits [] i base (i <s 0) False) (\<lambda>(_, s). Inr s))"

definition Itoa :: "int64 \<Rightarrow> gostring go" where
  "Itoa i = FormatInt i 10"

definition AppendUint :: "byte list \<Rightarrow> uint64 \<Rightarrow> int \<Rightarrow> byte list go" where
  "AppendUint dst i base =
     (if base = 10 then
        if i < nSmalls then Inr (dst @ small i)
        else bind_go (formatBase10 24 i) (\<lambda>a. Inr (dst @ a))
      else bind_go (formatBits dst i base False True) (\<lambda>(dst, _). Inr dst))"

definition AppendInt :: "byte list \<Rightarrow> int64 \<Rightarrow> int \<Rightarrow> byte list go" where
  "AppendInt dst i base =
     (let (dst, u) = (if i <s 0 then (dst @ [0x2D], - i) else (dst, i)) in AppendUint dst u base)"

section \<open>Truth values\<close>

definition ParseBool :: "gostring \<Rightarrow> bool \<times> strconv_Error option" where
  "ParseBool str =
     (if str \<in> set (map bytes_of [''1'', ''t'', ''T'', ''true'', ''TRUE'', ''True'']) then (True, None)
      else if str \<in> set (map bytes_of [''0'', ''f'', ''F'', ''false'', ''FALSE'', ''False'']) then (False, None)
      else (False, Some ErrSyntax))"

definition FormatBool :: "bool \<Rightarrow> gostring" where
  "FormatBool b = (if b then bytes_of ''true'' else bytes_of ''false'')"

definition AppendBool :: "byte list \<Rightarrow> bool \<Rightarrow> byte list" where
  "AppendBool dst b = (if b then dst @ bytes_of ''true'' else dst @ bytes_of ''false'')"


section \<open>The public package\<close>

text \<open>
  \<open>strconv/number.go\<close> passes the calls on and turns the errors into values of the type
  \<open>*NumError\<close>, with the name of the function and a copy of the text.
\<close>

record NumError =
  neFunc :: string
  neNum :: gostring
  neErr :: goerror

definition strconv_ErrRange :: goerror where
  "strconv_ErrRange = NewError ''value out of range''"

definition strconv_ErrSyntax :: goerror where
  "strconv_ErrSyntax = NewError ''invalid syntax''"

definition syntaxError :: "string \<Rightarrow> gostring \<Rightarrow> NumError" where
  "syntaxError fn str = \<lparr>neFunc = fn, neNum = str, neErr = strconv_ErrSyntax\<rparr>"

definition rangeError :: "string \<Rightarrow> gostring \<Rightarrow> NumError" where
  "rangeError fn str = \<lparr>neFunc = fn, neNum = str, neErr = strconv_ErrRange\<rparr>"

definition strconv_Itoa :: "int64 \<Rightarrow> gostring go" where
  "strconv_Itoa i = Itoa i"

abbreviation string_of_bytes :: "gostring \<Rightarrow> string" where
  "string_of_bytes s \<equiv> map (\<lambda>c. char_of (unat c)) s"

definition baseError :: "string \<Rightarrow> gostring \<Rightarrow> int \<Rightarrow> NumError go" where
  "baseError fn str base =
     bind_go (strconv_Itoa (word_of_int base))
       (\<lambda>s. Inr \<lparr>neFunc = fn, neNum = str, neErr = NewError (''invalid base '' @ string_of_bytes s)\<rparr>)"

definition bitSizeError :: "string \<Rightarrow> gostring \<Rightarrow> int \<Rightarrow> NumError go" where
  "bitSizeError fn str bitSize =
     bind_go (strconv_Itoa (word_of_int bitSize))
       (\<lambda>s. Inr \<lparr>neFunc = fn, neNum = str, neErr = NewError (''invalid bit size '' @ string_of_bytes s)\<rparr>)"

fun toError :: "string \<Rightarrow> gostring \<Rightarrow> int \<Rightarrow> int \<Rightarrow> strconv_Error \<Rightarrow> NumError go" where
  "toError fn s base bitSize ErrSyntax = Inr (syntaxError fn s)"
| "toError fn s base bitSize ErrRange = Inr (rangeError fn s)"
| "toError fn s base bitSize ErrBase = baseError fn s base"
| "toError fn s base bitSize ErrBitSize = bitSizeError fn s bitSize"

text \<open>What every parsing function does with the result of the internal one.\<close>

definition conv :: "string \<Rightarrow> gostring \<Rightarrow> int \<Rightarrow> int \<Rightarrow> 'a \<times> strconv_Error option \<Rightarrow> ('a \<times> NumError option) go" where
  "conv fn s base bitSize r =
     (case r of
        (x, Some err) \<Rightarrow> bind_go (toError fn s base bitSize err) (\<lambda>e. Inr (x, Some e))
      | (x, None) \<Rightarrow> Inr (x, None))"

definition strconv_ParseBool :: "gostring \<Rightarrow> (bool \<times> NumError option) go" where
  "strconv_ParseBool str = conv ''ParseBool'' str 0 0 (ParseBool str)"

definition strconv_ParseUint :: "gostring \<Rightarrow> int \<Rightarrow> int \<Rightarrow> (uint64 \<times> NumError option) go" where
  "strconv_ParseUint s base bitSize = conv ''ParseUint'' s base bitSize (ParseUint s base bitSize)"

definition strconv_ParseInt :: "gostring \<Rightarrow> int \<Rightarrow> int \<Rightarrow> (int64 \<times> NumError option) go" where
  "strconv_ParseInt s base bitSize = conv ''ParseInt'' s base bitSize (ParseInt s base bitSize)"

definition strconv_Atoi :: "gostring \<Rightarrow> (int64 \<times> NumError option) go" where
  "strconv_Atoi s = conv ''Atoi'' s 0 0 (Atoi s)"

definition strconv_FormatUint :: "uint64 \<Rightarrow> int \<Rightarrow> gostring go" where
  "strconv_FormatUint i base = FormatUint i base"

definition strconv_FormatInt :: "int64 \<Rightarrow> int \<Rightarrow> gostring go" where
  "strconv_FormatInt i base = FormatInt i base"

definition strconv_AppendInt :: "byte list \<Rightarrow> int64 \<Rightarrow> int \<Rightarrow> byte list go" where
  "strconv_AppendInt dst i base = AppendInt dst i base"

definition strconv_AppendUint :: "byte list \<Rightarrow> uint64 \<Rightarrow> int \<Rightarrow> byte list go" where
  "strconv_AppendUint dst i base = AppendUint dst i base"

definition strconv_FormatBool :: "bool \<Rightarrow> gostring" where
  "strconv_FormatBool b = FormatBool b"

definition strconv_AppendBool :: "byte list \<Rightarrow> bool \<Rightarrow> byte list" where
  "strconv_AppendBool dst b = AppendBool dst b"

end
