(* ===== verification/Strconv_Correct.thy ===== *)
theory Strconv_Correct
  imports Strconv
begin

text \<open>
  Proofs about \<open>Strconv\<close>: the parsers return exactly the clamped value of the longest prefix of
  digits, the formatters the canonical text, in every base.
\<close>


section \<open>Digits and numbers\<close>

text \<open>The value of a digit, a letter of either case standing for 10 to 35; 36 for anything else.\<close>

definition digit_value :: "byte \<Rightarrow> nat" where
  "digit_value c =
     (let n = unat c in
      if 48 \<le> n \<and> n \<le> 57 then n - 48
      else if 65 \<le> n \<and> n \<le> 90 then n - 55
      else if 97 \<le> n \<and> n \<le> 122 then n - 87
      else 36)"

text \<open>The value of a sequence of digits after digits of value \<open>n\<close>, and its value.\<close>

abbreviation number_from :: "nat \<Rightarrow> nat \<Rightarrow> gostring \<Rightarrow> nat" where
  "number_from b n s \<equiv> foldl (\<lambda>n c. n * b + digit_value c) n s"

abbreviation number :: "nat \<Rightarrow> gostring \<Rightarrow> nat" where
  "number b s \<equiv> number_from b 0 s"

lemma number_from_mono: "0 < b \<Longrightarrow> n \<le> number_from b n s"
proof (induction s arbitrary: n)
  case (Cons c s)
  have "n \<le> n * b + digit_value c" using Cons.prems by (simp add: trans_le_add1)
  then show ?case using Cons.IH [OF Cons.prems, of "n * b + digit_value c"] by simp
qed simp

lemma unat_lower: "unat (lower c) = (if odd (unat c div 32) then unat c else unat c + 32)"
proof -
  have bit: "bit (unat c) 5 \<longleftrightarrow> odd (unat c div 32)" by (simp add: bit_iff_odd)
  have p: "bit (32 :: nat) n \<longleftrightarrow> n = 5" for n using bit_exp_iff [of 5 n, where 'a = nat] by simp
  show ?thesis
  proof (cases "odd (unat c div 32)")
    case True
    have "unat c OR 32 = unat c" by (rule bit_eqI) (use True bit in \<open>auto simp: bit_or_iff p\<close>)
    then show ?thesis using True by (simp add: lower_def unsigned_or_eq)
  next
    case False
    have "unat c AND 32 = 0" by (rule bit_eqI) (use False bit in \<open>auto simp: bit_and_iff p\<close>)
    then have "unat c OR 32 = unat c + 32" using disjunctive_add_eq_or [of "unat c" 32] by simp
    then show ?thesis using False by (simp add: lower_def unsigned_or_eq)
  qed
qed

lemma ParseUint_digit_value:
  "ParseUint_digit c = (if digit_value c < 36 then Some (word_of_nat (digit_value c)) else None)"
proof -
  have v: "digit_value c < 36 \<Longrightarrow> unat (word_of_nat (digit_value c) :: byte) = digit_value c"
    by (simp add: unsigned_of_nat take_bit_nat_eq_self)
  have low: "lower c = (if odd (unat c div 32) then c else 32 + c)"
    using unat_lower [of c] unat_byte_less [of "lower c"]
    by (auto simp: word_unat_eq_iff unat_word_ariths split: if_splits)
  have "unat c \<le> 122 \<Longrightarrow> 97 \<le> unat c \<Longrightarrow> unat c div 32 = 3" "unat c \<le> 90 \<Longrightarrow> 65 \<le> unat c \<Longrightarrow> unat c div 32 = 2"
    by linarith+
  then show ?thesis using v
    unfolding ParseUint_digit_def byte_le_iff unat_lower
    by (auto simp: digit_value_def Let_def low)
qed

lemma digit_value_underscore [simp]: "digit_value 0x5F = 36" "digit_value 0x2B = 36" "digit_value 0x2D = 36"
  by (simp_all add: digit_value_def)

lemma digit_value_le: "digit_value c \<le> 36"
  by (auto simp: digit_value_def Let_def)

section \<open>Parsing\<close>

lemma unat_base: "b \<le> 36 \<Longrightarrow> unat (word_of_int (int b) :: uint64) = b" "b \<le> 36 \<Longrightarrow> unat (word_of_int (int b) :: byte) = b"
  by (simp_all add: unsigned_of_nat take_bit_nat_eq_self)

lemma unat_maxUint64: "unat (maxUint64 :: uint64) = 2 ^ 64 - 1"
  by (simp add: unsigned_minus_1_eq_mask mask_eq_exp_minus_1)

lemma unat_cutoff:
  assumes "2 \<le> b" "b \<le> 36"
  shows "unat ((maxUint64 :: uint64) div word_of_int (int b) + 1) = (2 ^ 64 - 1) div b + 1"
proof -
  have 1: "unat ((maxUint64 :: uint64) div word_of_int (int b)) = (2 ^ 64 - 1) div b"
    by (simp only: unat_div unat_base assms unat_maxUint64)
  have 2: "(2 ^ 64 - 1) div b \<le> (2 ^ 64 - 1) div (2 :: nat)" by (rule div_le_mono2) (use assms in simp_all)
  show ?thesis by (subst unat_add_lem [THEN iffD1]) (use 1 2 in simp_all)
qed

lemma cutoff_le:
  assumes "2 \<le> b" "b \<le> 36"
  shows "(maxUint64 :: uint64) div word_of_int (int b) + 1 \<le> n \<longleftrightarrow> 2 ^ 64 \<le> unat n * b"
proof -
  have "(2 ^ 64 - 1) div b < unat n \<longleftrightarrow> 2 ^ 64 - 1 < unat n * b"
    using assms by (simp add: div_less_iff_less_mult)
  moreover have "2 ^ 64 \<le> unat n * b \<longleftrightarrow> 2 ^ 64 - 1 < unat n * b" by (simp add: less_eq_Suc_le)
  moreover have "k + 1 \<le> m \<longleftrightarrow> k < m" for k m :: nat by linarith
  ultimately show ?thesis by (simp only: word_le_nat_alt unat_cutoff [OF assms])
qed

lemma unat_maxVal:
  assumes "k \<le> 64"
  shows "unat (push_bit k 1 - 1 :: uint64) = 2 ^ k - 1"
proof -
  have "push_bit k 1 - 1 = (take_bit k (- 1) :: uint64)"
    by (simp add: take_bit_minus_one_eq_mask mask_eq_exp_minus_1 push_bit_eq_mult)
  moreover have "take_bit k (mask 64 :: nat) = mask k" using assms by (simp add: take_bit_of_mask)
  ultimately show ?thesis
    by (simp only: unsigned_take_bit_eq unsigned_minus_1_eq_mask mask_eq_exp_minus_1 len_of_numeral_defs) (simp add: mask_eq_exp_minus_1)
qed

lemma unat_maxVal' [simp]: "k \<le> 64 \<Longrightarrow> unat (2 ^ k - 1 :: uint64) = 2 ^ k - 1"
  using unat_maxVal [of k] by simp

text \<open>The parameters of the loop in \<open>ParseUint\<close>, for a base and a number of bits.\<close>

abbreviation ParseUint_cutoff :: "nat \<Rightarrow> uint64" where
  "ParseUint_cutoff b \<equiv> maxUint64 div word_of_int (int b) + 1"

text \<open>One digit: what the two overflow tests decide.\<close>

lemma ParseUint_step:
  fixes n :: uint64
  assumes b: "2 \<le> b" "b \<le> 36" and k: "k \<le> 64" and d: "d < b"
    and small: "\<not> ParseUint_cutoff b \<le> n"
  defines "m \<equiv> n * word_of_int (int b)" and "v \<equiv> unat n * b + d"
  shows "m + ucast (word_of_nat d :: byte) < m \<or> m + ucast (word_of_nat d :: byte) > push_bit k 1 - 1 \<longleftrightarrow> 2 ^ k \<le> v"
    and "v < 2 ^ k \<Longrightarrow> unat (m + ucast (word_of_nat d :: byte)) = v"
proof -
  have d': "unat (ucast (word_of_nat d :: byte) :: uint64) = d"
    using b d by (simp add: unat_ucast_gen unsigned_of_nat take_bit_nat_eq_self)
  have nb: "unat n * b < 2 ^ 64" using small cutoff_le [OF b, of n] by simp
  then have m: "unat m = unat n * b"
    unfolding m_def by (subst unat_mult_lem [THEN iffD1]) (simp_all only: unat_base b len_of_numeral_defs, simp_all)
  let ?s = "m + ucast (word_of_nat d :: byte)"
  have s: "unat ?s = v mod 2 ^ 64" by (simp add: unat_word_ariths m d' v_def)
  have k64: "(2 :: nat) ^ k \<le> 2 ^ 64" using k by (intro power_increasing) simp_all
  have pos: "0 < (2 :: nat) ^ k" by simp
  show "?s < m \<or> ?s > push_bit k 1 - 1 \<longleftrightarrow> 2 ^ k \<le> v"
  proof (cases "v < 2 ^ 64")
    case True
    then have "unat ?s = v" using s by simp
    moreover have "2 ^ k - 1 < v \<longleftrightarrow> 2 ^ k \<le> v" using pos by linarith
    ultimately show ?thesis unfolding word_less_nat_alt unat_maxVal [OF k] m by (simp add: v_def)
  next
    case False
    then have "v mod 2 ^ 64 = v - 2 ^ 64" using nb d b by (simp add: v_def mod_if)
    then have "unat ?s < unat m" using s m False d b nb by (simp add: v_def)
    then show ?thesis using False k64 by (simp add: word_less_nat_alt)
  qed
  show "unat ?s = v" if "v < 2 ^ k" using s that k64 by simp
qed

lemma ParseUint_loop_spec:
  fixes base0 :: bool
  assumes b: "2 \<le> b" "b \<le> 36" and k: "k \<le> 64" and n: "unat n < 2 ^ k"
  defines "t \<equiv> \<lambda>s. if base0 then filter (\<lambda>c. c \<noteq> 0x5F) s else s"
    and "ds \<equiv> \<lambda>s. takeWhile (\<lambda>c. digit_value c < b) s"
  shows "ParseUint_loop base0 (int b) (ParseUint_cutoff b) (push_bit k 1 - 1) und n s =
    (if 2 ^ k \<le> number_from b (unat n) (ds (t s)) then Inl (push_bit k 1 - 1, ErrRange)
     else if ds (t s) = t s then Inr (word_of_nat (number_from b (unat n) (t s)), und \<or> base0 \<and> 0x5F \<in> set s)
     else Inl (0, ErrSyntax))"
  using n
proof (induction s arbitrary: n und)
  case (Cons c s)
  have t_skip: "t (c # s) = t s" if "c = 0x5F" "base0" using that by (simp add: t_def)
  have t_keep: "t (c # s) = c # t s" if "\<not> (c = 0x5F \<and> base0)" using that by (simp add: t_def)
  define B C M where "B = (word_of_int (int b) :: uint64)" and "C = ParseUint_cutoff b" and "M = (push_bit k 1 - 1 :: uint64)"
  note IH = Cons.IH [folded C_def M_def]
  show ?case unfolding C_def [symmetric] M_def [symmetric]
  proof (cases "c = 0x5F \<and> base0")
    case True
    then show "ParseUint_loop base0 (int b) C M und n (c # s) =
        (if 2 ^ k \<le> number_from b (unat n) (ds (t (c # s))) then Inl (M, ErrRange)
         else if ds (t (c # s)) = t (c # s) then Inr (word_of_nat (number_from b (unat n) (t (c # s))), und \<or> base0 \<and> 0x5F \<in> set (c # s))
         else Inl (0, ErrSyntax))"
      using IH [OF Cons.prems] t_skip by simp
  next
    case False
    have loop: "ParseUint_loop base0 (int b) C M und n (c # s) =
       (case ParseUint_digit c of None \<Rightarrow> Inl (0, ErrSyntax)
        | Some d \<Rightarrow>
            if d \<ge> word_of_int (int b) then Inl (0, ErrSyntax)
            else if n \<ge> C then Inl (M, ErrRange)
            else if n * B + ucast d < n * B \<or> n * B + ucast d > M then Inl (M, ErrRange)
            else ParseUint_loop base0 (int b) C M und (n * B + ucast d) s)"
      by (simp only: ParseUint_loop.simps False if_False Let_def B_def)
    have base_le: "word_of_int (int b) \<le> (word_of_nat d :: byte) \<longleftrightarrow> b \<le> d" if "d < 36" for d
      using that by (simp only: word_le_nat_alt unat_base b) (simp add: unsigned_of_nat take_bit_nat_eq_self)
    show "ParseUint_loop base0 (int b) C M und n (c # s) =
        (if 2 ^ k \<le> number_from b (unat n) (ds (t (c # s))) then Inl (M, ErrRange)
         else if ds (t (c # s)) = t (c # s) then Inr (word_of_nat (number_from b (unat n) (t (c # s))), und \<or> base0 \<and> 0x5F \<in> set (c # s))
         else Inl (0, ErrSyntax))"
    proof (cases "digit_value c < b")
      case bad: False
      have "\<not> 2 ^ k \<le> unat n" using Cons.prems by simp
      then show ?thesis using bad t_keep [OF False] base_le [of "digit_value c"]
        unfolding loop ParseUint_digit_value by (simp add: ds_def del: of_int_of_nat_eq)
    next
      case ok: True
      have dig: "ParseUint_digit c = Some (word_of_nat (digit_value c))" using ok b by (simp add: ParseUint_digit_value)
      have nd: "\<not> word_of_int (int b) \<le> (word_of_nat (digit_value c) :: byte)"
        using base_le [of "digit_value c"] ok b by linarith
      define w where "w = (ucast (word_of_nat (digit_value c) :: byte) :: uint64)"
      have c: "c \<noteq> 0x5F" using ok b by auto
      let ?v = "unat n * b + digit_value c"
      have ds: "ds (t (c # s)) = c # ds (t s)" using ok by (simp add: t_keep [OF False] ds_def)
      have ge: "?v \<le> number_from b ?v (ds (t s))" using b by (intro number_from_mono) simp
      have loop': "ParseUint_loop base0 (int b) C M und n (c # s) =
          (if n \<ge> C then Inl (M, ErrRange)
           else if n * B + w < n * B \<or> n * B + w > M then Inl (M, ErrRange)
           else ParseUint_loop base0 (int b) C M und (n * B + w) s)"
        unfolding loop dig by (simp only: option.case nd if_False w_def)
      show ?thesis
      proof (cases "C \<le> n")
        case True
        then have "2 ^ 64 \<le> ?v" using cutoff_le [OF b, of n] by (simp add: C_def trans_le_add1)
        moreover have "(2 :: nat) ^ k \<le> 2 ^ 64" using k by (intro power_increasing) simp_all
        ultimately have "2 ^ k \<le> number_from b ?v (ds (t s))" using ge by linarith
        then show ?thesis using loop' True ds by simp
      next
        case small: False
        note step = ParseUint_step [OF b k ok small [unfolded C_def], folded B_def M_def w_def]
        show ?thesis
        proof (cases "2 ^ k \<le> ?v")
          case True
          then have "2 ^ k \<le> number_from b ?v (ds (t s))" using ge by linarith
          then show ?thesis using loop' small ds True step(1) by simp
        next
          case lt: False
          then have u: "unat (n * B + w) = ?v" using step(2) by simp
          have "?v < 2 ^ k" using lt by simp
          note IH' = IH [of "n * B + w", unfolded u, OF this]
          show ?thesis using loop' small lt step(1) IH' c
            by (simp add: t_keep [OF False] ds_def ok)
        qed
      qed
    qed
  qed
qed (use n in \<open>auto simp: t_def ds_def\<close>)

lemma ParseUint_limit: "base \<noteq> 0 \<Longrightarrow> 2 \<le> base \<Longrightarrow> base \<le> 36 \<Longrightarrow>
    (if base = 10 then maxUint64 div 10 + 1 else if base = 16 then maxUint64 div 16 + 1
     else maxUint64 div word_of_int base + 1) = (maxUint64 div word_of_int base + 1 :: uint64)"
  by auto

text \<open>\<open>bitSize\<close> as the number of bits.\<close>

definition parse_bits :: "int \<Rightarrow> nat" where
  "parse_bits bitSize = (if bitSize = 0 then 64 else nat bitSize)"

text \<open>
  What \<open>ParseUint\<close> returns in a base from 2 to 36: the longest prefix of digits decides whether
  the value is out of range; otherwise a character that is no digit is a syntax error.
\<close>

definition parse_uint :: "nat \<Rightarrow> nat \<Rightarrow> gostring \<Rightarrow> nat \<times> strconv_Error option" where
  "parse_uint b k s =
     (let ds = takeWhile (\<lambda>c. digit_value c < b) s in
      if s = [] then (0, Some ErrSyntax)
      else if 2 ^ k \<le> number b ds then (2 ^ k - 1, Some ErrRange)
      else if ds = s then (number b s, None)
      else (0, Some ErrSyntax))"

lemma parse_bits_le: "0 \<le> bitSize \<Longrightarrow> bitSize \<le> 64 \<Longrightarrow> parse_bits bitSize \<le> 64"
  by (auto simp: parse_bits_def)

lemma ParseUint_unsigned:
  assumes b: "2 \<le> b" "b \<le> 36" and k: "0 \<le> bitSize" "bitSize \<le> 64"
  shows "ParseUint s (int b) bitSize = apfst word_of_nat (parse_uint b (parse_bits bitSize) s)"
proof -
  have k': "nat (if bitSize = 0 then IntSize else bitSize) = parse_bits bitSize" by (simp add: parse_bits_def)
  have m: "word_of_nat (2 ^ parse_bits bitSize - 1) = (push_bit (parse_bits bitSize) 1 - 1 :: uint64)"
    by (simp only: of_nat_unat ucast_id flip: unat_maxVal [OF parse_bits_le [OF k]])
  have base: "ParseUint_base s (int b) = Some (int b, s)" "\<not> (bitSize < 0 \<or> bitSize > 64)" "int b \<noteq> 0"
    using b k by (auto simp: ParseUint_base_def)
  have lim: "(if int b = 10 then maxUint64 div 10 + 1 else if int b = 16 then maxUint64 div 16 + 1
     else maxUint64 div word_of_int (int b) + 1) = ParseUint_cutoff b" by (rule ParseUint_limit) (use b in auto)
  have spec: "ParseUint_loop False (int b) (ParseUint_cutoff b) (push_bit (parse_bits bitSize) 1 - 1) False 0 s =
    (let ds = takeWhile (\<lambda>c. digit_value c < b) s in
     if 2 ^ parse_bits bitSize \<le> number b ds then Inl (push_bit (parse_bits bitSize) 1 - 1, ErrRange)
     else if ds = s then Inr (word_of_nat (number b s), False) else Inl (0, ErrSyntax))"
    using ParseUint_loop_spec [OF b parse_bits_le [OF k], of 0 False False s] by (simp only: unsigned_0 Let_def if_False simp_thms) simp
  show ?thesis
    unfolding ParseUint_def base(1) Let_def option.case prod.case lim k' using base(2,3) spec
    by (simp add: parse_uint_def Let_def m)
qed

text \<open>
  What \<open>ParseInt\<close> returns: the sign is split off, and the value is clamped to the range of the
  bit size.
\<close>

definition parse_sign :: "gostring \<Rightarrow> bool \<times> gostring" where
  "parse_sign s = (if s \<noteq> [] \<and> (hd s = 0x2B \<or> hd s = 0x2D) then (hd s = 0x2D, tl s) else (False, s))"

definition signed_number :: "nat \<Rightarrow> bool \<Rightarrow> gostring \<Rightarrow> int" where
  "signed_number b neg s = (if neg then - int (number b s) else int (number b s))"

definition parse_int :: "nat \<Rightarrow> nat \<Rightarrow> gostring \<Rightarrow> int \<times> strconv_Error option" where
  "parse_int b k s =
     (let (neg, t) = parse_sign s; ds = takeWhile (\<lambda>c. digit_value c < b) t; x = signed_number b neg ds in
      if t = [] \<or> ds \<noteq> t \<and> number b ds < 2 ^ k then (0, Some ErrSyntax)
      else if x < - (2 ^ (k - 1)) then (- (2 ^ (k - 1)), Some ErrRange)
      else if 2 ^ (k - 1) \<le> x then (2 ^ (k - 1) - 1, Some ErrRange)
      else (x, None))"

lemma parse_uint_less: "fst (parse_uint b k s) < 2 ^ k"
  by (auto simp: parse_uint_def Let_def not_le simp del: takeWhile_eq_all_conv)

lemma ParseInt_sign:
  "ParseInt s base bitSize =
     (let (neg, t) = parse_sign s; (un, err) = ParseUint t base bitSize
      in if err \<noteq> None \<and> err \<noteq> Some ErrRange then (0, err)
         else
           let bitSize = (if bitSize = 0 then IntSize else bitSize); cutoff = push_bit (nat (bitSize - 1)) 1 in
           if \<not> neg \<and> un \<ge> cutoff then (cutoff - 1, Some ErrRange)
           else if neg \<and> un > cutoff then (- cutoff, Some ErrRange)
           else (if neg then - un else un, None))"
proof (cases s)
  case Nil
  have "ParseUint [] base bitSize = (0, Some ErrSyntax)" by (simp add: ParseUint_def)
  then show ?thesis by (simp add: Nil ParseInt_def parse_sign_def)
next
  case (Cons c t)
  have "(if s ! 0 = 0x2B then (False, drop 1 s) else if s ! 0 = 0x2D then (True, drop 1 s) else (False, s)) = parse_sign s"
    by (simp add: Cons parse_sign_def)
  then show ?thesis by (simp only: ParseInt_def) (simp only: Cons list.simps if_False Let_def)
qed

text \<open>The comparisons of \<open>ParseInt\<close> with half of the range.\<close>

lemma half_range:
  assumes "v < 2 ^ k" "0 < k" "k \<le> 64"
  shows "push_bit (k - 1) 1 \<le> (word_of_nat v :: uint64) \<longleftrightarrow> 2 ^ (k - 1) \<le> v"
    and "push_bit (k - 1) 1 < (word_of_nat v :: uint64) \<longleftrightarrow> 2 ^ (k - 1) < v"
proof -
  have "(2 :: nat) ^ k \<le> 2 ^ 64" using assms by (intro power_increasing) simp_all
  then have "unat (word_of_nat v :: uint64) = v" using assms by (simp add: unsigned_of_nat take_bit_nat_eq_self)
  moreover have "(2 :: nat) ^ (k - 1) < 2 ^ 64" using assms by (intro power_strict_increasing) simp_all
  then have "unat (push_bit (k - 1) 1 :: uint64) = 2 ^ (k - 1)" unfolding unat_push_bit_gen by simp
  ultimately show "push_bit (k - 1) 1 \<le> (word_of_nat v :: uint64) \<longleftrightarrow> 2 ^ (k - 1) \<le> v"
    "push_bit (k - 1) 1 < (word_of_nat v :: uint64) \<longleftrightarrow> 2 ^ (k - 1) < v"
    unfolding word_le_nat_alt word_less_nat_alt by simp_all
qed

lemma ParseInt_uint:
  assumes b: "2 \<le> b" "b \<le> 36" and k: "0 \<le> bitSize" "bitSize \<le> 64"
  shows "ParseInt s (int b) bitSize =
     (let k = parse_bits bitSize; (neg, t) = parse_sign s; (v, err) = parse_uint b k t
      in if err \<noteq> None \<and> err \<noteq> Some ErrRange then (0, err)
         else if \<not> neg \<and> 2 ^ (k - 1) \<le> v then (word_of_int (2 ^ (k - 1) - 1), Some ErrRange)
         else if neg \<and> 2 ^ (k - 1) < v then (word_of_int (- (2 ^ (k - 1))), Some ErrRange)
         else (word_of_int (if neg then - int v else int v), None))"
proof -
  have bits: "nat ((if bitSize = 0 then IntSize else bitSize) - 1) = parse_bits bitSize - 1" "0 < parse_bits bitSize"
    using k by (auto simp: parse_bits_def)
  obtain neg t where st: "parse_sign s = (neg, t)" by fastforce
  obtain v err where v: "parse_uint b (parse_bits bitSize) t = (v, err)" by fastforce
  then have "v < 2 ^ parse_bits bitSize" using parse_uint_less by (metis fst_conv)
  note half = half_range [OF this bits(2) parse_bits_le [OF k]]
  have c: "push_bit (parse_bits bitSize - 1) (1 :: uint64) - 1 = word_of_int (2 ^ (parse_bits bitSize - 1) - 1)"
    "- push_bit (parse_bits bitSize - 1) (1 :: uint64) = word_of_int (- (2 ^ (parse_bits bitSize - 1)))" by simp_all
  show ?thesis
    unfolding ParseInt_sign ParseUint_unsigned [OF assms] st v Let_def prod.case bits(1) apfst_conv half c by simp
qed

lemma clamp:
  fixes h n m :: nat
  assumes "2 \<le> h" "D \<Longrightarrow> m = n"
  shows "(case if A then (0, Some ErrSyntax) else if 2 * h \<le> n then (2 * h - 1, Some ErrRange)
        else if D then (m, None) else (0, Some ErrSyntax) of
      (v, err) \<Rightarrow>
        if err \<noteq> None \<and> err \<noteq> Some ErrRange then (0, err)
        else if \<not> neg \<and> h \<le> v then (word_of_int (int h - 1) :: uint64, Some ErrRange)
        else if neg \<and> h < v then (word_of_int (- int h), Some ErrRange)
        else (word_of_int (if neg then - int v else int v), None)) =
    apfst word_of_int
      (let x = (if neg then - int n else int n) in
       if A \<or> \<not> D \<and> n < 2 * h then (0, Some ErrSyntax)
       else if x < - int h then (- int h, Some ErrRange)
       else if int h \<le> x then (int h - 1, Some ErrRange)
       else (x, None))"
proof (cases "A \<or> \<not> D \<and> n < 2 * h")
  case False
  then have "A = False" "n < 2 * h \<Longrightarrow> D" by auto
  then show ?thesis using assms by (cases neg; cases "n < 2 * h"; simp)
qed (auto simp: not_le)

lemma ParseInt_val:
  assumes "2 \<le> b" "b \<le> 36" "bitSize = 0 \<or> 2 \<le> bitSize \<and> bitSize \<le> 64"
  shows "ParseInt s (int b) bitSize = apfst word_of_int (parse_int b (parse_bits bitSize) s)"
proof -
  define k where "k = parse_bits bitSize"
  have k: "2 \<le> k" using assms(3) by (auto simp: k_def parse_bits_def)
  have "k = Suc (k - 1)" using k by simp
  then have e: "(2 :: nat) ^ k = 2 * 2 ^ (k - 1)" by (metis power_Suc)
  have p: "2 \<le> (2 :: nat) ^ (k - 1)" using k power_increasing [of 1 "k - 1" "2 :: nat"] by simp
  obtain neg t where st: "parse_sign s = (neg, t)" by fastforce
  have bs: "0 \<le> bitSize" "bitSize \<le> 64" using assms(3) by auto
  define h where "h = (2 :: nat) ^ (k - 1)"
  have h: "(2 :: int) ^ (k - 1) = int h" by (simp add: h_def)
  define ds where "ds = takeWhile (\<lambda>c. digit_value c < b) t"
  have "ds = t \<Longrightarrow> number b t = number b ds" by simp
  note c = clamp [where A = "t = []" and neg = neg, OF p [folded h_def] this]
  show ?thesis
    unfolding ParseInt_uint [OF assms(1,2) bs] k_def [symmetric] st parse_int_def parse_uint_def signed_number_def Let_def prod.case
      h e h_def [symmetric] ds_def [symmetric]
    using c unfolding Let_def .
qed

lemma ParseInt_one_bit_val:
  assumes "2 \<le> b" "b \<le> 36" "s \<noteq> []" "\<forall>c\<in>set s. digit_value c < b" "1 < number b s"
  shows "ParseInt (0x2D # s) (int b) 1 = (-1, None)"
proof -
  have ds: "takeWhile (\<lambda>c. digit_value c < b) s = s" using assms(4) by simp
  have "parse_uint b 1 s = (1, Some ErrRange)" using assms(3,5) by (simp add: parse_uint_def ds)
  moreover have "parse_bits 1 = 1" by (simp add: parse_bits_def)
  ultimately show ?thesis using ParseInt_uint [OF assms(1,2), of 1 "0x2D # s"] by (simp add: parse_sign_def)
qed

section \<open>Atoi\<close>

lemma Atoi_digit: "(if c - 0x30 > 9 then None else Some (ucast (c - 0x30) :: uint64)) =
    (if digit_value c < 10 then Some (word_of_nat (digit_value c)) else None)"
proof (cases "0x30 \<le> c")
  case True
  then have u: "unat (c - 0x30) = unat c - 48" "48 \<le> unat c" by (simp_all add: unat_sub byte_le_iff)
  moreover have "(ucast (c - 0x30) :: uint64) = word_of_nat (unat (c - 0x30))" by simp
  ultimately show ?thesis
    by (auto simp: byte_less_iff digit_value_def Let_def simp del: of_nat_unat)
next
  case False
  then have c: "unat c < 48" by (simp add: byte_le_iff)
  then have "unat (c - 0x30) = unat c + 208" by (simp add: unat_sub_if')
  then show ?thesis using c by (simp add: byte_less_iff digit_value_def)
qed

lemma Atoi_loop_number:
  "Atoi_loop (word_of_nat m) s =
     (if \<forall>c\<in>set s. digit_value c < 10 then Some (word_of_nat (number_from 10 m s)) else None)"
proof (induction s arbitrary: m)
  case (Cons c s)
  show ?case
  proof (cases "digit_value c < 10")
    case True
    then have "\<not> c - 0x30 > 9" "(ucast (c - 0x30) :: uint64) = word_of_nat (digit_value c)"
      using Atoi_digit [of c] by (auto split: if_splits)
    then have "Atoi_loop (word_of_nat m) (c # s) = Atoi_loop (word_of_nat (m * 10 + digit_value c)) s" by (simp add: Let_def)
    then show ?thesis using Cons.IH [of "m * 10 + digit_value c"] True by simp
  next
    case False
    then have "c - 0x30 > 9" using Atoi_digit [of c] by (auto split: if_splits)
    then show ?thesis using False by simp
  qed
qed simp

lemma number_from_less: "(\<And>c. c \<in> set s \<Longrightarrow> digit_value c < b) \<Longrightarrow> number_from b n s < (n + 1) * b ^ length s"
proof (induction s arbitrary: n)
  case (Cons c s)
  have "number_from b (n * b + digit_value c) s < (n * b + digit_value c + 1) * b ^ length s"
    using Cons.prems by (intro Cons.IH) simp
  also have "\<dots> \<le> ((n + 1) * b) * b ^ length s"
    using Cons.prems [of c] by (intro mult_le_mono1) simp
  finally show ?case by (simp only: foldl.simps length_Cons power_Suc mult.assoc)
qed simp

lemma Atoi_eq_ParseInt: "Atoi s = ParseInt s 10 0"
proof (cases "0 < length s \<and> length s < 19")
  case True
  obtain neg t where st: "parse_sign s = (neg, t)" by fastforce
  have neg: "s ! 0 = 0x2D \<longleftrightarrow> neg"
    using st True by (cases s; auto simp: parse_sign_def split: if_splits)
  have split: "(if neg \<or> s ! 0 = 0x2B then drop 1 s else s) = t"
    "(neg \<or> s ! 0 = 0x2B) \<and> length t < 1 \<longleftrightarrow> t = []" "length t < 19"
    using st True by (cases s; auto simp: parse_sign_def split: if_splits)+
  have loop: "Atoi s = (if t = [] then (0, Some ErrSyntax) else case Atoi_loop 0 t of None \<Rightarrow> (0, Some ErrSyntax)
        | Some n \<Rightarrow> (if neg then - n else n, None))"
    using True by (simp only: Atoi_def Let_def neg split if_True simp_thms)
  define ds where "ds = takeWhile (\<lambda>c. digit_value c < 10) t"
  have "number 10 ds < (0 + 1) * 10 ^ length ds"
    by (rule number_from_less) (auto simp: ds_def dest: set_takeWhileD)
  moreover have "length ds \<le> 18" using split(3) length_takeWhile_le [of "\<lambda>c. digit_value c < 10" t] by (simp add: ds_def)
  then have "(10 :: nat) ^ length ds \<le> 10 ^ 18" by (intro power_increasing) simp_all
  ultimately have small: "number 10 ds < 2 ^ 63" by simp
  have "signed_number 10 neg ds < 2 ^ 63" "- (2 ^ 63) \<le> signed_number 10 neg ds"
    using small by (auto simp: signed_number_def)
  then have "parse_int 10 64 s = (if t = [] \<or> ds \<noteq> t then (0, Some ErrSyntax) else (signed_number 10 neg t, None))"
    using small unfolding parse_int_def st ds_def [symmetric] Let_def prod.case by (cases "ds = t"; simp)
  moreover have "ds = t \<longleftrightarrow> (\<forall>c\<in>set t. digit_value c < 10)" by (simp add: ds_def)
  ultimately show ?thesis using ParseInt_val [of 10 0 s] Atoi_loop_number [of 0 t]
    by (simp add: loop parse_bits_def signed_number_def)
next
  case False
  then show ?thesis unfolding Atoi_def by (simp only: if_False)
qed

section \<open>Formatting\<close>

text \<open>The text of a number, most significant digit first, and its last \<open>w\<close> decimal digits.\<close>

fun to_digits :: "nat \<Rightarrow> nat \<Rightarrow> gostring" where
  "to_digits b n = (if b < 2 \<or> n < b then [digits ! n] else to_digits b (n div b) @ [digits ! (n mod b)])"

declare to_digits.simps [simp del]

fun fixed_digits :: "nat \<Rightarrow> nat \<Rightarrow> gostring" where
  "fixed_digits 0 n = []"
| "fixed_digits (Suc w) n = fixed_digits w (n div 10) @ [digits ! (n mod 10)]"

lemma length_digits [simp]: "length digits = 36" "length smalls = 200"
  by (simp_all add: digits_def smalls_def bytes_of_def)

lemma index_digits: "k < 36 \<Longrightarrow> index_go digits k = Inr (digits ! k)"
  by (simp add: index_go_def)

lemma digit_value_digits: "k < 36 \<Longrightarrow> digit_value (digits ! k) = k"
proof -
  have "list_all (\<lambda>k. digit_value (digits ! k) = k) [0..<36]" by code_simp
  then show "k < 36 \<Longrightarrow> digit_value (digits ! k) = k" by (rule list_all_upt)
qed

lemma nth_pairs:
  "k < n \<Longrightarrow> concat (map (\<lambda>k. [f k, g k]) [0..<n]) ! (2 * k) = f k"
  "k < n \<Longrightarrow> concat (map (\<lambda>k. [f k, g k]) [0..<n]) ! (2 * k + 1) = g k"
proof (induction n)
  case (Suc n)
  have len: "length (concat (map (\<lambda>k. [f k, g k]) [0..<n])) = 2 * n" by (induction n) auto
  case 1 show ?case using Suc.IH(1) 1 len by (cases "k < n") (auto simp: nth_append less_Suc_eq)
  case 2 show ?case using Suc.IH(2) 2 len by (cases "k < n") (auto simp: nth_append less_Suc_eq)
qed auto

lemma digits_decimal: "k < 10 \<Longrightarrow> digits ! k = of_nat (of_char (''0123456789'' ! k))"
proof -
  have "list_all (\<lambda>k. digits ! k = of_nat (of_char (''0123456789'' ! k))) [0..<10]" by code_simp
  then show "k < 10 \<Longrightarrow> digits ! k = of_nat (of_char (''0123456789'' ! k))" by (rule list_all_upt)
qed

lemma smalls_pairs: "smalls = concat (map (\<lambda>k. [digits ! (k div 10), digits ! (k mod 10)]) [0..<100])"
proof -
  let ?c = "\<lambda>k. of_nat (of_char (''0123456789'' ! k)) :: byte"
  have "(\<lambda>k. [digits ! (k div 10), digits ! (k mod 10)]) k = (\<lambda>k. [?c (k div 10), ?c (k mod 10)]) k" if "k \<in> set [0..<100]" for k
    using that by (simp add: digits_decimal)
  then have "map (\<lambda>k. [digits ! (k div 10), digits ! (k mod 10)]) [0..<100] = map (\<lambda>k. [?c (k div 10), ?c (k mod 10)]) [0..<100]"
    by (intro map_cong refl)
  moreover have "smalls = map (\<lambda>c. of_nat (of_char c)) (concat (map (\<lambda>k. [''0123456789'' ! (k div 10), ''0123456789'' ! (k mod 10)]) [0..<100]))"
    unfolding smalls_def bytes_of_def
    by (rule arg_cong [where f = "map (\<lambda>c. of_nat (of_char c))"]) code_simp
  ultimately show ?thesis by (simp only: map_concat map_map comp_def list.map)
qed

lemma index_smalls:
  assumes "k < 100"
  shows "index_go smalls (2 * k) = Inr (digits ! (k div 10))" "index_go smalls (2 * k + 1) = Inr (digits ! (k mod 10))"
proof -
  have "smalls ! (2 * k) = digits ! (k div 10)" "smalls ! (2 * k + 1) = digits ! (k mod 10)"
    unfolding smalls_pairs by (rule nth_pairs [OF assms])+
  then show "index_go smalls (2 * k) = Inr (digits ! (k div 10))" "index_go smalls (2 * k + 1) = Inr (digits ! (k mod 10))"
    using assms by (simp_all add: index_go_def)
qed

lemma number_snoc: "number_from b n (s @ [c]) = number_from b n s * b + digit_value c" by simp

lemma to_digits_spec:
  assumes "2 \<le> b" "b \<le> 36"
  shows "number b (to_digits b n) = n \<and> (\<forall>c\<in>set (to_digits b n). digit_value c < b) \<and> to_digits b n \<noteq> []"
proof (induction n rule: less_induct)
  case (less n)
  show ?case
  proof (cases "n < b")
    case True
    then show ?thesis using assms by (simp add: to_digits.simps digit_value_digits)
  next
    case False
    then have "n div b < n" using assms by simp
    note IH = less.IH [OF this]
    have "n mod b < b" using assms by simp
    then have "digit_value (digits ! (n mod b)) = n mod b" using assms by (intro digit_value_digits) linarith
    then show ?thesis using IH False assms \<open>n mod b < b\<close>
      by (simp add: to_digits.simps [of b n])
  qed
qed

lemma length_to_digits: "2 \<le> b \<Longrightarrow> n < b ^ Suc k \<Longrightarrow> length (to_digits b n) \<le> Suc k"
proof (induction k arbitrary: n)
  case (Suc k)
  have "n div b < b ^ Suc k" using Suc.prems by (simp add: less_mult_imp_div_less mult.commute)
  then show ?case using Suc.IH [of "n div b"] Suc.prems(1) by (simp add: to_digits.simps [of b n])
qed (simp add: to_digits.simps)
lemma put_front_room: "length a < cap \<Longrightarrow> put_front cap c a = Inr (c # a)"
  by (simp add: put_front_def)

lemma formatBits_div_digits:
  assumes b: "2 \<le> b" "b \<le> 36"
  shows "length (to_digits b (unat u)) + length a \<le> cap \<Longrightarrow>
    formatBits_div cap (word_of_nat b) u a = Inr (to_digits b (unat u) @ a)"
proof (induction "unat u" arbitrary: u a rule: less_induct)
  case less
  have ub: "unat (word_of_nat b :: uint64) = b" using unat_base(1) [OF b(2)] by simp
  show ?case
  proof (cases "word_of_nat b \<le> u")
    case True
    then have ge: "b \<le> unat u" by (simp add: word_le_nat_alt ub)
    let ?q = "u div word_of_nat b"
    have q: "unat ?q = unat u div b" by (simp add: unat_div ub)
    have "?q * word_of_nat b \<le> u" by (simp add: word_div_mult_le)
    have "unat (u - ?q * word_of_nat b) = unat (u mod word_of_nat b)"
      by (simp add: minus_div_mult_eq_mod)
    then have r: "unat (u - ?q * word_of_nat b) = unat u mod b" by (simp add: unat_mod ub)
    have "unat u mod b < b" using b by simp
    then have m: "unat u mod b < 36" using b by linarith
    have dig: "to_digits b (unat u) = to_digits b (unat u div b) @ [digits ! (unat u mod b)]"
      using ge b by (simp add: to_digits.simps [of b "unat u"])
    have "unat ?q < unat u" using ge b by (simp add: q)
    moreover have "length (to_digits b (unat ?q)) + length (digits ! (unat u mod b) # a) \<le> cap"
      using less.prems by (simp add: dig q)
    ultimately have "formatBits_div cap (word_of_nat b) ?q (digits ! (unat u mod b) # a) =
        Inr (to_digits b (unat ?q) @ digits ! (unat u mod b) # a)" by (rule less.hyps)
    then show ?thesis using True m b less.prems
      by (simp add: formatBits_div.simps [of cap _ u] r index_digits put_front_room dig q Let_def)
  next
    case False
    then have "unat u < b" by (simp add: word_le_nat_alt ub)
    then show ?thesis using False b less.prems
      by (simp add: formatBits_div.simps [of cap _ u] to_digits.simps [of b "unat u"] index_digits put_front_room)
  qed
qed

lemma unat_two_power: "s < 64 \<Longrightarrow> unat (2 ^ s :: uint64) = 2 ^ s"
proof -
  assume "s < 64"
  then have "(2 :: nat) ^ s < 2 ^ 64" by (intro power_strict_increasing) simp_all
  then have "unat (push_bit s 1 :: uint64) = 2 ^ s" unfolding unat_push_bit_gen by simp
  then show ?thesis by simp
qed

lemma formatBits_shift_digits:
  assumes s: "0 < s" "2 ^ s \<le> (36 :: nat)"
  shows "length (to_digits (2 ^ s) (unat u)) + length a \<le> cap \<Longrightarrow>
    formatBits_shift cap s (2 ^ s - 1) (2 ^ s) u a = Inr (to_digits (2 ^ s) (unat u) @ a)"
proof (induction "unat u" arbitrary: u a rule: less_induct)
  case less
  have s64: "s < 64"
  proof (rule ccontr)
    assume "\<not> s < 64"
    then have "(2 :: nat) ^ 64 \<le> 2 ^ s" by (intro power_increasing) simp_all
    then show False using s by simp
  qed
  then have ub: "unat (2 ^ s :: uint64) = 2 ^ s" by (rule unat_two_power)
  have b: "2 \<le> (2 :: nat) ^ s" using s power_increasing [of 1 s "2 :: nat"] by simp
  show ?case
  proof (cases "2 ^ s \<le> u")
    case True
    then have ge: "2 ^ s \<le> unat u" by (simp add: word_le_nat_alt ub)
    have q: "unat (drop_bit s u) = unat u div 2 ^ s" by (simp add: unat_bits)
    have "u AND (2 ^ s - 1) = take_bit s u" by (simp add: take_bit_eq_mask mask_eq_exp_minus_1)
    then have r: "unat (u AND (2 ^ s - 1)) = unat u mod 2 ^ s" by (simp add: unat_take_bit)
    have m: "unat u mod 2 ^ s < 36" using s(2) mod_less_divisor [of "2 ^ s" "unat u"] b by linarith
    have dig: "to_digits (2 ^ s) (unat u) = to_digits (2 ^ s) (unat u div 2 ^ s) @ [digits ! (unat u mod 2 ^ s)]"
      using ge b by (simp add: to_digits.simps [of "2 ^ s" "unat u"])
    have "0 < unat u" using ge b by linarith
    then have "unat (drop_bit s u) < unat u" using b by (simp add: q)
    moreover have "length (to_digits (2 ^ s) (unat (drop_bit s u))) + length (digits ! (unat u mod 2 ^ s) # a) \<le> cap"
      using less.prems by (simp add: dig q)
    ultimately have "formatBits_shift cap s (2 ^ s - 1) (2 ^ s) (drop_bit s u) (digits ! (unat u mod 2 ^ s) # a) =
        Inr (to_digits (2 ^ s) (unat (drop_bit s u)) @ digits ! (unat u mod 2 ^ s) # a)" by (rule less.hyps)
    then show ?thesis using True m less.prems
      by (simp add: formatBits_shift.simps [of cap _ _ _ u] r index_digits put_front_room dig q Let_def)
  next
    case False
    then have "unat u < 2 ^ s" by (simp add: word_le_nat_alt ub)
    moreover from this have "unat u < 36" using s(2) by linarith
    ultimately show ?thesis using False b less.prems
      by (simp add: formatBits_shift.simps [of cap _ _ _ u] to_digits.simps [of "2 ^ s" "unat u"] index_digits put_front_room)
  qed
qed

lemma power_of_two_bases:
  assumes "2 \<le> b" "b \<le> 36" "isPowerOfTwo (int b)"
  obtains s where "b = 2 ^ s" "0 < s" "TrailingZeros (word_of_int (int b)) = s"
proof -
  have "list_all (\<lambda>b. isPowerOfTwo (int b) \<longrightarrow> b \<in> {2, 4, 8, 16, 32}) [2..<37]" by code_simp
  then have "\<forall>b\<in>set [2..<37]. isPowerOfTwo (int b) \<longrightarrow> b \<in> {2, 4, 8, 16, 32}" unfolding list_all_iff .
  moreover have "b \<in> set [2..<37]" unfolding set_upt using assms(1,2) by simp
  ultimately have "b \<in> {2, 4, 8, 16, 32}" using assms(3) by blast
  moreover have "TrailingZeros 2 = 1" "TrailingZeros 4 = 2" "TrailingZeros 8 = 3" "TrailingZeros 16 = 4" "TrailingZeros 32 = 5"
    by code_simp+
  ultimately show thesis
    using that [of 1] that [of 2] that [of 3] that [of 4] that [of 5] by auto
qed

lemma put_two_digits:
  assumes "k < 100" "length a + 2 \<le> cap"
  shows "put_two cap (word_of_nat k * 2) a = Inr (digits ! (k div 10) # digits ! (k mod 10) # a)"
proof -
  have "(word_of_nat k * 2 :: uint32) = word_of_nat (2 * k)" by simp
  then have "unat (word_of_nat k * 2 :: uint32) = 2 * k" "unat (word_of_nat k * 2 + 1 :: uint32) = 2 * k + 1"
    using assms(1) by (simp_all add: unsigned_of_nat take_bit_nat_eq_self unat_word_ariths del: of_nat_mult)
  then show ?thesis using assms index_smalls [OF assms(1)] by (simp add: put_two_def put_front_def)
qed

lemma fixed_digits_two: "fixed_digits (Suc (Suc w)) n = fixed_digits w (n div 100) @ [digits ! (n mod 100 div 10), digits ! (n mod 100 mod 10)]"
proof -
  have "n mod (10 * 10) = 10 * (n div 10 mod 10) + n mod 10" by (rule mod_mult2_eq)
  then have "n div 10 mod 10 = n mod 100 div 10" "n mod 10 = n mod 100 mod 10" "n div 10 div 10 = n div 100"
    by (simp_all add: div_mult2_eq [symmetric])
  then show ?thesis by simp
qed

lemma length_fixed_digits [simp]: "length (fixed_digits w n) = w"
  by (induction w arbitrary: n) auto

lemma fixed_digits_mod: "w \<le> v \<Longrightarrow> fixed_digits w (n mod 10 ^ v) = fixed_digits w n"
proof (induction w arbitrary: n v)
  case (Suc w)
  obtain v' where v: "v = Suc v'" "w \<le> v'" using Suc.prems by (cases v) auto
  have "n mod 10 ^ v = 10 * (n div 10 mod 10 ^ v') + n mod 10" unfolding v power_Suc by (rule mod_mult2_eq)
  then have "n mod 10 ^ v div 10 = n div 10 mod 10 ^ v'" "n mod 10 ^ v mod 10 = n mod 10" by simp_all
  then show ?case using Suc.IH [OF v(2)] by simp
qed simp

lemma to_digits_append: "10 ^ w \<le> n \<Longrightarrow> to_digits 10 n = to_digits 10 (n div 10 ^ w) @ fixed_digits w n"
proof (induction w arbitrary: n)
  case (Suc w)
  have n: "10 ^ w \<le> n div 10" using Suc.prems by (simp add: less_eq_div_iff_mult_less_eq mult.commute)
  have "\<not> n < 10" using n by (metis div_less le_zero_eq power_eq_0_iff zero_neq_numeral)
  then show ?case using Suc.IH [OF n] by (simp add: to_digits.simps [of 10 n] div_mult2_eq [symmetric])
qed simp

lemma to_digits_fixed: "n < 10 ^ Suc w \<Longrightarrow> w = 0 \<or> 10 ^ w \<le> n \<Longrightarrow> to_digits 10 n = fixed_digits (Suc w) n"
proof (induction w arbitrary: n)
  case (Suc w)
  have n: "10 ^ w \<le> n div 10" "n div 10 < 10 ^ Suc w" using Suc.prems
    by (simp_all add: less_eq_div_iff_mult_less_eq less_mult_imp_div_less mult.commute)
  have "\<not> n < 10" using n by (metis div_less le_zero_eq power_eq_0_iff zero_neq_numeral)
  then show ?case using Suc.IH [of "n div 10"] n by (simp add: to_digits.simps [of 10 n])
qed (simp add: to_digits.simps)

lemma formatBase10_pairs_digits:
  "length a + 2 * k \<le> cap \<Longrightarrow>
    formatBase10_pairs k cap lo a = Inr (word_of_nat (unat lo div 100 ^ k), fixed_digits (2 * k) (unat lo) @ a)"
proof (induction k arbitrary: lo a)
  case (Suc k)
  have m: "lo mod 100 = word_of_nat (unat lo mod 100)" by (simp add: word_arith_nat_mod)
  have d: "unat (lo div 100) = unat lo div 100" by (simp add: unat_div)
  have "put_two cap (lo mod 100 * 2) a = Inr (digits ! (unat lo mod 100 div 10) # digits ! (unat lo mod 100 mod 10) # a)"
    unfolding m by (rule put_two_digits) (use Suc.prems in simp_all)
  then show ?case using Suc.IH [of "digits ! (unat lo mod 100 div 10) # digits ! (unat lo mod 100 mod 10) # a" "lo div 100"] Suc.prems
    by (simp add: d fixed_digits_two Let_def div_mult2_eq [symmetric] del: fixed_digits.simps(2))
qed simp

lemma fixed_digits_Cons: "fixed_digits (Suc w) n = digits ! (n div 10 ^ w mod 10) # fixed_digits w n"
proof (induction w arbitrary: n)
  case (Suc w)
  have "fixed_digits (Suc (Suc w)) n = fixed_digits (Suc w) (n div 10) @ [digits ! (n mod 10)]" by (rule fixed_digits.simps)
  also have "\<dots> = digits ! (n div 10 div 10 ^ w mod 10) # fixed_digits (Suc w) n" using Suc.IH [of "n div 10"] by simp
  finally show ?case by (simp only: power_Suc div_mult2_eq)
qed simp

lemma formatBase10_final_digits:
  "length (to_digits 10 (unat lo)) + length a \<le> cap \<Longrightarrow> formatBase10_final cap lo a = Inr (to_digits 10 (unat lo) @ a)"
proof (induction "unat lo" arbitrary: lo a rule: less_induct)
  case less
  show ?case
  proof (cases "100 \<le> lo")
    case True
    then have ge: "100 \<le> unat lo" by (simp add: word_le_nat_alt)
    have d: "unat (lo div 100) = unat lo div 100" by (simp add: unat_div)
    have dig: "to_digits 10 (unat lo) = to_digits 10 (unat lo div 100) @ fixed_digits 2 (unat lo)"
      using to_digits_append [of 2 "unat lo"] ge by simp
    have fixed: "fixed_digits 2 (unat lo) = [digits ! (unat lo mod 100 div 10), digits ! (unat lo mod 100 mod 10)]"
      unfolding numeral_2_eq_2 fixed_digits_two by simp
    have m: "lo mod 100 = word_of_nat (unat lo mod 100)" by (simp add: word_arith_nat_mod)
    have room: "length a + 2 \<le> cap" using less.prems by (simp add: dig)
    have put: "put_two cap (lo mod 100 * 2) a = Inr (fixed_digits 2 (unat lo) @ a)"
      unfolding m using put_two_digits [OF _ room, of "unat lo mod 100"] by (simp add: fixed)
    have "formatBase10_final cap (lo div 100) (fixed_digits 2 (unat lo) @ a) =
        Inr (to_digits 10 (unat (lo div 100)) @ fixed_digits 2 (unat lo) @ a)"
      by (rule less.hyps) (use ge less.prems in \<open>simp_all add: d dig\<close>)
    then show ?thesis using True by (simp add: formatBase10_final.simps [of cap lo] Let_def put d dig)
  next
    case False
    then have lt: "unat lo < 100" by (simp add: word_le_nat_alt)
    have u: "unat (lo * 2 + 0) = 2 * unat lo" "unat (lo * 2 + 1) = 2 * unat lo + 1"
      using lt by (simp_all add: unat_word_ariths)
    show ?thesis
    proof (cases "10 \<le> lo")
      case True
      then have "10 \<le> unat lo" by (simp add: word_le_nat_alt)
      then have "to_digits 10 (unat lo) = [digits ! (unat lo div 10), digits ! (unat lo mod 10)]"
        using lt by (simp add: to_digits.simps)
      then show ?thesis using False True lt less.prems
        by (simp only: formatBase10_final.simps [of cap lo] Let_def if_False if_True u index_smalls bind_go_simps)
           (simp add: put_front_def)
    next
      case small: False
      then have "unat lo < 10" by (simp add: word_le_nat_alt)
      then show ?thesis using False small lt less.prems
        by (simp only: formatBase10_final.simps [of cap lo] Let_def if_False if_True u index_smalls bind_go_simps)
           (simp add: put_front_def to_digits.simps)
    qed
  qed
qed

lemma formatBase10_loop_digits:
  "length (to_digits 10 (unat u)) + length a \<le> cap \<Longrightarrow> formatBase10_loop cap u a = Inr (to_digits 10 (unat u) @ a)"
proof (induction "unat u" arbitrary: u a rule: less_induct)
  case less
  have drop: "drop_bit 29 u = 0 \<longleftrightarrow> unat u < 2 ^ 29"
    unfolding word_unat_eq_iff unat_drop_bit by (simp add: div_eq_0_iff)
  show ?case
  proof (cases "drop_bit 29 u = 0")
    case True
    then have "unat (ucast u :: uint32) = unat u" using drop by (simp add: unat_ucast_gen)
    then show ?thesis using formatBase10_final_digits [of "ucast u" a cap] less.prems True
      by (simp add: formatBase10_loop.simps [of cap u])
  next
    case False
    define lo :: uint32 where "lo = ucast (u mod 1000000000)"
    define q where "q = u div 1000000000"
    have lo: "unat lo = unat u mod 10 ^ 9"
      by (simp add: lo_def unat_ucast_gen unat_mod)
    have q: "unat q = unat u div 10 ^ 9" by (simp add: q_def unat_div)
    have f9: "fixed_digits 9 (unat u) = digits ! (unat u div 10 ^ 8 mod 10) # fixed_digits 8 (unat u)"
      using fixed_digits_Cons [of 8 "unat u"] by simp
    have dig: "to_digits 10 (unat u) = (if q = 0 then [] else to_digits 10 (unat q)) @ fixed_digits 9 (unat u)"
    proof (cases "q = 0")
      case True
      then have "unat u < 10 ^ Suc 8" using q by (simp add: div_eq_0_iff)
      moreover have "10 ^ 8 \<le> unat u" using False drop by simp
      ultimately have "to_digits 10 (unat u) = fixed_digits (Suc 8) (unat u)" by (intro to_digits_fixed) auto
      then show ?thesis using True by simp
    next
      case False
      then have "10 ^ 9 \<le> unat u" using q by (metis div_less not_le unsigned_eq_0_iff)
      then show ?thesis using to_digits_append [of 9 "unat u"] False by (simp add: q)
    qed
    have room: "length a + 9 \<le> cap" using less.prems by (simp add: dig)
    have pairs: "formatBase10_pairs 4 cap lo a = Inr (word_of_nat (unat lo div 10 ^ 8), fixed_digits 8 (unat u) @ a)"
      using formatBase10_pairs_digits [of a 4 cap lo] room fixed_digits_mod [of 8 9 "unat u"] by (simp add: lo)
    have top: "unat lo div 10 ^ 8 = unat u div 10 ^ 8 mod 10"
    proof -
      have "unat u mod (10 ^ 8 * 10) = 10 ^ 8 * (unat u div 10 ^ 8 mod 10) + unat u mod 10 ^ 8" by (rule mod_mult2_eq)
      then show ?thesis by (simp add: lo)
    qed
    define t where "t = unat u div 10 ^ 8 mod 10"
    have t: "t < 10" by (simp add: t_def)
    have "unat (word_of_nat t * 2 + 1 :: uint32) = 2 * t + 1"
      using t by (simp add: unat_word_ariths unsigned_of_nat take_bit_nat_eq_self)
    then have idx: "index_go smalls (unat (word_of_nat t * 2 + 1 :: uint32)) = Inr (digits ! t)"
      using index_smalls(2) [of t] t by simp
    have put: "put_front cap (digits ! t) (fixed_digits 8 (unat u) @ a) = Inr (fixed_digits 9 (unat u) @ a)"
      using room f9 by (simp add: put_front_def t_def)
    have step: "formatBase10_loop cap u a =
        (if q = 0 then Inr (fixed_digits 9 (unat u) @ a) else formatBase10_loop cap q (fixed_digits 9 (unat u) @ a))"
      using False by (simp only: formatBase10_loop.simps [of cap u] Let_def lo_def [symmetric] q_def [symmetric]
          pairs top t_def [symmetric] bind_go_simps prod.case idx put simp_thms if_True)
    show ?thesis
    proof (cases "q = 0")
      case True
      then show ?thesis using step dig by simp
    next
      case nz: False
      have "unat u \<noteq> 0" using drop False by auto
      then have "unat q < unat u" by (simp add: q)
      then have "formatBase10_loop cap q (fixed_digits 9 (unat u) @ a) = Inr (to_digits 10 (unat q) @ fixed_digits 9 (unat u) @ a)"
        by (rule less.hyps) (use less.prems dig nz in simp)
      then show ?thesis using step dig nz by simp
    qed
  qed
qed

section \<open>The canonical text\<close>

text \<open>The text of an integer.\<close>

definition int_text :: "nat \<Rightarrow> int \<Rightarrow> gostring" where
  "int_text b x = (if x < 0 then 0x2D # to_digits b (nat (- x)) else to_digits b (nat x))"

lemma to_digits_small:
  assumes "i < 100"
  shows "small (word_of_nat i) = to_digits 10 i"
proof -
  have u: "unat (word_of_nat i :: uint64) = i" using assms by (simp add: unsigned_of_nat take_bit_nat_eq_self)
  have s: "word_of_nat i <s (10 :: int64) \<longleftrightarrow> i < 10"
    using assms by (simp add: word_sless_alt sint_unat u)
  show ?thesis
  proof (cases "i < 10")
    case True
    then show ?thesis by (simp add: small_def s u to_digits.simps take_Suc_conv_app_nth [of 0 "drop i digits", simplified] hd_drop_conv_nth take_Suc)
  next
    case False
    have "take 2 (drop (2 * i) smalls) = [smalls ! (2 * i), smalls ! (2 * i + 1)]"
      using assms by (simp add: numeral_2_eq_2 take_Suc_conv_app_nth)
    moreover have "smalls ! (2 * i) = digits ! (i div 10)" "smalls ! (2 * i + 1) = digits ! (i mod 10)"
      using index_smalls [OF assms] assms by (simp_all add: index_go_def)
    moreover have "i div 10 < 10" using assms by simp
    ultimately show ?thesis using False by (simp add: small_def s u to_digits.simps mult.commute)
  qed
qed

lemma formatBase10_digits: "formatBase10 24 u = Inr (to_digits 10 (unat u))" "length (to_digits 10 (unat u)) \<le> 20"
proof -
  have "unat u < 10 ^ Suc 19" using unsigned_less [of u, where 'a = nat] by simp
  from length_to_digits [OF _ this] show "length (to_digits 10 (unat u)) \<le> 20" by simp
  then show "formatBase10 24 u = Inr (to_digits 10 (unat u))"
    using formatBase10_loop_digits [of u "[]" 24] by (simp add: formatBase10_def)
qed

lemma formatBits_digits:
  fixes u :: uint64 and neg :: bool
  assumes b: "2 \<le> b" "b \<le> 36" "b \<noteq> 10"
  defines "n \<equiv> unat (if neg then - u else u)"
  defines "s \<equiv> (if neg then 0x2D # to_digits b n else to_digits b n)"
  shows "formatBits dst u (int b) neg app = Inr (if app then (dst @ s, []) else ([], s))"
proof -
  define u' where "u' = (if neg then - u else u)"
  have n: "n = unat u'" by (simp add: n_def u'_def)
  have "n < 2 ^ Suc 63" using unsigned_less [of u'] by (simp add: n)
  also have "(2 :: nat) ^ Suc 63 \<le> b ^ Suc 63" using b by (intro power_mono) simp_all
  finally have len: "length (to_digits b n) \<le> 64" using length_to_digits [of b n 63] b by simp
  define cap :: nat where "cap = 64 + 1"
  have loop: "(if isPowerOfTwo (int b)
      then formatBits_shift cap (TrailingZeros (word_of_int (int b))) (word_of_int (int b) - 1) (word_of_int (int b)) u' []
      else formatBits_div cap (word_of_int (int b)) u' []) = Inr (to_digits b n)"
  proof (cases "isPowerOfTwo (int b)")
    case True
    obtain k where k: "b = 2 ^ k" "0 < k" "TrailingZeros (word_of_int (int b)) = k"
      using power_of_two_bases [OF b(1,2) True] .
    have "word_of_int (int b) = (2 ^ k :: uint64)" using k(1) by simp
    then show ?thesis using formatBits_shift_digits [of k u' "[]" cap] k b len True by (simp only: n) (simp add: n cap_def)
  next
    case False
    then show ?thesis using formatBits_div_digits [OF b(1,2), of u' "[]" cap] len by (simp add: n cap_def)
  qed
  show ?thesis
    using b len unfolding formatBits_def Let_def u'_def [symmetric] cap_def [symmetric] loop
    by (simp add: put_front_def s_def cap_def)
qed

lemma FormatUint_digits:
  assumes "2 \<le> b" "b \<le> 36"
  shows "FormatUint u (int b) = Inr (to_digits b (unat u))" "AppendUint dst u (int b) = Inr (dst @ to_digits b (unat u))"
proof -
  have small: "u < nSmalls \<Longrightarrow> small u = to_digits 10 (unat u)"
    using to_digits_small [of "unat u"] by (simp add: word_less_nat_alt)
  have "int b = 10 \<longleftrightarrow> b = 10" by simp
  then show "FormatUint u (int b) = Inr (to_digits b (unat u))" "AppendUint dst u (int b) = Inr (dst @ to_digits b (unat u))"
    using formatBits_digits [OF assms, where neg = False] formatBase10_digits(1) small
    by (auto simp: FormatUint_def AppendUint_def)
qed

lemma FormatInt_text:
  assumes "2 \<le> b" "b \<le> 36"
  shows "FormatInt i (int b) = Inr (int_text b (sint i))" "AppendInt dst i (int b) = Inr (dst @ int_text b (sint i))"
proof -
  have s: "i <s 0 \<longleftrightarrow> sint i < 0" by (simp add: word_sless_alt)
  obtain n where n: "unat i = n" by simp
  have si: "sint i = (if n < 2 ^ 63 then int n else int n - 2 ^ 64)" using sint_unat [of i, unfolded n] by simp
  have n64: "n < 2 ^ 64" using unsigned_less [of i, where 'a = nat] n by simp
  have neg: "unat (- i) = nat (- sint i)" if "sint i < 0"
  proof -
    have "i \<noteq> 0" using that by auto
    moreover have "n \<noteq> 0" using that si by (cases "n = 0") simp_all
    ultimately have "unat (0 - i) = 2 ^ 64 - n" by (simp add: unat_sub_if' unat_eq_0 n del: diff_0)
    then show ?thesis using that n64 by (simp add: si nat_diff_distrib split: if_splits)
  qed
  have pos: "unat i = nat (sint i)" if "\<not> sint i < 0"
    using that n64 by (auto simp: si n split: if_splits)
  have small: "small i = to_digits 10 (nat (sint i))" if "0 \<le>s i \<and> i <s nSmalls"
  proof -
    have "0 \<le> sint i" "sint i < 100" using that by (simp_all add: word_sless_alt word_sle_eq)
    then show ?thesis using to_digits_small [of "unat i"] pos by simp
  qed
  have b: "int b = 10 \<longleftrightarrow> b = 10" by simp
  note bits = formatBits_digits [OF assms, where u = i and neg = "i <s 0"]
  have base10: "b = 10 \<Longrightarrow> FormatInt i (int b) = Inr (int_text b (sint i))"
    using small formatBase10_digits [of "- i"] formatBase10_digits [of i] neg pos
    by (auto simp: FormatInt_def int_text_def s put_front_def word_sle_eq)
  show "FormatInt i (int b) = Inr (int_text b (sint i))"
    using base10 bits neg pos s by (cases "b = 10") (simp_all add: FormatInt_def int_text_def)
  show "AppendInt dst i (int b) = Inr (dst @ int_text b (sint i))"
    using neg pos by (simp add: AppendInt_def int_text_def s FormatUint_digits [OF assms])
qed

lemma parse_int_text:
  assumes b: "2 \<le> b" "b \<le> 36" and x: "- (2 ^ 63) \<le> x" "x < 2 ^ 63"
  shows "parse_int b 64 (int_text b x) = (x, None)"
proof -
  have td: "takeWhile (\<lambda>c. digit_value c < b) (to_digits b n) = to_digits b n" "number b (to_digits b n) = n" "to_digits b n \<noteq> []" for n
    using to_digits_spec [OF b, of n] by auto
  have nosign: "parse_sign (to_digits b n) = (False, to_digits b n)" for n
  proof -
    have "digit_value (hd (to_digits b n)) < b" using to_digits_spec [OF b, of n] by auto
    then have "hd (to_digits b n) \<noteq> 0x2B" "hd (to_digits b n) \<noteq> 0x2D" using b by auto
    then show ?thesis by (simp add: parse_sign_def)
  qed
  show ?thesis
  proof (cases "x < 0")
    case True
    then show ?thesis using x td [of "nat (- x)"]
      by (simp add: int_text_def parse_int_def parse_sign_def signed_number_def Let_def del: takeWhile_eq_all_conv)
  next
    case False
    then show ?thesis using x td [of "nat x"] nosign [of "nat x"]
      by (simp add: int_text_def parse_int_def signed_number_def Let_def del: takeWhile_eq_all_conv)
  qed
qed

lemma parse_uint_digits:
  assumes "2 \<le> b" "b \<le> 36" "n < 2 ^ k"
  shows "parse_uint b k (to_digits b n) = (n, None)"
proof -
  have "takeWhile (\<lambda>c. digit_value c < b) (to_digits b n) = to_digits b n" "number b (to_digits b n) = n" "to_digits b n \<noteq> []"
    using to_digits_spec [OF assms(1,2), of n] by auto
  then show ?thesis using assms(3) by (simp add: parse_uint_def del: takeWhile_eq_all_conv)
qed

section \<open>Integer literals\<close>

text \<open>
  The grammar of Go's integer literals: digits of which any two may be separated by an
  underscore; a literal with its base and its digits after the prefix.
\<close>

fun digit_seq :: "nat \<Rightarrow> gostring \<Rightarrow> bool" where
  "digit_seq b [] = False"
| "digit_seq b [c] = (digit_value c < b)"
| "digit_seq b (c # d # s) = (digit_value c < b \<and> (if d = 0x5F then digit_seq b s else digit_seq b (d # s)))"

inductive int_literal :: "gostring \<Rightarrow> nat \<Rightarrow> gostring \<Rightarrow> bool" where
  zero: "int_literal [0x30] 10 [0x30]"
| decimal: "digit_seq 10 s \<Longrightarrow> hd s \<noteq> 0x30 \<Longrightarrow> int_literal s 10 s"
| binary: "digit_seq 2 s \<Longrightarrow> c \<in> {0x62, 0x42} \<Longrightarrow> u \<in> {[], [0x5F]} \<Longrightarrow> int_literal (0x30 # c # u @ s) 2 s"
| octal: "digit_seq 8 s \<Longrightarrow> p \<in> {[], [0x6F], [0x4F]} \<Longrightarrow> u \<in> {[], [0x5F]} \<Longrightarrow> int_literal (0x30 # p @ u @ s) 8 s"
| hex: "digit_seq 16 s \<Longrightarrow> c \<in> {0x78, 0x58} \<Longrightarrow> u \<in> {[], [0x5F]} \<Longrightarrow> int_literal (0x30 # c # u @ s) 16 s"

text \<open>The number that digits with underscores stand for.\<close>

abbreviation no_underscores :: "gostring \<Rightarrow> gostring" where
  "no_underscores s \<equiv> filter (\<lambda>c. c \<noteq> 0x5F) s"

abbreviation digits_under :: "nat \<Rightarrow> gostring \<Rightarrow> bool" where
  "digits_under b s \<equiv> (\<forall>c\<in>set s. c = 0x5F \<or> digit_value c < b)"

lemma hex_digit:
  "0x30 \<le> c \<and> c \<le> 0x39 \<or> 0x61 \<le> lower c \<and> lower c \<le> 0x66 \<longleftrightarrow> digit_value c < 16"
  "0x30 \<le> c \<and> c \<le> 0x39 \<longleftrightarrow> digit_value c < 10"
proof -
  have "unat c \<le> 102 \<Longrightarrow> 97 \<le> unat c \<Longrightarrow> unat c div 32 = 3" "unat c \<le> 90 \<Longrightarrow> 65 \<le> unat c \<Longrightarrow> unat c div 32 = 2"
    "unat c \<le> 70 \<Longrightarrow> 65 \<le> unat c \<Longrightarrow> unat c div 32 = 2"
    by linarith+
  then show "0x30 \<le> c \<and> c \<le> 0x39 \<or> 0x61 \<le> lower c \<and> lower c \<le> 0x66 \<longleftrightarrow> digit_value c < 16"
    "0x30 \<le> c \<and> c \<le> 0x39 \<longleftrightarrow> digit_value c < 10"
    unfolding byte_le_iff unat_lower by (auto simp: digit_value_def Let_def)
qed

lemma digit_seq_Cons: "digit_seq b (c # s) \<longleftrightarrow> digit_value c < b \<and>
    (s = [] \<or> (if hd s = 0x5F then digit_seq b (tl s) else digit_seq b s))"
  by (cases s) auto

lemma digit_seq_under: "digit_seq b s \<Longrightarrow> digits_under b s"
  by (induction b s rule: digit_seq.induct) (auto split: if_splits)

lemma digit_seq_plain:
  assumes "b \<le> 36" "0x5F \<notin> set s"
  shows "digit_seq b s \<longleftrightarrow> s \<noteq> [] \<and> (\<forall>c\<in>set s. digit_value c < b)"
  using assms(2)
proof (induction s)
  case (Cons c s)
  then show ?case by (cases s) (auto simp: digit_seq_Cons [of b c])
qed simp

lemma underscoreOK_loop_seq:
  assumes "b = 16 \<and> hex \<or> b \<le> 10 \<and> \<not> hex"
  shows "digits_under b s \<Longrightarrow>
    (underscoreOK_loop hex 0x30 s \<longleftrightarrow> s = [] \<or> (if hd s = 0x5F then digit_seq b (tl s) else digit_seq b s)) \<and>
    (underscoreOK_loop hex 0x5F s \<longleftrightarrow> digit_seq b s)"
proof (induction s)
  case (Cons c s)
  have u: "\<not> digit_value 0x5F < b" using assms by auto
  have dig: "0x30 \<le> c \<and> c \<le> 0x39 \<or> hex \<and> 0x61 \<le> lower c \<and> lower c \<le> 0x66" if "digit_value c < b"
    using that assms hex_digit [of c] by auto
  have und: "lower 0x5F = 0x7F" by (simp add: lower_def)
  show ?case
  proof (cases "c = 0x5F")
    case True
    then show ?thesis using Cons und u by (simp add: digit_seq_Cons)
  next
    case False
    then have "digit_value c < b" using Cons.prems by simp
    then show ?thesis using Cons False dig by (simp add: digit_seq_Cons)
  qed
qed simp

text \<open>When \<open>ParseUint\<close> gets past its loop without an error, in base 0.\<close>

definition literal_value :: "nat \<Rightarrow> gostring \<Rightarrow> nat" where
  "literal_value b s = number b (no_underscores s)"

lemma takeWhile_under: "takeWhile (\<lambda>c. digit_value c < b) (no_underscores t) = no_underscores t \<longleftrightarrow> digits_under b t"
  by auto

lemma ParseUint_base_0:
  assumes k: "0 \<le> bitSize" "bitSize \<le> 64" and s: "s \<noteq> []"
    and base: "ParseUint_base s 0 = Some (int b, t)" and b: "2 \<le> b" "b \<le> 36"
  shows "ParseUint s 0 bitSize = (n, None) \<longleftrightarrow>
    digits_under b t \<and> literal_value b t < 2 ^ parse_bits bitSize \<and> n = word_of_nat (literal_value b t) \<and>
    (0x5F \<in> set t \<longrightarrow> underscoreOK s)"
proof -
  have k': "nat (if bitSize = 0 then IntSize else bitSize) = parse_bits bitSize" by (simp add: parse_bits_def)
  have lim: "(if int b = 10 then maxUint64 div 10 + 1 else if int b = 16 then maxUint64 div 16 + 1
     else maxUint64 div word_of_int (int b) + 1) = ParseUint_cutoff b" by (rule ParseUint_limit) (use b in auto)
  have bits: "(bitSize < 0 \<or> bitSize > 64) = False" using k by auto
  define M where "M = (push_bit (parse_bits bitSize) 1 - 1 :: uint64)"
  define ds where "ds = takeWhile (\<lambda>c. digit_value c < b) (no_underscores t)"
  have spec: "ParseUint_loop True (int b) (ParseUint_cutoff b) M False 0 t =
    (if 2 ^ parse_bits bitSize \<le> number b ds then Inl (M, ErrRange)
     else if ds = no_underscores t then Inr (word_of_nat (number b (no_underscores t)), 0x5F \<in> set t) else Inl (0, ErrSyntax))"
    using ParseUint_loop_spec [OF b parse_bits_le [OF k], of 0 True False t]
    unfolding M_def ds_def by (simp only: unsigned_0 Let_def if_True simp_thms) simp
  have ds: "ds = no_underscores t \<longleftrightarrow> digits_under b t" unfolding ds_def by (rule takeWhile_under)
  have "ParseUint s 0 bitSize = (case ParseUint_loop True (int b) (ParseUint_cutoff b) M False 0 t of
      Inl (v, e) \<Rightarrow> (v, Some e)
    | Inr (n, underscores) \<Rightarrow> if underscores \<and> \<not> underscoreOK s then (0, Some ErrSyntax) else (n, None))"
    unfolding ParseUint_def Let_def base option.case prod.case bits if_False lim k' M_def using s by simp
  then show ?thesis
    unfolding spec literal_value_def using ds by (cases "ds = no_underscores t") (auto simp: not_le)
qed

lemma lower_eq:
  "lower c = 0x62 \<longleftrightarrow> c \<in> {0x62, 0x42}" "lower c = 0x6F \<longleftrightarrow> c \<in> {0x6F, 0x4F}" "lower c = 0x78 \<longleftrightarrow> c \<in> {0x78, 0x58}"
  using unat_lower [of c] by (auto simp: word_unat_eq_iff split: if_splits)

text \<open>Digits after a prefix, which an underscore may separate from it.\<close>

definition opt_seq :: "nat \<Rightarrow> gostring \<Rightarrow> bool" where
  "opt_seq b t \<longleftrightarrow> t \<noteq> [] \<and> (if hd t = 0x5F then digit_seq b (tl t) else digit_seq b t)"

lemma digit_seq_hd: "digit_seq b s \<Longrightarrow> s \<noteq> [] \<and> digit_value (hd s) < b"
  by (cases s) (auto simp: digit_seq_Cons)

lemma opt_seq_iff:
  assumes "b \<le> 36"
  shows "opt_seq b t \<longleftrightarrow> (\<exists>u s. u \<in> {[], [0x5F]} \<and> t = u @ s \<and> digit_seq b s)"
proof
  assume "opt_seq b t"
  then show "\<exists>u s. u \<in> {[], [0x5F]} \<and> t = u @ s \<and> digit_seq b s"
    by (cases t) (auto simp: opt_seq_def split: if_splits)
next
  assume "\<exists>u s. u \<in> {[], [0x5F]} \<and> t = u @ s \<and> digit_seq b s"
  then obtain u s where us: "u \<in> {[], [0x5F]}" "t = u @ s" "digit_seq b s" by blast
  have "s \<noteq> []" "hd s \<noteq> 0x5F" using digit_seq_hd [OF us(3)] assms by auto
  then show "opt_seq b t" using us by (auto simp: opt_seq_def)
qed

lemma literal_value_opt: "u \<in> {[], [0x5F]} \<Longrightarrow> literal_value b (u @ s) = literal_value b s"
  by (auto simp: literal_value_def)

text \<open>The literals by their first characters.\<close>

lemma int_literal_decimal: "s = [] \<or> hd s \<noteq> 0x30 \<Longrightarrow> int_literal s b t \<longleftrightarrow> b = 10 \<and> t = s \<and> digit_seq 10 s"
  by (subst int_literal.simps) auto

lemma int_literal_zero: "int_literal [0x30] b t \<longleftrightarrow> b = 10 \<and> t = [0x30]"
  by (subst int_literal.simps) auto

lemma int_literal_prefix:
  "int_literal (0x30 # c # r) b t \<longleftrightarrow> (\<exists>u. u \<in> {[], [0x5F]} \<and> digit_seq b t \<and>
     (b = 2 \<and> lower c = 0x62 \<and> r = u @ t \<or> b = 8 \<and> lower c = 0x6F \<and> r = u @ t \<or>
      b = 16 \<and> lower c = 0x78 \<and> r = u @ t \<or> b = 8 \<and> c # r = u @ t))"
proof
  assume "int_literal (0x30 # c # r) b t"
  then show "\<exists>u. u \<in> {[], [0x5F]} \<and> digit_seq b t \<and>
     (b = 2 \<and> lower c = 0x62 \<and> r = u @ t \<or> b = 8 \<and> lower c = 0x6F \<and> r = u @ t \<or>
      b = 16 \<and> lower c = 0x78 \<and> r = u @ t \<or> b = 8 \<and> c # r = u @ t)"
  proof cases
    case (octal p u)
    then show ?thesis by (intro exI [of _ u]) (auto simp: lower_eq)
  qed (auto simp: lower_eq)
next
  assume "\<exists>u. u \<in> {[], [0x5F]} \<and> digit_seq b t \<and>
     (b = 2 \<and> lower c = 0x62 \<and> r = u @ t \<or> b = 8 \<and> lower c = 0x6F \<and> r = u @ t \<or>
      b = 16 \<and> lower c = 0x78 \<and> r = u @ t \<or> b = 8 \<and> c # r = u @ t)"
  then obtain u where u: "u \<in> {[], [0x5F]}" "digit_seq b t"
    and alt: "b = 2 \<and> lower c = 0x62 \<and> r = u @ t \<or> b = 8 \<and> lower c = 0x6F \<and> r = u @ t \<or>
      b = 16 \<and> lower c = 0x78 \<and> r = u @ t \<or> b = 8 \<and> c # r = u @ t" by blast
  note octals = int_literal.octal [OF _ _ u(1), of t "[]"] int_literal.octal [OF _ _ u(1), of t "[c]"]
  show "int_literal (0x30 # c # r) b t"
    using alt u int_literal.binary [OF _ _ u(1), of t c] octals int_literal.hex [OF _ _ u(1), of t c] unfolding lower_eq
    by (elim disjE conjE) simp_all
qed

text \<open>The decision on underscores, for each of the ways the number begins.\<close>

lemma seq_accept:
  assumes b: "b = 16 \<and> hex \<or> b \<le> 10 \<and> \<not> hex" and t: "t \<noteq> []"
  shows "digits_under b t \<and> (0x5F \<in> set t \<longrightarrow> underscoreOK_loop hex 0x30 t) \<longleftrightarrow> opt_seq b t"
proof -
  have b36: "b \<le> 36" using b by auto
  show ?thesis
  proof (cases "0x5F \<in> set t")
    case True
    have "opt_seq b t \<Longrightarrow> digits_under b t"
      unfolding opt_seq_iff [OF b36] using digit_seq_under by fastforce
    then show ?thesis using True underscoreOK_loop_seq [OF b, of t] t by (auto simp: opt_seq_def)
  next
    case False
    then have "hd t \<noteq> 0x5F" using t by (cases t) auto
    then show ?thesis using False digit_seq_plain [OF b36 False] t by (auto simp: opt_seq_def)
  qed
qed

lemma decimal_accept:
  assumes s: "s \<noteq> []" "hd s \<noteq> 0x30"
  shows "digits_under 10 s \<and> (0x5F \<in> set s \<longrightarrow> underscoreOK s) \<longleftrightarrow> digit_seq 10 s"
proof (cases "digit_value (hd s) < 10")
  case True
  obtain c r where c: "s = c # r" using s by (cases s) auto
  have nosign: "c \<noteq> 0x2D" "c \<noteq> 0x2B" "c \<noteq> 0x5F" using True by (auto simp: c)
  have "underscoreOK s = underscoreOK_loop False 0x5E s"
    using s nosign by (simp add: underscoreOK_def c)
  also have "\<dots> = underscoreOK_loop False 0x30 r" using True hex_digit(2) [of c] by (simp add: c)
  finally have ok: "underscoreOK s = underscoreOK_loop False 0x30 r" .
  have "opt_seq 10 r \<or> r = [] \<longleftrightarrow> digit_seq 10 s" using True by (auto simp: digit_seq_Cons c opt_seq_def)
  then show ?thesis using seq_accept [of 10 False r] True nosign by (cases "r = []") (auto simp: ok [unfolded c] c)
next
  case False
  then have "\<not> digit_seq 10 s" using digit_seq_hd by blast
  moreover have "\<not> underscoreOK s" if "hd s = 0x5F"
    using that s by (cases s) (auto simp: underscoreOK_def)
  ultimately show ?thesis using False s by (cases s) auto
qed

lemma underscoreOK_prefix:
  "underscoreOK (0x30 # c # r) =
     (if lower c \<in> {0x62, 0x6F, 0x78} then underscoreOK_loop (lower c = 0x78) 0x30 r
      else underscoreOK_loop False 0x30 (c # r))"
  by (auto simp: underscoreOK_def)

lemma opt_seq_value:
  assumes "b \<le> 36"
  shows "(\<exists>u t. u \<in> {[], [0x5F]} \<and> digit_seq b t \<and> r = u @ t \<and> Q (literal_value b t)) \<longleftrightarrow> opt_seq b r \<and> Q (literal_value b r)"
proof -
  have "literal_value b r = literal_value b t" if "u \<in> {[], [0x5F]}" "r = u @ t" for u t
    using literal_value_opt [OF that(1)] that(2) by simp
  then show ?thesis unfolding opt_seq_iff [OF assms] by fastforce
qed

lemma four_ways:
  "(\<exists>b t. (\<exists>u. A u \<and> D b t \<and> (b = 2 \<and> L2 \<and> R u t \<or> b = 8 \<and> L8 \<and> R u t \<or> b = 16 \<and> L16 \<and> R u t \<or> b = (8 :: nat) \<and> R' u t)) \<and> Q b t)
   \<longleftrightarrow> L2 \<and> (\<exists>u t. A u \<and> D 2 t \<and> R u t \<and> Q 2 t) \<or> L8 \<and> (\<exists>u t. A u \<and> D 8 t \<and> R u t \<and> Q 8 t) \<or>
     L16 \<and> (\<exists>u t. A u \<and> D 16 t \<and> R u t \<and> Q 16 t) \<or> (\<exists>u t. A u \<and> D 8 t \<and> R' u t \<and> Q 8 t)"
  (is "?L \<longleftrightarrow> ?R")
proof
  assume ?L
  then obtain b t u where "A u" "D b t" "Q b t"
    "b = 2 \<and> L2 \<and> R u t \<or> b = 8 \<and> L8 \<and> R u t \<or> b = 16 \<and> L16 \<and> R u t \<or> b = 8 \<and> R' u t" by blast
  then show ?R by blast
qed blast

lemma int_literal_prefix_value:
  "(\<exists>b t. int_literal (0x30 # c # r) b t \<and> Q (literal_value b t)) \<longleftrightarrow>
     (if lower c = 0x62 then opt_seq 2 r \<and> Q (literal_value 2 r)
      else if lower c = 0x6F then opt_seq 8 r \<and> Q (literal_value 8 r)
      else if lower c = 0x78 then opt_seq 16 r \<and> Q (literal_value 16 r)
      else opt_seq 8 (c # r) \<and> Q (literal_value 8 (c # r)))"
proof -
  have letter: "\<not> (u \<in> {[], [0x5F]} \<and> digit_seq 8 t \<and> c # r = u @ t)"
    if "lower c \<in> {0x62, 0x6F, 0x78}" for u t
  proof
    assume u: "u \<in> {[], [0x5F]} \<and> digit_seq 8 t \<and> c # r = u @ t"
    have "c \<in> {0x62, 0x42, 0x6F, 0x4F, 0x78, 0x58}" using that lower_eq [of c] by auto
    then have c: "c \<noteq> 0x5F" "\<not> digit_value c < 8" by (auto simp: digit_value_def)
    then have "t = c # r" using u by auto
    then show False using u c digit_seq_hd [of 8 t] by auto
  qed
  have eq: "(\<exists>b t. int_literal (0x30 # c # r) b t \<and> Q (literal_value b t)) \<longleftrightarrow>
      (lower c = 0x62 \<and> (\<exists>u t. u \<in> {[], [0x5F]} \<and> digit_seq 2 t \<and> r = u @ t \<and> Q (literal_value 2 t))) \<or>
      (lower c = 0x6F \<and> (\<exists>u t. u \<in> {[], [0x5F]} \<and> digit_seq 8 t \<and> r = u @ t \<and> Q (literal_value 8 t))) \<or>
      (lower c = 0x78 \<and> (\<exists>u t. u \<in> {[], [0x5F]} \<and> digit_seq 16 t \<and> r = u @ t \<and> Q (literal_value 16 t))) \<or>
      (\<exists>u t. u \<in> {[], [0x5F]} \<and> digit_seq 8 t \<and> c # r = u @ t \<and> Q (literal_value 8 t))"
    unfolding int_literal_prefix by (rule four_ways)
  have two: "(\<exists>u t. u \<in> {[], [0x5F]} \<and> digit_seq 2 t \<and> r = u @ t \<and> Q (literal_value 2 t)) \<longleftrightarrow> opt_seq 2 r \<and> Q (literal_value 2 r)"
    "(\<exists>u t. u \<in> {[], [0x5F]} \<and> digit_seq 8 t \<and> r = u @ t \<and> Q (literal_value 8 t)) \<longleftrightarrow> opt_seq 8 r \<and> Q (literal_value 8 r)"
    "(\<exists>u t. u \<in> {[], [0x5F]} \<and> digit_seq 16 t \<and> r = u @ t \<and> Q (literal_value 16 t)) \<longleftrightarrow> opt_seq 16 r \<and> Q (literal_value 16 r)"
    "(\<exists>u t. u \<in> {[], [0x5F]} \<and> digit_seq 8 t \<and> c # r = u @ t \<and> Q (literal_value 8 t)) \<longleftrightarrow> opt_seq 8 (c # r) \<and> Q (literal_value 8 (c # r))"
    by (rule opt_seq_value; simp)+
  show ?thesis
  proof (cases "lower c \<in> {0x62, 0x6F, 0x78}")
    case True
    then have "\<not> (\<exists>u t. u \<in> {[], [0x5F]} \<and> digit_seq 8 t \<and> c # r = u @ t \<and> Q (literal_value 8 t))" using letter by blast
    then show ?thesis unfolding eq two using True by auto
  next
    case False
    then show ?thesis unfolding eq two by simp
  qed
qed

text \<open>In base 0 the loop and the test of the underscores accept exactly the literals.\<close>

lemma literal_accept:
  assumes s: "s \<noteq> []" and base: "ParseUint_base s 0 = Some (int b, t)"
  shows "(digits_under b t \<and> (0x5F \<in> set t \<longrightarrow> underscoreOK s)) \<and> Q (literal_value b t) \<longleftrightarrow>
    (\<exists>b' t'. int_literal s b' t' \<and> Q (literal_value b' t'))"
proof (cases "hd s \<noteq> 0x30")
  case True
  then have d: "s = [] \<or> hd s \<noteq> 0x30" by simp
  have lit: "(\<exists>b t. int_literal s b t \<and> Q (literal_value b t)) \<longleftrightarrow> digit_seq 10 s \<and> Q (literal_value 10 s)"
    unfolding int_literal_decimal [OF d] by blast
  have "ParseUint_base s 0 = Some (int 10, s)" using True s by (simp add: ParseUint_base_def hd_conv_nth)
  then have "b = 10" "t = s" using base by simp_all
  then show ?thesis unfolding lit using decimal_accept [OF s True] by blast
next
  case False
  then obtain s' where s': "s = 0x30 # s'" using s by (cases s) auto
  show ?thesis
  proof (cases s')
    case Nil
    then have bt: "b = 8" "t = []" using base by (simp_all add: s' ParseUint_base_def)
    have "literal_value 10 [0x30] = 0" "literal_value 8 [] = 0" by (simp_all add: literal_value_def digit_value_def)
    then show ?thesis unfolding s' Nil int_literal_zero bt by auto
  next
    case (Cons c r)
    note lit = int_literal_prefix_value [of c r Q]
    have ok: "underscoreOK s = (if lower c \<in> {0x62, 0x6F, 0x78} then underscoreOK_loop (lower c = 0x78) 0x30 r
        else underscoreOK_loop False 0x30 (c # r))"
      unfolding s' Cons by (rule underscoreOK_prefix)
    consider (empty) "lower c \<in> {0x62, 0x6F, 0x78}" "r = []"
      | (bin) "lower c = 0x62" "r \<noteq> []" | (oct) "lower c = 0x6F" "r \<noteq> []" | (hex) "lower c = 0x78" "r \<noteq> []"
      | (plain) "lower c \<notin> {0x62, 0x6F, 0x78}" by blast
    then show ?thesis
    proof cases
      case empty
      then have c: "c \<in> {0x62, 0x42, 0x6F, 0x4F, 0x78, 0x58}" using lower_eq [of c] by auto
      then have "c \<noteq> 0x5F" "\<not> digit_value c < 8" by (auto simp: digit_value_def)
      moreover have "b = 8" "t = [c]" using empty base by (simp_all add: s' Cons ParseUint_base_def)
      ultimately show ?thesis using lit empty by (auto simp: s' Cons opt_seq_def)
    next
      case bin
      then have "b = 2" "t = r" using base by (simp_all add: s' Cons ParseUint_base_def Suc_le_eq)
      then show ?thesis using seq_accept [of 2 False r] lit bin unfolding s' Cons by (simp add: ok [unfolded s' Cons])
    next
      case oct
      then have "b = 8" "t = r" using base by (simp_all add: s' Cons ParseUint_base_def Suc_le_eq)
      then show ?thesis using seq_accept [of 8 False r] lit oct unfolding s' Cons by (simp add: ok [unfolded s' Cons])
    next
      case hex
      then have "b = 16" "t = r" using base by (simp_all add: s' Cons ParseUint_base_def Suc_le_eq)
      then show ?thesis using seq_accept [of 16 True r] lit hex unfolding s' Cons by (simp add: ok [unfolded s' Cons])
    next
      case plain
      then have "b = 8" "t = c # r" using base by (simp_all add: s' Cons ParseUint_base_def)
      then show ?thesis using seq_accept [of 8 False "c # r"] lit plain unfolding s' Cons
        by (simp add: ok [unfolded s' Cons] del: underscoreOK_loop.simps set_simps list.set)
    qed
  qed
qed

text \<open>The base of a text and the digits after its prefix, as the documentation of \<open>ParseInt\<close> has them.\<close>

definition prefix_base :: "gostring \<Rightarrow> nat \<times> gostring" where
  "prefix_base t =
     (if hd t \<noteq> 0x30 then (10, t)
      else if 3 \<le> length t \<and> t ! 1 \<in> {0x62, 0x42} then (2, drop 2 t)
      else if 3 \<le> length t \<and> t ! 1 \<in> {0x6F, 0x4F} then (8, drop 2 t)
      else if 3 \<le> length t \<and> t ! 1 \<in> {0x78, 0x58} then (16, drop 2 t)
      else (8, drop 1 t))"

lemma ParseUint_base_prefix: "t \<noteq> [] \<Longrightarrow> ParseUint_base t 0 = Some (apfst int (prefix_base t))"
  unfolding ParseUint_base_def lower_eq prefix_base_def by (auto simp: hd_conv_nth)

lemma prefix_base_range: "2 \<le> fst (prefix_base t)" "fst (prefix_base t) \<le> 36"
  by (simp_all add: prefix_base_def)

lemma ParseUint_literals_lemma:
  assumes k: "0 \<le> bitSize" "bitSize \<le> 64"
  shows "ParseUint s 0 bitSize = (n, None) \<longleftrightarrow>
    (\<exists>b t. int_literal s b t \<and> literal_value b t < 2 ^ parse_bits bitSize \<and> n = word_of_nat (literal_value b t))"
proof (cases "s = []")
  case True
  then show ?thesis using int_literal_decimal [of s] by (simp add: ParseUint_def)
next
  case False
  obtain b t where bt: "prefix_base s = (b, t)" by fastforce
  then have base: "ParseUint_base s 0 = Some (int b, t)" using ParseUint_base_prefix [OF False] by simp
  have b: "2 \<le> b" "b \<le> 36" using prefix_base_range [of s] bt by simp_all
  have "ParseUint s 0 bitSize = (n, None) \<longleftrightarrow> (digits_under b t \<and> (0x5F \<in> set t \<longrightarrow> underscoreOK s)) \<and>
      (literal_value b t < 2 ^ parse_bits bitSize \<and> n = word_of_nat (literal_value b t))"
    using ParseUint_base_0 [OF k False base b, of n] by blast
  then show ?thesis using literal_accept [OF False base, of "\<lambda>v. v < 2 ^ parse_bits bitSize \<and> n = word_of_nat v"] by simp
qed

section \<open>Every base and size\<close>

definition text_base :: "int \<Rightarrow> gostring \<Rightarrow> (nat \<times> gostring) option" where
  "text_base base t =
     (if 2 \<le> base \<and> base \<le> 36 then Some (nat base, t) else if base = 0 then Some (prefix_base t) else None)"

text \<open>The number of the longest prefix of digits, underscores left out in base 0; and the texts that are well-formed.\<close>

definition leading_number :: "int \<Rightarrow> nat \<Rightarrow> gostring \<Rightarrow> nat" where
  "leading_number base b r = number b (takeWhile (\<lambda>c. digit_value c < b) (if base = 0 then no_underscores r else r))"

definition text_ok :: "int \<Rightarrow> nat \<Rightarrow> gostring \<Rightarrow> bool" where
  "text_ok base b t \<longleftrightarrow> (if base = 0 then \<exists>b' t'. int_literal t b' t' else \<forall>c\<in>set t. digit_value c < b)"

text \<open>
  What \<open>ParseUint\<close> and \<open>ParseInt\<close> return for any text, base and size: the errors in their order,
  the clamped value with \<open>ErrRange\<close>, or the value.
\<close>

definition parse_uint_text :: "int \<Rightarrow> int \<Rightarrow> gostring \<Rightarrow> nat \<times> strconv_Error option" where
  "parse_uint_text base bitSize t =
     (if t = [] then (0, Some ErrSyntax)
      else case text_base base t of
        None \<Rightarrow> (0, Some ErrBase)
      | Some (b, r) \<Rightarrow>
          if bitSize < 0 \<or> 64 < bitSize then (0, Some ErrBitSize)
          else
            let k = parse_bits bitSize; n = leading_number base b r in
            if 2 ^ k \<le> n then (2 ^ k - 1, Some ErrRange)
            else if text_ok base b t then (n, None) else (0, Some ErrSyntax))"

definition parse_int_text :: "int \<Rightarrow> int \<Rightarrow> gostring \<Rightarrow> int \<times> strconv_Error option" where
  "parse_int_text base bitSize s =
     (let (neg, t) = parse_sign s in
      if t = [] then (0, Some ErrSyntax)
      else case text_base base t of
        None \<Rightarrow> (0, Some ErrBase)
      | Some (b, r) \<Rightarrow>
          if bitSize < 0 \<or> 64 < bitSize then (0, Some ErrBitSize)
          else
            let k = parse_bits bitSize; n = leading_number base b r; x = (if neg then - int n else int n) in
            if \<not> text_ok base b t \<and> n < 2 ^ k then (0, Some ErrSyntax)
            else if x < - (2 ^ (k - 1)) then (- (2 ^ (k - 1)), Some ErrRange)
            else if 2 ^ (k - 1) \<le> x then (2 ^ (k - 1) - 1, Some ErrRange)
            else (x, None))"

lemma ParseUint_base_0_eq:
  assumes k: "0 \<le> bitSize" "bitSize \<le> 64" and s: "s \<noteq> []" and bt: "prefix_base s = (b, t)"
  shows "ParseUint s 0 bitSize = apfst word_of_nat
    (if 2 ^ parse_bits bitSize \<le> leading_number 0 b t then (2 ^ parse_bits bitSize - 1, Some ErrRange)
     else if text_ok 0 b s then (leading_number 0 b t, None) else (0, Some ErrSyntax))"
proof -
  have base: "ParseUint_base s 0 = Some (int b, t)" using ParseUint_base_prefix [OF s] bt by simp
  have b: "2 \<le> b" "b \<le> 36" using prefix_base_range [of s] bt by simp_all
  have k': "nat (if bitSize = 0 then IntSize else bitSize) = parse_bits bitSize" by (simp add: parse_bits_def)
  have lim: "(if int b = 10 then maxUint64 div 10 + 1 else if int b = 16 then maxUint64 div 16 + 1
     else maxUint64 div word_of_int (int b) + 1) = ParseUint_cutoff b" by (rule ParseUint_limit) (use b in auto)
  have bits: "(bitSize < 0 \<or> bitSize > 64) = False" using k by auto
  define M where "M = (push_bit (parse_bits bitSize) 1 - 1 :: uint64)"
  define ds where "ds = takeWhile (\<lambda>c. digit_value c < b) (no_underscores t)"
  have M: "word_of_nat (2 ^ parse_bits bitSize - 1) = M"
    unfolding M_def by (simp only: of_nat_unat ucast_id flip: unat_maxVal [OF parse_bits_le [OF k]])
  have n: "leading_number 0 b t = number b ds" by (simp add: leading_number_def ds_def)
  have spec: "ParseUint_loop True (int b) (ParseUint_cutoff b) M False 0 t =
    (if 2 ^ parse_bits bitSize \<le> number b ds then Inl (M, ErrRange)
     else if ds = no_underscores t then Inr (word_of_nat (number b (no_underscores t)), 0x5F \<in> set t) else Inl (0, ErrSyntax))"
    using ParseUint_loop_spec [OF b parse_bits_le [OF k], of 0 True False t]
    unfolding M_def ds_def by (simp only: unsigned_0 Let_def if_True simp_thms) simp
  have ds: "ds = no_underscores t \<longleftrightarrow> digits_under b t" unfolding ds_def by (rule takeWhile_under)
  have ok: "text_ok 0 b s \<longleftrightarrow> ds = no_underscores t \<and> (0x5F \<in> set t \<longrightarrow> underscoreOK s)"
    using literal_accept [OF s base, of "\<lambda>_. True"] by (simp add: text_ok_def ds)
  have "ParseUint s 0 bitSize = (case ParseUint_loop True (int b) (ParseUint_cutoff b) M False 0 t of
      Inl (v, e) \<Rightarrow> (v, Some e)
    | Inr (n, underscores) \<Rightarrow> if underscores \<and> \<not> underscoreOK s then (0, Some ErrSyntax) else (n, None))"
    unfolding ParseUint_def Let_def base option.case prod.case bits if_False lim k' M_def using s by simp
  then show ?thesis
    unfolding spec ok n using M by (cases "ds = no_underscores t") auto
qed

lemma ParseUint_text: "ParseUint t base bitSize = apfst word_of_nat (parse_uint_text base bitSize t)"
proof (cases "t = [] \<or> base \<noteq> 0 \<and> (base < 2 \<or> 36 < base)")
  case True
  then show ?thesis by (cases "t = []") (auto simp: ParseUint_def parse_uint_text_def ParseUint_base_def text_base_def)
next
  case False
  then have t: "t \<noteq> []" by simp
  obtain b r where tb: "text_base base t = Some (b, r)" using False by (cases "prefix_base t") (auto simp: text_base_def)
  have pb: "ParseUint_base t base = Some (int b, r)"
  proof (cases "base = 0")
    case True
    then show ?thesis using tb ParseUint_base_prefix [OF t] by (simp add: text_base_def)
  next
    case b: False
    then show ?thesis using False tb by (auto simp: text_base_def ParseUint_base_def)
  qed
  show ?thesis
  proof (cases "bitSize < 0 \<or> 64 < bitSize")
    case True
    then show ?thesis using t tb pb by (simp add: ParseUint_def parse_uint_text_def Let_def)
  next
    case size: False
    then have k: "0 \<le> bitSize" "bitSize \<le> 64" by auto
    show ?thesis
    proof (cases "base = 0")
      case True
      then have "prefix_base t = (b, r)" using tb by (simp add: text_base_def)
      then show ?thesis using ParseUint_base_0_eq [OF k t] tb t size True by (simp add: parse_uint_text_def Let_def)
    next
      case b0: False
      then have b: "base = int b" "2 \<le> b" "b \<le> 36" "r = t" using False tb by (auto simp: text_base_def)
      define ds where "ds = takeWhile (\<lambda>c. digit_value c < b) t"
      have "text_ok base b t \<longleftrightarrow> ds = t" using b0 by (auto simp: text_ok_def ds_def)
      moreover have "leading_number base b r = number b ds" using b0 b(4) by (simp add: leading_number_def ds_def)
      ultimately have "parse_uint_text base bitSize t = parse_uint b (parse_bits bitSize) t"
        using t tb size by (simp add: parse_uint_text_def parse_uint_def Let_def ds_def [symmetric])
      then show ?thesis using ParseUint_unsigned [OF b(2,3) k, of t] b(1) by simp
    qed
  qed
qed

lemma ParseInt_text:
  assumes "bitSize \<noteq> 1"
  shows "ParseInt s base bitSize = apfst word_of_int (parse_int_text base bitSize s)"
proof -
  obtain neg t where st: "parse_sign s = (neg, t)" by fastforce
  show ?thesis
  proof (cases "t = [] \<or> text_base base t = None \<or> bitSize < 0 \<or> 64 < bitSize")
    case True
    then show ?thesis unfolding ParseInt_sign st Let_def prod.case ParseUint_text
      by (auto simp: parse_int_text_def parse_uint_text_def st split: option.splits)
  next
    case False
    then obtain b r where tb: "text_base base t = Some (b, r)" by auto
    define k where "k = parse_bits bitSize"
    define h where "h = (2 :: nat) ^ (k - 1)"
    define n where "n = leading_number base b r"
    have none: "(t = []) = False" "(bitSize < 0 \<or> 64 < bitSize) = False" using False by auto
    have size: "0 \<le> bitSize" "bitSize \<le> 64" using False by auto
    have k: "2 \<le> k" "k \<le> 64" using assms size by (auto simp: k_def parse_bits_def)
    then have "k = Suc (k - 1)" by simp
    then have e: "(2 :: nat) ^ k = 2 * h" unfolding h_def by (metis power_Suc)
    have h2: "2 \<le> h" using k power_increasing [of 1 "k - 1" "2 :: nat"] by (simp add: h_def)
    have hi: "(2 :: int) ^ (k - 1) = int h" by (simp add: h_def)
    have bits: "nat ((if bitSize = 0 then IntSize else bitSize) - 1) = k - 1" using size by (auto simp: k_def parse_bits_def)
    define v err where "v = fst (parse_uint_text base bitSize t)" and "err = snd (parse_uint_text base bitSize t)"
    have pu: "parse_uint_text base bitSize t = (if 2 * h \<le> n then (2 * h - 1, Some ErrRange) else if text_ok base b t then (n, None) else (0, Some ErrSyntax))"
      using False tb by (simp add: parse_uint_text_def Let_def k_def [symmetric] e n_def)
    have "v < 2 ^ k" using h2 by (simp add: v_def pu e)
    note half = half_range [OF this _ k(2)]
    have c: "push_bit (k - 1) (1 :: uint64) - 1 = word_of_int (int h - 1)" "- push_bit (k - 1) (1 :: uint64) = word_of_int (- int h)"
      by (simp_all add: h_def)
    have "ParseInt s base bitSize =
       (if err \<noteq> None \<and> err \<noteq> Some ErrRange then (0, err)
        else if \<not> neg \<and> h \<le> v then (word_of_int (int h - 1), Some ErrRange)
        else if neg \<and> h < v then (word_of_int (- int h), Some ErrRange)
        else (word_of_int (if neg then - int v else int v), None))"
      using half k(1) unfolding ParseInt_sign st Let_def prod.case bits ParseUint_text c h_def [symmetric]
      by (simp add: v_def err_def split_beta)
    also have "\<dots> = (case if False then (0, Some ErrSyntax) else if 2 * h \<le> n then (2 * h - 1, Some ErrRange)
        else if text_ok base b t then (n, None) else (0, Some ErrSyntax) of
      (v, err) \<Rightarrow>
        if err \<noteq> None \<and> err \<noteq> Some ErrRange then (0, err)
        else if \<not> neg \<and> h \<le> v then (word_of_int (int h - 1), Some ErrRange)
        else if neg \<and> h < v then (word_of_int (- int h), Some ErrRange)
        else (word_of_int (if neg then - int v else int v), None))"
      unfolding if_False pu [symmetric] by (simp add: v_def err_def split_beta)
    also have "\<dots> = apfst word_of_int (parse_int_text base bitSize s)"
      unfolding parse_int_text_def st Let_def prod.case tb option.case none if_False k_def [symmetric] n_def [symmetric] hi e
      by (rule clamp [where A = False and neg = neg and D = "text_ok base b t" and n = n, OF h2 refl, unfolded Let_def simp_thms if_False])
    finally show ?thesis .
  qed
qed

section \<open>The public package\<close>

lemma conv_ok: "conv f s base bitSize (v, None) = Inr (v, None)" by (simp add: conv_def)

lemma conv_err: "conv f s base bitSize (v, Some e) = bind_go (toError f s base bitSize e) (\<lambda>e. Inr (v, Some e))"
  by (simp add: conv_def)

section \<open>Properties\<close>

text \<open>C18.
  Formatting gives the canonical text in every base from 2 to 36: a minus sign for a negative
  number, then its digits without leading zeros; the four ways of producing it (digit pairs from
  a table, chunks of nine decimal digits, shifts, divisions) agree, and no buffer is too small.\<close>

theorem FormatInt_canonical:
  assumes "2 \<le> b" "b \<le> 36"
  shows "FormatInt i (int b) = Inr (int_text b (sint i)) \<and> AppendInt dst i (int b) = Inr (dst @ int_text b (sint i)) \<and>
    FormatUint u (int b) = Inr (int_text b (uint u)) \<and> AppendUint dst u (int b) = Inr (dst @ int_text b (uint u))"
  using FormatInt_text [OF assms] FormatUint_digits [OF assms] by (simp add: int_text_def flip: unat_eq_nat_uint)

theorem FormatInt_canonical_witness:
  "FormatInt (- 5) 2 = Inr (bytes_of ''-101'') \<and> FormatUint 255 16 = Inr (bytes_of ''ff'')"
  using FormatInt_canonical [of 2 "- 5" "[]" 0] FormatInt_canonical [of 16 0 "[]" 255]
  by (simp add: int_text_def to_digits.simps digits_def bytes_of_def)

text \<open>C8.
  What is formatted is parsed back, in every base, through the public functions: \<open>ParseInt\<close>
  inverts \<open>FormatInt\<close>, \<open>ParseUint\<close> inverts \<open>FormatUint\<close>, \<open>Atoi\<close> inverts \<open>Itoa\<close>.\<close>

theorem Parse_Format_roundtrip:
  assumes "2 \<le> b" "b \<le> 36"
  shows "bind_go (strconv_FormatInt i (int b)) (\<lambda>s. strconv_ParseInt s (int b) 64) = Inr (i, None) \<and>
    bind_go (strconv_FormatUint u (int b)) (\<lambda>s. strconv_ParseUint s (int b) 64) = Inr (u, None) \<and>
    bind_go (strconv_Itoa i) strconv_Atoi = Inr (i, None)"
proof -
  have range: "- (2 ^ 63) \<le> sint i" "sint i < 2 ^ 63"
    using sint_greater_eq [of i] sint_less [of i] by simp_all
  have parse: "ParseInt (int_text b (sint i)) (int b) 64 = (i, None)" if "2 \<le> b" "b \<le> 36" for b
    using ParseInt_val [OF that, of 64 "int_text b (sint i)"] parse_int_text [OF that range] by (simp add: parse_bits_def)
  have "unat u < 2 ^ 64" using unsigned_less [of u, where 'a = nat] by simp
  then have parseu: "ParseUint (to_digits b (unat u)) (int b) 64 = (u, None)"
    using ParseUint_unsigned [OF assms, of 64 "to_digits b (unat u)"] parse_uint_digits [OF assms, of "unat u" 64]
    by (simp add: parse_bits_def)
  have "ParseInt (int_text 10 (sint i)) 10 0 = (i, None)"
    using ParseInt_val [of 10 0 "int_text 10 (sint i)"] parse_int_text [OF _ _ range, of 10] by (simp add: parse_bits_def)
  moreover have "FormatInt i 10 = Inr (int_text 10 (sint i))" using FormatInt_text(1) [of 10 i] by simp
  ultimately show ?thesis
    using parse [OF assms] parseu FormatInt_text(1) [OF assms] FormatUint_digits(1) [OF assms]
    by (simp add: strconv_FormatInt_def strconv_ParseInt_def strconv_FormatUint_def strconv_ParseUint_def strconv_Itoa_def
        strconv_Atoi_def Itoa_def Atoi_eq_ParseInt conv_ok)
qed

theorem Parse_Format_roundtrip_witness:
  "bind_go (strconv_FormatInt (- 5) 36) (\<lambda>s. strconv_ParseInt s 36 64) = Inr (- 5, None)"
  using Parse_Format_roundtrip [of 36 "- 5"] by simp

text \<open>C7.
  \<open>ParseInt\<close> is exact for every text, every base and every size but that of one bit.  An empty text,
  also after a sign, a base that is neither 0 nor from 2 to 36, and a size outside 0 to 64 are
  errors, in this order.  Otherwise the longest prefix of digits in the base (in base 0 after the
  prefix that gives it, without underscores) has a value.  When it is out of the unsigned range, the
  nearest representable number is returned with \<open>ErrRange\<close>, whatever follows; else a text that is not
  well formed, in base 0 not a literal of the language, is a syntax error; else the value is
  returned, or the nearest representable number with \<open>ErrRange\<close>.\<close>

theorem ParseInt_exact:
  assumes "bitSize \<noteq> 1"
  shows "ParseInt s base bitSize = apfst word_of_int (parse_int_text base bitSize s)"
  by (rule ParseInt_text [OF assms])

theorem ParseInt_exact_witness:
  "ParseInt (bytes_of ''-129'') 10 8 = (- 128, Some ErrRange) \<and> ParseInt (bytes_of ''-0x80'') 0 8 = (- 128, None) \<and>
   ParseInt (bytes_of ''12'') 37 64 = (0, Some ErrBase) \<and> ParseInt (bytes_of ''12'') 10 65 = (0, Some ErrBitSize)"
proof -
  have "int_literal (0x30 # 0x78 # [] @ [0x38, 0x30]) 16 [0x38, 0x30]"
    by (rule int_literal.hex) (simp_all add: digit_value_def)
  then have lit: "\<exists>b t. int_literal [0x30, 0x78, 0x38, 0x30] b t" by auto
  have "ParseInt (bytes_of ''-0x80'') 0 8 = (- 128, None)"
    using ParseInt_exact [of 8 "bytes_of ''-0x80''" 0] lit
    by (simp add: parse_int_text_def parse_sign_def parse_bits_def text_base_def prefix_base_def leading_number_def text_ok_def
        bytes_of_def digit_value_def Let_def)
  moreover have "ParseInt (bytes_of ''-129'') 10 8 = (- 128, Some ErrRange)"
    using ParseInt_exact [of 8 "bytes_of ''-129''" 10]
    by (simp add: parse_int_text_def parse_sign_def parse_bits_def text_base_def leading_number_def text_ok_def
        bytes_of_def digit_value_def Let_def)
  moreover have "ParseInt (bytes_of ''12'') 37 64 = (0, Some ErrBase)" "ParseInt (bytes_of ''12'') 10 65 = (0, Some ErrBitSize)"
    using ParseInt_exact [of 64 "bytes_of ''12''" 37] ParseInt_exact [of 65 "bytes_of ''12''" 10]
    by (simp_all add: parse_int_text_def parse_sign_def text_base_def bytes_of_def Let_def)
  ultimately show ?thesis by simp
qed

text \<open>C27.
  With a size of one bit a negative number below the range is not reported: the test of the
  value that \<open>ParseUint\<close> has clamped lets it through as \<open>-1\<close> with no error.\<close>

theorem ParseInt_one_bit:
  assumes "2 \<le> b" "b \<le> 36" "s \<noteq> []" "\<forall>c\<in>set s. digit_value c < b" "1 < number b s"
  shows "ParseInt (0x2D # s) (int b) 1 = (- 1, None)"
  by (rule ParseInt_one_bit_val [OF assms])

theorem ParseInt_one_bit_witness: "ParseInt (bytes_of ''-2'') 10 1 = (- 1, None)"
  using ParseInt_one_bit [of 10 "bytes_of ''2''"] by (simp add: bytes_of_def digit_value_def)


text \<open>\<open>Atoi\<close> with its path for short texts is \<open>ParseInt\<close> in base 10, on every text.\<close>

theorem Atoi_ParseInt: "Atoi s = ParseInt s 10 0"
  by (rule Atoi_eq_ParseInt)

text \<open>C19.
  In base 0 a text is accepted exactly when it is an integer literal of the language (prefixes,
  leading zero for octal, underscores only between digits or after a prefix) whose value fits,
  and that value is returned.\<close>

theorem ParseUint_literals:
  assumes "0 \<le> bitSize" "bitSize \<le> 64"
  shows "ParseUint s 0 bitSize = (n, None) \<longleftrightarrow>
    (\<exists>b t. int_literal s b t \<and> literal_value b t < 2 ^ parse_bits bitSize \<and> n = word_of_nat (literal_value b t))"
  by (rule ParseUint_literals_lemma [OF assms])

theorem ParseUint_literals_witness:
  "ParseUint (bytes_of ''0x_fF'') 0 8 = (255, None)"
proof -
  have "int_literal (0x30 # 0x78 # [0x5F] @ [0x66, 0x46]) 16 [0x66, 0x46]"
    by (rule int_literal.hex) (simp_all add: digit_value_def)
  moreover have "literal_value 16 [0x66, 0x46] = 255" by (simp add: literal_value_def digit_value_def)
  ultimately have "\<exists>b t. int_literal (bytes_of ''0x_fF'') b t \<and> literal_value b t < 2 ^ parse_bits 8 \<and> 255 = (word_of_nat (literal_value b t) :: uint64)"
    by (intro exI [of _ 16] exI [of _ "[0x66, 0x46]"]) (simp add: bytes_of_def parse_bits_def)
  then show ?thesis using ParseUint_literals [of 8 "bytes_of ''0x_fF''" 255] by simp
qed

end
