(* ===== verification/Utf8.thy ===== *)
theory Utf8
  imports Prelude
begin

text \<open>
  The package \<open>unicode/utf8\<close>: the first-byte table and the accept ranges, decoding of
  the first and the last rune, encoding, validation with its word-at-a-time ASCII path,
  rune counting.  The functions on strings are modelled beside those on byte slices: a
  string and a slice are both a list of bytes here, and the two texts of the source are
  translated separately.
\<close>

section \<open>Constants and tables\<close>

abbreviation RuneError :: rune where "RuneError \<equiv> 0xFFFD"
abbreviation RuneSelf :: byte where "RuneSelf \<equiv> 0x80"
abbreviation MaxRune :: rune where "MaxRune \<equiv> 0x10FFFF"
abbreviation UTFMax :: nat where "UTFMax \<equiv> 4"
abbreviation surrogateMin :: rune where "surrogateMin \<equiv> 0xD800"
abbreviation surrogateMax :: rune where "surrogateMax \<equiv> 0xDFFF"

abbreviation utf8_tx :: byte where "utf8_tx \<equiv> 0x80"
abbreviation utf8_t2 :: byte where "utf8_t2 \<equiv> 0xC0"
abbreviation utf8_t3 :: byte where "utf8_t3 \<equiv> 0xE0"
abbreviation utf8_t4 :: byte where "utf8_t4 \<equiv> 0xF0"
abbreviation utf8_maskx :: byte where "utf8_maskx \<equiv> 0x3F"
abbreviation utf8_mask2 :: byte where "utf8_mask2 \<equiv> 0x1F"
abbreviation utf8_mask3 :: byte where "utf8_mask3 \<equiv> 0x0F"
abbreviation utf8_mask4 :: byte where "utf8_mask4 \<equiv> 0x07"
abbreviation rune1Max :: rune where "rune1Max \<equiv> 0x7F"
abbreviation rune2Max :: rune where "rune2Max \<equiv> 0x7FF"
abbreviation rune3Max :: rune where "rune3Max \<equiv> 0xFFFF"
abbreviation utf8_locb :: byte where "utf8_locb \<equiv> 0x80"
abbreviation utf8_hicb :: byte where "utf8_hicb \<equiv> 0xBF"
abbreviation utf8_xx :: byte where "utf8_xx \<equiv> 0xF1"
abbreviation utf8_as :: byte where "utf8_as \<equiv> 0xF0"
abbreviation utf8_s1 :: byte where "utf8_s1 \<equiv> 0x02"
abbreviation utf8_s2 :: byte where "utf8_s2 \<equiv> 0x13"
abbreviation utf8_s3 :: byte where "utf8_s3 \<equiv> 0x03"
abbreviation utf8_s4 :: byte where "utf8_s4 \<equiv> 0x23"
abbreviation utf8_s5 :: byte where "utf8_s5 \<equiv> 0x34"
abbreviation utf8_s6 :: byte where "utf8_s6 \<equiv> 0x04"
abbreviation utf8_s7 :: byte where "utf8_s7 \<equiv> 0x44"
abbreviation runeErrorByte0 :: byte where "runeErrorByte0 \<equiv> 0xEF"
abbreviation runeErrorByte1 :: byte where "runeErrorByte1 \<equiv> 0xBF"
abbreviation runeErrorByte2 :: byte where "runeErrorByte2 \<equiv> 0xBD"

text \<open>
  The table \<open>first\<close>, row by row: eight rows of ASCII, four of continuation bytes, the
  rows \<open>C0\<close>, \<open>D0\<close>, \<open>E0\<close> and \<open>F0\<close>.
\<close>

definition first_table :: "byte list" where
  "first_table =
     replicate (8 * 16) utf8_as @
     replicate (4 * 16) utf8_xx @
     replicate 2 utf8_xx @ replicate 14 utf8_s1 @
     replicate 16 utf8_s1 @
     [utf8_s2] @ replicate 12 utf8_s3 @ [utf8_s4] @ replicate 2 utf8_s3 @
     [utf8_s5] @ replicate 3 utf8_s6 @ [utf8_s7] @ replicate 11 utf8_xx"

definition utf8_first :: "byte \<Rightarrow> byte" where
  "utf8_first b = first_table ! unat b"

record acceptRange =
  accept_lo :: byte
  accept_hi :: byte

definition acceptRanges :: "acceptRange list" where
  "acceptRanges =
     [\<lparr>accept_lo = utf8_locb, accept_hi = utf8_hicb\<rparr>, \<lparr>accept_lo = 0xA0, accept_hi = utf8_hicb\<rparr>,
      \<lparr>accept_lo = utf8_locb, accept_hi = 0x9F\<rparr>, \<lparr>accept_lo = 0x90, accept_hi = utf8_hicb\<rparr>,
      \<lparr>accept_lo = utf8_locb, accept_hi = 0x8F\<rparr>] @ replicate 11 \<lparr>accept_lo = 0, accept_hi = 0\<rparr>"

text \<open>The accept range and the size encoded in an entry of \<open>first\<close>.\<close>

abbreviation accept_of :: "byte \<Rightarrow> acceptRange" where
  "accept_of x \<equiv> acceptRanges ! unat (drop_bit 4 x)"

abbreviation size_of :: "byte \<Rightarrow> nat" where
  "size_of x \<equiv> unat (x AND 7)"

section \<open>Decoding\<close>

definition FullRune :: "byte list \<Rightarrow> bool" where
  "FullRune p =
     (let n = length p in
      if n = 0 then False
      else
        let x = utf8_first (p ! 0) in
        if n \<ge> size_of x then True
        else
          let accept = accept_of x in
          if n > 1 \<and> (p ! 1 < accept_lo accept \<or> accept_hi accept < p ! 1) then True
          else if n > 2 \<and> (p ! 2 < utf8_locb \<or> utf8_hicb < p ! 2) then True
          else False)"

definition FullRuneInString :: "gostring \<Rightarrow> bool" where
  "FullRuneInString s =
     (let n = length s in
      if n = 0 then False
      else
        let x = utf8_first (s ! 0) in
        if n \<ge> size_of x then True
        else
          let accept = accept_of x in
          if n > 1 \<and> (s ! 1 < accept_lo accept \<or> accept_hi accept < s ! 1) then True
          else if n > 2 \<and> (s ! 2 < utf8_locb \<or> utf8_hicb < s ! 2) then True
          else False)"

text \<open>
  \<open>rune(x) << 31 >> 31\<close> shifts the low bit of the table entry over the whole word: the
  right shift of an \<open>int32\<close> is arithmetic.
\<close>

definition decodeRuneSlow :: "byte list \<Rightarrow> rune \<times> nat" where
  "decodeRuneSlow p =
     (let n = length p in
      if n < 1 then (RuneError, 0)
      else
        let p0 = p ! 0; x = utf8_first p0 in
        if x \<ge> utf8_as then
          let mask = signed_drop_bit 31 (push_bit 31 (ucast x :: rune))
          in ((ucast (p ! 0) AND NOT mask) OR (RuneError AND mask), 1)
        else
          let sz = size_of x; accept = accept_of x in
          if n < sz then (RuneError, 1)
          else
            let b1 = p ! 1 in
            if b1 < accept_lo accept \<or> accept_hi accept < b1 then (RuneError, 1)
            else if sz \<le> 2 then
              (push_bit 6 (ucast (p0 AND utf8_mask2)) OR ucast (b1 AND utf8_maskx), 2)
            else
              let b2 = p ! 2 in
              if b2 < utf8_locb \<or> utf8_hicb < b2 then (RuneError, 1)
              else if sz \<le> 3 then
                (push_bit 12 (ucast (p0 AND utf8_mask3)) OR
                 push_bit 6 (ucast (b1 AND utf8_maskx)) OR ucast (b2 AND utf8_maskx), 3)
              else
                let b3 = p ! 3 in
                if b3 < utf8_locb \<or> utf8_hicb < b3 then (RuneError, 1)
                else
                  (push_bit 18 (ucast (p0 AND utf8_mask4)) OR
                   push_bit 12 (ucast (b1 AND utf8_maskx)) OR
                   push_bit 6 (ucast (b2 AND utf8_maskx)) OR ucast (b3 AND utf8_maskx), 4))"

definition DecodeRune :: "byte list \<Rightarrow> rune \<times> nat" where
  "DecodeRune p =
     (case p of
        [] \<Rightarrow> decodeRuneSlow p
      | b # _ \<Rightarrow> if b < RuneSelf then (ucast b, 1) else decodeRuneSlow p)"

definition decodeRuneInStringSlow :: "gostring \<Rightarrow> rune \<times> nat" where
  "decodeRuneInStringSlow s =
     (let n = length s in
      if n < 1 then (RuneError, 0)
      else
        let s0 = s ! 0; x = utf8_first s0 in
        if x \<ge> utf8_as then
          let mask = signed_drop_bit 31 (push_bit 31 (ucast x :: rune))
          in ((ucast (s ! 0) AND NOT mask) OR (RuneError AND mask), 1)
        else
          let sz = size_of x; accept = accept_of x in
          if n < sz then (RuneError, 1)
          else
            let b1 = s ! 1 in
            if b1 < accept_lo accept \<or> accept_hi accept < b1 then (RuneError, 1)
            else if sz \<le> 2 then
              (push_bit 6 (ucast (s0 AND utf8_mask2)) OR ucast (b1 AND utf8_maskx), 2)
            else
              let b2 = s ! 2 in
              if b2 < utf8_locb \<or> utf8_hicb < b2 then (RuneError, 1)
              else if sz \<le> 3 then
                (push_bit 12 (ucast (s0 AND utf8_mask3)) OR
                 push_bit 6 (ucast (b1 AND utf8_maskx)) OR ucast (b2 AND utf8_maskx), 3)
              else
                let b3 = s ! 3 in
                if b3 < utf8_locb \<or> utf8_hicb < b3 then (RuneError, 1)
                else
                  (push_bit 18 (ucast (s0 AND utf8_mask4)) OR
                   push_bit 12 (ucast (b1 AND utf8_maskx)) OR
                   push_bit 6 (ucast (b2 AND utf8_maskx)) OR ucast (b3 AND utf8_maskx), 4))"

definition DecodeRuneInString :: "gostring \<Rightarrow> rune \<times> nat" where
  "DecodeRuneInString s =
     (if s \<noteq> [] \<and> s ! 0 < RuneSelf then (ucast (s ! 0), 1)
      else decodeRuneInStringSlow s)"

definition RuneStart :: "byte \<Rightarrow> bool" where
  "RuneStart b \<longleftrightarrow> b AND 0xC0 \<noteq> 0x80"

text \<open>
  The loop of \<open>DecodeLastRune\<close>: \<open>start\<close> moves left while it is at least \<open>lim\<close> and
  the byte there is no start byte.  Indices are \<open>int\<close>, since the loop may leave
  \<open>start\<close> at \<open>-1\<close>.
\<close>

function last_start :: "byte list \<Rightarrow> int \<Rightarrow> int \<Rightarrow> int" where
  "last_start p lim start =
     (if start \<ge> lim \<and> \<not> RuneStart (p ! nat start) then last_start p lim (start - 1) else start)"
  by pat_completeness auto
termination
  by (relation "measure (\<lambda>(p, lim, start). nat (start - lim + 1))") auto

declare last_start.simps [simp del]

definition DecodeLastRune :: "byte list \<Rightarrow> rune \<times> nat" where
  "DecodeLastRune p =
     (let end = int (length p) in
      if end = 0 then (RuneError, 0)
      else
        let start = end - 1; r = ucast (p ! nat start) :: rune in
        if sint r < 0x80 then (r, 1)
        else
          let lim = max (end - int UTFMax) 0;
              start = last_start p lim (start - 1);
              start = (if start < 0 then 0 else start);
              (r, size) = DecodeRune (drop (nat start) p)
          in if start + int size \<noteq> end then (RuneError, 1) else (r, size))"

definition DecodeLastRuneInString :: "gostring \<Rightarrow> rune \<times> nat" where
  "DecodeLastRuneInString s =
     (let end = int (length s) in
      if end = 0 then (RuneError, 0)
      else
        let start = end - 1; r = ucast (s ! nat start) :: rune in
        if sint r < 0x80 then (r, 1)
        else
          let lim = max (end - int UTFMax) 0;
              start = last_start s lim (start - 1);
              start = (if start < 0 then 0 else start);
              (r, size) = DecodeRuneInString (drop (nat start) s)
          in if start + int size \<noteq> end then (RuneError, 1) else (r, size))"

section \<open>Encoding\<close>

definition RuneLen :: "rune \<Rightarrow> int" where
  "RuneLen r =
     (if sint r < 0 then -1
      else if sint r \<le> sint rune1Max then 1
      else if sint r \<le> sint rune2Max then 2
      else if sint surrogateMin \<le> sint r \<and> sint r \<le> sint surrogateMax then -1
      else if sint r \<le> sint rune3Max then 3
      else if sint r \<le> sint MaxRune then 4
      else -1)"

definition ValidRune :: "rune \<Rightarrow> bool" where
  "ValidRune r \<longleftrightarrow>
     (if 0 \<le> sint r \<and> sint r < sint surrogateMin then True
      else if sint surrogateMax < sint r \<and> sint r \<le> sint MaxRune then True
      else False)"

text \<open>
  \<open>uint32(r)\<close> is the word itself, compared unsigned; \<open>r >> k\<close> on an \<open>int32\<close> is the
  arithmetic shift.
\<close>

definition appendRuneNonASCII :: "byte list \<Rightarrow> rune \<Rightarrow> byte list" where
  "appendRuneNonASCII p r =
     (if r \<le> rune2Max then
        p @ [utf8_t2 OR ucast (signed_drop_bit 6 r), utf8_tx OR (ucast r AND utf8_maskx)]
      else if r < surrogateMin \<or> (surrogateMax < r \<and> r \<le> rune3Max) then
        p @ [utf8_t3 OR ucast (signed_drop_bit 12 r),
             utf8_tx OR (ucast (signed_drop_bit 6 r) AND utf8_maskx),
             utf8_tx OR (ucast r AND utf8_maskx)]
      else if r > rune3Max \<and> r \<le> MaxRune then
        p @ [utf8_t4 OR ucast (signed_drop_bit 18 r),
             utf8_tx OR (ucast (signed_drop_bit 12 r) AND utf8_maskx),
             utf8_tx OR (ucast (signed_drop_bit 6 r) AND utf8_maskx),
             utf8_tx OR (ucast r AND utf8_maskx)]
      else p @ [runeErrorByte0, runeErrorByte1, runeErrorByte2])"

definition AppendRune :: "byte list \<Rightarrow> rune \<Rightarrow> byte list" where
  "AppendRune p r = (if r \<le> rune1Max then p @ [ucast r] else appendRuneNonASCII p r)"

text \<open>
  \<open>EncodeRune\<close> writes into the slice \<open>p\<close>; the bounds check before the first write
  panics when \<open>p\<close> is too short, so no partial write is visible.
\<close>

definition encodeRuneNonASCII :: "byte list \<Rightarrow> rune \<Rightarrow> (byte list \<times> nat) go" where
  "encodeRuneNonASCII p r =
     (if r \<le> rune2Max then
        (if length p \<le> 1 then Inl IndexOutOfRange
         else Inr (p[0 := utf8_t2 OR ucast (signed_drop_bit 6 r),
                     1 := utf8_tx OR (ucast r AND utf8_maskx)], 2))
      else if r < surrogateMin \<or> (surrogateMax < r \<and> r \<le> rune3Max) then
        (if length p \<le> 2 then Inl IndexOutOfRange
         else Inr (p[0 := utf8_t3 OR ucast (signed_drop_bit 12 r),
                     1 := utf8_tx OR (ucast (signed_drop_bit 6 r) AND utf8_maskx),
                     2 := utf8_tx OR (ucast r AND utf8_maskx)], 3))
      else if r > rune3Max \<and> r \<le> MaxRune then
        (if length p \<le> 3 then Inl IndexOutOfRange
         else Inr (p[0 := utf8_t4 OR ucast (signed_drop_bit 18 r),
                     1 := utf8_tx OR (ucast (signed_drop_bit 12 r) AND utf8_maskx),
                     2 := utf8_tx OR (ucast (signed_drop_bit 6 r) AND utf8_maskx),
                     3 := utf8_tx OR (ucast r AND utf8_maskx)], 4))
      else
        (if length p \<le> 2 then Inl IndexOutOfRange
         else Inr (p[0 := runeErrorByte0, 1 := runeErrorByte1, 2 := runeErrorByte2], 3)))"

definition EncodeRune :: "byte list \<Rightarrow> rune \<Rightarrow> (byte list \<times> nat) go" where
  "EncodeRune p r =
     (if r \<le> rune1Max then
        (if p = [] then Inl IndexOutOfRange else Inr (p[0 := ucast r], 1))
      else encodeRuneNonASCII p r)"

section \<open>Counting and validation\<close>

text \<open>
  \<open>for range s\<close> over a string advances by the width of each decoded rune, one byte for
  an invalid encoding.
\<close>

lemma decodeRuneInStringSlow_pos: "s \<noteq> [] \<Longrightarrow> 0 < snd (decodeRuneInStringSlow s)"
  by (simp add: decodeRuneInStringSlow_def Let_def split: if_splits)

lemma DecodeRuneInString_pos: "s \<noteq> [] \<Longrightarrow> 0 < snd (DecodeRuneInString s)"
  by (simp add: DecodeRuneInString_def decodeRuneInStringSlow_pos)

function RuneCountInString :: "gostring \<Rightarrow> nat" where
  "RuneCountInString s =
     (if s = [] then 0 else Suc (RuneCountInString (drop (snd (DecodeRuneInString s)) s)))"
  by pat_completeness auto
termination
  by (relation "measure length") (simp_all add: DecodeRuneInString_pos)

declare RuneCountInString.simps [simp del]

function runeCount_from :: "byte list \<Rightarrow> nat \<Rightarrow> nat" where
  "runeCount_from p n =
     (if n < length p then
        (if p ! n \<ge> RuneSelf then n + RuneCountInString (drop n p)
         else runeCount_from p (Suc n))
      else n)"
  by pat_completeness auto
termination
  by (relation "measure (\<lambda>(p, n). length p - n)") auto

declare runeCount_from.simps [simp del]

definition RuneCount :: "byte list \<Rightarrow> nat" where
  "RuneCount p = runeCount_from p 0"

text \<open>
  The machine word read at the start of a slice, for a pointer size \<open>ps\<close> of 4 or 8
  bytes.  A 32-bit \<open>uintptr\<close> is the low half of the word.
\<close>

definition utf8_word :: "nat \<Rightarrow> byte list \<Rightarrow> uint64" where
  "utf8_word ps s =
     (if ps = 4 then
        ucast (s ! 0) OR push_bit 8 (ucast (s ! 1)) OR push_bit 16 (ucast (s ! 2)) OR
        push_bit 24 (ucast (s ! 3))
      else
        ucast (s ! 0) OR push_bit 8 (ucast (s ! 1)) OR push_bit 16 (ucast (s ! 2)) OR
        push_bit 24 (ucast (s ! 3)) OR push_bit 32 (ucast (s ! 4)) OR
        push_bit 40 (ucast (s ! 5)) OR push_bit 48 (ucast (s ! 6)) OR
        push_bit 56 (ucast (s ! 7)))"

definition hiBits :: "nat \<Rightarrow> uint64" where
  "hiBits ps = drop_bit (64 - 8 * ps) 0x8080808080808080"

text \<open>The innermost loop of the ASCII path, then the path itself after the first byte.\<close>

function skip_ascii4 :: "nat \<Rightarrow> byte list \<Rightarrow> byte list" where
  "skip_ascii4 ps p =
     (if ps > 0 \<and> length p > 4 * ps \<and>
         ((utf8_word ps p OR utf8_word ps (drop ps p)) OR
          (utf8_word ps (drop (2 * ps) p) OR utf8_word ps (drop (3 * ps) p))) AND hiBits ps = 0
      then skip_ascii4 ps (drop (4 * ps) p) else p)"
  by pat_completeness auto
termination
  by (relation "measure (\<lambda>(ps, p). length p)") auto

declare skip_ascii4.simps [simp del]

definition skip_ascii :: "nat \<Rightarrow> byte list \<Rightarrow> byte list" where
  "skip_ascii ps p =
     (if length p > ps \<and> utf8_word ps p AND hiBits ps = 0 then
        let p = drop ps p in
        if length p > 2 * ps \<and>
           (utf8_word ps p OR utf8_word ps (drop ps p)) AND hiBits ps = 0
        then skip_ascii4 ps (drop (2 * ps) p)
        else p
      else p)"

lemma skip_ascii4_length: "length (skip_ascii4 ps p) \<le> length p"
proof (induction ps p rule: skip_ascii4.induct)
  case (1 ps p)
  then show ?case by (subst skip_ascii4.simps) (force simp del: skip_ascii4.simps)
qed

lemma skip_ascii_length: "length (skip_ascii ps p) \<le> length p"
  using skip_ascii4_length [of ps "drop (2 * ps) (drop ps p)"]
  by (auto simp: skip_ascii_def Let_def)

function Valid :: "nat \<Rightarrow> byte list \<Rightarrow> bool" where
  "Valid ps [] = True"
| "Valid ps (p0 # q) =
     (let p = p0 # q in
      if p0 < RuneSelf then Valid ps (skip_ascii ps q)
      else
        let x = utf8_first p0; size = size_of x; accept = accept_of x in
        if size = 2 then
          (if length p < 2 \<or> p ! 1 < accept_lo accept \<or> accept_hi accept < p ! 1 then False
           else Valid ps (drop 2 p))
        else if size = 3 then
          (if length p < 3 \<or> p ! 1 < accept_lo accept \<or> accept_hi accept < p ! 1 \<or>
              p ! 2 < utf8_locb \<or> utf8_hicb < p ! 2 then False
           else Valid ps (drop 3 p))
        else if size = 4 then
          (if length p < 4 \<or> p ! 1 < accept_lo accept \<or> accept_hi accept < p ! 1 \<or>
              p ! 2 < utf8_locb \<or> utf8_hicb < p ! 2 \<or>
              p ! 3 < utf8_locb \<or> utf8_hicb < p ! 3 then False
           else Valid ps (drop 4 p))
        else False)"
  by pat_completeness auto
termination
  by (relation "measure (\<lambda>(ps, p). length p)") (auto simp: skip_ascii_length less_Suc_eq_le)

function ValidString :: "nat \<Rightarrow> gostring \<Rightarrow> bool" where
  "ValidString ps [] = True"
| "ValidString ps (s0 # q) =
     (let s = s0 # q in
      if s0 < RuneSelf then ValidString ps (skip_ascii ps q)
      else
        let x = utf8_first s0; size = size_of x; accept = accept_of x in
        if size = 2 then
          (if length s < 2 \<or> s ! 1 < accept_lo accept \<or> accept_hi accept < s ! 1 then False
           else ValidString ps (drop 2 s))
        else if size = 3 then
          (if length s < 3 \<or> s ! 1 < accept_lo accept \<or> accept_hi accept < s ! 1 \<or>
              s ! 2 < utf8_locb \<or> utf8_hicb < s ! 2 then False
           else ValidString ps (drop 3 s))
        else if size = 4 then
          (if length s < 4 \<or> s ! 1 < accept_lo accept \<or> accept_hi accept < s ! 1 \<or>
              s ! 2 < utf8_locb \<or> utf8_hicb < s ! 2 \<or>
              s ! 3 < utf8_locb \<or> utf8_hicb < s ! 3 then False
           else ValidString ps (drop 4 s))
        else False)"
  by pat_completeness auto
termination
  by (relation "measure (\<lambda>(ps, s). length s)") (auto simp: skip_ascii_length less_Suc_eq_le)

declare Valid.simps [simp del]
declare ValidString.simps [simp del]

end
