(* ===== verification/Utf8_Correct.thy ===== *)
theory Utf8_Correct
  imports Utf8
begin

text \<open>
  Correctness of \<open>unicode/utf8\<close> against the reference encoding of Unicode scalar values:
  decoding, encoding, validation, counting and the backwards decoder.
\<close>

section \<open>The tables in closed form\<close>

lemma first_table_nth:
  "n < 128 \<Longrightarrow> first_table ! n = utf8_as"
  "128 \<le> n \<Longrightarrow> n < 194 \<Longrightarrow> first_table ! n = utf8_xx"
  "194 \<le> n \<Longrightarrow> n < 224 \<Longrightarrow> first_table ! n = utf8_s1"
  "first_table ! 224 = utf8_s2"
  "225 \<le> n \<Longrightarrow> n < 237 \<Longrightarrow> first_table ! n = utf8_s3"
  "first_table ! 237 = utf8_s4"
  "238 \<le> n \<Longrightarrow> n < 240 \<Longrightarrow> first_table ! n = utf8_s3"
  "first_table ! 240 = utf8_s5"
  "241 \<le> n \<Longrightarrow> n < 244 \<Longrightarrow> first_table ! n = utf8_s6"
  "first_table ! 244 = utf8_s7"
  "245 \<le> n \<Longrightarrow> n < 256 \<Longrightarrow> first_table ! n = utf8_xx"
  by (simp_all add: first_table_def nth_append nth_Cons' less_diff_conv2)

lemma utf8_first_eq:
  "utf8_first b =
     (if unat b < 128 then utf8_as else if unat b < 194 then utf8_xx
      else if unat b < 224 then utf8_s1 else if unat b = 224 then utf8_s2
      else if unat b < 237 then utf8_s3 else if unat b = 237 then utf8_s4
      else if unat b < 240 then utf8_s3 else if unat b = 240 then utf8_s5
      else if unat b < 244 then utf8_s6 else if unat b = 244 then utf8_s7 else utf8_xx)"
  using unat_byte_less [of b]
  by (simp add: utf8_first_def first_table_nth del: unat_byte_less)

lemma acceptRanges_nth [simp]:
  "acceptRanges ! 0 = \<lparr>accept_lo = 0x80, accept_hi = 0xBF\<rparr>"
  "acceptRanges ! Suc 0 = \<lparr>accept_lo = 0xA0, accept_hi = 0xBF\<rparr>"
  "acceptRanges ! 2 = \<lparr>accept_lo = 0x80, accept_hi = 0x9F\<rparr>"
  "acceptRanges ! 3 = \<lparr>accept_lo = 0x90, accept_hi = 0xBF\<rparr>"
  "acceptRanges ! 4 = \<lparr>accept_lo = 0x80, accept_hi = 0x8F\<rparr>"
  by (simp_all add: acceptRanges_def)

section \<open>Reference encoding\<close>

text \<open>
  The encoding of a Unicode scalar value as in the Unicode standard, on naturals: the
  abstract specification the package implements.
\<close>

definition scalar :: "nat \<Rightarrow> bool" where
  "scalar c \<longleftrightarrow> c < 0xD800 \<or> (0xDFFF < c \<and> c \<le> 0x10FFFF)"

definition enc :: "nat \<Rightarrow> nat list" where
  "enc c =
     (if c < 0x80 then [c]
      else if c < 0x800 then [192 + c div 64, 128 + c mod 64]
      else if c < 0x10000 then [224 + c div 4096, 128 + c div 64 mod 64, 128 + c mod 64]
      else [240 + c div 262144, 128 + c div 4096 mod 64, 128 + c div 64 mod 64,
            128 + c mod 64])"

lemma unat_or_cont: "unat (0x80 OR (b AND 0x3F) :: byte) = 128 + unat b mod 64"
  using unat_or_disjoint [of 6 "0x80 :: byte" "b AND 0x3F"] unat_and_mask [of b 6]
  by (simp add: mask_eq_exp_minus_1)

lemma signed_drop_bit_nonneg:
  assumes "unat (r :: 32 word) < 2147483648"
  shows "signed_drop_bit k r = drop_bit k r"
proof (rule bit_word_eqI)
  fix n assume "n < LENGTH(32)"
  have "\<not> bit r 31"
    using bit_last_iff [of r] assms by (simp add: sint_unat)
  moreover have "\<not> bit r (k + n)" if "32 \<le> k + n"
    using that by (auto dest: bit_imp_le_length)
  ultimately show "bit (signed_drop_bit k r) n = bit (drop_bit k r) n"
    by (cases "32 \<le> k + n") (auto simp: bit_simps)
qed

lemma unat_dec2:
  "unat (push_bit 6 (ucast (a AND 0x1F)) OR ucast (b AND 0x3F) :: rune) =
     unat (a :: byte) mod 32 * 64 + unat (b :: byte) mod 64"
proof -
  have a: "unat (push_bit 6 (ucast (a AND 0x1F)) :: rune) = unat a mod 32 * 64"
    using unat_and_mask [of a 5]
    by (simp add: unat_push_bit_gen unat_ucast_gen mask_eq_exp_minus_1)
  have b: "unat (ucast (b AND 0x3F) :: rune) = unat b mod 64"
    using unat_and_mask [of b 6] by (simp add: unat_ucast_gen mask_eq_exp_minus_1)
  show ?thesis
    using unat_or_disjoint [of 6 "push_bit 6 (ucast (a AND 0x1F)) :: rune" "ucast (b AND 0x3F)"]
    by (simp add: a b)
qed

lemma unat_cont_mask: "unat (b AND 0x3F :: byte) = unat b mod 64"
  using unat_and_mask [of b 6] by (simp add: mask_eq_exp_minus_1)

lemma unat_cont_field:
  "k \<le> 18 \<Longrightarrow> unat (push_bit k (ucast (b AND 0x3F :: byte)) :: rune) = unat b mod 64 * 2 ^ k"
proof -
  assume "k \<le> 18"
  then have "unat b mod 64 * 2 ^ k \<le> 63 * 2 ^ 18"
    by (intro mult_le_mono power_increasing) auto
  then show ?thesis
    by (simp add: unat_push_bit_gen unat_ucast_gen unat_cont_mask)
qed

lemma unat_dec3:
  "unat (push_bit 12 (ucast (a AND 0x0F)) OR push_bit 6 (ucast (b AND 0x3F)) OR
         ucast (c AND 0x3F) :: rune) =
     unat (a :: byte) mod 16 * 4096 + unat (b :: byte) mod 64 * 64 + unat (c :: byte) mod 64"
proof -
  let ?a = "push_bit 12 (ucast (a AND 0x0F)) :: rune"
  let ?b = "push_bit 6 (ucast (b AND 0x3F)) :: rune" and ?c = "ucast (c AND 0x3F) :: rune"
  have a: "unat ?a = unat a mod 16 * 4096"
    using unat_and_mask [of a 4]
    by (simp add: unat_push_bit_gen unat_ucast_gen mask_eq_exp_minus_1)
  have b: "unat ?b = unat b mod 64 * 64" and c: "unat ?c = unat c mod 64"
    using unat_cont_field [of 6 b] unat_cont_field [of 0 c] by simp_all
  have bc: "unat (?b OR ?c) = unat b mod 64 * 64 + unat c mod 64"
    using unat_or_disjoint [of 6 ?b ?c] by (simp add: b c)
  have "unat (?a OR (?b OR ?c)) = unat ?a + unat (?b OR ?c)"
    by (rule unat_or_disjoint [of 12]) (use bc a in auto)
  then show ?thesis by (simp add: a bc or.assoc)
qed

lemma unat_dec4:
  "unat (push_bit 18 (ucast (a AND 0x07)) OR push_bit 12 (ucast (b AND 0x3F)) OR
         push_bit 6 (ucast (c AND 0x3F)) OR ucast (d AND 0x3F) :: rune) =
     unat (a :: byte) mod 8 * 262144 + unat (b :: byte) mod 64 * 4096 +
     unat (c :: byte) mod 64 * 64 + unat (d :: byte) mod 64"
proof -
  let ?a = "push_bit 18 (ucast (a AND 0x07)) :: rune"
  let ?b = "push_bit 12 (ucast (b AND 0x3F)) :: rune"
  let ?c = "push_bit 6 (ucast (c AND 0x3F)) :: rune" and ?d = "ucast (d AND 0x3F) :: rune"
  have a: "unat ?a = unat a mod 8 * 262144"
    using unat_and_mask [of a 3]
    by (simp add: unat_push_bit_gen unat_ucast_gen mask_eq_exp_minus_1)
  have b: "unat ?b = unat b mod 64 * 4096" and c: "unat ?c = unat c mod 64 * 64"
    and d: "unat ?d = unat d mod 64"
    using unat_cont_field [of 12 b] unat_cont_field [of 6 c] unat_cont_field [of 0 d] by simp_all
  have cd: "unat (?c OR ?d) = unat c mod 64 * 64 + unat d mod 64"
    using unat_or_disjoint [of 6 ?c ?d] by (simp add: c d)
  have bcd: "unat (?b OR (?c OR ?d)) = unat b mod 64 * 4096 + unat (?c OR ?d)"
    using unat_or_disjoint [of 12 ?b "?c OR ?d"] by (simp add: b cd)
  have "unat (?a OR (?b OR (?c OR ?d))) = unat ?a + unat (?b OR (?c OR ?d))"
    by (rule unat_or_disjoint [of 18]) (use bcd cd a in auto)
  then show ?thesis by (simp add: a bcd cd or.assoc)
qed

text \<open>The mask of \<open>decodeRuneSlow\<close> for the two table entries at or above \<open>utf8_as\<close>.\<close>

lemma decode_mask:
  "signed_drop_bit 31 (push_bit 31 (ucast utf8_as :: rune)) = 0"
  "signed_drop_bit 31 (push_bit 31 (ucast utf8_xx :: rune)) = - 1"
  by (simp_all)

section \<open>Decoding in closed form\<close>

definition cont :: "nat \<Rightarrow> bool" where
  "cont x \<longleftrightarrow> 128 \<le> x \<and> x \<le> 191"

definition second_ok :: "nat \<Rightarrow> nat \<Rightarrow> bool" where
  "second_ok b0 b1 \<longleftrightarrow>
     (if b0 = 224 then 160 else if b0 = 240 then 144 else 128) \<le> b1 \<and>
     b1 \<le> (if b0 = 237 then 159 else if b0 = 244 then 143 else 191)"

lemma second_ok_cont: "second_ok b0 b1 \<Longrightarrow> cont b1"
  by (auto simp: second_ok_def cont_def split: if_splits)

lemma accept_iff:
  "194 \<le> unat b0 \<Longrightarrow> unat b0 < 245 \<Longrightarrow>
   b1 < accept_lo (accept_of (utf8_first b0)) \<or> accept_hi (accept_of (utf8_first b0)) < b1 \<longleftrightarrow>
   \<not> second_ok (unat b0) (unat b1)"
  by (auto simp: utf8_first_eq second_ok_def word_less_nat_alt split: if_splits)

lemma ascii_iff: "b < RuneSelf \<longleftrightarrow> unat b < 128"
  by (simp add: word_less_nat_alt)

lemma cb_iff: "b < utf8_locb \<or> utf8_hicb < b \<longleftrightarrow> \<not> cont (unat b)"
  by (auto simp: cont_def word_less_nat_alt)

lemma size_of_first:
  "size_of (utf8_first b) =
     (if unat b < 128 then 0 else if unat b < 194 then 1 else if unat b < 224 then 2
      else if unat b < 240 then 3 else if unat b < 245 then 4 else 1)"
  by (simp add: utf8_first_eq)

lemma first_special: "utf8_first b \<ge> utf8_as \<longleftrightarrow> unat b < 194 \<or> 245 \<le> unat b"
  by (auto simp: utf8_first_eq)

lemma DecodeRune_ascii: "unat b < 128 \<Longrightarrow> DecodeRune (b # q) = (ucast b, 1)"
  by (simp add: DecodeRune_def word_less_nat_alt)

lemma DecodeRune_bad:
  "128 \<le> unat b \<Longrightarrow> unat b < 194 \<or> 245 \<le> unat b \<Longrightarrow> DecodeRune (b # q) = (RuneError, 1)"
  by (auto simp: DecodeRune_def decodeRuneSlow_def word_less_nat_alt utf8_first_eq decode_mask)

lemma word_eq_of_nat: "unat (w :: 'a::len word) = n \<Longrightarrow> w = of_nat n"
  by auto

lemma mod_offset: "m dvd a \<Longrightarrow> a \<le> x \<Longrightarrow> x < a + m \<Longrightarrow> x mod m = x - a" for m a x :: nat
  by (auto elim!: dvdE dest!: le_Suc_ex)

lemma cont_mod: "cont x \<Longrightarrow> x mod 64 = x - 128"
  by (rule mod_offset) (auto simp: cont_def)

lemmas decode_simps = DecodeRune_def decodeRuneSlow_def Let_def first_special size_of_first
  accept_iff cb_iff

lemma DecodeRune_2:
  assumes "194 \<le> unat b" "unat b < 224"
  shows "DecodeRune (b # q) =
    (if q \<noteq> [] \<and> cont (unat (q ! 0))
     then (of_nat ((unat b - 192) * 64 + (unat (q ! 0) - 128)), 2)
     else (RuneError, 1))"
proof -
  have "second_ok (unat b) x = cont x" for x
    using assms by (auto simp: second_ok_def cont_def)
  moreover have "push_bit 6 (ucast (b AND 0x1F)) OR ucast (b1 AND 0x3F) =
      (of_nat ((unat b - 192) * 64 + (unat b1 - 128)) :: rune)" if "cont (unat b1)" for b1 :: byte
  proof (rule word_eq_of_nat)
    have "unat b mod 32 = unat b - 192"
      using assms by (intro mod_offset) auto
    then show "unat (push_bit 6 (ucast (b AND 0x1F)) OR ucast (b1 AND 0x3F) :: rune) =
        (unat b - 192) * 64 + (unat b1 - 128)"
      by (simp only: unat_dec2 cont_mod [OF that])
  qed
  ultimately show ?thesis
    using assms by (cases q) (simp_all add: decode_simps ascii_iff [of b])
qed

lemma DecodeRune_3:
  assumes "224 \<le> unat b" "unat b < 240"
  shows "DecodeRune (b # q) =
    (if 2 \<le> length q \<and> second_ok (unat b) (unat (q ! 0)) \<and> cont (unat (q ! 1))
     then (of_nat ((unat b - 224) * 4096 + (unat (q ! 0) - 128) * 64 + (unat (q ! 1) - 128)), 3)
     else (RuneError, 1))"
proof -
  have "push_bit 12 (ucast (b AND 0x0F)) OR push_bit 6 (ucast (b1 AND 0x3F)) OR
        ucast (b2 AND 0x3F) =
      (of_nat ((unat b - 224) * 4096 + (unat b1 - 128) * 64 + (unat b2 - 128)) :: rune)"
    if "second_ok (unat b) (unat b1)" "cont (unat b2)" for b1 b2 :: byte
  proof (rule word_eq_of_nat)
    have "unat b mod 16 = unat b - 224"
      using assms by (intro mod_offset) auto
    then show "unat (push_bit 12 (ucast (b AND 0x0F)) OR push_bit 6 (ucast (b1 AND 0x3F)) OR
        ucast (b2 AND 0x3F) :: rune) =
        (unat b - 224) * 4096 + (unat b1 - 128) * 64 + (unat b2 - 128)"
      by (simp only: unat_dec3 cont_mod [OF that(2)] cont_mod [OF second_ok_cont [OF that(1)]])
  qed
  then show ?thesis
    using assms by (simp add: decode_simps ascii_iff [of b])
qed

lemma DecodeRune_4:
  assumes "240 \<le> unat b" "unat b < 245"
  shows "DecodeRune (b # q) =
    (if 3 \<le> length q \<and> second_ok (unat b) (unat (q ! 0)) \<and> cont (unat (q ! 1)) \<and>
        cont (unat (q ! 2))
     then (of_nat ((unat b - 240) * 262144 + (unat (q ! 0) - 128) * 4096 +
                   (unat (q ! 1) - 128) * 64 + (unat (q ! 2) - 128)), 4)
     else (RuneError, 1))"
proof -
  have "push_bit 18 (ucast (b AND 0x07)) OR push_bit 12 (ucast (b1 AND 0x3F)) OR
        push_bit 6 (ucast (b2 AND 0x3F)) OR ucast (b3 AND 0x3F) =
      (of_nat ((unat b - 240) * 262144 + (unat b1 - 128) * 4096 + (unat b2 - 128) * 64 +
               (unat b3 - 128)) :: rune)"
    if "second_ok (unat b) (unat b1)" "cont (unat b2)" "cont (unat b3)" for b1 b2 b3 :: byte
  proof (rule word_eq_of_nat)
    have "unat b mod 8 = unat b - 240"
      using assms by (intro mod_offset) auto
    then show "unat (push_bit 18 (ucast (b AND 0x07)) OR push_bit 12 (ucast (b1 AND 0x3F)) OR
        push_bit 6 (ucast (b2 AND 0x3F)) OR ucast (b3 AND 0x3F) :: rune) =
        (unat b - 240) * 262144 + (unat b1 - 128) * 4096 + (unat b2 - 128) * 64 +
        (unat b3 - 128)"
      by (simp only: unat_dec4 cont_mod [OF that(2)] cont_mod [OF that(3)]
          cont_mod [OF second_ok_cont [OF that(1)]])
  qed
  then show ?thesis
    using assms by (simp add: decode_simps ascii_iff [of b])
qed

section \<open>Decoding against the reference encoding\<close>

lemma split64: "c = c div 64 * 64 + c mod 64" for c :: nat
  by simp

lemma split4096: "c = c div 4096 * 4096 + c div 64 mod 64 * 64 + c mod 64" for c :: nat
proof -
  have "c div 64 = c div 4096 * 64 + c div 64 mod 64"
    using div_mult2_eq [of c 64 64] div_mult_mod_eq [of "c div 64" 64] by simp
  then show ?thesis using div_mult_mod_eq [of c 64] by linarith
qed

lemma split262144:
  "c = c div 262144 * 262144 + c div 4096 mod 64 * 4096 + c div 64 mod 64 * 64 + c mod 64"
  for c :: nat
proof -
  have "c div 4096 = c div 262144 * 64 + c div 4096 mod 64"
    using div_mult2_eq [of c 4096 64] div_mult_mod_eq [of "c div 4096" 64] by simp
  then show ?thesis using split4096 [of c] by linarith
qed

lemma second3:
  assumes "c = a * 4096 + b * 64 + d" "b < 64" "d < 64" "0x800 \<le> c" "c < 0x10000"
    "scalar c"
  shows "second_ok (224 + a) (128 + b)"
  using assms unfolding second_ok_def scalar_def by auto

lemma enc3_second:
  "0x800 \<le> c \<Longrightarrow> c < 0x10000 \<Longrightarrow> scalar c \<Longrightarrow>
   second_ok (224 + c div 4096) (128 + c div 64 mod 64)"
  by (rule second3 [OF split4096]) simp_all

lemma second4:
  assumes "c = a * 262144 + b * 4096 + d * 64 + e" "b < 64" "d < 64" "e < 64" "0x10000 \<le> c"
    "scalar c"
  shows "second_ok (240 + a) (128 + b)"
  using assms unfolding second_ok_def scalar_def by auto

lemma enc4_second:
  "0x10000 \<le> c \<Longrightarrow> scalar c \<Longrightarrow> second_ok (240 + c div 262144) (128 + c div 4096 mod 64)"
  by (rule second4 [OF split262144]) simp_all

lemma cont_mod64 [simp]: "cont (128 + x mod 64)"
proof -
  have "x mod 64 < 64" by simp
  then show ?thesis unfolding cont_def by linarith
qed

lemma DecodeRune_enc:
  assumes sc: "scalar c" and p: "map unat p = enc c @ rest"
  shows "DecodeRune p = (of_nat c, length (enc c))"
proof -
  have max: "c \<le> 0x10FFFF" using sc by (auto simp: scalar_def)
  consider "c < 0x80" | "0x80 \<le> c" "c < 0x800" | "0x800 \<le> c" "c < 0x10000" | "0x10000 \<le> c"
    by linarith
  then show ?thesis
  proof cases
    case 1
    with p obtain b q where "p = b # q" "unat b = c"
      by (cases p) (auto simp: enc_def)
    with 1 show ?thesis by (auto simp: DecodeRune_ascii enc_def)
  next
    case 2
    with p obtain b b1 q where b: "p = b # b1 # q" "unat b = 192 + c div 64"
        "unat b1 = 128 + c mod 64"
      by (auto simp: enc_def map_eq_Cons_conv)
    from 2 b show ?thesis by (simp add: DecodeRune_2 enc_def)
  next
    case 3
    with p obtain b b1 b2 q where b: "p = b # b1 # b2 # q" "unat b = 224 + c div 4096"
        "unat b1 = 128 + c div 64 mod 64" "unat b2 = 128 + c mod 64"
      by (auto simp: enc_def map_eq_Cons_conv)
    from 3 b enc3_second [OF 3 sc] split4096 [of c] show ?thesis
      by (simp add: DecodeRune_3 enc_def)
  next
    case 4
    with p obtain b b1 b2 b3 q where b: "p = b # b1 # b2 # b3 # q" "unat b = 240 + c div 262144"
        "unat b1 = 128 + c div 4096 mod 64" "unat b2 = 128 + c div 64 mod 64"
        "unat b3 = 128 + c mod 64"
      by (auto simp: enc_def map_eq_Cons_conv)
    from 4 b enc4_second [OF 4 sc] split262144 [of c] max show ?thesis
      by (simp add: DecodeRune_4 enc_def)
  qed
qed

lemma enc2: "2 \<le> a \<Longrightarrow> a < 32 \<Longrightarrow> b < 64 \<Longrightarrow> enc (a * 64 + b) = [192 + a, 128 + b]"
  by (simp add: enc_def)

lemma divmod64: "d < 64 \<Longrightarrow> (x * 64 + d) div 64 = x" "d < 64 \<Longrightarrow> (x * 64 + d) mod 64 = d"
  for x d :: nat
  by simp_all

lemma enc3:
  assumes "a < 16" "b < 64" "d < 64" "a = 0 \<longrightarrow> 32 \<le> b"
  shows "enc (a * 4096 + b * 64 + d) = [224 + a, 128 + b, 128 + d]"
proof -
  define c where "c = a * 4096 + b * 64 + d"
  have c: "c = (a * 64 + b) * 64 + d" by (simp add: c_def)
  have "c div 64 = a * 64 + b" "c mod 64 = d"
    unfolding c by (rule divmod64 [OF assms(3)])+
  moreover have "c div 4096 = a" "(a * 64 + b) mod 64 = b"
    using div_mult2_eq [of c 64 64] divmod64 [OF assms(2), of a] \<open>c div 64 = a * 64 + b\<close>
    by simp_all
  moreover have "0x800 \<le> c" using assms(4) unfolding c by (cases "a = 0") auto
  moreover have "c < 0x10000" using assms(1-3) unfolding c_def by linarith
  ultimately have "enc c = [224 + a, 128 + b, 128 + d]" by (simp add: enc_def)
  then show ?thesis unfolding c_def .
qed

lemma enc4:
  assumes "a < 5" "b < 64" "d < 64" "e < 64" "a = 0 \<longrightarrow> 16 \<le> b"
  shows "enc (a * 262144 + b * 4096 + d * 64 + e) = [240 + a, 128 + b, 128 + d, 128 + e]"
proof -
  define c where "c = a * 262144 + b * 4096 + d * 64 + e"
  have c: "c = ((a * 64 + b) * 64 + d) * 64 + e" by (simp add: c_def)
  have d1: "c div 64 = (a * 64 + b) * 64 + d" "c mod 64 = e"
    unfolding c by (rule divmod64 [OF assms(4)])+
  have d2: "c div 4096 = a * 64 + b" "((a * 64 + b) * 64 + d) mod 64 = d"
    using div_mult2_eq [of c 64 64] d1 divmod64 [OF assms(3), of "a * 64 + b"] by simp_all
  have "c div 262144 = a" "(a * 64 + b) mod 64 = b"
    using div_mult2_eq [of c 4096 64] d2 divmod64 [OF assms(2), of a] by simp_all
  moreover have "0x10000 \<le> c" using assms(5) unfolding c by (cases "a = 0") auto
  ultimately have "enc c = [240 + a, 128 + b, 128 + d, 128 + e]"
    using d1 d2 by (simp add: enc_def)
  then show ?thesis unfolding c_def .
qed

lemma DecodeRune_sound:
  assumes "p \<noteq> []"
  shows "DecodeRune p = (RuneError, 1) \<or>
    (\<exists>c rest. scalar c \<and> map unat p = enc c @ rest \<and> DecodeRune p = (of_nat c, length (enc c)))"
proof -
  obtain b q where p: "p = b # q" using assms by (cases p) auto
  have hit: ?thesis if "scalar c" "map unat p = enc c @ rest" for c rest
    using DecodeRune_enc [OF that] that by blast
  consider "unat b < 128" | "128 \<le> unat b" "unat b < 194 \<or> 245 \<le> unat b"
    | "194 \<le> unat b" "unat b < 224" | "224 \<le> unat b" "unat b < 240"
    | "240 \<le> unat b" "unat b < 245"
    by linarith
  then show ?thesis
  proof cases
    case 1
    then show ?thesis by (intro hit [of "unat b" "map unat q"]) (auto simp: p enc_def scalar_def)
  next
    case 2
    then show ?thesis by (simp add: p DecodeRune_bad)
  next
    case 3
    show ?thesis
    proof (cases "q \<noteq> [] \<and> cont (unat (q ! 0))")
      case True
      then obtain b1 r where q: "q = b1 # r" "cont (unat b1)" by (cases q) auto
      let ?a = "unat b - 192" and ?b = "unat b1 - 128"
      have "enc (?a * 64 + ?b) = [unat b, unat b1]" "scalar (?a * 64 + ?b)"
        using enc2 [of ?a ?b] 3 q by (auto simp: cont_def scalar_def)
      then show ?thesis by (intro hit) (auto simp: p q)
    next
      case False
      then have "DecodeRune p = (RuneError, 1)"
        unfolding p DecodeRune_2 [OF 3] by (rule if_not_P)
      then show ?thesis by simp
    qed
  next
    case 4
    show ?thesis
    proof (cases "2 \<le> length q \<and> second_ok (unat b) (unat (q ! 0)) \<and> cont (unat (q ! 1))")
      case True
      then obtain b1 b2 r where q: "q = b1 # b2 # r" "second_ok (unat b) (unat b1)"
          "cont (unat b2)"
        by (auto simp: numeral_2_eq_2 Suc_le_length_iff)
      let ?a = "unat b - 224" and ?b = "unat b1 - 128" and ?d = "unat b2 - 128"
      have "enc (?a * 4096 + ?b * 64 + ?d) = [unat b, unat b1, unat b2]"
          "scalar (?a * 4096 + ?b * 64 + ?d)"
        using enc3 [of ?a ?b ?d] 4 q
        by (auto simp: cont_def scalar_def second_ok_def split: if_splits)
      then show ?thesis by (intro hit) (auto simp: p q)
    next
      case False
      then have "DecodeRune p = (RuneError, 1)"
        unfolding p DecodeRune_3 [OF 4] by (rule if_not_P)
      then show ?thesis by simp
    qed
  next
    case 5
    show ?thesis
    proof (cases "3 \<le> length q \<and> second_ok (unat b) (unat (q ! 0)) \<and> cont (unat (q ! 1)) \<and>
        cont (unat (q ! 2))")
      case True
      then obtain b1 b2 b3 r where q: "q = b1 # b2 # b3 # r" "second_ok (unat b) (unat b1)"
          "cont (unat b2)" "cont (unat b3)"
        by (auto simp: numeral_3_eq_3 Suc_le_length_iff)
      let ?a = "unat b - 240" and ?b = "unat b1 - 128" and ?d = "unat b2 - 128"
      let ?e = "unat b3 - 128"
      have "enc (?a * 262144 + ?b * 4096 + ?d * 64 + ?e) = [unat b, unat b1, unat b2, unat b3]"
          "scalar (?a * 262144 + ?b * 4096 + ?d * 64 + ?e)"
        using enc4 [of ?a ?b ?d ?e] 5 q
        by (auto simp: cont_def scalar_def second_ok_def split: if_splits)
      then show ?thesis by (intro hit) (auto simp: p q)
    next
      case False
      then have "DecodeRune p = (RuneError, 1)"
        unfolding p DecodeRune_4 [OF 5] by (rule if_not_P)
      then show ?thesis by simp
    qed
  qed
qed

section \<open>Encoding against the reference encoding\<close>

lemma sint_rune:
  "unat (r :: rune) = n \<Longrightarrow>
   sint r = (if n < 2147483648 then int n else int n - 4294967296) \<and> n < 4294967296"
  using unat_rune_less [of r] by (auto simp: sint_unat)

lemma ValidRune_scalar: "ValidRune r \<longleftrightarrow> scalar (unat r)"
proof -
  obtain n where n: "unat r = n" by simp
  show ?thesis
    using sint_rune [OF n] unfolding ValidRune_def scalar_def n by auto
qed

lemma RuneLen_enc: "RuneLen r = (if ValidRune r then int (length (enc (unat r))) else -1)"
proof -
  obtain n where n: "unat r = n" by simp
  show ?thesis
    using sint_rune [OF n] unfolding RuneLen_def ValidRune_scalar scalar_def enc_def n by auto
qed

lemma unat_shift_byte:
  "unat (r :: rune) < 2147483648 \<Longrightarrow>
   unat (ucast (signed_drop_bit k r) :: byte) = unat r div 2 ^ k mod 256"
  by (simp add: signed_drop_bit_nonneg unat_ucast_gen unat_drop_bit)

lemma cont_byte_shift:
  assumes "unat (r :: rune) < 2147483648"
  shows "utf8_tx OR (ucast (signed_drop_bit k r) AND utf8_maskx) =
    of_nat (128 + unat r div 2 ^ k mod 64)"
proof -
  have "unat r div 2 ^ k mod 256 mod 64 = unat r div 2 ^ k mod 64"
    by (simp add: mod_mod_cancel)
  then show ?thesis
    using unat_shift_byte [OF assms, of k] by (intro word_eq_of_nat) (simp add: unat_or_cont)
qed

lemma cont_byte_low: "utf8_tx OR (ucast r AND utf8_maskx) = of_nat (128 + unat (r :: rune) mod 64)"
proof -
  have "unat r mod 256 mod 64 = unat r mod 64"
    by (simp add: mod_mod_cancel)
  then show ?thesis
    using unat_ucast_gen [of r, where 'b = 8] by (intro word_eq_of_nat) (simp add: unat_or_cont)
qed

lemma lead_byte:
  assumes "unat (r :: rune) < 2147483648" "unat r div 2 ^ k < 2 ^ j" "2 ^ j dvd unat t" "unat t + 2 ^ j \<le> 256"
  shows "(t :: byte) OR ucast (signed_drop_bit k r) = of_nat (unat t + unat r div 2 ^ k)"
proof (rule word_eq_of_nat)
  have *: "unat (ucast (signed_drop_bit k r) :: byte) = unat r div 2 ^ k"
    using assms unat_shift_byte [OF assms(1), of k] by simp
  show "unat (t OR ucast (signed_drop_bit k r)) = unat t + unat r div 2 ^ k"
    using unat_or_disjoint [OF assms(3), of "ucast (signed_drop_bit k r)"] assms(2) by (simp add: *)
qed

lemma AppendRune_enc:
  "AppendRune p r = p @ map of_nat (enc (if ValidRune r then unat r else 0xFFFD))"
proof -
  consider "unat r < 0x80" | "0x80 \<le> unat r" "unat r < 0x800"
    | "0x800 \<le> unat r" "unat r < 0x10000" "scalar (unat r)"
    | "0x10000 \<le> unat r" "scalar (unat r)" | "\<not> scalar (unat r)" "0x800 \<le> unat r"
    unfolding scalar_def by linarith
  then show ?thesis
  proof cases
    case 1
    then show ?thesis
      by (auto simp: AppendRune_def word_le_nat_alt ValidRune_scalar scalar_def enc_def)
  next
    case 2
    then have "unat r div 2 ^ 6 < 2 ^ 5" by simp
    with 2 lead_byte [of r 6 5 utf8_t2] cont_byte_shift [of r 6] cont_byte_low [of r] show ?thesis
      by (auto simp: AppendRune_def appendRuneNonASCII_def word_le_nat_alt ValidRune_scalar
          scalar_def enc_def)
  next
    case 3
    then have "unat r div 2 ^ 12 < 2 ^ 4" by simp
    with 3 lead_byte [of r 12 4 utf8_t3] cont_byte_shift [of r 6] cont_byte_low [of r] show ?thesis
      by (auto simp: AppendRune_def appendRuneNonASCII_def word_le_nat_alt word_less_nat_alt
          ValidRune_scalar scalar_def enc_def)
  next
    case 4
    then have "unat r div 2 ^ 18 < 2 ^ 3" by (simp add: scalar_def)
    with 4 lead_byte [of r 18 3 utf8_t4] cont_byte_shift [of r 6] cont_byte_shift [of r 12]
      cont_byte_low [of r]
    show ?thesis
      by (auto simp: AppendRune_def appendRuneNonASCII_def word_le_nat_alt word_less_nat_alt
          ValidRune_scalar scalar_def enc_def)
  next
    case 5
    then show ?thesis
      by (auto simp: AppendRune_def appendRuneNonASCII_def word_le_nat_alt word_less_nat_alt
          ValidRune_scalar scalar_def enc_def)
  qed
qed

section \<open>Validation\<close>

definition valid_seq :: "byte list \<Rightarrow> bool" where
  "valid_seq p \<longleftrightarrow> (\<exists>cs. list_all scalar cs \<and> map unat p = concat (map enc cs))"

lemma enc_nonempty [simp]: "enc c \<noteq> []"
  by (simp add: enc_def)

lemma enc_length_pos [simp]: "0 < length (enc c)"
  by simp

lemma scalar_less: "scalar c \<Longrightarrow> c < 4294967296"
  by (auto simp: scalar_def)

lemma of_nat_rune_inject: "scalar c \<Longrightarrow> scalar d \<Longrightarrow> (of_nat c :: rune) = of_nat d \<Longrightarrow> c = d"
  using scalar_less [of c] scalar_less [of d]
  by (auto simp: word_of_nat_eq_iff take_bit_nat_eq_self)

lemma enc_prefix_unique:
  assumes "scalar c" "scalar d" "map unat (p :: byte list) = enc c @ r" "map unat p = enc d @ t"
  shows "c = d" "r = t"
proof -
  show "c = d"
    using DecodeRune_enc [OF assms(1,3)] DecodeRune_enc [OF assms(2,4)] assms(1,2)
    by (auto intro: of_nat_rune_inject)
  then show "r = t" using assms(3,4) by simp
qed

lemma valid_seq_Nil [simp]: "valid_seq []"
  unfolding valid_seq_def by (rule exI [of _ "[]"]) simp

lemma valid_seq_hit:
  assumes "scalar c" "map unat p = enc c @ rest"
  shows "valid_seq p \<longleftrightarrow> valid_seq (drop (length (enc c)) p)"
proof
  assume "valid_seq p"
  then obtain cs where cs: "list_all scalar cs" "map unat p = concat (map enc cs)"
    by (auto simp: valid_seq_def)
  obtain d ds where ds: "cs = d # ds" using cs(2) assms(2) by (cases cs) simp_all
  have "scalar d" "map unat p = enc d @ concat (map enc ds)"
    using cs unfolding ds by simp_all
  then have "d = c" "concat (map enc ds) = rest"
    by (rule enc_prefix_unique [OF _ assms(1) _ assms(2)])+
  moreover have "map unat (drop (length (enc c)) p) = rest"
    using assms(2) by (simp flip: drop_map)
  ultimately show "valid_seq (drop (length (enc c)) p)"
    using cs(1) ds unfolding valid_seq_def by auto
next
  assume "valid_seq (drop (length (enc c)) p)"
  then obtain cs where "list_all scalar cs" "map unat (drop (length (enc c)) p) = concat (map enc cs)"
    by (auto simp: valid_seq_def)
  moreover have "map unat (drop (length (enc c)) p) = rest"
    using assms(2) by (simp flip: drop_map)
  ultimately show "valid_seq p"
    using assms unfolding valid_seq_def by (intro exI [of _ "c # cs"]) auto
qed

lemma valid_seq_miss:
  assumes "p \<noteq> []" "\<nexists>c rest. scalar c \<and> map unat p = enc c @ rest"
  shows "\<not> valid_seq p"
proof
  assume "valid_seq p"
  then obtain cs where cs: "list_all scalar cs" "map unat p = concat (map enc cs)"
    by (auto simp: valid_seq_def)
  obtain c ds where "cs = c # ds" using cs(2) assms(1) by (cases cs) simp_all
  with cs have "scalar c \<and> map unat p = enc c @ concat (map enc ds)" by simp
  with assms(2) show False by blast
qed

lemma valid_seq_ascii: "unat b < 128 \<Longrightarrow> valid_seq (b # q) \<longleftrightarrow> valid_seq q"
  using valid_seq_hit [of "unat b" "b # q" "map unat q"] by (simp add: scalar_def enc_def)

lemma valid_seq_drop_ascii:
  "\<forall>b \<in> set (take k p). unat b < 128 \<Longrightarrow> valid_seq (drop k p) \<longleftrightarrow> valid_seq p"
proof (induction p arbitrary: k)
  case (Cons b p)
  then show ?case by (cases k) (auto simp: valid_seq_ascii)
qed simp

lemma bit7_iff: "bit (b :: byte) 7 \<longleftrightarrow> 128 \<le> unat b"
proof -
  have "bit b 7 \<longleftrightarrow> odd (unat b div 128)"
    using bit_unsigned_iff [of b 7, where 'a = nat] by (simp add: bit_iff_odd)
  moreover have "unat b div 128 = (if 128 \<le> unat b then 1 else 0)"
    using unat_byte_less [of b] by (simp add: div_nat_eqI)
  ultimately show ?thesis by simp
qed

lemma word8_ascii:
  assumes "utf8_word 8 p AND hiBits 8 = 0" "i < 8"
  shows "unat (p ! i) < 128"
proof -
  have nb: "\<not> bit (utf8_word 8 p AND hiBits 8) (8 * i + 7)" using assms(1) by simp
  have "i = 0 \<or> i = 1 \<or> i = 2 \<or> i = 3 \<or> i = 4 \<or> i = 5 \<or> i = 6 \<or> i = 7"
    using assms(2) by linarith
  then have "\<not> bit (p ! i) 7"
    using nb
    by (elim disjE) (simp_all add: utf8_word_def hiBits_def bit_and_iff bit_or_iff bit_push_bit_iff
        bit_ucast_iff)
  then show ?thesis by (simp add: bit7_iff)
qed

lemma word4_ascii:
  assumes "utf8_word 4 p AND hiBits 4 = 0" "i < 4"
  shows "unat (p ! i) < 128"
proof -
  have nb: "\<not> bit (utf8_word 4 p AND hiBits 4) (8 * i + 7)" using assms(1) by simp
  have "i = 0 \<or> i = 1 \<or> i = 2 \<or> i = 3"
    using assms(2) by linarith
  then have "\<not> bit (p ! i) 7"
    using nb
    by (elim disjE) (simp_all add: utf8_word_def hiBits_def bit_and_iff bit_or_iff bit_push_bit_iff
        bit_ucast_iff)
  then show ?thesis by (simp add: bit7_iff)
qed

lemma word_ascii:
  assumes "ps = 4 \<or> ps = 8" "utf8_word ps p AND hiBits ps = 0" "ps \<le> length p"
  shows "\<forall>b \<in> set (take ps p). unat b < 128"
  using assms word4_ascii [of p] word8_ascii [of p] by (auto simp: in_set_conv_nth)

lemma valid_seq_skip1:
  "ps = 4 \<or> ps = 8 \<Longrightarrow> utf8_word ps p AND hiBits ps = 0 \<Longrightarrow> ps \<le> length p \<Longrightarrow>
   valid_seq (drop ps p) \<longleftrightarrow> valid_seq p"
  by (rule valid_seq_drop_ascii) (rule word_ascii)

lemma or_and_zero: "(a OR b) AND h = 0 \<longleftrightarrow> a AND h = 0 \<and> b AND h = 0" for a b h :: uint64
  by (simp add: bit_eq_iff bit_and_iff bit_or_iff) blast

lemma valid_seq_skip4:
  "ps = 4 \<or> ps = 8 \<Longrightarrow> valid_seq (skip_ascii4 ps p) \<longleftrightarrow> valid_seq p"
proof (induction ps p rule: skip_ascii4.induct)
  case (1 ps p)
  let ?c = "ps > 0 \<and> length p > 4 * ps \<and>
         ((utf8_word ps p OR utf8_word ps (drop ps p)) OR
          (utf8_word ps (drop (2 * ps) p) OR utf8_word ps (drop (3 * ps) p))) AND hiBits ps = 0"
  show ?case
  proof (cases ?c)
    case True
    then have z: "utf8_word ps p AND hiBits ps = 0" "utf8_word ps (drop ps p) AND hiBits ps = 0"
        "utf8_word ps (drop (2 * ps) p) AND hiBits ps = 0"
        "utf8_word ps (drop (3 * ps) p) AND hiBits ps = 0" and len: "4 * ps < length p"
      by (simp_all add: or_and_zero)
    have "valid_seq (skip_ascii4 ps p) \<longleftrightarrow> valid_seq (drop (4 * ps) p)"
      using 1 True by (subst skip_ascii4.simps) simp
    also have "\<dots> \<longleftrightarrow> valid_seq (drop (3 * ps) p)"
      using valid_seq_skip1 [OF 1(2) z(4)] len by (simp add: mult_2)
    also have "\<dots> \<longleftrightarrow> valid_seq (drop (2 * ps) p)"
      using valid_seq_skip1 [OF 1(2) z(3)] len by simp
    also have "\<dots> \<longleftrightarrow> valid_seq (drop ps p)"
      using valid_seq_skip1 [OF 1(2) z(2)] len by (simp add: mult_2)
    also have "\<dots> \<longleftrightarrow> valid_seq p"
      using valid_seq_skip1 [OF 1(2) z(1)] len by simp
    finally show ?thesis .
  next
    case False
    then show ?thesis by (subst skip_ascii4.simps) (simp only: if_False)
  qed
qed

lemma valid_seq_skip:
  assumes ps: "ps = 4 \<or> ps = 8"
  shows "valid_seq (skip_ascii ps p) \<longleftrightarrow> valid_seq p"
proof (cases "length p > ps \<and> utf8_word ps p AND hiBits ps = 0")
  case True
  let ?q = "drop ps p"
  have q: "valid_seq ?q \<longleftrightarrow> valid_seq p"
    using True by (intro valid_seq_skip1 [OF ps]) simp_all
  show ?thesis
  proof (cases "length ?q > 2 * ps \<and> (utf8_word ps ?q OR utf8_word ps (drop ps ?q)) AND hiBits ps = 0")
    case True2: True
    then have "valid_seq (drop ps ?q) \<longleftrightarrow> valid_seq ?q"
        "valid_seq (drop ps (drop ps ?q)) \<longleftrightarrow> valid_seq (drop ps ?q)"
      by (intro valid_seq_skip1 [OF ps]; force simp: or_and_zero)+
    moreover have "skip_ascii ps p = skip_ascii4 ps (drop (2 * ps) ?q)"
      using True True2 by (simp only: skip_ascii_def Let_def if_True simp_thms)
    moreover have "drop (2 * ps) ?q = drop ps (drop ps ?q)" by (simp add: mult_2 add.assoc)
    ultimately show ?thesis using q valid_seq_skip4 [OF ps] by simp
  next
    case False
    then have "skip_ascii ps p = ?q"
      using True by (simp only: skip_ascii_def Let_def if_True if_False simp_thms)
    with q show ?thesis by simp
  qed
next
  case False
  then have "skip_ascii ps p = p" by (simp only: skip_ascii_def if_False)
  then show ?thesis by simp
qed

lemma decode_width:
  assumes "128 \<le> unat b"
  shows "2 \<le> snd (DecodeRune (b # q)) \<Longrightarrow>
      valid_seq (b # q) \<longleftrightarrow> valid_seq (drop (snd (DecodeRune (b # q))) (b # q))"
    and "snd (DecodeRune (b # q)) < 2 \<Longrightarrow> \<not> valid_seq (b # q)"
proof -
  let ?p = "b # q"
  assume "2 \<le> snd (DecodeRune ?p)"
  then obtain c rest where "scalar c" "map unat ?p = enc c @ rest" "snd (DecodeRune ?p) = length (enc c)"
    using DecodeRune_sound [of ?p] by auto
  then show "valid_seq ?p \<longleftrightarrow> valid_seq (drop (snd (DecodeRune ?p)) ?p)"
    using valid_seq_hit by metis
next
  let ?p = "b # q"
  assume w: "snd (DecodeRune ?p) < 2"
  have False if c: "scalar c" "map unat ?p = enc c @ rest" for c rest
  proof -
    have "length (enc c) < 2" using DecodeRune_enc [OF c] w by simp
    then have "enc c = [c]" "c < 128" by (auto simp: enc_def split: if_splits)
    with c(2) assms show False by simp
  qed
  then show "\<not> valid_seq ?p" by (intro valid_seq_miss) auto
qed

lemma accept_cb_disj:
  "194 \<le> unat b0 \<Longrightarrow> unat b0 < 245 \<Longrightarrow>
   b1 < accept_lo (accept_of (utf8_first b0)) \<or> accept_hi (accept_of (utf8_first b0)) < b1 \<or> R \<longleftrightarrow>
   \<not> second_ok (unat b0) (unat b1) \<or> R"
  "b < utf8_locb \<or> utf8_hicb < b \<or> R \<longleftrightarrow> \<not> cont (unat b) \<or> R"
  using accept_iff [of b0 b1] cb_iff [of b] by blast+

lemma Valid_step:
  assumes "128 \<le> unat b"
  shows "Valid ps (b # q) \<longleftrightarrow> 2 \<le> snd (DecodeRune (b # q)) \<and>
    Valid ps (drop (snd (DecodeRune (b # q))) (b # q))"
proof -
  consider "unat b < 194 \<or> 245 \<le> unat b" | "194 \<le> unat b" "unat b < 224"
    | "224 \<le> unat b" "unat b < 240" | "240 \<le> unat b" "unat b < 245"
    by linarith
  then show ?thesis
  proof cases
    case 1
    with assms show ?thesis
      by (auto simp: Valid.simps DecodeRune_bad Let_def size_of_first ascii_iff)
  next
    case 2
    then have "second_ok (unat b) x = cont x" for x by (auto simp: second_ok_def cont_def)
    with 2 show ?thesis
      by (cases q) (simp_all add: Valid.simps DecodeRune_2 Let_def size_of_first accept_iff
          ascii_iff [of b])
  next
    case 3
    then show ?thesis
      by (simp add: Valid.simps DecodeRune_3 Let_def size_of_first accept_cb_disj
          accept_iff cb_iff ascii_iff [of b])
  next
    case 4
    then show ?thesis
      by (simp add: Valid.simps DecodeRune_4 Let_def size_of_first accept_cb_disj
          accept_iff cb_iff ascii_iff [of b])
  qed
qed

lemma Valid_valid_seq:
  assumes ps: "ps = 4 \<or> ps = 8"
  shows "Valid ps p \<longleftrightarrow> valid_seq p"
proof (induction p rule: length_induct)
  case (1 p)
  show ?case
  proof (cases p)
    case Nil
    then show ?thesis by (simp add: Valid.simps)
  next
    case (Cons b q)
    show ?thesis
    proof (cases "unat b < 128")
      case True
      then have "Valid ps p \<longleftrightarrow> Valid ps (skip_ascii ps q)"
        by (simp add: Cons Valid.simps Let_def ascii_iff)
      also have "\<dots> \<longleftrightarrow> valid_seq (skip_ascii ps q)"
        using 1 skip_ascii_length [of ps q] by (simp add: Cons)
      finally show ?thesis using True by (simp add: valid_seq_skip [OF ps] valid_seq_ascii Cons)
    next
      case False
      then have b: "128 \<le> unat b" by simp
      let ?w = "snd (DecodeRune (b # q))"
      have "Valid ps (drop ?w (b # q)) \<longleftrightarrow> valid_seq (drop ?w (b # q))" if "2 \<le> ?w"
        using 1 that by (simp add: Cons)
      then show ?thesis
        using Valid_step [OF b, of ps q] decode_width [OF b, of q] unfolding Cons
        by (cases "2 \<le> ?w") auto
    qed
  qed
qed

lemma string_twins:
  "FullRuneInString = FullRune"
  "decodeRuneInStringSlow = decodeRuneSlow"
  "DecodeRuneInString = DecodeRune"
  "DecodeLastRuneInString = DecodeLastRune"
proof -
  show "FullRuneInString = FullRune"
    by (rule ext) (simp only: FullRuneInString_def FullRune_def)
  show slow: "decodeRuneInStringSlow = decodeRuneSlow"
    by (rule ext) (simp only: decodeRuneInStringSlow_def decodeRuneSlow_def)
  show dec: "DecodeRuneInString = DecodeRune"
    by (rule ext) (auto simp: DecodeRuneInString_def DecodeRune_def slow split: list.splits)
  show "DecodeLastRuneInString = DecodeLastRune"
    by (rule ext) (simp only: DecodeLastRuneInString_def DecodeLastRune_def dec)
qed

lemma ValidString_eq: "ValidString ps s = Valid ps s"
proof (induction s rule: length_induct)
  case (1 s)
  then show ?case
    by (cases s) (simp_all add: ValidString.simps Valid.simps Let_def skip_ascii_length le_imp_less_Suc)
qed

section \<open>Counting\<close>

text \<open>
  The number of runes of a byte sequence is that of a decoder that is called until the
  input is empty; on a valid sequence it is the number of scalar values.
\<close>

lemma RuneCountInString_step: "s \<noteq> [] \<Longrightarrow>
  RuneCountInString s = Suc (RuneCountInString (drop (snd (DecodeRune s)) s))"
  by (subst RuneCountInString.simps) (simp add: string_twins)

lemma RuneCountInString_Nil [simp]: "RuneCountInString [] = 0"
  by (subst RuneCountInString.simps) simp

lemma runeCount_from_eq:
  "n \<le> length p \<Longrightarrow> runeCount_from p n = n + RuneCountInString (drop n p)"
proof (induction p n rule: runeCount_from.induct)
  case (1 p n)
  show ?case
  proof (cases "n < length p \<and> p ! n < RuneSelf")
    case True
    then have step: "drop n p = p ! n # drop (Suc n) p" by (simp add: Cons_nth_drop_Suc)
    have "unat (p ! n) < 128" using True by (simp add: ascii_iff)
    then have "RuneCountInString (drop n p) = Suc (RuneCountInString (drop (Suc n) p))"
      using RuneCountInString_step [of "drop n p"] by (simp add: step DecodeRune_ascii)
    moreover have "runeCount_from p n = runeCount_from p (Suc n)"
      using True by (subst runeCount_from.simps) auto
    ultimately show ?thesis using 1 True by (simp add: not_le)
  next
    case False
    then show ?thesis using 1(2) by (subst runeCount_from.simps) (auto simp: not_less)
  qed
qed

lemma RuneCount_eq: "RuneCount p = RuneCountInString p"
  by (simp add: RuneCount_def runeCount_from_eq)

lemma RuneCount_concat:
  "list_all scalar cs \<Longrightarrow> map unat p = concat (map enc cs) \<Longrightarrow> RuneCountInString p = length cs"
proof (induction cs arbitrary: p)
  case (Cons c cs)
  then have c: "scalar c" "map unat p = enc c @ concat (map enc cs)" by simp_all
  then have "p \<noteq> []" by auto
  then have "RuneCountInString p = Suc (RuneCountInString (drop (length (enc c)) p))"
    using DecodeRune_enc [OF c] by (simp add: RuneCountInString_step)
  moreover have "map unat (drop (length (enc c)) p) = concat (map enc cs)"
    using c(2) by (simp flip: drop_map)
  ultimately show ?case using Cons by simp
qed simp

section \<open>The backwards decoder\<close>

lemma all_less_8: "(\<forall>n<8. P n) \<longleftrightarrow> P 0 \<and> P 1 \<and> P 2 \<and> P 3 \<and> P 4 \<and> P 5 \<and> P 6 \<and> P (7::nat)"
proof -
  have "n = 0 \<or> n = 1 \<or> n = 2 \<or> n = 3 \<or> n = 4 \<or> n = 5 \<or> n = 6 \<or> n = 7" if "n < 8" for n :: nat
    using that by linarith
  then show ?thesis by fastforce
qed

lemma RuneStart_iff: "RuneStart b \<longleftrightarrow> \<not> cont (unat b)"
proof -
  have "b AND 0xC0 = 0x80 \<longleftrightarrow> (\<forall>n<8. bit (b AND 0xC0) n = bit (0x80 :: byte) n)"
    by (auto intro: bit_word_eqI)
  then have "b AND 0xC0 = 0x80 \<longleftrightarrow> bit b 7 \<and> \<not> bit b 6"
    unfolding all_less_8 by (auto simp: bit_and_iff)
  moreover have "bit b 6 \<longleftrightarrow> odd (unat b div 64)"
    using bit_unsigned_iff [of b 6, where 'a = nat] by (simp add: bit_iff_odd)
  moreover have "unat b div 64 = (if unat b < 64 then 0 else if unat b < 128 then 1
      else if unat b < 192 then 2 else 3)"
    using unat_byte_less [of b] by (auto intro!: div_nat_eqI)
  ultimately show ?thesis
    unfolding RuneStart_def bit7_iff cont_def by (auto split: if_splits)
qed

lemma last_start_hit:
  assumes "lim \<le> s" "s \<le> start" "RuneStart (p ! nat s)"
    "\<And>i. s < i \<Longrightarrow> i \<le> start \<Longrightarrow> \<not> RuneStart (p ! nat i)"
  shows "last_start p lim start = s"
  using assms(2,4)
proof (induction start rule: int_ge_induct)
  case base
  then show ?case using assms by (subst last_start.simps) simp
next
  case (step i)
  then have "last_start p lim i = s" by simp
  moreover have "last_start p lim (i + 1) = last_start p lim i"
    using step assms(1) by (subst last_start.simps) auto
  ultimately show ?case by simp
qed

lemma enc_bytes: "scalar c \<Longrightarrow> x \<in> set (enc c) \<Longrightarrow> x < 256"
  by (auto simp: enc_def scalar_def split: if_splits)

lemma enc_head_start: "scalar c \<Longrightarrow> \<not> cont (enc c ! 0)"
  by (auto simp: enc_def scalar_def cont_def)

lemma enc_tail_cont: "0 < i \<Longrightarrow> i < length (enc c) \<Longrightarrow> cont (enc c ! i)"
  by (auto simp: enc_def nth_Cons' split: if_splits)

lemma enc_length_le: "length (enc c) \<le> 4"
  by (simp add: enc_def)

lemma enc_single: "length (enc c) = 1 \<longleftrightarrow> c < 128"
  by (simp add: enc_def)

lemma sint_ucast_byte: "sint (ucast (b :: byte) :: rune) < 0x80 \<longleftrightarrow> unat b < 128"
proof -
  obtain n where n: "unat b = n" "n < 256" using unat_byte_less by blast
  then have "unat (ucast b :: rune) = n" by (simp add: unat_ucast_gen)
  from sint_rune [OF this] n show ?thesis by simp
qed

lemma DecodeLastRune_enc:
  assumes sc: "scalar c" and bs: "map unat bs = enc c"
  shows "DecodeLastRune (p @ bs) = (of_nat c, length (enc c))"
proof -
  let ?n = "length (enc c)" and ?q = "p @ bs"
  have n: "length bs = ?n" using bs by (metis length_map)
  have nth: "unat (bs ! i) = enc c ! i" if "i < ?n" for i
    using that n bs by (metis nth_map)
  have "nat (int (length ?q) - 1) = length p + (?n - 1)"
    using n enc_length_pos [of c] unfolding length_append by linarith
  then have last: "?q ! nat (int (length ?q) - 1) = bs ! (?n - 1)"
    by (simp add: nth_append)
  show ?thesis
  proof (cases "c < 128")
    case True
    then have "enc c = [c]" by (simp add: enc_def)
    then obtain b where "bs = [b]" "unat b = c" using bs by auto
    with True \<open>enc c = [c]\<close> show ?thesis
      by (auto simp: DecodeLastRune_def Let_def sint_ucast_byte)
  next
    case False
    then have n2: "2 \<le> ?n" using enc_single [of c] enc_length_pos [of c] by linarith
    have lastc: "cont (unat (bs ! (?n - 1)))"
      using enc_tail_cont [of "?n - 1" c] nth [of "?n - 1"] n2 by simp
    have ge: "\<not> sint (ucast (bs ! (?n - 1)) :: rune) < 0x80"
      using lastc by (simp add: sint_ucast_byte cont_def)
    have "last_start ?q (max (int (length ?q) - 4) 0) (int (length ?q) - 1 - 1) = int (length p)"
    proof (rule last_start_hit)
      show "max (int (length ?q) - 4) 0 \<le> int (length p)"
        using enc_length_le [of c] n by simp
      show "int (length p) \<le> int (length ?q) - 1 - 1" using n n2 by simp
      show "RuneStart (?q ! nat (int (length p)))"
        using nth [of 0] n n2 enc_head_start [OF sc] by (simp add: nth_append RuneStart_iff)
    next
      fix i assume i: "int (length p) < i" "i \<le> int (length ?q) - 1 - 1"
      then have j: "?q ! nat i = bs ! (nat i - length p)" "0 < nat i - length p" "nat i - length p < ?n"
        using n n2 by (auto simp: nth_append)
      then show "\<not> RuneStart (?q ! nat i)"
        using enc_tail_cont [of "nat i - length p" c] nth [of "nat i - length p"]
        by (simp add: RuneStart_iff)
    qed
    moreover have "DecodeRune (drop (length p) ?q) = (of_nat c, ?n)"
      using DecodeRune_enc [OF sc, of bs "[]"] bs by simp
    ultimately show ?thesis
      using n n2 ge last by (simp add: DecodeLastRune_def Let_def)
  qed
qed

section \<open>Writing into a slice\<close>

lemma list_ge_cases:
  "1 < length p \<Longrightarrow> \<exists>a b q. p = a # b # q"
  "2 < length p \<Longrightarrow> \<exists>a b c q. p = a # b # c # q"
  "3 < length p \<Longrightarrow> \<exists>a b c d q. p = a # b # c # d # q"
  by (auto simp: numeral_2_eq_2 numeral_3_eq_3 Suc_le_length_iff simp flip: Suc_le_eq)

lemma EncodeRune_eq:
  "EncodeRune p r =
     (let bs = AppendRune [] r in
      if length p < length bs then Inl IndexOutOfRange
      else Inr (bs @ drop (length bs) p, length bs))"
proof -
  have two: "p[0 := x, Suc 0 := y] = x # y # drop 2 p" if "1 < length p" for x y
    using list_ge_cases(1) [OF that] by auto
  have three: "p[0 := x, Suc 0 := y, 2 := z] = x # y # z # drop 3 p" if "2 < length p" for x y z
    using list_ge_cases(2) [OF that] by (auto simp: numeral_2_eq_2)
  have four: "p[0 := x, Suc 0 := y, 2 := z, 3 := w] = x # y # z # w # drop 4 p" if "3 < length p"
    for x y z w
    using list_ge_cases(3) [OF that] by (auto simp: numeral_2_eq_2 numeral_3_eq_3)
  have one: "p[0 := x] = x # drop 1 p" if "p \<noteq> []" for x
    using that by (cases p) auto
  have four_Suc: "(4 :: nat) = Suc (Suc (Suc (Suc 0)))" by simp
  note defs = EncodeRune_def encodeRuneNonASCII_def AppendRune_def appendRuneNonASCII_def Let_def
  consider "r \<le> rune1Max" | "\<not> r \<le> rune1Max" "r \<le> rune2Max"
    | "\<not> r \<le> rune1Max" "\<not> r \<le> rune2Max" "r < surrogateMin \<or> (surrogateMax < r \<and> r \<le> rune3Max)"
    | "\<not> r \<le> rune1Max" "\<not> r \<le> rune2Max"
      "\<not> (r < surrogateMin \<or> (surrogateMax < r \<and> r \<le> rune3Max))"
      "r > rune3Max \<and> r \<le> MaxRune"
    | "\<not> r \<le> rune1Max" "\<not> r \<le> rune2Max"
      "\<not> (r < surrogateMin \<or> (surrogateMax < r \<and> r \<le> rune3Max))"
      "\<not> (r > rune3Max \<and> r \<le> MaxRune)"
    by blast
  then show ?thesis
  proof cases
    case 1
    then show ?thesis unfolding defs by (cases "p = []") (simp_all add: one)
  next
    case 2
    then show ?thesis unfolding defs
      by (simp only: if_True if_False) (simp add: two less_Suc_eq_le numeral_2_eq_2)
  next
    case 3
    then show ?thesis unfolding defs
      by (simp only: if_True if_False) (simp add: three less_Suc_eq_le numeral_3_eq_3)
  next
    case 4
    then show ?thesis unfolding defs
      by (simp only: if_True if_False) (simp add: four less_Suc_eq_le four_Suc)
  next
    case 5
    then show ?thesis unfolding defs
      by (simp only: if_True if_False) (simp add: three less_Suc_eq_le numeral_3_eq_3)
  qed
qed

section \<open>Complete prefixes\<close>

lemma size_lead:
  assumes "scalar c" "128 \<le> c"
  shows "(if enc c ! 0 < 128 then 0 else if enc c ! 0 < 194 then 1 else if enc c ! 0 < 224 then 2
      else if enc c ! 0 < 240 then 3 else if enc c ! 0 < 245 then 4 else 1) = length (enc c)"
  using assms by (auto simp: enc_def scalar_def)

lemma enc_second_ok: "scalar c \<Longrightarrow> 128 \<le> c \<Longrightarrow> second_ok (enc c ! 0) (enc c ! 1)"
  using enc3_second [of c] enc4_second [of c]
  by (auto simp: enc_def second_ok_def [of "192 + _"])

lemma proper_prefix_not_full:
  assumes "scalar c" "map unat p @ rest = enc c" "rest \<noteq> []"
  shows "\<not> FullRune p"
proof (cases "p = []")
  case True
  then show ?thesis by (simp add: FullRune_def)
next
  case False
  have len: "length p < length (enc c)" using assms(2,3) by (metis length_map length_append length_greater_0_conv less_add_same_cancel1)
  have c: "128 \<le> c"
    using len False enc_single [of c] by (cases "c < 128") (auto simp: less_Suc_eq)
  have nth: "unat (p ! i) = enc c ! i" if "i < length p" for i
    using that assms(2) by (metis length_map nth_append nth_map)
  have lead: "194 \<le> unat (p ! 0)" "unat (p ! 0) < 245"
    using nth [of 0] False assms(1) c by (auto simp: enc_def scalar_def)
  have nz: "unat (p ! 0) = enc c ! 0" using nth [of 0] False by simp
  have "size_of (utf8_first (p ! 0)) = length (enc c)"
    unfolding size_of_first nz by (rule size_lead [OF assms(1) c])
  moreover have "second_ok (unat (p ! 0)) (unat (p ! 1))" if "1 < length p"
    using that nth [of 1] enc_second_ok [OF assms(1) c] by (simp add: nz)
  moreover have "cont (unat (p ! 2))" if "2 < length p"
    using that nth [of 2] len enc_tail_cont [of 2 c] by simp
  ultimately show ?thesis
    using len False lead by (auto simp: FullRune_def Let_def accept_iff cb_iff)
qed

lemma not_full_proper_prefix:
  assumes "\<not> FullRune p"
  shows "\<exists>c rest. scalar c \<and> map unat p @ rest = enc c \<and> rest \<noteq> []"
proof (cases p)
  case Nil
  then show ?thesis by (intro exI [of _ 0] exI [of _ "[0]"]) (simp add: scalar_def enc_def)
next
  case (Cons b q)
  have sz: "length p < size_of (utf8_first b)"
    using assms Cons by (auto simp: FullRune_def Let_def split: if_splits)
  then have lead: "194 \<le> unat b" "unat b < 245"
    using Cons by (auto simp: size_of_first split: if_splits)
  have ok: "q \<noteq> [] \<Longrightarrow> second_ok (unat b) (unat (q ! 0))" "1 < length q \<Longrightarrow> cont (unat (q ! 1))"
    using assms sz Cons lead by (auto simp: FullRune_def Let_def accept_iff cb_iff split: if_splits)
  define b1 :: byte where "b1 = (if unat b = 224 then 160 else if unat b = 240 then 144 else 128)"
  have b1: "second_ok (unat b) (unat b1)" "194 \<le> unat b \<Longrightarrow> unat b < 224 \<Longrightarrow> cont (unat b1)"
    using lead by (auto simp: b1_def second_ok_def cont_def)
  have c128: "cont (unat (128 :: byte))" by (simp add: cont_def)
  have "\<exists>fill. fill \<noteq> [] \<and> 2 \<le> length (p @ fill) \<and> snd (DecodeRune (p @ fill)) = length (p @ fill)"
  proof -
    consider "unat b < 224" "q = []" | "224 \<le> unat b" "unat b < 240" "q = []"
      | x where "224 \<le> unat b" "unat b < 240" "q = [x]" | "240 \<le> unat b" "q = []"
      | x where "240 \<le> unat b" "q = [x]" | x y where "240 \<le> unat b" "q = [x, y]"
      using sz Cons lead
      by (cases q; cases "tl q"; cases "tl (tl q)") (auto simp: size_of_first split: if_splits)
    then show ?thesis
    proof cases
      case 1
      then show ?thesis using lead b1 Cons by (intro exI [of _ "[b1]"]) (simp add: DecodeRune_2)
    next
      case 2
      then show ?thesis
        using b1 c128 Cons by (intro exI [of _ "[b1, 128]"]) (simp add: DecodeRune_3)
    next
      case 3
      then show ?thesis using ok c128 Cons by (intro exI [of _ "[128]"]) (simp add: DecodeRune_3)
    next
      case 4
      then show ?thesis
        using b1 c128 lead Cons by (intro exI [of _ "[b1, 128, 128]"]) (simp add: DecodeRune_4)
    next
      case 5
      then show ?thesis
        using ok c128 lead Cons by (intro exI [of _ "[128, 128]"]) (simp add: DecodeRune_4)
    next
      case 6
      then show ?thesis
        using ok c128 lead Cons by (intro exI [of _ "[128]"]) (simp add: DecodeRune_4)
    qed
  qed
  then obtain fill where fill: "fill \<noteq> []" "2 \<le> length (p @ fill)"
      "snd (DecodeRune (p @ fill)) = length (p @ fill)" by blast
  then obtain c rest where c: "scalar c" "map unat (p @ fill) = enc c @ rest"
      "length (enc c) = length (p @ fill)"
    using DecodeRune_sound [of "p @ fill"] by auto
  have "rest = []"
    using arg_cong [OF c(2), of length] c(3) by simp
  with c fill show ?thesis by (intro exI [of _ c] exI [of _ "map unat fill"]) simp
qed

section \<open>Properties\<close>

lemma AppendRune_bytes:
  "ValidRune r \<Longrightarrow> map unat (AppendRune [] r) = enc (unat r)"
  using enc_bytes [of "unat r"]
  by (auto simp: AppendRune_enc ValidRune_scalar unsigned_of_nat intro!: map_idI
      take_bit_nat_eq_self)

lemma bytes_eqI: "map unat p = map unat q \<Longrightarrow> (p :: byte list) = q"
  by (rule map_injective [of unat]) (auto simp: inj_def word_unat_eq_iff)

lemma scalar_ValidRune: "scalar c \<Longrightarrow> ValidRune (of_nat c) \<and> unat (of_nat c :: rune) = c"
  using scalar_less [of c] by (simp add: ValidRune_scalar unsigned_of_nat take_bit_nat_eq_self)

lemma enc_prefix_AppendRune:
  assumes "scalar c" "map unat p = enc c @ rest"
  shows "\<exists>q. p = AppendRune [] (of_nat c) @ q"
proof -
  have "map unat (take (length (enc c)) p) = enc c"
    using assms(2) by (simp flip: take_map)
  then have "take (length (enc c)) p = AppendRune [] (of_nat c)"
    using AppendRune_bytes [of "of_nat c"] scalar_ValidRune [OF assms(1)]
    by (intro bytes_eqI) simp
  then show ?thesis by (metis append_take_drop_id)
qed

lemma valid_seq_runes:
  "valid_seq p \<longleftrightarrow> (\<exists>rs. list_all ValidRune rs \<and> p = concat (map (AppendRune []) rs))"
proof
  assume "valid_seq p"
  then obtain cs where cs: "list_all scalar cs" "map unat p = concat (map enc cs)"
    by (auto simp: valid_seq_def)
  have "map unat (concat (map (AppendRune []) (map of_nat cs))) = concat (map enc cs)"
    using cs(1) by (induction cs) (auto simp: AppendRune_bytes scalar_ValidRune)
  then have "p = concat (map (AppendRune []) (map of_nat cs))"
    using cs(2) by (intro bytes_eqI) simp
  moreover have "list_all ValidRune (map of_nat cs)"
    using cs(1) by (auto simp: list_all_iff scalar_ValidRune)
  ultimately show "\<exists>rs. list_all ValidRune rs \<and> p = concat (map (AppendRune []) rs)" by blast
next
  assume "\<exists>rs. list_all ValidRune rs \<and> p = concat (map (AppendRune []) rs)"
  then obtain rs where rs: "list_all ValidRune rs" "p = concat (map (AppendRune []) rs)" by blast
  have "map unat (concat (map (AppendRune []) rs)) = concat (map enc (map unat rs))"
    using rs(1) by (induction rs) (auto simp: AppendRune_bytes)
  then show "valid_seq p"
    using rs unfolding valid_seq_def
    by (intro exI [of _ "map unat rs"]) (auto simp: list_all_iff ValidRune_scalar)
qed

text \<open>C28. Decoding inverts encoding: the bytes \<open>AppendRune\<close> produces for a valid rune,
  followed by anything, decode to that rune with the width \<open>RuneLen\<close> reports.\<close>

theorem DecodeRune_AppendRune:
  assumes "ValidRune r"
  shows "DecodeRune (AppendRune [] r @ q) = (r, nat (RuneLen r))"
  using DecodeRune_enc [of "unat r" "AppendRune [] r @ q" "map unat q"] assms
  by (simp add: AppendRune_bytes RuneLen_enc ValidRune_scalar)

theorem DecodeRune_AppendRune_witness:
  "ValidRune 0x1F600 \<and> DecodeRune (AppendRune [] 0x1F600 @ [0x41]) = (0x1F600, 4)"
proof -
  have "ValidRune 0x1F600" "RuneLen 0x1F600 = 4" by (simp_all add: ValidRune_def RuneLen_def)
  with DecodeRune_AppendRune [of "0x1F600" "[0x41]"] show ?thesis by simp
qed

text \<open>C29. Decoding is exact: on a non-empty slice \<open>DecodeRune\<close> either returns a valid rune
  whose shortest encoding the slice starts with, and that encoding's length, or it
  returns \<open>(RuneError, 1)\<close> and the slice starts with the encoding of no valid rune: overlong
  forms, surrogates and values beyond \<open>MaxRune\<close> are all rejected.\<close>

theorem DecodeRune_exact:
  assumes "p \<noteq> []"
  shows "(\<exists>r q. ValidRune r \<and> p = AppendRune [] r @ q \<and>
            DecodeRune p = (r, length (AppendRune [] r))) \<or>
         (DecodeRune p = (RuneError, 1) \<and> (\<nexists>r q. ValidRune r \<and> p = AppendRune [] r @ q))"
proof (cases "\<exists>r q. ValidRune r \<and> p = AppendRune [] r @ q")
  case True
  then obtain r q where r: "ValidRune r" "p = AppendRune [] r @ q" by blast
  have "length (AppendRune [] r) = length (enc (unat r))"
    using AppendRune_bytes [OF r(1)] by (metis length_map)
  then have "DecodeRune p = (r, length (AppendRune [] r))"
    using DecodeRune_enc [of "unat r" p "map unat q"] r
    by (simp add: AppendRune_bytes ValidRune_scalar)
  with r show ?thesis by blast
next
  case False
  then have "DecodeRune p = (RuneError, 1)"
    using DecodeRune_sound [OF assms] enc_prefix_AppendRune scalar_ValidRune by metis
  with False show ?thesis by blast
qed

theorem DecodeRune_exact_witness:
  "DecodeRune [0xC0, 0x80] = (RuneError, 1) \<and>
   (\<nexists>r q. ValidRune r \<and> [0xC0, 0x80] = AppendRune [] r @ q)"
proof -
  have "DecodeRune [0xC0, 0x80] = (RuneError, 1)" by (simp add: DecodeRune_bad)
  then show ?thesis
    using DecodeRune_exact [of "[0xC0, 0x80]"] by (auto simp: AppendRune_enc enc_def split: if_splits)
qed

text \<open>C31. On a machine with 4-byte or 8-byte words, \<open>Valid\<close> with its word-at-a-time ASCII
  path accepts exactly the concatenations of encodings of valid runes.\<close>

theorem Valid_iff_encoded:
  assumes "ps = 4 \<or> ps = 8"
  shows "Valid ps p \<longleftrightarrow> (\<exists>rs. list_all ValidRune rs \<and> p = concat (map (AppendRune []) rs))"
  using Valid_valid_seq [OF assms] valid_seq_runes by simp

theorem Valid_iff_encoded_witness:
  "Valid 8 [0x61, 0xC3, 0xA9]"
  by (subst Valid_iff_encoded) (auto intro!: exI [of _ "[0x61, 0xE9]"]
      simp: ValidRune_def AppendRune_def appendRuneNonASCII_def)

text \<open>\<open>DecodeLastRune\<close> finds a valid rune at the end of any byte sequence, whatever
  precedes it.\<close>

theorem DecodeLastRune_AppendRune:
  assumes "ValidRune r"
  shows "DecodeLastRune (AppendRune p r) = (r, nat (RuneLen r))"
  using DecodeLastRune_enc [of "unat r" "AppendRune [] r" p] assms
  by (simp add: AppendRune_bytes RuneLen_enc ValidRune_scalar)
     (simp add: AppendRune_enc)

theorem DecodeLastRune_AppendRune_witness:
  "ValidRune 0x20AC \<and> DecodeLastRune (AppendRune [0xE2, 0x82] 0x20AC) = (0x20AC, 3)"
proof -
  have "ValidRune 0x20AC" "RuneLen 0x20AC = 3" by (simp_all add: ValidRune_def RuneLen_def)
  with DecodeLastRune_AppendRune [of "0x20AC" "[0xE2, 0x82]"] show ?thesis by simp
qed

text \<open>\<open>FullRune\<close> reports false exactly on the proper prefixes of encodings of valid
  runes, the inputs for which more bytes could still complete a rune.\<close>

theorem FullRune_iff:
  "\<not> FullRune p \<longleftrightarrow> (\<exists>r q. ValidRune r \<and> q \<noteq> [] \<and> p @ q = AppendRune [] r)"
proof
  assume "\<not> FullRune p"
  then obtain c rest where c: "scalar c" "map unat p @ rest = enc c" "rest \<noteq> []"
    using not_full_proper_prefix by blast
  have "map unat (p @ map of_nat rest) = enc c"
    using c(2) enc_bytes [OF c(1)] unfolding c(2) [symmetric]
    by (auto simp: unsigned_of_nat intro!: map_idI take_bit_nat_eq_self)
  then have "p @ map of_nat rest = AppendRune [] (of_nat c)"
    using scalar_ValidRune [OF c(1)] by (intro bytes_eqI) (simp add: AppendRune_bytes)
  then show "\<exists>r q. ValidRune r \<and> q \<noteq> [] \<and> p @ q = AppendRune [] r"
    using scalar_ValidRune [OF c(1)] c(3) by blast
next
  assume "\<exists>r q. ValidRune r \<and> q \<noteq> [] \<and> p @ q = AppendRune [] r"
  then obtain r q where r: "ValidRune r" "q \<noteq> []" "p @ q = AppendRune [] r" by blast
  then have "map unat p @ map unat q = enc (unat r)" by (metis AppendRune_bytes map_append)
  with r show "\<not> FullRune p"
    by (intro proper_prefix_not_full [of "unat r" _ "map unat q"]) (auto simp: ValidRune_scalar)
qed

end
