(* ===== verification/Sort.thy ===== *)
theory Sort
  imports Bits
begin

text \<open>
  The package \<open>sort\<close>: the pattern-defeating quicksort behind \<open>Sort\<close>, its heap sort and
  insertion sort, the in-place merge sort behind \<open>Stable\<close>, and binary search
  (\<open>sort.go\<close>, \<open>search.go\<close>, \<open>zsortinterface.go\<close>).

  A value of the interface type \<open>sort.Interface\<close> is a record of the three methods over a
  state that \<open>Swap\<close> updates; every function of the package returns the updated state.
  Indices are naturals: where the source lets an index variable of type \<open>int\<close> run to
  \<open>-1\<close> the model recurses on the number of remaining iterations.
\<close>

record 's sort_Interface =
  Len :: "'s \<Rightarrow> nat"
  Less :: "'s \<Rightarrow> nat \<Rightarrow> nat \<Rightarrow> bool"
  Swap :: "'s \<Rightarrow> nat \<Rightarrow> nat \<Rightarrow> 's"

section \<open>Insertion sort\<close>

fun insertionSort_inner :: "'s sort_Interface \<Rightarrow> 's \<Rightarrow> nat \<Rightarrow> nat \<Rightarrow> 's" where
  "insertionSort_inner D s a j =
     (if j > a \<and> Less D s j (j - 1)
      then insertionSort_inner D (Swap D s j (j - 1)) a (j - 1) else s)"

declare insertionSort_inner.simps [simp del]

function insertionSort_outer :: "'s sort_Interface \<Rightarrow> 's \<Rightarrow> nat \<Rightarrow> nat \<Rightarrow> nat \<Rightarrow> 's" where
  "insertionSort_outer D s a b i =
     (if i < b then insertionSort_outer D (insertionSort_inner D s a i) a b (i + 1) else s)"
  by auto
termination by (relation "measure (\<lambda>(D, s, a, b, i). b - i)") auto

declare insertionSort_outer.simps [simp del]

definition insertionSort :: "'s sort_Interface \<Rightarrow> 's \<Rightarrow> nat \<Rightarrow> nat \<Rightarrow> 's" where
  "insertionSort D s a b = insertionSort_outer D s a b (a + 1)"

section \<open>Heap sort\<close>

function siftDown :: "'s sort_Interface \<Rightarrow> 's \<Rightarrow> nat \<Rightarrow> nat \<Rightarrow> nat \<Rightarrow> 's" where
  "siftDown D s root hi first =
     (let child = 2 * root + 1 in
      if child \<ge> hi then s
      else
        let child = (if child + 1 < hi \<and> Less D s (first + child) (first + child + 1)
                     then child + 1 else child)
        in if \<not> Less D s (first + root) (first + child) then s
           else siftDown D (Swap D s (first + root) (first + child)) child hi first)"
  by auto
termination by (relation "measure (\<lambda>(D, s, root, hi, first). hi - root)") (auto split: if_splits)

declare siftDown.simps [simp del]

primrec heapSort_build :: "'s sort_Interface \<Rightarrow> nat \<Rightarrow> nat \<Rightarrow> nat \<Rightarrow> 's \<Rightarrow> 's" where
  "heapSort_build D hi first 0 s = siftDown D s 0 hi first"
| "heapSort_build D hi first (Suc i) s =
     heapSort_build D hi first i (siftDown D s (Suc i) hi first)"

primrec heapSort_pop :: "'s sort_Interface \<Rightarrow> nat \<Rightarrow> nat \<Rightarrow> 's \<Rightarrow> 's" where
  "heapSort_pop D first 0 s = s"
| "heapSort_pop D first (Suc i) s =
     heapSort_pop D first i (siftDown D (Swap D s first (first + i)) 0 i first)"

definition heapSort :: "'s sort_Interface \<Rightarrow> 's \<Rightarrow> nat \<Rightarrow> nat \<Rightarrow> 's" where
  "heapSort D s a b =
     (let first = a; hi = b - a;
          s = heapSort_build D hi first ((hi - 1) div 2) s
      in heapSort_pop D first hi s)"

section \<open>Partitioning\<close>

text \<open>
  The two scanning loops of \<open>partition\<close> and \<open>partitionEqual\<close>.  The lower index starts at
  \<open>a + 1\<close>, so the upper one is positive whenever the loop condition \<open>i <= j\<close> holds.
\<close>

function scan_up :: "(nat \<Rightarrow> bool) \<Rightarrow> nat \<Rightarrow> nat \<Rightarrow> nat" where
  "scan_up p i j = (if i \<le> j \<and> p i then scan_up p (i + 1) j else i)"
  by auto
termination by (relation "measure (\<lambda>(p, i, j). Suc j - i)") auto

fun scan_down :: "(nat \<Rightarrow> bool) \<Rightarrow> nat \<Rightarrow> nat \<Rightarrow> nat" where
  "scan_down p i j = (if 0 < j \<and> i \<le> j \<and> p j then scan_down p i (j - 1) else j)"

declare scan_up.simps [simp del] scan_down.simps [simp del]

lemma scan_up_ge: "i \<le> scan_up p i j"
  by (induction p i j rule: scan_up.induct) (subst scan_up.simps, auto)

lemma scan_down_le: "scan_down p i j \<le> j"
  by (induction p i j rule: scan_down.induct) (subst scan_down.simps, auto)

lemma scan_down_ge: "i \<le> Suc j \<Longrightarrow> i \<le> Suc (scan_down p i j)"
  by (induction p i j rule: scan_down.induct) (subst scan_down.simps, auto)

function partition_loop :: "'s sort_Interface \<Rightarrow> 's \<Rightarrow> nat \<Rightarrow> nat \<Rightarrow> nat \<Rightarrow> 's \<times> nat" where
  "partition_loop D s a i j =
     (let i = scan_up (\<lambda>i. Less D s i a) i j;
          j = scan_down (\<lambda>j. \<not> Less D s j a) i j
      in if i > j then (s, j) else partition_loop D (Swap D s i j) a (i + 1) (j - 1))"
  by auto
termination
proof (relation "measure (\<lambda>(D, s, a, i, j). Suc j - i)", goal_cases)
  case (2 D s a i j x xa)
  then show ?case
    using scan_up_ge [of i "\<lambda>i. Less D s i a" j] scan_down_le [of "\<lambda>j. \<not> Less D s j a" x j] by auto
qed simp

declare partition_loop.simps [simp del]

definition partition_sort :: "'s sort_Interface \<Rightarrow> 's \<Rightarrow> nat \<Rightarrow> nat \<Rightarrow> nat \<Rightarrow> 's \<times> nat \<times> bool" where
  "partition_sort D s a b pivot =
     (let s = Swap D s a pivot;
          i = scan_up (\<lambda>i. Less D s i a) (a + 1) (b - 1);
          j = scan_down (\<lambda>j. \<not> Less D s j a) i (b - 1)
      in if i > j then (Swap D s j a, j, True)
         else
           let s = Swap D s i j;
               (s, j) = partition_loop D s a (i + 1) (j - 1)
           in (Swap D s j a, j, False))"

function partitionEqual_loop :: "'s sort_Interface \<Rightarrow> 's \<Rightarrow> nat \<Rightarrow> nat \<Rightarrow> nat \<Rightarrow> 's \<times> nat" where
  "partitionEqual_loop D s a i j =
     (let i = scan_up (\<lambda>i. \<not> Less D s a i) i j;
          j = scan_down (\<lambda>j. Less D s a j) i j
      in if i > j then (s, i) else partitionEqual_loop D (Swap D s i j) a (i + 1) (j - 1))"
  by auto
termination
proof (relation "measure (\<lambda>(D, s, a, i, j). Suc j - i)", goal_cases)
  case (2 D s a i j x xa)
  then show ?case
    using scan_up_ge [of i "\<lambda>i. \<not> Less D s a i" j] scan_down_le [of "\<lambda>j. Less D s a j" x j] by auto
qed simp

declare partitionEqual_loop.simps [simp del]

definition partitionEqual :: "'s sort_Interface \<Rightarrow> 's \<Rightarrow> nat \<Rightarrow> nat \<Rightarrow> nat \<Rightarrow> 's \<times> nat" where
  "partitionEqual D s a b pivot =
     (let s = Swap D s a pivot in partitionEqual_loop D s a (a + 1) (b - 1))"

section \<open>Partial insertion sort\<close>

function pis_skip :: "'s sort_Interface \<Rightarrow> 's \<Rightarrow> nat \<Rightarrow> nat \<Rightarrow> nat" where
  "pis_skip D s b i = (if i < b \<and> \<not> Less D s i (i - 1) then pis_skip D s b (i + 1) else i)"
  by auto
termination by (relation "measure (\<lambda>(D, s, b, i). b - i)") auto

declare pis_skip.simps [simp del]

primrec pis_left :: "'s sort_Interface \<Rightarrow> nat \<Rightarrow> 's \<Rightarrow> 's" where
  "pis_left D 0 s = s"
| "pis_left D (Suc j) s =
     (if \<not> Less D s (Suc j) j then s else pis_left D j (Swap D s (Suc j) j))"

function pis_right :: "'s sort_Interface \<Rightarrow> 's \<Rightarrow> nat \<Rightarrow> nat \<Rightarrow> 's" where
  "pis_right D s b j =
     (if j < b then
        if \<not> Less D s j (j - 1) then s else pis_right D (Swap D s j (j - 1)) b (j + 1)
      else s)"
  by auto
termination by (relation "measure (\<lambda>(D, s, b, j). b - j)") auto

declare pis_right.simps [simp del]

abbreviation pis_maxSteps :: nat where "pis_maxSteps \<equiv> 5"
abbreviation pis_shortestShifting :: nat where "pis_shortestShifting \<equiv> 50"

text \<open>The counted loop, on the number of steps left.\<close>

primrec partialInsertionSort_steps ::
  "'s sort_Interface \<Rightarrow> nat \<Rightarrow> nat \<Rightarrow> nat \<Rightarrow> 's \<Rightarrow> nat \<Rightarrow> 's \<times> bool" where
  "partialInsertionSort_steps D a b 0 s i = (s, False)"
| "partialInsertionSort_steps D a b (Suc n) s i =
     (let i = pis_skip D s b i in
      if i = b then (s, True)
      else if b - a < pis_shortestShifting then (s, False)
      else
        let s = Swap D s i (i - 1);
            s = (if i - a \<ge> 2 then pis_left D (i - 1) s else s);
            s = (if b - i \<ge> 2 then pis_right D s b (i + 1) else s)
        in partialInsertionSort_steps D a b n s i)"

definition partialInsertionSort :: "'s sort_Interface \<Rightarrow> 's \<Rightarrow> nat \<Rightarrow> nat \<Rightarrow> 's \<times> bool" where
  "partialInsertionSort D s a b = partialInsertionSort_steps D a b pis_maxSteps s (a + 1)"

section \<open>Breaking patterns\<close>

definition xorshift_Next :: "uint64 \<Rightarrow> uint64" where
  "xorshift_Next r =
     (let r = r XOR push_bit 13 r;
          r = r XOR drop_bit 7 r
      in r XOR push_bit 17 r)"

definition nextPowerOfTwo :: "nat \<Rightarrow> uint64" where
  "nextPowerOfTwo len = (let shift = bits_Len (word_of_nat len) in push_bit shift 1)"

primrec breakPatterns_loop ::
  "'s sort_Interface \<Rightarrow> nat \<Rightarrow> nat \<Rightarrow> uint64 \<Rightarrow> nat \<Rightarrow> 's \<Rightarrow> nat \<Rightarrow> uint64 \<Rightarrow> 's" where
  "breakPatterns_loop D a len modulus 0 s idx random = s"
| "breakPatterns_loop D a len modulus (Suc n) s idx random =
     (let random = xorshift_Next random;
          other = unat (random AND (modulus - 1));
          other = (if other \<ge> len then other - len else other)
      in breakPatterns_loop D a len modulus n (Swap D s idx (a + other)) (idx + 1) random)"

text \<open>The loop variable runs over the three indices around the middle.\<close>

definition breakPatterns :: "'s sort_Interface \<Rightarrow> 's \<Rightarrow> nat \<Rightarrow> nat \<Rightarrow> 's" where
  "breakPatterns D s a b =
     (let len = b - a in
      if len \<ge> 8 then
        let random = word_of_nat len; modulus = nextPowerOfTwo len;
            idx = a + (len div 4) * 2 - 1
        in breakPatterns_loop D a len modulus (a + (len div 4) * 2 + 1 + 1 - idx) s idx random
      else s)"

section \<open>Choosing a pivot\<close>

datatype sortedHint = unknownHint | increasingHint | decreasingHint

text \<open>The counter behind the pointer \<open>swaps\<close> is passed and returned.\<close>

definition order2 :: "'s sort_Interface \<Rightarrow> 's \<Rightarrow> nat \<Rightarrow> nat \<Rightarrow> nat \<Rightarrow> nat \<times> nat \<times> nat" where
  "order2 D s a b swaps = (if Less D s b a then (b, a, swaps + 1) else (a, b, swaps))"

definition median :: "'s sort_Interface \<Rightarrow> 's \<Rightarrow> nat \<Rightarrow> nat \<Rightarrow> nat \<Rightarrow> nat \<Rightarrow> nat \<times> nat" where
  "median D s a b c swaps =
     (let (a, b, swaps) = order2 D s a b swaps;
          (b, c, swaps) = order2 D s b c swaps;
          (a, b, swaps) = order2 D s a b swaps
      in (b, swaps))"

definition medianAdjacent :: "'s sort_Interface \<Rightarrow> 's \<Rightarrow> nat \<Rightarrow> nat \<Rightarrow> nat \<times> nat" where
  "medianAdjacent D s a swaps = median D s (a - 1) a (a + 1) swaps"

abbreviation shortestNinther :: nat where "shortestNinther \<equiv> 50"
abbreviation maxSwaps :: nat where "maxSwaps \<equiv> 4 * 3"

definition choosePivot :: "'s sort_Interface \<Rightarrow> 's \<Rightarrow> nat \<Rightarrow> nat \<Rightarrow> nat \<times> sortedHint" where
  "choosePivot D s a b =
     (let l = b - a; swaps = 0;
          i = a + l div 4 * 1; j = a + l div 4 * 2; k = a + l div 4 * 3;
          (j, swaps) =
            (if l \<ge> 8 then
               let (i, j, k, swaps) =
                 (if l \<ge> shortestNinther then
                    let (i, swaps) = medianAdjacent D s i swaps;
                        (j, swaps) = medianAdjacent D s j swaps;
                        (k, swaps) = medianAdjacent D s k swaps
                    in (i, j, k, swaps)
                  else (i, j, k, swaps))
               in median D s i j k swaps
             else (j, swaps))
      in if swaps = 0 then (j, increasingHint)
         else if swaps = maxSwaps then (j, decreasingHint)
         else (j, unknownHint))"

function reverseRange_loop :: "'s sort_Interface \<Rightarrow> 's \<Rightarrow> nat \<Rightarrow> nat \<Rightarrow> 's" where
  "reverseRange_loop D s i j =
     (if i < j then reverseRange_loop D (Swap D s i j) (i + 1) (j - 1) else s)"
  by auto
termination by (relation "measure (\<lambda>(D, s, i, j). j - i)") auto

declare reverseRange_loop.simps [simp del]

definition reverseRange :: "'s sort_Interface \<Rightarrow> 's \<Rightarrow> nat \<Rightarrow> nat \<Rightarrow> 's" where
  "reverseRange D s a b = reverseRange_loop D s a (b - 1)"

section \<open>Pattern-defeating quicksort\<close>

text \<open>Bounds of the returned indices, for every interface: the loop below ends.\<close>

lemma scan_up_le: "i \<le> Suc j \<Longrightarrow> scan_up p i j \<le> Suc j"
  by (induction p i j rule: scan_up.induct) (subst scan_up.simps, auto)

lemma scan_up_stop: "scan_up p i j \<le> j \<Longrightarrow> \<not> p (scan_up p i j)"
  by (induction p i j rule: scan_up.induct) (subst (asm) (2) scan_up.simps, subst scan_up.simps, auto split: if_splits)

lemma scan_down_stop: "0 < i \<Longrightarrow> i \<le> scan_down p i j \<Longrightarrow> \<not> p (scan_down p i j)"
  by (induction p i j rule: scan_down.induct) (subst (asm) (2) scan_down.simps, subst scan_down.simps, auto split: if_splits)

lemma scans_cross:
  fixes p :: "nat \<Rightarrow> bool"
  assumes "0 < i" "i \<le> Suc j"
  defines "i' \<equiv> scan_up p i j"
  defines "j' \<equiv> scan_down (\<lambda>j. \<not> p j) i' j"
  shows "i \<le> i'" "j' \<le> j" "i' \<le> Suc j'" "i' \<le> j' \<Longrightarrow> i' < j'"
proof -
  show i: "i \<le> i'" and j: "j' \<le> j" unfolding i'_def j'_def by (rule scan_up_ge scan_down_le)+
  have "i' \<le> Suc j" unfolding i'_def using assms(2) by (rule scan_up_le)
  then show "i' \<le> Suc j'" unfolding j'_def by (rule scan_down_ge)
  assume ij: "i' \<le> j'"
  have "\<not> p i'" using scan_up_stop [of p i j] ij j by (simp add: i'_def)
  moreover have "p j'" using scan_down_stop [of i' "\<lambda>j. \<not> p j" j] ij i assms(1) by (simp add: j'_def)
  ultimately show "i' < j'" using ij by (metis le_neq_implies_less)
qed

lemma partition_loop_bounds:
  "0 < i \<Longrightarrow> i \<le> Suc j \<Longrightarrow>
    snd (partition_loop D s a i j) \<le> j \<and> i \<le> Suc (snd (partition_loop D s a i j))"
proof (induction D s a i j rule: partition_loop.induct)
  case (1 D s a i j)
  define i' where "i' = scan_up (\<lambda>i. Less D s i a) i j"
  define j' where "j' = scan_down (\<lambda>j. \<not> Less D s j a) i' j"
  note sc = scans_cross [OF "1.prems", of "\<lambda>i. Less D s i a", folded i'_def, folded j'_def]
  have eq: "partition_loop D s a i j =
      (if i' > j' then (s, j') else partition_loop D (Swap D s i' j') a (i' + 1) (j' - 1))"
    by (subst partition_loop.simps) (simp only: Let_def i'_def j'_def)
  show ?case
  proof (cases "i' > j'")
    case False
    then have "i' + 1 \<le> Suc (j' - 1)" using sc(4) by simp
    from "1.IH" [OF i'_def j'_def False _ this] show ?thesis using sc False by (auto simp: eq)
  qed (use sc in \<open>simp add: eq\<close>)
qed

lemma partition_sort_bounds:
  assumes "a < b" "partition_sort D s a b pivot = (s', mid, ap)"
  shows "a \<le> mid \<and> mid < b"
proof -
  define t where "t = Swap D s a pivot"
  define i where "i = scan_up (\<lambda>i. Less D t i a) (a + 1) (b - 1)"
  define j where "j = scan_down (\<lambda>j. \<not> Less D t j a) i (b - 1)"
  have "a + 1 \<le> Suc (b - 1)" using assms(1) by simp
  note sc = scans_cross [OF _ this, of "\<lambda>i. Less D t i a", folded i_def, folded j_def]
  have eq: "fst (snd (partition_sort D s a b pivot)) =
      (if i > j then j else snd (partition_loop D (Swap D t i j) a (i + 1) (j - 1)))"
    by (simp only: partition_sort_def Let_def t_def i_def j_def split: prod.split) simp
  show ?thesis
  proof (cases "i > j")
    case False
    then have "i + 1 \<le> Suc (j - 1)" using sc(4) by simp
    from partition_loop_bounds [OF _ this, of D "Swap D t i j" a] show ?thesis
      using sc False assms eq by auto
  qed (use sc assms eq in simp)
qed

lemma partitionEqual_loop_ge: "i \<le> snd (partitionEqual_loop D s a i j)"
proof (induction D s a i j rule: partitionEqual_loop.induct)
  case (1 D s a i j)
  show ?case
    using "1.IH" scan_up_ge [of i "\<lambda>i. \<not> Less D s a i" j]
    by (subst partitionEqual_loop.simps) (auto simp: Let_def intro: order_trans dest: Suc_leD)
qed

lemma partitionEqual_gt: "partitionEqual D s a b pivot = (s', mid) \<Longrightarrow> a < mid"
  using partitionEqual_loop_ge [of "a + 1" D "Swap D s a pivot" a "b - 1"]
  by (simp add: partitionEqual_def)

abbreviation maxInsertion :: nat where "maxInsertion \<equiv> 12"

text \<open>
  The part of the loop body before the partition: break the pattern after an unbalanced
  partition, choose the pivot, reverse a range that looks decreasing, and try to finish with
  a partial insertion sort.
\<close>

definition pdqsort_prepare ::
  "'s sort_Interface \<Rightarrow> 's \<Rightarrow> nat \<Rightarrow> nat \<Rightarrow> nat \<Rightarrow> bool \<Rightarrow> bool \<Rightarrow> 's \<times> nat \<times> nat \<times> bool" where
  "pdqsort_prepare D s a b limit wasBalanced wasPartitioned =
     (let (s, limit) = (if \<not> wasBalanced then (breakPatterns D s a b, limit - 1) else (s, limit));
          (pivot, hint) = choosePivot D s a b;
          (s, pivot, hint) =
            (if hint = decreasingHint
             then (reverseRange D s a b, (b - 1) - (pivot - a), increasingHint)
             else (s, pivot, hint));
          (s, done) =
            (if wasBalanced \<and> wasPartitioned \<and> hint = increasingHint
             then partialInsertionSort D s a b else (s, False))
      in (s, limit, pivot, done))"

function pdqsort_loop ::
  "'s sort_Interface \<Rightarrow> 's \<Rightarrow> nat \<Rightarrow> nat \<Rightarrow> nat \<Rightarrow> bool \<Rightarrow> bool \<Rightarrow> 's" where
  "pdqsort_loop D s a b limit wasBalanced wasPartitioned =
     (let len = b - a in
      if len \<le> maxInsertion then insertionSort D s a b
      else if limit = 0 then heapSort D s a b
      else
        case pdqsort_prepare D s a b limit wasBalanced wasPartitioned of
          (s, limit, pivot, done) \<Rightarrow>
            if done then s
            else if a > 0 \<and> \<not> Less D s (a - 1) pivot then
              case partitionEqual D s a b pivot of (s, mid) \<Rightarrow>
                pdqsort_loop D s mid b limit wasBalanced wasPartitioned
            else
              case partition_sort D s a b pivot of (s, mid, alreadyPartitioned) \<Rightarrow>
                let leftLen = mid - a; rightLen = b - mid; balanceThreshold = len div 8
                in if leftLen < rightLen
                   then pdqsort_loop D (pdqsort_loop D s a mid limit True True) (mid + 1) b limit
                          (leftLen \<ge> balanceThreshold) alreadyPartitioned
                   else pdqsort_loop D (pdqsort_loop D s (mid + 1) b limit True True) a mid limit
                          (rightLen \<ge> balanceThreshold) alreadyPartitioned)"
  by pat_completeness auto
termination
  by (relation "measure (\<lambda>(D, s, a, b, limit, wb, wp). b - a)")
    (auto dest!: partitionEqual_gt [OF sym] partition_sort_bounds [OF _ sym, rotated])

declare pdqsort_loop.simps [simp del]

text \<open>\<open>pdqsort\<close> starts its loop with both flags set, also in the recursive calls.\<close>

definition pdqsort :: "'s sort_Interface \<Rightarrow> 's \<Rightarrow> nat \<Rightarrow> nat \<Rightarrow> nat \<Rightarrow> 's" where
  "pdqsort D s a b limit = pdqsort_loop D s a b limit True True"

definition sort_Sort :: "'s sort_Interface \<Rightarrow> 's \<Rightarrow> 's" where
  "sort_Sort D s =
     (let n = Len D s in
      if n \<le> 1 then s
      else let limit = bits_Len (word_of_nat n) in pdqsort D s 0 n limit)"

definition Reverse_Interface :: "'s sort_Interface \<Rightarrow> 's sort_Interface" where
  "Reverse_Interface D = D\<lparr>Less := \<lambda>s i j. Less D s j i\<rparr>"

text \<open>The loop of \<open>IsSorted\<close>, from the last index down to 1.\<close>

primrec IsSorted_loop :: "'s sort_Interface \<Rightarrow> 's \<Rightarrow> nat \<Rightarrow> bool" where
  "IsSorted_loop D s 0 = True"
| "IsSorted_loop D s (Suc i) = (if Less D s (Suc i) i then False else IsSorted_loop D s i)"

definition IsSorted :: "'s sort_Interface \<Rightarrow> 's \<Rightarrow> bool" where
  "IsSorted D s = (let n = Len D s in IsSorted_loop D s (n - 1))"

section \<open>Stable sorting\<close>

text \<open>The counted loop of \<open>swapRange\<close>, from index \<open>i\<close> with \<open>n\<close> iterations left.\<close>

primrec swapRange_loop :: "'s sort_Interface \<Rightarrow> nat \<Rightarrow> nat \<Rightarrow> nat \<Rightarrow> 's \<Rightarrow> nat \<Rightarrow> 's" where
  "swapRange_loop D a b 0 s i = s"
| "swapRange_loop D a b (Suc n) s i = swapRange_loop D a b n (Swap D s (a + i) (b + i)) (i + 1)"

definition swapRange :: "'s sort_Interface \<Rightarrow> 's \<Rightarrow> nat \<Rightarrow> nat \<Rightarrow> nat \<Rightarrow> 's" where
  "swapRange D s a b n = swapRange_loop D a b n s 0"

text \<open>
  The loop of \<open>rotate\<close> does not end when one of the blocks is empty: the result is then
  \<^const>\<open>None\<close>, as it is for the functions that call it.
\<close>

partial_function (option) rotate_loop ::
  "'s sort_Interface \<Rightarrow> 's \<Rightarrow> nat \<Rightarrow> nat \<Rightarrow> nat \<Rightarrow> 's option" where
  "rotate_loop D s m i j =
     (if i \<noteq> j then
        if i > j then rotate_loop D (swapRange D s (m - i) m j) m (i - j) j
        else rotate_loop D (swapRange D s (m - i) (m + j - i) i) m i (j - i)
      else Some (swapRange D s (m - i) m i))"

definition rotate_sort :: "'s sort_Interface \<Rightarrow> 's \<Rightarrow> nat \<Rightarrow> nat \<Rightarrow> nat \<Rightarrow> 's option" where
  "rotate_sort D s a m b = rotate_loop D s m (m - a) (b - m)"

text \<open>
  The binary searches of the package, all of the same shape: the lower end moves above the
  probe when the test holds there, the upper end moves to the probe otherwise.
\<close>

function bsearch :: "(nat \<Rightarrow> bool) \<Rightarrow> nat \<Rightarrow> nat \<Rightarrow> nat" where
  "bsearch p i j =
     (if i < j then
        let h = (i + j) div 2 in if p h then bsearch p (h + 1) j else bsearch p i h
      else i)"
  by auto
termination by (relation "measure (\<lambda>(p, i, j). j - i)") auto

declare bsearch.simps [simp del]

function bubble_up :: "'s sort_Interface \<Rightarrow> 's \<Rightarrow> nat \<Rightarrow> nat \<Rightarrow> 's" where
  "bubble_up D s k i = (if k < i - 1 then bubble_up D (Swap D s k (k + 1)) (k + 1) i else s)"
  by auto
termination by (relation "measure (\<lambda>(D, s, k, i). i - k)") auto

declare bubble_up.simps [simp del]

fun bubble_down :: "'s sort_Interface \<Rightarrow> 's \<Rightarrow> nat \<Rightarrow> nat \<Rightarrow> 's" where
  "bubble_down D s k i = (if k > i then bubble_down D (Swap D s k (k - 1)) (k - 1) i else s)"

declare bubble_down.simps [simp del]

lemma middle_less:
  "a < k \<Longrightarrow> k < (a + b) div 2 \<Longrightarrow> (a + b) div 2 - a < b - (a :: nat)"
  "(a + b) div 2 < k \<Longrightarrow> k < b \<Longrightarrow> b - (a + b) div 2 < b - (a :: nat)"
  by linarith+

function symMerge :: "'s sort_Interface \<Rightarrow> 's \<Rightarrow> nat \<Rightarrow> nat \<Rightarrow> nat \<Rightarrow> 's option" where
  "symMerge D s a m b =
     (if m - a = 1 then
        let i = bsearch (\<lambda>h. Less D s h a) m b in Some (bubble_up D s a i)
      else if b - m = 1 then
        let i = bsearch (\<lambda>h. \<not> Less D s m h) a m in Some (bubble_down D s m i)
      else
        let mid = (a + b) div 2; n = mid + m;
            (start, r) = (if m > mid then (n - b, mid) else (a, m));
            p = n - 1;
            start = bsearch (\<lambda>c. \<not> Less D s (p - c) c) start r;
            end = n - start
        in case (if start < m \<and> m < end then rotate_sort D s start m end else Some s) of
             None \<Rightarrow> None
           | Some s \<Rightarrow>
               (case (if a < start \<and> start < mid then symMerge D s a start mid else Some s) of
                  None \<Rightarrow> None
                | Some s \<Rightarrow> if mid < end \<and> end < b then symMerge D s mid end b else Some s))"
  by pat_completeness auto
termination
  by (relation "measure (\<lambda>(D, s, a, m, b). b - a)")
    (simp, (simp only: in_measure prod.case, metis middle_less)+)

declare symMerge.simps [simp del]

text \<open>\<open>stable\<close>: the blocks of insertion sort, one pass of merges, and the passes.\<close>

abbreviation stable_blockSize :: nat where "stable_blockSize \<equiv> 20"

function stable_blocks :: "'s sort_Interface \<Rightarrow> 's \<Rightarrow> nat \<Rightarrow> nat \<Rightarrow> nat \<Rightarrow> 's \<times> nat" where
  "stable_blocks D s n a b =
     (if b \<le> n
      then stable_blocks D (insertionSort D s a b) n b (b + stable_blockSize)
      else (s, a))"
  by auto
termination by (relation "measure (\<lambda>(D, s, n, a, b). Suc n - b)") auto

declare stable_blocks.simps [simp del]

text \<open>A block size of zero would make a pass of merges run forever; the source starts at 20.\<close>

partial_function (option) stable_pass ::
  "'s sort_Interface \<Rightarrow> 's \<Rightarrow> nat \<Rightarrow> nat \<Rightarrow> nat \<Rightarrow> nat \<Rightarrow> ('s \<times> nat) option" where
  "stable_pass D s n blockSize a b =
     (if b \<le> n then
        case symMerge D s a (a + blockSize) b of
          None \<Rightarrow> None
        | Some s \<Rightarrow> stable_pass D s n blockSize b (b + 2 * blockSize)
      else Some (s, a))"

partial_function (option) stable_merges ::
  "'s sort_Interface \<Rightarrow> 's \<Rightarrow> nat \<Rightarrow> nat \<Rightarrow> 's option" where
  "stable_merges D s n blockSize =
     (if blockSize < n then
        case stable_pass D s n blockSize 0 (2 * blockSize) of
          None \<Rightarrow> None
        | Some (s, a) \<Rightarrow>
            (case (if a + blockSize < n then symMerge D s a (a + blockSize) n else Some s) of
               None \<Rightarrow> None
             | Some s \<Rightarrow> stable_merges D s n (blockSize * 2))
      else Some s)"

definition stable :: "'s sort_Interface \<Rightarrow> 's \<Rightarrow> nat \<Rightarrow> 's option" where
  "stable D s n =
     (let (s, a) = stable_blocks D s n 0 stable_blockSize;
          s = insertionSort D s a n
      in stable_merges D s n stable_blockSize)"

definition sort_Stable :: "'s sort_Interface \<Rightarrow> 's \<Rightarrow> 's option" where
  "sort_Stable D s = stable D s (Len D s)"

section \<open>Searching\<close>

definition sort_Search :: "nat \<Rightarrow> (nat \<Rightarrow> bool) \<Rightarrow> nat" where
  "sort_Search n f = bsearch (\<lambda>h. \<not> f h) 0 n"

definition sort_Find :: "nat \<Rightarrow> (nat \<Rightarrow> int) \<Rightarrow> nat \<times> bool" where
  "sort_Find n cmp = (let i = bsearch (\<lambda>h. cmp h > 0) 0 n in (i, i < n \<and> cmp i = 0))"

section \<open>Slices as collections\<close>

text \<open>
  \<open>IntSlice\<close> and \<open>StringSlice\<close>.  A Go \<open>int\<close> is a 64-bit word compared as a signed number;
  strings are compared byte by byte.
\<close>

definition swap_elems :: "'a list \<Rightarrow> nat \<Rightarrow> nat \<Rightarrow> 'a list" where
  "swap_elems x i j = x[i := x ! j, j := x ! i]"

definition IntSlice :: "uint64 list sort_Interface" where
  "IntSlice = \<lparr>Len = length, Less = \<lambda>x i j. sint (x ! i) < sint (x ! j), Swap = swap_elems\<rparr>"

fun string_less :: "gostring \<Rightarrow> gostring \<Rightarrow> bool" where
  "string_less [] [] = False"
| "string_less [] (c # cs) = True"
| "string_less (b # bs) [] = False"
| "string_less (b # bs) (c # cs) = (if b = c then string_less bs cs else b < c)"

definition StringSlice :: "gostring list sort_Interface" where
  "StringSlice = \<lparr>Len = length, Less = \<lambda>x i j. string_less (x ! i) (x ! j), Swap = swap_elems\<rparr>"

definition SearchInts :: "uint64 list \<Rightarrow> uint64 \<Rightarrow> nat" where
  "SearchInts a x = sort_Search (length a) (\<lambda>i. sint (a ! i) \<ge> sint x)"

definition SearchStrings :: "gostring list \<Rightarrow> gostring \<Rightarrow> nat" where
  "SearchStrings a x = sort_Search (length a) (\<lambda>i. \<not> string_less (a ! i) x)"

end
