(* ===== verification/Sort_Correct.thy ===== *)
theory Sort_Correct
  imports Sort Bits_Correct
begin

text \<open>
  Correctness of \<open>sort\<close>.  The contract a collection has to keep is the locale
  \<open>sort_data\<close>: a view of the state as a list, the three methods described on that view for
  indices in range, and a strict weak order.  Every algorithm of the package is verified once
  inside the locale, and the locale is interpreted on \<open>IntSlice\<close>, \<open>StringSlice\<close> and
  the reversal of either.
\<close>

section \<open>Lists changed on a range\<close>

definition perm_range :: "nat \<Rightarrow> nat \<Rightarrow> 'a list \<Rightarrow> 'a list \<Rightarrow> bool" where
  "perm_range a b xs ys \<longleftrightarrow>
     length ys = length xs \<and> (\<forall>i<length xs. i < a \<or> b \<le> i \<longrightarrow> ys ! i = xs ! i) \<and> mset ys = mset xs"

definition ordered :: "('a \<Rightarrow> 'a \<Rightarrow> bool) \<Rightarrow> nat \<Rightarrow> nat \<Rightarrow> 'a list \<Rightarrow> bool" where
  "ordered lt a b xs \<longleftrightarrow> (\<forall>i j. a \<le> i \<and> i < j \<and> j < b \<longrightarrow> \<not> lt (xs ! j) (xs ! i))"

lemma perm_range_refl [simp, intro]: "perm_range a b xs xs"
  by (simp add: perm_range_def)

lemma perm_range_trans: "perm_range a b xs ys \<Longrightarrow> perm_range a b ys zs \<Longrightarrow> perm_range a b xs zs"
  by (auto simp: perm_range_def)

lemma perm_range_mono: "perm_range a b xs ys \<Longrightarrow> a' \<le> a \<Longrightarrow> b \<le> b' \<Longrightarrow> perm_range a' b' xs ys"
  by (auto simp: perm_range_def)

lemma perm_range_sub:
  "perm_range a' b' xs ys \<Longrightarrow> perm_range a b ys zs \<Longrightarrow> a \<le> a' \<Longrightarrow> b' \<le> b \<Longrightarrow> perm_range a b xs zs"
  by (blast intro: perm_range_trans perm_range_mono)

lemma perm_range_sup:
  "perm_range a b xs ys \<Longrightarrow> perm_range a' b' ys zs \<Longrightarrow> a \<le> a' \<Longrightarrow> b' \<le> b \<Longrightarrow> perm_range a b xs zs"
  by (blast intro: perm_range_trans perm_range_mono)

lemma perm_range_length: "perm_range a b xs ys \<Longrightarrow> length ys = length xs"
  by (simp add: perm_range_def)

lemma perm_range_outside:
  "perm_range a b xs ys \<Longrightarrow> i < length xs \<Longrightarrow> i < a \<or> b \<le> i \<Longrightarrow> ys ! i = xs ! i"
  by (auto simp: perm_range_def)

lemma perm_range_mset: "perm_range a b xs ys \<Longrightarrow> mset ys = mset xs"
  by (simp add: perm_range_def)

lemma mset_slice:
  assumes "a \<le> b"
  shows "mset xs = mset (take a xs) + mset (take (b - a) (drop a xs)) + mset (drop b xs)"
proof -
  have "xs = take a xs @ take (b - a) (drop a xs) @ drop (b - a) (drop a xs)"
    by (simp only: append_take_drop_id)
  then have "mset xs = mset (take a xs @ take (b - a) (drop a xs) @ drop (b - a) (drop a xs))"
    by simp
  also have "drop (b - a) (drop a xs) = drop b xs" using assms by simp
  finally show ?thesis by simp
qed

lemma perm_range_slice:
  assumes "perm_range a b xs ys" "a \<le> b" "b \<le> length xs"
  shows "mset (take (b - a) (drop a ys)) = mset (take (b - a) (drop a xs))"
proof -
  have l: "length ys = length xs" using assms(1) by (rule perm_range_length)
  have "take a ys = take a xs" "drop b ys = drop b xs"
    using assms l by (auto intro!: nth_equalityI simp: perm_range_def)
  then show ?thesis
    using mset_slice [OF assms(2), of xs] mset_slice [OF assms(2), of ys] perm_range_mset [OF assms(1)]
    by simp
qed

lemma slice_nth:
  assumes "b \<le> length xs"
  shows "set (take (b - a) (drop a xs)) = {xs ! i | i. a \<le> i \<and> i < b}"
proof (intro set_eqI iffI)
  fix x assume "x \<in> set (take (b - a) (drop a xs))"
  then obtain k where "k < b - a" "x = xs ! (a + k)"
    using assms by (auto simp: in_set_conv_nth)
  then show "x \<in> {xs ! i | i. a \<le> i \<and> i < b}" by (intro CollectI exI [of _ "a + k"]) auto
next
  fix x assume "x \<in> {xs ! i | i. a \<le> i \<and> i < b}"
  then obtain i where "a \<le> i" "i < b" "x = xs ! i" by auto
  then show "x \<in> set (take (b - a) (drop a xs))"
    using assms by (auto simp: in_set_conv_nth intro!: exI [of _ "i - a"])
qed

lemma perm_range_nth:
  assumes "perm_range a b xs ys" "b \<le> length xs" "a \<le> i" "i < b"
  obtains k where "a \<le> k" "k < b" "ys ! i = xs ! k"
proof -
  have "set (take (b - a) (drop a ys)) = set (take (b - a) (drop a xs))"
    using perm_range_slice [OF assms(1)] assms by (metis less_imp_le order_trans set_mset_mset)
  moreover have "b \<le> length ys" using assms by (simp add: perm_range_length)
  ultimately have "ys ! i \<in> {xs ! k | k. a \<le> k \<and> k < b}"
    using assms(2-4) unfolding slice_nth [OF assms(2)] slice_nth [OF \<open>b \<le> length ys\<close>] by blast
  then show thesis using that by blast
qed

lemma length_swap_elems [simp]: "length (swap_elems xs i j) = length xs"
  by (simp add: swap_elems_def)

lemma nth_swap_elems:
  "i < length xs \<Longrightarrow> j < length xs \<Longrightarrow>
    swap_elems xs i j ! k = (if k = j then xs ! i else if k = i then xs ! j else xs ! k)"
  by (simp add: swap_elems_def nth_list_update)

lemma perm_range_swap:
  "a \<le> i \<Longrightarrow> i < b \<Longrightarrow> a \<le> j \<Longrightarrow> j < b \<Longrightarrow> b \<le> length xs \<Longrightarrow> perm_range a b xs (swap_elems xs i j)"
  by (auto simp: perm_range_def nth_swap_elems) (simp add: swap_elems_def mset_swap)

text \<open>
  A binary heap of size \<open>hi\<close> stored from index \<open>first\<close>, with the larger elements on top; only
  the nodes from \<open>k\<close> on need to dominate their children.
\<close>

abbreviation parent :: "nat \<Rightarrow> nat" where
  "parent c \<equiv> (c - 1) div 2"

definition heap_from :: "('a \<Rightarrow> 'a \<Rightarrow> bool) \<Rightarrow> nat \<Rightarrow> nat \<Rightarrow> nat \<Rightarrow> 'a list \<Rightarrow> bool" where
  "heap_from lt first hi k xs \<longleftrightarrow>
     (\<forall>c. 0 < c \<and> c < hi \<and> k \<le> parent c \<longrightarrow> \<not> lt (xs ! (first + parent c)) (xs ! (first + c)))"

lemma parent_less: "0 < c \<Longrightarrow> parent c < c"
  by (rule le_less_trans [OF div_le_dividend]) simp

lemma parent_eq: "0 < c \<Longrightarrow> parent c = r \<longleftrightarrow> c = 2 * r + 1 \<or> c = 2 * r + 2"
  by auto

section \<open>The contract of a sortable collection\<close>

locale sort_data =
  fixes D :: "'s sort_Interface" and view :: "'s \<Rightarrow> 'a list" and lt :: "'a \<Rightarrow> 'a \<Rightarrow> bool"
  assumes Len_view: "Len D s = length (view s)"
    and Less_view: "i < length (view s) \<Longrightarrow> j < length (view s) \<Longrightarrow>
      Less D s i j \<longleftrightarrow> lt (view s ! i) (view s ! j)"
    and Swap_view: "i < length (view s) \<Longrightarrow> j < length (view s) \<Longrightarrow>
      view (Swap D s i j) = swap_elems (view s) i j"
    and lt_asym: "lt x y \<Longrightarrow> \<not> lt y x"
    and lt_negtrans: "lt x z \<Longrightarrow> lt x y \<or> lt y z"
begin

lemma lt_irrefl [simp]: "\<not> lt x x"
  using lt_asym by blast

lemma le_trans: "\<not> lt y x \<Longrightarrow> \<not> lt z y \<Longrightarrow> \<not> lt z x"
  using lt_negtrans by blast

lemma lt_trans: "lt x y \<Longrightarrow> lt y z \<Longrightarrow> lt x z"
  using lt_negtrans lt_asym by blast

lemma lt_le: "lt x y \<Longrightarrow> \<not> lt z y \<Longrightarrow> lt x z"
  using lt_negtrans by blast

lemma le_lt: "\<not> lt y x \<Longrightarrow> lt y z \<Longrightarrow> lt x z"
  using lt_negtrans by blast

text \<open>Swapping two elements of a range.\<close>

lemma Swap_perm:
  assumes "a \<le> i" "i < b" "a \<le> j" "j < b" "b \<le> length (view s)"
  shows "perm_range a b (view s) (view (Swap D s i j))"
  using assms by (simp add: Swap_view perm_range_swap)

lemma Swap_length: "i < length (view s) \<Longrightarrow> j < length (view s) \<Longrightarrow> length (view (Swap D s i j)) = length (view s)"
  by (simp add: Swap_view)

lemma Swap_nth:
  "i < length (view s) \<Longrightarrow> j < length (view s) \<Longrightarrow>
    view (Swap D s i j) ! k = (if k = j then view s ! i else if k = i then view s ! j else view s ! k)"
  by (simp add: Swap_view nth_swap_elems)

section \<open>Insertion sort\<close>

lemma insertionSort_inner_correct:
  assumes "a \<le> j" "j \<le> i" "i < length (view s)"
    and "\<forall>p q. a \<le> p \<and> p < q \<and> q \<le> i \<and> p \<noteq> j \<and> q \<noteq> j \<longrightarrow> \<not> lt (view s ! q) (view s ! p)"
    and "\<forall>q. j < q \<and> q \<le> i \<longrightarrow> lt (view s ! j) (view s ! q)"
  shows "perm_range a (Suc i) (view s) (view (insertionSort_inner D s a j)) \<and>
    ordered lt a (Suc i) (view (insertionSort_inner D s a j))"
  using assms
proof (induction j arbitrary: s)
  case 0
  have "ordered lt a (Suc i) (view s)"
    unfolding ordered_def
  proof (intro allI impI)
    fix p q assume "a \<le> p \<and> p < q \<and> q < Suc i"
    then show "\<not> lt (view s ! q) (view s ! p)" using "0.prems"(4,5) lt_asym by (cases "p = 0") auto
  qed
  then show ?case by (subst (1 2) insertionSort_inner.simps) auto
next
  case (Suc j)
  note prems = Suc.prems
  show ?case
  proof (cases "a < Suc j \<and> Less D s (Suc j) j")
    case True
    define t where "t = Swap D s (Suc j) j"
    have nth: "view t ! k = (if k = j then view s ! Suc j else if k = Suc j then view s ! j else view s ! k)" for k
      unfolding t_def using prems(2,3) by (simp add: Swap_nth)
    have less: "lt (view s ! Suc j) (view s ! j)" using True prems(2,3) by (simp add: Less_view)
    have "perm_range a (Suc i) (view t) (view (insertionSort_inner D t a j)) \<and>
      ordered lt a (Suc i) (view (insertionSort_inner D t a j))"
    proof (rule Suc.IH)
      show "i < length (view t)" unfolding t_def using prems(2,3) by (simp add: Swap_length)
      show "\<forall>p q. a \<le> p \<and> p < q \<and> q \<le> i \<and> p \<noteq> j \<and> q \<noteq> j \<longrightarrow> \<not> lt (view t ! q) (view t ! p)"
      proof (intro allI impI)
        fix p q assume pq: "a \<le> p \<and> p < q \<and> q \<le> i \<and> p \<noteq> j \<and> q \<noteq> j"
        then show "\<not> lt (view t ! q) (view t ! p)"
          using prems(4) [rule_format, of "if p = Suc j then j else p" "if q = Suc j then j else q"] True
          by (auto simp: nth split: if_splits)
      qed
      show "\<forall>q. j < q \<and> q \<le> i \<longrightarrow> lt (view t ! j) (view t ! q)"
        using prems(5) less by (auto simp: nth)
    qed (use True prems in auto)
    moreover have "perm_range a (Suc i) (view s) (view t)"
      unfolding t_def using True prems by (intro Swap_perm) auto
    ultimately show ?thesis
      using True by (subst (1 2) insertionSort_inner.simps) (auto simp: t_def intro: perm_range_trans)
  next
    case False
    have le: "\<not> lt (view s ! Suc j) (view s ! p)" if "a \<le> p" "p < Suc j" for p
    proof (cases "p = j")
      case True
      then show ?thesis using False that prems by (simp add: Less_view)
    next
      case neq: False
      then have "\<not> lt (view s ! j) (view s ! p)" using that prems(2,4) by simp
      moreover have "\<not> lt (view s ! Suc j) (view s ! j)" using False that prems by (simp add: Less_view)
      ultimately show ?thesis by (rule le_trans)
    qed
    have "ordered lt a (Suc i) (view s)"
      unfolding ordered_def
    proof (intro allI impI)
      fix p q assume "a \<le> p \<and> p < q \<and> q < Suc i"
      then show "\<not> lt (view s ! q) (view s ! p)"
        using prems(4) [rule_format, of p q] prems(5) [rule_format, of q] le [of p] lt_asym
        by (cases "p = Suc j"; cases "q = Suc j") simp_all
    qed
    then show ?thesis using False by (subst (1 2) insertionSort_inner.simps) auto
  qed
qed

lemma insertionSort_outer_correct:
  "a < i \<Longrightarrow> b \<le> length (view s) \<Longrightarrow> ordered lt a i (view s) \<Longrightarrow> i \<le> b \<Longrightarrow>
    perm_range a b (view s) (view (insertionSort_outer D s a b i)) \<and>
    ordered lt a b (view (insertionSort_outer D s a b i))"
proof (induction "b - i" arbitrary: s i)
  case 0
  then show ?case by (subst (1 2) insertionSort_outer.simps) auto
next
  case (Suc n)
  define t where "t = insertionSort_inner D s a i"
  have "perm_range a (Suc i) (view s) (view t) \<and> ordered lt a (Suc i) (view t)"
    unfolding t_def using Suc.prems Suc.hyps(2)
    by (intro insertionSort_inner_correct) (auto simp: ordered_def)
  moreover have "perm_range a b (view t) (view (insertionSort_outer D t a b (Suc i))) \<and>
      ordered lt a b (view (insertionSort_outer D t a b (Suc i)))"
    using calculation Suc.prems Suc.hyps(2) by (intro Suc.hyps(1)) (auto simp: perm_range_length)
  ultimately show ?case
    using Suc.hyps(2)
    by (subst (1 2) insertionSort_outer.simps)
      (auto simp: t_def [symmetric] intro: perm_range_sub)
qed

lemma insertionSort_correct:
  assumes "a \<le> b" "b \<le> length (view s)"
  shows "perm_range a b (view s) (view (insertionSort D s a b))"
    and "ordered lt a b (view (insertionSort D s a b))"
proof -
  have "perm_range a b (view s) (view (insertionSort D s a b)) \<and>
      ordered lt a b (view (insertionSort D s a b))"
  proof (cases "a = b")
    case True
    then show ?thesis unfolding insertionSort_def by (subst (1 2) insertionSort_outer.simps) (auto simp: ordered_def)
  next
    case False
    then show ?thesis unfolding insertionSort_def using assms
      by (intro insertionSort_outer_correct) (auto simp: ordered_def)
  qed
  then show "perm_range a b (view s) (view (insertionSort D s a b))"
    "ordered lt a b (view (insertionSort D s a b))" by auto
qed

section \<open>Heap sort\<close>

text \<open>
  \<open>siftDown\<close> repairs a heap that is violated only between \<open>root\<close> and its children.  One more
  node \<open>e\<close>, at or above \<open>root\<close>, may be out of order with its own parent and stays so.
\<close>

lemma siftDown_except:
  assumes "first + hi \<le> length (view s)" "k \<le> root"
    and "\<forall>c. 0 < c \<and> c < hi \<and> k \<le> parent c \<and> parent c \<noteq> root \<and> c \<noteq> e \<longrightarrow>
      \<not> lt (view s ! (first + parent c)) (view s ! (first + c))"
    and "\<forall>c. 0 < c \<and> c < hi \<and> parent c = root \<and> 0 < root \<and> k \<le> parent root \<longrightarrow>
      \<not> lt (view s ! (first + parent root)) (view s ! (first + c))"
    and "e \<le> root"
  shows "perm_range (first + k) (first + hi) (view s) (view (siftDown D s root hi first)) \<and>
    (\<forall>c. 0 < c \<and> c < hi \<and> k \<le> parent c \<and> c \<noteq> e \<longrightarrow>
      \<not> lt (view (siftDown D s root hi first) ! (first + parent c)) (view (siftDown D s root hi first) ! (first + c)))"
  using assms
proof (induction "hi - root" arbitrary: s root rule: less_induct)
  case less
  note prems = less.prems
  define child where "child = (if 2 * root + 1 + 1 < hi \<and> Less D s (first + (2 * root + 1)) (first + (2 * root + 1) + 1)
    then 2 * root + 1 + 1 else 2 * root + 1)"
  have eq: "siftDown D s root hi first =
      (if 2 * root + 1 \<ge> hi then s else if \<not> Less D s (first + root) (first + child) then s
       else siftDown D (Swap D s (first + root) (first + child)) child hi first)"
    by (subst siftDown.simps) (simp only: Let_def child_def)
  show ?case
  proof (cases "2 * root + 1 \<ge> hi")
    case True
    then have "\<forall>c. 0 < c \<and> c < hi \<and> k \<le> parent c \<and> c \<noteq> e \<longrightarrow>
        \<not> lt (view s ! (first + parent c)) (view s ! (first + c))"
      using prems(3) by auto
    then show ?thesis using True by (simp add: eq)
  next
    case False
    then have c: "root < child" "child < hi" "parent child = root" "0 < child" by (auto simp: child_def)
    have big: "\<not> lt (view s ! (first + child)) (view s ! (first + c))"
      if "0 < c" "c < hi" "parent c = root" for c
    proof -
      have "c = 2 * root + 1 \<or> c = 2 * root + 1 + 1" using parent_eq [of c root] that by auto
      then show ?thesis using that(2) False prems(1) lt_asym by (auto simp: child_def Less_view)
    qed
    show ?thesis
    proof (cases "Less D s (first + root) (first + child)")
      case True
      then have lt: "lt (view s ! (first + root)) (view s ! (first + child))"
        using c prems(1) by (simp add: Less_view)
      define t where "t = Swap D s (first + root) (first + child)"
      have nth: "view t ! (first + i) = (if i = child then view s ! (first + root)
          else if i = root then view s ! (first + child) else view s ! (first + i))" for i
        unfolding t_def using c prems(1) by (simp add: Swap_nth)
      have p: "perm_range (first + k) (first + hi) (view s) (view t)"
        unfolding t_def using c prems(1,2) by (intro Swap_perm) auto
      have "perm_range (first + k) (first + hi) (view t) (view (siftDown D t child hi first)) \<and>
        (\<forall>c. 0 < c \<and> c < hi \<and> k \<le> parent c \<and> c \<noteq> e \<longrightarrow>
          \<not> lt (view (siftDown D t child hi first) ! (first + parent c)) (view (siftDown D t child hi first) ! (first + c)))"
      proof (rule less.hyps)
        show "\<forall>c. 0 < c \<and> c < hi \<and> k \<le> parent c \<and> parent c \<noteq> child \<and> c \<noteq> e \<longrightarrow>
            \<not> lt (view t ! (first + parent c)) (view t ! (first + c))"
        proof (intro allI impI)
          fix d assume d: "0 < d \<and> d < hi \<and> k \<le> parent d \<and> parent d \<noteq> child \<and> d \<noteq> e"
          show "\<not> lt (view t ! (first + parent d)) (view t ! (first + d))"
          proof (cases "parent d = root")
            case True
            then have "d \<noteq> root" using d by auto
            then show ?thesis using True d big lt lt_asym c by (auto simp: nth)
          next
            case False
            then have "d \<noteq> child" using c(3) by auto
            then show ?thesis using False d prems(3,4) c by (cases "d = root") (auto simp: nth)
          qed
        qed
        show "\<forall>d. 0 < d \<and> d < hi \<and> parent d = child \<and> 0 < child \<and> k \<le> parent child \<longrightarrow>
            \<not> lt (view t ! (first + parent child)) (view t ! (first + d))"
        proof (intro allI impI)
          fix d assume d: "0 < d \<and> d < hi \<and> parent d = child \<and> 0 < child \<and> k \<le> parent child"
          then have "child < d" using parent_less [of d] by simp
          then have "d \<noteq> child" "d \<noteq> root" "d \<noteq> e" using c(1) prems(5) by auto
          then show "\<not> lt (view t ! (first + parent child)) (view t ! (first + d))"
            using d prems(2) prems(3) [rule_format, of d] c by (simp add: nth)
        qed
      qed (use c prems perm_range_length [OF p] in simp_all)
      then show ?thesis using True False p by (auto simp: eq t_def [symmetric] intro: perm_range_trans)
    next
      case noless: False
      then have "\<not> lt (view s ! (first + root)) (view s ! (first + child))"
        using c prems(1) by (simp add: Less_view)
      then have "\<forall>c. 0 < c \<and> c < hi \<and> k \<le> parent c \<and> c \<noteq> e \<longrightarrow>
          \<not> lt (view s ! (first + parent c)) (view s ! (first + c))"
        using prems(3) big le_trans by blast
      then show ?thesis using noless by (simp add: eq)
    qed
  qed
qed

lemma siftDown_correct:
  assumes "first + hi \<le> length (view s)" "k \<le> root"
    and "\<forall>c. 0 < c \<and> c < hi \<and> k \<le> parent c \<and> parent c \<noteq> root \<longrightarrow>
      \<not> lt (view s ! (first + parent c)) (view s ! (first + c))"
    and "\<forall>c. 0 < c \<and> c < hi \<and> parent c = root \<and> 0 < root \<and> k \<le> parent root \<longrightarrow>
      \<not> lt (view s ! (first + parent root)) (view s ! (first + c))"
  shows "perm_range (first + k) (first + hi) (view s) (view (siftDown D s root hi first)) \<and>
    heap_from lt first hi k (view (siftDown D s root hi first))"
  unfolding heap_from_def using siftDown_except [of first hi s k root 0] assms by simp

lemma heapSort_build_correct:
  "first + hi \<le> length (view s) \<Longrightarrow> heap_from lt first hi (Suc i) (view s) \<Longrightarrow>
    perm_range first (first + hi) (view s) (view (heapSort_build D hi first i s)) \<and>
    heap_from lt first hi 0 (view (heapSort_build D hi first i s))"
proof (induction i arbitrary: s)
  case 0
  then show ?case using siftDown_correct [of first hi s 0 0] by (auto simp: heap_from_def)
next
  case (Suc i)
  define t where "t = siftDown D s (Suc i) hi first"
  have "perm_range (first + Suc i) (first + hi) (view s) (view t) \<and> heap_from lt first hi (Suc i) (view t)"
    unfolding t_def using Suc.prems by (intro siftDown_correct) (auto simp: heap_from_def Suc_le_eq)
  moreover have "perm_range first (first + hi) (view t) (view (heapSort_build D hi first i t)) \<and>
      heap_from lt first hi 0 (view (heapSort_build D hi first i t))"
    using calculation Suc.prems(1) by (intro Suc.IH) (auto simp: perm_range_length)
  ultimately show ?case by (auto simp: t_def [symmetric] elim: perm_range_sub)
qed

lemma heap_root_max:
  assumes "heap_from lt first hi 0 xs" "c < hi"
  shows "\<not> lt (xs ! first) (xs ! (first + c))"
  using assms(2)
proof (induction c rule: less_induct)
  case (less c)
  show ?case
  proof (cases "c = 0")
    case False
    then have "\<not> lt (xs ! first) (xs ! (first + parent c))" using less by simp
    moreover have "\<not> lt (xs ! (first + parent c)) (xs ! (first + c))"
      using assms(1) less.prems False by (simp add: heap_from_def)
    ultimately show ?thesis using le_trans by blast
  qed simp
qed

text \<open>
  The invariant of the second loop: the first \<open>n\<close> elements form a heap, and the rest of
  the range is in order and not below any of them.
\<close>

lemma heapSort_pop_correct:
  assumes "first + hi \<le> length (view s)" "n \<le> hi" "heap_from lt first n 0 (view s)"
    "ordered lt (first + n) (first + hi) (view s)"
    "\<forall>i j. i < n \<and> n \<le> j \<and> j < hi \<longrightarrow> \<not> lt (view s ! (first + j)) (view s ! (first + i))"
  shows "perm_range first (first + hi) (view s) (view (heapSort_pop D first n s)) \<and>
    ordered lt first (first + hi) (view (heapSort_pop D first n s))"
  using assms
proof (induction n arbitrary: s)
  case 0
  then show ?case by simp
next
  case (Suc n)
  note prems = Suc.prems
  define t where "t = Swap D s first (first + n)"
  define u where "u = siftDown D t 0 n first"
  have nth: "view t ! (first + i) = (if i = n then view s ! first
      else if i = 0 then view s ! (first + n) else view s ! (first + i))" for i
    unfolding t_def using prems(1,2) by (simp add: Swap_nth)
  have st: "perm_range first (first + Suc n) (view s) (view t)"
    unfolding t_def using prems(1,2) by (intro Swap_perm) auto
  have "perm_range (first + 0) (first + n) (view t) (view u) \<and> heap_from lt first n 0 (view u)"
    unfolding u_def
  proof (rule siftDown_correct)
    show "\<forall>c. 0 < c \<and> c < n \<and> 0 \<le> parent c \<and> parent c \<noteq> 0 \<longrightarrow>
        \<not> lt (view t ! (first + parent c)) (view t ! (first + c))"
      using prems(3) by (auto simp: nth heap_from_def)
  qed (use prems st in \<open>auto simp: perm_range_length\<close>)
  then have tu: "perm_range first (first + n) (view t) (view u)" and hu: "heap_from lt first n 0 (view u)" by auto
  have len: "length (view t) = length (view s)" using st by (rule perm_range_length)
  have high: "view u ! (first + j) = view t ! (first + j)" if "n \<le> j" "j < hi" for j
    using perm_range_outside [OF tu, of "first + j"] that prems(1) len by simp
  have su: "perm_range first (first + Suc n) (view s) (view u)" by (rule perm_range_sup [OF st tu]) auto
  have from_s: "\<exists>k<Suc n. view u ! (first + i) = view s ! (first + k)" if i: "i < n" for i
  proof -
    obtain k where "first \<le> k" "k < first + Suc n" "view u ! (first + i) = view s ! k"
      by (rule perm_range_nth [OF su, of "first + i"]) (use i prems(1,2) in auto)
    then show ?thesis by (intro exI [of _ "k - first"]) auto
  qed
  have low: "\<not> lt (view s ! first) (view u ! (first + i))" if i: "i < n" for i
  proof -
    obtain k where "k < Suc n" "view u ! (first + i) = view s ! (first + k)" using from_s [OF i] by blast
    then show ?thesis using heap_root_max [OF prems(3), of k] by simp
  qed
  have "perm_range first (first + hi) (view u) (view (heapSort_pop D first n u)) \<and>
    ordered lt first (first + hi) (view (heapSort_pop D first n u))"
  proof (rule Suc.IH)
    show "ordered lt (first + n) (first + hi) (view u)"
      unfolding ordered_def
    proof (intro allI impI)
      fix p q assume pq: "first + n \<le> p \<and> p < q \<and> q < first + hi"
      define i j where "i = p - first" and "j = q - first"
      have ij: "p = first + i" "q = first + j" "n \<le> i" "i < j" "j < hi"
        using pq by (auto simp: i_def j_def)
      then show "\<not> lt (view u ! q) (view u ! p)"
        using prems(4) [unfolded ordered_def, rule_format, of p q] prems(5) [rule_format, of 0 j]
        by (auto simp: high nth)
    qed
    show "\<forall>i j. i < n \<and> n \<le> j \<and> j < hi \<longrightarrow> \<not> lt (view u ! (first + j)) (view u ! (first + i))"
    proof (intro allI impI, elim conjE)
      fix i j assume ij: "i < n" "n \<le> j" "j < hi"
      obtain k where "k < Suc n" "view u ! (first + i) = view s ! (first + k)" using from_s [OF ij(1)] by blast
      then show "\<not> lt (view u ! (first + j)) (view u ! (first + i))"
        using ij low [OF ij(1)] prems(5) [rule_format, of k j] by (cases "j = n") (auto simp: high nth)
    qed
  qed (use prems hu len tu in \<open>auto simp: perm_range_length\<close>)
  moreover have "perm_range first (first + hi) (view s) (view u)"
    using st tu prems(2) by (blast intro: perm_range_trans perm_range_mono add_left_mono Suc_leD order_refl)
  ultimately show ?case
    by (auto simp: t_def [symmetric] u_def [symmetric] intro: perm_range_trans)
qed

lemma heapSort_correct:
  assumes "a \<le> b" "b \<le> length (view s)"
  shows "perm_range a b (view s) (view (heapSort D s a b))" "ordered lt a b (view (heapSort D s a b))"
proof -
  define t where "t = heapSort_build D (b - a) a ((b - a - 1) div 2) s"
  have "heap_from lt a (b - a) (Suc ((b - a - 1) div 2)) (view s)"
    by (auto simp: heap_from_def)
  then have t: "perm_range a b (view s) (view t)" "heap_from lt a (b - a) 0 (view t)"
    using heapSort_build_correct [of a "b - a" s] assms by (auto simp: t_def)
  have "perm_range a (a + (b - a)) (view t) (view (heapSort_pop D a (b - a) t)) \<and>
      ordered lt a (a + (b - a)) (view (heapSort_pop D a (b - a) t))"
    using t assms perm_range_length [OF t(1)] by (intro heapSort_pop_correct) (auto simp: ordered_def)
  moreover have "heapSort D s a b = heapSort_pop D a (b - a) t" by (simp add: heapSort_def Let_def t_def)
  ultimately show "perm_range a b (view s) (view (heapSort D s a b))" "ordered lt a b (view (heapSort D s a b))"
    using perm_range_trans [OF t(1)] assms(1) by simp_all
qed

section \<open>Partitioning\<close>

lemma scan_up_all: "i \<le> k \<Longrightarrow> k < scan_up p i j \<Longrightarrow> p k"
proof (induction p i j rule: scan_up.induct)
  case (1 p i j)
  show ?case
  proof (cases "i \<le> j \<and> p i")
    case True
    then have "scan_up p i j = scan_up p (i + 1) j" by (subst scan_up.simps) simp
    then show ?thesis using 1 True by (cases "i = k") auto
  next
    case False
    then have "scan_up p i j = i" by (subst scan_up.simps) auto
    then show ?thesis using 1 by simp
  qed
qed

lemma scan_down_all: "scan_down p i j < k \<Longrightarrow> k \<le> j \<Longrightarrow> p k"
proof (induction p i j rule: scan_down.induct)
  case (1 p i j)
  show ?case
  proof (cases "0 < j \<and> i \<le> j \<and> p j")
    case True
    then have "scan_down p i j = scan_down p i (j - 1)" by (subst scan_down.simps) simp
    then show ?thesis using 1 True by (cases "j = k") auto
  next
    case False
    then have "scan_down p i j = j" by (subst scan_down.simps) auto
    then show ?thesis using 1 by simp
  qed
qed

lemma partition_loop_correct:
  assumes "a < i" "i \<le> Suc j" "j < b" "b \<le> length (view s)"
    and "\<forall>k. a < k \<and> k < i \<longrightarrow> lt (view s ! k) (view s ! a)"
    and "\<forall>k. j < k \<and> k < b \<longrightarrow> \<not> lt (view s ! k) (view s ! a)"
    and "partition_loop D s a i j = (t, m)"
  shows "perm_range (Suc a) b (view s) (view t) \<and> a \<le> m \<and> m < b \<and>
    (\<forall>k. a < k \<and> k \<le> m \<longrightarrow> lt (view t ! k) (view t ! a)) \<and>
    (\<forall>k. m < k \<and> k < b \<longrightarrow> \<not> lt (view t ! k) (view t ! a))"
  using assms
proof (induction "Suc j - i" arbitrary: s i j rule: less_induct)
  case less
  note prems = less.prems
  define i' where "i' = scan_up (\<lambda>i. Less D s i a) i j"
  define j' where "j' = scan_down (\<lambda>j. \<not> Less D s j a) i' j"
  have i0: "0 < i" using prems(1) by simp
  note sc = scans_cross [OF i0 prems(2), of "\<lambda>i. Less D s i a", folded i'_def, folded j'_def]
  have eq: "partition_loop D s a i j =
      (if i' > j' then (s, j') else partition_loop D (Swap D s i' j') a (i' + 1) (j' - 1))"
    by (subst partition_loop.simps) (simp only: Let_def i'_def j'_def)
  have L: "Less D s k a \<longleftrightarrow> lt (view s ! k) (view s ! a)" if "k < b" for k
    using that prems(1-4) by (intro Less_view) auto
  have lo: "lt (view s ! k) (view s ! a)" if "a < k" "k < i'" for k
    using that scan_up_all [of i k "\<lambda>i. Less D s i a" j] prems(5) sc(2,3) prems(3) L [of k]
    by (cases "k < i") (auto simp: i'_def [symmetric])
  have hi: "\<not> lt (view s ! k) (view s ! a)" if "j' < k" "k < b" for k
    using that scan_down_all [of "\<lambda>j. \<not> Less D s j a" i' j k] prems(6) L [of k]
    by (cases "j < k") (auto simp: j'_def [symmetric])
  show ?case
  proof (cases "i' > j'")
    case True
    then show ?thesis using prems(1,3,7) sc lo hi by (auto simp: eq)
  next
    case False
    then have ij: "i' < j'" using sc(4) by simp
    define u where "u = Swap D s i' j'"
    have r: "i' < length (view s)" "j' < length (view s)" using ij sc prems(3,4) by auto
    have nth: "view u ! k = (if k = j' then view s ! i' else if k = i' then view s ! j' else view s ! k)" for k
      unfolding u_def using r by (rule Swap_nth)
    have su: "perm_range (Suc a) b (view s) (view u)"
      unfolding u_def using ij sc prems by (intro Swap_perm) auto
    have p: "lt (view s ! j') (view s ! a)"
      using scan_down_stop [of i' "\<lambda>j. \<not> Less D s j a" j] ij sc prems(1,3) L [of j'] by (auto simp: j'_def [symmetric])
    have q: "\<not> lt (view s ! i') (view s ! a)"
      using scan_up_stop [of "\<lambda>i. Less D s i a" i j] ij sc prems(1,3) L [of i'] by (auto simp: i'_def [symmetric])
    have a: "a \<noteq> i'" "a \<noteq> j'" using sc prems(1) ij by auto
    have "perm_range (Suc a) b (view u) (view t) \<and> a \<le> m \<and> m < b \<and>
      (\<forall>k. a < k \<and> k \<le> m \<longrightarrow> lt (view t ! k) (view t ! a)) \<and>
      (\<forall>k. m < k \<and> k < b \<longrightarrow> \<not> lt (view t ! k) (view t ! a))"
    proof (rule less.hyps)
      show "\<forall>k. a < k \<and> k < i' + 1 \<longrightarrow> lt (view u ! k) (view u ! a)"
        using lo p a ij by (auto simp: nth less_Suc_eq)
      show "\<forall>k. j' - 1 < k \<and> k < b \<longrightarrow> \<not> lt (view u ! k) (view u ! a)"
      proof (intro allI impI, elim conjE)
        fix k assume "j' - 1 < k" "k < b"
        then show "\<not> lt (view u ! k) (view u ! a)"
          using hi [of k] q a ij by (cases "k = j'") (auto simp: nth)
      qed
      show "partition_loop D u a (i' + 1) (j' - 1) = (t, m)"
        using prems(7) False by (simp add: eq u_def)
    qed (use ij sc prems perm_range_length [OF su] in auto)
    then show ?thesis using perm_range_trans [OF su] by blast
  qed
qed

lemma partition_sort_eq:
  "\<exists>ap. partition_sort D s a b pivot =
     (case partition_loop D (Swap D s a pivot) a (a + 1) (b - 1) of (t, j) \<Rightarrow> (Swap D t j a, j, ap))"
  by (subst partition_loop.simps) (auto simp: partition_sort_def Let_def split: prod.split)

lemma partition_sort_correct:
  assumes "a \<le> pivot" "pivot < b" "b \<le> length (view s)" "partition_sort D s a b pivot = (t, mid, ap)"
  shows "perm_range a b (view s) (view t)" "a \<le> mid" "mid < b"
    "\<forall>k. a \<le> k \<and> k < mid \<longrightarrow> lt (view t ! k) (view t ! mid)"
    "\<forall>k. mid < k \<and> k < b \<longrightarrow> \<not> lt (view t ! k) (view t ! mid)"
proof -
  define u where "u = Swap D s a pivot"
  obtain v j where vj: "partition_loop D u a (a + 1) (b - 1) = (v, j)" by (rule prod.exhaust)
  obtain ap' where "partition_sort D s a b pivot = (Swap D v j a, j, ap')"
    using partition_sort_eq [of s a b pivot, folded u_def, unfolded vj prod.case] by blast
  then have t: "t = Swap D v mid a" and v: "partition_loop D u a (a + 1) (b - 1) = (v, mid)"
    using assms(4) vj by simp_all
  have su: "perm_range a b (view s) (view u)" unfolding u_def using assms by (intro Swap_perm) auto
  have uv: "perm_range (Suc a) b (view u) (view v) \<and> a \<le> mid \<and> mid < b \<and>
    (\<forall>k. a < k \<and> k \<le> mid \<longrightarrow> lt (view v ! k) (view v ! a)) \<and>
    (\<forall>k. mid < k \<and> k < b \<longrightarrow> \<not> lt (view v ! k) (view v ! a))"
    using assms(1-3) perm_range_length [OF su] v by (intro partition_loop_correct) auto
  then have sv: "perm_range a b (view s) (view v)" by (intro perm_range_sup [OF su]) auto
  have r: "mid < length (view v)" "a < length (view v)" using perm_range_length [OF sv] uv assms by auto
  have nth: "view t ! k = (if k = a then view v ! mid else if k = mid then view v ! a else view v ! k)" for k
    unfolding t using r by (rule Swap_nth)
  have "perm_range a b (view v) (view t)"
    unfolding t using uv assms perm_range_length [OF sv] by (intro Swap_perm) auto
  then show "perm_range a b (view s) (view t)" by (rule perm_range_trans [OF sv])
  show "a \<le> mid" "mid < b" using uv by auto
  show "\<forall>k. a \<le> k \<and> k < mid \<longrightarrow> lt (view t ! k) (view t ! mid)"
    using uv by (auto simp: nth)
  show "\<forall>k. mid < k \<and> k < b \<longrightarrow> \<not> lt (view t ! k) (view t ! mid)"
    using uv by (auto simp: nth)
qed

lemma partitionEqual_loop_correct:
  assumes "a < i" "i \<le> Suc j" "j < b" "b \<le> length (view s)"
    and "\<forall>k. a < k \<and> k < i \<longrightarrow> \<not> lt (view s ! a) (view s ! k)"
    and "\<forall>k. j < k \<and> k < b \<longrightarrow> lt (view s ! a) (view s ! k)"
    and "partitionEqual_loop D s a i j = (t, m)"
  shows "perm_range (Suc a) b (view s) (view t) \<and> a < m \<and> m \<le> b \<and>
    (\<forall>k. a < k \<and> k < m \<longrightarrow> \<not> lt (view t ! a) (view t ! k)) \<and>
    (\<forall>k. m \<le> k \<and> k < b \<longrightarrow> lt (view t ! a) (view t ! k))"
  using assms
proof (induction "Suc j - i" arbitrary: s i j rule: less_induct)
  case less
  note prems = less.prems
  define i' where "i' = scan_up (\<lambda>i. \<not> Less D s a i) i j"
  define j' where "j' = scan_down (\<lambda>j. \<not> \<not> Less D s a j) i' j"
  have i0: "0 < i" using prems(1) by simp
  note sc = scans_cross [OF i0 prems(2), of "\<lambda>i. \<not> Less D s a i", folded i'_def, folded j'_def]
  have eq: "partitionEqual_loop D s a i j =
      (if i' > j' then (s, i') else partitionEqual_loop D (Swap D s i' j') a (i' + 1) (j' - 1))"
    by (subst partitionEqual_loop.simps) (simp only: Let_def i'_def j'_def not_not)
  have L: "Less D s a k \<longleftrightarrow> lt (view s ! a) (view s ! k)" if "k < b" for k
    using that prems(1-4) by (intro Less_view) auto
  have lo: "\<not> lt (view s ! a) (view s ! k)" if "a < k" "k < i'" for k
    using that scan_up_all [of i k "\<lambda>i. \<not> Less D s a i" j] prems(5) sc(2,3) prems(3) L [of k]
    by (cases "k < i") (auto simp: i'_def [symmetric])
  have hi: "lt (view s ! a) (view s ! k)" if "j' < k" "k < b" for k
    using that scan_down_all [of "\<lambda>j. \<not> \<not> Less D s a j" i' j k, folded j'_def] prems(6) L [of k]
    by (cases "j < k") auto
  show ?case
  proof (cases "i' > j'")
    case True
    then show ?thesis using prems(1,3,7) sc lo hi by (auto simp: eq)
  next
    case False
    then have ij: "i' < j'" using sc(4) by simp
    define u where "u = Swap D s i' j'"
    have r: "i' < length (view s)" "j' < length (view s)" using ij sc prems(3,4) by auto
    have nth: "view u ! k = (if k = j' then view s ! i' else if k = i' then view s ! j' else view s ! k)" for k
      unfolding u_def using r by (rule Swap_nth)
    have su: "perm_range (Suc a) b (view s) (view u)"
      unfolding u_def using ij sc prems by (intro Swap_perm) auto
    have p: "\<not> lt (view s ! a) (view s ! j')"
      using scan_down_stop [of i' "\<lambda>j. \<not> \<not> Less D s a j" j, folded j'_def] ij sc prems(1,3) L [of j'] by auto
    have q: "lt (view s ! a) (view s ! i')"
      using scan_up_stop [of "\<lambda>i. \<not> Less D s a i" i j] ij sc prems(1,3) L [of i'] by (auto simp: i'_def [symmetric])
    have a: "a \<noteq> i'" "a \<noteq> j'" using sc prems(1) ij by auto
    have "perm_range (Suc a) b (view u) (view t) \<and> a < m \<and> m \<le> b \<and>
      (\<forall>k. a < k \<and> k < m \<longrightarrow> \<not> lt (view t ! a) (view t ! k)) \<and>
      (\<forall>k. m \<le> k \<and> k < b \<longrightarrow> lt (view t ! a) (view t ! k))"
    proof (rule less.hyps)
      show "\<forall>k. a < k \<and> k < i' + 1 \<longrightarrow> \<not> lt (view u ! a) (view u ! k)"
        using lo p a ij by (auto simp: nth less_Suc_eq)
      show "\<forall>k. j' - 1 < k \<and> k < b \<longrightarrow> lt (view u ! a) (view u ! k)"
      proof (intro allI impI, elim conjE)
        fix k assume "j' - 1 < k" "k < b"
        then show "lt (view u ! a) (view u ! k)"
          using hi [of k] q a ij by (cases "k = j'") (auto simp: nth)
      qed
      show "partitionEqual_loop D u a (i' + 1) (j' - 1) = (t, m)"
        using prems(7) False by (simp add: eq u_def)
    qed (use ij sc prems perm_range_length [OF su] in auto)
    then show ?thesis using perm_range_trans [OF su] by blast
  qed
qed

lemma partitionEqual_correct:
  assumes "a \<le> pivot" "pivot < b" "b \<le> length (view s)"
    and min: "\<forall>k. a \<le> k \<and> k < b \<longrightarrow> \<not> lt (view s ! k) (view s ! pivot)"
    and eq: "partitionEqual D s a b pivot = (t, mid)"
  shows "perm_range a b (view s) (view t)" "a < mid" "mid \<le> b"
    "\<forall>i j. a \<le> i \<and> i < mid \<and> a \<le> j \<and> j < b \<longrightarrow> \<not> lt (view t ! j) (view t ! i)"
proof -
  define u where "u = Swap D s a pivot"
  have su: "perm_range a b (view s) (view u)" unfolding u_def using assms by (intro Swap_perm) auto
  have ut: "perm_range (Suc a) b (view u) (view t) \<and> a < mid \<and> mid \<le> b \<and>
    (\<forall>k. a < k \<and> k < mid \<longrightarrow> \<not> lt (view t ! a) (view t ! k)) \<and>
    (\<forall>k. mid \<le> k \<and> k < b \<longrightarrow> lt (view t ! a) (view t ! k))"
    using assms(1-3) perm_range_length [OF su] eq
    by (intro partitionEqual_loop_correct [of a "a + 1" "b - 1"]) (auto simp: partitionEqual_def u_def)
  then show st: "perm_range a b (view s) (view t)" by (intro perm_range_sup [OF su]) auto
  show "a < mid" "mid \<le> b" using ut by auto
  have a: "view t ! a = view s ! pivot"
    using ut perm_range_outside [of "Suc a" b "view u" "view t" a] perm_range_length [OF su] assms(1-3)
    by (auto simp: u_def Swap_nth)
  have ge: "\<not> lt (view t ! k) (view t ! a)" if k: "a \<le> k" "k < b" for k
  proof -
    obtain l where "a \<le> l" "l < b" "view t ! k = view s ! l"
      by (rule perm_range_nth [OF st assms(3) k])
    then show ?thesis using min a by simp
  qed
  show "\<forall>i j. a \<le> i \<and> i < mid \<and> a \<le> j \<and> j < b \<longrightarrow> \<not> lt (view t ! j) (view t ! i)"
  proof (intro allI impI, elim conjE)
    fix i j assume "a \<le> i" "i < mid" "a \<le> j" "j < b"
    moreover have "\<not> lt (view t ! a) (view t ! i)" using ut calculation by (cases "a = i") auto
    ultimately show "\<not> lt (view t ! j) (view t ! i)" using ge [of j] le_trans by blast
  qed
qed

section \<open>Partial insertion sort\<close>

text \<open>
  Every range that \<open>pdqsort\<close> is called on is bounded below by the element before it.  The
  left shift of \<open>partialInsertionSort\<close>, whose loop runs down to index 1 and not to the start
  of the range, depends on this bound to stay inside.
\<close>

lemma bounded_perm:
  assumes "perm_range a b (view s) (view t)" "b \<le> length (view s)"
    and "\<forall>k. 0 < a \<and> a \<le> k \<and> k < b \<longrightarrow> \<not> lt (view s ! k) (view s ! (a - 1))"
  shows "\<forall>k. 0 < a \<and> a \<le> k \<and> k < b \<longrightarrow> \<not> lt (view t ! k) (view t ! (a - 1))"
proof (intro allI impI, elim conjE)
  fix k assume k: "0 < a" "a \<le> k" "k < b"
  obtain l where "a \<le> l" "l < b" "view t ! k = view s ! l"
    by (rule perm_range_nth [OF assms(1,2) k(2,3)])
  moreover have "view t ! (a - 1) = view s ! (a - 1)"
    using perm_range_outside [OF assms(1), of "a - 1"] k assms(2) by auto
  ultimately show "\<not> lt (view t ! k) (view t ! (a - 1))" using assms(3) k(1) by simp
qed

lemma pis_left_eq:
  assumes "a \<le> j" "j < b" "b \<le> length (view s)"
    and "\<forall>k. 0 < a \<and> a \<le> k \<and> k < b \<longrightarrow> \<not> lt (view s ! k) (view s ! (a - 1))"
  shows "pis_left D j s = insertionSort_inner D s a j"
  using assms
proof (induction j arbitrary: s)
  case 0
  then show ?case by (subst insertionSort_inner.simps) simp
next
  case (Suc j)
  note prems = Suc.prems
  have L: "Less D s (Suc j) j \<longleftrightarrow> lt (view s ! Suc j) (view s ! j)"
    using prems(2,3) by (intro Less_view) auto
  show ?case
  proof (cases "a = Suc j")
    case True
    then have "\<not> Less D s (Suc j) j" using prems(2,4) L by auto
    then show ?thesis using True by (subst insertionSort_inner.simps) simp
  next
    case False
    then have aj: "a \<le> j" using prems(1) by simp
    define t where "t = Swap D s (Suc j) j"
    have st: "perm_range a b (view s) (view t)"
      unfolding t_def using aj prems by (intro Swap_perm) auto
    have "pis_left D j t = insertionSort_inner D t a j"
      using aj prems perm_range_length [OF st] bounded_perm [OF st prems(3,4)] by (intro Suc.IH) auto
    then show ?thesis using aj by (subst insertionSort_inner.simps) (simp add: t_def)
  qed
qed

lemma pis_right_perm:
  "c < j \<Longrightarrow> b \<le> length (view s) \<Longrightarrow> perm_range c b (view s) (view (pis_right D s b j))"
proof (induction "b - j" arbitrary: s j rule: less_induct)
  case less
  show ?case
  proof (cases "j < b \<and> Less D s j (j - 1)")
    case True
    define t where "t = Swap D s j (j - 1)"
    have st: "perm_range c b (view s) (view t)"
      unfolding t_def using True less.prems by (intro Swap_perm) auto
    have "perm_range c b (view t) (view (pis_right D t b (j + 1)))"
      using True less.prems perm_range_length [OF st] by (intro less.hyps) auto
    then show ?thesis
      using True perm_range_trans [OF st] by (subst pis_right.simps) (simp add: t_def)
  next
    case False
    then show ?thesis by (subst pis_right.simps) auto
  qed
qed

lemma ordered_snoc:
  assumes "ordered lt a i xs" "a < i" "\<not> lt (xs ! i) (xs ! (i - 1))"
  shows "ordered lt a (Suc i) xs"
  unfolding ordered_def
proof (intro allI impI, elim conjE)
  fix p q assume pq: "a \<le> p" "p < q" "q < Suc i"
  show "\<not> lt (xs ! q) (xs ! p)"
  proof (cases "q = i")
    case True
    show ?thesis
    proof (cases "p = i - 1")
      case False
      then have "\<not> lt (xs ! (i - 1)) (xs ! p)" using assms(1,2) pq True by (simp add: ordered_def)
      then show ?thesis using assms(3) True le_trans by blast
    qed (use assms(3) True in simp)
  next
    case False
    then show ?thesis using assms(1) pq by (simp add: ordered_def)
  qed
qed

lemma pis_skip_correct:
  "a < i \<Longrightarrow> i \<le> b \<Longrightarrow> b \<le> length (view s) \<Longrightarrow> ordered lt a i (view s) \<Longrightarrow>
    i \<le> pis_skip D s b i \<and> pis_skip D s b i \<le> b \<and> ordered lt a (pis_skip D s b i) (view s)"
proof (induction "b - i" arbitrary: i rule: less_induct)
  case less
  show ?case
  proof (cases "i < b \<and> \<not> Less D s i (i - 1)")
    case True
    then have "\<not> lt (view s ! i) (view s ! (i - 1))" using less.prems Less_view [of i s "i - 1"] by (simp add: less_imp_diff_less)
    then have "ordered lt a (i + 1) (view s)" using ordered_snoc less.prems by simp
    then have "i + 1 \<le> pis_skip D s b (i + 1) \<and> pis_skip D s b (i + 1) \<le> b \<and>
        ordered lt a (pis_skip D s b (i + 1)) (view s)"
      using True less.prems by (intro less.hyps) auto
    moreover have "pis_skip D s b i = pis_skip D s b (i + 1)" using True by (subst pis_skip.simps) simp
    ultimately show ?thesis by simp
  next
    case False
    then have "pis_skip D s b i = i" by (subst pis_skip.simps) auto
    then show ?thesis using less.prems by simp
  qed
qed

lemma pis_shift:
  assumes i: "a < i" "i < b" "b \<le> length (view s)" "ordered lt a i (view s)"
    and low: "\<forall>k. 0 < a \<and> a \<le> k \<and> k < b \<longrightarrow> \<not> lt (view s ! k) (view s ! (a - 1))"
  defines "t \<equiv> Swap D s i (i - 1)"
  defines "u \<equiv> (if i - a \<ge> 2 then pis_left D (i - 1) t else t)"
  defines "v \<equiv> (if b - i \<ge> 2 then pis_right D u b (i + 1) else u)"
  shows "perm_range a b (view s) (view v) \<and> ordered lt a i (view v)"
proof -
  have st: "perm_range a b (view s) (view t)" unfolding t_def using i by (intro Swap_perm) auto
  have nth: "view t ! k = view s ! k" if "k < i - 1" for k
    unfolding t_def using i that by (subst Swap_nth) auto
  have "perm_range a i (view t) (view u) \<and> ordered lt a i (view u)"
  proof (cases "i - a \<ge> 2")
    case True
    have "u = insertionSort_inner D t a (i - 1)"
      unfolding u_def if_P [OF True] using True i perm_range_length [OF st] bounded_perm [OF st i(3) low]
      by (intro pis_left_eq) auto
    moreover have "perm_range a (Suc (i - 1)) (view t) (view (insertionSort_inner D t a (i - 1))) \<and>
        ordered lt a (Suc (i - 1)) (view (insertionSort_inner D t a (i - 1)))"
    proof (rule insertionSort_inner_correct)
      show "\<forall>p q. a \<le> p \<and> p < q \<and> q \<le> i - 1 \<and> p \<noteq> i - 1 \<and> q \<noteq> i - 1 \<longrightarrow>
          \<not> lt (view t ! q) (view t ! p)"
        using i(4) by (auto simp: nth ordered_def)
    qed (use True i perm_range_length [OF st] in auto)
    ultimately show ?thesis using i(1) by simp
  next
    case False
    then show ?thesis by (auto simp: u_def ordered_def)
  qed
  then have tu: "perm_range a i (view t) (view u)" and u: "ordered lt a i (view u)" by auto
  have su: "perm_range a b (view s) (view u)" using perm_range_sup [OF st tu] i by simp
  have uv: "perm_range i b (view u) (view v)"
    unfolding v_def using i perm_range_length [OF su] by (auto intro: pis_right_perm)
  have "ordered lt a i (view v)"
    using u perm_range_outside [OF uv] i perm_range_length [OF su] by (auto simp: ordered_def)
  moreover have "perm_range a b (view s) (view v)" using perm_range_sup [OF su uv] i by simp
  ultimately show ?thesis by simp
qed

lemma partialInsertionSort_steps_correct:
  assumes "a < i" "i \<le> b" "b \<le> length (view s)" "ordered lt a i (view s)"
    and "\<forall>k. 0 < a \<and> a \<le> k \<and> k < b \<longrightarrow> \<not> lt (view s ! k) (view s ! (a - 1))"
    and "partialInsertionSort_steps D a b n s i = (t, r)"
  shows "perm_range a b (view s) (view t) \<and> (r \<longrightarrow> ordered lt a b (view t))"
  using assms
proof (induction n arbitrary: s i)
  case 0
  then show ?case by simp
next
  case (Suc n)
  note prems = Suc.prems
  define i' where "i' = pis_skip D s b i"
  have i': "i \<le> i'" "i' \<le> b" "ordered lt a i' (view s)"
    using pis_skip_correct [of a i b s] prems(1-4) by (auto simp: i'_def)
  show ?case
  proof (cases "i' = b \<or> b - a < pis_shortestShifting")
    case True
    then show ?thesis using prems(6) i' by (auto simp: i'_def [symmetric] split: if_splits)
  next
    case False
    define u where "u = (let u = Swap D s i' (i' - 1);
        u = (if i' - a \<ge> 2 then pis_left D (i' - 1) u else u)
        in if b - i' \<ge> 2 then pis_right D u b (i' + 1) else u)"
    have su: "perm_range a b (view s) (view u) \<and> ordered lt a i' (view u)"
      unfolding u_def Let_def using i' False prems(1,3,5) by (intro pis_shift) auto
    have "partialInsertionSort_steps D a b n u i' = (t, r)"
      using prems(6) False by (simp add: Let_def i'_def [symmetric] u_def)
    then have "perm_range a b (view u) (view t) \<and> (r \<longrightarrow> ordered lt a b (view t))"
      using su i' prems(1-3) perm_range_length [of a b "view s" "view u"]
        bounded_perm [of a b s u, OF _ prems(3,5)] by (intro Suc.IH) auto
    then show ?thesis using su perm_range_trans by blast
  qed
qed

lemma partialInsertionSort_correct:
  assumes "a < b" "b \<le> length (view s)"
    and "\<forall>k. 0 < a \<and> a \<le> k \<and> k < b \<longrightarrow> \<not> lt (view s ! k) (view s ! (a - 1))"
    and "partialInsertionSort D s a b = (t, r)"
  shows "perm_range a b (view s) (view t)" "r \<Longrightarrow> ordered lt a b (view t)"
proof -
  have "ordered lt a (a + 1) (view s)" by (auto simp: ordered_def)
  with assms have "perm_range a b (view s) (view t) \<and> (r \<longrightarrow> ordered lt a b (view t))"
    by (intro partialInsertionSort_steps_correct [of a "a + 1" b s pis_maxSteps])
      (auto simp: partialInsertionSort_def)
  then show "perm_range a b (view s) (view t)" "r \<Longrightarrow> ordered lt a b (view t)" by auto
qed

section \<open>Breaking patterns and choosing a pivot\<close>

lemma nextPowerOfTwo_value:
  assumes "0 < n" "n < 2 ^ 63"
  shows "unat (nextPowerOfTwo n - 1) < 2 * n"
proof -
  define k where "k = Len64 (word_of_nat n)"
  have n: "unat (word_of_nat n :: uint64) = n" using assms(2) by (simp add: unat_of_nat)
  have b: "0 < k" "2 ^ (k - 1) \<le> n" "n < 2 ^ k"
    using bitlen_Len64 [of "word_of_nat n"] assms(1) by (auto simp: bitlen_def n k_def)
  have "(2 :: nat) ^ (k - 1) < 2 ^ 63" using b(2) assms(2) by simp
  then have "k < 64" using b(1) by (subst (asm) power_strict_increasing_iff) auto
  then have "(2 :: nat) ^ k < 2 ^ 64" by (rule power_strict_increasing) simp
  then have "unat (push_bit k 1 :: uint64) = 2 ^ k" by (subst unat_push_bit_gen) simp
  then have "unat (push_bit k 1 - 1 :: uint64) = 2 ^ k - 1" by (simp add: unat_sub_cases)
  moreover have "(2 :: nat) ^ k = 2 * 2 ^ (k - 1)" using b(1) by (cases k) auto
  ultimately show ?thesis using b assms(1) by (simp add: nextPowerOfTwo_def bits_Len_def k_def [symmetric])
qed

lemma breakPatterns_loop_perm:
  assumes "a + n \<le> length (view s)" "a \<le> idx" "idx + m \<le> a + n" "unat (modulus - 1) < 2 * n"
  shows "perm_range a (a + n) (view s) (view (breakPatterns_loop D a n modulus m s idx random))"
  using assms
proof (induction m arbitrary: s idx random)
  case 0
  then show ?case by simp
next
  case (Suc m)
  define r where "r = xorshift_Next random"
  define other where "other = unat (r AND (modulus - 1))"
  define o' where "o' = (if other \<ge> n then other - n else other)"
  have "other \<le> unat (modulus - 1)" unfolding other_def by (metis word_and_le1 word_le_nat_alt)
  then have o': "o' < n" using Suc.prems(4) by (auto simp: o'_def)
  define t where "t = Swap D s idx (a + o')"
  have st: "perm_range a (a + n) (view s) (view t)"
    unfolding t_def using Suc.prems o' by (intro Swap_perm) auto
  have "perm_range a (a + n) (view t) (view (breakPatterns_loop D a n modulus m t (idx + 1) r))"
    using Suc.prems perm_range_length [OF st] by (intro Suc.IH) auto
  moreover have "breakPatterns_loop D a n modulus (Suc m) s idx random
      = breakPatterns_loop D a n modulus m t (idx + 1) r"
    by (simp only: breakPatterns_loop.simps Let_def r_def other_def o'_def t_def)
  ultimately show ?case using perm_range_trans [OF st] by simp
qed

lemma breakPatterns_perm:
  assumes "a \<le> b" "b \<le> length (view s)" "length (view s) < 2 ^ 63"
  shows "perm_range a b (view s) (view (breakPatterns D s a b))"
proof (cases "b - a \<ge> 8")
  case True
  define idx where "idx = a + (b - a) div 4 * 2 - 1"
  have "perm_range a (a + (b - a)) (view s)
      (view (breakPatterns_loop D a (b - a) (nextPowerOfTwo (b - a)) (a + (b - a) div 4 * 2 + 1 + 1 - idx) s idx (word_of_nat (b - a))))"
  proof (rule breakPatterns_loop_perm)
    show "unat (nextPowerOfTwo (b - a) - 1) < 2 * (b - a)"
      using True assms by (intro nextPowerOfTwo_value) auto
    have "(b - a) div 4 * 2 + 2 \<le> b - a" using True by linarith
    then show "idx + (a + (b - a) div 4 * 2 + 1 + 1 - idx) \<le> a + (b - a)" "a \<le> idx"
      using True by (auto simp: idx_def)
  qed (use assms in auto)
  then show ?thesis using True assms(1) by (simp add: breakPatterns_def Let_def idx_def)
next
  case False
  then show ?thesis by (simp add: breakPatterns_def Let_def)
qed

lemma median_in: "fst (median D s a b c swaps) \<in> {a, b, c}"
  by (auto simp: median_def order2_def Let_def split: prod.splits if_splits)

lemma medianAdjacent_near:
  assumes "0 < k"
  shows "k - 1 \<le> fst (medianAdjacent D s k swaps) \<and> fst (medianAdjacent D s k swaps) \<le> k + 1"
proof -
  have "fst (medianAdjacent D s k swaps) \<in> {k - 1, k, k + 1}"
    unfolding medianAdjacent_def by (rule median_in)
  then show ?thesis using assms by auto
qed

lemma choosePivot_in:
  assumes "a + 8 \<le> b"
  shows "a \<le> fst (choosePivot D s a b) \<and> fst (choosePivot D s a b) < b"
proof -
  define q where "q = (b - a) div 4"
  define trip where "trip = (if b - a \<ge> shortestNinther then
      let (i, swaps) = medianAdjacent D s (a + q * 1) 0;
          (j, swaps) = medianAdjacent D s (a + q * 2) swaps;
          (k, swaps) = medianAdjacent D s (a + q * 3) swaps
      in (i, j, k, swaps)
    else (a + q * 1, a + q * 2, a + q * 3, 0))"
  obtain i j k sw where t: "trip = (i, j, k, sw)" by (metis prod_cases4)
  have q: "2 \<le> q" "q * 3 + 2 \<le> b - a" using assms by (auto simp: q_def)
  have "a \<le> i \<and> i < b \<and> a \<le> j \<and> j < b \<and> a \<le> k \<and> k < b"
  proof (cases "b - a \<ge> shortestNinther")
    case True
    obtain i1 s1 where 1: "medianAdjacent D s (a + q * 1) 0 = (i1, s1)" by (rule prod.exhaust)
    obtain j1 s2 where 2: "medianAdjacent D s (a + q * 2) s1 = (j1, s2)" by (rule prod.exhaust)
    obtain k1 s3 where 3: "medianAdjacent D s (a + q * 3) s2 = (k1, s3)" by (rule prod.exhaust)
    have "i = i1" "j = j1" "k = k1" using t True by (simp_all add: trip_def 1 2 3 del: mult_1_right One_nat_def)
    moreover have "a + q - 1 \<le> i1 \<and> i1 \<le> a + q + 1" "a + q * 2 - 1 \<le> j1 \<and> j1 \<le> a + q * 2 + 1"
      "a + q * 3 - 1 \<le> k1 \<and> k1 \<le> a + q * 3 + 1"
      using medianAdjacent_near [of "a + q * 1" s 0] medianAdjacent_near [of "a + q * 2" s s1]
        medianAdjacent_near [of "a + q * 3" s s2] q(1) unfolding 1 2 3 fst_conv by simp_all
    ultimately show ?thesis using q by linarith
  next
    case False
    then show ?thesis using t q by (auto simp: trip_def)
  qed
  moreover have "fst (choosePivot D s a b) = fst (median D s i j k sw)"
  proof -
    have le: "b - a \<ge> 8" using assms by simp
    have "choosePivot D s a b =
      (let (j, swaps) = (let (i, j, k, swaps) = trip in median D s i j k swaps)
       in if swaps = 0 then (j, increasingHint)
          else if swaps = maxSwaps then (j, decreasingHint) else (j, unknownHint))"
      unfolding choosePivot_def Let_def trip_def q_def if_P [OF le] by simp
    then show ?thesis by (simp add: t split: prod.split)
  qed
  ultimately show ?thesis using median_in [of s i j k sw] by auto
qed

lemma reverseRange_loop_perm:
  "a \<le> i \<Longrightarrow> j < b \<Longrightarrow> b \<le> length (view s) \<Longrightarrow> perm_range a b (view s) (view (reverseRange_loop D s i j))"
proof (induction "j - i" arbitrary: s i j rule: less_induct)
  case less
  show ?case
  proof (cases "i < j")
    case True
    define t where "t = Swap D s i j"
    have st: "perm_range a b (view s) (view t)" unfolding t_def using True less.prems by (intro Swap_perm) auto
    have "perm_range a b (view t) (view (reverseRange_loop D t (i + 1) (j - 1)))"
      using True less.prems perm_range_length [OF st] by (intro less.hyps) auto
    then show ?thesis using True perm_range_trans [OF st] by (subst reverseRange_loop.simps) (simp add: t_def)
  qed (subst reverseRange_loop.simps, simp)
qed

lemma reverseRange_perm:
  "a < b \<Longrightarrow> b \<le> length (view s) \<Longrightarrow> perm_range a b (view s) (view (reverseRange D s a b))"
  unfolding reverseRange_def by (rule reverseRange_loop_perm) auto

lemma pdqsort_prepare_correct:
  assumes "a + 12 < b" "b \<le> length (view s)" "length (view s) < 2 ^ 63"
    and low: "\<forall>k. 0 < a \<and> a \<le> k \<and> k < b \<longrightarrow> \<not> lt (view s ! k) (view s ! (a - 1))"
    and eq: "pdqsort_prepare D s a b limit wb wp = (t, limit', pivot, ok)"
  shows "perm_range a b (view s) (view t)" "a \<le> pivot" "pivot < b" "ok \<Longrightarrow> ordered lt a b (view t)"
proof -
  define s1 where "s1 = (if \<not> wb then breakPatterns D s a b else s)"
  obtain p hint where p: "choosePivot D s1 a b = (p, hint)" by (rule prod.exhaust)
  define s2 where "s2 = (if hint = decreasingHint then reverseRange D s1 a b else s1)"
  have pv: "pivot = (if hint = decreasingHint then (b - 1) - (p - a) else p)"
    and t: "(t, ok) = (if wb \<and> wp \<and> (hint = decreasingHint \<or> hint = increasingHint) then partialInsertionSort D s2 a b else (s2, False))"
    using eq p by (auto simp: pdqsort_prepare_def s1_def s2_def Let_def split: if_splits prod.splits)
  have s1: "perm_range a b (view s) (view s1)"
    unfolding s1_def using breakPatterns_perm [of a b s] assms by simp
  have s12: "perm_range a b (view s1) (view s2)"
    unfolding s2_def using reverseRange_perm [of a b s1] assms perm_range_length [OF s1] by simp
  have s2: "perm_range a b (view s) (view s2)" using perm_range_trans [OF s1 s12] .
  have "a \<le> p" "p < b" using choosePivot_in [of a b s1] assms(1) p by auto
  then show "a \<le> pivot" "pivot < b" by (auto simp: pv)
  have len: "b \<le> length (view s2)" using perm_range_length [OF s2] assms(2) by simp
  have low2: "\<forall>k. 0 < a \<and> a \<le> k \<and> k < b \<longrightarrow> \<not> lt (view s2 ! k) (view s2 ! (a - 1))"
    by (rule bounded_perm [OF s2 assms(2) low])
  have "perm_range a b (view s2) (view t) \<and> (ok \<longrightarrow> ordered lt a b (view t))"
    using t partialInsertionSort_correct [OF _ len low2, of t ok] assms(1) by (auto split: if_splits)
  then show "perm_range a b (view s) (view t)" "ok \<Longrightarrow> ordered lt a b (view t)"
    using perm_range_trans [OF s2] by auto
qed

section \<open>Pattern-defeating quicksort\<close>

lemma ordered_join:
  assumes "ordered lt a m xs" "ordered lt m b xs"
    and "\<forall>i j. a \<le> i \<and> i < m \<and> m \<le> j \<and> j < b \<longrightarrow> \<not> lt (xs ! j) (xs ! i)"
  shows "ordered lt a b xs"
  unfolding ordered_def
proof (intro allI impI, elim conjE)
  fix i j assume "a \<le> i" "i < j" "j < b"
  then show "\<not> lt (xs ! j) (xs ! i)"
    using assms unfolding ordered_def by (cases "j < m"; cases "i < m") auto
qed

lemma ordered_pivot:
  assumes "ordered lt a m xs" "ordered lt (Suc m) b xs"
    and "\<forall>k. a \<le> k \<and> k < m \<longrightarrow> \<not> lt (xs ! m) (xs ! k)"
    and "\<forall>k. m < k \<and> k < b \<longrightarrow> \<not> lt (xs ! k) (xs ! m)"
  shows "ordered lt a b xs"
  unfolding ordered_def
proof (intro allI impI, elim conjE)
  fix i j assume ij: "a \<le> i" "i < j" "j < b"
  show "\<not> lt (xs ! j) (xs ! i)"
  proof (cases "i \<le> m \<and> m \<le> j")
    case True
    then have "\<not> lt (xs ! m) (xs ! i)" "\<not> lt (xs ! j) (xs ! m)"
      using ij assms(3) [rule_format, of i] assms(4) [rule_format, of j]
      by (cases "i = m", simp, simp, cases "j = m", simp_all)
    then show ?thesis by (rule le_trans)
  next
    case False
    then show ?thesis using ij assms(1,2) unfolding ordered_def by auto
  qed
qed

text \<open>A fact about all the elements of a range survives its permutation.\<close>

lemma perm_range_all:
  assumes "perm_range a b xs ys" "b \<le> length xs" "\<forall>k. a \<le> k \<and> k < b \<longrightarrow> P (xs ! k)"
  shows "\<forall>k. a \<le> k \<and> k < b \<longrightarrow> P (ys ! k)"
proof (intro allI impI, elim conjE)
  fix k assume "a \<le> k" "k < b"
  then obtain l where "a \<le> l" "l < b" "ys ! k = xs ! l" by (rule perm_range_nth [OF assms(1,2)])
  then show "P (ys ! k)" using assms(3) by simp
qed

text \<open>Sorting two disjoint ranges one after the other.\<close>

lemma two_ranges:
  assumes uy: "perm_range a m u y" "ordered lt a m y" and yx: "perm_range c d y x"
    and dis: "m \<le> c \<or> d \<le> a" and len: "m \<le> length u" "d \<le> length u"
  shows "ordered lt a m x"
    and "\<forall>k. a \<le> k \<and> k < m \<longrightarrow> P (u ! k) \<Longrightarrow> \<forall>k. a \<le> k \<and> k < m \<longrightarrow> P (x ! k)"
    and "\<forall>k. c \<le> k \<and> k < d \<longrightarrow> Q (u ! k) \<Longrightarrow> \<forall>k. c \<le> k \<and> k < d \<longrightarrow> Q (x ! k)"
proof -
  have ly: "length y = length u" using uy(1) by (rule perm_range_length)
  have xy: "x ! k = y ! k" if "a \<le> k" "k < m" for k
    using that dis len ly by (intro perm_range_outside [OF yx]) auto
  have yu: "y ! k = u ! k" if "c \<le> k" "k < d" for k
    using that dis len by (intro perm_range_outside [OF uy(1)]) auto
  show "ordered lt a m x" using uy(2) by (simp add: ordered_def xy)
  show "\<forall>k. a \<le> k \<and> k < m \<longrightarrow> P (x ! k)" if "\<forall>k. a \<le> k \<and> k < m \<longrightarrow> P (u ! k)"
    using perm_range_all [OF uy(1) len(1) that] by (simp add: xy)
  show "\<forall>k. c \<le> k \<and> k < d \<longrightarrow> Q (x ! k)" if "\<forall>k. c \<le> k \<and> k < d \<longrightarrow> Q (u ! k)"
    using that by (intro perm_range_all [OF yx]) (auto simp: yu ly len)
qed

lemma equal_join:
  assumes "mid \<le> b" "b \<le> length u"
    and eq: "\<forall>i j. a \<le> i \<and> i < mid \<and> a \<le> j \<and> j < b \<longrightarrow> \<not> lt (u ! j) (u ! i)"
    and ux: "perm_range mid b u x" "ordered lt mid b x"
  shows "ordered lt a b x"
proof (rule ordered_join [OF _ ux(2)])
  have xu: "x ! k = u ! k" if "k < mid" for k
    using that assms(1,2) by (intro perm_range_outside [OF ux(1)]) auto
  show "ordered lt a mid x" using eq assms(1) by (auto simp: ordered_def xu)
  show "\<forall>i j. a \<le> i \<and> i < mid \<and> mid \<le> j \<and> j < b \<longrightarrow> \<not> lt (x ! j) (x ! i)"
  proof (intro allI impI, elim conjE)
    fix i j assume ij: "a \<le> i" "i < mid" "mid \<le> j" "j < b"
    then have "\<forall>k. mid \<le> k \<and> k < b \<longrightarrow> \<not> lt (x ! k) (u ! i)"
      using eq by (intro perm_range_all [OF ux(1) assms(2)]) auto
    then show "\<not> lt (x ! j) (x ! i)" using ij by (simp add: xu)
  qed
qed

lemma split_join:
  assumes "a \<le> mid" "mid < b" "b \<le> length u"
    and below: "\<forall>k. a \<le> k \<and> k < mid \<longrightarrow> lt (u ! k) (u ! mid)"
    and above: "\<forall>k. mid < k \<and> k < b \<longrightarrow> \<not> lt (u ! k) (u ! mid)"
    and uy: "perm_range c d u y" "ordered lt c d y" and yx: "perm_range c' d' y x" "ordered lt c' d' x"
    and order: "c = a \<and> d = mid \<and> c' = Suc mid \<and> d' = b \<or> c = Suc mid \<and> d = b \<and> c' = a \<and> d' = mid"
  shows "perm_range a b u x \<and> ordered lt a b x"
proof -
  have p: "perm_range a b u y" "perm_range a b y x"
    using order assms(1,2) perm_range_mono [OF uy(1), of a b] perm_range_mono [OF yx(1), of a b] by auto
  have dis: "d \<le> c' \<or> d' \<le> c" "d \<le> length u" "d' \<le> length u" using order assms(1-3) by auto
  note two = two_ranges [OF uy yx(1) dis]
  have m: "x ! mid = u ! mid"
  proof -
    have out: "mid < c \<or> d \<le> mid" "mid < c' \<or> d' \<le> mid" "mid < length u" using order assms(2,3) by auto
    then have "mid < length y" using perm_range_length [OF uy(1)] by simp
    then show ?thesis
      using perm_range_outside [OF uy(1) out(3,1)] perm_range_outside [OF yx(1) _ out(2)] by simp
  qed
  have le: "\<forall>k. a \<le> k \<and> k < mid \<longrightarrow> \<not> lt (u ! mid) (u ! k)" using below lt_asym by blast
  have ge: "\<forall>k. Suc mid \<le> k \<and> k < b \<longrightarrow> \<not> lt (u ! k) (u ! mid)" using above by auto
  have "ordered lt a mid x \<and> ordered lt (Suc mid) b x" using two(1) yx(2) order by auto
  moreover have "\<forall>k. a \<le> k \<and> k < mid \<longrightarrow> \<not> lt (u ! mid) (x ! k)"
    using order two(2) [of "\<lambda>z. \<not> lt (u ! mid) z"] two(3) [of "\<lambda>z. \<not> lt (u ! mid) z"] le by blast
  moreover have "\<forall>k. Suc mid \<le> k \<and> k < b \<longrightarrow> \<not> lt (x ! k) (u ! mid)"
    using order two(2) [of "\<lambda>z. \<not> lt z (u ! mid)"] two(3) [of "\<lambda>z. \<not> lt z (u ! mid)"] ge by blast
  ultimately have "ordered lt a b x" by (auto simp: m intro: ordered_pivot [of a mid x b])
  then show ?thesis using perm_range_trans [OF p] by simp
qed

lemma pdqsort_loop_correct:
  assumes "a \<le> b" "b \<le> length (view s)" "length (view s) < 2 ^ 63"
    and "\<forall>k. 0 < a \<and> a \<le> k \<and> k < b \<longrightarrow> \<not> lt (view s ! k) (view s ! (a - 1))"
  shows "perm_range a b (view s) (view (pdqsort_loop D s a b limit wb wp)) \<and>
    ordered lt a b (view (pdqsort_loop D s a b limit wb wp))"
  using assms
proof (induction "b - a" arbitrary: s a b limit wb wp rule: less_induct)
  case less
  note prems = less.prems
  define R where "R = pdqsort_loop D s a b limit wb wp"
  consider (short) "b - a \<le> maxInsertion" | (heap) "\<not> b - a \<le> maxInsertion" "limit = 0"
    | (quick) "\<not> b - a \<le> maxInsertion" "limit \<noteq> 0" by blast
  then show ?case
  proof cases
    case short
    then show ?thesis
      using insertionSort_correct [OF prems(1,2)] by (subst (1 2) pdqsort_loop.simps) simp
  next
    case heap
    then show ?thesis
      using heapSort_correct [OF prems(1,2)] by (subst (1 2) pdqsort_loop.simps) simp
  next
    case quick
    obtain t lim pivot ok where pr: "pdqsort_prepare D s a b limit wb wp = (t, lim, pivot, ok)"
      by (metis prod_cases4)
    have len12: "a + 12 < b" using quick(1) by simp
    note st = pdqsort_prepare_correct [OF len12 prems(2,3,4) pr]
    have lt: "length (view t) = length (view s)" using st(1) by (rule perm_range_length)
    have bt: "b \<le> length (view t)" using lt prems(2) by simp
    have lowt: "\<forall>k. 0 < a \<and> a \<le> k \<and> k < b \<longrightarrow> \<not> lt (view t ! k) (view t ! (a - 1))"
      by (rule bounded_perm [OF st(1) prems(2,4)])
    have R: "R = (if ok then t else if a > 0 \<and> \<not> Less D t (a - 1) pivot then
         case partitionEqual D t a b pivot of (s, mid) \<Rightarrow> pdqsort_loop D s mid b lim wb wp
       else case partition_sort D t a b pivot of (s, mid, ap) \<Rightarrow>
         if mid - a < b - mid
         then pdqsort_loop D (pdqsort_loop D s a mid lim True True) (mid + 1) b lim (mid - a \<ge> (b - a) div 8) ap
         else pdqsort_loop D (pdqsort_loop D s (mid + 1) b lim True True) a mid lim (b - mid \<ge> (b - a) div 8) ap)"
      unfolding R_def
      by (subst pdqsort_loop.simps) (simp only: Let_def pr prod.case if_not_P [OF quick(1)] if_not_P [OF quick(2)])
    consider (sorted) ok | (eq) "\<not> ok" "a > 0" "\<not> Less D t (a - 1) pivot"
      | (split) "\<not> ok" "\<not> (a > 0 \<and> \<not> Less D t (a - 1) pivot)" by blast
    then have "perm_range a b (view t) (view R) \<and> ordered lt a b (view R)"
    proof cases
      case sorted
      then show ?thesis using st(4) by (simp add: R)
    next
      case eq
      obtain u mid where pe: "partitionEqual D t a b pivot = (u, mid)" by (rule prod.exhaust)
      have "\<not> lt (view t ! (a - 1)) (view t ! pivot)"
        using eq Less_view [of "a - 1" t pivot] st(2,3) lt prems(2) by auto
      then have min: "\<forall>k. a \<le> k \<and> k < b \<longrightarrow> \<not> lt (view t ! k) (view t ! pivot)"
        using lowt eq(2) le_trans by blast
      note pe' = partitionEqual_correct [OF st(2,3) bt min pe]
      have lu: "length (view u) = length (view t)" using pe'(1) by (rule perm_range_length)
      have "perm_range mid b (view u) (view (pdqsort_loop D u mid b lim wb wp)) \<and>
          ordered lt mid b (view (pdqsort_loop D u mid b lim wb wp))"
        using pe' lu lt prems(1-3) by (intro less.hyps) auto
      moreover have "R = pdqsort_loop D u mid b lim wb wp" using eq by (simp add: R pe)
      ultimately have uR: "perm_range mid b (view u) (view R)" "ordered lt mid b (view R)" by simp_all
      have "ordered lt a b (view R)" using equal_join [OF pe'(3) _ pe'(4) uR] bt lu by simp
      moreover have "perm_range a b (view t) (view R)" using perm_range_sup [OF pe'(1) uR(1)] pe'(2) by simp
      ultimately show ?thesis by simp
    next
      case split
      obtain u mid ap where ps: "partition_sort D t a b pivot = (u, mid, ap)" by (rule prod_cases3)
      note ps' = partition_sort_correct [OF st(2,3) bt ps]
      have lu: "length (view u) = length (view t)" using ps'(1) by (rule perm_range_length)
      have lowu: "\<forall>k. 0 < a \<and> a \<le> k \<and> k < b \<longrightarrow> \<not> lt (view u ! k) (view u ! (a - 1))"
        by (rule bounded_perm [OF ps'(1) bt lowt])
      have left: "perm_range a mid (view v) (view (pdqsort_loop D v a mid l f g)) \<and>
          ordered lt a mid (view (pdqsort_loop D v a mid l f g))"
        if "perm_range (Suc mid) b (view u) (view v)" for v l f g
      proof (rule less.hyps)
        have nth: "view v ! k = view u ! k" if "k < Suc mid" for k
          using that ps'(3) lu bt perm_range_outside [OF \<open>perm_range (Suc mid) b (view u) (view v)\<close>, of k] by simp
        show "\<forall>k. 0 < a \<and> a \<le> k \<and> k < mid \<longrightarrow> \<not> lt (view v ! k) (view v ! (a - 1))"
          using lowu ps'(2,3) by (auto simp: nth)
      qed (use ps'(2,3) perm_range_length [OF that] lu lt prems(2,3) in auto)
      have right: "perm_range (Suc mid) b (view v) (view (pdqsort_loop D v (Suc mid) b l f g)) \<and>
          ordered lt (Suc mid) b (view (pdqsort_loop D v (Suc mid) b l f g))"
        if "perm_range a mid (view u) (view v)" for v l f g
        using that ps'(2,3,5) perm_range_length [OF that] perm_range_outside [OF that] lu lt prems(2,3)
        by (intro less.hyps) auto
      note join = split_join [OF ps'(2,3) _ ps'(4,5)]
      have bu: "b \<le> length (view u)" using lu bt by simp
      show ?thesis
      proof (cases "mid - a < b - mid")
        case True
        define v where "v = pdqsort_loop D u a mid lim True True"
        have v: "perm_range a mid (view u) (view v)" "ordered lt a mid (view v)" using left [of u] by (auto simp: v_def)
        have "R = pdqsort_loop D v (Suc mid) b lim (mid - a \<ge> (b - a) div 8) ap"
          using split True by (auto simp: R ps v_def)
        then have "perm_range a b (view u) (view R) \<and> ordered lt a b (view R)"
          using join [OF bu v, of "Suc mid" b "view R"] right [OF v(1)] by simp
        then show ?thesis using perm_range_trans [OF ps'(1)] by blast
      next
        case False
        define v where "v = pdqsort_loop D u (Suc mid) b lim True True"
        have v: "perm_range (Suc mid) b (view u) (view v)" "ordered lt (Suc mid) b (view v)"
          using right [of u] by (auto simp: v_def)
        have "R = pdqsort_loop D v a mid lim (b - mid \<ge> (b - a) div 8) ap"
          using split False by (auto simp: R ps v_def)
        then have "perm_range a b (view u) (view R) \<and> ordered lt a b (view R)"
          using join [OF bu v, of a mid "view R"] left [OF v(1)] by simp
        then show ?thesis using perm_range_trans [OF ps'(1)] by blast
      qed
    qed
    then show ?thesis using perm_range_trans [OF st(1)] unfolding R_def by blast
  qed
qed

lemma pdqsort_correct:
  assumes "length (view s) < 2 ^ 63"
  shows "mset (view (pdqsort D s 0 (length (view s)) limit)) = mset (view s)"
    and "sorted_wrt (\<lambda>x y. \<not> lt y x) (view (pdqsort D s 0 (length (view s)) limit))"
proof -
  define t where "t = pdqsort D s 0 (length (view s)) limit"
  have t: "perm_range 0 (length (view s)) (view s) (view t) \<and> ordered lt 0 (length (view s)) (view t)"
    unfolding t_def pdqsort_def using assms by (intro pdqsort_loop_correct) auto
  then have "length (view t) = length (view s)" "mset (view t) = mset (view s)"
    using perm_range_length perm_range_mset by blast+
  with t show "mset (view t) = mset (view s)" "sorted_wrt (\<lambda>x y. \<not> lt y x) (view t)"
    by (auto simp: sorted_wrt_iff_nth_less ordered_def)
qed

lemma Sort_correct:
  assumes "Len D s < 2 ^ 63"
  shows "mset (view (sort_Sort D s)) = mset (view s) \<and>
    sorted_wrt (\<lambda>x y. \<not> lt y x) (view (sort_Sort D s))"
proof (cases "length (view s) \<le> 1")
  case True
  then show ?thesis
    by (auto simp: sort_Sort_def Let_def Len_view sorted_wrt_iff_nth_less)
next
  case False
  then have "sort_Sort D s = pdqsort D s 0 (length (view s)) (bits_Len (word_of_nat (length (view s))))"
    by (simp add: sort_Sort_def Let_def Len_view)
  then show ?thesis using pdqsort_correct assms by (simp add: Len_view)
qed

lemma IsSorted_loop_iff:
  "n < length (view s) \<Longrightarrow> IsSorted_loop D s n \<longleftrightarrow> ordered lt 0 (Suc n) (view s)"
proof (induction n)
  case (Suc n)
  have L: "Less D s (Suc n) n \<longleftrightarrow> lt (view s ! Suc n) (view s ! n)" using Suc.prems by (intro Less_view) auto
  show ?case
  proof (cases "Less D s (Suc n) n")
    case True
    then have "\<not> ordered lt 0 (Suc (Suc n)) (view s)" unfolding ordered_def L by (metis le0 lessI)
    then show ?thesis using True by simp
  next
    case False
    have "ordered lt 0 (Suc (Suc n)) (view s) \<longleftrightarrow> ordered lt 0 (Suc n) (view s)"
      using ordered_snoc [of 0 "Suc n" "view s"] False L by (auto simp: ordered_def)
    then show ?thesis using False Suc by simp
  qed
qed (auto simp: ordered_def)

lemma IsSorted_iff: "IsSorted D s \<longleftrightarrow> sorted_wrt (\<lambda>x y. \<not> lt y x) (view s)"
proof (cases "view s = []")
  case True
  then show ?thesis by (simp add: IsSorted_def Let_def Len_view)
next
  case False
  then have "IsSorted D s \<longleftrightarrow> ordered lt 0 (length (view s)) (view s)"
    using IsSorted_loop_iff [of "length (view s) - 1" s] by (simp add: IsSorted_def Let_def Len_view)
  then show ?thesis by (auto simp: sorted_wrt_iff_nth_less ordered_def)
qed

end

section \<open>Slices and reversal satisfy the contract\<close>

lemma string_less_asym: "string_less x y \<Longrightarrow> \<not> string_less y x"
  by (induction x y rule: string_less.induct) (auto split: if_splits)

lemma string_less_negtrans: "string_less x z \<Longrightarrow> string_less x y \<or> string_less y z"
proof (induction x z arbitrary: y rule: string_less.induct)
  case (2 c cs)
  then show ?case by (cases y) auto
next
  case (4 b bs c cs)
  then show ?case by (cases y) (auto split: if_splits)
qed auto

interpretation ints: sort_data IntSlice "\<lambda>x. x" "\<lambda>a b. sint a < sint b"
  by unfold_locales (auto simp: IntSlice_def)

interpretation strs: sort_data StringSlice "\<lambda>x. x" string_less
  by unfold_locales (auto simp: StringSlice_def dest: string_less_asym string_less_negtrans)

lemma sort_data_Reverse:
  assumes "sort_data D view lt"
  shows "sort_data (Reverse_Interface D) view (\<lambda>x y. lt y x)"
  by unfold_locales
    (use assms in \<open>auto simp: Reverse_Interface_def sort_data.Len_view sort_data.Less_view
        sort_data.Swap_view dest: sort_data.lt_asym [OF assms] sort_data.lt_negtrans [OF assms]\<close>)

interpretation rev_ints: sort_data "Reverse_Interface IntSlice" "\<lambda>x. x" "\<lambda>a b. sint b < sint a"
  by (rule sort_data_Reverse [OF ints.sort_data_axioms])

interpretation rev_strs: sort_data "Reverse_Interface StringSlice" "\<lambda>x. x" "\<lambda>a b. string_less b a"
  by (rule sort_data_Reverse [OF strs.sort_data_axioms])

section \<open>Properties\<close>

text \<open>C1.
  \<open>Sort\<close> sorts every collection that keeps the contract of \<open>sort.Interface\<close>: the result is a
  permutation of the input in which no element is less than an earlier one.  The methods are
  described only for indices in range, so the algorithm never leaves the range.
\<close>

theorem Sort_sorts:
  assumes "sort_data D view lt" "Len D s < 2 ^ 63"
  shows "mset (view (sort_Sort D s)) = mset (view s) \<and>
    sorted_wrt (\<lambda>x y. \<not> lt y x) (view (sort_Sort D s))"
  using assms by (rule sort_data.Sort_correct)

theorem Sort_sorts_witness:
  "Len IntSlice [3, 1, 2] < 2 ^ 63 \<and> mset (sort_Sort IntSlice [3, 1, 2]) = mset [3, 1, 2 :: uint64] \<and>
   sorted_wrt (\<lambda>x y. \<not> sint y < sint x) (sort_Sort IntSlice [3, 1, 2])"
  using Sort_sorts [OF ints.sort_data_axioms, of "[3, 1, 2]"] by (simp add: IntSlice_def)

text \<open>Sorting a slice of integers in reverse gives a permutation in decreasing order.
\<close>

theorem Sort_Reverse_ints:
  assumes "length xs < 2 ^ 63"
  shows "mset (sort_Sort (Reverse_Interface IntSlice) xs) = mset xs \<and>
    sorted_wrt (\<lambda>x y. sint y \<le> sint x) (sort_Sort (Reverse_Interface IntSlice) xs)"
  using rev_ints.Sort_correct [of xs] assms
  by (simp add: Reverse_Interface_def IntSlice_def not_less)

theorem Sort_Reverse_ints_witness:
  "length [4, - 1, 7 :: uint64] < 2 ^ 63 \<and>
   sorted_wrt (\<lambda>x y. sint y \<le> sint x) (sort_Sort (Reverse_Interface IntSlice) [4, - 1, 7])"
  using Sort_Reverse_ints [of "[4, - 1, 7]"] by simp

text \<open>\<open>IsSorted\<close> decides whether a slice of strings is in order.
\<close>

theorem IsSorted_strings: "IsSorted StringSlice xs \<longleftrightarrow> sorted_wrt (\<lambda>x y. \<not> string_less y x) xs"
  by (rule strs.IsSorted_iff)

text \<open>
  Binary search, for an arbitrary test: it returns an index with the test true just below it
  and false at it, where these are inside the range.
\<close>

lemma bsearch_bounds:
  "i \<le> j \<Longrightarrow> i \<le> bsearch p i j \<and> bsearch p i j \<le> j \<and>
    (i < bsearch p i j \<longrightarrow> p (bsearch p i j - 1)) \<and> (bsearch p i j < j \<longrightarrow> \<not> p (bsearch p i j))"
proof (induction "j - i" arbitrary: i j rule: less_induct)
  case less
  show ?case
  proof (cases "i < j")
    case True
    define h where "h = (i + j) div 2"
    have h: "i \<le> h" "h < j" using True by (auto simp: h_def)
    have eq: "bsearch p i j = (if p h then bsearch p (h + 1) j else bsearch p i h)"
      using True by (subst bsearch.simps) (simp add: h_def Let_def)
    show ?thesis
    proof (cases "p h")
      case True
      have "h + 1 \<le> bsearch p (h + 1) j \<and> bsearch p (h + 1) j \<le> j \<and>
          (h + 1 < bsearch p (h + 1) j \<longrightarrow> p (bsearch p (h + 1) j - 1)) \<and>
          (bsearch p (h + 1) j < j \<longrightarrow> \<not> p (bsearch p (h + 1) j))"
        using h by (intro less.hyps) auto
      then show ?thesis using True h by (cases "h + 1 = bsearch p (h + 1) j") (auto simp: eq)
    next
      case False
      have "i \<le> bsearch p i h \<and> bsearch p i h \<le> h \<and>
          (i < bsearch p i h \<longrightarrow> p (bsearch p i h - 1)) \<and> (bsearch p i h < h \<longrightarrow> \<not> p (bsearch p i h))"
        using h by (intro less.hyps) auto
      then show ?thesis using False h by (cases "bsearch p i h = h") (auto simp: eq)
    qed
  next
    case False
    then have "bsearch p i j = i" by (subst bsearch.simps) simp
    then show ?thesis using False less.prems by simp
  qed
qed

text \<open>With a test that is true on a prefix of the range, the result is the end of that prefix.\<close>

lemma bsearch_prefix:
  assumes "i \<le> j" "\<And>k l. i \<le> k \<Longrightarrow> k \<le> l \<Longrightarrow> l < j \<Longrightarrow> p l \<Longrightarrow> p k" "i \<le> k" "k < j"
  shows "p k \<longleftrightarrow> k < bsearch p i j"
proof
  assume "p k"
  show "k < bsearch p i j"
  proof (rule ccontr)
    assume "\<not> k < bsearch p i j"
    then have "p (bsearch p i j)"
      using bsearch_bounds [OF assms(1), of p] assms(2) [of "bsearch p i j" k] assms(4) \<open>p k\<close> by simp
    then show False using \<open>\<not> k < bsearch p i j\<close> bsearch_bounds [OF assms(1), of p] assms(4) by simp
  qed
next
  assume "k < bsearch p i j"
  then show "p k"
    using bsearch_bounds [OF assms(1), of p] assms(2) [of k "bsearch p i j - 1"] assms(3,4) by auto
qed

text \<open>For a predicate that stays true once it is true, \<open>Search\<close> returns the first index at which it
  is true, or \<open>n\<close> when there is none.
\<close>

theorem Search_first:
  assumes "\<And>k l. k \<le> l \<Longrightarrow> l < n \<Longrightarrow> f k \<Longrightarrow> f l"
  shows "sort_Search n f \<le> n \<and> (\<forall>k<n. f k \<longleftrightarrow> sort_Search n f \<le> k)"
proof -
  have "\<not> f k \<longleftrightarrow> k < sort_Search n f" if "k < n" for k
    unfolding sort_Search_def using assms that by (intro bsearch_prefix) auto
  moreover have "sort_Search n f \<le> n" using bsearch_bounds [of 0 n] by (simp add: sort_Search_def)
  ultimately show ?thesis by (metis not_less)
qed

theorem Search_first_witness:
  "sort_Search 5 (\<lambda>i. 3 \<le> i) \<le> 5 \<and> sort_Search 5 (\<lambda>i. 3 \<le> i) \<le> 3 \<and>
   \<not> sort_Search 5 (\<lambda>i. 3 \<le> i) \<le> 2"
proof -
  have "sort_Search 5 (\<lambda>i. 3 \<le> i) \<le> 5 \<and> (\<forall>k<5. (3 \<le> k) = (sort_Search 5 (\<lambda>i. 3 \<le> i) \<le> k))"
    using Search_first [of 5 "\<lambda>i. 3 \<le> i"] by simp
  then have le: "sort_Search 5 (\<lambda>i. 3 \<le> i) \<le> 5"
    and all: "\<And>k. k < 5 \<Longrightarrow> (3 \<le> k) = (sort_Search 5 (\<lambda>i. 3 \<le> i) \<le> k)" by blast+
  show ?thesis using le all [of 3] all [of 2] by simp
qed

text \<open>For a comparison that is positive, then zero, then negative along the indices, \<open>Find\<close> returns
  the first index that does not compare positive, and reports whether it compares equal.
\<close>

theorem Find_first:
  assumes "\<And>k l. k \<le> l \<Longrightarrow> l < n \<Longrightarrow> cmp l \<le> cmp k" "sort_Find n cmp = (i, found)"
  shows "i \<le> n \<and> (\<forall>k<n. cmp k > 0 \<longleftrightarrow> k < i) \<and> (found \<longleftrightarrow> (\<exists>k<n. cmp k = 0))"
proof -
  have i: "i = bsearch (\<lambda>h. cmp h > 0) 0 n" and f: "found \<longleftrightarrow> i < n \<and> cmp i = 0"
    using assms(2) by (auto simp: sort_Find_def Let_def)
  have pos: "cmp k > 0 \<longleftrightarrow> k < i" if "k < n" for k
    unfolding i using assms(1) that by (intro bsearch_prefix) (auto intro: less_le_trans)
  moreover have "i \<le> n" using bsearch_bounds [of 0 n] by (simp add: i)
  moreover have "found" if "k < n" "cmp k = 0" for k
    using that pos [of k] pos [of i] assms(1) [of i k] f by auto
  ultimately show ?thesis using f by blast
qed

theorem Find_first_witness:
  "sort_Find 3 (\<lambda>h. 1 - int h) = (1, True) \<and> (\<exists>k. k < 3 \<and> 1 - int k = 0)"
proof -
  have "sort_Find 3 (\<lambda>h. 1 - int h) = (1, True)" by (simp add: sort_Find_def bsearch.simps)
  then show ?thesis using Find_first [of 3 "\<lambda>h. 1 - int h" 1 True] by auto
qed

end
