(* ===== verification/Sort_Stable.thy ===== *)
theory Sort_Stable
  imports Sort_Correct
begin

text \<open>
  \<open>Stable\<close> of package \<open>sort\<close>: insertion sort on blocks, then in-place merges by \<open>symMerge\<close>, which
  exchanges two segments by \<open>rotate\<close> and recurses on both halves.  The algorithm returns, its
  result is ordered, and equal elements keep their order.
\<close>

section \<open>Keeping the order of equal elements\<close>

definition eqv :: "('a \<Rightarrow> 'a \<Rightarrow> bool) \<Rightarrow> 'a \<Rightarrow> 'a \<Rightarrow> bool" where
  "eqv lt x y \<longleftrightarrow> \<not> lt x y \<and> \<not> lt y x"

definition same_order :: "('a \<Rightarrow> 'a \<Rightarrow> bool) \<Rightarrow> 'a list \<Rightarrow> 'a list \<Rightarrow> bool" where
  "same_order lt xs ys \<longleftrightarrow> (\<forall>x. filter (eqv lt x) ys = filter (eqv lt x) xs)"

definition stab :: "('a \<Rightarrow> 'a \<Rightarrow> bool) \<Rightarrow> nat \<Rightarrow> nat \<Rightarrow> 'a list \<Rightarrow> 'a list \<Rightarrow> bool" where
  "stab lt a b xs ys \<longleftrightarrow> perm_range a b xs ys \<and> same_order lt xs ys"

lemma stab_refl [simp, intro]: "stab lt a b xs xs"
  by (simp add: stab_def same_order_def)

lemma stab_trans: "stab lt a b xs ys \<Longrightarrow> stab lt a b ys zs \<Longrightarrow> stab lt a b xs zs"
  unfolding stab_def same_order_def by (auto intro: perm_range_trans)

lemma stab_mono: "stab lt a b xs ys \<Longrightarrow> a' \<le> a \<Longrightarrow> b \<le> b' \<Longrightarrow> stab lt a' b' xs ys"
  unfolding stab_def by (auto intro: perm_range_mono)

lemma stab_perm: "stab lt a b xs ys \<Longrightarrow> perm_range a b xs ys"
  by (simp add: stab_def)

lemma stab_length: "stab lt a b xs ys \<Longrightarrow> length ys = length xs"
  unfolding stab_def by (blast dest: perm_range_length)

section \<open>Exchanging two segments\<close>

definition seg :: "nat \<Rightarrow> nat \<Rightarrow> 'a list \<Rightarrow> 'a list" where
  "seg a b xs = take (b - a) (drop a xs)"

definition exchange :: "nat \<Rightarrow> nat \<Rightarrow> nat \<Rightarrow> 'a list \<Rightarrow> 'a list" where
  "exchange a m b xs = take a xs @ seg m b xs @ seg a m xs @ drop b xs"

lemma seg_split:
  assumes "a \<le> m" "m \<le> b" "b \<le> length xs"
  shows "xs = take a xs @ seg a m xs @ seg m b xs @ drop b xs"
    "length (take a xs) = a" "length (seg a m xs) = m - a" "length (seg m b xs) = b - m"
proof -
  have "drop a xs = seg a m xs @ drop m xs" "drop m xs = seg m b xs @ drop b xs"
    using assms by (metis append_take_drop_id drop_drop le_add_diff_inverse2 seg_def)+
  then show "xs = take a xs @ seg a m xs @ seg m b xs @ drop b xs" by (metis append_take_drop_id)
qed (use assms in \<open>auto simp: seg_def\<close>)

lemma set_seg: "b \<le> length xs \<Longrightarrow> set (seg a b xs) = {xs ! i | i. a \<le> i \<and> i < b}"
  unfolding seg_def by (rule slice_nth)

lemma exchange_trivial: "b \<le> length xs \<Longrightarrow> a \<le> m \<Longrightarrow> m \<le> b \<Longrightarrow> a = m \<or> m = b \<Longrightarrow> exchange a m b xs = xs"
  using seg_split [of a m b xs] by (auto simp: exchange_def seg_def)

lemma exchange_nth:
  assumes "a \<le> m" "m \<le> b" "b \<le> length xs"
  shows "i < a \<Longrightarrow> exchange a m b xs ! i = xs ! i"
    "a \<le> i \<Longrightarrow> i < a + (b - m) \<Longrightarrow> exchange a m b xs ! i = xs ! (i - a + m)"
    "a + (b - m) \<le> i \<Longrightarrow> i < b \<Longrightarrow> exchange a m b xs ! i = xs ! (i - (b - m))"
    "b \<le> i \<Longrightarrow> i < length xs \<Longrightarrow> exchange a m b xs ! i = xs ! i"
    "length (exchange a m b xs) = length xs"
  using assms by (auto simp: exchange_def seg_def nth_append add.commute)

lemma swap_elems_append:
  "swap_elems (p @ x # q @ y # r) (length p) (Suc (length p + length q)) = p @ y # q @ x # r"
  by (simp add: swap_elems_def list_update_append nth_append)

lemma swap_elems_commute: "swap_elems xs i j = swap_elems xs j i"
  by (cases "i = j") (simp_all add: swap_elems_def list_update_swap)

context sort_data
begin

lemma eqv_less: "lt x y \<Longrightarrow> eqv lt z x \<Longrightarrow> \<not> eqv lt z y"
  unfolding eqv_def using lt_le le_lt by blast

lemma same_order_exchange:
  assumes "\<And>x y. x \<in> set v \<Longrightarrow> y \<in> set u \<Longrightarrow> lt x y"
  shows "same_order lt (p @ u @ v @ r) (p @ v @ u @ r)"
  unfolding same_order_def
proof
  fix z
  have "filter (eqv lt z) u = [] \<or> filter (eqv lt z) v = []"
    unfolding filter_empty_conv using assms eqv_less by blast
  then show "filter (eqv lt z) (p @ v @ u @ r) = filter (eqv lt z) (p @ u @ v @ r)" by auto
qed

lemma stab_exchange:
  assumes "\<And>x y. x \<in> set v \<Longrightarrow> y \<in> set u \<Longrightarrow> lt x y" "a \<le> length p" "length p + length u + length v \<le> b"
  shows "stab lt a b (p @ u @ v @ r) (p @ v @ u @ r)"
proof -
  have "perm_range a b (p @ u @ v @ r) (p @ v @ u @ r)"
    using assms(2,3) by (auto simp: perm_range_def nth_append add.commute add.left_commute)
  moreover have "same_order lt (p @ u @ v @ r) (p @ v @ u @ r)" using assms(1) by (rule same_order_exchange)
  ultimately show ?thesis by (simp add: stab_def)
qed

lemma exchange_stab:
  assumes "a' \<le> a" "a \<le> m" "m \<le> b" "b \<le> b'" "b \<le> length xs"
    and "\<And>i j. a \<le> i \<Longrightarrow> i < m \<Longrightarrow> m \<le> j \<Longrightarrow> j < b \<Longrightarrow> lt (xs ! j) (xs ! i)"
  shows "stab lt a' b' xs (exchange a m b xs)"
proof -
  note sp = seg_split [OF assms(2,3,5)]
  have "stab lt a' b' (take a xs @ seg a m xs @ seg m b xs @ drop b xs) (exchange a m b xs)"
    unfolding exchange_def
    by (rule stab_exchange) (use assms sp(2,3,4) in \<open>auto simp: set_seg\<close>)
  then show ?thesis using sp(1) by simp
qed

lemma view_swap:
  "view s = p @ x # q @ y # r \<Longrightarrow> view (Swap D s (length p) (Suc (length p + length q))) = p @ y # q @ x # r"
  by (simp add: Swap_view swap_elems_append)

lemma view_swap':
  "view s = p @ x # q @ y # r \<Longrightarrow> view (Swap D s (Suc (length p + length q)) (length p)) = p @ y # q @ x # r"
  by (simp add: Swap_view swap_elems_append swap_elems_commute [of _ "Suc _"])

lemma swapRange_loop_view:
  "view s = p @ u @ q @ w @ r \<Longrightarrow> length u = n \<Longrightarrow> length w = n \<Longrightarrow> length p = a + i \<Longrightarrow>
     length p + n + length q = b + i \<Longrightarrow> view (swapRange_loop D a b n s i) = p @ w @ q @ u @ r"
proof (induction n arbitrary: s i p u q w)
  case (Suc n)
  obtain x u' y w' where u: "u = x # u'" "length u' = n" and w: "w = y # w'" "length w' = n"
    using Suc.prems(2,3) by (auto simp: length_Suc_conv)
  have ix: "b + i = Suc (length p + length (u' @ q))" using Suc.prems(4,5) u(2) by simp
  have "view (Swap D s (a + i) (b + i)) = p @ y # (u' @ q) @ x # w' @ r"
    unfolding ix Suc.prems(4) [symmetric] using Suc.prems(1) u w by (intro view_swap) simp
  then have "view (Swap D s (a + i) (b + i)) = (p @ [y]) @ u' @ (q @ [x]) @ w' @ r" by simp
  from Suc.IH [OF this u(2) w(2), of "i + 1"] Suc.prems(4,5) show ?case by (simp add: u w)
qed simp

lemma swapRange_view:
  "view s = p @ u @ q @ w @ r \<Longrightarrow> length u = n \<Longrightarrow> length w = n \<Longrightarrow> length p = a \<Longrightarrow>
     length p + n + length q = b \<Longrightarrow> view (swapRange D s a b n) = p @ w @ q @ u @ r"
  unfolding swapRange_def by (rule swapRange_loop_view) simp_all

lemma rotate_loop_view:
  "view s = p @ u @ w @ r \<Longrightarrow> length u = i \<Longrightarrow> length w = j \<Longrightarrow> length p + i = m \<Longrightarrow> 0 < i \<Longrightarrow> 0 < j \<Longrightarrow>
     \<exists>t. rotate_loop D s m i j = Some t \<and> view t = p @ w @ u @ r"
proof (induction "i + j" arbitrary: s p u w r i j rule: less_induct)
  case less
  note pr = less.prems
  consider "i = j" | "j < i" | "i < j" by linarith
  then show ?case
  proof cases
    case 1
    have "view (swapRange D s (m - i) m i) = p @ w @ [] @ u @ r"
      by (rule swapRange_view) (use pr 1 in auto)
    then show ?thesis using 1 by (subst rotate_loop.simps) simp
  next
    case 2
    define u1 u2 where "u1 = take j u" and "u2 = drop j u"
    have u: "u = u1 @ u2" "length u1 = j" "length u2 = i - j" using 2 pr(2) by (simp_all add: u1_def u2_def)
    have v: "view (swapRange D s (m - i) m j) = p @ w @ u2 @ u1 @ r"
      by (rule swapRange_view) (use pr u 2 in auto)
    have "\<exists>t. rotate_loop D (swapRange D s (m - i) m j) m (i - j) j = Some t \<and> view t = (p @ w) @ u1 @ u2 @ r"
      by (rule less.hyps) (use pr u 2 v in auto)
    then show ?thesis using 2 u by (subst rotate_loop.simps) simp
  next
    case 3
    define w1 w2 where "w1 = take (j - i) w" and "w2 = drop (j - i) w"
    have w: "w = w1 @ w2" "length w1 = j - i" "length w2 = i" using 3 pr(3) by (simp_all add: w1_def w2_def)
    have v: "view (swapRange D s (m - i) (m + j - i) i) = p @ w2 @ w1 @ u @ r"
      by (rule swapRange_view) (use pr w 3 in auto)
    have "\<exists>t. rotate_loop D (swapRange D s (m - i) (m + j - i) i) m i (j - i) = Some t \<and> view t = p @ w1 @ w2 @ u @ r"
      by (rule less.hyps) (use pr w 3 v in auto)
    then show ?thesis using 3 w by (subst rotate_loop.simps) simp
  qed
qed

lemma rotate_sort_view:
  assumes "a < m" "m < b" "b \<le> length (view s)"
  shows "\<exists>t. rotate_sort D s a m b = Some t \<and> view t = exchange a m b (view s)"
  unfolding rotate_sort_def exchange_def
  by (rule rotate_loop_view) (use assms seg_split [of a m b "view s"] in auto)

end

context sort_data
begin

section \<open>Moving one element, insertion sort\<close>

lemma bubble_up_view:
  "view s = p @ x # w @ r \<Longrightarrow> length p = k \<Longrightarrow> i = Suc (k + length w) \<Longrightarrow> view (bubble_up D s k i) = p @ w @ x # r"
proof (induction w arbitrary: s p k)
  case (Cons y w)
  have "view (Swap D s k (k + 1)) = p @ y # [] @ x # w @ r"
    using view_swap [of s p x "[]" y "w @ r"] Cons.prems(1,2) by simp
  then have "view (Swap D s k (k + 1)) = (p @ [y]) @ x # w @ r" by simp
  from Cons.IH [OF this, of "k + 1"] Cons.prems(2,3) show ?case by (subst bubble_up.simps) simp
qed (subst bubble_up.simps, simp)

lemma bubble_down_view:
  "view s = p @ w @ x # r \<Longrightarrow> length p = i \<Longrightarrow> k = i + length w \<Longrightarrow> view (bubble_down D s k i) = p @ x # w @ r"
proof (induction w arbitrary: s r k rule: rev_induct)
  case (snoc y w)
  have k: "k - 1 = length (p @ w)" "k = Suc (length (p @ w) + length [])" using snoc.prems(2,3) by simp_all
  have "view (Swap D s k (k - 1)) = (p @ w) @ x # [] @ y # r"
    unfolding k(1) by (subst k(2), rule view_swap') (use snoc.prems(1) in simp)
  then have "view (Swap D s k (k - 1)) = p @ w @ x # y # r" by simp
  from snoc.IH [OF this snoc.prems(2), of "k - 1"] snoc.prems(2,3) show ?case by (subst bubble_down.simps) simp
qed (subst bubble_down.simps, simp)

lemma stab_swap:
  assumes "a \<le> j" "Suc j < b" "b \<le> length (view s)" "lt (view s ! Suc j) (view s ! j)"
  shows "stab lt a b (view s) (view (Swap D s (Suc j) j))"
proof -
  define p r where "p = take j (view s)" and "r = drop (Suc (Suc j)) (view s)"
  have p: "length p = j" using assms by (simp add: p_def)
  have v: "view s = p @ view s ! j # [] @ view s ! Suc j # r"
    using assms(2,3) by (simp add: p_def r_def Cons_nth_drop_Suc)
  have "view (Swap D s (Suc j) j) = p @ view s ! Suc j # [] @ view s ! j # r"
    using view_swap' [OF v] p by simp
  moreover have "stab lt a b (p @ [view s ! j] @ [view s ! Suc j] @ r) (p @ [view s ! Suc j] @ [view s ! j] @ r)"
    by (rule stab_exchange) (use assms p in auto)
  ultimately show ?thesis using v by simp
qed

lemma insertionSort_inner_stab:
  "a \<le> j \<Longrightarrow> j < b \<Longrightarrow> b \<le> length (view s) \<Longrightarrow> stab lt a b (view s) (view (insertionSort_inner D s a j))"
proof (induction j arbitrary: s)
  case (Suc j)
  show ?case
  proof (cases "a < Suc j \<and> Less D s (Suc j) j")
    case True
    then have sw: "stab lt a b (view s) (view (Swap D s (Suc j) j))"
      using Suc.prems by (intro stab_swap) (auto simp: Less_view)
    have "stab lt a b (view (Swap D s (Suc j) j)) (view (insertionSort_inner D (Swap D s (Suc j) j) a j))"
      by (rule Suc.IH) (use True Suc.prems stab_length [OF sw] in auto)
    then show ?thesis using True stab_trans [OF sw] by (subst insertionSort_inner.simps) simp
  qed (subst insertionSort_inner.simps, auto)
qed (subst insertionSort_inner.simps, simp)

lemma insertionSort_outer_stab:
  "a \<le> i \<Longrightarrow> b \<le> length (view s) \<Longrightarrow> stab lt a b (view s) (view (insertionSort_outer D s a b i))"
proof (induction "b - i" arbitrary: s i)
  case 0
  then show ?case by (subst insertionSort_outer.simps) auto
next
  case (Suc n)
  have st: "stab lt a b (view s) (view (insertionSort_inner D s a i))"
    using Suc.hyps(2) Suc.prems by (intro insertionSort_inner_stab) auto
  have "stab lt a b (view (insertionSort_inner D s a i)) (view (insertionSort_outer D (insertionSort_inner D s a i) a b (i + 1)))"
    using Suc.hyps(2) Suc.prems stab_length [OF st] by (intro Suc.hyps(1)) auto
  then show ?case using Suc.hyps(2) stab_trans [OF st] by (subst insertionSort_outer.simps) simp
qed

lemma insertionSort_stab:
  assumes "a \<le> b" "b \<le> length (view s)"
  shows "stab lt a b (view s) (view (insertionSort D s a b)) \<and> ordered lt a b (view (insertionSort D s a b))"
  using insertionSort_correct [OF assms] insertionSort_outer_stab [of a "a + 1" b s] assms by (simp add: insertionSort_def)

section \<open>In-place merging\<close>

lemma ordered_le: "ordered lt a b xs \<Longrightarrow> a \<le> i \<Longrightarrow> i \<le> j \<Longrightarrow> j < b \<Longrightarrow> \<not> lt (xs ! j) (xs ! i)"
  by (cases "i = j") (auto simp: ordered_def)

text \<open>One element against a sorted segment.\<close>

lemma insert_up:
  assumes "a < b" "b \<le> length (view s)" "ordered lt (Suc a) b (view s)"
  shows "stab lt a b (view s) (view (bubble_up D s a (bsearch (\<lambda>h. Less D s h a) (Suc a) b))) \<and>
    ordered lt a b (view (bubble_up D s a (bsearch (\<lambda>h. Less D s h a) (Suc a) b)))"
proof -
  define xs i where "xs = view s" and "i = bsearch (\<lambda>h. Less D s h a) (Suc a) b"
  have i: "Suc a \<le> i" "i \<le> b" using bsearch_bounds [of "Suc a" b "\<lambda>h. Less D s h a"] assms(1) by (auto simp: i_def)
  have pre: "lt (xs ! k) (xs ! a) \<longleftrightarrow> k < i" if "Suc a \<le> k" "k < b" for k
  proof -
    have "Less D s k a \<longleftrightarrow> k < i" unfolding i_def
    proof (rule bsearch_prefix)
      fix k l assume "Suc a \<le> k" "k \<le> l" "l < b" "Less D s l a"
      then show "Less D s k a"
        using assms ordered_le [OF assms(3), of k l] by (auto simp: Less_view intro: le_lt)
    qed (use that assms(1) in auto)
    then show ?thesis using that assms by (simp add: Less_view xs_def)
  qed
  have ex: "view (bubble_up D s a i) = exchange a (Suc a) i xs"
  proof -
    have sp: "xs = take a xs @ seg a (Suc a) xs @ seg (Suc a) i xs @ drop i xs"
      "length (take a xs) = a" "length (seg a (Suc a) xs) = 1" "length (seg (Suc a) i xs) = i - Suc a"
      using seg_split [of a "Suc a" i xs] i assms(2) by (simp_all add: xs_def)
    then obtain x where x: "seg a (Suc a) xs = [x]" by (auto simp: length_Suc_conv)
    show ?thesis unfolding exchange_def x
      using bubble_up_view [of s "take a xs" x "seg (Suc a) i xs" "drop i xs" a i] sp x i by (simp add: xs_def)
  qed
  have st: "stab lt a b xs (exchange a (Suc a) i xs)"
    by (rule exchange_stab) (use i assms pre in \<open>auto simp: xs_def less_Suc_eq\<close>)
  obtain c where c: "i = Suc c" "a \<le> c" using i(1) by (cases i) auto
  define ys where "ys = exchange a (Suc a) i xs"
  note nth = exchange_nth [of a "Suc a" i xs, folded ys_def]
  have l: "i \<le> length xs" "a \<le> Suc a" "Suc a \<le> i" using i assms by (auto simp: xs_def)
  have lo: "ys ! k = xs ! Suc k" if "a \<le> k" "k < c" for k using nth(2) [OF l(2,3,1), of k] c that by simp
  have mid: "ys ! c = xs ! a" using nth(3) [OF l(2,3,1), of c] c by simp
  have hi: "ys ! k = xs ! k" if "i \<le> k" "k < b" for k using nth(4) [OF l(2,3,1), of k] that assms(2) by (simp add: xs_def)
  have o: "ordered lt (Suc a) b xs" using assms(3) by (simp add: xs_def)
  have "ordered lt a b ys"
  proof (rule ordered_pivot [of _ c])
    show "ordered lt a c ys" using o i(2) c by (auto simp: ordered_def lo)
    show "ordered lt (Suc c) b ys" using o c by (auto simp: ordered_def hi)
    show "\<forall>k. a \<le> k \<and> k < c \<longrightarrow> \<not> lt (ys ! c) (ys ! k)" using pre i(2) c lt_asym by (auto simp: lo mid)
    show "\<forall>k. c < k \<and> k < b \<longrightarrow> \<not> lt (ys ! k) (ys ! c)" using pre i(2) c by (auto simp: hi mid)
  qed
  then have "ordered lt a b (exchange a (Suc a) i xs)" by (simp add: ys_def)
  then show ?thesis using st ex by (simp add: xs_def i_def)
qed

lemma insert_down:
  assumes "a \<le> m" "m < length (view s)" "ordered lt a m (view s)"
  shows "stab lt a (Suc m) (view s) (view (bubble_down D s m (bsearch (\<lambda>h. \<not> Less D s m h) a m))) \<and>
    ordered lt a (Suc m) (view (bubble_down D s m (bsearch (\<lambda>h. \<not> Less D s m h) a m)))"
proof -
  define xs i where "xs = view s" and "i = bsearch (\<lambda>h. \<not> Less D s m h) a m"
  have i: "a \<le> i" "i \<le> m" using bsearch_bounds [of a m "\<lambda>h. \<not> Less D s m h"] assms(1) by (auto simp: i_def)
  have pre: "\<not> lt (xs ! m) (xs ! k) \<longleftrightarrow> k < i" if "a \<le> k" "k < m" for k
  proof -
    have "\<not> Less D s m k \<longleftrightarrow> k < i" unfolding i_def
    proof (rule bsearch_prefix)
      fix k l assume "a \<le> k" "k \<le> l" "l < m" "\<not> Less D s m l"
      then show "\<not> Less D s m k"
        using assms ordered_le [OF assms(3), of k l] by (auto simp: Less_view intro: lt_le)
    qed (use that assms(1) in auto)
    then show ?thesis using that assms by (simp add: Less_view xs_def)
  qed
  have ex: "view (bubble_down D s m i) = exchange i m (Suc m) xs"
  proof -
    have sp: "xs = take i xs @ seg i m xs @ seg m (Suc m) xs @ drop (Suc m) xs"
      "length (take i xs) = i" "length (seg i m xs) = m - i" "length (seg m (Suc m) xs) = 1"
      using seg_split [of i m "Suc m" xs] i assms(2) by (simp_all add: xs_def)
    then obtain x where x: "seg m (Suc m) xs = [x]" by (auto simp: length_Suc_conv)
    show ?thesis unfolding exchange_def x
      using bubble_down_view [of s "take i xs" "seg i m xs" x "drop (Suc m) xs" i m] sp x i by (simp add: xs_def)
  qed
  have st: "stab lt a (Suc m) xs (exchange i m (Suc m) xs)"
  proof (rule exchange_stab)
    fix k j assume "i \<le> k" "k < m" "m \<le> j" "j < Suc m"
    then show "lt (xs ! j) (xs ! k)" using pre [of k] i(1) by (auto simp: less_Suc_eq)
  qed (use i assms in \<open>auto simp: xs_def\<close>)
  define ys where "ys = exchange i m (Suc m) xs"
  have l: "Suc m \<le> length xs" "m \<le> Suc m" using assms by (auto simp: xs_def)
  note nth = exchange_nth [OF i(2) l(2,1), folded ys_def]
  have lo: "ys ! k = xs ! k" if "k < i" for k using nth(1) that by simp
  have mid: "ys ! i = xs ! m" using nth(2) [of i] by simp
  have hi: "ys ! k = xs ! (k - 1)" if "i < k" "k < Suc m" for k using nth(3) [of k] that by simp
  have o: "ordered lt a m xs" using assms(3) by (simp add: xs_def)
  have "ordered lt a (Suc m) ys"
  proof (rule ordered_pivot [of _ i])
    show "ordered lt a i ys" using o i(2) by (auto simp: ordered_def lo)
    show "ordered lt (Suc i) (Suc m) ys"
      unfolding ordered_def
    proof (intro allI impI, elim conjE)
      fix k l assume "Suc i \<le> k" "k < l" "l < Suc m"
      then show "\<not> lt (ys ! l) (ys ! k)" using i(1) ordered_le [OF o, of "k - 1" "l - 1"] by (simp add: hi)
    qed
    show "\<forall>k. a \<le> k \<and> k < i \<longrightarrow> \<not> lt (ys ! i) (ys ! k)" using pre i(2) by (auto simp: lo mid)
    show "\<forall>k. i < k \<and> k < Suc m \<longrightarrow> \<not> lt (ys ! k) (ys ! i)"
    proof (intro allI impI, elim conjE)
      fix k assume "i < k" "k < Suc m"
      then have "a \<le> k - 1" "k - 1 < m" "\<not> k - 1 < i" using i(1) by auto
      then show "\<not> lt (ys ! k) (ys ! i)" using pre [of "k - 1"] lt_asym \<open>i < k\<close> \<open>k < Suc m\<close> by (auto simp: hi mid)
    qed
  qed
  then show ?thesis using st ex by (simp add: xs_def i_def ys_def)
qed

lemma merge_halves:
  assumes "stab lt a mid ys y2" "ordered lt a mid y2" "stab lt mid b y2 y3" "ordered lt mid b y3"
    and cross: "\<And>i j. a \<le> i \<Longrightarrow> i < mid \<Longrightarrow> mid \<le> j \<Longrightarrow> j < b \<Longrightarrow> \<not> lt (ys ! j) (ys ! i)"
    and "a \<le> mid" "mid \<le> b" "b \<le> length ys"
  shows "stab lt a b ys y3 \<and> ordered lt a b y3"
proof -
  have len: "length y2 = length ys" using stab_length [OF assms(1)] .
  have p1: "perm_range a mid ys y2" and p2: "perm_range mid b y2 y3" using assms(1,3) by (simp_all add: stab_perm)
  have low: "y3 ! i = y2 ! i" if "i < mid" for i using perm_range_outside [OF p2, of i] that assms(6-8) len by simp
  have high: "y2 ! j = ys ! j" if "mid \<le> j" "j < b" for j using perm_range_outside [OF p1, of j] that assms(6-8) by simp
  have "ordered lt a b y3"
  proof (rule ordered_join [OF _ assms(4)])
    show "ordered lt a mid y3" using assms(2) by (simp add: ordered_def low)
    show "\<forall>i j. a \<le> i \<and> i < mid \<and> mid \<le> j \<and> j < b \<longrightarrow> \<not> lt (y3 ! j) (y3 ! i)"
    proof (intro allI impI, elim conjE)
      fix i j assume ij: "a \<le> i" "i < mid" "mid \<le> j" "j < b"
      obtain i' where i': "a \<le> i'" "i' < mid" "y2 ! i = ys ! i'"
        using perm_range_nth [OF p1 _ ij(1,2)] assms(7,8) le_trans by (metis order.trans)
      obtain j' where j': "mid \<le> j'" "j' < b" "y3 ! j = y2 ! j'"
        using perm_range_nth [OF p2 _ ij(3,4)] assms(8) len by metis
      show "\<not> lt (y3 ! j) (y3 ! i)" using cross [OF i'(1,2) j'(1,2)] i'(3) j' low [OF ij(2)] high [OF j'(1,2)] by simp
    qed
  qed
  moreover have "stab lt a b ys y3"
    using stab_trans stab_mono [OF assms(1), of a b] stab_mono [OF assms(3), of a b] assms(6,7) by blast
  ultimately show ?thesis by simp
qed

text \<open>The state after the rotation: four sorted pieces, and both halves in order.\<close>

lemma symMerge_split:
  fixes a m b mid start end' :: nat
  assumes ab: "a \<le> start" "start \<le> m" "start \<le> mid" "mid \<le> end'" "m \<le> end'" "end' \<le> b" "mid + m = start + end'"
    and xs: "b \<le> length xs" "ordered lt a m xs" "ordered lt m b xs"
    and uv: "start < m \<Longrightarrow> m < end' \<Longrightarrow> lt (xs ! (end' - 1)) (xs ! start)"
    and xy: "a < start \<Longrightarrow> end' < b \<Longrightarrow> \<not> lt (xs ! end') (xs ! (start - 1))"
    and ys: "ys = exchange start m end' xs"
  shows "stab lt a b xs ys" "ordered lt a start ys" "ordered lt start mid ys" "ordered lt mid end' ys" "ordered lt end' b ys"
    "\<And>i j. a \<le> i \<Longrightarrow> i < mid \<Longrightarrow> mid \<le> j \<Longrightarrow> j < b \<Longrightarrow> \<not> lt (ys ! j) (ys ! i)"
proof -
  have vu: "lt (xs ! j) (xs ! i)" if ij: "start \<le> i" "i < m" "m \<le> j" "j < end'" for i j
  proof -
    have "\<not> lt (xs ! (end' - 1)) (xs ! j)" using ordered_le [OF xs(3), of j "end' - 1"] ij ab by simp
    moreover have "\<not> lt (xs ! i) (xs ! start)" using ordered_le [OF xs(2), of start i] ij ab by simp
    moreover have "lt (xs ! (end' - 1)) (xs ! start)" using uv ij by simp
    ultimately show ?thesis using le_lt lt_le by blast
  qed
  have e: "end' \<le> length xs" and mid: "mid = start + (end' - m)" using ab xs(1) by auto
  note nth = exchange_nth [OF ab(2,5) e, folded ys]
  have n1: "ys ! i = xs ! i" if "i < start" for i using nth(1) that .
  have n2: "ys ! i = xs ! (i - start + m)" if "start \<le> i" "i < mid" for i using nth(2) that mid by simp
  have n3: "ys ! i = xs ! (i - (end' - m))" if "mid \<le> i" "i < end'" for i using nth(3) that mid by simp
  have n4: "ys ! i = xs ! i" if "end' \<le> i" "i < b" for i using nth(4) that xs(1) by simp
  show "stab lt a b xs ys" unfolding ys by (rule exchange_stab) (use ab e vu in auto)
  show "ordered lt a start ys" using xs(2) ab(2) by (auto simp: ordered_def n1)
  show "ordered lt start mid ys" unfolding ordered_def
  proof (intro allI impI, elim conjE)
    fix i j assume "start \<le> i" "i < j" "j < mid"
    then show "\<not> lt (ys ! j) (ys ! i)"
      using ordered_le [OF xs(3), of "i - start + m" "j - start + m"] mid ab by (simp add: n2)
  qed
  show "ordered lt mid end' ys" unfolding ordered_def
  proof (intro allI impI, elim conjE)
    fix i j assume "mid \<le> i" "i < j" "j < end'"
    then show "\<not> lt (ys ! j) (ys ! i)"
      using ordered_le [OF xs(2), of "i - (end' - m)" "j - (end' - m)"] mid ab by (simp add: n3)
  qed
  show "ordered lt end' b ys" using xs(3) ab(5) by (auto simp: ordered_def n4)
  fix i j assume ij: "a \<le> i" "i < mid" "mid \<le> j" "j < b"
  show "\<not> lt (ys ! j) (ys ! i)"
  proof (cases "i < start")
    case i: True
    show ?thesis
    proof (cases "j < end'")
      case True
      have "\<not> lt (xs ! (j - (end' - m))) (xs ! i)"
        by (rule ordered_le [OF xs(2)]) (use i True ij ab mid in auto)
      then show ?thesis using i True ij by (simp add: n1 n3)
    next
      case False
      have "\<not> lt (xs ! (start - 1)) (xs ! i)" by (rule ordered_le [OF xs(2)]) (use i ij ab in auto)
      moreover have "\<not> lt (xs ! end') (xs ! (start - 1))" using xy i ij False by simp
      moreover have "\<not> lt (xs ! j) (xs ! end')" by (rule ordered_le [OF xs(3)]) (use ij ab False in auto)
      ultimately have "\<not> lt (xs ! j) (xs ! i)" using le_trans by blast
      then show ?thesis using i False ij by (simp add: n1 n4)
    qed
  next
    case i: False
    show ?thesis
    proof (cases "j < end'")
      case True
      have "lt (xs ! (i - start + m)) (xs ! (j - (end' - m)))" by (rule vu) (use i True ij ab mid in auto)
      then show ?thesis using i True ij lt_asym by (simp add: n2 n3)
    next
      case False
      have "\<not> lt (xs ! j) (xs ! (i - start + m))" by (rule ordered_le [OF xs(3)]) (use i ij ab False mid in auto)
      then show ?thesis using i False ij by (simp add: n2 n4)
    qed
  qed
qed

lemma symMerge_search:
  fixes a m b mid start0 r start :: nat
  assumes "a < m" "m < b" and mid: "mid = (a + b) div 2"
    and st: "(start0, r) = (if m > mid then (mid + m - b, mid) else (a, m))"
    and s: "start = bsearch (\<lambda>c. \<not> L (mid + m - 1 - c) c) start0 r"
  shows "a \<le> start" "start \<le> m" "start \<le> mid" "mid \<le> mid + m - start" "m \<le> mid + m - start" "mid + m - start \<le> b"
    "start < m \<Longrightarrow> m < mid + m - start \<Longrightarrow> L (mid + m - start - 1) start"
    "a < start \<Longrightarrow> mid + m - start < b \<Longrightarrow> \<not> L (mid + m - start) (start - 1)"
proof -
  have mb: "a \<le> mid" "mid < b" "2 * mid \<le> a + b" "a + b \<le> 2 * mid + 1" using assms(1,2) by (auto simp: mid)
  have r: "a \<le> start0" "start0 \<le> r" "r \<le> m" "r \<le> mid" "start0 = a \<or> start0 = mid + m - b" "mid + m - b \<le> start0"
    "r = m \<or> r = mid"
    using st mb assms(1,2) by (auto split: if_splits)
  note bs = bsearch_bounds [OF r(2), of "\<lambda>c. \<not> L (mid + m - 1 - c) c", folded s]
  show "a \<le> start" "start \<le> m" "start \<le> mid" "mid \<le> mid + m - start" "m \<le> mid + m - start" "mid + m - start \<le> b"
    using bs r by auto
  show "L (mid + m - start - 1) start" if "start < m" "m < mid + m - start"
  proof -
    have "start < r" using that r(7) by auto
    moreover have "mid + m - 1 - start = mid + m - start - 1" by simp
    ultimately show ?thesis using bs by simp
  qed
  show "\<not> L (mid + m - start) (start - 1)" if "a < start" "mid + m - start < b"
  proof -
    have "start0 < start" using that r(5) bs by auto
    moreover have "mid + m - 1 - (start - 1) = mid + m - start" using that by simp
    ultimately show ?thesis using bs by simp
  qed
qed

lemma symMerge_correct:
  "a < m \<Longrightarrow> m < b \<Longrightarrow> b \<le> length (view s) \<Longrightarrow> ordered lt a m (view s) \<Longrightarrow> ordered lt m b (view s) \<Longrightarrow>
    \<exists>t. symMerge D s a m b = Some t \<and> stab lt a b (view s) (view t) \<and> ordered lt a b (view t)"
proof (induction "b - a" arbitrary: s a m b rule: less_induct)
  case less
  note pr = less.prems
  consider (up) "m = Suc a" | (down) "m - a \<noteq> 1" "b = Suc m" | (split) "m - a \<noteq> 1" "b - m \<noteq> 1" using pr by linarith
  then show ?case
  proof cases
    case up
    then show ?thesis using insert_up [of a b s] pr by (subst symMerge.simps) simp
  next
    case down
    then show ?thesis using insert_down [of a m s] pr by (subst symMerge.simps) simp
  next
    case split
    define mid where "mid = (a + b) div 2"
    obtain start0 r where st: "(start0, r) = (if m > mid then (mid + m - b, mid) else (a, m))" by (metis surj_pair)
    define start where "start = bsearch (\<lambda>c. \<not> Less D s (mid + m - 1 - c) c) start0 r"
    define e where "e = mid + m - start"
    note sr = symMerge_search [where L = "Less D s", OF pr(1,2) mid_def st start_def, folded e_def]
    have eq: "symMerge D s a m b =
        (case (if start < m \<and> m < e then rotate_sort D s start m e else Some s) of
             None \<Rightarrow> None
           | Some s \<Rightarrow>
               (case (if a < start \<and> start < mid then symMerge D s a start mid else Some s) of
                  None \<Rightarrow> None
                | Some s \<Rightarrow> if mid < e \<and> e < b then symMerge D s mid e b else Some s))"
      unfolding symMerge.simps [of D s a m b] Let_def mid_def [symmetric] st [symmetric] prod.case
      unfolding start_def [symmetric] e_def [symmetric] using split by simp
    obtain s1 where s1: "(if start < m \<and> m < e then rotate_sort D s start m e else Some s) = Some s1"
      "view s1 = exchange start m e (view s)"
    proof (cases "start < m \<and> m < e")
      case True
      then show thesis using rotate_sort_view [of start m e s] sr(6) pr(3) that by auto
    next
      case False
      then have "exchange start m e (view s) = view s"
        using sr(2,5,6) pr(3) by (intro exchange_trivial) auto
      then show thesis using False that [of s] by auto
    qed
    have uv: "lt (view s ! (e - 1)) (view s ! start)" if "start < m" "m < e"
      using sr(7) [OF that] Less_view [of "e - 1" s start] that sr(6) pr(2,3) by simp
    have xy: "\<not> lt (view s ! e) (view s ! (start - 1))" if "a < start" "e < b"
      using sr(8) [OF that] Less_view [of e s "start - 1"] that sr(2) pr(2,3) by simp
    have sum: "mid + m = start + e" using sr(2) by (simp add: e_def)
    note sp = symMerge_split [OF sr(1-6) sum pr(3-5) uv xy s1(2)]
    have len: "length (view s1) = length (view s)" using stab_length [OF sp(1)] .
    have mid: "a \<le> mid" "mid < b" using pr(1,2) by (auto simp: mid_def)
    obtain s2 where s2: "(if a < start \<and> start < mid then symMerge D s1 a start mid else Some s1) = Some s2"
      "stab lt a mid (view s1) (view s2)" "ordered lt a mid (view s2)"
    proof (cases "a < start \<and> start < mid")
      case True
      then have lt: "mid - a < b - a" using mid by (intro diff_less_mono)
      have "mid \<le> length (view s1)" using mid len pr(3) by simp
      then show thesis using less.hyps [OF lt _ _ _ sp(2,3)] True that by auto
    next
      case False
      then have "a = start \<or> start = mid" using sr(1,3) by auto
      then show thesis using False sp(2,3) that by auto
    qed
    have low: "ordered lt mid e (view s2)" "ordered lt e b (view s2)"
    proof -
      have "view s2 ! k = view s1 ! k" if "mid \<le> k" "k < b" for k
        using perm_range_outside [OF stab_perm [OF s2(2)], of k] that len pr(3) by simp
      then show "ordered lt mid e (view s2)" "ordered lt e b (view s2)"
        using sp(4,5) sr(4,6) by (auto simp: ordered_def)
    qed
    obtain s3 where s3: "(if mid < e \<and> e < b then symMerge D s2 mid e b else Some s2) = Some s3"
      "stab lt mid b (view s2) (view s3)" "ordered lt mid b (view s3)"
    proof (cases "mid < e \<and> e < b")
      case True
      have lt: "b - mid < b - a" using split pr(1,2) by (auto simp: mid_def)
      have "b \<le> length (view s2)" using len pr(3) stab_length [OF s2(2)] by simp
      then show thesis using less.hyps [OF lt _ _ _ low] True that by auto
    next
      case False
      then have "mid = e \<or> e = b" using sr(4,6) by auto
      then show thesis using False low that by auto
    qed
    have "stab lt a b (view s1) (view s3) \<and> ordered lt a b (view s3)"
      by (rule merge_halves [OF s2(2,3) s3(2,3) sp(6)]) (use mid len pr(3) in auto)
    then have "stab lt a b (view s) (view s3)" "ordered lt a b (view s3)" using stab_trans [OF sp(1)] by blast+
    then show ?thesis unfolding eq using s1(1) s2(1) s3(1) by simp
  qed
qed

section \<open>Stable\<close>

lemma stable_blocks_correct:
  "n \<le> length (view s) \<Longrightarrow> a = k * 20 \<Longrightarrow> b = a + 20 \<Longrightarrow> a \<le> n \<Longrightarrow>
    (\<And>i. i < k \<Longrightarrow> ordered lt (i * 20) (Suc i * 20) (view s)) \<Longrightarrow> stable_blocks D s n a b = (t, a') \<Longrightarrow>
    stab lt 0 n (view s) (view t) \<and> a' \<le> n \<and> n < a' + 20 \<and> (\<exists>k'. a' = k' * 20 \<and>
      (\<forall>i<k'. ordered lt (i * 20) (Suc i * 20) (view t)))"
proof (induction "n - a" arbitrary: s a b k rule: less_induct)
  case less
  note pr = less.prems
  show ?case
  proof (cases "b \<le> n")
    case True
    define u where "u = insertionSort D s a b"
    have u: "stab lt a b (view s) (view u)" "ordered lt a b (view u)"
      using insertionSort_stab [of a b s] pr True by (auto simp: u_def)
    have "ordered lt (i * 20) (Suc i * 20) (view u)" if "i < Suc k" for i
    proof (cases "i = k")
      case False
      then have "i < k" using that by simp
      then have "view u ! j = view s ! j" if "j < Suc i * 20" for j
        using perm_range_outside [OF stab_perm [OF u(1)], of j] that pr(1,2,4) by auto
      then show ?thesis using pr(5) [OF \<open>i < k\<close>] by (simp add: ordered_def)
    qed (use u(2) pr(2,3) in \<open>simp add: add.commute\<close>)
    moreover have "stable_blocks D u n b (b + 20) = (t, a')"
      using pr(6) True by (subst (asm) stable_blocks.simps) (simp add: u_def)
    ultimately have "stab lt 0 n (view u) (view t) \<and> a' \<le> n \<and> n < a' + 20 \<and> (\<exists>k'. a' = k' * 20 \<and>
      (\<forall>i<k'. ordered lt (i * 20) (Suc i * 20) (view t)))"
      using pr(1-4) True stab_length [OF u(1)] by (intro less.hyps [of b u "Suc k"]) auto
    then show ?thesis using stab_mono [OF u(1), of 0 n] True stab_trans by blast
  next
    case False
    then have "t = s" "a' = a" using pr(6) by (subst (asm) stable_blocks.simps, simp)+
    then show ?thesis using False pr by auto
  qed
qed

text \<open>The blocks of size \<open>k\<close> that start at index \<open>lo\<close> or later are in order; the last one may be short.\<close>

definition blocks :: "nat \<Rightarrow> nat \<Rightarrow> nat \<Rightarrow> 'a list \<Rightarrow> bool" where
  "blocks k lo n xs \<longleftrightarrow> (\<forall>i. lo \<le> i * k \<and> i * k < n \<longrightarrow> ordered lt (i * k) (min (Suc i * k) n) xs)"

lemma ordered_cong: "(\<And>i. a \<le> i \<Longrightarrow> i < b \<Longrightarrow> ys ! i = xs ! i) \<Longrightarrow> ordered lt a b xs \<Longrightarrow> ordered lt a b ys"
  by (auto simp: ordered_def)

lemma stable_pass_correct:
  "0 < k \<Longrightarrow> n \<le> length (view s) \<Longrightarrow> a = 2 * q * k \<Longrightarrow> b = a + 2 * k \<Longrightarrow> a \<le> n \<Longrightarrow>
    (\<And>i. i < q \<Longrightarrow> ordered lt (2 * i * k) (2 * Suc i * k) (view s)) \<Longrightarrow> blocks k a n (view s) \<Longrightarrow>
    \<exists>t a' q'. stable_pass D s n k a b = Some (t, a') \<and> stab lt 0 n (view s) (view t) \<and> a' = 2 * q' * k \<and>
      a' \<le> n \<and> n < a' + 2 * k \<and> (\<forall>i<q'. ordered lt (2 * i * k) (2 * Suc i * k) (view t)) \<and> blocks k a' n (view t)"
proof (induction "n - a" arbitrary: s a b q rule: less_induct)
  case less
  note pr = less.prems
  show ?case
  proof (cases "b \<le> n")
    case True
    have "ordered lt a (a + k) (view s)" "ordered lt (a + k) b (view s)"
      using pr(7) [unfolded blocks_def, rule_format, of "2 * q"] pr(7) [unfolded blocks_def, rule_format, of "Suc (2 * q)"]
        True pr(1,3,4) by (simp_all add: min_def algebra_simps split: if_splits)
    then obtain u where u: "symMerge D s a (a + k) b = Some u" "stab lt a b (view s) (view u)" "ordered lt a b (view u)"
      using symMerge_correct [of a "a + k" b s] pr(1,2,4) True by auto
    have out: "view u ! j = view s ! j" if "j < a \<or> b \<le> j \<and> j < n" for j
      using perm_range_outside [OF stab_perm [OF u(2)], of j] that pr(2,5) by auto
    have lo: "ordered lt (2 * i * k) (2 * Suc i * k) (view u)" if "i < Suc q" for i
    proof (cases "i = q")
      case False
      then have "i < q" using that by simp
      then have "2 * Suc i * k \<le> a" unfolding pr(3) by (intro mult_le_mono) auto
      then show ?thesis by (intro ordered_cong [OF _ pr(6) [OF \<open>i < q\<close>]] out) auto
    qed (use u(3) pr(3,4) in \<open>simp add: algebra_simps\<close>)
    have "blocks k b n (view u)"
      unfolding blocks_def
    proof (intro allI impI, elim conjE)
      fix i assume i: "b \<le> i * k" "i * k < n"
      show "ordered lt (i * k) (min (Suc i * k) n) (view u)"
      proof (rule ordered_cong)
        show "ordered lt (i * k) (min (Suc i * k) n) (view s)"
          using i pr(4) pr(7) unfolding blocks_def by simp
        fix j assume "i * k \<le> j" "j < min (Suc i * k) n"
        then show "view u ! j = view s ! j" using i(1) by (intro out) simp
      qed
    qed
    with lo have "\<exists>t a' q'. stable_pass D u n k b (b + 2 * k) = Some (t, a') \<and> stab lt 0 n (view u) (view t) \<and> a' = 2 * q' * k \<and>
      a' \<le> n \<and> n < a' + 2 * k \<and> (\<forall>i<q'. ordered lt (2 * i * k) (2 * Suc i * k) (view t)) \<and> blocks k a' n (view t)"
      using pr(1-4) True stab_length [OF u(2)] by (intro less.hyps [of b u "Suc q"]) (auto simp: algebra_simps)
    moreover have "stab lt 0 n (view s) (view u)" using stab_mono [OF u(2)] True by simp
    ultimately show ?thesis using u(1) True by (subst stable_pass.simps) (auto intro: stab_trans)
  next
    case False
    then show ?thesis using pr by (subst stable_pass.simps) auto
  qed
qed

lemma stable_merges_correct:
  "0 < k \<Longrightarrow> n \<le> length (view s) \<Longrightarrow> blocks k 0 n (view s) \<Longrightarrow>
    \<exists>t. stable_merges D s n k = Some t \<and> stab lt 0 n (view s) (view t) \<and> ordered lt 0 n (view t)"
proof (induction "n - k" arbitrary: s k rule: less_induct)
  case less
  note pr = less.prems
  show ?case
  proof (cases "k < n")
    case True
    obtain t a q where t: "stable_pass D s n k 0 (2 * k) = Some (t, a)" "stab lt 0 n (view s) (view t)" "a = 2 * q * k"
      "a \<le> n" "n < a + 2 * k" "\<forall>i<q. ordered lt (2 * i * k) (2 * Suc i * k) (view t)" "blocks k a n (view t)"
      using stable_pass_correct [of k n s 0 0 "2 * k"] pr by auto
    have len: "n \<le> length (view t)" using stab_length [OF t(2)] pr(2) by simp
    obtain u where u: "(if a + k < n then symMerge D t a (a + k) n else Some t) = Some u"
      "stab lt a n (view t) (view u)" "ordered lt a n (view u)"
    proof (cases "a + k < n")
      case True
      have "ordered lt a (a + k) (view t)" "ordered lt (a + k) n (view t)"
        using t(7) [unfolded blocks_def, rule_format, of "2 * q"] t(7) [unfolded blocks_def, rule_format, of "Suc (2 * q)"]
          True t(3,5) pr(1) by (simp_all add: min_def algebra_simps split: if_splits)
      then show thesis using symMerge_correct [of a "a + k" n t] pr(1) True len that by auto
    next
      case False
      have "ordered lt a n (view t)"
        using t(7) [unfolded blocks_def, rule_format, of "2 * q"] t(3,4) False
        by (cases "a = n") (auto simp: min_def algebra_simps ordered_def split: if_splits)
      then show thesis using that [of t] False by simp
    qed
    have "blocks (k * 2) 0 n (view u)"
      unfolding blocks_def
    proof (intro allI impI, elim conjE)
      fix i assume i: "i * (k * 2) < n"
      show "ordered lt (i * (k * 2)) (min (Suc i * (k * 2)) n) (view u)"
      proof (cases "i < q")
        case True
        then have le: "2 * Suc i * k \<le> a" unfolding t(3) by (intro mult_le_mono) auto
        have "ordered lt (2 * i * k) (2 * Suc i * k) (view u)"
        proof (rule ordered_cong)
          fix j assume "j < 2 * Suc i * k"
          then show "view u ! j = view t ! j"
            using perm_range_outside [OF stab_perm [OF u(2)], of j] le t(4) len by auto
        qed (use t(6) True in blast)
        then show ?thesis using le t(4) by (simp add: algebra_simps min_def)
      next
        case False
        have "i < Suc q"
        proof (rule ccontr)
          assume "\<not> i < Suc q"
          then have "Suc q * (k * 2) \<le> i * (k * 2)" by (intro mult_le_mono1) simp
          then show False using i t(3,5) by (simp add: algebra_simps)
        qed
        then have "i = q" using False by simp
        then show ?thesis using u(3) t(3,5) by (simp add: algebra_simps min_def)
      qed
    qed
    then obtain w where "stable_merges D u n (k * 2) = Some w" "stab lt 0 n (view u) (view w)" "ordered lt 0 n (view w)"
      using less.hyps [of "k * 2" u] True pr(1) len stab_length [OF u(2)] diff_less_mono2 [of k "k * 2" n] by auto
    moreover have "stab lt 0 n (view s) (view u)" using t(2) stab_mono [OF u(2), of 0 n] stab_trans by blast
    ultimately show ?thesis using True t(1) u(1) by (subst stable_merges.simps) (auto intro: stab_trans)
  next
    case False
    then have "ordered lt 0 n (view s)"
      using pr(1) pr(3) [unfolded blocks_def, rule_format, of 0] by (cases "n = 0") (auto simp: ordered_def min_def split: if_splits)
    then show ?thesis using False by (subst stable_merges.simps) auto
  qed
qed

lemma stable_correct:
  assumes "n \<le> length (view s)"
  shows "\<exists>t. stable D s n = Some t \<and> stab lt 0 n (view s) (view t) \<and> ordered lt 0 n (view t)"
proof -
  obtain t a where t: "stable_blocks D s n 0 20 = (t, a)" by fastforce
  then obtain k where k: "stab lt 0 n (view s) (view t)" "a \<le> n" "n < a + 20" "a = k * 20"
    "\<forall>i<k. ordered lt (i * 20) (Suc i * 20) (view t)"
    using stable_blocks_correct [of n s 0 0 20 t a] assms by auto
  define u where "u = insertionSort D t a n"
  have len: "n \<le> length (view t)" using stab_length [OF k(1)] assms by simp
  have u: "stab lt a n (view t) (view u)" "ordered lt a n (view u)"
    using insertionSort_stab [OF k(2) len] by (auto simp: u_def)
  have "blocks 20 0 n (view u)"
    unfolding blocks_def
  proof (intro allI impI, elim conjE)
    fix i assume i: "i * 20 < n"
    show "ordered lt (i * 20) (min (Suc i * 20) n) (view u)"
    proof (cases "i < k")
      case True
      then have le: "Suc i * 20 \<le> a" unfolding k(4) by (intro mult_le_mono1) simp
      have "ordered lt (i * 20) (Suc i * 20) (view u)"
      proof (rule ordered_cong)
        fix j assume "j < Suc i * 20"
        then show "view u ! j = view t ! j"
          using perm_range_outside [OF stab_perm [OF u(1)], of j] le k(2) len by auto
      qed (use k(5) True in blast)
      then show ?thesis using le k(2) by (simp add: min_def)
    next
      case False
      then have "i = k" using i k(3,4) by simp
      then show ?thesis using u(2) k(3,4) by (simp add: min_def)
    qed
  qed
  then obtain w where w: "stable_merges D u n 20 = Some w" "stab lt 0 n (view u) (view w)" "ordered lt 0 n (view w)"
    using stable_merges_correct [of 20 n u] len stab_length [OF u(1)] by auto
  have "stab lt 0 n (view s) (view w)"
    using stab_trans [OF k(1) stab_trans [OF stab_mono [OF u(1)] w(2)]] by simp
  then show ?thesis using w t by (simp add: stable_def u_def)
qed

lemma Stable_correct:
  "\<exists>t. sort_Stable D s = Some t \<and> mset (view t) = mset (view s) \<and> same_order lt (view s) (view t) \<and>
     sorted_wrt (\<lambda>x y. \<not> lt y x) (view t)"
proof -
  obtain t where t: "stable D s (length (view s)) = Some t" "stab lt 0 (length (view s)) (view s) (view t)"
    "ordered lt 0 (length (view s)) (view t)"
    using stable_correct [of "length (view s)" s] by auto
  have "sorted_wrt (\<lambda>x y. \<not> lt y x) (view t)"
    using t(3) stab_length [OF t(2)] by (auto simp: sorted_wrt_iff_nth_less ordered_def)
  then show ?thesis using t perm_range_mset by (auto simp: sort_Stable_def Len_view stab_def)
qed

end

section \<open>Properties\<close>

text \<open>C4.
  \<open>Stable\<close> returns for every collection that keeps the contract of \<open>sort.Interface\<close>, although
  its loops and \<open>rotate\<close> could run forever on other arguments; the result is a permutation in
  ascending order, and elements that compare equal stay in the order they had.\<close>

theorem Stable_sorts_stably:
  assumes "sort_data D view lt"
  shows "\<exists>t. sort_Stable D s = Some t \<and> mset (view t) = mset (view s) \<and>
    sorted_wrt (\<lambda>x y. \<not> lt y x) (view t) \<and>
    (\<forall>x. filter (\<lambda>y. \<not> lt x y \<and> \<not> lt y x) (view t) = filter (\<lambda>y. \<not> lt x y \<and> \<not> lt y x) (view s))"
  using sort_data.Stable_correct [OF assms, of s] by (auto simp: same_order_def eqv_def [abs_def])

theorem Stable_sorts_stably_witness:
  "\<exists>t. sort_Stable \<lparr>Len = length, Less = \<lambda>x i j. fst (x ! i) < fst (x ! j), Swap = swap_elems\<rparr>
         [(2, CHR ''a''), (1, CHR ''b''), (2, CHR ''c''), (1 :: nat, CHR ''d'')] = Some t \<and>
     sorted (map fst t) \<and> filter (\<lambda>p. fst p = 2) t = [(2, CHR ''a''), (2, CHR ''c'')]"
proof -
  let ?D = "\<lparr>Len = length, Less = \<lambda>x i j. fst (x ! i) < fst (x ! j), Swap = swap_elems\<rparr> :: (nat \<times> char) list sort_Interface"
  have "sort_data ?D (\<lambda>x. x) (\<lambda>p q. fst p < fst q)" by unfold_locales auto
  from Stable_sorts_stably [OF this, of "[(2, CHR ''a''), (1, CHR ''b''), (2, CHR ''c''), (1, CHR ''d'')]"]
  obtain t where t: "sort_Stable ?D [(2, CHR ''a''), (1, CHR ''b''), (2, CHR ''c''), (1, CHR ''d'')] = Some t"
    "sorted_wrt (\<lambda>x y. \<not> fst y < fst x) t"
    "\<forall>x :: nat \<times> char. filter (\<lambda>y. \<not> fst x < fst y \<and> \<not> fst y < fst x) t =
       filter (\<lambda>y. \<not> fst x < fst y \<and> \<not> fst y < fst x) [(2, CHR ''a''), (1, CHR ''b''), (2, CHR ''c''), (1, CHR ''d'')]"
    by blast
  have "(\<lambda>p. fst p = (2 :: nat)) = (\<lambda>y :: nat \<times> char. \<not> 2 < fst y \<and> \<not> fst y < 2)" by auto
  then have "filter (\<lambda>p. fst p = 2) t = [(2, CHR ''a''), (2, CHR ''c'')]"
    using t(3) [rule_format, of "(2, CHR ''a'')"] by simp
  moreover have "sorted (map fst t)" using t(2) by (simp add: sorted_map not_less)
  ultimately show ?thesis using t(1) by blast
qed

lemma rotate_loop_returns: "0 < i \<longleftrightarrow> 0 < j \<Longrightarrow> \<exists>t. rotate_loop D s m i j = Some t"
proof (induction "i + j" arbitrary: s i j rule: less_induct)
  case less
  consider "i = j" | "j < i" "0 < j" | "i < j" "0 < i" using less.prems by linarith
  then show ?case
  proof cases
    case 1
    then show ?thesis by (subst rotate_loop.simps) simp
  next
    case 2
    then show ?thesis using less.hyps [of "i - j" j] by (subst rotate_loop.simps) simp
  next
    case 3
    then show ?thesis using less.hyps [of i "j - i"] by (subst rotate_loop.simps) simp
  qed
qed

lemma rotate_loop_diverges: "rotate_loop D s m i j = Some t \<Longrightarrow> 0 < i \<longleftrightarrow> 0 < j"
proof (erule rotate_loop.raw_induct [where P = "\<lambda>D s m i j t. 0 < i \<longleftrightarrow> 0 < j", rotated])
  fix loop D s m i j t
  assume "\<And>D s m i j y. loop D s m i j = Some y \<Longrightarrow> 0 < i \<longleftrightarrow> 0 < j"
    "(if i \<noteq> j then if j < i then loop D (swapRange D s (m - i) m j) m (i - j) j
        else loop D (swapRange D s (m - i) (m + j - i) i) m i (j - i)
      else Some (swapRange D s (m - i) m i)) = Some t"
  then show "0 < i \<longleftrightarrow> 0 < j" by (auto split: if_splits) (metis less_imp_diff_less zero_less_diff)+
qed

text \<open>C30.
  \<open>rotate\<close> returns exactly when its two blocks are both empty or both not; with one empty block
  its loop runs forever, which is why \<open>symMerge\<close> guards the call.\<close>

theorem rotate_terminates_iff: "(\<exists>t. rotate_sort D s a m b = Some t) \<longleftrightarrow> (a < m \<longleftrightarrow> m < b)"
  using rotate_loop_returns [of "m - a" "b - m" D s m] rotate_loop_diverges [of D s m "m - a" "b - m"]
  by (auto simp: rotate_sort_def)

end
