(* ===== verification/Heap.thy ===== *)
theory Heap
  imports Sort_Correct
begin

text \<open>
  The package \<open>container/heap\<close>: binary heaps over any collection that can be compared,
  swapped, extended and shortened at its end.  The interface of the package embeds
  \<open>sort.Interface\<close>; its contract \<open>heap_data\<close> extends the one of \<open>Sort_Correct\<close>.
\<close>

section \<open>The operations\<close>

record ('s, 'a) heap_Interface =
  heap_sort :: "'s sort_Interface"
  heap_Push :: "'s \<Rightarrow> 'a \<Rightarrow> 's"
  heap_Pop :: "'s \<Rightarrow> 'a \<times> 's"

fun heap_up :: "'s sort_Interface \<Rightarrow> 's \<Rightarrow> nat \<Rightarrow> 's" where
  "heap_up D s j =
     (let i = (j - 1) div 2 in
      if i = j \<or> \<not> Less D s j i then s else heap_up D (Swap D s i j) i)"

declare heap_up.simps [simp del]

text \<open>The loop of \<open>down\<close>, with the index it ends at.\<close>

function heap_down_loop :: "'s sort_Interface \<Rightarrow> 's \<Rightarrow> nat \<Rightarrow> nat \<Rightarrow> 's \<times> nat" where
  "heap_down_loop D s i n =
     (let j1 = 2 * i + 1 in
      if j1 \<ge> n then (s, i)
      else
        let j = (let j2 = j1 + 1 in if j2 < n \<and> Less D s j2 j1 then j2 else j1)
        in if \<not> Less D s j i then (s, i) else heap_down_loop D (Swap D s i j) j n)"
  by auto
termination by (relation "measure (\<lambda>(D, s, i, n). n - i)") (auto simp: Let_def split: if_splits)

declare heap_down_loop.simps [simp del]

definition heap_down :: "'s sort_Interface \<Rightarrow> 's \<Rightarrow> nat \<Rightarrow> nat \<Rightarrow> 's \<times> bool" where
  "heap_down D s i0 n = (let (s, i) = heap_down_loop D s i0 n in (s, i > i0))"

text \<open>The loop of \<open>Init\<close>, on the number of nodes still to be sifted.\<close>

primrec heap_Init_loop :: "'s sort_Interface \<Rightarrow> nat \<Rightarrow> nat \<Rightarrow> 's \<Rightarrow> 's" where
  "heap_Init_loop D n 0 s = s"
| "heap_Init_loop D n (Suc i) s = heap_Init_loop D n i (fst (heap_down D s i n))"

definition heap_Init :: "('s, 'a) heap_Interface \<Rightarrow> 's \<Rightarrow> 's" where
  "heap_Init H s = (let n = Len (heap_sort H) s in heap_Init_loop (heap_sort H) n (n div 2) s)"

definition container_Push :: "('s, 'a) heap_Interface \<Rightarrow> 's \<Rightarrow> 'a \<Rightarrow> 's" where
  "container_Push H s x =
     (let s = heap_Push H s x in heap_up (heap_sort H) s (Len (heap_sort H) s - 1))"

definition container_Pop :: "('s, 'a) heap_Interface \<Rightarrow> 's \<Rightarrow> 'a \<times> 's" where
  "container_Pop H s =
     (let n = Len (heap_sort H) s - 1;
          s = Swap (heap_sort H) s 0 n;
          (s, _) = heap_down (heap_sort H) s 0 n
      in heap_Pop H s)"

definition heap_Remove :: "('s, 'a) heap_Interface \<Rightarrow> 's \<Rightarrow> nat \<Rightarrow> 'a \<times> 's" where
  "heap_Remove H s i =
     (let n = Len (heap_sort H) s - 1;
          s = (if n \<noteq> i then
                 let s = Swap (heap_sort H) s i n;
                     (s, moved) = heap_down (heap_sort H) s i n
                 in if \<not> moved then heap_up (heap_sort H) s i else s
               else s)
      in heap_Pop H s)"

definition heap_Fix :: "('s, 'a) heap_Interface \<Rightarrow> 's \<Rightarrow> nat \<Rightarrow> 's" where
  "heap_Fix H s i =
     (let (s, moved) = heap_down (heap_sort H) s i (Len (heap_sort H) s)
      in if \<not> moved then heap_up (heap_sort H) s i else s)"

section \<open>The contract of a heap\<close>

text \<open>No element of the first \<open>n\<close> is less than its parent.\<close>

definition min_heap :: "('a \<Rightarrow> 'a \<Rightarrow> bool) \<Rightarrow> nat \<Rightarrow> 'a list \<Rightarrow> bool" where
  "min_heap lt n xs \<longleftrightarrow> (\<forall>c. 0 < c \<and> c < n \<longrightarrow> \<not> lt (xs ! c) (xs ! parent c))"

locale heap_data = sort_data "heap_sort H" view lt
  for H :: "('s, 'a) heap_Interface" and view :: "'s \<Rightarrow> 'a list" and lt +
  assumes Push_view: "view (heap_Push H s x) = view s @ [x]"
    and Pop_view: "view s \<noteq> [] \<Longrightarrow>
      fst (heap_Pop H s) = last (view s) \<and> view (snd (heap_Pop H s)) = butlast (view s)"
begin

abbreviation DH :: "'s sort_Interface" where "DH \<equiv> heap_sort H"

lemma reversed: "sort_data (Reverse_Interface DH) view (\<lambda>x y. lt y x)"
  by (rule sort_data_Reverse) (rule sort_data_axioms)

definition down_child :: "'s \<Rightarrow> nat \<Rightarrow> nat \<Rightarrow> nat" where
  "down_child s i n =
     (if 2 * i + 1 + 1 < n \<and> Less DH s (2 * i + 1 + 1) (2 * i + 1) then 2 * i + 1 + 1 else 2 * i + 1)"

lemma down_child:
  assumes "2 * i + 1 < n"
  shows "i < down_child s i n" "down_child s i n < n" "parent (down_child s i n) = i"
  using assms by (auto simp: down_child_def)

lemma heap_down_loop_eq:
  "heap_down_loop DH s i n =
     (if 2 * i + 1 \<ge> n \<or> \<not> Less DH s (down_child s i n) i then (s, i)
      else heap_down_loop DH (Swap DH s i (down_child s i n)) (down_child s i n) n)"
  by (subst heap_down_loop.simps) (simp only: Let_def down_child_def, simp)

text \<open>\<open>down\<close> is the \<open>siftDown\<close> of \<open>sort\<close> on the reversed order.\<close>

lemma heap_down_loop_siftDown:
  "fst (heap_down_loop DH s i n) = siftDown (Reverse_Interface DH) s i n 0"
proof (induction "n - i" arbitrary: s i rule: less_induct)
  case less
  have eq: "siftDown (Reverse_Interface DH) s i n 0 =
      (if 2 * i + 1 \<ge> n \<or> \<not> Less DH s (down_child s i n) i then s
       else siftDown (Reverse_Interface DH) (Swap DH s i (down_child s i n)) (down_child s i n) n 0)"
    by (subst siftDown.simps) (simp only: Let_def down_child_def Reverse_Interface_def, simp)
  show ?case
  proof (cases "2 * i + 1 \<ge> n \<or> \<not> Less DH s (down_child s i n) i")
    case False
    then have "2 * i + 1 < n" by simp
    then have "n - down_child s i n < n - i" using down_child(1,2) [of i n s] by simp
    from less.hyps [OF this] show ?thesis using False by (subst heap_down_loop_eq, subst eq) simp
  qed (subst heap_down_loop_eq, subst eq, auto)
qed

lemma fst_heap_down: "fst (heap_down DH s i n) = fst (heap_down_loop DH s i n)"
  by (simp add: heap_down_def split_beta)

lemma heap_down_loop_frame:
  "n \<le> length (view s) \<Longrightarrow> i \<le> snd (heap_down_loop DH s i n) \<and>
    (\<forall>k<i. view (fst (heap_down_loop DH s i n)) ! k = view s ! k)"
proof (induction "n - i" arbitrary: s i rule: less_induct)
  case less
  show ?case
  proof (cases "2 * i + 1 \<ge> n \<or> \<not> Less DH s (down_child s i n) i")
    case False
    then have lt: "2 * i + 1 < n" by simp
    note c = down_child [OF lt, of s]
    define j where "j = down_child s i n"
    define t where "t = Swap DH s i j"
    have len: "length (view t) = length (view s)" and nth: "\<forall>k<i. view t ! k = view s ! k"
      unfolding t_def j_def using c less.prems by (auto simp: Swap_length Swap_nth)
    have "j \<le> snd (heap_down_loop DH t j n) \<and> (\<forall>k<j. view (fst (heap_down_loop DH t j n)) ! k = view t ! k)"
      using less.prems len c lt by (intro less.hyps) (auto simp: j_def)
    moreover have "heap_down_loop DH s i n = heap_down_loop DH t j n"
      using False by (subst heap_down_loop_eq) (simp add: t_def j_def)
    ultimately show ?thesis using nth c(1) by (simp add: j_def)
  next
    case True
    then have "heap_down_loop DH s i n = (s, i)" by (subst heap_down_loop_eq) simp
    then show ?thesis by simp
  qed
qed

text \<open>Either nothing moves and the node dominates its children, or one of them takes its place.\<close>

lemma heap_down_cases:
  assumes "n \<le> length (view s)" "i < n"
  obtains (still) "heap_down DH s i n = (s, False)"
      "\<And>c. 0 < c \<Longrightarrow> c < n \<Longrightarrow> parent c = i \<Longrightarrow> \<not> lt (view s ! c) (view s ! i)"
    | (moved) t c where "heap_down DH s i n = (t, True)" "t = siftDown (Reverse_Interface DH) s i n 0"
      "0 < c" "c < n" "parent c = i" "view t ! i = view s ! c"
proof (cases "2 * i + 1 \<ge> n \<or> \<not> Less DH s (down_child s i n) i")
  case True
  have L: "Less DH s a b \<longleftrightarrow> lt (view s ! a) (view s ! b)" if "a < n" "b < n" for a b
    using that assms(1) by (intro Less_view) auto
  show thesis
  proof (rule still)
    show "heap_down DH s i n = (s, False)"
      using True by (simp add: heap_down_def heap_down_loop_eq [of s i n])
    fix c assume c: "0 < c" "c < n" "parent c = i"
    then have cc: "c = 2 * i + 1 \<or> c = 2 * i + 1 + 1" using parent_eq [of c i] by auto
    then have "2 * i + 1 < n" using c(2) by auto
    note d = down_child [OF this, of s]
    have "\<not> lt (view s ! c) (view s ! down_child s i n)"
      using cc c(2) L [of "2 * i + 1 + 1" "2 * i + 1"] lt_asym by (auto simp: down_child_def)
    moreover have "\<not> lt (view s ! down_child s i n) (view s ! i)"
      using True \<open>2 * i + 1 < n\<close> L [OF d(2) assms(2)] by simp
    ultimately show "\<not> lt (view s ! c) (view s ! i)" using le_trans by blast
  qed
next
  case False
  then have lt: "2 * i + 1 < n" by simp
  note d = down_child [OF lt, of s]
  define j where "j = down_child s i n"
  define t where "t = Swap DH s i j"
  have eq: "heap_down_loop DH s i n = heap_down_loop DH t j n"
    using False by (subst heap_down_loop_eq) (simp add: t_def j_def)
  have t: "length (view t) = length (view s)" "view t ! i = view s ! j"
    unfolding t_def j_def using d assms by (auto simp: Swap_length Swap_nth)
  have fr: "j \<le> snd (heap_down_loop DH t j n)" "view (fst (heap_down_loop DH t j n)) ! i = view t ! i"
    using heap_down_loop_frame [of n t j] t(1) assms(1) d(1) by (auto simp: j_def)
  show thesis
  proof (rule moved)
    show "heap_down DH s i n = (fst (heap_down_loop DH s i n), True)"
      using fr(1) d(1) by (cases "heap_down_loop DH t j n") (simp add: heap_down_def eq j_def)
    show "fst (heap_down_loop DH s i n) = siftDown (Reverse_Interface DH) s i n 0"
      by (rule heap_down_loop_siftDown)
    show "view (fst (heap_down_loop DH s i n)) ! i = view s ! j" using fr(2) t(2) by (simp add: eq)
  qed (use d in \<open>auto simp: j_def\<close>)
qed

section \<open>The operations keep the heap order\<close>

text \<open>
  A heap of size \<open>n\<close> whose only wrong element is at \<open>i\<close>: the other nodes are in order, and
  the children of \<open>i\<close> are not less than its parent.
\<close>

definition heap_but :: "nat \<Rightarrow> nat \<Rightarrow> 'a list \<Rightarrow> bool" where
  "heap_but n i xs \<longleftrightarrow>
     (\<forall>c. 0 < c \<and> c < n \<and> c \<noteq> i \<and> parent c \<noteq> i \<longrightarrow> \<not> lt (xs ! c) (xs ! parent c)) \<and>
     (\<forall>c. 0 < c \<and> c < n \<and> parent c = i \<and> 0 < i \<longrightarrow> \<not> lt (xs ! c) (xs ! parent i))"

lemma heap_up_correct:
  assumes "j < n" "n \<le> length (view s)"
    and "\<forall>c. 0 < c \<and> c < n \<and> c \<noteq> j \<longrightarrow> \<not> lt (view s ! c) (view s ! parent c)"
    and "\<forall>c. 0 < c \<and> c < n \<and> parent c = j \<and> 0 < j \<longrightarrow> \<not> lt (view s ! c) (view s ! parent j)"
  shows "perm_range 0 n (view s) (view (heap_up DH s j)) \<and> min_heap lt n (view (heap_up DH s j))"
  using assms
proof (induction j arbitrary: s rule: less_induct)
  case (less j)
  note prems = less.prems
  define i where "i = parent j"
  have ij: "i = j \<longleftrightarrow> j = 0" "i \<le> j" by (auto simp: i_def)
  have L: "Less DH s j i \<longleftrightarrow> lt (view s ! j) (view s ! i)"
    using prems(1,2) ij(2) by (intro Less_view) auto
  have eq: "heap_up DH s j = (if i = j \<or> \<not> Less DH s j i then s else heap_up DH (Swap DH s i j) i)"
    by (subst heap_up.simps) (simp add: i_def Let_def)
  show ?case
  proof (cases "i = j \<or> \<not> Less DH s j i")
    case True
    have "min_heap lt n (view s)"
      unfolding min_heap_def
    proof (intro allI impI)
      fix c assume "0 < c \<and> c < n"
      then show "\<not> lt (view s ! c) (view s ! parent c)"
        using prems(3) True L ij(1) by (cases "c = j") (auto simp: i_def)
    qed
    then show ?thesis using True by (simp add: eq)
  next
    case False
    then have lt: "lt (view s ! j) (view s ! i)" "0 < j" "i < j" using L ij by auto
    define t where "t = Swap DH s i j"
    have st: "perm_range 0 n (view s) (view t)"
      unfolding t_def using lt prems(1,2) by (intro Swap_perm) auto
    have nth: "view t ! k = (if k = j then view s ! i else if k = i then view s ! j else view s ! k)" for k
      unfolding t_def using lt prems(1,2) by (intro Swap_nth) auto
    have "perm_range 0 n (view t) (view (heap_up DH t i)) \<and> min_heap lt n (view (heap_up DH t i))"
    proof (rule less.IH)
      show "\<forall>c. 0 < c \<and> c < n \<and> c \<noteq> i \<longrightarrow> \<not> lt (view t ! c) (view t ! parent c)"
      proof (intro allI impI)
        fix c assume c: "0 < c \<and> c < n \<and> c \<noteq> i"
        consider "c = j" | "c \<noteq> j" "parent c = j" | "c \<noteq> j" "parent c = i" | "c \<noteq> j" "parent c \<noteq> j" "parent c \<noteq> i"
          by blast
        then show "\<not> lt (view t ! c) (view t ! parent c)"
        proof cases
          case 1
          then show ?thesis using lt lt_asym by (auto simp: nth i_def)
        next
          case 2
          then show ?thesis using prems(4) [rule_format, of c] c lt(2) by (simp add: nth i_def)
        next
          case 3
          then have "\<not> lt (view s ! c) (view s ! i)" using prems(3) [rule_format, of c] c by simp
          then have "\<not> lt (view s ! c) (view s ! j)" using lt(1) lt_asym le_trans by blast
          then show ?thesis using 3 c lt(3) by (simp add: nth)
        next
          case 4
          then show ?thesis using prems(3) [rule_format, of c] c by (simp add: nth)
        qed
      qed
      show "\<forall>c. 0 < c \<and> c < n \<and> parent c = i \<and> 0 < i \<longrightarrow> \<not> lt (view t ! c) (view t ! parent i)"
      proof (intro allI impI)
        fix c assume c: "0 < c \<and> c < n \<and> parent c = i \<and> 0 < i"
        have p: "parent i < i" using c by (intro parent_less) simp
        have "i \<noteq> j" "i < n" using lt(3) prems(1) by auto
        then have pi: "\<not> lt (view s ! i) (view s ! parent i)" using prems(3) [rule_format, of i] c by simp
        show "\<not> lt (view t ! c) (view t ! parent i)"
        proof (cases "c = j")
          case False
          then have "\<not> lt (view s ! c) (view s ! i)" using prems(3) [rule_format, of c] c by simp
          then show ?thesis using pi le_trans False c p lt(3) parent_less [of c] by (auto simp: nth)
        qed (use pi p lt(3) in \<open>simp add: nth\<close>)
      qed
    qed (use lt prems perm_range_length [OF st] in auto)
    then show ?thesis using False perm_range_trans [OF st] by (simp add: eq t_def)
  qed
qed

lemma heap_fix_correct:
  assumes "i < n" "n \<le> length (view s)" "heap_but n i (view s)" "heap_down DH s i n = (t, moved)"
  defines "u \<equiv> (if \<not> moved then heap_up DH t i else t)"
  shows "perm_range 0 n (view s) (view u) \<and> min_heap lt n (view u)"
  using assms(2,1)
proof (cases rule: heap_down_cases)
  case still
  then have u: "u = heap_up DH s i" using assms(4) by (simp add: u_def)
  have "\<forall>c. 0 < c \<and> c < n \<and> c \<noteq> i \<longrightarrow> \<not> lt (view s ! c) (view s ! parent c)"
    using assms(3) still(2) by (auto simp: heap_but_def)
  moreover have "\<forall>c. 0 < c \<and> c < n \<and> parent c = i \<and> 0 < i \<longrightarrow> \<not> lt (view s ! c) (view s ! parent i)"
    using assms(3) by (simp add: heap_but_def)
  ultimately show ?thesis unfolding u using assms(1,2) by (intro heap_up_correct) auto
next
  case (moved t' c)
  then have u: "u = t'" using assms(4) by (simp add: u_def)
  have R: "perm_range (0 + 0) (0 + n) (view s) (view t') \<and>
    (\<forall>c. 0 < c \<and> c < n \<and> 0 \<le> parent c \<and> c \<noteq> i \<longrightarrow> \<not> lt (view t' ! (0 + c)) (view t' ! (0 + parent c)))"
    unfolding moved(2) using assms(1-3) by (intro sort_data.siftDown_except [OF reversed]) (auto simp: heap_but_def)
  have "\<not> lt (view t' ! i) (view t' ! parent i)" if "0 < i"
  proof -
    have "t' = fst (heap_down_loop DH s i n)" using moved(1) by (simp flip: fst_heap_down)
    then have "view t' ! parent i = view s ! parent i"
      using heap_down_loop_frame [OF assms(2), of i] parent_less [OF that] by simp
    then show ?thesis using assms(3) moved(3-6) that by (simp add: heap_but_def)
  qed
  then have "min_heap lt n (view t')" using R by (auto simp: min_heap_def)
  then show ?thesis using R u by simp
qed

lemma heap_root_min:
  assumes "min_heap lt n xs" "c < n"
  shows "\<not> lt (xs ! c) (xs ! 0)"
  using assms(2)
proof (induction c rule: less_induct)
  case (less c)
  show ?case
  proof (cases "c = 0")
    case False
    then have "\<not> lt (xs ! parent c) (xs ! 0)" "\<not> lt (xs ! c) (xs ! parent c)"
      using less assms(1) parent_less [of c] by (auto simp: min_heap_def)
    then show ?thesis using le_trans by blast
  qed simp
qed

lemma heap_Init_loop_correct:
  assumes "n \<le> length (view s)" "m \<le> n" "\<forall>c. 0 < c \<and> c < n \<and> m \<le> parent c \<longrightarrow> \<not> lt (view s ! c) (view s ! parent c)"
  shows "perm_range 0 n (view s) (view (heap_Init_loop DH n m s)) \<and> min_heap lt n (view (heap_Init_loop DH n m s))"
  using assms
proof (induction m arbitrary: s)
  case 0
  then show ?case by (simp add: min_heap_def)
next
  case (Suc m)
  define t where "t = fst (heap_down DH s m n)"
  have t: "t = siftDown (Reverse_Interface DH) s m n 0"
    using heap_down_loop_siftDown [of s m n] by (simp add: t_def fst_heap_down)
  have "\<forall>c. 0 < c \<and> c < n \<and> m \<le> parent c \<and> parent c \<noteq> m \<longrightarrow> \<not> lt (view s ! (0 + c)) (view s ! (0 + parent c))"
    using Suc.prems(3) by (simp add: Suc_le_eq)
  then have st: "perm_range (0 + m) (0 + n) (view s) (view t) \<and> heap_from (\<lambda>x y. lt y x) 0 n m (view t)"
    unfolding t using Suc.prems(1) parent_less [of m]
    by (intro sort_data.siftDown_correct [OF reversed]) auto
  then have p: "perm_range 0 n (view s) (view t)" by (auto elim: perm_range_mono)
  have "perm_range 0 n (view t) (view (heap_Init_loop DH n m t)) \<and> min_heap lt n (view (heap_Init_loop DH n m t))"
    using Suc.prems(1,2) perm_range_length [OF p] st by (intro Suc.IH) (auto simp: heap_from_def)
  then show ?case using perm_range_trans [OF p] by (simp add: t_def)
qed

lemma heap_Init_correct:
  "mset (view (heap_Init H s)) = mset (view s) \<and> min_heap lt (length (view s)) (view (heap_Init H s))"
proof -
  define n where "n = length (view s)"
  have "perm_range 0 n (view s) (view (heap_Init_loop DH n (n div 2) s)) \<and>
      min_heap lt n (view (heap_Init_loop DH n (n div 2) s))"
    by (intro heap_Init_loop_correct) (auto simp: n_def)
  then show ?thesis using perm_range_mset by (auto simp: heap_Init_def Let_def Len_view n_def)
qed

lemma container_Push_correct:
  assumes "min_heap lt (length (view s)) (view s)"
  shows "mset (view (container_Push H s x)) = add_mset x (mset (view s)) \<and>
    min_heap lt (Suc (length (view s))) (view (container_Push H s x))"
proof -
  define n where "n = length (view s)"
  define t where "t = heap_Push H s x"
  have vt: "view t = view s @ [x]" by (simp add: t_def Push_view)
  have "perm_range 0 (Suc n) (view t) (view (heap_up DH t n)) \<and> min_heap lt (Suc n) (view (heap_up DH t n))"
  proof (rule heap_up_correct)
    show "\<forall>c. 0 < c \<and> c < Suc n \<and> c \<noteq> n \<longrightarrow> \<not> lt (view t ! c) (view t ! parent c)"
      using assms parent_less by (auto simp: vt nth_append n_def min_heap_def less_Suc_eq intro: less_trans)
    show "\<forall>c. 0 < c \<and> c < Suc n \<and> parent c = n \<and> 0 < n \<longrightarrow> \<not> lt (view t ! c) (view t ! parent n)"
      using parent_less by fastforce
  qed (auto simp: vt n_def)
  moreover have "container_Push H s x = heap_up DH t n"
    by (simp add: container_Push_def Let_def t_def [symmetric] Len_view vt n_def)
  ultimately show ?thesis using perm_range_mset [of 0 "Suc n" "view t"] by (auto simp: vt n_def)
qed

text \<open>
  Taking out the element at \<open>i\<close>: it is exchanged with the last one, which then finds its
  place, and leaves the collection.
\<close>

lemma heap_take_correct:
  assumes heap: "min_heap lt (Suc n) (view s)" and len: "length (view s) = Suc n" "i \<le> n"
    and t: "i < n \<Longrightarrow> perm_range 0 n (view (Swap DH s i n)) (view t) \<and> min_heap lt n (view t)"
      "i = n \<Longrightarrow> view t = view s"
  shows "fst (heap_Pop H t) = view s ! i \<and>
    mset (view s) = add_mset (view s ! i) (mset (view (snd (heap_Pop H t)))) \<and>
    length (view (snd (heap_Pop H t))) = n \<and> min_heap lt n (view (snd (heap_Pop H t)))"
proof -
  have t': "length (view t) = Suc n \<and> mset (view t) = mset (view s) \<and> view t ! n = view s ! i \<and> min_heap lt n (view t)"
  proof (cases "i = n")
    case True
    then show ?thesis using t(2) len heap by (auto simp: min_heap_def)
  next
    case False
    then have p: "perm_range 0 n (view (Swap DH s i n)) (view t)" "min_heap lt n (view t)" using t(1) len by auto
    have sw: "perm_range 0 (Suc n) (view s) (view (Swap DH s i n))" using len by (intro Swap_perm) auto
    have l: "length (view (Swap DH s i n)) = Suc n" using perm_range_length [OF sw] len by simp
    have "view t ! n = view s ! i"
      using perm_range_outside [OF p(1), of n] l len by (simp add: Swap_nth)
    then show ?thesis using p(2) perm_range_length [OF p(1)] l perm_range_mset [OF p(1)] perm_range_mset [OF sw] by simp
  qed
  define b where "b = snd (heap_Pop H t)"
  have ne: "view t \<noteq> []" using t' by auto
  then have P: "fst (heap_Pop H t) = last (view t)" "view b = butlast (view t)" using Pop_view by (auto simp: b_def)
  have "last (view t) = view s ! i" using t' ne by (simp add: last_conv_nth)
  moreover have "mset (view t) = add_mset (last (view t)) (mset (butlast (view t)))"
    using ne by (metis add.commute append_butlast_last_id mset.simps(1,2) mset_append union_mset_add_mset_right add.right_neutral)
  moreover have "min_heap lt n (butlast (view t))"
    using t' parent_less by (auto simp: min_heap_def nth_butlast intro: less_trans)
  ultimately show ?thesis using P t' unfolding b_def [symmetric] by simp
qed

lemma heap_but_swap:
  assumes "min_heap lt (Suc n) (view s)" "length (view s) = Suc n" "i < n"
  shows "heap_but n i (view (Swap DH s i n))"
proof -
  have nth: "view (Swap DH s i n) ! k = view s ! k" if "k < n" "k \<noteq> i" for k
    using that assms(2,3) by (simp add: Swap_nth)
  have h: "\<not> lt (view s ! c) (view s ! parent c)" if "0 < c" "c < n" for c
    using assms(1) that by (simp add: min_heap_def)
  show ?thesis
    unfolding heap_but_def
  proof (intro conjI allI impI)
    fix c assume "0 < c \<and> c < n \<and> c \<noteq> i \<and> parent c \<noteq> i"
    then show "\<not> lt (view (Swap DH s i n) ! c) (view (Swap DH s i n) ! parent c)"
      using h [of c] parent_less [of c] nth [of c] nth [of "parent c"] by simp
  next
    fix c assume c: "0 < c \<and> c < n \<and> parent c = i \<and> 0 < i"
    then have "\<not> lt (view s ! c) (view s ! i)" "\<not> lt (view s ! i) (view s ! parent i)"
      using h [of c] h [of i] assms(3) by auto
    then have "\<not> lt (view s ! c) (view s ! parent i)" using le_trans by blast
    then show "\<not> lt (view (Swap DH s i n) ! c) (view (Swap DH s i n) ! parent i)"
      using c parent_less [of c] parent_less [of i] nth [of c] nth [of "parent i"] by simp
  qed
qed

lemma heap_Remove_correct:
  assumes "min_heap lt (length (view s)) (view s)" "i < length (view s)"
  shows "fst (heap_Remove H s i) = view s ! i \<and>
    mset (view s) = add_mset (view s ! i) (mset (view (snd (heap_Remove H s i)))) \<and>
    min_heap lt (length (view (snd (heap_Remove H s i)))) (view (snd (heap_Remove H s i)))"
proof -
  obtain n where n: "length (view s) = Suc n" using assms(2) by (cases "length (view s)") auto
  obtain t moved where d: "heap_down DH (Swap DH s i n) i n = (t, moved)" by (rule prod.exhaust)
  define u where "u = (if i = n then s else if \<not> moved then heap_up DH t i else t)"
  have "heap_Remove H s i = heap_Pop H u"
    by (auto simp: heap_Remove_def Let_def Len_view n d u_def)
  moreover have "perm_range 0 n (view (Swap DH s i n)) (view u) \<and> min_heap lt n (view u)" if "i < n"
    using that heap_fix_correct [OF that _ heap_but_swap d] assms(1) n by (simp add: u_def Swap_length)
  ultimately show ?thesis
    using heap_take_correct [of n s i u] assms n by (simp add: u_def)
qed

lemma container_Pop_correct:
  assumes "min_heap lt (length (view s)) (view s)" "view s \<noteq> []"
  shows "fst (container_Pop H s) = view s ! 0 \<and>
    mset (view s) = add_mset (view s ! 0) (mset (view (snd (container_Pop H s)))) \<and>
    min_heap lt (length (view (snd (container_Pop H s)))) (view (snd (container_Pop H s)))"
proof -
  obtain n where n: "length (view s) = Suc n" using assms(2) by (cases "view s") auto
  obtain t moved where d: "heap_down DH (Swap DH s 0 n) 0 n = (t, moved)" by (rule prod.exhaust)
  have "container_Pop H s = heap_Pop H t" by (simp add: container_Pop_def Let_def Len_view n d)
  moreover have "perm_range 0 n (view (Swap DH s 0 n)) (view t) \<and> min_heap lt n (view t)" if "0 < n"
  proof -
    have up: "heap_up DH t 0 = t" by (subst heap_up.simps) simp
    show ?thesis using heap_fix_correct [OF that _ heap_but_swap d] assms(1) n that up by (cases moved) (simp_all add: Swap_length)
  qed
  moreover have "view t = view s" if "n = 0"
  proof -
    have "t = Swap DH s 0 0" using d that by (simp add: heap_down_def heap_down_loop_eq)
    then show ?thesis using n by (simp add: Swap_view swap_elems_def)
  qed
  ultimately show ?thesis
    using heap_take_correct [of n s 0 t] assms n by simp
qed

lemma container_Pop_min:
  assumes "min_heap lt (length (view s)) (view s)" "x \<in> set (view s)"
  shows "\<not> lt x (fst (container_Pop H s))"
proof -
  obtain c where "c < length (view s)" "x = view s ! c" using assms(2) by (auto simp: in_set_conv_nth)
  then show ?thesis
    using heap_root_min [OF assms(1), of c] container_Pop_correct [OF assms(1)] by force
qed

lemma heap_Fix_correct:
  assumes "i < length (view s)" "heap_but (length (view s)) i (view s)"
  shows "mset (view (heap_Fix H s i)) = mset (view s) \<and>
    min_heap lt (length (view s)) (view (heap_Fix H s i))"
proof -
  obtain t moved where d: "heap_down DH s i (length (view s)) = (t, moved)" by (rule prod.exhaust)
  have "heap_Fix H s i = (if \<not> moved then heap_up DH t i else t)"
    by (simp add: heap_Fix_def Let_def Len_view d)
  then show ?thesis using heap_fix_correct [OF assms(1) _ assms(2) d] perm_range_mset by auto
qed

end

section \<open>The integer heap of the package's example\<close>

definition IntHeap :: "(uint64 list, uint64) heap_Interface" where
  "IntHeap =
     \<lparr>heap_sort = \<lparr>Len = length, Less = \<lambda>h i j. sint (h ! i) < sint (h ! j), Swap = swap_elems\<rparr>,
      heap_Push = \<lambda>h x. h @ [x],
      heap_Pop = \<lambda>h. let n = length h; x = h ! (n - 1) in (x, take (n - 1) h)\<rparr>"

interpretation int_heap: heap_data IntHeap "\<lambda>x. x" "\<lambda>a b. sint a < sint b"
  by unfold_locales (auto simp: IntHeap_def Let_def last_conv_nth butlast_conv_take)

text \<open>A heap that is filled by \<open>Push\<close> and emptied by \<open>Pop\<close>: the popped elements.\<close>

primrec heap_drain :: "('s, 'a) heap_Interface \<Rightarrow> nat \<Rightarrow> 's \<Rightarrow> 'a list" where
  "heap_drain H 0 s = []"
| "heap_drain H (Suc n) s = (let (x, s) = container_Pop H s in x # heap_drain H n s)"

context heap_data
begin

lemma heap_drain_sorts:
  "min_heap lt (length (view s)) (view s) \<Longrightarrow>
    mset (heap_drain H (length (view s)) s) = mset (view s) \<and>
    sorted_wrt (\<lambda>x y. \<not> lt y x) (heap_drain H (length (view s)) s)"
proof (induction "length (view s)" arbitrary: s)
  case (Suc n)
  obtain x t where p: "container_Pop H s = (x, t)" by (rule prod.exhaust)
  have ne: "view s \<noteq> []" using Suc.hyps(2) by auto
  have pop: "mset (view s) = add_mset x (mset (view t))" "min_heap lt (length (view t)) (view t)"
    using container_Pop_correct [OF Suc.prems ne] p by auto
  have len: "length (view t) = n" using arg_cong [OF pop(1), of size] Suc.hyps(2) by simp
  have IH: "mset (heap_drain H n t) = mset (view t)" "sorted_wrt (\<lambda>x y. \<not> lt y x) (heap_drain H n t)"
    using Suc.hyps(1) [of t] len pop(2) by auto
  have "\<not> lt y x" if "y \<in> set (heap_drain H n t)" for y
  proof -
    have "set (heap_drain H n t) = set (view t)" using IH(1) by (metis set_mset_mset)
    moreover have "set (view s) = insert x (set (view t))" using pop(1) by (metis set_mset_add_mset_insert set_mset_mset)
    ultimately have "y \<in> set (view s)" using that by simp
    from container_Pop_min [OF Suc.prems this] show ?thesis by (simp add: p)
  qed
  then show ?case using IH pop(1) by (simp add: Suc.hyps(2) [symmetric] p)
qed simp

end

section \<open>Properties\<close>

text \<open>C5.
  A heap is a priority queue: initialising any collection and popping all of its elements
  yields them in order.
\<close>

theorem heap_sorts:
  assumes "heap_data H view lt"
  shows "mset (heap_drain H (length (view s)) (heap_Init H s)) = mset (view s) \<and>
    sorted_wrt (\<lambda>x y. \<not> lt y x) (heap_drain H (length (view s)) (heap_Init H s))"
proof -
  note init = heap_data.heap_Init_correct [OF assms, of s]
  then have "length (view (heap_Init H s)) = length (view s)" by (metis size_mset)
  then show ?thesis using heap_data.heap_drain_sorts [OF assms, of "heap_Init H s"] init by simp
qed

theorem heap_sorts_witness:
  "mset (heap_drain IntHeap (length [2, 1, 5 :: uint64]) (heap_Init IntHeap [2, 1, 5])) = mset [2, 1, 5]"
  using heap_sorts [OF int_heap.heap_data_axioms, of "[2, 1, 5]"] by (rule conjunct1)

text \<open>C35.
  \<open>Push\<close>, \<open>Pop\<close> and \<open>Remove\<close> keep the heap order; \<open>Push\<close> adds the element, \<open>Pop\<close>
  takes out a least one, \<open>Remove\<close> the one at its index.
\<close>

theorem heap_operations:
  assumes "heap_data H view lt" "min_heap lt (length (view s)) (view s)"
  shows "min_heap lt (length (view (container_Push H s x))) (view (container_Push H s x)) \<and>
    mset (view (container_Push H s x)) = add_mset x (mset (view s)) \<and>
    (view s \<noteq> [] \<longrightarrow>
       min_heap lt (length (view (snd (container_Pop H s)))) (view (snd (container_Pop H s))) \<and>
       mset (view s) = add_mset (fst (container_Pop H s)) (mset (view (snd (container_Pop H s)))) \<and>
       (\<forall>y\<in>set (view s). \<not> lt y (fst (container_Pop H s)))) \<and>
    (\<forall>i<length (view s).
       min_heap lt (length (view (snd (heap_Remove H s i)))) (view (snd (heap_Remove H s i))) \<and>
       mset (view s) = add_mset (view s ! i) (mset (view (snd (heap_Remove H s i)))) \<and>
       fst (heap_Remove H s i) = view s ! i)"
proof (intro conjI impI allI)
  note push = heap_data.container_Push_correct [OF assms, of x]
  have "length (view (container_Push H s x)) = Suc (length (view s))"
    using arg_cong [OF conjunct1 [OF push], of size] by simp
  then show "min_heap lt (length (view (container_Push H s x))) (view (container_Push H s x))"
    "mset (view (container_Push H s x)) = add_mset x (mset (view s))" using push by auto
next
  assume ne: "view s \<noteq> []"
  show "min_heap lt (length (view (snd (container_Pop H s)))) (view (snd (container_Pop H s)))"
    "mset (view s) = add_mset (fst (container_Pop H s)) (mset (view (snd (container_Pop H s))))"
    "\<forall>y\<in>set (view s). \<not> lt y (fst (container_Pop H s))"
    using heap_data.container_Pop_correct [OF assms ne] heap_data.container_Pop_min [OF assms] ne by auto
next
  fix i assume "i < length (view s)"
  then show "min_heap lt (length (view (snd (heap_Remove H s i)))) (view (snd (heap_Remove H s i)))"
    "mset (view s) = add_mset (view s ! i) (mset (view (snd (heap_Remove H s i))))"
    "fst (heap_Remove H s i) = view s ! i"
    using heap_data.heap_Remove_correct [OF assms] by auto
qed

theorem heap_operations_witness:
  "mset [1, 3, 2 :: uint64] = add_mset ([1, 3, 2] ! 1) (mset (snd (heap_Remove IntHeap [1, 3, 2] 1))) \<and>
   mset (container_Push IntHeap [1, 3, 2] 0) = add_mset 0 (mset [1, 3, 2]) \<and>
   mset (container_Push IntHeap [] 7) = {#7#}"
proof -
  have h: "min_heap (\<lambda>a b. sint a < sint b) (length [1, 3, 2 :: uint64]) [1, 3, 2 :: uint64]"
    by (auto simp: min_heap_def less_Suc_eq numeral_3_eq_3)
  have e: "min_heap (\<lambda>a b. sint a < sint b) (length []) ([] :: uint64 list)" by (simp add: min_heap_def)
  have one: "1 < length [1, 3, 2 :: uint64]" by simp
  note s = heap_operations [OF int_heap.heap_data_axioms h, of 0]
  have "mset (container_Push IntHeap [1, 3, 2] 0) = add_mset 0 (mset [1, 3, 2])" using s by blast
  moreover have "mset [1, 3, 2 :: uint64] = add_mset ([1, 3, 2] ! 1) (mset (snd (heap_Remove IntHeap [1, 3, 2] 1)))" using s one by blast
  moreover have "mset (container_Push IntHeap [] 7) = add_mset 7 (mset [])"
    using heap_operations [OF int_heap.heap_data_axioms e, of 7] by blast
  ultimately show ?thesis by simp
qed

end
