(* ===== verification/Varint.thy ===== *)
theory Varint
  imports Prelude
begin

text \<open>
  The variable-length integers of \<open>encoding/binary\<close> (\<open>varint.go\<close>): seven bits per byte, least
  significant first, the top bit set on every byte but the last.
\<close>

abbreviation MaxVarintLen64 :: nat where "MaxVarintLen64 \<equiv> 10"

section \<open>Encoding\<close>

function AppendUvarint :: "byte list \<Rightarrow> uint64 \<Rightarrow> byte list" where
  "AppendUvarint buf x =
     (if x \<ge> 0x80 then AppendUvarint (buf @ [ucast x OR 0x80]) (drop_bit 7 x) else buf @ [ucast x])"
  by auto
termination
  by (relation "measure (\<lambda>(buf, x). unat x)") (auto simp: word_le_nat_alt unat_drop_bit)

declare AppendUvarint.simps [simp del]

text \<open>Writing at the front of a given slice panics when the slice is too short.\<close>

function PutUvarint_loop :: "byte list \<Rightarrow> uint64 \<Rightarrow> nat \<Rightarrow> (byte list \<times> nat) go" where
  "PutUvarint_loop buf x i =
     (if x \<ge> 0x80 then
        if i < length buf
        then PutUvarint_loop (buf[i := ucast x OR 0x80]) (drop_bit 7 x) (i + 1)
        else Inl IndexOutOfRange
      else if i < length buf then Inr (buf[i := ucast x], i + 1) else Inl IndexOutOfRange)"
  by auto
termination
  by (relation "measure (\<lambda>(buf, x, i). unat x)") (auto simp: word_le_nat_alt unat_drop_bit)

declare PutUvarint_loop.simps [simp del]

definition PutUvarint :: "byte list \<Rightarrow> uint64 \<Rightarrow> (byte list \<times> nat) go" where
  "PutUvarint buf x = PutUvarint_loop buf x 0"

definition zigzag :: "uint64 \<Rightarrow> uint64" where
  "zigzag x = (let ux = push_bit 1 x in if sint x < 0 then NOT ux else ux)"

definition AppendVarint :: "byte list \<Rightarrow> uint64 \<Rightarrow> byte list" where
  "AppendVarint buf x = AppendUvarint buf (zigzag x)"

definition PutVarint :: "byte list \<Rightarrow> uint64 \<Rightarrow> (byte list \<times> nat) go" where
  "PutVarint buf x = PutUvarint buf (zigzag x)"

section \<open>Decoding\<close>

fun Uvarint_loop :: "byte list \<Rightarrow> nat \<Rightarrow> uint64 \<Rightarrow> nat \<Rightarrow> uint64 \<times> int" where
  "Uvarint_loop [] i x s = (0, 0)"
| "Uvarint_loop (b # buf) i x s =
     (if i = MaxVarintLen64 then (0, - (int i + 1))
      else if b < 0x80 then
        if i = MaxVarintLen64 - 1 \<and> b > 1 then (0, - (int i + 1))
        else (x OR push_bit s (ucast b), int i + 1)
      else Uvarint_loop buf (i + 1) (x OR push_bit s (ucast (b AND 0x7f))) (s + 7))"

definition Uvarint :: "byte list \<Rightarrow> uint64 \<times> int" where
  "Uvarint buf = Uvarint_loop buf 0 0 0"

definition unzigzag :: "uint64 \<Rightarrow> uint64" where
  "unzigzag ux = (let x = drop_bit 1 ux in if ux AND 1 \<noteq> 0 then NOT x else x)"

definition Varint :: "byte list \<Rightarrow> uint64 \<times> int" where
  "Varint buf = (let (ux, n) = Uvarint buf in (unzigzag ux, n))"

text \<open>
  Decoding from a reader: \<open>ReadByte\<close> is the method of the argument, a function on the state
  behind it.  The loop is on the number of bytes that may still be read.
\<close>

type_synonym 'r ReadByte = "'r \<Rightarrow> (byte \<times> goerror option) \<times> 'r"

abbreviation errOverflow :: goerror where
  "errOverflow \<equiv> NewError ''binary: varint overflows a 64-bit integer''"

primrec ReadUvarint_loop ::
  "'r ReadByte \<Rightarrow> nat \<Rightarrow> 'r \<Rightarrow> nat \<Rightarrow> uint64 \<Rightarrow> nat \<Rightarrow> (uint64 \<times> goerror option) \<times> 'r" where
  "ReadUvarint_loop rb 0 r i x s = ((x, Some errOverflow), r)"
| "ReadUvarint_loop rb (Suc n) r i x s =
     (case rb r of
        ((b, Some err), r) \<Rightarrow>
          ((x, Some (if i > 0 \<and> err = EOF then ErrUnexpectedEOF else err)), r)
      | ((b, None), r) \<Rightarrow>
          if b < 0x80 then
            if i = MaxVarintLen64 - 1 \<and> b > 1 then ((x, Some errOverflow), r)
            else ((x OR push_bit s (ucast b), None), r)
          else ReadUvarint_loop rb n r (i + 1) (x OR push_bit s (ucast (b AND 0x7f))) (s + 7))"

definition ReadUvarint :: "'r ReadByte \<Rightarrow> 'r \<Rightarrow> (uint64 \<times> goerror option) \<times> 'r" where
  "ReadUvarint rb r = ReadUvarint_loop rb MaxVarintLen64 r 0 0 0"

definition ReadVarint :: "'r ReadByte \<Rightarrow> 'r \<Rightarrow> (uint64 \<times> goerror option) \<times> 'r" where
  "ReadVarint rb r = (let ((ux, err), r) = ReadUvarint rb r in ((unzigzag ux, err), r))"

section \<open>Round trip\<close>

lemma AppendUvarint_append: "AppendUvarint buf x = buf @ AppendUvarint [] x"
proof (induction x arbitrary: buf rule: measure_induct_rule [of unat])
  case (less x)
  show ?case
  proof (cases "x \<ge> 0x80")
    case True
    then have "unat (drop_bit 7 x) < unat x" by (simp add: word_le_nat_alt unat_drop_bit)
    note IH = less.IH [OF this]
    have "AppendUvarint buf x = (buf @ [ucast x OR 0x80]) @ AppendUvarint [] (drop_bit 7 x)"
      using True IH [of "buf @ [ucast x OR 0x80]"] by (subst AppendUvarint.simps) simp
    moreover have "AppendUvarint [] x = [ucast x OR 0x80] @ AppendUvarint [] (drop_bit 7 x)"
      using True IH [of "[ucast x OR 0x80]"] by (subst AppendUvarint.simps) simp
    ultimately show ?thesis by simp
  next
    case False
    then show ?thesis by (subst (1 2) AppendUvarint.simps) simp
  qed
qed

lemma AppendUvarint_step:
  "x \<ge> 0x80 \<Longrightarrow> AppendUvarint [] x = (ucast x OR 0x80) # AppendUvarint [] (drop_bit 7 x)"
  "\<not> x \<ge> 0x80 \<Longrightarrow> AppendUvarint [] x = [ucast x]"
  using AppendUvarint_append [of "[ucast x OR 0x80]" "drop_bit 7 x"]
  by (subst AppendUvarint.simps, simp)+

text \<open>The byte written for the low seven bits.\<close>

lemma continuation_byte:
  "\<not> ucast x OR 0x80 < (0x80 :: byte)"
  "ucast ((ucast x OR 0x80 :: byte) AND 0x7f) = take_bit 7 (x :: uint64)"
proof -
  have top: "bit (0x80 :: byte) n \<longleftrightarrow> n = 7" for n
  proof -
    have "(0x80 :: byte) = push_bit 7 1" by simp
    then show ?thesis by (simp only: bit_push_bit_iff bit_1_iff) auto
  qed
  have "(ucast x OR 0x80 :: byte) AND 0x80 = 0x80" by (rule bit_eqI) (auto simp: bit_simps top)
  then show "\<not> ucast x OR 0x80 < (0x80 :: byte)" by (metis not_less word_and_le2)
  have m: "(0x7f :: byte) = mask 7" by (simp add: mask_eq_exp_minus_1)
  have "(ucast x OR 0x80 :: byte) AND 0x7f = take_bit 7 (ucast x)"
    unfolding m by (rule bit_eqI) (simp only: bit_and_iff bit_or_iff bit_mask_iff bit_take_bit_iff top, auto)
  moreover have "ucast (take_bit 7 (ucast x :: byte)) = take_bit 7 (x :: uint64)"
    by (rule bit_eqI) (auto simp: bit_simps)
  ultimately show "ucast ((ucast x OR 0x80 :: byte) AND 0x7f) = take_bit 7 (x :: uint64)" by simp
qed

lemma take_drop_bit_or: "take_bit n y OR push_bit n (drop_bit n y) = (y :: 'a::len word)"
proof (rule bit_eqI)
  fix k assume "possible_bit TYPE('a word) k"
  then show "bit (take_bit n y OR push_bit n (drop_bit n y)) k = bit y k"
    by (cases "k < n") (auto simp: bit_simps)
qed

lemma Uvarint_loop_AppendUvarint:
  assumes "i \<le> 9" "unat y < 2 ^ (64 - 7 * i)"
  shows "Uvarint_loop (AppendUvarint [] y @ t) i x (7 * i)
    = (x OR push_bit (7 * i) y, int i + int (length (AppendUvarint [] y)))"
  using assms
proof (induction "unat y" arbitrary: y i x rule: less_induct)
  case less
  show ?case
  proof (cases "y \<ge> 0x80")
    case True
    then have y: "2 ^ 7 \<le> unat y" by (simp add: word_le_nat_alt)
    then have "(2 :: nat) ^ 7 < 2 ^ (64 - 7 * i)" using less.prems(2) by linarith
    then have i: "i \<le> 8" by (subst (asm) power_strict_increasing_iff) auto
    have "unat (drop_bit 7 y) < 2 ^ (64 - 7 * Suc i)"
    proof -
      have "64 - 7 * i = (64 - 7 * Suc i) + 7" using i by simp
      then have "(2 :: nat) ^ (64 - 7 * i) = 2 ^ (64 - 7 * Suc i) * 2 ^ 7" by (simp only: power_add)
      then show ?thesis using less.prems(2) by (simp add: unat_drop_bit div_less_iff_less_mult)
    qed
    moreover have "unat (drop_bit 7 y) < unat y" using y by (simp add: unat_drop_bit)
    moreover have "push_bit (7 * i) (take_bit 7 y) OR push_bit (7 * Suc i) (drop_bit 7 y) = push_bit (7 * i) y"
      using arg_cong [OF take_drop_bit_or [of 7 y], of "push_bit (7 * i)"] by (simp add: push_bit_or add.commute)
    ultimately show ?thesis
      using less.hyps [of "drop_bit 7 y" "Suc i"] i True
      by (simp add: AppendUvarint_step continuation_byte or.assoc add.commute)
  next
    case False
    then have y: "unat y < 128" by (simp add: not_le word_less_nat_alt)
    have u: "unat (ucast y :: byte) = unat y" using y by (simp add: unat_ucast_gen)
    have "ucast (ucast y :: byte) = y" using u by (intro word_unat_eq_iff [THEN iffD2]) (simp add: unat_ucast_gen)
    moreover have "unat y \<le> 1" if "i = 9" using less.prems(2) that by simp
    ultimately show ?thesis
      using False less.prems(1) y u by (auto simp: AppendUvarint_step word_less_nat_alt)
  qed
qed

lemma length_AppendUvarint: "unat y < 2 ^ (7 * k) \<Longrightarrow> 0 < k \<Longrightarrow> length (AppendUvarint [] y) \<le> k"
proof (induction k arbitrary: y)
  case (Suc k)
  show ?case
  proof (cases "y \<ge> 0x80")
    case True
    then have "2 ^ 7 \<le> unat y" by (simp add: word_le_nat_alt)
    then have "0 < k" using Suc.prems(1) by (cases k) auto
    moreover have "unat (drop_bit 7 y) < 2 ^ (7 * k)"
      using Suc.prems(1) by (simp add: unat_drop_bit div_less_iff_less_mult power_add mult.commute)
    ultimately show ?thesis using Suc.IH True by (simp add: AppendUvarint_step)
  qed (simp add: AppendUvarint_step)
qed simp

lemma unzigzag_zigzag: "unzigzag (zigzag x) = x"
proof -
  have neg: "sint x < 0 \<longleftrightarrow> bit x 63" using bit_last_iff [of x] by simp
  define y where "y = push_bit 1 x"
  have ybit: "bit y n \<longleftrightarrow> 0 < n \<and> n < 64 \<and> bit x (n - 1)" for n
    unfolding y_def by (simp only: bit_push_bit_iff) (auto dest: bit_imp_le_length)
  have low: "NOT y AND 1 = 1" "y AND 1 = 0" by (rule bit_eqI, auto simp: bit_simps ybit)+
  have "(if bit x 63 then NOT (drop_bit 1 (NOT y)) else drop_bit 1 y) = x"
  proof (rule bit_eqI)
    fix n assume "possible_bit TYPE(uint64) n"
    then show "bit (if bit x 63 then NOT (drop_bit 1 (NOT y)) else drop_bit 1 y) n = bit x n"
      by (cases "n = 63") (auto simp: bit_simps ybit)
  qed
  then show ?thesis
    using neg low unfolding zigzag_def unzigzag_def Let_def y_def [symmetric] by (auto split: if_splits)
qed

lemma Uvarint_append: "Uvarint (AppendUvarint [] x @ t) = (x, int (length (AppendUvarint [] x)))"
  using Uvarint_loop_AppendUvarint [of 0 x t 0] unsigned_less [of x, where 'a = nat] by (simp add: Uvarint_def)

section \<open>Reading from a stream\<close>

lemma Uvarint_loop_count: "Uvarint_loop bs i x s = (v, k) \<Longrightarrow> k > 0 \<Longrightarrow> int i < k"
  by (induction bs i x s rule: Uvarint_loop.induct) (auto split: if_splits)

text \<open>
  What \<open>ReadUvarint\<close> relies on of an \<open>io.ByteReader\<close>: the state stands for a sequence of
  bytes, which \<open>ReadByte\<close> delivers in order, and the end is reported as \<open>io.EOF\<close>.
\<close>

locale byte_reader =
  fixes rb :: "'r ReadByte" and invar :: "'r \<Rightarrow> bool" and contents :: "'r \<Rightarrow> byte list"
  assumes ReadByte_Cons: "invar r \<Longrightarrow> contents r = b # bs \<Longrightarrow>
      \<exists>r'. rb r = ((b, None), r') \<and> invar r' \<and> contents r' = bs"
    and ReadByte_Nil: "invar r \<Longrightarrow> contents r = [] \<Longrightarrow>
      \<exists>b r'. rb r = ((b, Some EOF), r') \<and> invar r' \<and> contents r' = []"
begin

text \<open>
  Reading agrees with decoding the bytes of the stream.  They differ on one input only: ten
  continuation bytes and the end, which \<open>Uvarint\<close> reports as too short and \<open>ReadUvarint\<close> as
  an overflow.
\<close>

lemma ReadUvarint_loop_eq:
  assumes "invar r" "contents r = bs" "i + n = MaxVarintLen64" "Uvarint_loop bs i x s = (v, k)"
  shows "\<exists>r' y. ReadUvarint_loop rb n r i x s =
      ((y, if k > 0 then None
           else if k < 0 \<or> i + length bs \<ge> MaxVarintLen64 then Some errOverflow
           else if i + length bs > 0 then Some ErrUnexpectedEOF else Some EOF), r') \<and>
    invar r' \<and> (k > 0 \<longrightarrow> y = v \<and> contents r' = drop (nat k - i) bs)"
  using assms
proof (induction n arbitrary: r bs i x s)
  case 0
  then show ?case by (cases bs) auto
next
  case (Suc n)
  show ?case
  proof (cases bs)
    case Nil
    then show ?thesis using Suc.prems ReadByte_Nil [of r] by auto
  next
    case (Cons b bs')
    then obtain r1 where r1: "rb r = ((b, None), r1)" "invar r1" "contents r1 = bs'"
      using ReadByte_Cons Suc.prems(1,2) by blast
    show ?thesis
    proof (cases "b < 0x80")
      case True
      then show ?thesis using Suc.prems Cons r1 by (auto simp: nat_add_distrib split: if_splits)
    next
      case False
      then have uv: "Uvarint_loop bs' (i + 1) (x OR push_bit s (ucast (b AND 0x7f))) (s + 7) = (v, k)"
        using Suc.prems(3,4) Cons by auto
      from Suc.IH [OF r1(2,3) _ uv] Suc.prems(3) obtain r' y where
        "ReadUvarint_loop rb n r1 (i + 1) (x OR push_bit s (ucast (b AND 0x7f))) (s + 7) =
          ((y, if k > 0 then None
             else if k < 0 \<or> i + 1 + length bs' \<ge> MaxVarintLen64 then Some errOverflow
             else if i + 1 + length bs' > 0 then Some ErrUnexpectedEOF else Some EOF), r')"
        "invar r'" "k > 0 \<longrightarrow> y = v \<and> contents r' = drop (nat k - (i + 1)) bs'" by auto
      moreover have "i + 1 < nat k" if "k > 0"
        using Uvarint_loop_count [OF uv that] by simp
      ultimately show ?thesis using Cons r1 False
        by (auto simp: Suc_diff_le drop_Cons')
    qed
  qed
qed

lemma ReadUvarint_eq:
  assumes "invar r" "Uvarint (contents r) = (v, k)"
  shows "\<exists>r' y. ReadUvarint rb r =
      ((y, if k > 0 then None
           else if k < 0 \<or> length (contents r) \<ge> MaxVarintLen64 then Some errOverflow
           else if contents r \<noteq> [] then Some ErrUnexpectedEOF else Some EOF), r') \<and>
    invar r' \<and> (k > 0 \<longrightarrow> y = v \<and> contents r' = drop (nat k) (contents r))"
  using ReadUvarint_loop_eq [of r "contents r" 0 MaxVarintLen64 0 0] assms
  by (auto simp: ReadUvarint_def Uvarint_def)

end

section \<open>Properties\<close>

text \<open>C34.
  Unsigned and signed integers appended to a buffer decode from where they were appended,
  whatever follows, with the number of bytes used, which is at most ten.
\<close>

theorem varint_roundtrip:
  "Uvarint (drop (length buf) (AppendUvarint buf x @ t)) = (x, int (length (AppendUvarint buf x) - length buf)) \<and>
   Varint (drop (length buf) (AppendVarint buf x @ t)) = (x, int (length (AppendVarint buf x) - length buf)) \<and>
   length (AppendUvarint buf x) \<le> length buf + MaxVarintLen64"
proof -
  have "unat x < 2 ^ (7 * 10)" using unsigned_less [of x, where 'a = nat] by simp
  then have "length (AppendUvarint [] x) \<le> 10" by (rule length_AppendUvarint) simp
  then show ?thesis
    using Uvarint_append [of x t] Uvarint_append [of "zigzag x" t] unzigzag_zigzag [of x]
    by (simp add: AppendUvarint_append [of buf] AppendVarint_def Varint_def)
qed

end
