(* ===== verification/Buffer.thy ===== *)
theory Buffer
  imports Utf8_Correct Varint
begin

text \<open>
  \<open>bytes.Buffer\<close> (\<open>bytes/buffer.go\<close>): a byte queue in a growing slice.  A slice is its
  backing array from the slice's first element to its capacity, and its length; the bytes
  between length and capacity are kept, since the code reslices over them.  Slices returned
  to the caller are copies of their contents.

  The capacity that \<open>append\<close> gives to a fresh array of a given length is chosen by the run
  time: it is the parameter \<open>growcap\<close>, of which only \<open>n \<le> growcap n\<close> is used.
\<close>

section \<open>State\<close>

record goslice =
  smem :: "byte list"
  slen :: nat
  snil :: bool

abbreviation scap :: "goslice \<Rightarrow> nat" where "scap b \<equiv> length (smem b)"

abbreviation opRead :: int where "opRead \<equiv> -1"
abbreviation opInvalid :: int where "opInvalid \<equiv> 0"
abbreviation opReadRune1 :: int where "opReadRune1 \<equiv> 1"

record Buffer =
  bbuf :: goslice
  boff :: nat
  lastRead :: int

abbreviation smallBufferSize :: nat where "smallBufferSize \<equiv> 64"
abbreviation maxInt :: nat where "maxInt \<equiv> 2 ^ 63 - 1"
abbreviation MinRead :: nat where "MinRead \<equiv> 512"

abbreviation ErrTooLarge :: gopanic where "ErrTooLarge \<equiv> PanicMsg ''bytes.Buffer: too large''"

text \<open>The slice expression \<open>b[:n]\<close> and the writes through a slice.\<close>

definition reslice :: "goslice \<Rightarrow> nat \<Rightarrow> goslice" where
  "reslice b n = b\<lparr>slen := n\<rparr>"

definition write_at :: "byte list \<Rightarrow> nat \<Rightarrow> byte list \<Rightarrow> byte list" where
  "write_at mem m p = take m mem @ p @ drop (m + length p) mem"

section \<open>Operations\<close>

definition NewBuffer :: "goslice \<Rightarrow> Buffer" where
  "NewBuffer s = \<lparr>bbuf = s, boff = 0, lastRead = opInvalid\<rparr>"

definition NewBufferString :: "gostring \<Rightarrow> Buffer" where
  "NewBufferString s = \<lparr>bbuf = \<lparr>smem = s, slen = length s, snil = False\<rparr>, boff = 0, lastRead = opInvalid\<rparr>"

definition Buffer_Bytes :: "Buffer \<Rightarrow> byte list" where
  "Buffer_Bytes b = drop (boff b) (take (slen (bbuf b)) (smem (bbuf b)))"

definition Buffer_empty :: "Buffer \<Rightarrow> bool" where
  "Buffer_empty b \<longleftrightarrow> slen (bbuf b) \<le> boff b"

definition Buffer_Len :: "Buffer \<Rightarrow> nat" where
  "Buffer_Len b = slen (bbuf b) - boff b"

definition Buffer_Available :: "Buffer \<Rightarrow> nat" where
  "Buffer_Available b = scap (bbuf b) - slen (bbuf b)"

definition Buffer_String :: "Buffer option \<Rightarrow> gostring" where
  "Buffer_String b = (case b of None \<Rightarrow> bytes_of ''<nil>'' | Some b \<Rightarrow> Buffer_Bytes b)"

definition Buffer_Cap :: "Buffer \<Rightarrow> nat" where
  "Buffer_Cap b = scap (bbuf b)"

definition Buffer_Peek :: "Buffer \<Rightarrow> int \<Rightarrow> (byte list \<times> goerror option) go" where
  "Buffer_Peek b n =
     (if int (Buffer_Len b) < n then Inr (Buffer_Bytes b, Some EOF)
      else if n < 0 then Inl SliceBoundsOutOfRange
      else Inr (take (nat n) (Buffer_Bytes b), None))"

definition Buffer_Reset :: "Buffer \<Rightarrow> Buffer" where
  "Buffer_Reset b = b\<lparr>bbuf := reslice (bbuf b) 0, boff := 0, lastRead := opInvalid\<rparr>"

definition Buffer_Truncate :: "Buffer \<Rightarrow> int \<Rightarrow> Buffer go" where
  "Buffer_Truncate b n =
     (if n = 0 then Inr (Buffer_Reset b)
      else
        let b = b\<lparr>lastRead := opInvalid\<rparr> in
        if n < 0 \<or> n > int (Buffer_Len b)
        then Inl (PanicMsg ''bytes.Buffer: truncation out of range'')
        else Inr (b\<lparr>bbuf := reslice (bbuf b) (boff b + nat n)\<rparr>))"

definition tryGrowByReslice :: "Buffer \<Rightarrow> nat \<Rightarrow> Buffer \<times> nat \<times> bool" where
  "tryGrowByReslice b n =
     (let l = slen (bbuf b) in
      if n \<le> scap (bbuf b) - l then (b\<lparr>bbuf := reslice (bbuf b) (l + n)\<rparr>, l, True) else (b, 0, False))"

definition growSlice :: "(nat \<Rightarrow> nat) \<Rightarrow> byte list \<Rightarrow> nat \<Rightarrow> nat \<Rightarrow> goslice" where
  "growSlice growcap data dcap n =
     (let c = length data + n;
          c = (if c < 2 * dcap then 2 * dcap else c);
          b2 = replicate (growcap c) 0
      in \<lparr>smem = write_at b2 0 data, slen = length data, snil = False\<rparr>)"

definition Buffer_grow :: "(nat \<Rightarrow> nat) \<Rightarrow> Buffer \<Rightarrow> nat \<Rightarrow> (Buffer \<times> nat) go" where
  "Buffer_grow growcap b n =
     (let m = Buffer_Len b;
          b = (if m = 0 \<and> boff b \<noteq> 0 then Buffer_Reset b else b)
      in case tryGrowByReslice b n of
           (b', i, True) \<Rightarrow> Inr (b', i)
         | (b', i, False) \<Rightarrow>
             if snil (bbuf b) \<and> n \<le> smallBufferSize
             then Inr (b\<lparr>bbuf := \<lparr>smem = replicate smallBufferSize 0, slen = n, snil = False\<rparr>\<rparr>, 0)
             else
               let c = scap (bbuf b) in
               if n + m \<le> c div 2 then
                 let s = bbuf b; s = s\<lparr>smem := write_at (smem s) 0 (Buffer_Bytes b)\<rparr>
                 in Inr (b\<lparr>bbuf := reslice s (m + n), boff := 0\<rparr>, m)
               else if 2 * c + n > maxInt then Inl ErrTooLarge
               else
                 let s = growSlice growcap (Buffer_Bytes b) (c - boff b) (boff b + n)
                 in Inr (b\<lparr>bbuf := reslice s (m + n), boff := 0\<rparr>, m))"

definition Buffer_Grow :: "(nat \<Rightarrow> nat) \<Rightarrow> Buffer \<Rightarrow> int \<Rightarrow> Buffer go" where
  "Buffer_Grow growcap b n =
     (if n < 0 then Inl (PanicMsg ''bytes.Buffer.Grow: negative count'')
      else map_sum id (\<lambda>(b, m). b\<lparr>bbuf := reslice (bbuf b) m\<rparr>) (Buffer_grow growcap b (nat n)))"

text \<open>The common start of the writing methods: room for \<open>n\<close> more bytes, and where they go.\<close>

definition Buffer_room :: "(nat \<Rightarrow> nat) \<Rightarrow> Buffer \<Rightarrow> nat \<Rightarrow> (Buffer \<times> nat) go" where
  "Buffer_room growcap b n =
     (let b = b\<lparr>lastRead := opInvalid\<rparr> in
      case tryGrowByReslice b n of (b', m, ok) \<Rightarrow>
        if \<not> ok then Buffer_grow growcap b n else Inr (b', m))"

definition Buffer_put :: "Buffer \<Rightarrow> nat \<Rightarrow> byte list \<Rightarrow> Buffer" where
  "Buffer_put b m p = b\<lparr>bbuf := (bbuf b)\<lparr>smem := write_at (smem (bbuf b)) m p\<rparr>\<rparr>"

definition Buffer_Write :: "(nat \<Rightarrow> nat) \<Rightarrow> Buffer \<Rightarrow> byte list \<Rightarrow> (Buffer \<times> nat) go" where
  "Buffer_Write growcap b p =
     map_sum id (\<lambda>(b, m). (Buffer_put b m p, length p)) (Buffer_room growcap b (length p))"

definition Buffer_WriteString :: "(nat \<Rightarrow> nat) \<Rightarrow> Buffer \<Rightarrow> gostring \<Rightarrow> (Buffer \<times> nat) go" where
  "Buffer_WriteString growcap b s =
     map_sum id (\<lambda>(b, m). (Buffer_put b m s, length s)) (Buffer_room growcap b (length s))"

definition Buffer_WriteByte :: "(nat \<Rightarrow> nat) \<Rightarrow> Buffer \<Rightarrow> byte \<Rightarrow> Buffer go" where
  "Buffer_WriteByte growcap b c = map_sum id (\<lambda>(b, m). Buffer_put b m [c]) (Buffer_room growcap b 1)"

definition Buffer_WriteRune :: "(nat \<Rightarrow> nat) \<Rightarrow> Buffer \<Rightarrow> rune \<Rightarrow> (Buffer \<times> nat) go" where
  "Buffer_WriteRune growcap b r =
     (if r < ucast RuneSelf then map_sum id (\<lambda>b. (b, 1)) (Buffer_WriteByte growcap b (ucast r))
      else map_sum id
             (\<lambda>(b, m). let enc = AppendRune [] r; b = Buffer_put b m enc
                       in (b\<lparr>bbuf := reslice (bbuf b) (m + length enc)\<rparr>, length enc))
             (Buffer_room growcap b UTFMax))"

definition Buffer_Read :: "Buffer \<Rightarrow> nat \<Rightarrow> (byte list \<times> goerror option) \<times> Buffer" where
  "Buffer_Read b plen =
     (let b = b\<lparr>lastRead := opInvalid\<rparr> in
      if Buffer_empty b then
        (([], if plen = 0 then None else Some EOF), Buffer_Reset b)
      else
        let data = take plen (Buffer_Bytes b); n = length data;
            b = b\<lparr>boff := boff b + n\<rparr>
        in ((data, None), if n > 0 then b\<lparr>lastRead := opRead\<rparr> else b))"

definition Buffer_Next :: "Buffer \<Rightarrow> int \<Rightarrow> (byte list \<times> Buffer) go" where
  "Buffer_Next b n =
     (let b = b\<lparr>lastRead := opInvalid\<rparr>;
          m = int (Buffer_Len b);
          n = (if n > m then m else n)
      in if n < 0 then Inl SliceBoundsOutOfRange
         else
           let data = take (nat n) (Buffer_Bytes b);
               b = b\<lparr>boff := boff b + nat n\<rparr>
           in Inr (data, if n > 0 then b\<lparr>lastRead := opRead\<rparr> else b))"

definition Buffer_ReadByte :: "Buffer \<Rightarrow> (byte \<times> goerror option) \<times> Buffer" where
  "Buffer_ReadByte b =
     (if Buffer_empty b then ((0, Some EOF), Buffer_Reset b)
      else
        let c = smem (bbuf b) ! boff b
        in ((c, None), b\<lparr>boff := boff b + 1, lastRead := opRead\<rparr>))"

definition Buffer_ReadRune :: "Buffer \<Rightarrow> (rune \<times> nat \<times> goerror option) \<times> Buffer" where
  "Buffer_ReadRune b =
     (if Buffer_empty b then ((0, 0, Some EOF), Buffer_Reset b)
      else
        let c = smem (bbuf b) ! boff b in
        if c < RuneSelf
        then ((ucast c, 1, None), b\<lparr>boff := boff b + 1, lastRead := opReadRune1\<rparr>)
        else
          let (r, n) = DecodeRune (Buffer_Bytes b)
          in ((r, n, None), b\<lparr>boff := boff b + n, lastRead := int n\<rparr>))"

definition Buffer_UnreadRune :: "Buffer \<Rightarrow> goerror option \<times> Buffer" where
  "Buffer_UnreadRune b =
     (if lastRead b \<le> opInvalid
      then (Some (NewError ''bytes.Buffer: UnreadRune: previous operation was not a successful ReadRune''), b)
      else
        let b = (if int (boff b) \<ge> lastRead b then b\<lparr>boff := boff b - nat (lastRead b)\<rparr> else b)
        in (None, b\<lparr>lastRead := opInvalid\<rparr>))"

definition Buffer_UnreadByte :: "Buffer \<Rightarrow> goerror option \<times> Buffer" where
  "Buffer_UnreadByte b =
     (if lastRead b = opInvalid
      then (Some (NewError ''bytes.Buffer: UnreadByte: previous operation was not a successful read''), b)
      else
        let b = b\<lparr>lastRead := opInvalid\<rparr>
        in (None, if boff b > 0 then b\<lparr>boff := boff b - 1\<rparr> else b))"

text \<open>\<open>IndexByte\<close>, used by the line-reading methods.\<close>

fun IndexByte :: "byte list \<Rightarrow> byte \<Rightarrow> int" where
  "IndexByte [] c = -1"
| "IndexByte (x # b) c = (if x = c then 0 else let i = IndexByte b c in if i < 0 then -1 else i + 1)"

definition Buffer_readSlice :: "Buffer \<Rightarrow> byte \<Rightarrow> (byte list \<times> goerror option) \<times> Buffer" where
  "Buffer_readSlice b delim =
     (let i = IndexByte (Buffer_Bytes b) delim;
          (e, err) = (if i < 0 then (slen (bbuf b), Some EOF) else (boff b + nat i + 1, None));
          line = drop (boff b) (take e (smem (bbuf b)))
      in ((line, err), b\<lparr>boff := e, lastRead := opRead\<rparr>))"

definition Buffer_ReadBytes :: "Buffer \<Rightarrow> byte \<Rightarrow> (byte list \<times> goerror option) \<times> Buffer" where
  "Buffer_ReadBytes b delim = (let ((slice, err), b) = Buffer_readSlice b delim in (([] @ slice, err), b))"

definition Buffer_ReadString :: "Buffer \<Rightarrow> byte \<Rightarrow> (gostring \<times> goerror option) \<times> Buffer" where
  "Buffer_ReadString b delim = Buffer_readSlice b delim"

text \<open>
  \<open>WriteTo\<close> and \<open>ReadFrom\<close> call the \<open>Write\<close> of an \<open>io.Writer\<close> and the \<open>Read\<close> of an
  \<open>io.Reader\<close>, given as functions on the state behind them.  A writer reports how many bytes
  it took.  A reader is given a slice of some length and leaves it with new contents, a count
  and an error.  A reader that never ends makes \<open>ReadFrom\<close> run forever, the result
  \<^const>\<open>None\<close>.
\<close>

type_synonym 'w io_Write = "'w \<Rightarrow> byte list \<Rightarrow> (nat \<times> goerror option) \<times> 'w"
type_synonym 'r io_Read = "'r \<Rightarrow> nat \<Rightarrow> (byte list \<times> int \<times> goerror option) \<times> 'r"

abbreviation errNegativeRead :: gopanic where
  "errNegativeRead \<equiv> PanicMsg ''bytes.Buffer: reader returned negative count from Read''"

definition Buffer_WriteTo :: "'w io_Write \<Rightarrow> 'w \<Rightarrow> Buffer \<Rightarrow> ((nat \<times> goerror option) \<times> Buffer \<times> 'w) go" where
  "Buffer_WriteTo write w b =
     (let b = b\<lparr>lastRead := opInvalid\<rparr>; nBytes = Buffer_Len b in
      if nBytes > 0 then
        case write w (Buffer_Bytes b) of ((m, e), w) \<Rightarrow>
          if m > nBytes then Inl (PanicMsg ''bytes.Buffer.WriteTo: invalid Write count'')
          else
            let b = b\<lparr>boff := boff b + m\<rparr> in
            (case e of
               Some e \<Rightarrow> Inr ((m, Some e), b, w)
             | None \<Rightarrow>
                 if m \<noteq> nBytes then Inr ((m, Some ErrShortWrite), b, w)
                 else Inr ((m, None), Buffer_Reset b, w))
      else Inr ((0, None), Buffer_Reset b, w))"

partial_function (option) Buffer_ReadFrom_loop ::
  "(nat \<Rightarrow> nat) \<Rightarrow> 'r io_Read \<Rightarrow> 'r \<Rightarrow> Buffer \<Rightarrow> nat \<Rightarrow> ((nat \<times> goerror option) \<times> Buffer \<times> 'r) go option" where
  "Buffer_ReadFrom_loop growcap read r b n =
     (case Buffer_grow growcap b MinRead of
        Inl p \<Rightarrow> Some (Inl p)
      | Inr (b, i) \<Rightarrow>
          let b = b\<lparr>bbuf := reslice (bbuf b) i\<rparr> in
          (case read r (scap (bbuf b) - i) of ((p, m, e), r) \<Rightarrow>
             let b = Buffer_put b i p in
             if m < 0 then Some (Inl errNegativeRead)
             else if i + nat m > scap (bbuf b) then Some (Inl SliceBoundsOutOfRange)
             else
               let b = b\<lparr>bbuf := reslice (bbuf b) (i + nat m)\<rparr>;
                   n = n + nat m
               in (case e of
                     Some e \<Rightarrow> Some (Inr ((n, if e = EOF then None else Some e), b, r))
                   | None \<Rightarrow> Buffer_ReadFrom_loop growcap read r b n)))"

definition Buffer_ReadFrom ::
  "(nat \<Rightarrow> nat) \<Rightarrow> 'r io_Read \<Rightarrow> 'r \<Rightarrow> Buffer \<Rightarrow> ((nat \<times> goerror option) \<times> Buffer \<times> 'r) go option" where
  "Buffer_ReadFrom growcap read r b =
     Buffer_ReadFrom_loop growcap read r (b\<lparr>lastRead := opInvalid\<rparr>) 0"

end
