(* ===== verification/Buffer_Correct.thy ===== *)
theory Buffer_Correct
  imports Buffer
begin

text \<open>
  Correctness of \<open>bytes.Buffer\<close>: the representation invariant and the refinement of a byte
  queue that remembers what the last read can give back, for any sequence of calls; the buffer
  as an \<open>io.ByteReader\<close>.  The abstract state says of a few calls that what can be given back is
  unspecified: a line read of a drained buffer, and \<open>Grow\<close> after a read.  The contract of a
  sequence (\<open>unread_ok\<close>) is that it does not unread there.
\<close>

section \<open>The representation invariant\<close>

definition Buffer_inv :: "Buffer \<Rightarrow> bool" where
  "Buffer_inv b \<longleftrightarrow>
     boff b \<le> slen (bbuf b) \<and> slen (bbuf b) \<le> scap (bbuf b) \<and>
     (snil (bbuf b) \<longrightarrow> scap (bbuf b) = 0) \<and> - 1 \<le> lastRead b \<and> lastRead b \<le> 4"


lemma Buffer_empty_iff: "Buffer_inv b \<Longrightarrow> Buffer_empty b \<longleftrightarrow> Buffer_Bytes b = []"
  by (auto simp: Buffer_inv_def Buffer_Bytes_def Buffer_empty_def)

lemma Buffer_Reset_inv [simp]: "Buffer_inv b \<Longrightarrow> Buffer_inv (Buffer_Reset b)"
  by (simp add: Buffer_inv_def Buffer_Reset_def reslice_def)

lemma Buffer_Reset_Bytes [simp]: "Buffer_Bytes (Buffer_Reset b) = []"
  by (simp add: Buffer_Bytes_def Buffer_Reset_def reslice_def)

lemma Buffer_inv_lastRead [simp]:
  "Buffer_inv b \<Longrightarrow> - 1 \<le> l \<Longrightarrow> l \<le> 4 \<Longrightarrow> Buffer_inv (b\<lparr>lastRead := l\<rparr>)"
  by (simp add: Buffer_inv_def)

lemma Buffer_lastRead [simp]:
  "Buffer_Bytes (b\<lparr>lastRead := l\<rparr>) = Buffer_Bytes b"
  "Buffer_Len (b\<lparr>lastRead := l\<rparr>) = Buffer_Len b"
  "Buffer_empty (b\<lparr>lastRead := l\<rparr>) = Buffer_empty b"
  by (simp_all add: Buffer_Bytes_def Buffer_Len_def Buffer_empty_def)

lemma length_write_at [simp]: "m + length p \<le> length mem \<Longrightarrow> length (write_at mem m p) = length mem"
  by (simp add: write_at_def)

lemma take_write_at [simp]: "m \<le> length mem \<Longrightarrow> take m (write_at mem m p) = take m mem"
  by (simp add: write_at_def)


section \<open>Making room\<close>









section \<open>Taking from the front\<close>

lemma Buffer_advance:
  assumes "Buffer_inv b" "n \<le> Buffer_Len b"
  shows "Buffer_inv (b\<lparr>boff := boff b + n\<rparr>)"
    "Buffer_Bytes (b\<lparr>boff := boff b + n\<rparr>) = drop n (Buffer_Bytes b)"
  using assms by (auto simp: Buffer_inv_def Buffer_Bytes_def Buffer_Len_def add.commute)

lemma Buffer_head:
  assumes "Buffer_inv b" "\<not> Buffer_empty b"
  shows "smem (bbuf b) ! boff b = hd (Buffer_Bytes b)"
  using assms by (simp add: Buffer_inv_def Buffer_Bytes_def Buffer_empty_def hd_drop_conv_nth)


section \<open>A byte queue and its implementation\<close>

text \<open>
  The calls of a client, and what they return.  A writer is given by what it answers to the bytes
  it is handed, and the bytes it was handed are part of the outcome.  A reader is given by the
  packets it delivers, each with the error it reports with its last byte: a packet that does not
  fit into the slice of a \<open>Read\<close> is delivered in pieces, and after the last packet comes \<open>io.EOF\<close>.
\<close>

datatype bufop =
    DoWrite "byte list" | DoWriteString gostring | DoWriteByte byte | DoWriteRune rune
  | DoRead nat | DoNext int | DoReadByte | DoReadRune | DoReadBytes byte | DoReadString byte
  | DoTruncate int | DoGrow int | DoReset
  | DoUnreadByte | DoUnreadRune
  | DoWriteTo "byte list \<Rightarrow> nat \<times> goerror option" | DoReadFrom "(byte list \<times> goerror option) list"
  | DoPeek int | DoLen | DoBytes | DoString

datatype bufout =
    Done | Count nat | Data "byte list" "goerror option" | AByte byte "goerror option"
  | ARune rune nat "goerror option" | Status "goerror option"
  | Wrote "byte list list" nat "goerror option" | CountErr nat "goerror option"

fun packet_read :: "(byte list \<times> goerror option) list io_Read" where
  "packet_read [] n = (([], 0, Some EOF), [])"
| "packet_read ((p, e) # ps) n =
     (if length p \<le> n then ((p, int (length p), e), ps) else ((take n p, int n, None), (drop n p, e) # ps))"

fun Buffer_do :: "(nat \<Rightarrow> nat) \<Rightarrow> bufop \<Rightarrow> Buffer \<Rightarrow> (bufout \<times> Buffer) go option" where
  "Buffer_do g (DoWrite p) b = Some (map_sum id (\<lambda>(b, n). (Count n, b)) (Buffer_Write g b p))"
| "Buffer_do g (DoWriteString s) b = Some (map_sum id (\<lambda>(b, n). (Count n, b)) (Buffer_WriteString g b s))"
| "Buffer_do g (DoWriteByte c) b = Some (map_sum id (\<lambda>b. (Done, b)) (Buffer_WriteByte g b c))"
| "Buffer_do g (DoWriteRune r) b = Some (map_sum id (\<lambda>(b, n). (Count n, b)) (Buffer_WriteRune g b r))"
| "Buffer_do g (DoRead n) b = Some ((case Buffer_Read b n of ((d, e), b) \<Rightarrow> Inr (Data d e, b)))"
| "Buffer_do g (DoNext n) b = Some (map_sum id (\<lambda>(d, b). (Data d None, b)) (Buffer_Next b n))"
| "Buffer_do g DoReadByte b = Some ((case Buffer_ReadByte b of ((c, e), b) \<Rightarrow> Inr (AByte c e, b)))"
| "Buffer_do g DoReadRune b = Some ((case Buffer_ReadRune b of ((r, n, e), b) \<Rightarrow> Inr (ARune r n e, b)))"
| "Buffer_do g (DoReadBytes c) b = Some ((case Buffer_ReadBytes b c of ((d, e), b) \<Rightarrow> Inr (Data d e, b)))"
| "Buffer_do g (DoReadString c) b = Some ((case Buffer_ReadString b c of ((d, e), b) \<Rightarrow> Inr (Data d e, b)))"
| "Buffer_do g (DoTruncate n) b = Some (map_sum id (\<lambda>b. (Done, b)) (Buffer_Truncate b n))"
| "Buffer_do g (DoGrow n) b = Some (map_sum id (\<lambda>b. (Done, b)) (Buffer_Grow g b n))"
| "Buffer_do g DoReset b = Some (Inr (Done, Buffer_Reset b))"
| "Buffer_do g DoUnreadByte b = (case Buffer_UnreadByte b of (e, b) \<Rightarrow> Some (Inr (Status e, b)))"
| "Buffer_do g DoUnreadRune b = (case Buffer_UnreadRune b of (e, b) \<Rightarrow> Some (Inr (Status e, b)))"
| "Buffer_do g (DoWriteTo f) b =
     Some (map_sum id (\<lambda>((n, e), b, ps). (Wrote ps n e, b)) (Buffer_WriteTo (\<lambda>ps p. (f p, ps @ [p])) [] b))"
| "Buffer_do g (DoReadFrom ps) b =
     map_option (map_sum id (\<lambda>((n, e), b, _). (CountErr n e, b))) (Buffer_ReadFrom g packet_read ps b)"
| "Buffer_do g (DoPeek n) b = Some (map_sum id (\<lambda>(d, e). (Data d e, b)) (Buffer_Peek b n))"
| "Buffer_do g DoLen b = Some (Inr (Count (Buffer_Len b), b))"
| "Buffer_do g DoBytes b = Some (Inr (Data (Buffer_Bytes b) None, b))"
| "Buffer_do g DoString b = Some (Inr (Data (Buffer_String (Some b)) None, b))"

text \<open>The same operations on the sequence of unread bytes, which is all a client sees.\<close>

definition queue_line :: "byte \<Rightarrow> byte list \<Rightarrow> bufout \<times> byte list" where
  "queue_line c q =
     (if c \<in> set q then (Data (takeWhile (\<lambda>x. x \<noteq> c) q @ [c]) None, tl (dropWhile (\<lambda>x. x \<noteq> c) q))
      else (Data q (Some EOF), []))"

fun packet_data :: "(byte list \<times> goerror option) list \<Rightarrow> byte list \<times> goerror" where
  "packet_data [] = ([], EOF)"
| "packet_data ((p, Some e) # ps) = (p, e)"
| "packet_data ((p, None) # ps) = (case packet_data ps of (q, e) \<Rightarrow> (p @ q, e))"

definition queue_WriteTo :: "(byte list \<Rightarrow> nat \<times> goerror option) \<Rightarrow> byte list \<Rightarrow> (bufout \<times> byte list) go" where
  "queue_WriteTo f q =
     (if q = [] then Inr (Wrote [] 0 None, [])
      else case f q of (m, e) \<Rightarrow>
        if m > length q then Inl (PanicMsg ''bytes.Buffer.WriteTo: invalid Write count'')
        else Inr (Wrote [q] m (if e = None \<and> m \<noteq> length q then Some ErrShortWrite else e), drop m q))"

fun queue_do :: "bufop \<Rightarrow> byte list \<Rightarrow> (bufout \<times> byte list) go" where
  "queue_do (DoWrite p) q = Inr (Count (length p), q @ p)"
| "queue_do (DoWriteString s) q = Inr (Count (length s), q @ s)"
| "queue_do (DoWriteByte c) q = Inr (Done, q @ [c])"
| "queue_do (DoWriteRune r) q = Inr (Count (length (AppendRune [] r)), q @ AppendRune [] r)"
| "queue_do (DoRead n) q =
     Inr (Data (take n q) (if q = [] \<and> n \<noteq> 0 then Some EOF else None), drop n q)"
| "queue_do (DoNext n) q =
     (if n < 0 then Inl SliceBoundsOutOfRange else Inr (Data (take (nat n) q) None, drop (nat n) q))"
| "queue_do DoReadByte q =
     Inr (case q of [] \<Rightarrow> (AByte 0 (Some EOF), []) | c # q' \<Rightarrow> (AByte c None, q'))"
| "queue_do DoReadRune q =
     Inr (if q = [] then (ARune 0 0 (Some EOF), [])
          else case DecodeRune q of (r, n) \<Rightarrow> (ARune r n None, drop n q))"
| "queue_do (DoReadBytes c) q = Inr (queue_line c q)"
| "queue_do (DoReadString c) q = Inr (queue_line c q)"
| "queue_do (DoTruncate n) q =
     (if n < 0 \<or> n > int (length q) then Inl (PanicMsg ''bytes.Buffer: truncation out of range'')
      else Inr (Done, take (nat n) q))"
| "queue_do (DoGrow n) q =
     (if n < 0 then Inl (PanicMsg ''bytes.Buffer.Grow: negative count'') else Inr (Done, q))"
| "queue_do DoReset q = Inr (Done, [])"
| "queue_do (DoWriteTo f) q = queue_WriteTo f q"
| "queue_do (DoReadFrom ps) q =
     (case packet_data ps of (d, e) \<Rightarrow> Inr (CountErr (length d) (if e = EOF then None else Some e), q @ d))"
| "queue_do (DoPeek n) q =
     (if n < 0 then Inl SliceBoundsOutOfRange
      else Inr (Data (take (nat n) q) (if int (length q) < n then Some EOF else None), q))"
| "queue_do DoLen q = Inr (Count (length q), q)"
| "queue_do DoBytes q = Inr (Data q None, q)"
| "queue_do DoString q = Inr (Data q None, q)"
| "queue_do _ q = Inr (Done, q)"







text \<open>How one step of the buffer relates to one step of the queue.\<close>

definition queue_step :: "bufop \<Rightarrow> Buffer \<Rightarrow> (bufout \<times> Buffer) go option \<Rightarrow> bool" where
  "queue_step op b res \<longleftrightarrow>
     (case res of
        None \<Rightarrow> False
      | Some (Inl p) \<Rightarrow> p = ErrTooLarge \<or> queue_do op (Buffer_Bytes b) = Inl p
      | Some (Inr (out, b')) \<Rightarrow> Buffer_inv b' \<and> queue_do op (Buffer_Bytes b) = Inr (out, Buffer_Bytes b'))"










lemma advance_lastRead:
  "Buffer_inv (b\<lparr>boff := k\<rparr>) \<Longrightarrow> - 1 \<le> l \<Longrightarrow> l \<le> 4 \<Longrightarrow> Buffer_inv (b\<lparr>boff := k, lastRead := l\<rparr>)"
  "Buffer_Bytes (b\<lparr>boff := k, lastRead := l\<rparr>) = Buffer_Bytes (b\<lparr>boff := k\<rparr>)"
  by (simp_all add: Buffer_inv_def Buffer_Bytes_def)



lemma Buffer_Bytes_Cons: "Buffer_inv b \<Longrightarrow> \<not> Buffer_empty b \<Longrightarrow>
    Buffer_Bytes b = smem (bbuf b) ! boff b # drop 1 (Buffer_Bytes b)"
  by (metis Buffer_empty_iff Buffer_head drop0 drop_Suc list.collapse One_nat_def)

lemma ReadByte_step: "Buffer_inv b \<Longrightarrow> queue_step DoReadByte b (Buffer_do g DoReadByte b)"
proof (cases "Buffer_empty b")
  case True
  assume "Buffer_inv b"
  then show ?thesis using True
    by (simp add: queue_step_def Buffer_ReadByte_def Buffer_empty_iff)
next
  case False
  assume inv: "Buffer_inv b"
  then have len: "1 \<le> Buffer_Len b" using False by (simp add: Buffer_empty_def Buffer_Len_def)
  show ?thesis
    using False Buffer_Bytes_Cons [OF inv False] Buffer_advance [OF inv len]
    by (auto simp: queue_step_def Buffer_ReadByte_def advance_lastRead split: list.splits)
qed



















section \<open>What the last read can give back\<close>

text \<open>The \<open>k\<close> bytes before the unread ones.\<close>

definition before :: "Buffer \<Rightarrow> nat \<Rightarrow> byte list" where
  "before b k = take k (drop (boff b - k) (smem (bbuf b)))"


lemma before_lastRead [simp]: "before (b\<lparr>lastRead := l\<rparr>) k = before b k"
  by (simp add: before_def)









section \<open>The buffer as a byte reader\<close>

lemma Buffer_ReadByte_Cons:
  "Buffer_inv b \<Longrightarrow> Buffer_Bytes b = c # q \<Longrightarrow>
     \<exists>b'. Buffer_ReadByte b = ((c, None), b') \<and> Buffer_inv b' \<and> Buffer_Bytes b' = q"
  using ReadByte_step [of b id] by (auto simp: queue_step_def split: prod.splits)

lemma Buffer_ReadByte_Nil:
  "Buffer_inv b \<Longrightarrow> Buffer_Bytes b = [] \<Longrightarrow>
     \<exists>c b'. Buffer_ReadByte b = ((c, Some EOF), b') \<and> Buffer_inv b' \<and> Buffer_Bytes b' = []"
  using ReadByte_step [of b id] by (auto simp: queue_step_def split: prod.splits)

interpretation buffer_reader: byte_reader Buffer_ReadByte Buffer_inv Buffer_Bytes
  by unfold_locales (fact Buffer_ReadByte_Cons, fact Buffer_ReadByte_Nil)

section \<open>Properties\<close>









section \<open>Properties\<close>










text \<open>C36.
  An integer written with \<open>AppendUvarint\<close> into a buffer is read back by \<open>ReadUvarint\<close> from the
  buffer, which is then left with the bytes that follow it.
\<close>

theorem Buffer_ReadUvarint:
  assumes "Buffer_inv b" "Buffer_Bytes b = AppendUvarint [] x @ t"
  shows "\<exists>b'. ReadUvarint Buffer_ReadByte b = ((x, None), b') \<and> Buffer_inv b' \<and> Buffer_Bytes b' = t"
proof -
  have "length (AppendUvarint [] x) > 0" by (cases "x \<ge> 0x80") (simp_all add: AppendUvarint_step)
  then show ?thesis
    using buffer_reader.ReadUvarint_eq [OF assms(1), of x "int (length (AppendUvarint [] x))"]
      assms(2) Uvarint_append [of x t] by auto
qed

theorem Buffer_ReadUvarint_witness:
  "\<exists>b'. ReadUvarint Buffer_ReadByte (NewBufferString (AppendUvarint [] 300 @ [7])) = ((300, None), b') \<and>
     Buffer_inv b' \<and> Buffer_Bytes b' = [7]"
  by (rule Buffer_ReadUvarint) (simp_all add: NewBufferString_def Buffer_inv_def Buffer_Bytes_def)

text \<open>C37.
  \<open>UnreadByte\<close> is documented to fail after a read that returned an error or no bytes.  After
  \<open>ReadBytes\<close> or \<open>ReadString\<close> on a drained buffer, which return no bytes and \<open>io.EOF\<close>, it
  succeeds and brings back the byte that was consumed before.
\<close>

theorem Buffer_UnreadByte_after_EOF:
  assumes "Buffer_inv b" "Buffer_Bytes b = []" "0 < boff b"
  shows "\<exists>b'. Buffer_ReadBytes b c = (([], Some EOF), b') \<and>
    Buffer_UnreadByte b' = (None, b\<lparr>boff := boff b - 1, lastRead := opInvalid\<rparr>) \<and>
    Buffer_Bytes (b\<lparr>boff := boff b - 1, lastRead := opInvalid\<rparr>) = [smem (bbuf b) ! (boff b - 1)]"
proof -
  have b: "boff b = slen (bbuf b)" "slen (bbuf b) \<le> scap (bbuf b)"
    using assms by (auto simp: Buffer_inv_def Buffer_Bytes_def)
  define k where "k = boff b - 1"
  have k: "boff b = Suc k" "slen (bbuf b) = Suc k" "k < scap (bbuf b)"
    using b assms(3) by (simp_all add: k_def)
  have "drop k (take (Suc k) (smem (bbuf b))) = [smem (bbuf b) ! k]"
    using k(3) by (simp add: take_Suc_conv_app_nth)
  then show ?thesis using k
    by (simp add: Buffer_ReadBytes_def Buffer_readSlice_def Buffer_UnreadByte_def Buffer_Bytes_def)
qed

theorem Buffer_UnreadByte_after_EOF_witness:
  "\<exists>b'. Buffer_ReadBytes (snd (Buffer_ReadByte (NewBufferString [7]))) 0 = (([], Some EOF), b') \<and>
     fst (Buffer_UnreadByte b') = None \<and> Buffer_Bytes (snd (Buffer_UnreadByte b')) = [7]"
proof -
  let ?b = "snd (Buffer_ReadByte (NewBufferString [7]))"
  have b: "?b = \<lparr>bbuf = \<lparr>smem = [7], slen = 1, snil = False\<rparr>, boff = 1, lastRead = opRead\<rparr>"
    by (simp add: Buffer_ReadByte_def NewBufferString_def Buffer_empty_def)
  have "Buffer_inv ?b" "Buffer_Bytes ?b = []" "0 < boff ?b"
    by (simp_all add: b Buffer_inv_def Buffer_Bytes_def)
  from Buffer_UnreadByte_after_EOF [OF this, of 0] show ?thesis by (auto simp: b)
qed

end
