(* ===== verification/Mutex.thy ===== *)
theory Mutex
  imports Prelude
begin

text \<open>
  \<open>sync.Mutex\<close> (\<open>internal/sync/mutex.go\<close>): the state word with its locked, woken and
  starving bits and its waiter count, and the code of \<open>Lock\<close>, \<open>TryLock\<close> and \<open>Unlock\<close> as
  atomic steps of any number of goroutines.  A step ends at each access to the shared state;
  plain loads of the state are atomic like the others, as on every platform Go supports.

  The semaphore is the run time's: \<open>runtime_SemacquireMutex\<close> waits until the count is
  positive and decrements it, \<open>runtime_Semrelease\<close> increments it.  In which order it wakes
  the waiters is left open.  The clock and the answer of \<open>runtime_canSpin\<close> are inputs of a
  step.
\<close>

section \<open>State\<close>

abbreviation mutexLocked :: uint32 where "mutexLocked \<equiv> 1"
abbreviation mutexWoken :: uint32 where "mutexWoken \<equiv> 2"
abbreviation mutexStarving :: uint32 where "mutexStarving \<equiv> 4"
abbreviation mutexWaiterShift :: nat where "mutexWaiterShift \<equiv> 3"
abbreviation starvationThresholdNs :: int where "starvationThresholdNs \<equiv> 1000000"

record Mutex =
  mstate :: uint32
  sema :: nat

text \<open>The local variables of \<open>lockSlow\<close>, apart from \<open>old\<close>.\<close>

record locals =
  waitStartTime :: int
  starving :: bool
  awoke :: bool
  iter :: nat

text \<open>Where a goroutine is, with its value of \<open>old\<close> where it has one.\<close>

datatype pc =
    Outside
  | LockCAS
  | TryLoad | TryCAS uint32
  | SlowLoad locals | SlowLoop locals uint32
  | Semacquire locals | Acquired locals
  | StarvingAdd uint32
  | Holding
  | UnlockLoop uint32 | UnlockLoad | Semrelease
  | Thrown string

record env =
  canSpin :: bool
  nanotime :: int

section \<open>The code\<close>

text \<open>The waiter count \<open>old >> mutexWaiterShift\<close>, on an \<open>int32\<close>.\<close>

definition waiters :: "uint32 \<Rightarrow> uint32" where
  "waiters old = signed_drop_bit mutexWaiterShift old"

text \<open>An atomic compare and swap of the state word.\<close>

definition CompareAndSwap :: "Mutex \<Rightarrow> uint32 \<Rightarrow> uint32 \<Rightarrow> Mutex \<times> bool" where
  "CompareAndSwap m old new = (if mstate m = old then (m\<lparr>mstate := new\<rparr>, True) else (m, False))"

definition Mutex_Lock :: "Mutex \<Rightarrow> Mutex \<times> pc" where
  "Mutex_Lock m =
     (case CompareAndSwap m 0 mutexLocked of
        (m, True) \<Rightarrow> (m, Holding)
      | (m, False) \<Rightarrow> (m, SlowLoad \<lparr>waitStartTime = 0, starving = False, awoke = False, iter = 0\<rparr>))"

definition Mutex_TryLock_load :: "Mutex \<Rightarrow> pc" where
  "Mutex_TryLock_load m =
     (let old = mstate m in
      if old AND (mutexLocked OR mutexStarving) \<noteq> 0 then Outside else TryCAS old)"

definition Mutex_TryLock_cas :: "Mutex \<Rightarrow> uint32 \<Rightarrow> Mutex \<times> pc" where
  "Mutex_TryLock_cas m old =
     (case CompareAndSwap m old (old OR mutexLocked) of
        (m, True) \<Rightarrow> (m, Holding)
      | (m, False) \<Rightarrow> (m, Outside))"

text \<open>The new state that \<open>lockSlow\<close> computes; \<^const>\<open>None\<close> is the throw.\<close>

definition lockSlow_new :: "locals \<Rightarrow> uint32 \<Rightarrow> uint32 option" where
  "lockSlow_new l old =
     (let new = old;
          new = (if old AND mutexStarving = 0 then new OR mutexLocked else new);
          new = (if old AND (mutexLocked OR mutexStarving) \<noteq> 0 then new + push_bit mutexWaiterShift 1 else new);
          new = (if starving l \<and> old AND mutexLocked \<noteq> 0 then new OR mutexStarving else new)
      in if awoke l
         then if new AND mutexWoken = 0 then None else Some (new AND NOT mutexWoken)
         else Some new)"

text \<open>One turn of the loop of \<open>lockSlow\<close>, to the load of the state or the semaphore.\<close>

definition lockSlow_loop :: "env \<Rightarrow> Mutex \<Rightarrow> locals \<Rightarrow> uint32 \<Rightarrow> Mutex \<times> pc" where
  "lockSlow_loop e m l old =
     (if old AND (mutexLocked OR mutexStarving) = mutexLocked \<and> canSpin e then
        let (m, ok) =
          (if \<not> awoke l \<and> old AND mutexWoken = 0 \<and> waiters old \<noteq> 0
           then CompareAndSwap m old (old OR mutexWoken) else (m, False));
            l = (if ok then l\<lparr>awoke := True\<rparr> else l)
        in (m, SlowLoad (l\<lparr>iter := iter l + 1\<rparr>))
      else
        case lockSlow_new l old of
          None \<Rightarrow> (m, Thrown ''sync: inconsistent mutex state'')
        | Some new \<Rightarrow>
            (case CompareAndSwap m old new of
               (m, True) \<Rightarrow>
                 if old AND (mutexLocked OR mutexStarving) = 0 then (m, Holding)
                 else
                   (m, Semacquire (if waitStartTime l = 0 then l\<lparr>waitStartTime := nanotime e\<rparr> else l))
             | (m, False) \<Rightarrow> (m, SlowLoad l)))"

text \<open>After the semaphore: the load of the state, and the hand-off in starvation mode.\<close>

definition lockSlow_acquired :: "env \<Rightarrow> Mutex \<Rightarrow> locals \<Rightarrow> pc" where
  "lockSlow_acquired e m l =
     (let l = l\<lparr>starving := starving l \<or> nanotime e - waitStartTime l > starvationThresholdNs\<rparr>;
          old = mstate m
      in if old AND mutexStarving \<noteq> 0 then
           if old AND (mutexLocked OR mutexWoken) \<noteq> 0 \<or> waiters old = 0
           then Thrown ''sync: inconsistent mutex state''
           else
             let delta = mutexLocked - push_bit mutexWaiterShift 1;
                 delta = (if \<not> starving l \<or> waiters old = 1 then delta - mutexStarving else delta)
             in StarvingAdd delta
         else SlowLoop (l\<lparr>awoke := True, iter := 0\<rparr>) old)"

text \<open>
  \<open>Unlock\<close> drops the locked bit; \<open>unlockSlow\<close> continues with the new value.
\<close>

definition unlockSlow :: "uint32 \<Rightarrow> pc" where
  "unlockSlow new =
     (if (new + mutexLocked) AND mutexLocked = 0 then Thrown ''sync: unlock of unlocked mutex''
      else if new AND mutexStarving = 0 then UnlockLoop new
      else Semrelease)"

definition Mutex_Unlock :: "Mutex \<Rightarrow> Mutex \<times> pc" where
  "Mutex_Unlock m =
     (let new = mstate m - mutexLocked; m = m\<lparr>mstate := new\<rparr>
      in (m, if new \<noteq> 0 then unlockSlow new else Outside))"

definition unlockSlow_loop :: "Mutex \<Rightarrow> uint32 \<Rightarrow> Mutex \<times> pc" where
  "unlockSlow_loop m old =
     (if waiters old = 0 \<or> old AND (mutexLocked OR mutexWoken OR mutexStarving) \<noteq> 0 then (m, Outside)
      else
        case CompareAndSwap m old ((old - push_bit mutexWaiterShift 1) OR mutexWoken) of
          (m, True) \<Rightarrow> (m, Semrelease)
        | (m, False) \<Rightarrow> (m, UnlockLoad))"

text \<open>One atomic step of a goroutine that is inside a call or holds the lock; \<^const>\<open>None\<close> is a blocked one.\<close>

fun goroutine_step :: "env \<Rightarrow> Mutex \<Rightarrow> pc \<Rightarrow> (Mutex \<times> pc) option" where
  "goroutine_step e m Outside = None"
| "goroutine_step e m LockCAS = Some (Mutex_Lock m)"
| "goroutine_step e m TryLoad = Some (m, Mutex_TryLock_load m)"
| "goroutine_step e m (TryCAS old) = Some (Mutex_TryLock_cas m old)"
| "goroutine_step e m (SlowLoad l) = Some (m, SlowLoop l (mstate m))"
| "goroutine_step e m (SlowLoop l old) = Some (lockSlow_loop e m l old)"
| "goroutine_step e m (Semacquire l) = (if sema m = 0 then None else Some (m\<lparr>sema := sema m - 1\<rparr>, Acquired l))"
| "goroutine_step e m (Acquired l) = Some (m, lockSlow_acquired e m l)"
| "goroutine_step e m (StarvingAdd delta) = Some (m\<lparr>mstate := mstate m + delta\<rparr>, Holding)"
| "goroutine_step e m Holding = Some (Mutex_Unlock m)"
| "goroutine_step e m (UnlockLoop old) = Some (unlockSlow_loop m old)"
| "goroutine_step e m UnlockLoad = Some (m, UnlockLoop (mstate m))"
| "goroutine_step e m Semrelease = Some (m\<lparr>sema := sema m + 1\<rparr>, Outside)"
| "goroutine_step e m (Thrown s) = None"

text \<open>
  The program: \<open>N\<close> goroutines that call \<open>Lock\<close> and \<open>TryLock\<close> at any time they do not hold
  the mutex, and \<open>Unlock\<close> at any time they hold it, their steps interleaved in any order.
\<close>

inductive mutex_step :: "nat \<Rightarrow> Mutex \<times> (nat \<Rightarrow> pc) \<Rightarrow> Mutex \<times> (nat \<Rightarrow> pc) \<Rightarrow> bool" for N :: nat where
  call_Lock: "t < N \<Longrightarrow> pcs t = Outside \<Longrightarrow> mutex_step N (m, pcs) (m, pcs(t := LockCAS))"
| call_TryLock: "t < N \<Longrightarrow> pcs t = Outside \<Longrightarrow> mutex_step N (m, pcs) (m, pcs(t := TryLoad))"
| inside: "t < N \<Longrightarrow> goroutine_step e m (pcs t) = Some (m', p) \<Longrightarrow> mutex_step N (m, pcs) (m', pcs(t := p))"

inductive mutex_reachable :: "nat \<Rightarrow> Mutex \<times> (nat \<Rightarrow> pc) \<Rightarrow> bool" for N :: nat where
  start: "mutex_reachable N (\<lparr>mstate = 0, sema = 0\<rparr>, \<lambda>_. Outside)"
| step: "mutex_reachable N s \<Longrightarrow> mutex_step N s s' \<Longrightarrow> mutex_reachable N s'"

end
