(* ===== verification/RWMutex.thy ===== *)
theory RWMutex
  imports Mutex
begin

text \<open>
  \<open>sync.RWMutex\<close> (\<open>sync/rwmutex.go\<close>): the counters of readers, the two semaphores and the embedded
  mutex \<open>w\<close> of the writers, with the code of its methods as atomic steps.  The calls of
  \<open>w.Lock\<close>, \<open>w.TryLock\<close> and \<open>w.Unlock\<close> are the steps of the mutex itself.  The two counters are
  atomic 32-bit integers; the calls of the race detector are left out.
\<close>

section \<open>State\<close>

record RWMutex =
  rw_w :: Mutex
  writerSem :: nat
  readerSem :: nat
  readerCount :: uint32
  readerWait :: uint32

abbreviation rwmutexMaxReaders :: uint32 where "rwmutexMaxReaders \<equiv> 0x40000000"

text \<open>
  Where a goroutine is.  \<open>Reading\<close> and \<open>Writing\<close> are the critical sections; \<open>WLocking\<close>,
  \<open>WTrying\<close>, \<open>WFailing\<close> and \<open>WUnlocking\<close> are inside a call of the mutex \<open>w\<close>.
\<close>

datatype rwpc =
    RWOutside
  | RLockAdd | RLockSem
  | TryRLockLoad | TryRLockCAS uint32
  | Reading
  | RUnlockWait | RUnlockRel
  | WLocking pc | LockAdd | LockWait uint32 | LockSem
  | WTrying pc | TryLockCAS | WFailing pc
  | Writing
  | UnlockRelease nat | WUnlocking pc
  | RWThrown string

section \<open>The code\<close>

text \<open>\<open>RLock\<close> up to the semaphore.\<close>

definition RLock :: "RWMutex \<Rightarrow> RWMutex \<times> rwpc" where
  "RLock rw =
     (let c = readerCount rw + 1; rw = rw\<lparr>readerCount := c\<rparr>
      in (rw, if c <s 0 then RLockSem else Reading))"

definition TryRLock_load :: "RWMutex \<Rightarrow> rwpc" where
  "TryRLock_load rw = (let c = readerCount rw in if c <s 0 then RWOutside else TryRLockCAS c)"

definition TryRLock_cas :: "RWMutex \<Rightarrow> uint32 \<Rightarrow> RWMutex \<times> rwpc" where
  "TryRLock_cas rw c =
     (if readerCount rw = c then (rw\<lparr>readerCount := c + 1\<rparr>, Reading) else (rw, TryRLockLoad))"

text \<open>\<open>rUnlockSlow\<close>, to its access to \<open>readerWait\<close>, and from there to the semaphore.\<close>

definition rUnlockSlow :: "uint32 \<Rightarrow> rwpc" where
  "rUnlockSlow r =
     (if r + 1 = 0 \<or> r + 1 = - rwmutexMaxReaders then RWThrown ''sync: RUnlock of unlocked RWMutex''
      else RUnlockWait)"

definition rUnlockSlow_wait :: "RWMutex \<Rightarrow> RWMutex \<times> rwpc" where
  "rUnlockSlow_wait rw =
     (let c = readerWait rw - 1; rw = rw\<lparr>readerWait := c\<rparr>
      in (rw, if c = 0 then RUnlockRel else RWOutside))"

definition RUnlock :: "RWMutex \<Rightarrow> RWMutex \<times> rwpc" where
  "RUnlock rw =
     (let r = readerCount rw - 1; rw = rw\<lparr>readerCount := r\<rparr>
      in (rw, if r <s 0 then rUnlockSlow r else RWOutside))"

text \<open>\<open>Lock\<close> after it holds \<open>w\<close>: the announcement, and the wait for the active readers.\<close>

definition Lock_announce :: "RWMutex \<Rightarrow> RWMutex \<times> rwpc" where
  "Lock_announce rw =
     (let c = readerCount rw + - rwmutexMaxReaders; r = c + rwmutexMaxReaders; rw = rw\<lparr>readerCount := c\<rparr>
      in (rw, if r \<noteq> 0 then LockWait r else Writing))"

definition Lock_wait :: "RWMutex \<Rightarrow> uint32 \<Rightarrow> RWMutex \<times> rwpc" where
  "Lock_wait rw r =
     (let c = readerWait rw + r; rw = rw\<lparr>readerWait := c\<rparr>
      in (rw, if c \<noteq> 0 then LockSem else Writing))"

definition TryLock_cas :: "RWMutex \<Rightarrow> RWMutex \<times> rwpc" where
  "TryLock_cas rw =
     (if readerCount rw = 0 then (rw\<lparr>readerCount := - rwmutexMaxReaders\<rparr>, Writing)
      else (rw, WFailing Holding))"

text \<open>\<open>Unlock\<close>: the readers to wake are counted at once and woken one after the other.\<close>

definition Unlock_announce :: "RWMutex \<Rightarrow> RWMutex \<times> rwpc" where
  "Unlock_announce rw =
     (let r = readerCount rw + rwmutexMaxReaders; rw = rw\<lparr>readerCount := r\<rparr>
      in (rw, if rwmutexMaxReaders \<le>s r then RWThrown ''sync: Unlock of unlocked RWMutex''
              else UnlockRelease (nat (sint r))))"

fun Unlock_release :: "RWMutex \<Rightarrow> nat \<Rightarrow> RWMutex \<times> rwpc" where
  "Unlock_release rw 0 = (rw, WUnlocking Holding)"
| "Unlock_release rw (Suc k) = (rw\<lparr>readerSem := readerSem rw + 1\<rparr>, UnlockRelease k)"

definition hasWaitingReaders :: "RWMutex \<Rightarrow> bool" where
  "hasWaitingReaders rw = (let r = readerCount rw in r <s 0 \<and> 0 <s r + rwmutexMaxReaders)"

text \<open>A step inside a call of the mutex, and where its return leads.\<close>

definition w_step :: "env \<Rightarrow> RWMutex \<Rightarrow> pc \<Rightarrow> (pc \<Rightarrow> rwpc) \<Rightarrow> (RWMutex \<times> rwpc) option" where
  "w_step e rw p k = map_option (\<lambda>(m, p'). (rw\<lparr>rw_w := m\<rparr>, k p')) (goroutine_step e (rw_w rw) p)"

text \<open>One atomic step of a goroutine; \<^const>\<open>None\<close> is a blocked one.\<close>

fun rw_goroutine_step :: "env \<Rightarrow> RWMutex \<Rightarrow> rwpc \<Rightarrow> (RWMutex \<times> rwpc) option" where
  "rw_goroutine_step e rw RWOutside = None"
| "rw_goroutine_step e rw RLockAdd = Some (RLock rw)"
| "rw_goroutine_step e rw RLockSem =
     (if readerSem rw = 0 then None else Some (rw\<lparr>readerSem := readerSem rw - 1\<rparr>, Reading))"
| "rw_goroutine_step e rw TryRLockLoad = Some (rw, TryRLock_load rw)"
| "rw_goroutine_step e rw (TryRLockCAS c) = Some (TryRLock_cas rw c)"
| "rw_goroutine_step e rw Reading = Some (RUnlock rw)"
| "rw_goroutine_step e rw RUnlockWait = Some (rUnlockSlow_wait rw)"
| "rw_goroutine_step e rw RUnlockRel = Some (rw\<lparr>writerSem := writerSem rw + 1\<rparr>, RWOutside)"
| "rw_goroutine_step e rw (WLocking p) = w_step e rw p (\<lambda>p. if p = Holding then LockAdd else WLocking p)"
| "rw_goroutine_step e rw LockAdd = Some (Lock_announce rw)"
| "rw_goroutine_step e rw (LockWait r) = Some (Lock_wait rw r)"
| "rw_goroutine_step e rw LockSem =
     (if writerSem rw = 0 then None else Some (rw\<lparr>writerSem := writerSem rw - 1\<rparr>, Writing))"
| "rw_goroutine_step e rw (WTrying p) =
     w_step e rw p (\<lambda>p. if p = Holding then TryLockCAS else if p = Outside then RWOutside else WTrying p)"
| "rw_goroutine_step e rw TryLockCAS = Some (TryLock_cas rw)"
| "rw_goroutine_step e rw (WFailing p) = w_step e rw p (\<lambda>p. if p = Outside then RWOutside else WFailing p)"
| "rw_goroutine_step e rw Writing = Some (Unlock_announce rw)"
| "rw_goroutine_step e rw (UnlockRelease k) = Some (Unlock_release rw k)"
| "rw_goroutine_step e rw (WUnlocking p) = w_step e rw p (\<lambda>p. if p = Outside then RWOutside else WUnlocking p)"
| "rw_goroutine_step e rw (RWThrown s) = None"

text \<open>\<open>N\<close> goroutines that call the locking methods at any time and unlock what they hold.\<close>

inductive rw_step :: "nat \<Rightarrow> RWMutex \<times> (nat \<Rightarrow> rwpc) \<Rightarrow> RWMutex \<times> (nat \<Rightarrow> rwpc) \<Rightarrow> bool" for N :: nat where
  call_RLock: "t < N \<Longrightarrow> pcs t = RWOutside \<Longrightarrow> rw_step N (rw, pcs) (rw, pcs(t := RLockAdd))"
| call_TryRLock: "t < N \<Longrightarrow> pcs t = RWOutside \<Longrightarrow> rw_step N (rw, pcs) (rw, pcs(t := TryRLockLoad))"
| call_RWLock: "t < N \<Longrightarrow> pcs t = RWOutside \<Longrightarrow> rw_step N (rw, pcs) (rw, pcs(t := WLocking LockCAS))"
| call_RWTryLock: "t < N \<Longrightarrow> pcs t = RWOutside \<Longrightarrow> rw_step N (rw, pcs) (rw, pcs(t := WTrying TryLoad))"
| rw_inside: "t < N \<Longrightarrow> rw_goroutine_step e rw (pcs t) = Some (rw', p) \<Longrightarrow> rw_step N (rw, pcs) (rw', pcs(t := p))"

definition zero_RWMutex :: RWMutex where
  "zero_RWMutex = \<lparr>rw_w = \<lparr>mstate = 0, sema = 0\<rparr>, writerSem = 0, readerSem = 0, readerCount = 0, readerWait = 0\<rparr>"

inductive rw_reachable :: "nat \<Rightarrow> RWMutex \<times> (nat \<Rightarrow> rwpc) \<Rightarrow> bool" for N :: nat where
  rw_start: "rw_reachable N (zero_RWMutex, \<lambda>_. RWOutside)"
| rw_next: "rw_reachable N s \<Longrightarrow> rw_step N s s' \<Longrightarrow> rw_reachable N s'"

end
