(* ===== verification/Mutex_Correct.thy ===== *)
theory Mutex_Correct
  imports Mutex
begin

text \<open>
  Correctness of \<open>sync.Mutex\<close>: mutual exclusion, the absence of the two throws for
  an inconsistent state, and that no waiter is left behind, by an invariant of every reachable
  configuration.  The state word is described by its three flags and the number of waiters;
  goroutines are counted by sums of weights of their program points.
\<close>

section \<open>The state word\<close>

definition word_of :: "bool \<Rightarrow> bool \<Rightarrow> bool \<Rightarrow> nat \<Rightarrow> uint32" where
  "word_of L W V n = push_bit 3 (of_nat n) OR of_bool L OR push_bit 1 (of_bool W) OR push_bit 2 (of_bool V)"

lemma bit_word_of:
  "bit (word_of L W V n) i \<longleftrightarrow>
     i = 0 \<and> L \<or> i = 1 \<and> W \<or> i = 2 \<and> V \<or> 3 \<le> i \<and> i < 32 \<and> bit n (i - 3)"
  by (auto simp: word_of_def bit_simps)

lemma word_of_sum: "word_of L W V n = of_nat n * 8 + (of_bool L + 2 * of_bool W + 4 * of_bool V)"
proof -
  have "push_bit 3 (of_nat n) OR (of_bool L OR push_bit 1 (of_bool W) OR push_bit 2 (of_bool V)) =
      push_bit 3 (of_nat n) + (of_bool L OR push_bit 1 (of_bool W) OR push_bit 2 (of_bool V) :: uint32)"
    by (rule disjunctive_add [symmetric]) (auto simp: bit_simps)
  moreover have "(of_bool L OR push_bit 1 (of_bool W) OR push_bit 2 (of_bool V) :: uint32) =
      of_bool L + 2 * of_bool W + 4 * of_bool V"
    by (cases L; cases W; cases V) (simp_all add: push_bit_eq_mult)
  ultimately show ?thesis
    by (simp add: word_of_def or.assoc push_bit_eq_mult)
qed

lemma word_of_0 [simp]: "word_of False False False 0 = 0"
  by (simp add: word_of_def)

text \<open>The tests of the code on any word, and on a state word.\<close>

lemma bit_small_numeral:
  "bit (2 :: uint32) i \<longleftrightarrow> i = 1" "bit (4 :: uint32) i \<longleftrightarrow> i = 2"
  using bit_exp_iff [of 1 i, where 'a = uint32] bit_exp_iff [of 2 i, where 'a = uint32] by auto

lemma bit_small_sums:
  "bit (3 :: uint32) i \<longleftrightarrow> i = 0 \<or> i = 1" "bit (5 :: uint32) i \<longleftrightarrow> i = 0 \<or> i = 2"
  "bit (7 :: uint32) i \<longleftrightarrow> i = 0 \<or> i = 1 \<or> i = 2"
proof -
  have "(3 :: uint32) = 1 OR 2" "(5 :: uint32) = 1 OR 4" "(7 :: uint32) = 1 OR 2 OR 4" by simp_all
  then show "bit (3 :: uint32) i \<longleftrightarrow> i = 0 \<or> i = 1" "bit (5 :: uint32) i \<longleftrightarrow> i = 0 \<or> i = 2"
    "bit (7 :: uint32) i \<longleftrightarrow> i = 0 \<or> i = 1 \<or> i = 2"
    by (simp_all only: bit_or_iff bit_small_numeral bit_1_iff disj_assoc)
qed

lemma word_bits_iff: "(x :: uint32) = y \<longleftrightarrow> (\<forall>i<32. bit x i = bit y i)"
  by (auto intro: bit_word_eqI)

lemma test_bits:
  fixes w :: uint32
  shows "w AND 1 = 0 \<longleftrightarrow> \<not> bit w 0" "w AND 2 = 0 \<longleftrightarrow> \<not> bit w 1" "w AND 4 = 0 \<longleftrightarrow> \<not> bit w 2"
    "w AND 3 = 0 \<longleftrightarrow> \<not> bit w 0 \<and> \<not> bit w 1"
    "w AND 5 = 0 \<longleftrightarrow> \<not> bit w 0 \<and> \<not> bit w 2"
    "w AND 5 = 1 \<longleftrightarrow> bit w 0 \<and> \<not> bit w 2"
    "w AND 7 = 0 \<longleftrightarrow> \<not> bit w 0 \<and> \<not> bit w 1 \<and> \<not> bit w 2"
proof -
  show 1: "w AND 1 = 0 \<longleftrightarrow> \<not> bit w 0" "w AND 2 = 0 \<longleftrightarrow> \<not> bit w 1" "w AND 4 = 0 \<longleftrightarrow> \<not> bit w 2"
    using and_exp_eq_0_iff_not_bit [of w 0] and_exp_eq_0_iff_not_bit [of w 1]
      and_exp_eq_0_iff_not_bit [of w 2] by simp_all
  have "w AND 3 = (w AND 1) OR (w AND 2)" "w AND 5 = (w AND 1) OR (w AND 4)"
    "w AND 7 = (w AND 1) OR (w AND 2) OR (w AND 4)"
    by (simp_all flip: bit.conj_disj_distrib)
  then show "w AND 3 = 0 \<longleftrightarrow> \<not> bit w 0 \<and> \<not> bit w 1" "w AND 5 = 0 \<longleftrightarrow> \<not> bit w 0 \<and> \<not> bit w 2"
    "w AND 7 = 0 \<longleftrightarrow> \<not> bit w 0 \<and> \<not> bit w 1 \<and> \<not> bit w 2"
    using 1 by (simp_all add: or_eq_0_iff)
  have "bit (w AND 5) 0 \<longleftrightarrow> bit w 0" "bit (w AND 5) 2 \<longleftrightarrow> bit w 2"
    by (simp_all add: bit_and_iff bit_small_sums del: bit_numeral_word_iff)
  moreover have "w AND 5 = 1" if "bit w 0" "\<not> bit w 2"
    by (rule bit_word_eqI)
      (use that in \<open>auto simp: bit_and_iff bit_small_sums bit_1_iff simp del: bit_numeral_word_iff\<close>)
  ultimately show "w AND 5 = 1 \<longleftrightarrow> bit w 0 \<and> \<not> bit w 2" by (metis bit_1_iff zero_neq_numeral)
qed

lemma set_bits:
  "word_of L W V n OR 1 = word_of True W V n"
  "word_of L W V n OR 2 = word_of L True V n"
  "word_of L W V n OR 4 = word_of L W True n"
  "word_of L W V n AND NOT 2 = word_of L False V n"
proof -
  show "word_of L W V n AND NOT 2 = word_of L False V n"
    by (rule bit_word_eqI) (auto simp only: bit_and_iff bit_not_iff bit_small_numeral bit_word_of, simp_all)
qed (auto simp: word_bits_iff bit_or_iff bit_small_numeral bit_1_iff bit_word_of simp del: bit_numeral_word_iff)

lemma arith_bits:
  "word_of L W V n + push_bit 3 1 = word_of L W V (Suc n)"
  "0 < n \<Longrightarrow> word_of L W V n - push_bit 3 1 = word_of L W V (n - 1)"
  "word_of True W V n - 1 = word_of False W V n"
  "word_of False W V n + 1 = word_of True W V n"
  "0 < n \<Longrightarrow> word_of False W V n + (1 - push_bit 3 1) = word_of True W V (n - 1)"
  "0 < n \<Longrightarrow> word_of False W True n + (1 - push_bit 3 1 - 4) = word_of True W False (n - 1)"
  by (cases n; simp add: word_of_sum push_bit_eq_mult algebra_simps)+

lemma waiters_word_of:
  assumes "n < 2 ^ 28"
  shows "waiters (word_of L W V n) = of_nat n"
proof (rule bit_word_eqI)
  fix i
  have "\<not> bit n k" if "28 \<le> k" for k
    using assms that by (metis bit_take_bit_iff linorder_not_le take_bit_nat_eq_self)
  then show "bit (waiters (word_of L W V n)) i = bit (of_nat n :: uint32) i"
    by (auto simp: waiters_def bit_signed_drop_bit_iff bit_word_of bit_of_nat_iff)
qed

lemma waiters_eq:
  assumes "n < 2 ^ 28"
  shows "waiters (word_of L W V n) = 0 \<longleftrightarrow> n = 0" "waiters (word_of L W V n) = 1 \<longleftrightarrow> n = 1"
proof -
  have n: "unat (of_nat n :: uint32) = n"
    using assms by (simp add: unsigned_of_nat take_bit_nat_eq_self)
  show "waiters (word_of L W V n) = 0 \<longleftrightarrow> n = 0"
    using n assms by (auto simp: waiters_word_of)
  show "waiters (word_of L W V n) = 1 \<longleftrightarrow> n = 1"
    using n assms unsigned_1 [where 'a = nat and 'b = 32] by (auto simp: waiters_word_of)
qed

section \<open>The invariant\<close>

text \<open>
  A goroutine that was woken, or has announced that it is awake, or is about to wake
  another one, has a token (\<open>tok\<close>); tokens may also be in the semaphore.  In normal mode the
  woken bit says whether there is a token, in starvation mode there is one exactly while the
  mutex is handed over.
\<close>

fun holds :: "pc \<Rightarrow> nat" where
  "holds Holding = 1" | "holds _ = 0"

fun awake :: "pc \<Rightarrow> nat" where
  "awake (SlowLoad l) = of_bool (awoke l)" | "awake (SlowLoop l old) = of_bool (awoke l)" | "awake _ = 0"

fun asleep :: "pc \<Rightarrow> nat" where
  "asleep (Semacquire l) = 1" | "asleep _ = 0"

fun woken :: "pc \<Rightarrow> nat" where
  "woken (Acquired l) = 1" | "woken _ = 0"

fun handed :: "pc \<Rightarrow> nat" where
  "handed (StarvingAdd d) = 1" | "handed _ = 0"

fun waking :: "pc \<Rightarrow> nat" where
  "waking Semrelease = 1" | "waking _ = 0"

definition pc_count :: "(pc \<Rightarrow> nat) \<Rightarrow> nat \<Rightarrow> (nat \<Rightarrow> pc) \<Rightarrow> nat" where
  "pc_count f N pcs = (\<Sum>t<N. f (pcs t))"

lemma count_upd:
  assumes "t < N"
  shows "pc_count f N (pcs(t := p)) = pc_count f N pcs - f (pcs t) + f p" "f (pcs t) \<le> pc_count f N pcs"
proof -
  have "pc_count f N (pcs(t := p)) = f p + (\<Sum>i\<in>{..<N} - {t}. f (pcs i))"
    using assms by (simp add: pc_count_def sum.remove [of _ t] cong: sum.cong) (rule sum.cong, auto)
  moreover have "pc_count f N pcs = f (pcs t) + (\<Sum>i\<in>{..<N} - {t}. f (pcs i))"
    using assms by (simp add: pc_count_def sum.remove [of _ t])
  ultimately show "pc_count f N (pcs(t := p)) = pc_count f N pcs - f (pcs t) + f p" "f (pcs t) \<le> pc_count f N pcs"
    by simp_all
qed

lemma count_asleep_woken: "pc_count asleep N pcs + pc_count woken N pcs + pc_count handed N pcs \<le> N"
proof -
  have "asleep p + woken p + handed p \<le> 1" for p by (cases p) auto
  then have "(\<Sum>t<N. asleep (pcs t) + woken (pcs t) + handed (pcs t)) \<le> (\<Sum>t<N. 1)"
    by (intro sum_mono)
  then show ?thesis by (simp add: pc_count_def sum.distrib)
qed

text \<open>What every goroutine keeps of its local variables.\<close>

fun pc_ok :: "pc \<Rightarrow> bool" where
  "pc_ok (SlowLoad l) \<longleftrightarrow> (starving l \<longrightarrow> awoke l)"
| "pc_ok (SlowLoop l old) \<longleftrightarrow> (starving l \<longrightarrow> awoke l) \<and> (awoke l \<longrightarrow> bit old 1 \<and> \<not> bit old 2)"
| "pc_ok (TryCAS old) \<longleftrightarrow> \<not> bit old 0 \<and> \<not> bit old 2"
| "pc_ok (StarvingAdd d) \<longleftrightarrow> d = 1 - push_bit 3 1 \<or> d = 1 - push_bit 3 1 - 4"
| "pc_ok (Thrown s) \<longleftrightarrow> False"
| "pc_ok _ \<longleftrightarrow> True"

definition tokens :: "Mutex \<Rightarrow> nat \<Rightarrow> (nat \<Rightarrow> pc) \<Rightarrow> nat" where
  "tokens m N pcs = sema m + pc_count awake N pcs + pc_count woken N pcs + pc_count handed N pcs + pc_count waking N pcs"

definition mutex_inv :: "nat \<Rightarrow> bool \<Rightarrow> bool \<Rightarrow> bool \<Rightarrow> nat \<Rightarrow> Mutex \<Rightarrow> (nat \<Rightarrow> pc) \<Rightarrow> bool" where
  "mutex_inv N L W V n m pcs \<longleftrightarrow>
     mstate m = word_of L W V n \<and> (\<forall>t<N. pc_ok (pcs t)) \<and> pc_count holds N pcs = of_bool L \<and>
     (if V then \<not> W \<and> tokens m N pcs = of_bool (\<not> L) \<and> pc_count awake N pcs = 0 \<and>
                n = pc_count asleep N pcs + pc_count woken N pcs + pc_count handed N pcs
      else tokens m N pcs = of_bool W \<and> pc_count handed N pcs = 0 \<and>
           n + sema m + pc_count waking N pcs = pc_count asleep N pcs)"

lemma mutex_inv_waiters: "mutex_inv N L W V n m pcs \<Longrightarrow> n \<le> N"
  using count_asleep_woken [of N pcs] by (auto simp: mutex_inv_def split: if_splits)

text \<open>A step of goroutine \<open>t\<close> changes each count by the weights of its two program points.\<close>

lemma mutex_inv_upd:
  assumes "mutex_inv N L W V n m pcs" "t < N" "pc_ok p" "mstate m' = word_of L' W' V' n'"
    and "\<lbrakk>pc_ok (pcs t); holds (pcs t) \<le> pc_count holds N pcs; awake (pcs t) \<le> pc_count awake N pcs;
          asleep (pcs t) \<le> pc_count asleep N pcs; woken (pcs t) \<le> pc_count woken N pcs;
          handed (pcs t) \<le> pc_count handed N pcs; waking (pcs t) \<le> pc_count waking N pcs\<rbrakk> \<Longrightarrow>
      pc_count holds N pcs - holds (pcs t) + holds p = of_bool L' \<and>
      (let aw = pc_count awake N pcs - awake (pcs t) + awake p;
           sl = pc_count asleep N pcs - asleep (pcs t) + asleep p;
           wo = pc_count woken N pcs - woken (pcs t) + woken p;
           ha = pc_count handed N pcs - handed (pcs t) + handed p;
           wa = pc_count waking N pcs - waking (pcs t) + waking p;
           tk = sema m' + aw + wo + ha + wa
       in if V' then \<not> W' \<and> tk = of_bool (\<not> L') \<and> aw = 0 \<and> n' = sl + wo + ha
          else tk = of_bool W' \<and> ha = 0 \<and> n' + sema m' + wa = sl)"
  shows "mutex_inv N L' W' V' n' m' (pcs(t := p))"
proof -
  have "\<forall>i<N. pc_ok ((pcs(t := p)) i)" using assms(1,3) by (simp add: mutex_inv_def)
  moreover have "pc_ok (pcs t)" using assms(1,2) by (simp add: mutex_inv_def)
  note counts = assms(5) [OF this count_upd(2) count_upd(2) count_upd(2) count_upd(2) count_upd(2) count_upd(2),
      OF assms(2) assms(2) assms(2) assms(2) assms(2) assms(2)]
  ultimately show ?thesis
    using assms(4) conjunct1 [OF counts] conjunct2 [OF counts]
    unfolding mutex_inv_def tokens_def count_upd(1) [OF assms(2)] Let_def by (intro conjI)
qed

definition mutex_ok :: "nat \<Rightarrow> Mutex \<Rightarrow> (nat \<Rightarrow> pc) \<Rightarrow> bool" where
  "mutex_ok N m pcs \<longleftrightarrow> (\<exists>L W V n. mutex_inv N L W V n m pcs)"

lemma mutex_okI: "mutex_inv N L W V n m pcs \<Longrightarrow> mutex_ok N m pcs"
  unfolding mutex_ok_def by blast

lemma bits_word_of [simp]:
  "bit (word_of L W V n) 0 = L" "bit (word_of L W V n) (Suc 0) = W" "bit (word_of L W V n) 2 = V"
  by (simp_all add: bit_word_of)

lemma word_of_eq_0:
  assumes "n < 2 ^ 28"
  shows "word_of L W V n = 0 \<longleftrightarrow> \<not> L \<and> \<not> W \<and> \<not> V \<and> n = 0"
proof
  assume "word_of L W V n = 0"
  moreover have "waiters 0 = 0" by (simp add: waiters_def)
  ultimately show "\<not> L \<and> \<not> W \<and> \<not> V \<and> n = 0"
    using waiters_eq(1) [OF assms, of L W V] bits_word_of [of L W V n] by (metis bit_0_eq bot_apply bot_bool_def)
qed (simp add: word_of_def)

lemma mutex_inv_stay:
  assumes "mutex_inv N L W V n m pcs" "t < N" "pc_ok p"
    and "holds p = holds (pcs t)" "awake p = awake (pcs t)" "asleep p = asleep (pcs t)"
      "woken p = woken (pcs t)" "handed p = handed (pcs t)" "waking p = waking (pcs t)"
  shows "mutex_inv N L W V n m (pcs(t := p))"
proof (rule mutex_inv_upd [OF assms(1-3)])
  show "mstate m = word_of L W V n" using assms(1) by (simp add: mutex_inv_def)
qed (use assms(1) in \<open>auto simp: assms(4-) mutex_inv_def tokens_def Let_def split: if_splits\<close>)

lemma Lock_step:
  assumes inv: "mutex_inv N L W V n m pcs" and t: "t < N" "pcs t = LockCAS" and n: "n < 2 ^ 28"
    and step: "Mutex_Lock m = (m', p)"
  shows "mutex_ok N m' (pcs(t := p))"
proof (cases "mstate m = 0")
  case True
  then have "\<not> L" "\<not> W" "\<not> V" "n = 0" using inv word_of_eq_0 [OF n] by (auto simp: mutex_inv_def)
  then have "mutex_inv N True False False 0 m' (pcs(t := p))"
    using inv t step True
    by (intro mutex_inv_upd [OF inv t(1)])
      (auto simp: mutex_inv_def tokens_def Let_def Mutex_Lock_def CompareAndSwap_def word_of_def)
  then show ?thesis by (rule mutex_okI)
next
  case False
  then have "m' = m" "p = SlowLoad \<lparr>waitStartTime = 0, starving = False, awoke = False, iter = 0\<rparr>"
    using step by (auto simp: Mutex_Lock_def CompareAndSwap_def)
  then show ?thesis using t(2) by (auto intro!: mutex_okI [OF mutex_inv_stay [OF inv t(1)]])
qed

lemma TryLock_step:
  assumes inv: "mutex_inv N L W V n m pcs" and t: "t < N" "pcs t = TryCAS old"
    and step: "Mutex_TryLock_cas m old = (m', p)"
  shows "mutex_ok N m' (pcs(t := p))"
proof (cases "mstate m = old")
  case True
  have "pc_ok (TryCAS old)" using inv t by (auto simp: mutex_inv_def dest: spec [of _ t])
  with True have f: "\<not> L" "\<not> V" using inv by (auto simp: mutex_inv_def)
  then have "mutex_inv N True W False n m' (pcs(t := p))"
    using inv t step True
    by (intro mutex_inv_upd [OF inv t(1)])
      (auto simp: mutex_inv_def tokens_def Let_def Mutex_TryLock_cas_def CompareAndSwap_def set_bits)
  then show ?thesis by (rule mutex_okI)
next
  case False
  then have "m' = m" "p = Outside"
    using step by (auto simp: Mutex_TryLock_cas_def CompareAndSwap_def)
  then show ?thesis using t(2) by (auto intro!: mutex_okI [OF mutex_inv_stay [OF inv t(1)]])
qed

lemma pc_ok_at: "mutex_inv N L W V n m pcs \<Longrightarrow> t < N \<Longrightarrow> pc_ok (pcs t)"
  by (simp add: mutex_inv_def)

lemma mutex_inv_state: "mutex_inv N L W V n m pcs \<Longrightarrow> mstate m = word_of L W V n"
  by (simp add: mutex_inv_def)

lemma SlowLoad_step:
  assumes inv: "mutex_inv N L W V n m pcs" and t: "t < N" "pcs t = SlowLoad l"
  shows "mutex_ok N m (pcs(t := SlowLoop l (mstate m)))"
proof -
  have "W \<and> \<not> V" if "awoke l"
  proof -
    have "1 \<le> pc_count awake N pcs" using count_upd(2) [OF t(1), of awake pcs] t(2) that by simp
    then show ?thesis using inv by (cases W) (auto simp: mutex_inv_def tokens_def split: if_splits)
  qed
  then have "pc_ok (SlowLoop l (mstate m))"
    using pc_ok_at [OF inv t(1)] t(2) mutex_inv_state [OF inv] by simp
  then show ?thesis using t(2) by (auto intro!: mutex_okI [OF mutex_inv_stay [OF inv t(1)]])
qed

lemma spin_step:
  assumes inv: "mutex_inv N L W V n m pcs" and t: "t < N" "pcs t = SlowLoop l old"
    and st: "mstate m = old" "old AND (1 OR 4) = 1" "\<not> awoke l" "old AND 2 = 0"
  shows "mutex_ok N (m\<lparr>mstate := old OR 2\<rparr>) (pcs(t := SlowLoad (l\<lparr>awoke := True, iter := i\<rparr>)))"
proof -
  have f: "L" "\<not> W" "\<not> V" using st mutex_inv_state [OF inv] by (auto simp: test_bits)
  then have "mutex_inv N True True False n (m\<lparr>mstate := old OR 2\<rparr>) (pcs(t := SlowLoad (l\<lparr>awoke := True, iter := i\<rparr>)))"
    using inv t st
    by (intro mutex_inv_upd [OF inv t(1)]) (auto simp: mutex_inv_def tokens_def Let_def set_bits)
  then show ?thesis by (rule mutex_okI)
qed

text \<open>The state computed by \<open>lockSlow\<close> in terms of the flags.\<close>

lemmas flag_simps = test_bits [simplified] set_bits [simplified] arith_bits [simplified]

lemma word_of_exists: "\<exists>L W V n. w = word_of L W V n"
proof -
  have "w = word_of (bit w 0) (bit w 1) (bit w 2) (unat (drop_bit 3 w))"
  proof (rule bit_word_eqI)
    fix i
    assume "i < LENGTH(32)"
    moreover have "i = 0 \<or> i = 1 \<or> i = 2 \<or> 3 \<le> i" by linarith
    ultimately show "bit w i = bit (word_of (bit w 0) (bit w 1) (bit w 2) (unat (drop_bit 3 w))) i"
      by (auto simp: bit_word_of bit_unsigned_iff bit_drop_bit_eq)
  qed
  then show ?thesis by blast
qed

lemma lockSlow_new_word:
  assumes "pc_ok (SlowLoop l (word_of L W V n))"
  shows "lockSlow_new l (word_of L W V n) =
     Some (word_of (L \<or> \<not> V) (W \<and> \<not> awoke l) (V \<or> starving l \<and> L) (if L \<or> V then Suc n else n))"
  using assms
  by (cases L; cases V; cases "starving l"; cases "awoke l") (simp_all add: lockSlow_new_def Let_def flag_simps)

lemma queue_step:
  assumes inv: "mutex_inv N L W V n m pcs" and t: "t < N" "pcs t = SlowLoop l (mstate m)" and f: "L \<or> V"
    and new: "lockSlow_new l (mstate m) = Some new"
  shows "mutex_ok N (m\<lparr>mstate := new\<rparr>) (pcs(t := Semacquire l'))"
proof -
  note ok = pc_ok_at [OF inv t(1), unfolded t(2) mutex_inv_state [OF inv]]
  have "new = word_of (L \<or> \<not> V) (W \<and> \<not> awoke l) (V \<or> starving l \<and> L) (Suc n)"
    using lockSlow_new_word [OF ok] new f mutex_inv_state [OF inv] by simp
  moreover have "awake (pcs t) \<le> pc_count awake N pcs" by (rule count_upd(2) [OF t(1)])
  ultimately have "mutex_inv N (L \<or> \<not> V) (W \<and> \<not> awoke l) (V \<or> starving l \<and> L) (Suc n)
      (m\<lparr>mstate := new\<rparr>) (pcs(t := Semacquire l'))"
    using inv t f ok
    by (intro mutex_inv_upd [OF inv t(1)]; cases V; cases "awoke l"; cases "starving l")
      (simp_all add: mutex_inv_def tokens_def Let_def)
  then show ?thesis by (rule mutex_okI)
qed

lemma acquire_step:
  assumes inv: "mutex_inv N L W V n m pcs" and t: "t < N" "pcs t = SlowLoop l (mstate m)" and f: "\<not> L" "\<not> V"
    and new: "lockSlow_new l (mstate m) = Some new"
  shows "mutex_ok N (m\<lparr>mstate := new\<rparr>) (pcs(t := Holding))"
proof -
  note ok = pc_ok_at [OF inv t(1), unfolded t(2) mutex_inv_state [OF inv]]
  have "new = word_of True (W \<and> \<not> awoke l) False n"
    using lockSlow_new_word [OF ok] new f mutex_inv_state [OF inv] by simp
  moreover have "awake (pcs t) \<le> pc_count awake N pcs" by (rule count_upd(2) [OF t(1)])
  ultimately have "mutex_inv N True (W \<and> \<not> awoke l) False n (m\<lparr>mstate := new\<rparr>) (pcs(t := Holding))"
    using inv t f ok
    by (intro mutex_inv_upd [OF inv t(1)])
      (auto simp: mutex_inv_def tokens_def Let_def split: if_splits)
  then show ?thesis by (rule mutex_okI)
qed

lemma SlowLoop_step:
  assumes inv: "mutex_inv N L W V n m pcs" and t: "t < N" "pcs t = SlowLoop l old"
    and step: "lockSlow_loop e m l old = (m', p)"
  shows "mutex_ok N m' (pcs(t := p))"
proof (cases "old AND (1 OR 4) = 1 \<and> canSpin e")
  case True
  show ?thesis
  proof (cases "\<not> awoke l \<and> old AND 2 = 0 \<and> waiters old \<noteq> 0 \<and> mstate m = old")
    case True
    with spin_step [OF inv t] \<open>old AND (1 OR 4) = 1 \<and> canSpin e\<close> step show ?thesis
      by (auto simp: lockSlow_loop_def CompareAndSwap_def)
  next
    case False
    then have "m' = m" "p = SlowLoad (l\<lparr>iter := iter l + 1\<rparr>)"
      using step \<open>old AND (1 OR 4) = 1 \<and> canSpin e\<close>
      by (auto simp: lockSlow_loop_def CompareAndSwap_def split: if_splits)
    then show ?thesis using t(2) pc_ok_at [OF inv t(1)]
      by (auto intro!: mutex_okI [OF mutex_inv_stay [OF inv t(1)]])
  qed
next
  case False
  obtain L0 W0 V0 n0 where old: "old = word_of L0 W0 V0 n0" using word_of_exists by blast
  obtain new where new: "lockSlow_new l old = Some new"
    using lockSlow_new_word pc_ok_at [OF inv t(1)] t(2) old by force
  show ?thesis
  proof (cases "mstate m = old")
    case True
    have "(L \<or> V) = (old AND (1 OR 4) \<noteq> 0)"
      using mutex_inv_state [OF inv] True by (auto simp: flag_simps)
    with True False step new show ?thesis
      using queue_step [OF inv t(1)] acquire_step [OF inv t(1)] t(2)
      by (auto simp: lockSlow_loop_def CompareAndSwap_def split: if_splits)
  next
    case neq: False
    then have "m' = m" "p = SlowLoad l"
      using step False new by (auto simp: lockSlow_loop_def CompareAndSwap_def)
    then show ?thesis using t(2) pc_ok_at [OF inv t(1)]
      by (auto intro!: mutex_okI [OF mutex_inv_stay [OF inv t(1)]])
  qed
qed

lemma Semacquire_step:
  assumes inv: "mutex_inv N L W V n m pcs" and t: "t < N" "pcs t = Semacquire l" and pos: "0 < sema m"
  shows "mutex_ok N (m\<lparr>sema := sema m - 1\<rparr>) (pcs(t := Acquired l))"
  using inv t pos
  by (intro mutex_okI [of N L W V n] mutex_inv_upd [OF inv t(1)]; cases V)
    (auto simp: mutex_inv_def tokens_def Let_def)

lemma Acquired_step:
  assumes inv: "mutex_inv N L W V n m pcs" and t: "t < N" "pcs t = Acquired l" and n: "n < 2 ^ 28"
    and step: "lockSlow_acquired e m l = p"
  shows "mutex_ok N m (pcs(t := p))"
proof (cases V)
  case True
  have "1 \<le> pc_count woken N pcs" using count_upd(2) [OF t(1), of woken pcs] t(2) by simp
  then have "\<not> L" "\<not> W" "0 < n" using inv True by (auto simp: mutex_inv_def tokens_def)
  then obtain d where "p = StarvingAdd d" "pc_ok (StarvingAdd d)"
    using step True mutex_inv_state [OF inv] waiters_eq [OF n]
    by (auto simp: lockSlow_acquired_def Let_def flag_simps)
  moreover have "mutex_inv N L W V n m (pcs(t := StarvingAdd d))" if "pc_ok (StarvingAdd d)" for d
    using inv t that True by (intro mutex_inv_upd [OF inv t(1)]) (auto simp: mutex_inv_def tokens_def Let_def)
  ultimately show ?thesis by (auto intro: mutex_okI)
next
  case False
  have "1 \<le> pc_count woken N pcs" using count_upd(2) [OF t(1), of woken pcs] t(2) by simp
  then have W using inv False by (cases W) (auto simp: mutex_inv_def tokens_def)
  then obtain l' where l': "p = SlowLoop l' (mstate m)" "awoke l'" "pc_ok p"
    using step False mutex_inv_state [OF inv] by (auto simp: lockSlow_acquired_def Let_def flag_simps)
  have "mutex_inv N L W V n m (pcs(t := p))"
    using inv t l' False by (intro mutex_inv_upd [OF inv t(1)]) (auto simp: mutex_inv_def tokens_def Let_def)
  then show ?thesis by (rule mutex_okI)
qed

lemma StarvingAdd_state:
  assumes inv: "mutex_inv N L W V n m pcs" and t: "t < N" "pcs t = StarvingAdd d"
  shows "V \<and> \<not> L \<and> \<not> W \<and> 0 < n \<and> (\<exists>V'. mstate m + d = word_of True False V' (n - 1))"
proof -
  have "1 \<le> pc_count handed N pcs" using count_upd(2) [OF t(1), of handed pcs] t(2) by simp
  then have f: "V" "\<not> L" "\<not> W" "0 < n" using inv by (auto simp: mutex_inv_def tokens_def split: if_splits)
  from pc_ok_at [OF inv t(1)] t(2) obtain V' where "mstate m + d = word_of True False V' (n - 1)"
    using mutex_inv_state [OF inv] f arith_bits(5) [OF f(4)] arith_bits(6) [OF f(4)] by auto
  with f show ?thesis by blast
qed

lemma StarvingAdd_step:
  assumes inv: "mutex_inv N L W V n m pcs" and t: "t < N" "pcs t = StarvingAdd d"
  shows "mutex_ok N (m\<lparr>mstate := mstate m + d\<rparr>) (pcs(t := Holding))"
proof -
  from StarvingAdd_state [OF inv t] obtain V' where
    f: "V" "\<not> L" "\<not> W" "0 < n" and "mstate m + d = word_of True False V' (n - 1)" by blast
  then have "mutex_inv N True False V' (n - 1) (m\<lparr>mstate := mstate m + d\<rparr>) (pcs(t := Holding))"
    using inv t f by (intro mutex_inv_upd [OF inv t(1)]) (auto simp: mutex_inv_def tokens_def Let_def)
  then show ?thesis by (rule mutex_okI)
qed

lemma holder_locked:
  assumes "mutex_inv N L W V n m pcs" "t < N" "pcs t = Holding"
  shows L
  using assms count_upd(2) [of t N holds pcs] by (cases L) (auto simp: mutex_inv_def)

lemma Unlock_step:
  assumes inv: "mutex_inv N L W V n m pcs" and t: "t < N" "pcs t = Holding"
    and step: "Mutex_Unlock m = (m', p)"
  shows "mutex_ok N m' (pcs(t := p))"
proof -
  have f: "L" by (rule holder_locked [OF inv t])
  define new where "new = word_of False W V n"
  have m': "m' = m\<lparr>mstate := new\<rparr>"
    using step mutex_inv_state [OF inv] f by (auto simp: Mutex_Unlock_def Let_def arith_bits new_def)
  have p: "p = (if new = 0 then Outside else if V then Semrelease else UnlockLoop new)"
    using step mutex_inv_state [OF inv] f
    by (auto simp: Mutex_Unlock_def Let_def arith_bits new_def unlockSlow_def test_bits)
  have "V \<Longrightarrow> new \<noteq> 0" using bits_word_of(3) [of False W V n] by (metis new_def bit_0_eq bot_apply bot_bool_def)
  then have "mutex_inv N False W V n m' (pcs(t := p))"
    using inv t f p m'
    by (intro mutex_inv_upd [OF inv t(1)]; cases V) (auto simp: mutex_inv_def tokens_def Let_def new_def)
  then show ?thesis by (rule mutex_okI)
qed

lemma UnlockLoop_step:
  assumes inv: "mutex_inv N L W V n m pcs" and t: "t < N" "pcs t = UnlockLoop old" and n: "n < 2 ^ 28"
    and step: "unlockSlow_loop m old = (m', p)"
  shows "mutex_ok N m' (pcs(t := p))"
proof (cases "waiters old = 0 \<or> old AND (1 OR 2 OR 4) \<noteq> 0 \<or> mstate m \<noteq> old")
  case True
  then have "m' = m" "p = Outside \<or> p = UnlockLoad"
    using step by (auto simp: unlockSlow_loop_def CompareAndSwap_def split: if_splits)
  then show ?thesis using t(2) by (auto intro!: mutex_okI [OF mutex_inv_stay [OF inv t(1)]])
next
  case False
  then have old: "old = word_of L W V n" using mutex_inv_state [OF inv] by simp
  with False have f: "\<not> L" "\<not> W" "\<not> V" "0 < n"
    using waiters_eq [OF n] by (simp_all add: flag_simps)
  then have "m' = m\<lparr>mstate := word_of False True False (n - 1)\<rparr>" "p = Semrelease"
    using False step old by (simp_all add: unlockSlow_loop_def CompareAndSwap_def flag_simps)
  then have "mutex_inv N False True False (n - 1) m' (pcs(t := p))"
    using inv t f by (intro mutex_inv_upd [OF inv t(1)]) (auto simp: mutex_inv_def tokens_def Let_def)
  then show ?thesis by (rule mutex_okI)
qed

lemma Semrelease_step:
  assumes inv: "mutex_inv N L W V n m pcs" and t: "t < N" "pcs t = Semrelease"
  shows "mutex_ok N (m\<lparr>sema := sema m + 1\<rparr>) (pcs(t := Outside))"
  using inv t
  by (intro mutex_okI [of N L W V n] mutex_inv_upd [OF inv t(1)]; cases V)
    (auto simp: mutex_inv_def tokens_def Let_def)

lemma TryLoad_step:
  assumes inv: "mutex_inv N L W V n m pcs" and t: "t < N" "pcs t = TryLoad"
  shows "mutex_ok N m (pcs(t := Mutex_TryLock_load m))"
  using t by (intro mutex_okI [OF mutex_inv_stay [OF inv t(1)]])
    (auto simp: Mutex_TryLock_load_def Let_def flag_simps)

lemma goroutine_inv:
  assumes inv: "mutex_inv N L W V n m pcs" and t: "t < N" and N: "N < 2 ^ 28"
    and step: "goroutine_step e m (pcs t) = Some (m', p)"
  shows "mutex_ok N m' (pcs(t := p))"
proof -
  have n: "n < 2 ^ 28" using mutex_inv_waiters [OF inv] N by simp
  show ?thesis
    using step Lock_step [OF inv t _ n] TryLoad_step [OF inv t] TryLock_step [OF inv t] SlowLoad_step [OF inv t]
      SlowLoop_step [OF inv t] Semacquire_step [OF inv t] Acquired_step [OF inv t _ n] StarvingAdd_step [OF inv t]
      Unlock_step [OF inv t] UnlockLoop_step [OF inv t _ n] Semrelease_step [OF inv t]
      mutex_okI [OF mutex_inv_stay [OF inv t]]
    by (cases "pcs t") (auto split: if_splits)
qed

text \<open>
  No wake-up is lost: while the mutex is free with waiters and no token, some goroutine is in
  \<open>unlockSlow\<close> with the current value of the state.
\<close>

definition mutex_live :: "nat \<Rightarrow> Mutex \<Rightarrow> (nat \<Rightarrow> pc) \<Rightarrow> bool" where
  "mutex_live N m pcs \<longleftrightarrow>
     (waiters (mstate m) \<noteq> 0 \<and> mstate m AND (1 OR 2 OR 4) = 0 \<longrightarrow> (\<exists>t<N. pcs t = UnlockLoop (mstate m)))"

lemma goroutine_state_cases:
  assumes inv: "mutex_inv N L W V n m pcs" and t: "t < N"
    and step: "goroutine_step e m (pcs t) = Some (m', p)"
  shows "mstate m' = mstate m \<or> mstate m' AND (1 OR 2 OR 4) \<noteq> 0 \<or> p = UnlockLoop (mstate m') \<or> mstate m' = 0"
proof (cases "pcs t")
  case (SlowLoop l old)
  obtain L0 W0 V0 n0 where old: "old = word_of L0 W0 V0 n0" using word_of_exists by blast
  have "pc_ok (SlowLoop l (word_of L0 W0 V0 n0))" using pc_ok_at [OF inv t] SlowLoop old by simp
  from lockSlow_new_word [OF this] show ?thesis
    using SlowLoop old step
    by (auto simp: lockSlow_loop_def CompareAndSwap_def flag_simps split: if_splits)
next
  case (StarvingAdd d)
  from StarvingAdd_state [OF inv t StarvingAdd] obtain V' where
    "mstate m + d = word_of True False V' (n - 1)" by blast
  then show ?thesis using step StarvingAdd by (auto simp: flag_simps)
next
  case Holding
  then have L by (rule holder_locked [OF inv t])
  then show ?thesis using step Holding mutex_inv_state [OF inv]
    by (auto simp: Mutex_Unlock_def unlockSlow_def Let_def flag_simps split: if_splits)
qed (use step in \<open>auto simp: Mutex_Lock_def Mutex_TryLock_cas_def unlockSlow_loop_def CompareAndSwap_def flag_simps
      bit_or_iff split: if_splits\<close>)

lemma goroutine_live:
  assumes inv: "mutex_inv N L W V n m pcs" and live: "mutex_live N m pcs" and t: "t < N"
    and step: "goroutine_step e m (pcs t) = Some (m', p)"
  shows "mutex_live N m' (pcs(t := p))"
  unfolding mutex_live_def
proof
  assume w: "waiters (mstate m') \<noteq> 0 \<and> mstate m' AND (1 OR 2 OR 4) = 0"
  moreover have "waiters 0 = 0" by (simp add: waiters_def)
  ultimately consider "mstate m' = mstate m" | "p = UnlockLoop (mstate m')"
    using goroutine_state_cases [OF inv t step] by metis
  then show "\<exists>i<N. (pcs(t := p)) i = UnlockLoop (mstate m')"
  proof cases
    case 1
    then obtain u where u: "u < N" "pcs u = UnlockLoop (mstate m)"
      using live w by (auto simp: mutex_live_def)
    have "u \<noteq> t"
    proof
      assume "u = t"
      then have "mstate m' = (mstate m - push_bit 3 1) OR 2"
        using u step w 1 by (auto simp: unlockSlow_loop_def CompareAndSwap_def split: if_splits)
      then show False using w by (simp add: flag_simps bit_or_iff)
    qed
    then show ?thesis using u 1 by auto
  qed (use t in auto)
qed

lemma call_inv:
  assumes inv: "mutex_inv N L W V n m pcs" and live: "mutex_live N m pcs" and t: "t < N" "pcs t = Outside"
    and p: "p = LockCAS \<or> p = TryLoad"
  shows "mutex_ok N m (pcs(t := p)) \<and> mutex_live N m (pcs(t := p))"
proof
  show "mutex_ok N m (pcs(t := p))"
    using p t by (intro mutex_okI [OF mutex_inv_stay [OF inv t(1)]]) auto
  have "(pcs(t := p)) u = UnlockLoop w" if "pcs u = UnlockLoop w" for u w using that t(2) by auto
  then show "mutex_live N m (pcs(t := p))" using live unfolding mutex_live_def by blast
qed

lemma mutex_reachable_inv:
  assumes "mutex_reachable N s" and N: "N < 2 ^ 28"
  shows "mutex_ok N (fst s) (snd s) \<and> mutex_live N (fst s) (snd s)"
  using assms(1)
proof induction
  case start
  have "mutex_inv N False False False 0 \<lparr>mstate = 0, sema = 0\<rparr> (\<lambda>_. Outside)"
    by (simp add: mutex_inv_def tokens_def pc_count_def)
  then show ?case by (auto intro: mutex_okI simp: mutex_live_def waiters_def)
next
  case (step s s')
  then obtain L W V n where inv: "mutex_inv N L W V n (fst s) (snd s)" by (auto simp: mutex_ok_def)
  from step.hyps(2) show ?case
  proof cases
    case (call_Lock t pcs m)
    then show ?thesis using call_inv [of N L W V n m pcs t LockCAS] inv step.IH by (simp del: fun_upd_apply)
  next
    case (call_TryLock t pcs m)
    then show ?thesis using call_inv [of N L W V n m pcs t TryLoad] inv step.IH by (simp del: fun_upd_apply)
  next
    case (inside t e m pcs m' p)
    then show ?thesis
      using goroutine_inv [of N L W V n m pcs t e m' p] goroutine_live [of N L W V n m pcs t e m' p] inv step.IH N
      by (simp del: fun_upd_apply)
  qed
qed

section \<open>Properties\<close>

lemma two_holders:
  assumes "t < N" "u < N" "t \<noteq> u" "pcs t = Holding" "pcs u = Holding"
  shows "2 \<le> pc_count holds N pcs"
proof -
  have "1 \<le> pc_count holds N (pcs(t := Outside))"
    using count_upd(2) [of u N holds "pcs(t := Outside)"] assms by simp
  then show ?thesis using count_upd(1) [OF assms(1), of holds pcs Outside] assms by simp
qed

text \<open>C2.
  Mutual exclusion and consistency of \<open>sync.Mutex\<close>: in every configuration that any
  interleaving of fewer than \<open>2 ^ 28\<close> goroutines calling \<open>Lock\<close>, \<open>TryLock\<close> and \<open>Unlock\<close>
  can reach, at most one holds the mutex, and none has thrown \<open>inconsistent mutex state\<close> or
  \<open>unlock of unlocked mutex\<close>, however they spin, starve and hand the mutex over.
\<close>

theorem mutex_exclusion:
  assumes "N < 2 ^ 28" "mutex_reachable N (m, pcs)" "t < N" "u < N"
  shows "(pcs t = Holding \<and> pcs u = Holding \<longrightarrow> t = u) \<and> pcs t \<noteq> Thrown s"
proof -
  obtain L W V n where inv: "mutex_inv N L W V n m pcs"
    using mutex_reachable_inv [OF assms(2,1)] by (auto simp: mutex_ok_def)
  then have "pc_count holds N pcs \<le> 1" by (simp add: mutex_inv_def)
  then have "pcs t = Holding \<and> pcs u = Holding \<longrightarrow> t = u"
    using two_holders [OF assms(3,4)] by force
  moreover have "pcs t \<noteq> Thrown s" using pc_ok_at [OF inv assms(3)] by auto
  ultimately show ?thesis by simp
qed

lemma mutex_reach_locked: "mutex_reachable 2 (\<lparr>mstate = 1, sema = 0\<rparr>, (\<lambda>_. Outside)(0 := Holding))"
proof -
  let ?m = "\<lparr>mstate = 0, sema = 0\<rparr> :: Mutex" and ?o = "\<lambda>_ :: nat. Outside"
  have "mutex_step 2 (?m, ?o) (?m, ?o(0 := LockCAS))" by (rule call_Lock) auto
  with mutex_reachable.start have 1: "mutex_reachable 2 (?m, ?o(0 := LockCAS))"
    by (rule mutex_reachable.step)
  have "mutex_step 2 (?m, ?o(0 := LockCAS)) (\<lparr>mstate = 1, sema = 0\<rparr>, (?o(0 := LockCAS))(0 := Holding))"
    by (rule inside) (auto simp: Mutex_Lock_def CompareAndSwap_def)
  from mutex_reachable.step [OF 1 this] show ?thesis by simp
qed

theorem mutex_exclusion_witness:
  "mutex_reachable 2 (\<lparr>mstate = 1, sema = 0\<rparr>, (\<lambda>_. Outside)(0 := Holding)) \<and>
   ((\<lambda>_. Outside)(0 := Holding)) (0::nat) = Holding \<and> ((\<lambda>_. Outside)(0 := Holding)) (1::nat) \<noteq> Holding"
  using mutex_exclusion [of 2 "\<lparr>mstate = 1, sema = 0\<rparr>" "(\<lambda>_. Outside)(0 := Holding)" 0 1] mutex_reach_locked
  by auto

lemma mutex_not_thrown:
  assumes "N < 2 ^ 28" "mutex_reachable N (m, pcs)" "t < N"
  shows "pcs t \<noteq> Thrown s"
proof -
  obtain L W V n where "mutex_inv N L W V n m pcs"
    using mutex_reachable_inv [OF assms(2,1)] by (auto simp: mutex_ok_def)
  from pc_ok_at [OF this assms(3)] show ?thesis by auto
qed

lemma mutex_not_stuck:
  assumes "N < 2 ^ 28" "mutex_reachable N (m, pcs)" "\<forall>t<N. pcs t \<noteq> Holding" "t < N" "pcs t \<noteq> Outside"
  shows "\<exists>u<N. goroutine_step e m (pcs u) \<noteq> None"
proof (rule ccontr)
  assume "\<not> ?thesis"
  then have blocked: "goroutine_step e m (pcs u) = None" if "u < N" for u using that by blast
  obtain L W V n where inv: "mutex_inv N L W V n m pcs" and live: "mutex_live N m pcs"
    using mutex_reachable_inv [OF assms(2,1)] by (auto simp: mutex_ok_def)
  have pc: "pcs u = Outside \<or> (\<exists>l. pcs u = Semacquire l) \<and> sema m = 0" if "u < N" for u
    using blocked [OF that] pc_ok_at [OF inv that] by (cases "pcs u") (auto split: if_splits)
  have zero: "pc_count f N pcs = 0" if "f Outside = 0" "\<And>l. f (Semacquire l) = 0" for f
    using pc that unfolding pc_count_def by (intro sum.neutral ballI) (metis lessThan_iff)
  have sem: "sema m = 0" "\<exists>l. pcs t = Semacquire l" using pc assms(4,5) by auto
  have asleep: "1 \<le> pc_count asleep N pcs" using count_upd(2) [OF assms(4), of asleep pcs] sem by auto
  have n: "n < 2 ^ 28" using mutex_inv_waiters [OF inv] assms(1) by simp
  have "pc_count holds N pcs = 0" "tokens m N pcs = 0" "pc_count waking N pcs = 0"
    using zero sem by (simp_all add: tokens_def)
  then have "\<not> L" "\<not> V" "\<not> W" "0 < n" using inv sem asleep by (auto simp: mutex_inv_def split: if_splits)
  then obtain u where "u < N" "pcs u = UnlockLoop (mstate m)"
    using live mutex_inv_state [OF inv] waiters_eq [OF n] by (auto simp: mutex_live_def flag_simps)
  then show False using pc by force
qed

text \<open>C20.
  No goroutine is left waiting for a free mutex: whenever no goroutine holds it and some
  goroutine is inside a call, the code of some goroutine can take a step.  In particular the
  waiters never all sleep on the semaphore while the mutex is free.
\<close>

theorem mutex_progress:
  assumes "N < 2 ^ 28" "mutex_reachable N (m, pcs)" "\<forall>t<N. pcs t \<noteq> Holding" "t < N" "pcs t \<noteq> Outside"
  shows "\<exists>u<N. goroutine_step e m (pcs u) \<noteq> None"
  by (rule mutex_not_stuck [OF assms])

theorem mutex_progress_witness:
  "\<exists>u<2::nat. goroutine_step \<lparr>canSpin = False, nanotime = 0\<rparr> \<lparr>mstate = 0, sema = 0\<rparr> (((\<lambda>_. Outside)(0 := LockCAS)) u) \<noteq> None"
proof -
  let ?m = "\<lparr>mstate = 0, sema = 0\<rparr> :: Mutex" and ?o = "\<lambda>_ :: nat. Outside"
  have "mutex_step 2 (?m, ?o) (?m, ?o(0 := LockCAS))" by (rule call_Lock) auto
  with mutex_reachable.start have "mutex_reachable 2 (?m, ?o(0 := LockCAS))" by (rule mutex_reachable.step)
  from mutex_progress [OF _ this, of 0 "\<lparr>canSpin = False, nanotime = 0\<rparr>"] show ?thesis by auto
qed

end
