(* ===== verification/RWMutex_Correct.thy ===== *)
theory RWMutex_Correct
  imports RWMutex Mutex_Correct
begin

text \<open>
  Correctness of \<open>sync.RWMutex\<close>: exclusion of readers and other writers by a writer, and the
  absence of lost wake-ups.  The use of the embedded mutex refines \<open>sync.Mutex\<close>, so its
  invariant bounds the writers; the counters are described by sums of weights of the program
  points.
\<close>

section \<open>Refinement of the embedded mutex\<close>

text \<open>What a goroutine is doing with the mutex \<open>w\<close>.\<close>

fun w_pc :: "rwpc \<Rightarrow> pc" where
  "w_pc (WLocking p) = p" | "w_pc (WTrying p) = p" | "w_pc (WFailing p) = p" | "w_pc (WUnlocking p) = p"
| "w_pc LockAdd = Holding" | "w_pc (LockWait r) = Holding" | "w_pc LockSem = Holding" | "w_pc Writing = Holding"
| "w_pc TryLockCAS = Holding" | "w_pc (UnlockRelease k) = Holding"
| "w_pc _ = Outside"

lemma w_step_Some: "w_step e rw p k = Some (rw', q) \<longleftrightarrow> (\<exists>m p'. goroutine_step e (rw_w rw) p = Some (m, p') \<and> rw' = rw\<lparr>rw_w := m\<rparr> \<and> q = k p')"
  by (auto simp: w_step_def)

text \<open>A step of the readers-writer mutex is a step of \<open>w\<close> or leaves it as it is, unless it throws.\<close>

lemma rw_goroutine_step_w:
  assumes "rw_goroutine_step e rw p = Some (rw', q)"
  shows "(rw_w rw' = rw_w rw \<and> w_pc q = w_pc p) \<or> goroutine_step e (rw_w rw) (w_pc p) = Some (rw_w rw', w_pc q) \<or> (\<exists>s. q = RWThrown s)"
proof (cases p)
  case (UnlockRelease k)
  then show ?thesis using assms by (cases k) auto
qed (use assms in \<open>auto simp: w_step_Some RLock_def TryRLock_load_def TryRLock_cas_def RUnlock_def rUnlockSlow_def
      rUnlockSlow_wait_def Lock_announce_def Lock_wait_def TryLock_cas_def Unlock_announce_def Let_def split: if_splits\<close>)

section \<open>The invariant\<close>

text \<open>The sum of a weight over the goroutines.\<close>

definition census :: "('p \<Rightarrow> int) \<Rightarrow> nat \<Rightarrow> (nat \<Rightarrow> 'p) \<Rightarrow> int" where
  "census f N pcs = (\<Sum>t<N. f (pcs t))"

lemma census_upd: "t < N \<Longrightarrow> census f N (pcs(t := p)) = census f N pcs - f (pcs t) + f p"
proof -
  assume t: "t < N"
  have "(\<Sum>u\<in>{..<N} - {t}. f ((pcs(t := p)) u)) = (\<Sum>u\<in>{..<N} - {t}. f (pcs u))"
    by (intro sum.cong) auto
  then show ?thesis
    unfolding census_def using t sum.remove [of "{..<N}" t "\<lambda>u. f ((pcs(t := p)) u)"] sum.remove [of "{..<N}" t "\<lambda>u. f (pcs u)"]
    by simp
qed

lemma census_ge: "t < N \<Longrightarrow> (\<And>p. 0 \<le> f p) \<Longrightarrow> f (pcs t) \<le> census f N pcs"
  unfolding census_def by (intro member_le_sum) auto

lemma census_nonneg: "(\<And>p. 0 \<le> f p) \<Longrightarrow> 0 \<le> census f N pcs"
  unfolding census_def by (intro sum_nonneg) auto

lemma census_mono: "(\<And>p. f p \<le> g p) \<Longrightarrow> census f N pcs \<le> census g N pcs"
  unfolding census_def by (intro sum_mono) auto

lemma census_add: "census f N pcs + census g N pcs = census (\<lambda>p. f p + g p) N pcs"
  by (simp add: census_def sum.distrib)

lemma census_le: "(\<And>p. f p \<le> 1) \<Longrightarrow> census f N pcs \<le> int N"
  using sum_mono [of "{..<N}" "\<lambda>t. f (pcs t)" "\<lambda>t. 1"] by (simp add: census_def)

lemma census_zero: "(\<And>p. 0 \<le> f p) \<Longrightarrow> (\<And>p. f p = 0 \<Longrightarrow> g p = 0) \<Longrightarrow> census f N pcs = 0 \<Longrightarrow> census g N pcs = 0"
  unfolding census_def by (subst (asm) sum_nonneg_eq_0_iff) auto

text \<open>
  The goroutines by what the counters say of them: readers, readers waiting to be let in, readers
  that leave while a writer waits, the one that wakes the writer; a writer that has announced
  itself and counts its readers, waits for them, or writes; wake-ups a writer still owes.
\<close>

definition reading :: "rwpc \<Rightarrow> int" where "reading p = of_bool (p = Reading)"
definition pending :: "rwpc \<Rightarrow> int" where "pending p = of_bool (p = RLockSem)"
definition leaving :: "rwpc \<Rightarrow> int" where "leaving p = of_bool (p = RUnlockWait)"
definition releasing :: "rwpc \<Rightarrow> int" where "releasing p = of_bool (p = RUnlockRel)"
definition counting :: "rwpc \<Rightarrow> int" where "counting p = of_bool (\<exists>r. p = LockWait r)"
definition waiting :: "rwpc \<Rightarrow> int" where "waiting p = of_bool (p = LockSem)"
definition writing :: "rwpc \<Rightarrow> int" where "writing p = of_bool (p = Writing)"
definition before :: "rwpc \<Rightarrow> int" where "before p = of_bool (p = LockAdd \<or> p = TryLockCAS)"
definition after :: "rwpc \<Rightarrow> int" where "after p = of_bool (\<exists>k. p = UnlockRelease k)"
definition inside_w :: "rwpc \<Rightarrow> int" where "inside_w p = of_bool (w_pc p = Holding)"

fun owed :: "rwpc \<Rightarrow> int" where
  "owed (UnlockRelease k) = int k" | "owed _ = 0"

lemmas weight_defs = reading_def pending_def leaving_def releasing_def counting_def waiting_def writing_def
  before_def after_def

text \<open>
  The counters, for \<open>R\<close> readers, \<open>P\<close> pending, \<open>D\<close> leaving and \<open>E\<close> releasing ones, \<open>C\<close>, \<open>L\<close>, \<open>W\<close>
  writers that count, wait and write, and \<open>K\<close> owed wake-ups.
\<close>

definition rw_num :: "int \<Rightarrow> int \<Rightarrow> int \<Rightarrow> int \<Rightarrow> int \<Rightarrow> int \<Rightarrow> int \<Rightarrow> int \<Rightarrow> RWMutex \<Rightarrow> bool" where
  "rw_num R P D E C L W K rw \<longleftrightarrow>
     (let A = R + int (readerSem rw) + D; G = C + L + W in
      sint (readerCount rw) = R + P - 0x40000000 * G \<and>
      (G = 0 \<longrightarrow> P = int (readerSem rw) + K \<and> D = 0 \<and> sint (readerWait rw) = 0) \<and>
      (G = 1 \<longrightarrow> int (readerSem rw) \<le> P \<and> K = 0) \<and>
      (W = 1 \<longrightarrow> A = 0 \<and> sint (readerWait rw) = 0) \<and>
      (L = 1 \<longrightarrow> sint (readerWait rw) = A) \<and>
      E + int (writerSem rw) = of_bool (L = 1 \<and> A = 0))"

text \<open>The program points of \<open>w.Lock\<close>.\<close>

fun in_lock :: "pc \<Rightarrow> bool" where
  "in_lock LockCAS = True" | "in_lock (SlowLoad l) = True" | "in_lock (SlowLoop l old) = True"
| "in_lock (Semacquire l) = True" | "in_lock (Acquired l) = True" | "in_lock (StarvingAdd d) = True"
| "in_lock (Thrown s) = True" | "in_lock _ = False"

lemma in_lock_step: "in_lock p \<Longrightarrow> goroutine_step e m p = Some (m', p') \<Longrightarrow> p' = Holding \<or> in_lock p'"
  by (cases p) (auto simp: Mutex_Lock_def lockSlow_loop_def lockSlow_acquired_def CompareAndSwap_def Let_def
      split: if_splits option.splits)

fun rwpc_ok :: "int \<Rightarrow> int \<Rightarrow> rwpc \<Rightarrow> bool" where
  "rwpc_ok A rwait (LockWait r) = (rwait \<le> 0 \<and> rwait + sint r = A)"
| "rwpc_ok A rwait (TryRLockCAS c) = (0 \<le> sint c)"
| "rwpc_ok A rwait (RWThrown s) = False"
| "rwpc_ok A rwait (WLocking p) = in_lock p"
| "rwpc_ok A rwait (WTrying p) = (p \<noteq> Outside)"
| "rwpc_ok A rwait (WFailing p) = (p \<noteq> Outside)"
| "rwpc_ok A rwait (WUnlocking p) = (p \<noteq> Outside)"
| "rwpc_ok A rwait _ = True"

definition rw_inv :: "nat \<Rightarrow> RWMutex \<Rightarrow> (nat \<Rightarrow> rwpc) \<Rightarrow> bool" where
  "rw_inv N rw pcs \<longleftrightarrow>
     rw_num (census reading N pcs) (census pending N pcs) (census leaving N pcs) (census releasing N pcs)
       (census counting N pcs) (census waiting N pcs) (census writing N pcs) (census owed N pcs) rw \<and>
     (\<forall>t<N. rwpc_ok (census reading N pcs + int (readerSem rw) + census leaving N pcs) (sint (readerWait rw)) (pcs t))"

text \<open>The number of goroutines inside \<open>w\<close> bounds the writers.\<close>

lemma census_section:
  "census counting N pcs + census waiting N pcs + census writing N pcs + census before N pcs + census after N pcs \<le> census inside_w N pcs"
  unfolding census_add by (rule census_mono) (auto simp: weight_defs inside_w_def)

lemma census_readers:
  "census reading N pcs + census pending N pcs + census leaving N pcs + census releasing N pcs \<le> int N"
  unfolding census_add by (rule census_le) (auto simp: weight_defs)

section \<open>Steps\<close>

lemma sint_add32:
  fixes x y :: uint32
  assumes "- (0x80000000) \<le> sint x + sint y" "sint x + sint y < 0x80000000"
  shows "sint (x + y) = sint x + sint y"
proof -
  have "sint (x + y) = signed_take_bit 31 (sint x + sint y)" by (simp add: sint_word_ariths)
  also have "\<dots> = sint x + sint y" by (rule signed_take_bit_int_eq_self) (use assms in simp_all)
  finally show ?thesis .
qed

lemma sint_max: "sint rwmutexMaxReaders = 0x40000000" "sint (- rwmutexMaxReaders) = - (0x40000000)"
  "sint (1 :: uint32) = 1"
  by (simp_all add: sint_unat)

lemma rw_inv_upd:
  assumes t: "t < N" and inv: "rw_inv N rw pcs" and p: "pcs t = p"
    and num: "rw_num (census reading N pcs - reading p + reading q) (census pending N pcs - pending p + pending q)
      (census leaving N pcs - leaving p + leaving q) (census releasing N pcs - releasing p + releasing q)
      (census counting N pcs - counting p + counting q) (census waiting N pcs - waiting p + waiting q)
      (census writing N pcs - writing p + writing q) (census owed N pcs - owed p + owed q) rw'"
    and ok: "rwpc_ok (census reading N pcs - reading p + reading q + int (readerSem rw') + (census leaving N pcs - leaving p + leaving q))
      (sint (readerWait rw')) q"
    and others: "census counting N pcs - counting p = 0 \<or>
      - reading p + reading q + int (readerSem rw') - leaving p + leaving q - sint (readerWait rw') = int (readerSem rw) - sint (readerWait rw) \<and>
      (sint (readerWait rw) \<le> 0 \<longrightarrow> sint (readerWait rw') \<le> 0)"
  shows "rw_inv N rw' (pcs(t := q))"
proof -
  have "rwpc_ok (census reading N (pcs(t := q)) + int (readerSem rw') + census leaving N (pcs(t := q))) (sint (readerWait rw')) ((pcs(t := q)) u)"
    if u: "u < N" for u
  proof (cases "u = t")
    case True
    then show ?thesis using ok by (simp add: census_upd [OF t] p)
  next
    case False
    have old: "rwpc_ok (census reading N pcs + int (readerSem rw) + census leaving N pcs) (sint (readerWait rw)) (pcs u)"
      using inv u by (simp add: rw_inv_def)
    have "counting (pcs u) \<le> census counting N pcs - counting p"
      using census_ge [OF u, of counting "pcs(t := RWOutside)"] False by (simp add: census_upd [OF t] p weight_defs)
    then show ?thesis using old others False
      by (cases "pcs u") (auto simp: census_upd [OF t] p counting_def)
  qed
  then show ?thesis using num by (simp add: rw_inv_def census_upd [OF t] p)
qed

text \<open>
  Bounds of the counts; \<open>B\<close> goroutines hold \<open>w\<close> before a writer announces itself, \<open>F\<close> after.
\<close>

definition rw_bounds :: "int \<Rightarrow> int \<Rightarrow> int \<Rightarrow> int \<Rightarrow> int \<Rightarrow> int \<Rightarrow> int \<Rightarrow> int \<Rightarrow> int \<Rightarrow> int \<Rightarrow> bool" where
  "rw_bounds R P D E C L W K B F \<longleftrightarrow>
     0 \<le> R \<and> 0 \<le> P \<and> 0 \<le> D \<and> 0 \<le> E \<and> 0 \<le> C \<and> 0 \<le> L \<and> 0 \<le> W \<and> 0 \<le> K \<and> 0 \<le> B \<and> 0 \<le> F \<and>
     C + L + W + B + F \<le> 1 \<and> R + P + D + E < 0x10000000 \<and> (F = 0 \<longrightarrow> K = 0)"

lemma rw_counts:
  assumes t: "t < N" and N: "N < 0x10000000" and w: "census inside_w N pcs \<le> 1"
  shows "rw_bounds (census reading N pcs) (census pending N pcs) (census leaving N pcs) (census releasing N pcs)
      (census counting N pcs) (census waiting N pcs) (census writing N pcs) (census owed N pcs)
      (census before N pcs) (census after N pcs)"
    and "reading (pcs t) \<le> census reading N pcs" "pending (pcs t) \<le> census pending N pcs"
      "leaving (pcs t) \<le> census leaving N pcs" "releasing (pcs t) \<le> census releasing N pcs"
      "counting (pcs t) \<le> census counting N pcs" "waiting (pcs t) \<le> census waiting N pcs"
      "writing (pcs t) \<le> census writing N pcs" "owed (pcs t) \<le> census owed N pcs"
      "before (pcs t) \<le> census before N pcs" "after (pcs t) \<le> census after N pcs"
proof -
  have nonneg: "0 \<le> reading p" "0 \<le> pending p" "0 \<le> leaving p" "0 \<le> releasing p" "0 \<le> counting p" "0 \<le> waiting p"
    "0 \<le> writing p" "0 \<le> owed p" "0 \<le> before p" "0 \<le> after p" for p
    by (cases p; simp add: weight_defs)+
  show "reading (pcs t) \<le> census reading N pcs" "pending (pcs t) \<le> census pending N pcs"
      "leaving (pcs t) \<le> census leaving N pcs" "releasing (pcs t) \<le> census releasing N pcs"
      "counting (pcs t) \<le> census counting N pcs" "waiting (pcs t) \<le> census waiting N pcs"
      "writing (pcs t) \<le> census writing N pcs" "owed (pcs t) \<le> census owed N pcs"
      "before (pcs t) \<le> census before N pcs" "after (pcs t) \<le> census after N pcs"
    by (rule census_ge [OF t], rule nonneg)+
  have "after p = 0 \<Longrightarrow> owed p = 0" for p by (cases p) (auto simp: after_def)
  then have "census after N pcs = 0 \<Longrightarrow> census owed N pcs = 0" by (rule census_zero [of after owed N pcs, OF nonneg(10)])
  moreover have "census counting N pcs + census waiting N pcs + census writing N pcs + census before N pcs + census after N pcs \<le> 1"
    using census_section [of N pcs] w by linarith
  moreover have "census reading N pcs + census pending N pcs + census leaving N pcs + census releasing N pcs < 0x10000000"
    using census_readers [of N pcs] N by simp
  ultimately show "rw_bounds (census reading N pcs) (census pending N pcs) (census leaving N pcs) (census releasing N pcs)
      (census counting N pcs) (census waiting N pcs) (census writing N pcs) (census owed N pcs)
      (census before N pcs) (census after N pcs)"
    unfolding rw_bounds_def using nonneg by (simp add: census_nonneg)
qed

lemma rw_bounds_phase:
  assumes "rw_bounds R P D E C L W K B F"
  obtains "C = 0" "L = 0" "W = 0" | "C = 1" "L = 0" "W = 0" "B = 0" "F = 0" | "C = 0" "L = 1" "W = 0" "B = 0" "F = 0"
    | "C = 0" "L = 0" "W = 1" "B = 0" "F = 0"
proof -
  have b: "0 \<le> C" "0 \<le> L" "0 \<le> W" "0 \<le> B" "0 \<le> F" "C + L + W + B + F \<le> 1"
    using assms by (simp_all add: rw_bounds_def)
  consider "C = 1" | "L = 1" | "W = 1" | "C = 0 \<and> L = 0 \<and> W = 0" using b by linarith
  then show thesis using that b by cases (auto simp: le_less)
qed

lemma rw_bounds_facts:
  assumes "rw_bounds R P D E C L W K B F"
  shows "0 \<le> R" "0 \<le> P" "0 \<le> D" "0 \<le> E" "0 \<le> C" "0 \<le> L" "0 \<le> W" "0 \<le> K" "0 \<le> B" "0 \<le> F"
    "C + L + W + B + F \<le> 1" "R + P + D + E < 0x10000000" "F = 0 \<Longrightarrow> K = 0"
  using assms by (simp_all add: rw_bounds_def)

lemma sint_inc: "sint (x :: uint32) < 0x80000000 - 1 \<Longrightarrow> sint (x + 1) = sint x + 1"
  using sint_add32 [of x 1] sint_greater_eq [of x] by (simp add: sint_max)

lemma sint_dec: "- (0x80000000) < sint (x :: uint32) \<Longrightarrow> sint (x - 1) = sint x - 1"
  using sint_add32 [of x "- 1"] sint_less [of x] by simp

text \<open>The access to the counters in each of the steps.\<close>

lemma RLock_num:
  assumes b: "rw_bounds R P D E C L W K B F" and num: "rw_num R P D E C L W K rw" and step: "RLock rw = (rw', q)"
  shows "q = RLockSem \<and> rw_num R (P + 1) D E C L W K rw' \<or> q = Reading \<and> C = 0 \<and> rw_num (R + 1) P D E C L W K rw'"
    and "readerSem rw' = readerSem rw" "readerWait rw' = readerWait rw"
proof -
  have rc: "sint (readerCount rw) = R + P - 0x40000000 * (C + L + W)" using num by (simp add: rw_num_def Let_def)
  have "sint (readerCount rw) < 0x80000000 - 1"
    unfolding rc using rw_bounds_facts(1-12) [OF b] by (simp add: algebra_simps)
  note inc = sint_inc [OF this]
  show "q = RLockSem \<and> rw_num R (P + 1) D E C L W K rw' \<or> q = Reading \<and> C = 0 \<and> rw_num (R + 1) P D E C L W K rw'"
    using b
  proof (cases rule: rw_bounds_phase)
  qed (use b step num in \<open>auto simp: RLock_def rw_num_def Let_def word_sless_alt inc rw_bounds_def\<close>)
  show "readerSem rw' = readerSem rw" "readerWait rw' = readerWait rw" using step by (auto simp: RLock_def Let_def)
qed

lemma RUnlock_num:
  assumes b: "rw_bounds R P D E C L W K B F" and num: "rw_num R P D E C L W K rw" and R: "1 \<le> R" and step: "RUnlock rw = (rw', q)"
  shows "q = RWOutside \<and> C = 0 \<and> rw_num (R - 1) P D E C L W K rw' \<or> q = RUnlockWait \<and> rw_num (R - 1) P (D + 1) E C L W K rw'"
    and "readerSem rw' = readerSem rw" "readerWait rw' = readerWait rw"
proof -
  have rc: "sint (readerCount rw) = R + P - 0x40000000 * (C + L + W)" using num by (simp add: rw_num_def Let_def)
  have "- (0x80000000) < sint (readerCount rw)"
    unfolding rc using rw_bounds_facts(1-12) [OF b] by (simp add: algebra_simps)
  note dec = sint_dec [OF this]
  have sz: "(x :: uint32) = y \<longleftrightarrow> sint x = sint y" for x y by (metis signed_word_eqI)
  show "q = RWOutside \<and> C = 0 \<and> rw_num (R - 1) P D E C L W K rw' \<or> q = RUnlockWait \<and> rw_num (R - 1) P (D + 1) E C L W K rw'"
    using b
  proof (cases rule: rw_bounds_phase)
  qed (use b step num R in \<open>auto simp: RUnlock_def rUnlockSlow_def rw_num_def Let_def word_sless_alt dec sz sint_max rw_bounds_def\<close>)
  show "readerSem rw' = readerSem rw" "readerWait rw' = readerWait rw" using step by (auto simp: RUnlock_def Let_def)
qed

lemma word_sint_iff: "(x :: 'a::len word) = y \<longleftrightarrow> sint x = sint y"
  by (metis signed_word_eqI)

lemma TryRLock_num:
  assumes b: "rw_bounds R P D E C L W K B F" and num: "rw_num R P D E C L W K rw" and c: "readerCount rw = c" "0 \<le> sint c"
  shows "C = 0 \<and> rw_num (R + 1) P D E C L W K (rw\<lparr>readerCount := c + 1\<rparr>)"
proof -
  have rc: "sint (readerCount rw) = R + P - 0x40000000 * (C + L + W)" using num by (simp add: rw_num_def Let_def)
  have "sint (readerCount rw) < 0x80000000 - 1"
    unfolding rc using rw_bounds_facts(1-12) [OF b] by (simp add: algebra_simps)
  note inc = sint_inc [OF this]
  show ?thesis using b
  proof (cases rule: rw_bounds_phase)
  qed (use b num c rc in \<open>auto simp: rw_num_def Let_def inc [unfolded c] rw_bounds_def\<close>)
qed

lemma RLockSem_num:
  assumes b: "rw_bounds R P D E C L W K B F" and num: "rw_num R P D E C L W K rw" and r: "readerSem rw \<noteq> 0"
  shows "rw_num (R + 1) (P - 1) D E C L W K (rw\<lparr>readerSem := readerSem rw - 1\<rparr>)"
  using b
proof (cases rule: rw_bounds_phase)
qed (use b num r in \<open>auto simp: rw_num_def Let_def rw_bounds_def of_nat_diff\<close>)

lemma rUnlockSlow_num:
  assumes b: "rw_bounds R P D E C L W K B F" and num: "rw_num R P D E C L W K rw" and D: "1 \<le> D"
    and C: "C = 1 \<Longrightarrow> sint (readerWait rw) \<le> 0 \<and> sint (readerWait rw) + sint (r :: uint32) = R + int (readerSem rw) + D"
    and step: "rUnlockSlow_wait rw = (rw', q)"
  shows "q = RWOutside \<and> rw_num R P (D - 1) E C L W K rw' \<or> q = RUnlockRel \<and> rw_num R P (D - 1) (E + 1) C L W K rw'"
    and "readerSem rw' = readerSem rw" "sint (readerWait rw') = sint (readerWait rw) - 1"
proof -
  have "- 0x80000000 < sint (readerWait rw)"
    using b
  proof (cases rule: rw_bounds_phase)
    case 2
    then show ?thesis using C sint_less [of r] D rw_bounds_facts(1) [OF b] by simp
  qed (use b num D in \<open>auto simp: rw_num_def Let_def rw_bounds_def\<close>)
  note dec = sint_dec [OF this]
  show "q = RWOutside \<and> rw_num R P (D - 1) E C L W K rw' \<or> q = RUnlockRel \<and> rw_num R P (D - 1) (E + 1) C L W K rw'"
    using b
  proof (cases rule: rw_bounds_phase)
  qed (use b step num D C in \<open>auto simp: rUnlockSlow_wait_def rw_num_def Let_def dec word_sint_iff rw_bounds_def\<close>)
  show "readerSem rw' = readerSem rw" "sint (readerWait rw') = sint (readerWait rw) - 1"
    using step dec by (auto simp: rUnlockSlow_wait_def Let_def)
qed

lemma Lock_announce_num:
  assumes b: "rw_bounds R P D E C L W K B F" and num: "rw_num R P D E C L W K rw" and B: "1 \<le> B"
    and step: "Lock_announce rw = (rw', q)"
  shows "q = Writing \<and> rw_num R P D E C L (W + 1) K rw' \<or>
    (\<exists>r. q = LockWait r \<and> sint (readerWait rw') + sint r = R + int (readerSem rw') + D) \<and> rw_num R P D E (C + 1) L W K rw'"
    and "readerSem rw' = readerSem rw" "readerWait rw' = readerWait rw" "C = 0" "sint (readerWait rw) = 0"
proof -
  have ph: "C = 0" "L = 0" "W = 0" "F = 0" using B rw_bounds_facts [OF b] by linarith+
  then have K: "K = 0" using rw_bounds_facts(13) [OF b] by simp
  have rc: "sint (readerCount rw) = R + P" "sint (readerWait rw) = 0" "D = 0" "P = int (readerSem rw)"
    using num by (simp_all add: rw_num_def Let_def ph K)
  have "sint (readerCount rw + - rwmutexMaxReaders) = sint (readerCount rw) + sint (- rwmutexMaxReaders)"
    by (rule sint_add32) (use rw_bounds_facts(1-12) [OF b] in \<open>simp_all add: rc sint_max\<close>)
  then have sub: "sint (readerCount rw - rwmutexMaxReaders) = R + P - 0x40000000" using rc(1) by (simp add: sint_max)
  show "C = 0" "sint (readerWait rw) = 0" by (fact ph rc)+
  show "readerSem rw' = readerSem rw" "readerWait rw' = readerWait rw" using step by (auto simp: Lock_announce_def Let_def)
  show "q = Writing \<and> rw_num R P D E C L (W + 1) K rw' \<or>
    (\<exists>r. q = LockWait r \<and> sint (readerWait rw') + sint r = R + int (readerSem rw') + D) \<and> rw_num R P D E (C + 1) L W K rw'"
    using step num rc sub ph K rw_bounds_facts(1-12) [OF b]
    by (cases "sint (readerCount rw) = 0") (auto simp: Lock_announce_def rw_num_def Let_def word_sint_iff)
qed

lemma Lock_wait_num:
  assumes b: "rw_bounds R P D E C L W K B F" and num: "rw_num R P D E C L W K rw" and C: "1 \<le> C"
    and r: "sint (readerWait rw) + sint r = R + int (readerSem rw) + D" and step: "Lock_wait rw r = (rw', q)"
  shows "q = Writing \<and> rw_num R P D E (C - 1) L (W + 1) K rw' \<or> q = LockSem \<and> rw_num R P D E (C - 1) (L + 1) W K rw'"
    and "C = 1"
proof -
  have ph: "C = 1" "L = 0" "W = 0" "F = 0" using C rw_bounds_facts [OF b] by linarith+
  then have K: "K = 0" using rw_bounds_facts(13) [OF b] by simp
  have le: "int (readerSem rw) \<le> P" using num by (simp add: rw_num_def Let_def ph)
  have add: "sint (readerWait rw + r) = R + int (readerSem rw) + D"
    using sint_add32 [of "readerWait rw" r] r le rw_bounds_facts(1-12) [OF b] by simp
  show "C = 1" by (fact ph)
  show "q = Writing \<and> rw_num R P D E (C - 1) L (W + 1) K rw' \<or> q = LockSem \<and> rw_num R P D E (C - 1) (L + 1) W K rw'"
    using step num add ph K rw_bounds_facts(1-12) [OF b]
    by (cases "sint (readerWait rw + r) = 0") (auto simp: Lock_wait_def rw_num_def Let_def word_sint_iff)
qed

lemma LockSem_num:
  assumes b: "rw_bounds R P D E C L W K B F" and num: "rw_num R P D E C L W K rw" and L: "1 \<le> L" and s: "writerSem rw \<noteq> 0"
  shows "rw_num R P D E C (L - 1) (W + 1) K (rw\<lparr>writerSem := writerSem rw - 1\<rparr>)" "C = 0"
proof -
  have ph: "C = 0" "L = 1" "W = 0" "F = 0" using L rw_bounds_facts [OF b] by linarith+
  then have K: "K = 0" using rw_bounds_facts(13) [OF b] by simp
  show "C = 0" by (fact ph)
  show "rw_num R P D E C (L - 1) (W + 1) K (rw\<lparr>writerSem := writerSem rw - 1\<rparr>)"
    using num s ph K rw_bounds_facts(1-12) [OF b]
    by (cases "R + int (readerSem rw) + D = 0") (auto simp: rw_num_def Let_def of_nat_diff)
qed

lemma RUnlockRel_num:
  assumes "rw_num R P D E C L W K rw"
  shows "rw_num R P D (E - 1) C L W K (rw\<lparr>writerSem := writerSem rw + 1\<rparr>)"
  using assms by (simp add: rw_num_def Let_def)

lemma TryLock_num:
  assumes b: "rw_bounds R P D E C L W K B F" and num: "rw_num R P D E C L W K rw" and B: "1 \<le> B"
    and z: "readerCount rw = 0"
  shows "rw_num R P D E C L (W + 1) K (rw\<lparr>readerCount := - rwmutexMaxReaders\<rparr>)" "C = 0"
proof -
  have ph: "C = 0" "L = 0" "W = 0" "F = 0" using B rw_bounds_facts [OF b] by linarith+
  then have K: "K = 0" using rw_bounds_facts(13) [OF b] by simp
  show "C = 0" by (fact ph)
  show "rw_num R P D E C L (W + 1) K (rw\<lparr>readerCount := - rwmutexMaxReaders\<rparr>)"
    using num z ph K rw_bounds_facts(1-12) [OF b] sint_max by (auto simp: rw_num_def Let_def)
qed

lemma Unlock_announce_num:
  assumes b: "rw_bounds R P D E C L W K B F" and num: "rw_num R P D E C L W K rw" and W: "1 \<le> W"
    and step: "Unlock_announce rw = (rw', q)"
  shows "\<exists>k. q = UnlockRelease k \<and> rw_num R P D E C L (W - 1) (K + int k) rw'" "C = 0"
proof -
  have ph: "C = 0" "L = 0" "W = 1" "F = 0" using W rw_bounds_facts [OF b] by linarith+
  then have K: "K = 0" using rw_bounds_facts(13) [OF b] by simp
  have z: "R + int (readerSem rw) + D = 0" "sint (readerCount rw) = R + P - 0x40000000"
    using num by (simp_all add: rw_num_def Let_def ph)
  have "sint (readerCount rw + rwmutexMaxReaders) = sint (readerCount rw) + sint rwmutexMaxReaders"
    by (rule sint_add32) (use rw_bounds_facts(1-12) [OF b] in \<open>simp_all add: z sint_max\<close>)
  then have add: "sint (readerCount rw + rwmutexMaxReaders) = R + P" by (simp add: z sint_max)
  show "C = 0" by (fact ph)
  show "\<exists>k. q = UnlockRelease k \<and> rw_num R P D E C L (W - 1) (K + int k) rw'"
    using step num add ph K z rw_bounds_facts(1-12) [OF b]
    by (auto simp: Unlock_announce_def rw_num_def Let_def word_sle_eq sint_max)
qed

lemma Unlock_release_num:
  assumes b: "rw_bounds R P D E C L W K B F" and num: "rw_num R P D E C L W K rw" and F: "1 \<le> F"
  shows "rw_num R P D E C L W (K - 1) (rw\<lparr>readerSem := readerSem rw + 1\<rparr>)" "C = 0"
proof -
  have ph: "C = 0" "L = 0" "W = 0" using F rw_bounds_facts [OF b] by linarith+
  show "C = 0" by (fact ph)
  show "rw_num R P D E C L W (K - 1) (rw\<lparr>readerSem := readerSem rw + 1\<rparr>)"
    using num ph by (simp add: rw_num_def Let_def)
qed

lemma rw_num_w [simp]: "rw_num R P D E C L W K (rw\<lparr>rw_w := m\<rparr>) = rw_num R P D E C L W K rw"
  by (simp add: rw_num_def)

fun plain :: "rwpc \<Rightarrow> bool" where
  "plain Reading = False" | "plain RLockSem = False" | "plain RUnlockWait = False" | "plain RUnlockRel = False"
| "plain (LockWait r) = False" | "plain LockSem = False" | "plain Writing = False" | "plain (UnlockRelease k) = (k = 0)"
| "plain (TryRLockCAS c) = (0 \<le> sint c)" | "plain (RWThrown s) = False" | "plain (WLocking p) = in_lock p"
| "plain (WTrying p) = (p \<noteq> Outside)" | "plain (WFailing p) = (p \<noteq> Outside)" | "plain (WUnlocking p) = (p \<noteq> Outside)"
| "plain _ = True"

lemma plain_weights:
  assumes "plain p"
  shows "reading p = 0" "pending p = 0" "leaving p = 0" "releasing p = 0" "counting p = 0" "waiting p = 0" "writing p = 0" "owed p = 0"
  using assms by (cases p; simp add: weight_defs)+

lemma rw_inv_plain:
  assumes t: "t < N" and inv: "rw_inv N rw pcs" and "plain (pcs t)" "plain q"
    and rw: "rw' = rw \<or> (\<exists>m. rw' = rw\<lparr>rw_w := m\<rparr>)"
  shows "rw_inv N rw' (pcs(t := q))"
proof -
  have num: "rw_num (census reading N pcs) (census pending N pcs) (census leaving N pcs) (census releasing N pcs)
      (census counting N pcs) (census waiting N pcs) (census writing N pcs) (census owed N pcs) rw'"
    using inv rw by (auto simp: rw_inv_def)
  have same: "readerSem rw' = readerSem rw" "readerWait rw' = readerWait rw" using rw by auto
  show ?thesis
    by (rule rw_inv_upd [OF t inv refl])
      (use assms(3,4) num in \<open>auto simp: plain_weights same split: rwpc.splits elim: plain.elims\<close>)
qed

lemma w_step_inv:
  assumes t: "t < N" and inv: "rw_inv N rw pcs" and "plain (pcs t)" and step: "w_step e rw p k = Some (rw', q)"
    and "\<And>m p'. goroutine_step e (rw_w rw) p = Some (m, p') \<Longrightarrow> plain (k p')"
  shows "rw_inv N rw' (pcs(t := q))"
  by (rule rw_inv_plain [OF t inv assms(3)]) (use step assms(5) in \<open>auto simp: w_step_Some\<close>)

lemma counting_exists:
  assumes "census counting N pcs = 1"
  obtains u r where "u < N" "pcs u = LockWait r"
proof -
  have "\<exists>u<N. counting (pcs u) \<noteq> 0"
  proof (rule ccontr)
    assume "\<not> ?thesis"
    then have "census counting N pcs = 0" unfolding census_def by (intro sum.neutral) auto
    then show False using assms by simp
  qed
  then show thesis using that by (auto simp: counting_def split: if_splits)
qed

text \<open>The readers' and the writers' steps keep the invariant.\<close>

lemma reader_step_inv:
  assumes t: "t < N" and N: "N < 0x10000000" and w: "census inside_w N pcs \<le> 1" and inv: "rw_inv N rw pcs"
    and p: "pcs t \<in> {RLockAdd, RLockSem, Reading, RUnlockWait, RUnlockRel} \<or> (\<exists>c. pcs t = TryRLockCAS c)"
    and step: "rw_goroutine_step e rw (pcs t) = Some (rw', q)"
  shows "rw_inv N rw' (pcs(t := q))"
proof -
  note counts = rw_counts [OF t N w]
  note b = counts(1)
  have num: "rw_num (census reading N pcs) (census pending N pcs) (census leaving N pcs) (census releasing N pcs)
      (census counting N pcs) (census waiting N pcs) (census writing N pcs) (census owed N pcs) rw"
    and ok: "\<And>u. u < N \<Longrightarrow> rwpc_ok (census reading N pcs + int (readerSem rw) + census leaving N pcs) (sint (readerWait rw)) (pcs u)"
    using inv by (auto simp: rw_inv_def)
  note upd = rw_inv_upd [OF t inv]
  from p consider "pcs t = RLockAdd" | "pcs t = RLockSem" | "pcs t = Reading" | "pcs t = RUnlockWait" | "pcs t = RUnlockRel"
    | c where "pcs t = TryRLockCAS c" by blast
  then show ?thesis
  proof cases
    case 1
    then have "RLock rw = (rw', q)" using step by simp
    from RLock_num [OF b num this] show ?thesis by (intro upd [OF 1]) (auto simp: weight_defs)
  next
    case 2
    then have "readerSem rw \<noteq> 0" "rw' = rw\<lparr>readerSem := readerSem rw - 1\<rparr>" "q = Reading" using step by (auto split: if_splits)
    then show ?thesis using RLockSem_num [OF b num] by (intro upd [OF 2]) (auto simp: weight_defs of_nat_diff)
  next
    case 3
    then have "RUnlock rw = (rw', q)" "1 \<le> census reading N pcs" using step counts(2) by (simp_all add: weight_defs)
    from RUnlock_num [OF b num this(2,1)] show ?thesis by (intro upd [OF 3]) (auto simp: weight_defs)
  next
    case 4
    then have s: "rUnlockSlow_wait rw = (rw', q)" "1 \<le> census leaving N pcs" using step counts(4) by (simp_all add: weight_defs)
    have "\<exists>r. census counting N pcs = 1 \<longrightarrow> sint (readerWait rw) \<le> 0 \<and>
        sint (readerWait rw) + sint (r :: uint32) = census reading N pcs + int (readerSem rw) + census leaving N pcs"
      using ok by (metis counting_exists rwpc_ok.simps(1))
    then obtain r where "census counting N pcs = 1 \<Longrightarrow> sint (readerWait rw) \<le> 0 \<and>
        sint (readerWait rw) + sint (r :: uint32) = census reading N pcs + int (readerSem rw) + census leaving N pcs" by blast
    from rUnlockSlow_num [OF b num s(2) this s(1)] show ?thesis by (intro upd [OF 4]) (auto simp: weight_defs)
  next
    case 5
    then have "rw' = rw\<lparr>writerSem := writerSem rw + 1\<rparr>" "q = RWOutside" using step by auto
    then show ?thesis using RUnlockRel_num [OF num] by (intro upd [OF 5]) (auto simp: weight_defs)
  next
    case 6
    show ?thesis
    proof (cases "readerCount rw = c")
      case True
      then have "rw' = rw\<lparr>readerCount := c + 1\<rparr>" "q = Reading" using step 6 by (auto simp: TryRLock_cas_def)
      moreover have "0 \<le> sint c" using ok [OF t] 6 by simp
      ultimately show ?thesis using TryRLock_num [OF b num True] by (intro upd [OF 6]) (auto simp: weight_defs)
    next
      case False
      then have "rw' = rw" "q = TryRLockLoad" using step 6 by (auto simp: TryRLock_cas_def)
      then show ?thesis using ok [OF t] 6 by (intro rw_inv_plain [OF t inv]) auto
    qed
  qed
qed

lemma writer_step_inv:
  assumes t: "t < N" and N: "N < 0x10000000" and w: "census inside_w N pcs \<le> 1" and inv: "rw_inv N rw pcs"
    and p: "pcs t \<in> {LockAdd, LockSem, TryLockCAS, Writing} \<or> (\<exists>r. pcs t = LockWait r) \<or> (\<exists>k. pcs t = UnlockRelease k)"
    and step: "rw_goroutine_step e rw (pcs t) = Some (rw', q)"
  shows "rw_inv N rw' (pcs(t := q))"
proof -
  note counts = rw_counts [OF t N w]
  note b = counts(1)
  have num: "rw_num (census reading N pcs) (census pending N pcs) (census leaving N pcs) (census releasing N pcs)
      (census counting N pcs) (census waiting N pcs) (census writing N pcs) (census owed N pcs) rw"
    and ok: "\<And>u. u < N \<Longrightarrow> rwpc_ok (census reading N pcs + int (readerSem rw) + census leaving N pcs) (sint (readerWait rw)) (pcs u)"
    using inv by (auto simp: rw_inv_def)
  note upd = rw_inv_upd [OF t inv]
  from p consider "pcs t = LockAdd" | "pcs t = LockSem" | "pcs t = TryLockCAS" | "pcs t = Writing"
    | r where "pcs t = LockWait r" | k where "pcs t = UnlockRelease k" by blast
  then show ?thesis
  proof cases
    case 1
    then have s: "Lock_announce rw = (rw', q)" "1 \<le> census before N pcs" using step counts(10) by (simp_all add: weight_defs)
    from Lock_announce_num [OF b num s(2,1)] show ?thesis by (intro upd [OF 1]) (auto simp: weight_defs)
  next
    case 2
    then have s: "writerSem rw \<noteq> 0" "rw' = rw\<lparr>writerSem := writerSem rw - 1\<rparr>" "q = Writing" "1 \<le> census waiting N pcs"
      using step counts(7) by (auto simp: weight_defs split: if_splits)
    from LockSem_num [OF b num s(4,1)] show ?thesis by (intro upd [OF 2]) (auto simp: weight_defs s(2,3))
  next
    case 3
    have B: "1 \<le> census before N pcs" using 3 counts(10) by (simp add: weight_defs)
    show ?thesis
    proof (cases "readerCount rw = 0")
      case True
      then have "rw' = rw\<lparr>readerCount := - rwmutexMaxReaders\<rparr>" "q = Writing" using step 3 by (auto simp: TryLock_cas_def)
      then show ?thesis using TryLock_num [OF b num B True] by (intro upd [OF 3]) (auto simp: weight_defs)
    next
      case False
      then have "rw' = rw" "q = WFailing Holding" using step 3 by (auto simp: TryLock_cas_def)
      then show ?thesis using 3 by (intro rw_inv_plain [OF t inv]) auto
    qed
  next
    case 4
    then have s: "Unlock_announce rw = (rw', q)" "1 \<le> census writing N pcs" using step counts(8) by (simp_all add: weight_defs)
    from Unlock_announce_num [OF b num s(2,1)] obtain k where
      "q = UnlockRelease k" "census counting N pcs = 0"
      "rw_num (census reading N pcs) (census pending N pcs) (census leaving N pcs) (census releasing N pcs)
         (census counting N pcs) (census waiting N pcs) (census writing N pcs - 1) (census owed N pcs + int k) rw'" by blast
    then show ?thesis by (intro upd [OF 4]) (auto simp: weight_defs)
  next
    case 5
    then have s: "Lock_wait rw r = (rw', q)" "1 \<le> census counting N pcs" using step counts(6) by (simp_all add: weight_defs)
    have "sint (readerWait rw) + sint r = census reading N pcs + int (readerSem rw) + census leaving N pcs"
      using ok [OF t] 5 by simp
    from Lock_wait_num [OF b num s(2) this s(1)] show ?thesis by (intro upd [OF 5]) (auto simp: weight_defs)
  next
    case 6
    show ?thesis
    proof (cases k)
      case 0
      then have "rw' = rw" "q = WUnlocking Holding" using step 6 by auto
      then show ?thesis using 6 0 by (intro rw_inv_plain [OF t inv]) auto
    next
      case (Suc k')
      then have s: "rw' = rw\<lparr>readerSem := readerSem rw + 1\<rparr>" "q = UnlockRelease k'" "1 \<le> census after N pcs"
        using step 6 counts(11) by (auto simp: weight_defs)
      from Unlock_release_num [OF b num s(3)] show ?thesis by (intro upd [OF 6]) (auto simp: weight_defs s(1,2) Suc)
    qed
  qed
qed

lemma rw_goroutine_inv:
  assumes t: "t < N" and N: "N < 0x10000000" and w: "census inside_w N pcs \<le> 1" and inv: "rw_inv N rw pcs"
    and step: "rw_goroutine_step e rw (pcs t) = Some (rw', q)"
  shows "rw_inv N rw' (pcs(t := q))"
proof -
  have plain: "rwpc_ok A w (pcs t) \<Longrightarrow> \<exists>p. pcs t \<in> {WLocking p, WTrying p, WFailing p, WUnlocking p} \<Longrightarrow> plain (pcs t)" for A w
    by auto
  have "rwpc_ok (census reading N pcs + int (readerSem rw) + census leaving N pcs) (sint (readerWait rw)) (pcs t)"
    using inv t by (simp add: rw_inv_def)
  note plain = plain [OF this]
  show ?thesis
  proof (cases "pcs t")
  case TryRLockLoad
  then show ?thesis using step by (intro rw_inv_plain [OF t inv]) (auto simp: TryRLock_load_def Let_def word_sless_alt)
next
  case (WLocking p)
  show ?thesis by (rule w_step_inv [OF t inv]) (use step WLocking plain in \<open>auto dest: in_lock_step\<close>)
next
  case (WTrying p)
  show ?thesis by (rule w_step_inv [OF t inv]) (use step WTrying plain in_lock_step in auto)
next
  case (WFailing p)
  show ?thesis by (rule w_step_inv [OF t inv]) (use step WFailing plain in_lock_step in auto)
next
  case (WUnlocking p)
  show ?thesis by (rule w_step_inv [OF t inv]) (use step WUnlocking plain in_lock_step in auto)
next
  case RLockAdd show ?thesis by (rule reader_step_inv [OF t N w inv]) (use step RLockAdd in auto)
next
  case RLockSem show ?thesis by (rule reader_step_inv [OF t N w inv _ step]) (use RLockSem in auto)
next
  case Reading show ?thesis by (rule reader_step_inv [OF t N w inv _ step]) (use Reading in auto)
next
  case RUnlockWait show ?thesis by (rule reader_step_inv [OF t N w inv _ step]) (use RUnlockWait in auto)
next
  case RUnlockRel show ?thesis by (rule reader_step_inv [OF t N w inv _ step]) (use RUnlockRel in auto)
next
  case (TryRLockCAS c) show ?thesis by (rule reader_step_inv [OF t N w inv _ step]) (use TryRLockCAS in auto)
next
  case LockAdd show ?thesis by (rule writer_step_inv [OF t N w inv _ step]) (use LockAdd in auto)
next
  case (LockWait r) show ?thesis by (rule writer_step_inv [OF t N w inv _ step]) (use LockWait in auto)
next
  case LockSem show ?thesis by (rule writer_step_inv [OF t N w inv _ step]) (use LockSem in auto)
next
  case TryLockCAS show ?thesis by (rule writer_step_inv [OF t N w inv _ step]) (use TryLockCAS in auto)
next
  case Writing show ?thesis by (rule writer_step_inv [OF t N w inv _ step]) (use Writing in auto)
next
  case (UnlockRelease k) show ?thesis by (rule writer_step_inv [OF t N w inv _ step]) (use UnlockRelease in auto)
qed (use step in auto)
qed

section \<open>Reachable configurations\<close>

lemma inside_w_bound:
  assumes "mutex_reachable N (m, w_pc \<circ> pcs)" "N < 0x10000000"
  shows "census inside_w N pcs \<le> 1"
proof -
  obtain L W V n where "mutex_inv N L W V n m (w_pc \<circ> pcs)"
    using mutex_reachable_inv [OF assms(1)] assms(2) by (auto simp: mutex_ok_def)
  then have "pc_count holds N (w_pc \<circ> pcs) \<le> 1" by (simp add: mutex_inv_def)
  moreover have "inside_w p = int (holds (w_pc p))" for p by (cases "w_pc p") (auto simp: inside_w_def)
  ultimately show ?thesis by (simp add: census_def pc_count_def flip: of_nat_sum)
qed

lemma rw_reachable_inv:
  assumes "rw_reachable N s" and N: "N < 0x10000000"
  shows "rw_inv N (fst s) (snd s) \<and> mutex_reachable N (rw_w (fst s), w_pc \<circ> snd s)"
  using assms(1)
proof induction
  case rw_start
  have "w_pc \<circ> (\<lambda>_ :: nat. RWOutside) = (\<lambda>_. Outside)" by auto
  then show ?case using mutex_reachable.start [of N]
    by (simp add: rw_inv_def rw_num_def zero_RWMutex_def census_def weight_defs Let_def)
next
  case (rw_next s s')
  then have inv: "rw_inv N (fst s) (snd s)" and reach: "mutex_reachable N (rw_w (fst s), w_pc \<circ> snd s)" by blast+
  from rw_next.hyps(2) show ?case
  proof cases
    case (call_RLock t pcs rw)
    have "w_pc \<circ> pcs(t := RLockAdd) = w_pc \<circ> pcs" using call_RLock by auto
    moreover have "rw_inv N rw (pcs(t := RLockAdd))"
      by (rule rw_inv_plain [OF call_RLock(3)]) (use inv call_RLock in auto)
    ultimately show ?thesis using reach unfolding call_RLock(1,2) fst_conv snd_conv by (simp only: simp_thms)
  next
    case (call_TryRLock t pcs rw)
    have "w_pc \<circ> pcs(t := TryRLockLoad) = w_pc \<circ> pcs" using call_TryRLock by auto
    moreover have "rw_inv N rw (pcs(t := TryRLockLoad))"
      by (rule rw_inv_plain [OF call_TryRLock(3)]) (use inv call_TryRLock in auto)
    ultimately show ?thesis using reach unfolding call_TryRLock(1,2) fst_conv snd_conv by (simp only: simp_thms)
  next
    case (call_RWLock t pcs rw)
    have "w_pc \<circ> pcs(t := WLocking LockCAS) = (w_pc \<circ> pcs)(t := LockCAS)" by auto
    moreover have "mutex_step N (rw_w rw, w_pc \<circ> pcs) (rw_w rw, (w_pc \<circ> pcs)(t := LockCAS))"
      using call_RWLock by (intro call_Lock) auto
    moreover have "rw_inv N rw (pcs(t := WLocking LockCAS))"
      by (rule rw_inv_plain [OF call_RWLock(3)]) (use inv call_RWLock in auto)
    ultimately show ?thesis using mutex_reachable.step [OF reach [unfolded call_RWLock(1) fst_conv snd_conv]] unfolding call_RWLock(1,2) fst_conv snd_conv
      by (simp only: simp_thms)
  next
    case (call_RWTryLock t pcs rw)
    have "w_pc \<circ> pcs(t := WTrying TryLoad) = (w_pc \<circ> pcs)(t := TryLoad)" by auto
    moreover have "mutex_step N (rw_w rw, w_pc \<circ> pcs) (rw_w rw, (w_pc \<circ> pcs)(t := TryLoad))"
      using call_RWTryLock by (intro call_TryLock) auto
    moreover have "rw_inv N rw (pcs(t := WTrying TryLoad))"
      by (rule rw_inv_plain [OF call_RWTryLock(3)]) (use inv call_RWTryLock in auto)
    ultimately show ?thesis using mutex_reachable.step [OF reach [unfolded call_RWTryLock(1) fst_conv snd_conv]] unfolding call_RWTryLock(1,2) fst_conv snd_conv
      by (simp only: simp_thms)
  next
    case (rw_inside t e rw pcs rw' p)
    note reach' = reach [unfolded rw_inside(1) fst_conv snd_conv]
    have inv': "rw_inv N rw' (pcs(t := p))"
      using rw_goroutine_inv [OF rw_inside(3) N inside_w_bound [OF reach' N] _ rw_inside(4)] inv rw_inside(1) by simp
    then have "\<not> (\<exists>s. p = RWThrown s)" using rw_inside(3) by (auto simp: rw_inv_def)
    then consider "rw_w rw' = rw_w rw" "w_pc p = w_pc (pcs t)" | "goroutine_step e (rw_w rw) (w_pc (pcs t)) = Some (rw_w rw', w_pc p)"
      using rw_goroutine_step_w [OF rw_inside(4)] by blast
    then have "mutex_reachable N (rw_w rw', w_pc \<circ> pcs(t := p))"
    proof cases
      case 1
      then have "w_pc \<circ> pcs(t := p) = w_pc \<circ> pcs" by auto
      then show ?thesis using reach' 1 by (simp only:)
    next
      case 2
      have eq: "w_pc \<circ> pcs(t := p) = (w_pc \<circ> pcs)(t := w_pc p)" by auto
      have "mutex_step N (rw_w rw, w_pc \<circ> pcs) (rw_w rw', (w_pc \<circ> pcs)(t := w_pc p))"
        using 2 rw_inside(3) by (intro inside) auto
      then show ?thesis unfolding eq by (rule mutex_reachable.step [OF reach'])
    qed
    then show ?thesis using inv' unfolding rw_inside(2) fst_conv snd_conv by blast
  qed
qed

section \<open>Properties\<close>

text \<open>C3.
  A writer is alone: in every configuration that any interleaving of fewer than \<open>2 ^ 28\<close>
  goroutines can reach, while one of them is in the write section no other is in the write
  section or in the read section, and no call has thrown, neither of the lock itself nor of the
  mutex it embeds.\<close>

theorem rw_exclusion:
  assumes "N < 2 ^ 28" "rw_reachable N (rw, pcs)" "t < N" "u < N"
  shows "(pcs t = Writing \<and> (pcs u = Writing \<or> pcs u = Reading) \<longrightarrow> t = u) \<and> pcs t \<noteq> RWThrown s \<and>
    pcs t \<noteq> WLocking (Thrown s) \<and> pcs t \<noteq> WTrying (Thrown s) \<and> pcs t \<noteq> WFailing (Thrown s) \<and> pcs t \<noteq> WUnlocking (Thrown s)"
proof -
  have N: "N < 0x10000000" using assms(1) by simp
  note reach = rw_reachable_inv [OF assms(2) N, simplified fst_conv snd_conv]
  then have inv: "rw_inv N rw pcs" by blast
  note counts = rw_counts [OF _ N inside_w_bound [OF reach [THEN conjunct2] N]]
  have alone: "t = u" if W: "pcs t = Writing" "pcs u = Writing"
  proof (rule ccontr)
    assume "t \<noteq> u"
    then have "1 \<le> census writing N (pcs(t := RWOutside))"
      using census_ge [OF assms(4), of writing "pcs(t := RWOutside)"] W by (simp add: writing_def)
    then have "2 \<le> census writing N pcs" using W by (simp add: census_upd [OF assms(3)] writing_def)
    then show False using rw_bounds_facts(1-12) [OF counts(1) [OF assms(3)]] by linarith
  qed
  have no_reader: False if "pcs t = Writing" "pcs u = Reading"
  proof -
    have "1 \<le> census writing N pcs" "1 \<le> census reading N pcs"
      using counts(8) [OF assms(3)] counts(2) [OF assms(4)] that by (simp_all add: weight_defs)
    moreover from this have "census writing N pcs = 1"
      using rw_bounds_facts(1-12) [OF counts(1) [OF assms(3)]] by linarith
    ultimately show False using inv rw_bounds_facts(1-12) [OF counts(1) [OF assms(3)]]
      by (simp add: rw_inv_def rw_num_def Let_def)
  qed
  have "pcs t \<noteq> RWThrown s" using inv assms(3) by (auto simp: rw_inv_def)
  moreover have "w_pc (pcs t) \<noteq> Thrown s"
    using mutex_not_thrown [OF assms(1) reach [THEN conjunct2] assms(3)] by simp
  ultimately show ?thesis using alone no_reader by auto
qed

lemma rw_reach_writing:
  "rw_reachable 2 (\<lparr>rw_w = \<lparr>mstate = 1, sema = 0\<rparr>, writerSem = 0, readerSem = 0, readerCount = - rwmutexMaxReaders, readerWait = 0\<rparr>,
     (\<lambda>_. RWOutside)(0 := Writing))"
proof -
  let ?o = "\<lambda>_ :: nat. RWOutside" and ?z = zero_RWMutex
  let ?w = "?z\<lparr>rw_w := \<lparr>mstate = 1, sema = 0\<rparr>\<rparr>"
  have "rw_step 2 (?z, ?o) (?z, ?o(0 := WLocking LockCAS))" by (rule call_RWLock) auto
  with rw_start have 1: "rw_reachable 2 (?z, ?o(0 := WLocking LockCAS))" by (rule rw_next)
  have "rw_step 2 (?z, ?o(0 := WLocking LockCAS)) (?w, (?o(0 := WLocking LockCAS))(0 := LockAdd))"
    by (rule rw_inside) (auto simp: w_step_def Mutex_Lock_def CompareAndSwap_def zero_RWMutex_def)
  from rw_next [OF 1 this] have 2: "rw_reachable 2 (?w, ?o(0 := LockAdd))" by simp
  have "rw_step 2 (?w, ?o(0 := LockAdd)) (?w\<lparr>readerCount := - rwmutexMaxReaders\<rparr>, (?o(0 := LockAdd))(0 := Writing))"
    by (rule rw_inside) (auto simp: Lock_announce_def zero_RWMutex_def Let_def)
  from rw_next [OF 2 this] show ?thesis by (simp add: zero_RWMutex_def)
qed

theorem rw_exclusion_witness:
  "rw_reachable 2 (\<lparr>rw_w = \<lparr>mstate = 1, sema = 0\<rparr>, writerSem = 0, readerSem = 0, readerCount = - rwmutexMaxReaders, readerWait = 0\<rparr>,
     (\<lambda>_. RWOutside)(0 := Writing)) \<and> ((\<lambda>_. RWOutside)(0 := Writing)) (1 :: nat) \<noteq> Reading"
  using rw_exclusion [OF _ rw_reach_writing, of 0 1] rw_reach_writing by simp

text \<open>C21.
  No wake-up is lost: whenever no goroutine is in a critical section and some goroutine is inside
  a call, some goroutine can take a step, so waiting readers and writers never all sleep.\<close>

theorem rw_progress:
  assumes "N < 2 ^ 28" "rw_reachable N (rw, pcs)" "\<forall>t<N. pcs t \<noteq> Reading \<and> pcs t \<noteq> Writing" "t < N" "pcs t \<noteq> RWOutside"
  shows "\<exists>u<N. rw_goroutine_step e rw (pcs u) \<noteq> None"
proof (rule ccontr)
  assume "\<not> ?thesis"
  then have blocked: "rw_goroutine_step e rw (pcs u) = None" if "u < N" for u using that by blast
  have N: "N < 0x10000000" using assms(1) by simp
  note reach = rw_reachable_inv [OF assms(2) N, simplified fst_conv snd_conv]
  then have inv: "rw_inv N rw pcs" and mreach: "mutex_reachable N (rw_w rw, w_pc \<circ> pcs)" by blast+
  have w_none: "w_step e rw p k = None \<longleftrightarrow> goroutine_step e (rw_w rw) p = None" for p k by (auto simp: w_step_def)
  have pc: "pcs u = RWOutside \<or> pcs u = RLockSem \<and> readerSem rw = 0 \<or> pcs u = LockSem \<and> writerSem rw = 0 \<or>
      (\<exists>p. pcs u \<in> {WLocking p, WTrying p, WFailing p, WUnlocking p} \<and> goroutine_step e (rw_w rw) p = None)" if "u < N" for u
    using blocked [OF that] assms(3) that inv by (cases "pcs u") (auto simp: rw_inv_def w_none split: if_splits)
  have zero: "census f N pcs = 0"
    if z: "f RWOutside = 0" "f RLockSem = 0" "f LockSem = 0" "\<And>p. f (WLocking p) = 0" "\<And>p. f (WTrying p) = 0" "\<And>p. f (WFailing p) = 0" "\<And>p. f (WUnlocking p) = 0" for f
  proof -
    have "f (pcs u) = 0" if "u < N" for u using pc [OF that] z by auto
    then show ?thesis unfolding census_def by (intro sum.neutral) simp
  qed
  have z: "census reading N pcs = 0" "census leaving N pcs = 0" "census releasing N pcs = 0" "census counting N pcs = 0"
    "census writing N pcs = 0" "census owed N pcs = 0"
    by (rule zero; simp add: weight_defs)+
  have num: "rw_num 0 (census pending N pcs) 0 0 0 (census waiting N pcs) 0 0 rw"
    using inv by (simp add: rw_inv_def z)
  have sem: "readerSem rw = 0 \<or> census pending N pcs = 0"
  proof (rule disjCI)
    assume "census pending N pcs \<noteq> 0"
    then obtain u where "u < N" "pending (pcs u) \<noteq> 0"
      unfolding census_def by (metis lessThan_iff sum.neutral)
    then show "readerSem rw = 0" using pc [of u] by (auto simp: pending_def split: if_splits)
  qed
  have bound: "0 \<le> census waiting N pcs" "census waiting N pcs \<le> 1"
    using rw_bounds_facts(1-12) [OF rw_counts(1) [OF assms(4) N inside_w_bound [OF mreach N]]] by linarith+
  have no_LockSem: "pcs u \<noteq> LockSem" if "u < N" for u
  proof
    assume u: "pcs u = LockSem"
    then have "waiting (pcs u) \<le> census waiting N pcs" by (intro census_ge [OF that]) (simp add: waiting_def)
    then have "census waiting N pcs = 1" "writerSem rw = 0" using bound pc [OF that] u by (auto simp: waiting_def)
    then show False using num sem by (auto simp: rw_num_def Let_def)
  qed
  then have "census waiting N pcs = 0" unfolding census_def by (intro sum.neutral) (auto simp: waiting_def)
  then have pend: "census pending N pcs = 0" using num sem by (auto simp: rw_num_def Let_def)
  have no_RLockSem: "pcs u \<noteq> RLockSem" if "u < N" for u
    using census_ge [OF that, of pending pcs] pend by (auto simp: pending_def)
  have quiet: "(w_pc \<circ> pcs) u \<noteq> Holding \<and> goroutine_step e (rw_w rw) ((w_pc \<circ> pcs) u) = None" if "u < N" for u
    using pc [OF that] no_LockSem [OF that] no_RLockSem [OF that] by auto
  have inside_t: "(w_pc \<circ> pcs) t \<noteq> Outside"
  proof -
    have "rwpc_ok (census reading N pcs + int (readerSem rw) + census leaving N pcs) (sint (readerWait rw)) (pcs t)"
      using inv assms(4) by (simp add: rw_inv_def)
    then show ?thesis using pc [OF assms(4)] no_LockSem [OF assms(4)] no_RLockSem [OF assms(4)] assms(5) by auto
  qed
  have "\<forall>u<N. (w_pc \<circ> pcs) u \<noteq> Holding" using quiet by simp
  from mutex_not_stuck [OF assms(1) mreach this assms(4) inside_t, of e]
  obtain u where "u < N \<and> goroutine_step e (rw_w rw) ((w_pc \<circ> pcs) u) \<noteq> None" by (rule exE)
  then show False using quiet [of u] by simp
qed

theorem rw_progress_witness:
  "\<exists>u<2::nat. rw_goroutine_step \<lparr>canSpin = False, nanotime = 0\<rparr> zero_RWMutex (((\<lambda>_. RWOutside)(0 := RLockAdd)) u) \<noteq> None"
proof -
  have "rw_step 2 (zero_RWMutex, \<lambda>_. RWOutside) (zero_RWMutex, (\<lambda>_. RWOutside)(0 := RLockAdd))" by (rule call_RLock) auto
  with rw_start have "rw_reachable 2 (zero_RWMutex, (\<lambda>_. RWOutside)(0 := RLockAdd))" by (rule rw_next)
  then show ?thesis by (rule rw_progress [of _ _ _ 0, rotated]) simp_all
qed
end
