(* ===== verification/Big_Arith.thy ===== *)
theory Big_Arith
  imports Bits
begin

text \<open>
  The vector routines of \<open>math/big\<close> (\<open>math/big/arith.go\<close>, and \<open>arith_decl_pure.go\<close>, which
  selects them): arithmetic on little-endian sequences of 64-bit words with a carry.  The
  destination of a routine is given by its length and returned as a value.  A destination
  that shares its storage with an operand, as the callers use it, gives the same result, since
  every routine reads a word before it overwrites it.
\<close>

type_synonym Word = uint64

abbreviation W_bits :: nat where "W_bits \<equiv> 64"

section \<open>Single words\<close>

definition mulWW :: "Word \<Rightarrow> Word \<Rightarrow> Word \<times> Word" where
  "mulWW x y = Mul64 x y"

definition mulAddWWW_g :: "Word \<Rightarrow> Word \<Rightarrow> Word \<Rightarrow> Word \<times> Word" where
  "mulAddWWW_g x y c =
     (let (hi, lo) = Mul64 x y; (lo, cc) = Add64 lo c 0 in (hi + cc, lo))"

definition nlz :: "Word \<Rightarrow> nat" where
  "nlz x = LeadingZeros x"

section \<open>Vectors\<close>

fun addVV_loop :: "Word list \<Rightarrow> Word list \<Rightarrow> Word \<Rightarrow> Word list \<times> Word" where
  "addVV_loop (x # xs) (y # ys) c =
     (let (zi, cc) = Add64 x y c; (z, c) = addVV_loop xs ys cc in (zi # z, c))"
| "addVV_loop _ _ c = ([], c)"

definition addVV_g :: "nat \<Rightarrow> Word list \<Rightarrow> Word list \<Rightarrow> (Word list \<times> Word) go" where
  "addVV_g n x y =
     (if length x \<noteq> n \<or> length y \<noteq> n then Inl (PanicMsg ''addVV len'')
      else Inr (addVV_loop x y 0))"

fun subVV_loop :: "Word list \<Rightarrow> Word list \<Rightarrow> Word \<Rightarrow> Word list \<times> Word" where
  "subVV_loop (x # xs) (y # ys) c =
     (let (zi, cc) = Sub64 x y c; (z, c) = subVV_loop xs ys cc in (zi # z, c))"
| "subVV_loop _ _ c = ([], c)"

definition subVV_g :: "nat \<Rightarrow> Word list \<Rightarrow> Word list \<Rightarrow> (Word list \<times> Word) go" where
  "subVV_g n x y =
     (if length x \<noteq> n \<or> length y \<noteq> n then Inl (PanicMsg ''subVV len'')
      else Inr (subVV_loop x y 0))"

fun addVW_carry :: "Word list \<Rightarrow> Word list \<times> Word" where
  "addVW_carry [] = ([], 1)"
| "addVW_carry (xi # x) =
     (if xi \<noteq> NOT 0 then ((xi + 1) # x, 0) else let (z, c) = addVW_carry x in (0 # z, c))"

definition addVW :: "nat \<Rightarrow> Word list \<Rightarrow> Word \<Rightarrow> (Word list \<times> Word) go" where
  "addVW n x y =
     (if length x \<noteq> n then Inl (PanicMsg ''addVW len'')
      else case x of
        [] \<Rightarrow> Inr ([], y)
      | x0 # x \<Rightarrow>
          let (zi, cc) = Add64 x0 y 0 in
          if cc = 0 then Inr (zi # x, 0)
          else let (z, c) = addVW_carry x in Inr (zi # z, c))"

fun addVW_ref :: "Word list \<Rightarrow> Word \<Rightarrow> Word list \<times> Word" where
  "addVW_ref [] c = ([], c)"
| "addVW_ref (xi # x) c =
     (let (zi, cc) = Add64 xi c 0; (z, c) = addVW_ref x cc in (zi # z, c))"

fun subVW_borrow :: "Word list \<Rightarrow> Word list \<times> Word" where
  "subVW_borrow [] = ([], 1)"
| "subVW_borrow (xi # x) =
     (if xi \<noteq> 0 then ((xi - 1) # x, 0) else let (z, c) = subVW_borrow x in (NOT 0 # z, c))"

definition subVW :: "nat \<Rightarrow> Word list \<Rightarrow> Word \<Rightarrow> (Word list \<times> Word) go" where
  "subVW n x y =
     (if length x \<noteq> n then Inl (PanicMsg ''subVW len'')
      else case x of
        [] \<Rightarrow> Inr ([], y)
      | x0 # x \<Rightarrow>
          let (zi, cc) = Sub64 x0 y 0 in
          if cc = 0 then Inr (zi # x, 0)
          else let (z, c) = subVW_borrow x in Inr (zi # z, c))"

fun subVW_ref :: "Word list \<Rightarrow> Word \<Rightarrow> Word list \<times> Word" where
  "subVW_ref [] c = ([], c)"
| "subVW_ref (xi # x) c =
     (let (zi, cc) = Sub64 xi c 0; (z, c) = subVW_ref x cc in (zi # z, c))"

text \<open>Shifts by less than a word; \<open>p\<close> is the word below.\<close>

fun lshVU_loop :: "nat \<Rightarrow> nat \<Rightarrow> Word \<Rightarrow> Word list \<Rightarrow> Word list" where
  "lshVU_loop s s' p [] = []"
| "lshVU_loop s s' p (xi # x) = (push_bit s xi OR drop_bit s' p) # lshVU_loop s s' xi x"

definition lshVU_g :: "nat \<Rightarrow> Word list \<Rightarrow> nat \<Rightarrow> (Word list \<times> Word) go" where
  "lshVU_g n x s =
     (if length x \<noteq> n then Inl (PanicMsg ''lshVU len'')
      else if s = 0 then Inr (x, 0)
      else case x of
        [] \<Rightarrow> Inr ([], 0)
      | x0 # xs \<Rightarrow>
          let s = s mod W_bits; s' = (W_bits - s) mod W_bits
          in Inr (push_bit s x0 # lshVU_loop s s' x0 xs, drop_bit s' (last x)))"

fun rshVU_loop :: "nat \<Rightarrow> nat \<Rightarrow> Word list \<Rightarrow> Word list" where
  "rshVU_loop s s' [] = []"
| "rshVU_loop s s' [xi] = [drop_bit s xi]"
| "rshVU_loop s s' (xi # xj # x) = (drop_bit s xi OR push_bit s' xj) # rshVU_loop s s' (xj # x)"

definition rshVU_g :: "nat \<Rightarrow> Word list \<Rightarrow> nat \<Rightarrow> (Word list \<times> Word) go" where
  "rshVU_g n x s =
     (if length x \<noteq> n then Inl (PanicMsg ''rshVU len'')
      else if s = 0 then Inr (x, 0)
      else case x of
        [] \<Rightarrow> Inr ([], 0)
      | x0 # xs \<Rightarrow>
          let s = s mod W_bits; s' = (W_bits - s) mod W_bits
          in Inr (rshVU_loop s s' x, push_bit s' x0))"

fun mulAddVWW_loop :: "Word list \<Rightarrow> Word \<Rightarrow> Word \<Rightarrow> Word list \<times> Word" where
  "mulAddVWW_loop [] y c = ([], c)"
| "mulAddVWW_loop (xi # x) y c =
     (let (c, zi) = mulAddWWW_g xi y c; (z, c) = mulAddVWW_loop x y c in (zi # z, c))"

definition mulAddVWW_g :: "nat \<Rightarrow> Word list \<Rightarrow> Word \<Rightarrow> Word \<Rightarrow> (Word list \<times> Word) go" where
  "mulAddVWW_g n x y r =
     (if length x \<noteq> n then Inl (PanicMsg ''mulAddVWW len'') else Inr (mulAddVWW_loop x y r))"

fun addMulVVWW_loop :: "Word list \<Rightarrow> Word list \<Rightarrow> Word \<Rightarrow> Word \<Rightarrow> Word list \<times> Word" where
  "addMulVVWW_loop (xi # x) (yi # y) m c =
     (let (z1, z0) = mulAddWWW_g yi m xi;
          (lo, cc) = Add64 z0 c 0;
          c = cc + z1;
          (z, c) = addMulVVWW_loop x y m c
      in (lo # z, c))"
| "addMulVVWW_loop _ _ m c = ([], c)"

definition addMulVVWW_g :: "nat \<Rightarrow> Word list \<Rightarrow> Word list \<Rightarrow> Word \<Rightarrow> Word \<Rightarrow> (Word list \<times> Word) go" where
  "addMulVVWW_g n x y m a =
     (if length x \<noteq> n \<or> length y \<noteq> n then Inl (PanicMsg ''rshVU len'')
      else Inr (addMulVVWW_loop x y m a))"

section \<open>Division by a word\<close>

definition divWW :: "Word \<Rightarrow> Word \<Rightarrow> Word \<Rightarrow> Word \<Rightarrow> Word \<times> Word" where
  "divWW x1 x0 y m =
     (let s = nlz y;
          (x1, x0, y) =
            (if s \<noteq> 0 then (push_bit s x1 OR drop_bit (W_bits - s) x0, push_bit s x0, push_bit s y)
             else (x1, x0, y));
          d = y;
          (t1, t0) = Mul64 m x1;
          (_, c) = Add64 t0 x0 0;
          (t1, _) = Add64 t1 x1 c;
          qq = t1;
          (dq1, dq0) = Mul64 d qq;
          (r0, b) = Sub64 x0 dq0 0;
          (r1, _) = Sub64 x1 dq1 b;
          (qq, r0) = (if r1 \<noteq> 0 then (qq + 1, r0 - d) else (qq, r0));
          (qq, r0) = (if r0 \<ge> d then (qq + 1, r0 - d) else (qq, r0))
      in (qq, drop_bit s r0))"

definition reciprocalWord :: "Word \<Rightarrow> Word go option" where
  "reciprocalWord d1 =
     (let u = push_bit (nlz d1) d1;
          x1 = NOT u;
          x0 = NOT 0
      in map_option (map_sum id fst) (Div64 x1 x0 u))"

end
