(* ===== verification/Big_Nat.thy ===== *)
theory Big_Nat
  imports Big_Arith
begin

text \<open>
  Natural numbers of any size (\<open>math/big/nat.go\<close>, \<open>natmul.go\<close> and the division by a word of
  \<open>natdiv.go\<close>): a \<open>nat\<close> is a little-endian sequence of words without leading zeros.  The
  receiver of a method only provides storage for the result, so the operations are functions
  of their operands; the storage pool (\<open>stack\<close>, \<open>make\<close>, \<open>alias\<close>) has no counterpart.  The
  magnitude and sign of \<open>Int\<close> (\<open>int.go\<close>) are here as well, since Karatsuba's multiplication
  works with signed differences.
\<close>

section \<open>Basics\<close>

definition nat_norm :: "Word list \<Rightarrow> Word list" where
  "nat_norm z = rev (dropWhile (\<lambda>w. w = 0) (rev z))"

definition setWord :: "Word \<Rightarrow> Word list" where
  "setWord x = (if x = 0 then [] else [x])"

definition setUint64 :: "uint64 \<Rightarrow> Word list" where
  "setUint64 x = setWord x"

abbreviation natOne :: "Word list" where "natOne \<equiv> [1]"

definition nat_add_le :: "Word list \<Rightarrow> Word list \<Rightarrow> Word list go" where
  "nat_add_le x y =
     (let m = length x; n = length y in
      if m = 0 then Inr []
      else if n = 0 then Inr x
      else
        bind_go (addVV_g n (take n x) y) (\<lambda>(z, c).
        bind_go (if m > n then addVW (m - n) (drop n x) c else Inr ([], c)) (\<lambda>(z', c).
          Inr (nat_norm (z @ z' @ [c])))))"

definition nat_add :: "Word list \<Rightarrow> Word list \<Rightarrow> Word list go" where
  "nat_add x y = (if length x < length y then nat_add_le y x else nat_add_le x y)"

definition nat_sub :: "Word list \<Rightarrow> Word list \<Rightarrow> Word list go" where
  "nat_sub x y =
     (let m = length x; n = length y in
      if m < n then Inl (PanicMsg ''underflow'')
      else if m = 0 then Inr []
      else if n = 0 then Inr x
      else
        bind_go (subVV_g n (take n x) y) (\<lambda>(z, c).
        bind_go (if m > n then subVW (m - n) (drop n x) c else Inr ([], c)) (\<lambda>(z', c).
          if c \<noteq> 0 then Inl (PanicMsg ''underflow'') else Inr (nat_norm (z @ z')))))"

fun cmp_top :: "Word list \<Rightarrow> Word list \<Rightarrow> nat \<Rightarrow> nat" where
  "cmp_top x y i = (if 0 < i \<and> x ! i = y ! i then cmp_top x y (i - 1) else i)"

declare cmp_top.simps [simp del]

definition nat_cmp :: "Word list \<Rightarrow> Word list \<Rightarrow> int" where
  "nat_cmp x y =
     (let m = length x; n = length y in
      if m \<noteq> n \<or> m = 0 then (if m < n then -1 else if m > n then 1 else 0)
      else
        let i = cmp_top x y (m - 1)
        in if x ! i < y ! i then -1 else if x ! i > y ! i then 1 else 0)"

definition addTo :: "Word list \<Rightarrow> Word list \<Rightarrow> Word list go" where
  "addTo z x =
     (let n = length x in
      if n > 0 then
        if length z < n then Inl SliceBoundsOutOfRange
        else
          bind_go (addVV_g n (take n z) x) (\<lambda>(z', c).
            if c \<noteq> 0 \<and> n < length z
            then bind_go (addVW (length z - n) (drop n z) c) (\<lambda>(z'', _). Inr (z' @ z''))
            else Inr (z' @ drop n z))
      else Inr z)"

section \<open>Signed integers\<close>

record BigInt =
  ineg :: bool
  iabs :: "Word list"

definition Int_Add :: "BigInt \<Rightarrow> BigInt \<Rightarrow> BigInt go" where
  "Int_Add x y =
     bind_go
       (if ineg x = ineg y then map_sum id (\<lambda>z. (z, ineg x)) (nat_add (iabs x) (iabs y))
        else if nat_cmp (iabs x) (iabs y) \<ge> 0 then map_sum id (\<lambda>z. (z, ineg x)) (nat_sub (iabs x) (iabs y))
        else map_sum id (\<lambda>z. (z, \<not> ineg x)) (nat_sub (iabs y) (iabs x)))
       (\<lambda>(z, s). Inr \<lparr>ineg = length z > 0 \<and> s, iabs = z\<rparr>)"

definition Int_Sub :: "BigInt \<Rightarrow> BigInt \<Rightarrow> BigInt go" where
  "Int_Sub x y =
     bind_go
       (if ineg x \<noteq> ineg y then map_sum id (\<lambda>z. (z, ineg x)) (nat_add (iabs x) (iabs y))
        else if nat_cmp (iabs x) (iabs y) \<ge> 0 then map_sum id (\<lambda>z. (z, ineg x)) (nat_sub (iabs x) (iabs y))
        else map_sum id (\<lambda>z. (z, \<not> ineg x)) (nat_sub (iabs y) (iabs x)))
       (\<lambda>(z, s). Inr \<lparr>ineg = length z > 0 \<and> s, iabs = z\<rparr>)"

section \<open>Multiplication\<close>

definition mulAddWW :: "Word list \<Rightarrow> Word \<Rightarrow> Word \<Rightarrow> Word list go" where
  "mulAddWW x y r =
     (let m = length x in
      if m = 0 \<or> y = 0 then Inr (setWord r)
      else bind_go (mulAddVWW_g m x y r) (\<lambda>(z, c). Inr (nat_norm (z @ [c]))))"

fun basicMul_loop :: "Word list \<Rightarrow> Word list \<Rightarrow> nat \<Rightarrow> Word list \<Rightarrow> Word list go" where
  "basicMul_loop x [] i z = Inr z"
| "basicMul_loop x (d # y) i z =
     (if d \<noteq> 0 then
        let n = length x; s = take n (drop i z) in
        bind_go (addMulVVWW_g n s x d 0) (\<lambda>(s, c).
          basicMul_loop x y (i + 1) (take i z @ s @ [c] @ drop (n + i + 1) z))
      else basicMul_loop x y (i + 1) z)"

definition basicMul :: "Word list \<Rightarrow> Word list \<Rightarrow> Word list go" where
  "basicMul x y = basicMul_loop x y 0 (replicate (length x + length y) 0)"

abbreviation karatsubaThreshold :: nat where "karatsubaThreshold \<equiv> 40"

text \<open>The words of a number in a longer slice that was cleared before.\<close>

definition pad :: "nat \<Rightarrow> Word list \<Rightarrow> Word list" where
  "pad n x = x @ replicate (n - length x) 0"

lemma length_nat_norm: "length (nat_norm z) \<le> length z"
  by (metis length_dropWhile_le length_rev nat_norm_def)

lemma subVV_loop_length: "length x = length y \<Longrightarrow> length (fst (subVV_loop x y c)) = length x"
  by (induction x y c rule: subVV_loop.induct) (auto split: prod.splits)

lemma subVW_borrow_length: "length (fst (subVW_borrow x)) = length x"
  by (induction x) (auto split: prod.splits)

lemma subVW_length: "subVW n x y = Inr (z, c) \<Longrightarrow> length z = length x"
  using subVW_borrow_length
  by (cases x) (auto simp: subVW_def Let_def split: if_splits prod.splits, metis fst_conv)

lemma nat_sub_length: "nat_sub x y = Inr z \<Longrightarrow> length z \<le> length x"
proof -
  assume s: "nat_sub x y = Inr z"
  have n: "length (nat_norm (a @ b)) \<le> length x" if "length a + length b = length x" for a b
    using length_nat_norm [of "a @ b"] that by simp
  from s show ?thesis
    using subVV_loop_length [of "take (length y) x" y 0]
    by (auto simp: nat_sub_def Let_def bind_go_Inr subVV_g_def dest!: subVW_length split: if_splits prod.splits intro!: n)
      (metis length_nat_norm)
qed

lemma Int_Sub_length:
  "Int_Sub x y = Inr z \<Longrightarrow> ineg x = ineg y \<Longrightarrow> length (iabs z) \<le> max (length (iabs x)) (length (iabs y))"
  by (auto simp: Int_Sub_def bind_go_Inr map_sum_def dest!: nat_sub_length split: if_splits sum.splits)

lemma half_lengths:
  assumes "length x = n"
  shows "length (nat_norm (take (Suc n div 2) x)) \<le> Suc n div 2"
    "length (nat_norm (drop (Suc n div 2) x)) \<le> Suc n div 2"
  using length_nat_norm [of "take (Suc n div 2) x"] length_nat_norm [of "drop (Suc n div 2) x"] assms
  by (simp_all add: min_def split: if_splits)

lemma half_differences:
  "Int_Sub \<lparr>ineg = False, iabs = nat_norm (take (Suc n div 2) x)\<rparr>
           \<lparr>ineg = False, iabs = nat_norm (drop (Suc n div 2) x)\<rparr> = Inr t \<Longrightarrow> length x = n \<Longrightarrow>
     length (iabs t) \<le> Suc n div 2"
  "Int_Sub \<lparr>ineg = False, iabs = nat_norm (drop (Suc n div 2) x)\<rparr>
           \<lparr>ineg = False, iabs = nat_norm (take (Suc n div 2) x)\<rparr> = Inr t \<Longrightarrow> length x = n \<Longrightarrow>
     length (iabs t) \<le> Suc n div 2"
  using half_lengths [of x n] by (auto dest!: Int_Sub_length)

lemma half_sum_less: "a \<le> Suc n div 2 \<Longrightarrow> b \<le> Suc n div 2 \<Longrightarrow> \<not> n < k \<Longrightarrow> 2 < k \<Longrightarrow> a + b < n + (n :: nat)"
  by simp

text \<open>
  Multiplication, which splits its operands for Karatsuba's method when they are long.  The
  loop over the further pieces of the longer operand is given what is left of it and the index
  of the next piece; it advances by \<open>length y\<close>, which is not zero there.
\<close>

function nat_mul :: "Word list \<Rightarrow> Word list \<Rightarrow> Word list go"
  and karatsuba :: "nat \<Rightarrow> Word list \<Rightarrow> Word list \<Rightarrow> Word list go"
  and Int_mul :: "BigInt \<Rightarrow> BigInt \<Rightarrow> BigInt go"
  and mul_loop :: "Word list \<Rightarrow> Word list \<Rightarrow> nat \<Rightarrow> Word list \<Rightarrow> Word list go"
where
  "nat_mul x y =
     (let m = length x; n = length y in
      if m < n then nat_mul y x
      else if m = 0 \<or> n = 0 then Inr []
      else if n = 1 then mulAddWW x (y ! 0) 0
      else if n < karatsubaThreshold then map_sum id nat_norm (basicMul x y)
      else
        bind_go (karatsuba (2 * n) (take n x) y) (\<lambda>z.
          if n < m then map_sum id nat_norm (mul_loop (drop n x) y n (pad (m + n) z))
          else Inr (nat_norm z)))"
| "karatsuba zlen x y =
     (let n = length y in
      if length x \<noteq> n \<or> zlen \<noteq> 2 * n then Inl (PanicMsg ''bad karatsuba length'')
      else if n < karatsubaThreshold \<or> n < 2 then basicMul x y
      else
        let n2 = (n + 1) div 2;
            x0 = \<lparr>ineg = False, iabs = nat_norm (take n2 x)\<rparr>; x1 = \<lparr>ineg = False, iabs = nat_norm (drop n2 x)\<rparr>;
            y0 = \<lparr>ineg = False, iabs = nat_norm (take n2 y)\<rparr>; y1 = \<lparr>ineg = False, iabs = nat_norm (drop n2 y)\<rparr>
        in
        bind_go (Int_Sub x0 x1) (\<lambda>tx.
        bind_go (Int_Sub y1 y0) (\<lambda>ty.
        bind_go (Int_mul tx ty) (\<lambda>z1.
        bind_go (Int_mul x0 y0) (\<lambda>z0.
        bind_go (Int_mul x1 y1) (\<lambda>z2.
        bind_go (Int_Add z1 z0) (\<lambda>z1.
        bind_go (Int_Add z1 z2) (\<lambda>z1.
          let z = pad (2 * n2) (iabs z0) @ pad (zlen - 2 * n2) (iabs z2) in
          map_sum id (\<lambda>t. take n2 z @ t) (addTo (drop n2 z) (iabs z1))))))))))"
| "Int_mul x y =
     map_sum id (\<lambda>z. \<lparr>ineg = length z > 0 \<and> ineg x \<noteq> ineg y, iabs = z\<rparr>) (nat_mul (iabs x) (iabs y))"
| "mul_loop x y i z =
     (if x \<noteq> [] \<and> y \<noteq> [] then
        let n = length y in
        bind_go (nat_mul (take n x) y) (\<lambda>t.
        bind_go (addTo (drop i z) t) (\<lambda>u. mul_loop (drop n x) y (i + n) (take i z @ u)))
      else Inr z)"
  by pat_completeness auto
termination
proof (relation "measures [case_sum (case_sum (\<lambda>(x, y). length x + length y) (\<lambda>(k, x, y). length x + length y))
                             (case_sum (\<lambda>(x, y). length (iabs x) + length (iabs y)) (\<lambda>(x, y, i, z). length x + 2 * length y)),
                           case_sum (case_sum (\<lambda>(x, y). if length x < length y then 3 else 2) (\<lambda>_. 0))
                             (case_sum (\<lambda>_. 4) (\<lambda>_. 1))]",
    goal_cases)
  case 1
  show ?case by simp
qed (auto simp: Let_def intro!: half_sum_less half_lengths intro: half_differences)

declare nat_mul.simps [simp del] karatsuba.simps [simp del] mul_loop.simps [simp del] Int_mul.simps [simp del]

section \<open>Bits and shifts\<close>

definition nat_bitLen :: "Word list \<Rightarrow> nat" where
  "nat_bitLen x =
     (if x \<noteq> [] then
        let i = length x - 1;
            top = x ! i;
            top = top OR drop_bit 1 top;
            top = top OR drop_bit 2 top;
            top = top OR drop_bit 4 top;
            top = top OR drop_bit 8 top;
            top = top OR drop_bit 16 top;
            top = top OR drop_bit 16 (drop_bit 16 top)
        in i * W_bits + bits_Len top
      else 0)"

text \<open>The index of the first non-zero word; a number without one makes the loop run off the slice.\<close>

fun first_nonzero :: "Word list \<Rightarrow> nat go" where
  "first_nonzero [] = Inl IndexOutOfRange"
| "first_nonzero (x # xs) = (if x = 0 then map_sum id Suc (first_nonzero xs) else Inr 0)"

definition nat_trailingZeroBits :: "Word list \<Rightarrow> nat go" where
  "nat_trailingZeroBits x =
     (if length x = 0 then Inr 0
      else bind_go (first_nonzero x) (\<lambda>i. Inr (i * W_bits + TrailingZeros (x ! i))))"

definition nat_isPow2 :: "Word list \<Rightarrow> (nat \<times> bool) go" where
  "nat_isPow2 x =
     bind_go (first_nonzero x) (\<lambda>i.
       Inr (if i = length x - 1 \<and> x ! i AND (x ! i - 1) = 0
            then (i * W_bits + TrailingZeros (x ! i), True) else (0, False)))"

definition nat_lsh :: "Word list \<Rightarrow> nat \<Rightarrow> Word list go" where
  "nat_lsh x s =
     (if s = 0 then Inr x
      else
        let m = length x in
        if m = 0 then Inr []
        else
          let k = s div W_bits; s = s mod W_bits in
          bind_go (if s = 0 then Inr (x, 0) else lshVU_g m x s) (\<lambda>(z, c).
            Inr (nat_norm (replicate k 0 @ z @ [c]))))"

definition nat_rsh :: "Word list \<Rightarrow> nat \<Rightarrow> Word list go" where
  "nat_rsh x s =
     (if s = 0 then Inr x
      else
        let m = length x; k = s div W_bits in
        if m \<le> k then Inr []
        else
          let s = s mod W_bits in
          bind_go (if s = 0 then Inr (drop k x, 0) else rshVU_g (m - k) (drop k x) s) (\<lambda>(z, c).
            Inr (nat_norm z)))"

definition nat_setBit :: "Word list \<Rightarrow> nat \<Rightarrow> nat \<Rightarrow> Word list go" where
  "nat_setBit x i b =
     (let j = i div W_bits; m = push_bit (i mod W_bits) 1; n = length x in
      if b = 0 then
        if j \<ge> n then Inr x else Inr (nat_norm (x[j := x ! j AND NOT m]))
      else if b = 1 then
        let z = (if j \<ge> n then x @ replicate (j + 1 - n) 0 else x)
        in Inr (z[j := z ! j OR m])
      else Inl (PanicMsg ''set bit is not 0 or 1''))"

definition nat_bit :: "Word list \<Rightarrow> nat \<Rightarrow> nat" where
  "nat_bit x i =
     (let j = i div W_bits in
      if j \<ge> length x then 0 else unat (drop_bit (i mod W_bits) (x ! j) AND 1))"

definition nat_sticky :: "Word list \<Rightarrow> nat \<Rightarrow> nat" where
  "nat_sticky x i =
     (let j = i div W_bits in
      if j \<ge> length x then (if length x = 0 then 0 else 1)
      else if list_ex (\<lambda>w. w \<noteq> 0) (take j x) then 1
      else if push_bit (W_bits - i mod W_bits) (x ! j) \<noteq> 0 then 1 else 0)"

definition nat_and :: "Word list \<Rightarrow> Word list \<Rightarrow> Word list" where
  "nat_and x y = nat_norm (map2 (AND) x y)"

definition nat_andNot :: "Word list \<Rightarrow> Word list \<Rightarrow> Word list" where
  "nat_andNot x y = nat_norm (map2 (\<lambda>a b. a AND NOT b) x y @ drop (length y) x)"

definition nat_or :: "Word list \<Rightarrow> Word list \<Rightarrow> Word list" where
  "nat_or x y =
     (let n = min (length x) (length y); s = (if length x < length y then y else x)
      in nat_norm (map2 (OR) x y @ drop n s))"

definition nat_xor :: "Word list \<Rightarrow> Word list \<Rightarrow> Word list" where
  "nat_xor x y =
     (let n = min (length x) (length y); s = (if length x < length y then y else x)
      in nat_norm (map2 (XOR) x y @ drop n s))"

definition nat_trunc :: "Word list \<Rightarrow> nat \<Rightarrow> Word list" where
  "nat_trunc x n =
     (let w = (n + W_bits - 1) div W_bits in
      if length x < w then x
      else
        let z = take w x in
        nat_norm (if n mod W_bits \<noteq> 0 then z[w - 1 := z ! (w - 1) AND (push_bit (n mod W_bits) 1 - 1)] else z))"

section \<open>Division by a word\<close>

fun divWVW_loop :: "Word \<Rightarrow> Word \<Rightarrow> Word list \<Rightarrow> Word \<Rightarrow> Word list \<times> Word" where
  "divWVW_loop y rec [] r = ([], r)"
| "divWVW_loop y rec (xi # x) r =
     (let (z, r) = divWVW_loop y rec x r; (zi, r) = divWW r xi y rec in (zi # z, r))"

definition divWVW :: "Word \<Rightarrow> Word list \<Rightarrow> Word \<Rightarrow> (Word list \<times> Word) go option" where
  "divWVW xn x y =
     (if length x = 1
      then map_option (map_sum id (\<lambda>(qq, rr). ([qq], rr))) (Div64 xn (x ! 0) y)
      else map_option (map_sum id (\<lambda>rec. divWVW_loop y rec x xn)) (reciprocalWord y))"

definition nat_divW :: "Word list \<Rightarrow> Word \<Rightarrow> (Word list \<times> Word) go option" where
  "nat_divW x y =
     (if y = 0 then Some (Inl (PanicMsg ''division by zero''))
      else if y = 1 then Some (Inr (x, 0))
      else if length x = 0 then Some (Inr ([], 0))
      else map_option (map_sum id (\<lambda>(z, r). (nat_norm z, r))) (divWVW 0 x y))"

definition nat_modW :: "Word list \<Rightarrow> Word \<Rightarrow> Word go option" where
  "nat_modW x d = map_option (map_sum id snd) (divWVW 0 x d)"

end
