(* ===== verification/Big_Correct.thy ===== *)
theory Big_Correct
  imports Big_Arith Bits_Correct
begin

text \<open>
  The vector routines of \<open>math/big\<close> compute what they should on the numbers that word
  sequences stand for: sums, differences, products and shifts with their carries, and division
  by a word through its reciprocal.
\<close>

section \<open>The value of a vector\<close>

definition B :: nat where "B = 2 ^ 64"

lemma B_pos [simp]: "0 < B" "B \<noteq> 0" "Suc 0 \<le> B" by (simp_all add: B_def)

lemma unat_less_B [simp]: "unat (w :: Word) < B"
  using unsigned_less [of w, where 'a = nat] by (simp add: B_def)

fun val :: "Word list \<Rightarrow> nat" where
  "val [] = 0"
| "val (x # xs) = unat x + B * val xs"

lemma val_append: "val (xs @ ys) = val xs + B ^ length xs * val ys"
  by (induction xs) (auto simp: algebra_simps)

lemma val_less: "val xs < B ^ length xs"
proof (induction xs)
  case (Cons x xs)
  have "unat x + B * val xs < B + B * val xs" by simp
  also have "\<dots> = B * (val xs + 1)" by simp
  also have "\<dots> \<le> B * B ^ length xs" using Cons by (intro mult_le_mono) simp_all
  finally show ?case by simp
qed simp

lemma val_replicate_0 [simp]: "val (replicate n 0) = 0"
  by (induction n) auto

lemma carry_small: "unat (c :: Word) \<le> Suc 0 \<longleftrightarrow> c = 0 \<or> c = 1"
proof -
  have "c = 1" if "unat c = 1" using that by (metis unat_1 word_unat_eq_iff)
  moreover have "c = 0" if "unat c = 0" using that by (simp add: unat_eq_0)
  ultimately show ?thesis by (auto simp: le_Suc_eq)
qed

section \<open>Addition and subtraction\<close>

lemma Add64_B: "unat c \<le> 1 \<Longrightarrow> Add64 x y c = (s, c') \<Longrightarrow> unat c' * B + unat s = unat x + unat y + unat c \<and> unat c' \<le> 1"
  using Add64_exact [of c x y s c'] by (simp add: B_def)

lemma Sub64_B: "unat c \<le> 1 \<Longrightarrow> Sub64 x y c = (s, c') \<Longrightarrow> unat s + unat y + unat c = unat x + unat c' * B \<and> unat c' \<le> 1"
  using Sub64_exact [of c x y s c'] by (simp add: B_def)

lemma Mul64_B: "Mul64 x y = (hi, lo) \<Longrightarrow> unat hi * B + unat lo = unat x * unat y"
  using Mul64_exact [of x y hi lo] by (simp add: B_def)

lemma addVV_loop_val:
  "length x = length y \<Longrightarrow> unat c \<le> 1 \<Longrightarrow> addVV_loop x y c = (z, c') \<Longrightarrow>
     val z + unat c' * B ^ length x = val x + val y + unat c \<and> length z = length x \<and> unat c' \<le> 1"
proof (induction x y c arbitrary: z c' rule: addVV_loop.induct)
  case (1 xi x yi y c)
  obtain zi cc where a: "Add64 xi yi c = (zi, cc)" by fastforce
  obtain zs c'' where r: "addVV_loop x y cc = (zs, c'')" by fastforce
  note head = Add64_B [OF 1(3) a]
  have tl: "val zs + unat c'' * B ^ length x = val x + val y + unat cc" "length zs = length x" "unat c'' \<le> 1"
    using 1(1) [OF a [symmetric] refl _ _ r] 1(2) head by auto
  have "B * (val zs + unat c'' * B ^ length x) = B * (val x + val y + unat cc)" using tl(1) by simp
  then show ?case using 1(4) a r head tl(2,3) by (auto simp: algebra_simps)
qed auto

lemma subVV_loop_val:
  "length x = length y \<Longrightarrow> unat c \<le> 1 \<Longrightarrow> subVV_loop x y c = (z, c') \<Longrightarrow>
     val z + val y + unat c = val x + unat c' * B ^ length x \<and> length z = length x \<and> unat c' \<le> 1"
proof (induction x y c arbitrary: z c' rule: subVV_loop.induct)
  case (1 xi x yi y c)
  obtain zi cc where a: "Sub64 xi yi c = (zi, cc)" by fastforce
  obtain zs c'' where r: "subVV_loop x y cc = (zs, c'')" by fastforce
  note head = Sub64_B [OF 1(3) a]
  have tl: "val zs + val y + unat cc = val x + unat c'' * B ^ length x" "length zs = length x" "unat c'' \<le> 1"
    using 1(1) [OF a [symmetric] refl _ _ r] 1(2) head by auto
  have "B * (val zs + val y + unat cc) = B * (val x + unat c'' * B ^ length x)" using tl(1) by simp
  then show ?case using 1(4) a r head tl(2,3) by (auto simp: algebra_simps)
qed auto

lemma addVW_ref_val:
  "addVW_ref x c = (z, c') \<Longrightarrow> val z + unat c' * B ^ length x = val x + unat c \<and> length z = length x"
proof (induction x c arbitrary: z c' rule: addVW_ref.induct)
  case (2 xi x c)
  obtain zi cc where a: "Add64 xi c 0 = (zi, cc)" by fastforce
  obtain zs c'' where r: "addVW_ref x cc = (zs, c'')" by fastforce
  have head: "unat cc * B + unat zi = unat xi + unat c" using Add64_B [OF _ a] by simp
  have tl: "val zs + unat c'' * B ^ length x = val x + unat cc" "length zs = length x"
    using 2(1) [OF a [symmetric] refl r] by auto
  have "B * (val zs + unat c'' * B ^ length x) = B * (val x + unat cc)" using tl(1) by simp
  then show ?case using 2(2) a r head tl(2) by (auto simp: algebra_simps)
qed auto

lemma Add64_carry_cases:
  "Add64 x y 0 = (x + y, if unat x + unat y < B then 0 else 1)"
proof -
  obtain cc where a: "Add64 x y 0 = (x + y, cc)" by (simp add: Add64_def Let_def)
  have c: "unat cc * B + unat (x + y) = unat x + unat y" "cc = 0 \<or> cc = 1"
    using Add64_B [OF _ a] by (auto simp: carry_small)
  have "unat (x + y) < B" by simp
  with c a show ?thesis by (auto simp del: unat_less_B)
qed

lemma Sub64_borrow_cases: "Sub64 x y 0 = (x - y, if unat y \<le> unat x then 0 else 1)"
proof -
  obtain cc where a: "Sub64 x y 0 = (x - y, cc)" by (simp add: Sub64_def Let_def)
  have c: "unat (x - y) + unat y = unat x + unat cc * B" "cc = 0 \<or> cc = 1"
    using Sub64_B [OF _ a] by (auto simp: carry_small)
  have "unat (x - y) < B" "unat x < B" by simp_all
  with c a show ?thesis by (auto simp del: unat_less_B)
qed

lemma Add64_0: "Add64 x 0 0 = (x, 0)"
  by (simp add: Add64_carry_cases)

lemma Add64_carry1: "Add64 x 1 0 = (if x = NOT 0 then (0, 1) else (x + 1, 0))"
proof -
  have top: "unat (NOT 0 :: Word) + 1 = B" by (simp add: B_def unsigned_minus_1_eq_mask mask_eq_exp_minus_1)
  consider "unat x + 1 < B" | "unat x + 1 = B" using unat_less_B [of x] by linarith
  then show ?thesis
  proof cases
    case 1
    then have "x \<noteq> NOT 0" using top by auto
    with 1 show ?thesis by (simp add: Add64_carry_cases)
  next
    case 2
    then have "x = NOT 0" using top by (intro word_unat_eq_iff [THEN iffD2]) simp
    with 2 show ?thesis by (simp add: Add64_carry_cases)
  qed
qed

lemma Sub64_0: "Sub64 x 0 0 = (x, 0)"
  by (simp add: Sub64_borrow_cases)

lemma Sub64_borrow1: "Sub64 x 1 0 = (if x = 0 then (NOT 0, 1) else (x - 1, 0))"
proof -
  have "1 \<le> unat x \<longleftrightarrow> x \<noteq> 0" by (metis One_nat_def Suc_leI not_one_le_zero unat_eq_0 neq0_conv)
  then show ?thesis by (simp add: Sub64_borrow_cases)
qed

lemma addVW_ref_0: "addVW_ref x 0 = (x, 0)"
  by (induction x) (auto simp: Add64_0)

text \<open>The shortcut of \<open>addVW\<close>, which stops at the first word without a carry, agrees with the plain loop.\<close>

lemma addVW_carry_ref: "addVW_carry x = addVW_ref x 1"
  by (induction x) (auto simp: Add64_carry1 addVW_ref_0 split: prod.splits)

lemma addVW_eq_ref: "length x = n \<Longrightarrow> addVW n x y = Inr (addVW_ref x y)"
  by (cases x) (auto simp: addVW_def addVW_carry_ref addVW_ref_0 carry_small
      dest!: Add64_B [rotated] split: prod.splits)

lemma subVW_ref_val:
  "subVW_ref x c = (z, c') \<Longrightarrow> val z + unat c = val x + unat c' * B ^ length x \<and> length z = length x"
proof (induction x c arbitrary: z c' rule: subVW_ref.induct)
  case (2 xi x c)
  obtain zi cc where a: "Sub64 xi c 0 = (zi, cc)" by fastforce
  obtain zs c'' where r: "subVW_ref x cc = (zs, c'')" by fastforce
  have head: "unat zi + unat c = unat xi + unat cc * B" using Sub64_B [OF _ a] by simp
  have tl: "val zs + unat cc = val x + unat c'' * B ^ length x" "length zs = length x"
    using 2(1) [OF a [symmetric] refl r] by auto
  have "B * (val zs + unat cc) = B * (val x + unat c'' * B ^ length x)" using tl(1) by simp
  then show ?case using 2(2) a r head tl(2) by (auto simp: algebra_simps)
qed auto

lemma subVW_ref_0: "subVW_ref x 0 = (x, 0)"
  by (induction x) (auto simp: Sub64_0)

lemma subVW_borrow_ref: "subVW_borrow x = subVW_ref x 1"
  by (induction x) (auto simp: Sub64_borrow1 subVW_ref_0 split: prod.splits)

lemma subVW_eq_ref: "length x = n \<Longrightarrow> subVW n x y = Inr (subVW_ref x y)"
  by (cases x) (auto simp: subVW_def subVW_borrow_ref subVW_ref_0 carry_small
      dest!: Sub64_B [rotated] split: prod.splits)

section \<open>Multiplication\<close>

lemma mulAddWWW_val:
  assumes "mulAddWWW_g x y c = (z1, z0)"
  shows "unat z1 * B + unat z0 = unat x * unat y + unat c"
proof -
  obtain hi lo where m: "Mul64 x y = (hi, lo)" by fastforce
  obtain s cc where a: "Add64 lo c 0 = (s, cc)" by fastforce
  have z: "z1 = hi + cc" "z0 = s" using assms m a by (auto simp: mulAddWWW_g_def)
  have 1: "unat hi * B + unat lo = unat x * unat y" by (rule Mul64_B [OF m])
  have 2: "unat cc * B + unat s = unat lo + unat c" using Add64_B [OF _ a] by simp
  have "unat x * unat y + unat c < B * B"
  proof -
    obtain b where b: "B = Suc b" using B_pos(1) gr0_implies_Suc by blast
    have "unat x * unat y \<le> b * b" "unat c \<le> b"
      using unat_less_B [of x] unat_less_B [of y] unat_less_B [of c]
      unfolding b less_Suc_eq_le by (auto intro: mult_le_mono)
    then show ?thesis by (simp add: b)
  qed
  then have "(unat hi + unat cc) * B < B * B" using 1 2 by (simp add: algebra_simps)
  then have "unat hi + unat cc < B" by simp
  then have "unat (hi + cc) = unat hi + unat cc" by (intro unat_add_lt) (simp add: B_def)
  then show ?thesis using 1 2 by (simp add: z algebra_simps)
qed

lemma mulAddVWW_loop_val:
  "mulAddVWW_loop x y c = (z, c') \<Longrightarrow> val z + unat c' * B ^ length x = val x * unat y + unat c \<and> length z = length x"
proof (induction x y c arbitrary: z c' rule: mulAddVWW_loop.induct)
  case (2 xi x y c)
  obtain c1 zi where a: "mulAddWWW_g xi y c = (c1, zi)" by fastforce
  obtain zs c'' where r: "mulAddVWW_loop x y c1 = (zs, c'')" by fastforce
  note head = mulAddWWW_val [OF a]
  have tl: "val zs + unat c'' * B ^ length x = val x * unat y + unat c1" "length zs = length x"
    using 2(1) [OF a [symmetric] refl r] by auto
  have "B * (val zs + unat c'' * B ^ length x) = B * (val x * unat y + unat c1)" using tl(1) by simp
  then show ?case using 2(2) a r head tl(2) by (auto simp: algebra_simps)
qed auto

lemma addMulVVWW_loop_val:
  "length x = length y \<Longrightarrow> addMulVVWW_loop x y m c = (z, c') \<Longrightarrow>
     val z + unat c' * B ^ length x = val x + val y * unat m + unat c \<and> length z = length x"
proof (induction x y m c arbitrary: z c' rule: addMulVVWW_loop.induct)
  case (1 xi x yi y m c)
  obtain z1 z0 where a: "mulAddWWW_g yi m xi = (z1, z0)" by fastforce
  obtain lo cc where b: "Add64 z0 c 0 = (lo, cc)" by fastforce
  obtain zs c'' where r: "addMulVVWW_loop x y m (cc + z1) = (zs, c'')" by fastforce
  have h: "unat z1 * B + unat z0 = unat yi * unat m + unat xi" by (rule mulAddWWW_val [OF a])
  have h': "unat cc * B + unat lo = unat z0 + unat c" using Add64_B [OF _ b] by simp
  have "unat yi * unat m + unat xi + unat c < B * B"
  proof -
    obtain k where k: "B = Suc k" using B_pos(1) gr0_implies_Suc by blast
    have "unat yi * unat m \<le> k * k" "unat xi \<le> k" "unat c \<le> k"
      using unat_less_B [of yi] unat_less_B [of m] unat_less_B [of xi] unat_less_B [of c]
      unfolding k less_Suc_eq_le by (auto intro: mult_le_mono)
    then show ?thesis by (simp add: k)
  qed
  then have "(unat cc + unat z1) * B < B * B" using h h' by (simp add: algebra_simps)
  then have "unat cc + unat z1 < B" by simp
  then have cz: "unat (cc + z1) = unat cc + unat z1" by (intro unat_add_lt) (simp add: B_def)
  have tl: "val zs + unat c'' * B ^ length x = val x + val y * unat m + unat (cc + z1)" "length zs = length x"
    using 1(1) [OF a [symmetric] refl b [symmetric] refl refl _ r] 1(2) by auto
  have "B * (val zs + unat c'' * B ^ length x) = B * (val x + val y * unat m + (unat cc + unat z1))"
    using tl(1) cz by simp
  then show ?case using 1(3) a b r h h' tl(2) by (auto simp: algebra_simps)
qed auto

section \<open>Shifts\<close>

lemma unat_shift_or:
  assumes "0 < s" "s < 64"
  shows "unat (push_bit s x OR drop_bit (64 - s) p :: Word) = unat x mod 2 ^ (64 - s) * 2 ^ s + unat p div 2 ^ (64 - s)"
    (is "unat (?a OR ?b) = _")
proof -
  have a: "unat ?a = unat x mod 2 ^ (64 - s) * 2 ^ s"
  proof -
    have "unat x * 2 ^ s mod 2 ^ 64 = unat x * 2 ^ s mod (2 ^ (64 - s) * 2 ^ s)"
      using assms by (simp flip: power_add)
    then show ?thesis by (simp add: unat_push_bit_gen mult_mod_left)
  qed
  have "unat ?b < 2 ^ s"
    using assms unsigned_less [of p, where 'a = nat]
    by (simp add: unat_drop_bit less_mult_imp_div_less flip: power_add)
  then have "unat (?a OR ?b) = unat ?a + unat ?b" by (intro unat_or_disjoint) (simp_all add: a)
  then show ?thesis by (simp add: a unat_drop_bit)
qed

lemma lshVU_loop_val:
  assumes s: "0 < s" "s < 64"
  shows "val (lshVU_loop s (64 - s) p x) + unat (last (p # x)) div 2 ^ (64 - s) * B ^ length x =
    val x * 2 ^ s + unat p div 2 ^ (64 - s)"
proof (induction x arbitrary: p)
  case (Cons xi x)
  have "B = 2 ^ (64 - s) * 2 ^ s" using s by (simp add: B_def flip: power_add)
  moreover have "unat xi * 2 ^ s = (unat xi div 2 ^ (64 - s) * 2 ^ (64 - s) + unat xi mod 2 ^ (64 - s)) * 2 ^ s"
    by (simp only: div_mult_mod_eq)
  ultimately have "unat xi * 2 ^ s = unat xi mod 2 ^ (64 - s) * 2 ^ s + B * (unat xi div 2 ^ (64 - s))"
    by (simp only: distrib_right mult.assoc) (simp only: ac_simps)
  moreover have "B * (val (lshVU_loop s (64 - s) xi x) + unat (last (xi # x)) div 2 ^ (64 - s) * B ^ length x) =
      B * (val x * 2 ^ s + unat xi div 2 ^ (64 - s))"
    using Cons.IH [of xi] by simp
  ultimately show ?case using unat_shift_or [OF s, of xi p] by (auto simp: algebra_simps)
qed simp

lemma lshVU_val:
  assumes "length x = n" "s < 64"
  shows "\<exists>z c. lshVU_g n x s = Inr (z, c) \<and> val z + unat c * B ^ n = val x * 2 ^ s \<and> length z = n"
proof (cases "s = 0 \<or> x = []")
  case True
  then show ?thesis using assms by (auto simp: lshVU_g_def)
next
  case False
  then obtain x0 xs where x: "x = x0 # xs" and s: "0 < s" "s < 64" using assms by (cases x) auto
  have len: "length (lshVU_loop s s' p y) = length y" for s' p y by (induction y arbitrary: p) auto
  have "push_bit s x0 = push_bit s x0 OR drop_bit (64 - s) 0" by simp
  then have "lshVU_g n x s = Inr (lshVU_loop s (64 - s) 0 x, drop_bit (64 - s) (last x))"
    using assms s x by (simp add: lshVU_g_def Let_def)
  then show ?thesis
    using lshVU_loop_val [OF s, of 0 x] assms x len by (auto simp: unat_drop_bit)
qed

lemma unat_rshift_or:
  assumes "0 < s" "s < 64"
  shows "unat (drop_bit s x OR push_bit (64 - s) y :: Word) = unat x div 2 ^ s + unat y mod 2 ^ s * 2 ^ (64 - s)"
  using unat_shift_or [of "64 - s" y x] assms by (simp add: or.commute)

lemma rshVU_loop_val:
  assumes s: "0 < s" "s < 64"
  shows "val (rshVU_loop s (64 - s) x) = val x div 2 ^ s"
proof (induction x rule: induct_list012)
  case (3 xi xj x)
  define V P Q where "V = val (xj # x)" and "P = (2 :: nat) ^ (64 - s)" and "Q = (2 :: nat) ^ s"
  have BPQ: "B = P * Q" using s by (simp add: B_def P_def Q_def flip: power_add)
  have Q: "0 < Q" by (simp add: Q_def)
  have "V mod Q = unat xj mod Q" 
  proof -
    have "V = unat xj + (P * val x) * Q" by (simp add: V_def BPQ)
    then show ?thesis by simp
  qed
  moreover have "(unat xi + B * V) div Q = unat xi div Q + P * V"
  proof -
    have e: "unat xi + B * V = unat xi + (P * V) * Q" by (simp add: BPQ)
    show ?thesis unfolding e using Q by simp
  qed
  moreover have "P * V = P * (V mod Q) + B * (V div Q)"
    unfolding BPQ by (metis add.commute distrib_left div_mult_mod_eq mult.assoc mult.commute)
  ultimately show ?case
    using 3(2) unat_rshift_or [OF s, of xi xj] by (simp add: V_def P_def Q_def mult.commute)
qed (simp_all add: unat_drop_bit)

lemma rshVU_val:
  assumes "length x = n" "s < 64"
  shows "\<exists>z c. rshVU_g n x s = Inr (z, c) \<and> val z = val x div 2 ^ s \<and> length z = n"
proof (cases "s = 0 \<or> x = []")
  case True
  then show ?thesis using assms by (auto simp: rshVU_g_def)
next
  case False
  then obtain x0 xs where x: "x = x0 # xs" and s: "0 < s" "s < 64" using assms by (cases x) auto
  have len: "length (rshVU_loop s s' y) = length y" for s' y by (induction y rule: induct_list012) auto
  then show ?thesis using rshVU_loop_val [OF s, of x] assms x s by (auto simp: rshVU_g_def Let_def)
qed

section \<open>Division by a word\<close>

lemma nlz_normal:
  assumes "y \<noteq> 0"
  shows "nlz y \<le> 63" "2 ^ 63 \<le> unat y * 2 ^ nlz y" "unat y < 2 ^ (64 - nlz y)"
    "unat (push_bit (nlz y) y) = unat y * 2 ^ nlz y"
proof -
  have nlz: "nlz y = LeadingZeros64 y" by (simp add: nlz_def LeadingZeros_def LeadingZeros64_def bits_Len_def)
  note n = LeadingZeros64_normal [OF assms, folded nlz]
  show "nlz y \<le> 63" "2 ^ 63 \<le> unat y * 2 ^ nlz y" "unat y < 2 ^ (64 - nlz y)" by (rule n)+
  have "unat y * 2 ^ nlz y < 2 ^ (64 - nlz y) * 2 ^ nlz y" using n(3) by simp
  also have "\<dots> = 2 ^ 64" using n(1) by (simp flip: power_add)
  finally show "unat (push_bit (nlz y) y) = unat y * 2 ^ nlz y"
    by (simp add: unat_push_bit_gen)
qed

lemma reciprocalWord_val:
  assumes "d1 \<noteq> 0"
  defines "d \<equiv> unat d1 * 2 ^ nlz d1"
  shows "\<exists>m. reciprocalWord d1 = Some (Inr m) \<and> unat m + B = (B * B - 1) div d"
proof -
  define u where "u = push_bit (nlz d1) d1"
  have "0 < unat d1" using assms(1) by (simp add: unat_gt_0)
  then have u: "unat u = d" "B \<le> 2 * d" "0 < d" "d < B"
    using nlz_normal [OF assms(1)] unat_less_B [of u] by (auto simp: u_def d_def B_def)
  have ones: "unat (NOT 0 :: Word) = B - 1" by (simp add: B_def unsigned_minus_1_eq_mask mask_eq_exp_minus_1)
  have nu: "unat (NOT u) = B - 1 - d"
  proof -
    have "NOT u = NOT 0 - u" by (simp add: not_eq_complement)
    then have "unat (NOT u) = unat (NOT 0 - u)" by (rule arg_cong)
    also have "\<dots> = B - 1 - d" using u ones unat_sub_cases [of "NOT 0" u] by simp
    finally show ?thesis .
  qed
  have lt: "NOT u < u" using u nu by (simp add: word_less_nat_alt)
  define R where "R = (B - 1 - d) * B + (B - 1)"
  have R: "R + d * B = B * B - 1"
  proof -
    obtain e where e: "B = Suc (d + e)" using u(4) less_imp_Suc_add by blast
    then have "B * B = d * B + B + e * B" by (metis add.assoc add.commute distrib_right mult_Suc)
    moreover have "B - 1 - d = e" "B - 1 = d + e" using e by simp_all
    then have "R = e * B + (d + e)" by (simp only: R_def)
    ultimately show ?thesis using e by simp
  qed
  have "R div d + B = (R + d * B) div d" using u(3) by (simp add: add.commute)
  then have div: "R div d + B = (B * B - 1) div d" by (simp only: R)
  have "R div d < B"
  proof -
    have "R < Suc (B - 1 - d) * B" unfolding R_def mult_Suc using B_pos(1) by linarith
    also have "\<dots> \<le> d * B" using u by (intro mult_le_mono1) linarith
    finally have "R < d * B" .
    then show ?thesis by (simp add: less_mult_imp_div_less mult.commute)
  qed
  then have "unat (word_of_nat (R div d) :: Word) = R div d" by (simp add: unsigned_of_nat take_bit_nat_eq_self B_def)
  moreover have "Div64 (NOT u) (NOT 0) u = Some (Inr (word_of_nat (R div d), word_of_nat (R mod d)))"
    using Div64_value [OF lt, of "NOT 0"] unfolding nu ones u(1) R_def B_def .
  ultimately show ?thesis using div by (simp add: reciprocalWord_def Let_def flip: u_def)
qed

text \<open>
  The quotient guessed from the reciprocal is at most the true one, and the remainder it leaves is
  less than \<open>B + d\<close>: two corrections are enough.
\<close>

lemma reciprocal_guess:
  fixes x0 x1 d v q :: nat
  assumes d: "0 < d" "d < B" and x: "x1 < d" "x0 < B" and v: "v = (B * B - 1) div d"
  defines "x \<equiv> x1 * B + x0" and "g \<equiv> (v * x1 + x0) div B"
  shows "d * g \<le> x" "x < d * g + B + d"
proof -
  define e where "e = (B * B - 1) mod d"
  have ve: "v * d + e = B * B - 1" "e < d" using d v by (simp_all add: e_def)
  have BB: "1 \<le> B * B" by (simp add: Suc_leI)
  have g: "g * B \<le> v * x1 + x0" "v * x1 + x0 < g * B + B"
    using dividend_less_div_times [OF B_pos(1), of "v * x1 + x0"] by (simp_all add: g_def)
  have vd: "v * d * x1 + (e + 1) * x1 = B * B * x1"
  proof -
    have "(v * d + (e + 1)) * x1 = B * B * x1" using ve(1) BB by simp
    then show ?thesis by (simp only: distrib_right)
  qed
  have dv: "d * (v * x1 + x0) = v * d * x1 + d * x0" and Bx: "B * x = B * B * x1 + B * x0"
    by (simp_all add: x_def algebra_simps)
  have "d * (g * B) \<le> d * (v * x1 + x0)" using g(1) by (rule mult_le_mono2)
  also have "\<dots> \<le> B * x"
  proof -
    have "d * x0 \<le> B * x0" using d by (intro mult_le_mono1) simp
    then show ?thesis using vd dv Bx by linarith
  qed
  finally have "B * (d * g) \<le> B * x" by (simp add: ac_simps)
  then show "d * g \<le> x" by simp
  have "(e + 1) * x1 \<le> d * d" using ve(2) x(1) by (intro mult_le_mono) simp_all
  moreover have "d * (v * x1 + x0) < d * (g * B + B)" using g(2) d by simp
  moreover have "(B - d) * x0 \<le> (B - d) * B" using x(2) by (intro mult_le_mono2) simp
  moreover have "B * x0 = (B - d) * x0 + d * x0" "B * B = (B - d) * B + d * B"
    using d by (simp_all flip: distrib_right)
  moreover have "d * (g * B + B) = B * (d * g) + d * B" by (simp add: algebra_simps)
  ultimately have "B * x < B * (d * g) + B * B + d * d" using vd dv Bx by linarith
  also have "\<dots> \<le> B * (d * g + B + d)" using d by (simp add: algebra_simps)
  finally show "x < d * g + B + d" by simp
qed

text \<open>The part of \<open>divWW\<close> after normalisation.\<close>

lemma divWW_core:
  assumes d: "B \<le> 2 * unat d" and x1: "x1 < d" and m: "unat m + B = (B * B - 1) div unat d"
    and t: "Mul64 m x1 = (t1, t0)" "Add64 t0 x0 0 = (t0', c)" "Add64 t1 x1 c = (qq, c')"
    and r: "Mul64 d qq = (dq1, dq0)" "Sub64 x0 dq0 0 = (r0, b)" "Sub64 x1 dq1 b = (r1, b')"
  shows "\<exists>q rr. (let (qq, r0) = (if r1 \<noteq> 0 then (qq + 1, r0 - d) else (qq, r0))
      in if r0 \<ge> d then (qq + 1, r0 - d) else (qq, r0)) = (q, rr) \<and>
    unat q * unat d + unat rr = unat x1 * B + unat x0 \<and> unat rr < unat d"
proof -
  define x v where "x = unat x1 * B + unat x0" and "v = unat m + B"
  define g where "g = (v * unat x1 + unat x0) div B"
  have d0: "0 < unat d" "unat d < B" "unat x1 < unat d" using d x1 by (auto simp: word_less_nat_alt)
  have guess: "unat d * g \<le> x" "x < unat d * g + B + unat d"
    using reciprocal_guess [OF d0(1,2) d0(3), of "unat x0" v] m by (simp_all add: x_def g_def v_def)
  have xd: "x < unat d * B"
  proof -
    have "x < Suc (unat x1) * B" by (simp add: x_def)
    also have "\<dots> \<le> unat d * B" using d0(3) by (intro mult_le_mono1) simp
    finally show ?thesis .
  qed
  have lt: "k < B" if "unat d * k \<le> x" for k
    using le_less_trans [OF that xd] by simp
  have qq: "unat qq = g"
  proof -
    have c: "unat c \<le> 1" "unat c * B + unat t0' = unat t0 + unat x0" using Add64_B [OF _ t(2)] by simp_all
    have q: "unat c' * B + unat qq = unat t1 + unat x1 + unat c" using Add64_B [OF c(1) t(3)] by simp
    have "v * unat x1 + unat x0 = (unat t1 + unat x1 + unat c) * B + unat t0'"
      using Mul64_B [OF t(1)] c(2) by (simp add: v_def algebra_simps)
    then have g: "g = unat c' * B + unat qq" by (simp add: g_def q)
    then have "unat c' * B < B" using lt [OF guess(1)] by linarith
    then show ?thesis using g by simp
  qed
  define R where "R = unat r1 * B + unat r0"
  have R: "R + unat d * g = x"
  proof -
    have b: "unat b \<le> 1" "unat r0 + unat dq0 = unat x0 + unat b * B" using Sub64_B [OF _ r(2)] by simp_all
    have "unat r1 + unat dq1 + unat b = unat x1 + unat b' * B" using Sub64_B [OF b(1) r(3)] by simp
    then have "(unat r1 + unat dq1 + unat b) * B = (unat x1 + unat b' * B) * B" by (rule arg_cong)
    then have e: "R + unat d * g = x + unat b' * (B * B)"
      using Mul64_B [OF r(1)] b(2) qq by (simp add: R_def x_def algebra_simps)
    have "R < B * B" unfolding R_def by (rule two_digits) simp_all
    then have "unat b' * (B * B) < B * B" using e guess(1) by linarith
    then show ?thesis using e by simp
  qed
  have Rd: "R < B + unat d" using R guess(2) by linarith
  define q1 \<rho> where "q1 = (if r1 \<noteq> 0 then qq + 1 else qq)" and "\<rho> = (if r1 \<noteq> 0 then r0 - d else r0)"
  have Suc_word: "unat (w + 1) = unat w + 1" if "unat d * (unat w + 1) \<le> x" for w :: Word
    using lt [OF that] unat_add_lt [of w 1] by (simp add: B_def)
  have 1: "unat d * unat q1 + unat \<rho> = x"
  proof (cases "r1 = 0")
    case True
    then show ?thesis using R qq by (simp add: q1_def \<rho>_def R_def)
  next
    case False
    have "unat r1 * B < 2 * B" using Rd d0(2) unfolding R_def by linarith
    then have r1: "unat r1 = 1" using False by (simp add: unat_eq_0 less_2_cases_iff)
    have "unat (r0 - d) = B + unat r0 - unat d"
      using unat_sub_cases [of r0 d] r1 Rd by (simp add: R_def B_def)
    moreover have "unat (qq + 1) = g + 1"
      using Suc_word [of qq] R qq r1 d0 by (simp add: R_def del: unat_less_B)
    ultimately show ?thesis using False R r1 d0 by (simp add: q1_def \<rho>_def R_def del: unat_less_B)
  qed
  have 2: "unat (q1 + 1) * unat d + unat (\<rho> - d) = x \<and> unat (\<rho> - d) < unat d" if "d \<le> \<rho>"
  proof -
    have le: "unat d \<le> unat \<rho>" using that by (simp add: word_le_nat_alt)
    then have "unat (\<rho> - d) = unat \<rho> - unat d" using unat_sub_cases [of \<rho> d] by simp
    moreover have "unat (q1 + 1) = unat q1 + 1" using 1 le by (intro Suc_word) simp
    ultimately show ?thesis using 1 le d unat_less_B [of \<rho>] by (simp add: algebra_simps del: unat_less_B)
  qed
  have "unat q1 * unat d + unat \<rho> = x \<and> unat \<rho> < unat d" if "\<not> d \<le> \<rho>"
    using 1 that by (simp add: word_le_nat_alt mult.commute)
  with 2 show ?thesis by (auto simp: q1_def \<rho>_def x_def)
qed

lemma divWW_val:
  assumes "x1 < y" and m: "reciprocalWord y = Some (Inr m)"
  shows "\<exists>q r. divWW x1 x0 y m = (q, r) \<and> unat q * unat y + unat r = unat x1 * B + unat x0 \<and> r < y"
proof -
  have "y \<noteq> 0" using assms(1) by auto
  note n = nlz_normal [OF this]
  define s where "s = nlz y"
  define u1 u0 d where "u1 = (if s \<noteq> 0 then push_bit s x1 OR drop_bit (64 - s) x0 else x1)"
    and "u0 = (if s \<noteq> 0 then push_bit s x0 else x0)" and "d = (if s \<noteq> 0 then push_bit s y else y)"
  have ud: "unat d = unat y * 2 ^ s" using n(4) by (simp add: d_def s_def)
  have x1y: "unat x1 < unat y" using assms(1) by (simp add: word_less_nat_alt)
  then have "unat x1 < 2 ^ (64 - s)" using n(3) by (simp add: s_def)
  then have u1: "unat u1 = unat x1 * 2 ^ s + unat x0 div 2 ^ (64 - s)"
    using unat_or_high_low [of x1 s x0] n(1) by (auto simp: u1_def s_def unsigned_less)
  have u0: "unat u0 = unat x0 * 2 ^ s mod 2 ^ 64" using unsigned_less [of x0, where 'a = nat] by (simp add: u0_def unat_push_bit_gen)
  have norm: "unat u1 * B + unat u0 = (unat x1 * B + unat x0) * 2 ^ s"
    using div64_normalize [of s "unat x0" "unat x1"] n(1) unat_less_B [of x0]
    unfolding u1 u0 B_def s_def by simp
  have u1d: "u1 < d"
  proof -
    have "unat u1 * B < unat d * B"
    proof -
      have "unat u1 * B \<le> (unat x1 * B + unat x0) * 2 ^ s" using norm by linarith
      also have "unat x1 * B + unat x0 < Suc (unat x1) * B" by simp
      then have "(unat x1 * B + unat x0) * 2 ^ s < Suc (unat x1) * B * 2 ^ s" by simp
      also have "\<dots> \<le> unat y * B * 2 ^ s" using x1y by (intro mult_le_mono1) simp
      finally show ?thesis by (simp add: ud ac_simps)
    qed
    then show ?thesis by (simp add: word_less_nat_alt)
  qed
  obtain m' where "reciprocalWord y = Some (Inr m')" "unat m' + B = (B * B - 1) div unat d"
    using reciprocalWord_val [OF \<open>y \<noteq> 0\<close>] ud by (auto simp: s_def)
  then have md: "unat m + B = (B * B - 1) div unat d" using m by simp
  have Bd: "B \<le> 2 * unat d" using n(2) by (simp add: ud B_def s_def)
  obtain t1 t0 where 1: "Mul64 m u1 = (t1, t0)" by fastforce
  obtain t0' c where 2: "Add64 t0 u0 0 = (t0', c)" by fastforce
  obtain qq c' where 3: "Add64 t1 u1 c = (qq, c')" by fastforce
  obtain dq1 dq0 where 4: "Mul64 d qq = (dq1, dq0)" by fastforce
  obtain r0 b where 5: "Sub64 u0 dq0 0 = (r0, b)" by fastforce
  obtain r1 b' where 6: "Sub64 u1 dq1 b = (r1, b')" by fastforce
  from divWW_core [OF Bd u1d md 1 2 3 4 5 6] obtain q rr where
    q: "(let (qq, r0) = (if r1 \<noteq> 0 then (qq + 1, r0 - d) else (qq, r0))
      in if r0 \<ge> d then (qq + 1, r0 - d) else (qq, r0)) = (q, rr)"
      "unat q * unat d + unat rr = unat u1 * B + unat u0" "unat rr < unat d" by blast
  have "(if s \<noteq> 0 then (push_bit s x1 OR drop_bit (W_bits - s) x0, push_bit s x0, push_bit s y)
      else (x1, x0, y)) = (u1, u0, d)" by (simp add: u1_def u0_def d_def)
  then have div: "divWW x1 x0 y m = (q, drop_bit s rr)"
    using 1 2 3 4 5 6 q(1) unfolding divWW_def s_def [symmetric] by (cases "r1 = 0") (simp_all add: Let_def split: if_splits)
  have e: "unat rr = (unat x1 * B + unat x0 - unat q * unat y) * 2 ^ s"
    using q(2) norm ud by (simp add: diff_mult_distrib mult.assoc [symmetric])
  then have "unat (drop_bit s rr) = unat x1 * B + unat x0 - unat q * unat y" by (simp add: unat_drop_bit)
  moreover have "unat q * unat y \<le> unat x1 * B + unat x0"
  proof -
    have "unat q * unat y * 2 ^ s \<le> (unat x1 * B + unat x0) * 2 ^ s"
      using q(2) mult.assoc [of "unat q" "unat y" "2 ^ s"] unfolding norm ud by linarith
    then show ?thesis by simp
  qed
  moreover have "unat (drop_bit s rr) < unat y" using q(3) e ud calculation(1) by simp
  ultimately show ?thesis using div by (auto simp: word_less_nat_alt)
qed

end
