(* ===== verification/Big_Nat_Correct.thy ===== *)
theory Big_Nat_Correct
  imports Big_Nat Big_Correct
begin

text \<open>
  The operations on numbers of any size are exact: addition, subtraction, comparison,
  multiplication by Karatsuba's method, shifts, bit operations and division by a word, on the
  values of the word sequences, with normalised results.
\<close>

section \<open>Normal form\<close>

definition normal :: "Word list \<Rightarrow> bool" where
  "normal x \<longleftrightarrow> x = [] \<or> last x \<noteq> 0"

lemma normal_Nil [simp]: "normal []"
  by (simp add: normal_def)

lemma nat_norm_split: "\<exists>k. z = nat_norm z @ replicate k 0"
proof -
  define k where "k = length (takeWhile (\<lambda>w. w = 0) (rev z))"
  have "takeWhile (\<lambda>w. w = 0) (rev z) = replicate k 0"
    unfolding k_def by (metis (full_types) replicate_length_same set_takeWhileD)
  then have "rev z = replicate k 0 @ dropWhile (\<lambda>w. w = 0) (rev z)"
    by (metis takeWhile_dropWhile_id)
  then have "z = nat_norm z @ replicate k 0"
    unfolding nat_norm_def by (metis rev_append rev_replicate rev_rev_ident)
  then show ?thesis by blast
qed

lemma val_nat_norm [simp]: "val (nat_norm z) = val z"
proof -
  obtain k where "z = nat_norm z @ replicate k 0" using nat_norm_split by blast
  then have "val z = val (nat_norm z @ replicate k 0)" by simp
  then show ?thesis by (simp add: val_append)
qed

lemma normal_nat_norm [simp]: "normal (nat_norm z)"
  unfolding normal_def nat_norm_def by (metis (full_types) hd_dropWhile last_rev rev_is_Nil_conv)

lemma val_0_iff: "val x = 0 \<longleftrightarrow> (\<forall>w\<in>set x. w = 0)"
  by (induction x) (auto simp: unat_eq_0)

lemma val_last_ge: "x \<noteq> [] \<Longrightarrow> unat (last x) * B ^ (length x - 1) \<le> val x"
proof -
  assume "x \<noteq> []"
  then have "val x = val (butlast x @ [last x])" by simp
  then show ?thesis by (simp add: val_append)
qed

lemma normal_val_ge: "normal x \<Longrightarrow> x \<noteq> [] \<Longrightarrow> B ^ (length x - 1) \<le> val x"
proof -
  assume x: "normal x" "x \<noteq> []"
  then have "1 \<le> unat (last x)" by (simp add: normal_def Suc_leI unat_gt_0)
  then have "1 * B ^ (length x - 1) \<le> unat (last x) * B ^ (length x - 1)" by (rule mult_le_mono1)
  then show ?thesis using val_last_ge [OF x(2)] by linarith
qed

lemma normal_val_0: "normal x \<Longrightarrow> val x = 0 \<longleftrightarrow> x = []"
  using normal_val_ge [of x] B_pos(1) by (cases "x = []") (auto simp: Suc_le_eq dest: less_le_trans [rotated, of "B ^ _" "val x" 0])

lemma normal_length_less:
  assumes "normal y" "length x < length y"
  shows "val x < val y"
proof -
  have "val x < B ^ length x" by (rule val_less)
  also have "\<dots> \<le> B ^ (length y - 1)" using assms(2) by (intro power_increasing) auto
  also have "\<dots> \<le> val y" using assms by (intro normal_val_ge) auto
  finally show ?thesis .
qed

lemma normal_length_le: "normal x \<Longrightarrow> val x < B ^ n \<Longrightarrow> length x \<le> n"
proof (rule ccontr)
  assume x: "normal x" "val x < B ^ n" "\<not> length x \<le> n"
  then have "B ^ n \<le> B ^ (length x - 1)" by (intro power_increasing) auto
  also have "\<dots> \<le> val x" using x by (intro normal_val_ge) auto
  finally show False using x by simp
qed

lemma val_inject: "length x = length y \<Longrightarrow> val x = val y \<Longrightarrow> x = y"
proof (induction x y rule: list_induct2)
  case (Cons a x b y)
  have "unat a mod B = unat b mod B" using Cons.prems by (metis mod_mult_self2 val.simps(2))
  then have "unat a = unat b" by simp
  then show ?case using Cons by (simp add: word_unat_eq_iff)
qed simp

lemma normal_val_inject: "normal x \<Longrightarrow> normal y \<Longrightarrow> val x = val y \<Longrightarrow> x = y"
  by (metis linorder_neqE_nat nat_neq_iff normal_length_less val_inject)

section \<open>Addition, subtraction, comparison\<close>

lemma val_take_drop: "val (take n x) + B ^ min n (length x) * val (drop n x) = val x"
  using val_append [of "take n x" "drop n x"] by (simp add: min.commute)

lemma nat_add_le_val:
  assumes "length y \<le> length x"
  shows "\<exists>z. nat_add_le x y = Inr z \<and> val z = val x + val y \<and> (normal x \<longrightarrow> normal z)"
proof (cases "x = [] \<or> y = []")
  case True
  then show ?thesis using assms by (auto simp: nat_add_le_def Let_def)
next
  case False
  define n m where "n = length y" and "m = length x"
  obtain z c where a: "addVV_loop (take n x) y 0 = (z, c)" by fastforce
  have z: "val z + unat c * B ^ n = val (take n x) + val y" "length z = n" "unat c \<le> 1"
    using addVV_loop_val [OF _ _ a] assms by (simp_all add: n_def)
  obtain z' c' where b: "addVW_ref (drop n x) c = (z', c')" by fastforce
  have z': "val z' + unat c' * B ^ (m - n) = val (drop n x) + unat c" "length z' = m - n"
    using addVW_ref_val [OF b] by (simp_all add: m_def)
  have "(if m > n then addVW (m - n) (drop n x) c else Inr ([], c)) = Inr (z', c')"
    using b by (auto simp: addVW_eq_ref m_def)
  then have r: "nat_add_le x y = Inr (nat_norm (z @ z' @ [c']))"
    using False a assms unfolding n_def m_def by (simp add: nat_add_le_def Let_def addVV_g_def del: if_split)
  have mn: "B ^ n * B ^ (m - n) = B ^ m" using assms by (simp add: n_def m_def flip: power_add)
  have "val (z @ z' @ [c']) = val z + B ^ n * (val z' + unat c' * B ^ (m - n))"
    using z(2) z'(2) by (simp add: val_append mult.commute)
  also have "\<dots> = val z + unat c * B ^ n + B ^ n * val (drop n x)"
    unfolding z'(1) by (simp add: algebra_simps)
  also have "\<dots> = val x + val y"
    using z(1) val_take_drop [of n x] assms by (simp add: n_def min_def split: if_splits)
  finally show ?thesis using r by simp
qed

lemma nat_add_val: "\<exists>z. nat_add x y = Inr z \<and> val z = val x + val y \<and> (normal x \<and> normal y \<longrightarrow> normal z)"
  using nat_add_le_val [of x y] nat_add_le_val [of y x] by (auto simp: nat_add_def add.commute)

lemma borrow_decides:
  fixes v x y c b :: nat
  assumes "v + y = x + c * b" "v < b"
  shows "(c = 0 \<longleftrightarrow> \<not> x < y) \<and> (c = 0 \<longrightarrow> v = x - y)"
  using assms by (cases c) auto

lemma nat_sub_val:
  assumes "length y \<le> length x" "normal x"
  shows "if val x < val y then nat_sub x y = Inl (PanicMsg ''underflow'')
    else \<exists>z. nat_sub x y = Inr z \<and> val z = val x - val y \<and> normal z"
proof (cases "x = [] \<or> y = []")
  case True
  then show ?thesis using assms by (auto simp: nat_sub_def Let_def)
next
  case False
  define n m where "n = length y" and "m = length x"
  obtain z c where a: "subVV_loop (take n x) y 0 = (z, c)" by fastforce
  have z: "val z + val y = val (take n x) + unat c * B ^ n" "length z = n" "unat c \<le> 1"
    using subVV_loop_val [OF _ _ a] assms by (simp_all add: n_def)
  obtain z' c' where b: "subVW_ref (drop n x) c = (z', c')" by fastforce
  have z': "val z' + unat c = val (drop n x) + unat c' * B ^ (m - n)" "length z' = m - n"
    using subVW_ref_val [OF b] by (simp_all add: m_def)
  have "(if m > n then subVW (m - n) (drop n x) c else Inr ([], c)) = Inr (z', c')"
    using b by (auto simp: subVW_eq_ref m_def)
  then have r: "nat_sub x y = (if c' \<noteq> 0 then Inl (PanicMsg ''underflow'') else Inr (nat_norm (z @ z')))"
    using False a assms unfolding n_def m_def by (simp add: nat_sub_def Let_def subVV_g_def del: if_split)
  have mn: "B ^ n * B ^ (m - n) = B ^ m" using assms by (simp add: n_def m_def flip: power_add)
  have "B ^ n * (val z' + unat c) = B ^ n * (val (drop n x) + unat c' * B ^ (m - n))" using z'(1) by simp
  then have "val (z @ z') + val y = val x + unat c' * B ^ m"
    using z(1,2) val_take_drop [of n x] assms mn
    by (simp add: val_append n_def min_def algebra_simps split: if_splits)
  moreover have "val (z @ z') < B ^ m" using val_less [of "z @ z'"] z(2) z'(2) assms by (simp add: n_def m_def)
  ultimately have "unat c' = 0 \<longleftrightarrow> \<not> val x < val y" "unat c' = 0 \<Longrightarrow> val (z @ z') = val x - val y"
    using borrow_decides by blast+
  then have "c' = 0 \<longleftrightarrow> \<not> val x < val y" "c' = 0 \<Longrightarrow> val (z @ z') = val x - val y"
    unfolding unat_eq_0 by blast+
  then show ?thesis using r by auto
qed

lemma nat_sub_eq:
  assumes "normal x" "normal y"
  shows "if val x < val y then nat_sub x y = Inl (PanicMsg ''underflow'')
    else \<exists>z. nat_sub x y = Inr z \<and> val z = val x - val y \<and> normal z"
proof (cases "length y \<le> length x")
  case True
  then show ?thesis using nat_sub_val assms by blast
next
  case False
  then show ?thesis using normal_length_less [of y x] assms by (simp add: nat_sub_def)
qed

lemma cmp_top_spec:
  "i < length x \<Longrightarrow> length x = length y \<Longrightarrow> drop (Suc i) x = drop (Suc i) y \<Longrightarrow>
     (let k = cmp_top x y i in k \<le> i \<and> drop (Suc k) x = drop (Suc k) y \<and> (k = 0 \<or> x ! k \<noteq> y ! k))"
proof (induction i)
  case (Suc i)
  have "drop (Suc i) x = drop (Suc i) y" if "x ! Suc i = y ! Suc i"
    using Suc.prems that by (metis Cons_nth_drop_Suc)
  then show ?case using Suc by (subst cmp_top.simps) (auto simp: Let_def cmp_top.simps [of x y "Suc i"])
qed (simp add: cmp_top.simps Let_def)

lemma val_top_digit:
  assumes "k < length x" "length x = length y" "drop (Suc k) x = drop (Suc k) y" "x ! k < y ! k"
  shows "val x < val y"
proof -
  have x: "x = take k x @ x ! k # drop (Suc k) x" and y: "y = take k y @ y ! k # drop (Suc k) y"
    using assms(1,2) by (simp_all only: id_take_nth_drop [symmetric])
  have "val (take k x) + B ^ k * unat (x ! k) < B ^ k * unat (y ! k)"
  proof -
    have "val (take k x) < B ^ k" using val_less [of "take k x"] assms(1) by simp
    then have "val (take k x) + B ^ k * unat (x ! k) < B ^ k * (unat (x ! k) + 1)" by simp
    also have "\<dots> \<le> B ^ k * unat (y ! k)" using assms(4) by (intro mult_le_mono2) (simp add: word_less_nat_alt)
    finally show ?thesis .
  qed
  moreover have "val x = val (take k x) + B ^ k * unat (x ! k) + B ^ k * (B * val (drop (Suc k) x))"
    "val y = val (take k y) + B ^ k * unat (y ! k) + B ^ k * (B * val (drop (Suc k) y))"
    using assms(1,2) by (subst x y; simp add: val_append distrib_left)+
  ultimately show ?thesis using assms(3) by simp
qed

text \<open>The comparison only needs the longer of two sequences to be normalised.\<close>

lemma nat_cmp_longer:
  assumes "length y < length x \<Longrightarrow> normal x" "length x < length y \<Longrightarrow> normal y"
  shows "nat_cmp x y = sgn (int (val x) - int (val y))"
proof -
  consider "length x < length y" | "length y < length x" | "x = []" "y = []" | "length x = length y" "x \<noteq> []"
    by fastforce
  then show ?thesis
  proof cases
    case 1
    with normal_length_less [OF assms(2) [OF 1] 1] show ?thesis by (simp add: nat_cmp_def)
  next
    case 2
    with normal_length_less [OF assms(1) [OF 2] 2] show ?thesis by (simp add: nat_cmp_def)
  next
    case 3
    then show ?thesis by (simp add: nat_cmp_def)
  next
    case 4
    define k where "k = cmp_top x y (length x - 1)"
    have k: "k < length x" "drop (Suc k) x = drop (Suc k) y" "k = 0 \<or> x ! k \<noteq> y ! k"
    proof -
      have "length x - 1 < length x" using 4(2) by (cases x) simp_all
      moreover have "drop (Suc (length x - 1)) x = drop (Suc (length x - 1)) y" using 4 by simp
      ultimately show "k < length x" "drop (Suc k) x = drop (Suc k) y" "k = 0 \<or> x ! k \<noteq> y ! k"
        using cmp_top_spec [of "length x - 1" x y] 4(1) by (simp_all add: k_def Let_def le_less_trans)
    qed
    have c: "nat_cmp x y = (if x ! k < y ! k then -1 else if x ! k > y ! k then 1 else 0)"
    proof -
      have "(length x \<noteq> length y \<or> length x = 0) = False" using 4 by auto
      then show ?thesis unfolding nat_cmp_def Let_def k_def by (simp only: if_False)
    qed
    consider "x ! k < y ! k" | "y ! k < x ! k" | "x ! k = y ! k" by fastforce
    then show ?thesis
    proof cases
      case 1
      then have "val x < val y" by (rule val_top_digit [OF k(1) 4(1) k(2)])
      then show ?thesis using c 1 by simp
    next
      case 2
      have "val y < val x" by (rule val_top_digit [OF _ 4(1) [symmetric] k(2) [symmetric] 2]) (use k(1) 4(1) in simp)
      then show ?thesis using c 2 by simp
    next
      case 3
      then have "x = y" using k 4 by (metis Cons_nth_drop_Suc drop0 length_greater_0_conv)
      then show ?thesis using c by simp
    qed
  qed
qed

lemma nat_cmp_val: "normal x \<Longrightarrow> normal y \<Longrightarrow> nat_cmp x y = sgn (int (val x) - int (val y))"
  by (rule nat_cmp_longer)

section \<open>Signed integers\<close>

definition ival :: "BigInt \<Rightarrow> int" where
  "ival x = (if ineg x then - int (val (iabs x)) else int (val (iabs x)))"

definition Int_ok :: "BigInt \<Rightarrow> bool" where
  "Int_ok x \<longleftrightarrow> normal (iabs x) \<and> (ineg x \<longrightarrow> iabs x \<noteq> [])"

text \<open>The result of an operation: no panic, a normalised integer, and its value.\<close>

definition int_result :: "BigInt go \<Rightarrow> int \<Rightarrow> bool" where
  "int_result r v \<longleftrightarrow> (\<exists>z. r = Inr z \<and> Int_ok z \<and> ival z = v)"

lemma signed_result:
  assumes "normal z"
  shows "int_result (Inr \<lparr>ineg = length z > 0 \<and> s, iabs = z\<rparr>) (if s then - int (val z) else int (val z))"
  using assms by (auto simp: int_result_def Int_ok_def ival_def)

lemma Int_addsub_val:
  assumes "normal a" "normal b"
  shows "int_result
    (bind_go
       (if same then map_sum id (\<lambda>z. (z, s)) (nat_add a b)
        else if nat_cmp a b \<ge> 0 then map_sum id (\<lambda>z. (z, s)) (nat_sub a b)
        else map_sum id (\<lambda>z. (z, \<not> s)) (nat_sub b a))
       (\<lambda>(z, s). Inr \<lparr>ineg = length z > 0 \<and> s, iabs = z\<rparr>))
    ((if s then -1 else 1) * (int (val a) + (if same then 1 else -1) * int (val b)))"
proof -
  obtain z where z: "nat_add a b = Inr z" "val z = val a + val b" "normal z" using nat_add_val assms by blast
  have cmp: "nat_cmp a b \<ge> 0 \<longleftrightarrow> \<not> val a < val b" using nat_cmp_val [OF assms] by (auto simp: sgn_if)
  show ?thesis
  proof (cases "same")
    case True
    then show ?thesis using z signed_result [OF z(3), of s] by (auto split: if_splits)
  next
    case diff: False
    show ?thesis
    proof (cases "val a < val b")
      case True
      then obtain w where "nat_sub b a = Inr w" "val w = val b - val a" "normal w"
        using nat_sub_eq [OF assms(2,1)] by auto
      then show ?thesis using diff True cmp signed_result [of w "\<not> s"] by (auto simp: of_nat_diff split: if_splits)
    next
      case False
      then obtain w where "nat_sub a b = Inr w" "val w = val a - val b" "normal w"
        using nat_sub_eq [OF assms] by auto
      then show ?thesis using diff False cmp signed_result [of w s] by (auto simp: of_nat_diff split: if_splits)
    qed
  qed
qed

lemma Int_Add_val: "Int_ok x \<Longrightarrow> Int_ok y \<Longrightarrow> int_result (Int_Add x y) (ival x + ival y)"
  using Int_addsub_val [of "iabs x" "iabs y" "ineg x = ineg y" "ineg x"]
  by (auto simp: Int_Add_def Int_ok_def ival_def algebra_simps split: if_splits)

lemma Int_Sub_val: "Int_ok x \<Longrightarrow> Int_ok y \<Longrightarrow> int_result (Int_Sub x y) (ival x - ival y)"
  using Int_addsub_val [of "iabs x" "iabs y" "ineg x \<noteq> ineg y" "ineg x"]
  by (auto simp: Int_Sub_def Int_ok_def ival_def algebra_simps split: if_splits)

section \<open>Multiplication\<close>

lemma normal_setWord [simp]: "normal (setWord w)" "val (setWord w) = unat w"
  by (simp_all add: setWord_def normal_def)

lemma mulAddWW_val: "\<exists>z. mulAddWW x y c = Inr z \<and> val z = val x * unat y + unat c \<and> normal z"
proof (cases "x = [] \<or> y = 0")
  case True
  then show ?thesis by (auto simp: mulAddWW_def)
next
  case False
  obtain z d where m: "mulAddVWW_loop x y c = (z, d)" by fastforce
  from mulAddVWW_loop_val [OF m] False m show ?thesis
    by (auto simp: mulAddWW_def Let_def mulAddVWW_g_def val_append mult.commute)
qed

lemma val_take_eq: "val (take k z) = val z mod B ^ k"
proof (cases "k \<le> length z")
  case True
  then have "val z = val (take k z) + B ^ k * val (drop k z)" using val_take_drop [of k z] by (simp add: min_def)
  then show ?thesis using val_less [of "take k z"] True by simp
next
  case False
  then have "val z < B ^ k" using val_less [of z] power_increasing [of "length z" k B] by simp
  then show ?thesis using False by simp
qed

lemma val_drop_eq: "val (drop k z) = val z div B ^ k"
proof (cases "k \<le> length z")
  case True
  then have "val z = val (take k z) + B ^ k * val (drop k z)" using val_take_drop [of k z] by (simp add: min_def)
  then show ?thesis using val_less [of "take k z"] True by simp
next
  case False
  then have "val z < B ^ k" using val_less [of z] power_increasing [of "length z" k B] by simp
  then show ?thesis using False by simp
qed

lemma basicMul_step:
  assumes "length z = length x + i + Suc k" "val z < B ^ (length x + i)"
  obtains s c where "addMulVVWW_g (length x) (take (length x) (drop i z)) x d 0 = Inr (s, c)"
    "val (take i z @ s @ [c] @ drop (length x + i + 1) z) = val z + B ^ i * (val x * unat d)"
    "length (take i z @ s @ [c] @ drop (length x + i + 1) z) = length z"
    "val (take i z @ s @ [c] @ drop (length x + i + 1) z) < B ^ (length x + (i + 1))"
proof -
  define n where "n = length x"
  let ?s0 = "take n (drop i z)"
  obtain s c where a: "addMulVVWW_loop ?s0 x d 0 = (s, c)" by fastforce
  have s: "val s + unat c * B ^ n = val ?s0 + val x * unat d" "length s = n"
    using addMulVVWW_loop_val [OF _ a] assms(1) by (simp_all add: n_def)
  have hi: "val (drop (n + i) z) = 0" using assms(2) by (simp add: val_drop_eq n_def)
  moreover have "val (drop (n + i + 1) z) = val (drop (n + i) z) div B"
    using val_drop_eq [of 1 "drop (n + i) z"] by simp
  ultimately have hi: "val (drop (n + i) z) = 0" "val (drop (n + i + 1) z) = 0" by simp_all
  have "take i z @ ?s0 @ drop (n + i) z = z" by (metis add.commute append_take_drop_id drop_drop)
  then have "val z = val (take i z @ ?s0 @ drop (n + i) z)" by (simp only:)
  then have z: "val z = val (take i z) + B ^ i * val ?s0"
    using hi(1) assms(1) by (simp add: val_append)
  have "val (take i z @ s @ [c] @ drop (n + i + 1) z) = val (take i z) + B ^ i * (val s + unat c * B ^ n)"
    using s(2) hi(2) assms(1) by (simp add: val_append mult.commute)
  then have v: "val (take i z @ s @ [c] @ drop (n + i + 1) z) = val z + B ^ i * (val x * unat d)"
    unfolding s(1) z by (simp only: distrib_left add.assoc)
  have "val (take i z @ s @ [c]) < B ^ (n + (i + 1))"
    using val_less [of "take i z @ s @ [c]"] s(2) assms(1) by (simp add: n_def add.commute add.left_commute)
  moreover have "val (take i z @ s @ [c] @ drop (n + i + 1) z) = val (take i z @ s @ [c])"
    using hi(2) by (simp add: val_append)
  ultimately show ?thesis
    using that [of s c] a v s(2) assms(1) by (simp add: addMulVVWW_g_def n_def)
qed

lemma basicMul_loop_val:
  "length z = length x + i + length y \<Longrightarrow> val z < B ^ (length x + i) \<Longrightarrow>
     \<exists>z'. basicMul_loop x y i z = Inr z' \<and> val z' = val z + B ^ i * (val x * val y) \<and> length z' = length z"
proof (induction x y i z rule: basicMul_loop.induct)
  case (2 x d y i z)
  show ?case
  proof (cases "d = 0")
    case True
    have "val z < B ^ (length x + (i + 1))"
      using less_le_trans [OF 2(4) power_increasing [of "length x + i" "length x + (i + 1)" B]] by simp
    then show ?thesis using 2(2) [of ] 2(3) True by (simp add: algebra_simps)
  next
    case False
    obtain s c where s: "addMulVVWW_g (length x) (take (length x) (drop i z)) x d 0 = Inr (s, c)"
      "val (take i z @ s @ [c] @ drop (length x + i + 1) z) = val z + B ^ i * (val x * unat d)"
      "length (take i z @ s @ [c] @ drop (length x + i + 1) z) = length z"
      "val (take i z @ s @ [c] @ drop (length x + i + 1) z) < B ^ (length x + (i + 1))"
      using basicMul_step [of z x i "length y" d] 2(3,4) by auto
    have "length (take i z @ s @ [c] @ drop (length x + i + 1) z) = length x + (i + 1) + length y"
      using s(3) 2(3) by simp
    from 2(1) [OF False refl refl s(1) refl this s(4)] obtain z' where
      "basicMul_loop x y (i + 1) (take i z @ s @ [c] @ drop (length x + i + 1) z) = Inr z'"
      "val z' = val z + B ^ i * (val x * unat d) + B ^ (i + 1) * (val x * val y)" "length z' = length z"
      unfolding s(2,3) by blast
    then show ?thesis using False s(1) by (auto simp: Let_def algebra_simps)
  qed
qed simp

lemma basicMul_val: "\<exists>z. basicMul x y = Inr z \<and> val z = val x * val y \<and> length z = length x + length y"
  using basicMul_loop_val [of "replicate (length x + length y) 0" x 0 y] by (simp add: basicMul_def)

lemma addTo_val:
  assumes "length x \<le> length z" "val z + val x < B ^ length z"
  shows "\<exists>z'. addTo z x = Inr z' \<and> val z' = val z + val x \<and> length z' = length z"
proof (cases "x = []")
  case False
  define n m where "n = length x" and "m = length z"
  obtain z1 c where a: "addVV_loop (take n z) x 0 = (z1, c)" by fastforce
  have z1: "val z1 + unat c * B ^ n = val (take n z) + val x" "length z1 = n" "unat c \<le> 1"
    using addVV_loop_val [OF _ _ a] assms by (simp_all add: n_def)
  obtain z2 c' where b: "addVW_ref (drop n z) c = (z2, c')" by fastforce
  have z2: "val z2 + unat c' * B ^ (m - n) = val (drop n z) + unat c" "length z2 = m - n"
    using addVW_ref_val [OF b] by (simp_all add: m_def)
  have mn: "B ^ n * B ^ (m - n) = B ^ m" using assms by (simp add: n_def m_def flip: power_add)
  have sum: "val (z1 @ z2) + unat c' * B ^ m = val z + val x"
  proof -
    have "B ^ n * (val z2 + unat c' * B ^ (m - n)) = B ^ n * (val (drop n z) + unat c)" using z2(1) by simp
    then show ?thesis using z1(1,2) mn val_take_drop [of n z] assms(1)
      by (simp add: val_append n_def min_def algebra_simps split: if_splits)
  qed
  then have "unat c' * B ^ m < 1 * B ^ m" using assms(2) unfolding m_def by linarith
  then have c': "unat c' = 0" by (simp only: mult_less_cancel2) simp
  have "addTo z x = Inr (z1 @ z2)"
  proof (cases "c \<noteq> 0 \<and> n < m")
    case True
    then show ?thesis using a b False assms(1)
      by (simp add: addTo_def Let_def addVV_g_def n_def m_def addVW_eq_ref)
  next
    case False
    then have "z2 = drop n z" using b addVW_ref_0 by (auto simp: n_def m_def)
    then show ?thesis using a False \<open>x \<noteq> []\<close> assms(1)
      by (auto simp: addTo_def Let_def addVV_g_def n_def m_def)
  qed
  then show ?thesis using sum c' z1(2) z2(2) assms(1) by (simp add: n_def m_def)
qed (simp add: addTo_def)

lemma pad_val [simp]: "val (pad n x) = val x" "length x \<le> n \<Longrightarrow> length (pad n x) = n"
  by (simp_all add: pad_def val_append)

lemma karatsuba_identity:
  fixes x0 x1 y0 y1 :: int
  shows "(x0 - x1) * (y1 - y0) + x0 * y0 + x1 * y1 = x0 * y1 + x1 * y0"
  by (simp add: algebra_simps)

text \<open>The sum of the carry-free part and one more product fits.\<close>

lemma accumulate_fits:
  fixes a p y :: nat
  assumes "a < B ^ n" "p < B ^ k" "y < B ^ n"
  shows "a + p * y < B ^ (k + n)"
proof -
  have "p * y \<le> (B ^ k - 1) * B ^ n" using assms by (intro mult_le_mono) simp_all
  then have "a + p * y < B ^ n + (B ^ k - 1) * B ^ n" using assms(1) by linarith
  also have "\<dots> = Suc (B ^ k - 1) * B ^ n" by (simp only: mult_Suc)
  also have "Suc (B ^ k - 1) = B ^ k" by simp
  finally show ?thesis by (simp add: power_add)
qed

definition mul_result :: "Word list go \<Rightarrow> nat \<Rightarrow> bool" where
  "mul_result r v \<longleftrightarrow> (\<exists>z. r = Inr z \<and> val z = v \<and> normal z)"

lemma ival_nonneg: "ival z = int k \<Longrightarrow> val (iabs z) = k"
  by (cases "ineg z") (auto simp: ival_def)

lemma karatsuba_combine:
  assumes n: "length x = n" "length y = n" "40 \<le> n"
    and x0: "x0 = \<lparr>ineg = False, iabs = nat_norm (take n2 x)\<rparr>" and x1: "x1 = \<lparr>ineg = False, iabs = nat_norm (drop n2 x)\<rparr>"
    and y0: "y0 = \<lparr>ineg = False, iabs = nat_norm (take n2 y)\<rparr>" and y1: "y1 = \<lparr>ineg = False, iabs = nat_norm (drop n2 y)\<rparr>"
    and n2: "n2 = (n + 1) div 2"
    and z1: "Int_ok z1" "ival z1 = (ival x0 - ival x1) * (ival y1 - ival y0) + ival x0 * ival y0 + ival x1 * ival y1"
    and z0: "Int_ok z0" "ival z0 = ival x0 * ival y0" and z2: "Int_ok z2" "ival z2 = ival x1 * ival y1"
  defines "z \<equiv> pad (2 * n2) (iabs z0) @ pad (2 * n - 2 * n2) (iabs z2)"
  shows "\<exists>t. addTo (drop n2 z) (iabs z1) = Inr t \<and> val (take n2 z @ t) = val x * val y \<and> length (take n2 z @ t) = 2 * n"
proof -
  let ?X0 = "val (take n2 x)" and ?X1 = "val (drop n2 x)" and ?Y0 = "val (take n2 y)" and ?Y1 = "val (drop n2 y)"
  have le: "n2 \<le> n" "n2 < n" "n \<le> 2 * n2" using n n2 by auto
  have X: "val x = ?X0 + B ^ n2 * ?X1" and Y: "val y = ?Y0 + B ^ n2 * ?Y1"
    using val_take_drop [of n2 x] val_take_drop [of n2 y] n le by (simp_all add: min_def)
  have iv: "ival x0 = int ?X0" "ival x1 = int ?X1" "ival y0 = int ?Y0" "ival y1 = int ?Y1"
    by (simp_all add: x0 x1 y0 y1 ival_def)
  have "ival z1 = int (?X0 * ?Y1 + ?X1 * ?Y0)" "ival z0 = int (?X0 * ?Y0)" "ival z2 = int (?X1 * ?Y1)"
    using z0 z1 z2 by (simp_all only: iv karatsuba_identity) simp_all
  then have v: "val (iabs z1) = ?X0 * ?Y1 + ?X1 * ?Y0" "val (iabs z0) = ?X0 * ?Y0" "val (iabs z2) = ?X1 * ?Y1"
    using ival_nonneg by blast+
  have lt: "?X0 < B ^ n2" "?Y0 < B ^ n2" "?X1 < B ^ (n - n2)" "?Y1 < B ^ (n - n2)"
    using val_less [of "take n2 x"] val_less [of "take n2 y"] val_less [of "drop n2 x"] val_less [of "drop n2 y"] n le
    by (simp_all add: min_def)
  have len: "length (iabs z0) \<le> 2 * n2" "length (iabs z2) \<le> 2 * n - 2 * n2"
  proof -
    have "?X0 * ?Y0 < B ^ n2 * B ^ n2" "?X1 * ?Y1 < B ^ (n - n2) * B ^ (n - n2)"
      using lt by (intro mult_strict_mono'; simp)+
    then have "val (iabs z0) < B ^ (2 * n2)" "val (iabs z2) < B ^ (2 * n - 2 * n2)"
      using v le by (simp_all add: mult_2 diff_mult_distrib2 flip: power_add)
    then show "length (iabs z0) \<le> 2 * n2" "length (iabs z2) \<le> 2 * n - 2 * n2"
      using z0(1) z2(1) by (auto simp: Int_ok_def intro: normal_length_le)
  qed
  then have zl: "length z = 2 * n" using le by (simp add: z_def)
  have zv: "val z = ?X0 * ?Y0 + B ^ n2 * (B ^ n2 * (?X1 * ?Y1))"
    using len(1) v by (simp add: z_def val_append mult_2 power_add)
  have split: "val z = val (take n2 z) + B ^ n2 * val (drop n2 z)"
    using val_take_drop [of n2 z] zl le by (simp add: min_def split: if_splits)
  have prod: "val (take n2 z) + B ^ n2 * (val (drop n2 z) + val (iabs z1)) = val x * val y"
    using zv split unfolding X Y v by (simp add: algebra_simps)
  have "B ^ n2 * (val (drop n2 z) + val (iabs z1)) < B ^ n2 * B ^ (2 * n - n2)"
  proof -
    have "val x * val y < B ^ n * B ^ n" using val_less [of x] val_less [of y] n by (intro mult_strict_mono') simp_all
    also have "\<dots> = B ^ n2 * B ^ (2 * n - n2)" using le by (simp add: mult_2 flip: power_add)
    finally show ?thesis using prod by linarith
  qed
  then have fit: "val (drop n2 z) + val (iabs z1) < B ^ (2 * n - n2)" by simp
  then have "length (iabs z1) \<le> length (drop n2 z)"
    using z1(1) zl normal_length_le [of "iabs z1" "2 * n - n2"] by (simp add: Int_ok_def)
  with addTo_val [of "iabs z1" "drop n2 z"] fit zl obtain t where
    "addTo (drop n2 z) (iabs z1) = Inr t" "val t = val (drop n2 z) + val (iabs z1)" "length t = 2 * n - n2" by auto
  then show ?thesis using prod zl le by (simp add: val_append min_def)
qed

lemma mul_loop_step:
  assumes len: "length z = i + length x + length y" and lt: "val z < B ^ (i + length y)"
    and t: "val t = val (take (length y) x) * val y" "normal t"
  shows "\<exists>u. addTo (drop i z) t = Inr u \<and>
    val (take i z @ u) = val z + B ^ i * (val (take (length y) x) * val y) \<and>
    length (take i z @ u) = length z \<and> val (take i z @ u) < B ^ (i + length (take (length y) x) + length y)"
proof -
  define n k where "n = length y" and "k = length (take n x)"
  have k: "k \<le> length x" by (simp add: k_def)
  have a: "val (drop i z) < B ^ n"
    using lt by (simp add: val_drop_eq n_def power_add less_mult_imp_div_less mult.commute)
  have p: "val (take n x) < B ^ k" using val_less [of "take n x"] by (simp add: k_def)
  have fit: "val (drop i z) + val t < B ^ (k + n)"
    using accumulate_fits [OF a p, of "val y"] val_less [of y] t(1) by (simp add: n_def)
  then have tl: "length t \<le> k + n" using t(2) by (intro normal_length_le) simp_all
  have "B ^ (k + n) \<le> B ^ length (drop i z)" using len k by (intro power_increasing) (simp_all add: n_def)
  then obtain u where u: "addTo (drop i z) t = Inr u" "val u = val (drop i z) + val t" "length u = length (drop i z)"
    using addTo_val [of t "drop i z"] tl fit len k by (auto simp: n_def)
  have split: "val z = val (take i z) + B ^ i * val (drop i z)"
    using val_take_drop [of i z] len by (simp add: min_def split: if_splits)
  have v: "val (take i z @ u) = val z + B ^ i * (val (take n x) * val y)"
    using u(2) split t(1) len by (simp add: val_append distrib_left n_def)
  have "val (take i z @ u) < B ^ i * B ^ (k + n)"
  proof -
    have "val (take i z) < B ^ i" using val_less [of "take i z"] len by simp
    moreover have "B ^ i * (val u + 1) \<le> B ^ i * B ^ (k + n)" using fit u(2) by (intro mult_le_mono2) simp
    ultimately show ?thesis using len by (simp add: val_append)
  qed
  then show ?thesis using u v len by (simp add: n_def k_def power_add mult.assoc)
qed

lemma mul_correct:
  shows nat_mul_val: "mul_result (nat_mul x y) (val x * val y)"
    and karatsuba_val: "length x' = length y' \<Longrightarrow> zlen = 2 * length y' \<Longrightarrow>
      \<exists>z. karatsuba zlen x' y' = Inr z \<and> val z = val x' * val y' \<and> length z = zlen"
    and Int_mul_val: "int_result (Int_mul X Y) (ival X * ival Y)"
    and mul_loop_val: "y'' \<noteq> [] \<Longrightarrow> length z = i + length x'' + length y'' \<Longrightarrow> val z < B ^ (i + length y'') \<Longrightarrow>
      \<exists>z'. mul_loop x'' y'' i z = Inr z' \<and> val z' = val z + B ^ i * (val x'' * val y'') \<and> length z' = length z"
proof (induction x y and zlen x' y' and X Y and x'' y'' i z rule: nat_mul_karatsuba_Int_mul_mul_loop.induct)
  case (3 X Y)
  then obtain z where "nat_mul (iabs X) (iabs Y) = Inr z" "val z = val (iabs X) * val (iabs Y)" "normal z"
    by (auto simp: mul_result_def)
  then show ?case using signed_result [of z "ineg X \<noteq> ineg Y"]
    by (auto simp: Int_mul.simps ival_def split: if_splits)
next
  case (4 x y i z)
  show ?case
  proof (cases "x = []")
    case False
    obtain t where t: "nat_mul (take (length y) x) y = Inr t" "val t = val (take (length y) x) * val y" "normal t"
      using 4(1) False 4(3) by (auto simp: mul_result_def)
    from mul_loop_step [OF 4(4,5) t(2,3)] obtain u where u: "addTo (drop i z) t = Inr u"
      "val (take i z @ u) = val z + B ^ i * (val (take (length y) x) * val y)"
      "length (take i z @ u) = length z" "val (take i z @ u) < B ^ (i + length (take (length y) x) + length y)" by blast
    show ?thesis
    proof (cases "length y \<le> length x")
      case True
      then have "length (take i z @ u) = i + length y + length (drop (length y) x) + length y"
        "val (take i z @ u) < B ^ (i + length y + length y)"
        using u(3,4) 4(4) by simp_all
      from 4(2) [OF _ refl t(1) u(1) 4(3) this] False 4(3) obtain z' where
        "mul_loop (drop (length y) x) y (i + length y) (take i z @ u) = Inr z'"
        "val z' = val (take i z @ u) + B ^ (i + length y) * (val (drop (length y) x) * val y)" "length z' = length z"
        using u(3) by auto
      moreover have "val x = val (take (length y) x) + B ^ length y * val (drop (length y) x)"
        using val_take_drop [of "length y" x] True by (simp add: min_def)
      ultimately show ?thesis using False 4(3) t(1) u(1,2)
        by (subst mul_loop.simps) (simp add: Let_def algebra_simps power_add)
    next
      case small: False
      then show ?thesis using False 4(3) t(1) u(1,2,3)
        by (subst mul_loop.simps) (simp add: Let_def mul_loop.simps [of "[]"])
    qed
  qed (simp add: mul_loop.simps)
next
  case (1 x y)
  define m n where "m = length x" and "n = length y"
  consider "m < n" | "\<not> m < n" "m = 0 \<or> n = 0" | "\<not> m < n" "n = 1" | "\<not> m < n" "1 < n" "n < 40" | "\<not> m < n" "40 \<le> n"
    by linarith
  then show ?case
  proof cases
    case c: 1
    then show ?thesis using 1(1) [OF refl refl] by (subst nat_mul.simps) (simp add: m_def n_def Let_def mult.commute)
  next
    case 2
    then show ?thesis by (subst nat_mul.simps) (auto simp: m_def n_def Let_def mul_result_def)
  next
    case 3
    then obtain d where d: "y = [d]" by (auto simp: n_def length_Suc_conv)
    from mulAddWW_val [of x d 0] 3 d show ?thesis
      by (subst nat_mul.simps) (auto simp: m_def n_def Let_def mul_result_def)
  next
    case 4
    obtain z where "basicMul x y = Inr z" "val z = val x * val y" using basicMul_val by blast
    then show ?thesis using 4 by (subst nat_mul.simps) (auto simp: m_def n_def Let_def mul_result_def)
  next
    case 5
    then have ne: "x \<noteq> []" "y \<noteq> []" by (auto simp: m_def n_def)
    with 5 obtain z where z: "karatsuba (2 * n) (take n x) y = Inr z" "val z = val (take n x) * val y" "length z = 2 * n"
      using 1(2) [OF refl refl] by (auto simp: m_def n_def)
    show ?thesis
    proof (cases "n < m")
      case True
      have "val (pad (m + n) z) < B ^ (n + length y)" using val_less [of z] z(3) by (simp add: n_def mult_2)
      then obtain z' where z': "mul_loop (drop n x) y n (pad (m + n) z) = Inr z'"
        "val z' = val z + B ^ n * (val (drop n x) * val y)"
        using 1(3) [OF refl refl _ _ _ _ z(1) [unfolded n_def]] 5 True z(3) ne by (auto simp: m_def n_def)
      moreover have "val x = val (take n x) + B ^ n * val (drop n x)"
        using val_take_drop [of n x] True by (simp add: min_def m_def)
      ultimately show ?thesis using 5 True z(1,2) ne
        by (subst nat_mul.simps) (simp add: m_def n_def Let_def mul_result_def algebra_simps)
    next
      case False
      then have "take n x = x" using 5 by (simp add: m_def)
      then show ?thesis using 5 False z ne by (subst nat_mul.simps) (simp add: m_def n_def Let_def mul_result_def)
    qed
  qed
next
  case (2 zlen x y)
  define n where "n = length y"
  show ?case
  proof (cases "n < 40")
    case True
    then show ?thesis using 2(4,5) basicMul_val [of x y] by (subst karatsuba.simps) (auto simp: n_def Let_def)
  next
    case False
    define n2 where "n2 = (n + 1) div 2"
    define x0 x1 where "x0 = \<lparr>ineg = False, iabs = nat_norm (take n2 x)\<rparr>" and "x1 = \<lparr>ineg = False, iabs = nat_norm (drop n2 x)\<rparr>"
    define y0 y1 where "y0 = \<lparr>ineg = False, iabs = nat_norm (take n2 y)\<rparr>" and "y1 = \<lparr>ineg = False, iabs = nat_norm (drop n2 y)\<rparr>"
    have ok: "Int_ok x0" "Int_ok x1" "Int_ok y0" "Int_ok y1" by (simp_all add: Int_ok_def x0_def x1_def y0_def y1_def)
    obtain tx where tx: "Int_Sub x0 x1 = Inr tx" "ival tx = ival x0 - ival x1"
      using Int_Sub_val [OF ok(1,2)] by (auto simp: int_result_def)
    obtain ty where ty: "Int_Sub y1 y0 = Inr ty" "ival ty = ival y1 - ival y0"
      using Int_Sub_val [OF ok(4,3)] by (auto simp: int_result_def)
    note IH = 2(1-3) [OF refl _ _ refl refl refl refl refl, folded n_def, folded n2_def, folded x0_def x1_def y0_def y1_def]
    have g: "\<not> (length x \<noteq> n \<or> zlen \<noteq> 2 * n)" "\<not> (n < karatsubaThreshold \<or> n < 2)" using 2(4,5) False by (auto simp: n_def)
    obtain z1 where z1: "Int_mul tx ty = Inr z1" "Int_ok z1" "ival z1 = ival tx * ival ty"
      using IH(1) [OF g tx(1) ty(1)] by (auto simp: int_result_def)
    obtain z0 where z0: "Int_mul x0 y0 = Inr z0" "Int_ok z0" "ival z0 = ival x0 * ival y0"
      using IH(2) [OF g tx(1) ty(1) z1(1)] by (auto simp: int_result_def)
    obtain z2 where z2: "Int_mul x1 y1 = Inr z2" "Int_ok z2" "ival z2 = ival x1 * ival y1"
      using IH(3) [OF g tx(1) ty(1) z1(1) z0(1)] by (auto simp: int_result_def)
    obtain w1 where w1: "Int_Add z1 z0 = Inr w1" "Int_ok w1" "ival w1 = ival z1 + ival z0"
      using Int_Add_val [OF z1(2) z0(2)] by (auto simp: int_result_def)
    obtain w2 where w2: "Int_Add w1 z2 = Inr w2" "Int_ok w2" "ival w2 = ival w1 + ival z2"
      using Int_Add_val [OF w1(2) z2(2)] by (auto simp: int_result_def)
    have "length x = n" "length y = n" "40 \<le> n" using g by (simp_all add: n_def)
    moreover have "ival w2 = (ival x0 - ival x1) * (ival y1 - ival y0) + ival x0 * ival y0 + ival x1 * ival y1"
      using w2(3) w1(3) z0(3) z1(3) z2(3) tx(2) ty(2) by simp
    ultimately show ?thesis
      using karatsuba_combine [OF _ _ _ x0_def x1_def y0_def y1_def n2_def w2(2) _ z0(2,3) z2(2,3)] g
        tx(1) ty(1) z0(1) z1(1) z2(1) w1(1) w2(1)
      apply (subst karatsuba.simps)
      apply (simp only: Let_def n_def [symmetric] n2_def [symmetric] x0_def [symmetric] x1_def [symmetric] y0_def [symmetric] y1_def [symmetric])
      by force
  qed
qed

section \<open>Shifts and bit operations\<close>

lemma pow2_split: "(2 :: nat) ^ s = B ^ (s div 64) * 2 ^ (s mod 64)"
  unfolding B_def by (metis mult_div_mod_eq power_add power_mult)

lemma nat_lsh_val:
  assumes "normal x"
  shows "\<exists>z. nat_lsh x s = Inr z \<and> val z = val x * 2 ^ s \<and> normal z"
proof (cases "s = 0 \<or> x = []")
  case True
  then show ?thesis using assms by (auto simp: nat_lsh_def)
next
  case False
  define k t where "k = s div 64" and "t = s mod 64"
  have "t < 64" by (simp add: t_def)
  then obtain z c where z: "(if t = 0 then Inr (x, 0) else lshVU_g (length x) x t) = Inr (z, c)"
    "val z + unat c * B ^ length x = val x * 2 ^ t" "length z = length x"
    using lshVU_val [of x "length x" t] that [of x 0] that by (cases "t = 0") fastforce+
  have s: "(2 :: nat) ^ s = B ^ k * 2 ^ t" unfolding k_def t_def by (rule pow2_split)
  have "val (replicate k 0 @ z @ [c]) = B ^ k * (val z + unat c * B ^ length x)"
    using z(3) by (simp add: val_append mult.commute)
  also have "\<dots> = val x * 2 ^ s" unfolding z(2) s by (simp only: ac_simps)
  finally show ?thesis using False z(1) unfolding k_def t_def by (simp add: nat_lsh_def Let_def del: if_split)
qed

lemma nat_rsh_val:
  assumes "normal x"
  shows "\<exists>z. nat_rsh x s = Inr z \<and> val z = val x div 2 ^ s \<and> normal z"
proof (cases "s = 0")
  case True
  then show ?thesis using assms by (auto simp: nat_rsh_def)
next
  case False
  define k t where "k = s div 64" and "t = s mod 64"
  have s: "(2 :: nat) ^ s = B ^ k * 2 ^ t" unfolding k_def t_def by (rule pow2_split)
  show ?thesis
  proof (cases "length x \<le> k")
    case True
    have "val x < B ^ k" using val_less [of x] power_increasing [OF True, of B] by simp
    then have "val x < 2 ^ s" using less_le_trans [of "val x" "B ^ k" "B ^ k * 2 ^ t"] by (simp add: s)
    then show ?thesis using False True by (simp add: nat_rsh_def Let_def k_def)
  next
    case long: False
    have "t < 64" by (simp add: t_def)
    then obtain z c where z: "(if t = 0 then Inr (drop k x, 0) else rshVU_g (length x - k) (drop k x) t) = Inr (z, c)"
      "val z = val (drop k x) div 2 ^ t"
      using rshVU_val [of "drop k x" "length x - k" t] that [of "drop k x" 0] that by (cases "t = 0") fastforce+
    then have "val z = val x div 2 ^ s" by (simp add: val_drop_eq s div_mult2_eq)
    then show ?thesis using False long z(1) unfolding k_def t_def by (simp add: nat_rsh_def Let_def del: if_split)
  qed
qed

lemma bit_val_Cons: "bit (unat w + B * v) i \<longleftrightarrow> (if i < 64 then bit (w :: Word) i else bit v (i - 64))"
proof -
  have "unat w + B * v = push_bit 64 v + unat w" by (simp add: B_def push_bit_eq_mult mult.commute)
  also have "\<dots> = push_bit 64 v OR unat w"
    by (rule nat_or_disjoint [symmetric, of 64]) (use unat_less_B [of w] in \<open>simp_all add: push_bit_eq_mult B_def\<close>)
  finally show ?thesis using bit_imp_le_length [of w i] by (auto simp: bit_or_iff bit_push_bit_iff bit_unsigned_iff possible_bit_def)
qed

text \<open>An operation on each bit, word by word.\<close>

lemma val_bitop:
  fixes f :: "Word \<Rightarrow> Word \<Rightarrow> Word" and g :: "nat \<Rightarrow> nat \<Rightarrow> nat"
  assumes f: "\<And>a b i. i < 64 \<Longrightarrow> bit (f a b) i \<longleftrightarrow> h (bit a i) (bit b i)"
    and g: "\<And>a b i. bit (g a b) i \<longleftrightarrow> h (bit a i) (bit b i)"
  shows "unat (f a b) + B * g v w = g (unat a + B * v) (unat b + B * w)"
  by (rule bit_eqI) (auto simp: bit_val_Cons f g)

definition nat_and_not :: "nat \<Rightarrow> nat \<Rightarrow> nat" where
  "nat_and_not a b = a XOR (a AND b)"

lemma bit_nat_and_not: "bit (nat_and_not a b) i \<longleftrightarrow> bit a i \<and> \<not> bit b i"
  by (auto simp: nat_and_not_def bit_xor_iff bit_and_iff)

lemmas val_bitops =
  val_bitop [of "(AND)" "(\<and>)" "(AND)", OF bit_and_iff bit_and_iff]
  val_bitop [of "(OR)" "(\<or>)" "(OR)", OF bit_or_iff bit_or_iff]
  val_bitop [of "(XOR)" "(\<noteq>)" "(XOR)", OF bit_xor_iff bit_xor_iff]

lemma nat_and_val: "val (nat_and x y) = val x AND val y" "normal (nat_and x y)"
proof -
  have "val (map2 (AND) x y) = val x AND val y"
    by (induction x y rule: list_induct2') (simp_all add: val_bitops)
  then show "val (nat_and x y) = val x AND val y" "normal (nat_and x y)" by (simp_all add: nat_and_def)
qed

lemma nat_or_val: "val (nat_or x y) = val x OR val y" "normal (nat_or x y)"
proof -
  have "val (map2 (OR) x y @ drop (min (length x) (length y)) (if length x < length y then y else x)) = val x OR val y"
    by (induction x y rule: list_induct2') (simp_all add: val_bitops split: if_splits)
  then show "val (nat_or x y) = val x OR val y" "normal (nat_or x y)" by (simp_all add: nat_or_def Let_def)
qed

lemma nat_xor_val: "val (nat_xor x y) = val x XOR val y" "normal (nat_xor x y)"
proof -
  have "val (map2 (XOR) x y @ drop (min (length x) (length y)) (if length x < length y then y else x)) = val x XOR val y"
    by (induction x y rule: list_induct2') (simp_all add: val_bitops split: if_splits)
  then show "val (nat_xor x y) = val x XOR val y" "normal (nat_xor x y)" by (simp_all add: nat_xor_def Let_def)
qed

lemma val_bitop_andNot: "unat ((a :: Word) AND NOT b) + B * nat_and_not v w = nat_and_not (unat a + B * v) (unat b + B * w)"
  using val_bitop [of "\<lambda>a b. a AND NOT b" "\<lambda>p q. p \<and> \<not> q" nat_and_not a b v w]
  by (simp add: bit_and_iff bit_not_iff bit_nat_and_not)

lemma nat_andNot_val: "val (nat_andNot x y) = nat_and_not (val x) (val y)" "normal (nat_andNot x y)"
proof -
  have "val (map2 (\<lambda>a b. a AND NOT b) x y @ drop (length y) x) = nat_and_not (val x) (val y)"
    by (induction x y rule: list_induct2') (simp_all add: val_bitop_andNot, simp_all add: nat_and_not_def)
  then show "val (nat_andNot x y) = nat_and_not (val x) (val y)" "normal (nat_andNot x y)" by (simp_all add: nat_andNot_def)
qed

lemma bit_val: "bit (val x) i \<longleftrightarrow> i div 64 < length x \<and> bit (x ! (i div 64)) (i mod 64)"
proof (induction x arbitrary: i)
  case (Cons w x)
  show ?case
  proof (cases "i < 64")
    case True
    then show ?thesis by (simp add: bit_val_Cons)
  next
    case False
    then have "i div 64 = Suc ((i - 64) div 64)" "i mod 64 = (i - 64) mod 64"
      by (simp_all add: le_div_geq le_mod_geq)
    then show ?thesis using False Cons by (simp add: bit_val_Cons)
  qed
qed simp

lemma nat_bit_val: "nat_bit x i = of_bool (bit (val x) i)"
proof -
  have "unat (drop_bit k w AND 1) = of_bool (bit (w :: Word) k)" for k w
    by (cases "bit w k") (auto simp: and_one_eq bit_iff_odd_drop_bit odd_iff_mod_2_eq_one even_iff_mod_2_eq_zero)
  then show ?thesis by (auto simp: nat_bit_def bit_val Let_def)
qed

text \<open>Setting or clearing one bit.\<close>

lemma bit_val_update:
  assumes "j < length x" "\<And>k. k < 64 \<Longrightarrow> bit w k = (if k = t then b else bit (x ! j) k)" "t < 64"
  shows "bit (val (x[j := w])) i = (if i = 64 * j + t then b else bit (val x) i)"
proof (cases "i div 64 = j")
  case True
  then have "i = 64 * j + i mod 64" by (metis mult_div_mod_eq)
  then have "i = 64 * j + t \<longleftrightarrow> i mod 64 = t" by linarith
  then show ?thesis using assms True by (simp add: bit_val)
next
  case False
  then have "i \<noteq> 64 * j + t" using assms(3) by auto
  then show ?thesis using False assms(1) by (simp add: bit_val)
qed

lemma nat_setBit_val:
  assumes "normal x" "b \<le> 1"
  shows "\<exists>z. nat_setBit x i b = Inr z \<and> val z = (if b = 0 then unset_bit i (val x) else set_bit i (val x)) \<and> normal z"
proof -
  define j t where "j = i div 64" and "t = i mod 64"
  have i: "i = 64 * j + t" "t < 64" by (simp_all add: j_def t_def)
  have m: "bit (push_bit t 1 :: Word) k \<longleftrightarrow> k = t" if "k < 64" for k
    using that by (auto simp: bit_exp_iff)
  consider "b = 0" "j \<ge> length x" | "b = 0" "j < length x" | "b = 1" using assms(2) by linarith
  then show ?thesis
  proof cases
    case 1
    have "unset_bit i (val x) = val x"
      by (rule bit_eqI) (use 1 in \<open>auto simp: bit_unset_bit_iff bit_val j_def\<close>)
    then show ?thesis using 1 assms(1) by (simp add: nat_setBit_def Let_def j_def)
  next
    case 2
    have "val (x[j := x ! j AND NOT (push_bit t 1)]) = unset_bit i (val x)"
    proof (rule bit_eqI)
      fix k
      show "bit (val (x[j := x ! j AND NOT (push_bit t 1)])) k = bit (unset_bit i (val x)) k"
        using bit_val_update [OF 2(2), of "x ! j AND NOT (push_bit t 1)" t False] m i
        by (auto simp: bit_unset_bit_iff bit_and_iff bit_not_iff)
    qed
    then show ?thesis using 2 by (simp add: nat_setBit_def Let_def flip: j_def t_def)
  next
    case 3
    define z where "z = (if j \<ge> length x then x @ replicate (j + 1 - length x) 0 else x)"
    have z: "j < length z" "val z = val x" by (auto simp: z_def val_append)
    have "val (z[j := z ! j OR push_bit t 1]) = set_bit i (val x)"
    proof (rule bit_eqI)
      fix k
      show "bit (val (z[j := z ! j OR push_bit t 1])) k = bit (set_bit i (val x)) k"
        using bit_val_update [OF z(1), of "z ! j OR push_bit t 1" t True] m i z(2)
        by (auto simp: bit_set_bit_iff bit_or_iff)
    qed
    moreover have "normal (z[j := z ! j OR push_bit t 1])"
    proof -
      have "bit (z ! j OR push_bit t 1) t" using m i(2) by (simp add: bit_or_iff)
      then have "z ! j OR push_bit t 1 \<noteq> 0" by (metis bit_0_eq bot_apply bot_bool_def)
      moreover have "j = length z - 1 \<or> z = x" by (auto simp: z_def)
      moreover have "z \<noteq> []" using z(1) by auto
      ultimately show ?thesis using assms(1) by (auto simp: normal_def last_list_update)
    qed
    moreover have "nat_setBit x i b = Inr (z[j := z ! j OR push_bit t 1])"
      using 3 by (simp add: nat_setBit_def Let_def z_def flip: j_def t_def)
    ultimately show ?thesis using 3 by simp
  qed
qed

section \<open>Division by a word\<close>

lemma divWVW_loop_val:
  assumes rec: "reciprocalWord y = Some (Inr m)"
  shows "r < y \<Longrightarrow> divWVW_loop y m x r = (z, r') \<Longrightarrow>
    val z * unat y + unat r' = val x + unat r * B ^ length x \<and> r' < y \<and> length z = length x"
proof (induction x arbitrary: z r')
  case (Cons xi x)
  obtain zs r1 where t: "divWVW_loop y m x r = (zs, r1)" by fastforce
  have IH: "val zs * unat y + unat r1 = val x + unat r * B ^ length x" "r1 < y" "length zs = length x"
    using Cons.IH [OF Cons.prems(1) t] by simp_all
  obtain q rr where d: "divWW r1 xi y m = (q, rr)" "unat q * unat y + unat rr = unat r1 * B + unat xi" "rr < y"
    using divWW_val [OF IH(2) rec, of xi] by blast
  have "B * (val zs * unat y + unat r1) = B * (val x + unat r * B ^ length x)" using IH(1) by simp
  then show ?case using Cons.prems(2) t d IH(3) by (auto simp: algebra_simps)
qed auto

lemma divWVW_val:
  assumes "xn < y"
  shows "\<exists>z r. divWVW xn x y = Some (Inr (z, r)) \<and>
    val z * unat y + unat r = val x + unat xn * B ^ length x \<and> r < y \<and> length z = length x"
proof (cases "length x = 1")
  case True
  then obtain x0 where x: "x = [x0]" by (auto simp: length_Suc_conv)
  have yp: "0 < unat y" using assms by (auto simp: unat_gt_0)
  define N where "N = unat xn * 2 ^ 64 + unat x0"
  have v: "Div64 xn x0 y = Some (Inr (word_of_nat (N div unat y), word_of_nat (N mod unat y)))"
    unfolding N_def by (rule Div64_value [OF assms])
  have "N < unat y * 2 ^ 64"
  proof -
    have "N < Suc (unat xn) * 2 ^ 64" using unat_less_B [of x0] by (simp add: N_def B_def)
    also have "\<dots> \<le> unat y * 2 ^ 64" using assms by (intro mult_le_mono1) (simp add: word_less_nat_alt)
    finally show ?thesis .
  qed
  then have "N div unat y < 2 ^ 64" by (simp add: less_mult_imp_div_less mult.commute)
  then have q: "unat (word_of_nat (N div unat y) :: Word) = N div unat y"
    by (simp add: unsigned_of_nat take_bit_nat_eq_self)
  have "N mod unat y < unat y" using yp by simp
  then have "N mod unat y < 2 ^ 64" using unat_less_B [of y] by (simp add: B_def)
  then have r: "unat (word_of_nat (N mod unat y) :: Word) = N mod unat y"
    by (simp add: unsigned_of_nat take_bit_nat_eq_self)
  have "unat (word_of_nat (N div unat y) :: Word) * unat y + unat (word_of_nat (N mod unat y) :: Word) = unat x0 + unat xn * B"
    unfolding q r by (simp add: N_def B_def)
  moreover have "word_of_nat (N mod unat y) < y" using r yp by (simp add: word_less_nat_alt)
  ultimately show ?thesis using v x by (simp add: divWVW_def)
next
  case False
  have "y \<noteq> 0" using assms by auto
  then obtain m where m: "reciprocalWord y = Some (Inr m)" using reciprocalWord_val by blast
  obtain z r where d: "divWVW_loop y m x xn = (z, r)" by fastforce
  from divWVW_loop_val [OF m assms d] show ?thesis using False m d by (simp add: divWVW_def)
qed

lemma nat_divW_val:
  assumes "normal x" "y \<noteq> 0"
  shows "\<exists>q r. nat_divW x y = Some (Inr (q, r)) \<and> val q = val x div unat y \<and> unat r = val x mod unat y \<and> normal q"
proof -
  have "0 < y" using assms(2) by (simp add: word_neq_0_conv)
  then obtain z r where d: "divWVW 0 x y = Some (Inr (z, r))" "val z * unat y + unat r = val x" "r < y"
    using divWVW_val [of 0 y x] by auto
  then have "val z = val x div unat y" "unat r = val x mod unat y"
    by (metis add.commute add.right_neutral div_less div_mult_self3 mod_less mod_mult_self3 assms(2) unat_eq_0 word_less_nat_alt)+
  with d(1) assms show ?thesis by (cases "y = 1"; cases "x = []") (auto simp: nat_divW_def)
qed

lemma nat_modW_val:
  assumes "d \<noteq> 0"
  shows "nat_modW x d = Some (Inr (word_of_nat (val x mod unat d)))"
proof -
  have "0 < d" using assms by (simp add: word_neq_0_conv)
  then obtain z r where r: "divWVW 0 x d = Some (Inr (z, r))" "val z * unat d + unat r = val x" "r < d"
    using divWVW_val [of 0 d x] by auto
  then have "unat r = val x mod unat d"
    by (metis mod_less mod_mult_self3 word_less_nat_alt)
  then show ?thesis using r(1) by (simp add: nat_modW_def word_of_nat_eqI)
qed

end
