(* ===== verification/Big_Sqr.thy ===== *)
theory Big_Sqr
  imports Big_Nat_Correct
begin

text \<open>
  Squaring (\<open>natmul.go\<close>): the products of different words are summed once and doubled, and
  Karatsuba's method needs one operand only; with it \<open>Int.Mul\<close>, which squares when both
  operands are the same variable.
\<close>

section \<open>Squaring\<close>

abbreviation basicSqrThreshold :: nat where "basicSqrThreshold \<equiv> 12"

abbreviation karatsubaSqrThreshold :: nat where "karatsubaSqrThreshold \<equiv> 80"

fun basicSqr_squares :: "Word list \<Rightarrow> Word list" where
  "basicSqr_squares [] = []"
| "basicSqr_squares (d # x) = (let (hi, lo) = mulWW d d in lo # hi # basicSqr_squares x)"

text \<open>The loop on the cross products, with \<open>n\<close> iterations left, from index \<open>i\<close>.\<close>

primrec basicSqr_loop :: "Word list \<Rightarrow> nat \<Rightarrow> nat \<Rightarrow> Word list \<Rightarrow> Word list go" where
  "basicSqr_loop x 0 i t = Inr t"
| "basicSqr_loop x (Suc n) i t =
     bind_go (addMulVVWW_g i (take i (drop i t)) (take i x) (x ! i) 0) (\<lambda>(s, c).
       basicSqr_loop x n (i + 1) (take i t @ s @ [c] @ drop (2 * i + 1) t))"

definition basicSqr :: "Word list \<Rightarrow> Word list go" where
  "basicSqr x =
     (let n = length x in
      if n < basicSqrThreshold then basicMul x x
      else
        bind_go (basicSqr_loop x (n - 1) 1 (replicate (2 * n) 0)) (\<lambda>t.
        bind_go (lshVU_g (2 * n - 2) (take (2 * n - 2) (drop 1 t)) 1) (\<lambda>(s, c).
        bind_go (addVV_g (2 * n) (basicSqr_squares x) (take 1 t @ s @ [c])) (\<lambda>(z, _). Inr z))))"

lemma half_less: "a \<le> Suc n div 2 \<Longrightarrow> \<not> (n < karatsubaSqrThreshold \<or> n < 2) \<Longrightarrow> a < n"
  by linarith

function nat_sqr :: "Word list \<Rightarrow> Word list go"
  and karatsubaSqr :: "nat \<Rightarrow> Word list \<Rightarrow> Word list go"
where
  "nat_sqr x =
     (let n = length x in
      if n = 0 then Inr []
      else if n = 1 then (let (hi, lo) = mulWW (x ! 0) (x ! 0) in Inr (nat_norm [lo, hi]))
      else if n < basicSqrThreshold \<and> n < karatsubaSqrThreshold then map_sum id nat_norm (basicMul x x)
      else if n < karatsubaSqrThreshold then map_sum id nat_norm (basicSqr x)
      else map_sum id nat_norm (karatsubaSqr (2 * n) x))"
| "karatsubaSqr zlen x =
     (let n = length x in
      if zlen \<noteq> 2 * n then Inl (PanicMsg ''bad karatsubaSqr length'')
      else if n < karatsubaSqrThreshold \<or> n < 2 then basicSqr x
      else
        let n2 = (n + 1) div 2;
            x0 = \<lparr>ineg = False, iabs = nat_norm (take n2 x)\<rparr>; x1 = \<lparr>ineg = False, iabs = nat_norm (drop n2 x)\<rparr>
        in
        bind_go (Int_Sub x0 x1) (\<lambda>tx.
        bind_go (nat_sqr (iabs tx)) (\<lambda>z1.
        bind_go (nat_sqr (iabs x0)) (\<lambda>z0.
        bind_go (nat_sqr (iabs x1)) (\<lambda>z2.
        bind_go (Int_Add \<lparr>ineg = True, iabs = z1\<rparr> \<lparr>ineg = False, iabs = z0\<rparr>) (\<lambda>z1.
        bind_go (Int_Add z1 \<lparr>ineg = False, iabs = z2\<rparr>) (\<lambda>z1.
          let z = pad (2 * n2) z0 @ pad (zlen - 2 * n2) z2 in
          map_sum id (\<lambda>t. take n2 z @ t) (addTo (drop n2 z) (iabs z1)))))))))"
  by pat_completeness auto
termination
proof (relation "measures [case_sum (\<lambda>x. length x) (\<lambda>(zlen, x). length x), case_sum (\<lambda>_. 1) (\<lambda>_. 0)]", goal_cases)
  case (3 zlen x n n2 x0 x1 tx)
  have "length (iabs tx) \<le> Suc n div 2"
    using 3(7) unfolding 3(4-6) Suc_eq_plus1 [symmetric] by (rule half_differences(1)) (rule 3(1) [symmetric])
  then have "length (iabs tx) < n" using 3(3) by (rule half_less)
  then show ?case by (simp add: 3(1))
next
  case (4 zlen x n n2 x0 x1 tx z1)
  have "length (iabs x0) < n"
    unfolding 4(4,5) Suc_eq_plus1 [symmetric] BigInt.select_convs
    by (rule half_less [OF half_lengths(1) [OF 4(1) [symmetric]] 4(3)])
  then show ?case by (simp add: 4(1))
next
  case (5 zlen x n n2 x0 x1 tx z1 z0)
  have "length (iabs x1) < n"
    unfolding 5(4,6) Suc_eq_plus1 [symmetric] BigInt.select_convs
    by (rule half_less [OF half_lengths(2) [OF 5(1) [symmetric]] 5(3)])
  then show ?case by (simp add: 5(1))
qed simp_all

declare nat_sqr.simps [simp del] karatsubaSqr.simps [simp del]

text \<open>\<open>Int.Mul\<close>; the flag tells whether the operands are the same variable.\<close>

definition Int_Mul :: "bool \<Rightarrow> BigInt \<Rightarrow> BigInt \<Rightarrow> BigInt go" where
  "Int_Mul same x y =
     (if same then map_sum id (\<lambda>z. \<lparr>ineg = False, iabs = z\<rparr>) (nat_sqr (iabs x)) else Int_mul x y)"

section \<open>Sums of squares and of products\<close>

definition sq_sum :: "Word list \<Rightarrow> nat \<Rightarrow> nat" where
  "sq_sum x i = (\<Sum>j<i. B ^ (2 * j) * (unat (x ! j) * unat (x ! j)))"

definition cross_sum :: "Word list \<Rightarrow> nat \<Rightarrow> nat" where
  "cross_sum x i = (\<Sum>j<i. B ^ j * (val (take j x) * unat (x ! j)))"

lemma sum_Suc:
  "sq_sum x (Suc i) = sq_sum x i + B ^ i * B ^ i * (unat (x ! i) * unat (x ! i))"
  "cross_sum x (Suc i) = cross_sum x i + B ^ i * (val (take i x) * unat (x ! i))"
  by (simp_all add: sq_sum_def cross_sum_def mult_2 power_add)

lemma sum_0 [simp]: "sq_sum x 0 = 0" "cross_sum x 0 = 0" "cross_sum x (Suc 0) = 0"
  by (simp_all add: sq_sum_def cross_sum_def)

lemma square_split: "i \<le> length x \<Longrightarrow> val (take i x) * val (take i x) = sq_sum x i + 2 * cross_sum x i"
proof (induction i)
  case (Suc i)
  have v: "val (take (Suc i) x) = val (take i x) + B ^ i * unat (x ! i)"
    using Suc.prems by (simp add: take_Suc_conv_app_nth val_append)
  show ?case using Suc unfolding v sum_Suc by (simp add: algebra_simps)
qed simp

lemma sq_sum_Cons: "sq_sum (d # x) (Suc n) = unat d * unat d + B * (B * sq_sum x n)"
  unfolding sq_sum_def by (subst sum.lessThan_Suc_shift) (simp add: sum_distrib_left mult.assoc)

lemma basicSqr_squares_val:
  "val (basicSqr_squares x) = sq_sum x (length x) \<and> length (basicSqr_squares x) = 2 * length x"
proof (induction x)
  case (Cons d x)
  obtain hi lo where m: "mulWW d d = (hi, lo)" by fastforce
  have "unat hi * B + unat lo = unat d * unat d" using Mul64_B [of d d hi lo] m by (simp add: mulWW_def)
  then show ?case using Cons m by (simp add: sq_sum_Cons algebra_simps)
qed simp

lemma basicSqr_loop_val:
  assumes "length t = 2 * length x" "n + i = length x" "0 < i" "val t = cross_sum x i" "val t < B ^ (2 * i - 1)"
  shows "\<exists>t'. basicSqr_loop x n i t = Inr t' \<and> length t' = 2 * length x \<and> val t' = cross_sum x (length x) \<and> val t' < B ^ (2 * length x - 1)"
  using assms
proof (induction n arbitrary: i t)
  case (Suc n)
  have i: "length (take i x) = i" using Suc.prems(2) by simp
  have "B ^ (2 * i - 1) \<le> B ^ (i + i)" by (intro power_increasing) simp_all
  then have "val t < B ^ (length (take i x) + i)" using less_le_trans [OF Suc.prems(5)] by (simp only: i)
  moreover have "length t = length (take i x) + i + Suc (2 * n + 1)" using Suc.prems(1,2) i by simp
  ultimately obtain s c where s: "addMulVVWW_g i (take i (drop i t)) (take i x) (x ! i) 0 = Inr (s, c)"
    "val (take i t @ s @ [c] @ drop (i + i + 1) t) = val t + B ^ i * (val (take i x) * unat (x ! i))"
    "length (take i t @ s @ [c] @ drop (i + i + 1) t) = length t"
    "val (take i t @ s @ [c] @ drop (i + i + 1) t) < B ^ (i + (i + 1))"
    using basicMul_step [of t "take i x" i "2 * n + 1" "x ! i"] unfolding i by metis
  let ?t = "take i t @ s @ [c] @ drop (2 * i + 1) t"
  have "length ?t = 2 * length x" "n + (i + 1) = length x" "val ?t = cross_sum x (i + 1)" "val ?t < B ^ (2 * (i + 1) - 1)"
    using s(2-4) Suc.prems(1,2,4) by (simp_all add: mult_2 sum_Suc)
  from Suc.IH [OF this(1,2) _ this(3,4)] show ?case using s(1) by simp
qed auto

lemma basicSqr_val: "\<exists>z. basicSqr x = Inr z \<and> val z = val x * val x \<and> length z = 2 * length x"
proof (cases "length x < basicSqrThreshold")
  case True
  then show ?thesis using basicMul_val [of x x] by (auto simp: basicSqr_def)
next
  case False
  define n where "n = length x"
  have n: "12 \<le> n" using False by (simp add: n_def)
  have pre: "length (replicate (2 * n) (0 :: Word)) = 2 * length x" "n - 1 + 1 = length x" "(0 :: nat) < 1"
    "val (replicate (2 * n) 0) = cross_sum x 1" "val (replicate (2 * n) 0) < B ^ (2 * 1 - 1)"
    using n by (simp_all add: n_def)
  from basicSqr_loop_val [OF this] obtain t where
    t: "basicSqr_loop x (n - 1) 1 (replicate (2 * n) 0) = Inr t" "length t = 2 * n" "val t = cross_sum x n" "val t < B ^ (2 * n - 1)"
    unfolding n_def by blast
  define m where "m = take (2 * n - 2) (drop 1 t)"
  have len: "length m = 2 * n - 2" using t(2) n by (simp add: m_def)
  obtain s c where s: "lshVU_g (2 * n - 2) m 1 = Inr (s, c)" "val s + unat c * B ^ (2 * n - 2) = val m * 2" "length s = 2 * n - 2"
    using lshVU_val [OF len, of 1] by auto
  obtain t0 where t0: "take 1 t = [t0]" using t(2) n by (cases t) auto
  have tm: "val t = unat t0 + B * val m"
  proof -
    have "val (drop (2 * n - 2) (drop 1 t)) = 0"
    proof -
      have "2 * n - 1 = Suc (2 * n - 2)" using n by simp
      then have "val t < B * B ^ (2 * n - 2)" using t(4) by (simp only: power_Suc)
      then show ?thesis by (simp add: val_drop_eq)
    qed
    then have "val (drop 1 t) = val m" using val_take_drop [of "2 * n - 2" "drop 1 t"] by (simp add: m_def)
    moreover have "val t = val (take 1 t) + B * val (drop 1 t)" using val_take_drop [of 1 t] t(2) n by (simp add: min_def)
    ultimately show ?thesis using t0 by simp
  qed
  have "t0 = 0"
  proof -
    have "B dvd B ^ j * (val (take j x) * unat (x ! j))" for j by (cases j) simp_all
    then have "B dvd cross_sum x n" unfolding cross_sum_def by (intro dvd_sum)
    then have "unat t0 mod B = 0" using t(3) tm by (metis dvd_imp_mod_0 mod_mult_self2)
    then show ?thesis using unat_less_B [of t0] by (simp add: unat_eq_0 [symmetric])
  qed
  define t' where "t' = take 1 t @ s @ [c]"
  have t': "val t' = 2 * cross_sum x n" "length t' = 2 * n"
    using s(2,3) tm \<open>t0 = 0\<close> t(3) t0 n by (simp_all add: t'_def val_append algebra_simps)
  note q = basicSqr_squares_val [of x, folded n_def]
  obtain z k where z: "addVV_loop (basicSqr_squares x) t' 0 = (z, k)" by fastforce
  have sum: "val z + unat k * B ^ (2 * n) = val x * val x" "length z = 2 * n"
    using addVV_loop_val [OF _ _ z] q t' square_split [of n x] by (simp_all add: n_def)
  have "val x * val x < B ^ n * B ^ n" using val_less [of x] by (intro mult_strict_mono') (simp_all add: n_def)
  then have "unat k * B ^ (2 * n) < 1 * B ^ (2 * n)" using sum(1) by (simp only: mult_2 power_add mult_1)
  then have "unat k = 0" by (simp only: mult_less_cancel2) simp
  then have "val z = val x * val x" using sum(1) by simp
  moreover have "basicSqr x = Inr z"
    using False t(1,2) s(1,3) z q n unfolding m_def t'_def by (simp add: basicSqr_def n_def [symmetric] Let_def addVV_g_def)
  ultimately show ?thesis using sum(2) by (simp add: n_def)
qed

lemma Int_Add_normal:
  "normal (iabs x) \<Longrightarrow> normal (iabs y) \<Longrightarrow> int_result (Int_Add x y) (ival x + ival y)"
  using Int_addsub_val [of "iabs x" "iabs y" "ineg x = ineg y" "ineg x"]
  by (auto simp: Int_Add_def ival_def algebra_simps split: if_splits)

lemma sqr_correct:
  shows nat_sqr_val: "mul_result (nat_sqr x) (val x * val x)"
    and karatsubaSqr_val: "zlen = 2 * length x' \<Longrightarrow>
      \<exists>z. karatsubaSqr zlen x' = Inr z \<and> val z = val x' * val x' \<and> length z = zlen"
proof (induction x and zlen x' rule: nat_sqr_karatsubaSqr.induct)
  case (1 x)
  consider "length x = 0" | "length x = 1" | "1 < length x" "length x < 12" | "12 \<le> length x" "length x < 80" | "80 \<le> length x" 
    by linarith
  then show ?case
  proof cases
    case 2
    then obtain d where d: "x = [d]" by (auto simp: length_Suc_conv)
    obtain hi lo where m: "mulWW d d = (hi, lo)" by fastforce
    have "unat hi * B + unat lo = unat d * unat d" using Mul64_B [of d d hi lo] m by (simp add: mulWW_def)
    then have "unat lo + B * unat hi = unat d * unat d" by (simp add: mult.commute add.commute)
    then show ?thesis using d m by (subst nat_sqr.simps) (simp add: mul_result_def)
  next
    case 3
    then show ?thesis using basicMul_val [of x x] by (subst nat_sqr.simps) (auto simp: mul_result_def Let_def)
  next
    case 4
    then show ?thesis using basicSqr_val [of x] by (subst nat_sqr.simps) (auto simp: mul_result_def Let_def)
  next
    case 5
    then obtain z where "karatsubaSqr (2 * length x) x = Inr z" "val z = val x * val x"
      using 1 by auto
    then show ?thesis using 5 by (subst nat_sqr.simps) (auto simp: mul_result_def Let_def)
  qed (simp add: nat_sqr.simps mul_result_def)
next
  case (2 zlen x)
  define n where "n = length x"
  show ?case
  proof (cases "n < 80")
    case True
    then show ?thesis using 2(4) basicSqr_val [of x] by (subst karatsubaSqr.simps) (auto simp: n_def Let_def)
  next
    case False
    define n2 where "n2 = (n + 1) div 2"
    define x0 x1 where "x0 = \<lparr>ineg = False, iabs = nat_norm (take n2 x)\<rparr>" and "x1 = \<lparr>ineg = False, iabs = nat_norm (drop n2 x)\<rparr>"
    have ok: "Int_ok x0" "Int_ok x1" by (simp_all add: Int_ok_def x0_def x1_def)
    obtain tx where tx: "Int_Sub x0 x1 = Inr tx" "ival tx = ival x0 - ival x1"
      using Int_Sub_val [OF ok] by (auto simp: int_result_def)
    note IH = 2(1-3) [OF refl _ _ refl refl refl, folded n_def, folded n2_def, folded x0_def x1_def]
    have g: "\<not> zlen \<noteq> 2 * n" "\<not> (n < karatsubaSqrThreshold \<or> n < 2)" using 2(4) False by (auto simp: n_def)
    obtain z1 where z1: "nat_sqr (iabs tx) = Inr z1" "val z1 = val (iabs tx) * val (iabs tx)" "normal z1"
      using IH(1) [OF g tx(1)] by (auto simp: mul_result_def)
    obtain z0 where z0: "nat_sqr (iabs x0) = Inr z0" "val z0 = val (iabs x0) * val (iabs x0)" "normal z0"
      using IH(2) [OF g tx(1) z1(1)] by (auto simp: mul_result_def)
    obtain z2 where z2: "nat_sqr (iabs x1) = Inr z2" "val z2 = val (iabs x1) * val (iabs x1)" "normal z2"
      using IH(3) [OF g tx(1) z1(1) z0(1)] by (auto simp: mul_result_def)
    define i0 i2 where "i0 = \<lparr>ineg = False, iabs = z0\<rparr>" and "i2 = \<lparr>ineg = False, iabs = z2\<rparr>"
    have i: "Int_ok i0" "ival i0 = ival x0 * ival x0" "Int_ok i2" "ival i2 = ival x1 * ival x1"
      using z0 z2 by (simp_all add: i0_def i2_def Int_ok_def ival_def x0_def x1_def)
    have sq: "int (val (iabs tx) * val (iabs tx)) = ival tx * ival tx" by (simp add: ival_def)
    obtain w1 where w1: "Int_Add \<lparr>ineg = True, iabs = z1\<rparr> i0 = Inr w1" "Int_ok w1" "ival w1 = ival i0 - ival tx * ival tx"
      using Int_Add_normal [of "\<lparr>ineg = True, iabs = z1\<rparr>" i0] z1(2,3) z0(3) sq
      by (auto simp: int_result_def i0_def ival_def [of "\<lparr>ineg = True, iabs = z1\<rparr>"])
    obtain w2 where w2: "Int_Add w1 i2 = Inr w2" "Int_ok w2" "ival w2 = ival w1 + ival i2"
      using Int_Add_val [OF w1(2) i(3)] by (auto simp: int_result_def)
    have "length x = n" "40 \<le> n" using g by (simp_all add: n_def)
    moreover have "ival w2 = (ival x0 - ival x1) * (ival x1 - ival x0) + ival x0 * ival x0 + ival x1 * ival x1"
      using w2(3) w1(3) i(2,4) tx(2) by (simp add: algebra_simps)
    ultimately obtain t where "addTo (drop n2 (pad (2 * n2) (iabs i0) @ pad (2 * n - 2 * n2) (iabs i2))) (iabs w2) = Inr t"
      "val (take n2 (pad (2 * n2) (iabs i0) @ pad (2 * n - 2 * n2) (iabs i2)) @ t) = val x * val x"
      "length (take n2 (pad (2 * n2) (iabs i0) @ pad (2 * n - 2 * n2) (iabs i2)) @ t) = 2 * n"
      using karatsuba_combine [OF _ _ _ x0_def x1_def x0_def x1_def n2_def w2(2) _ i(1,2,3,4)] by blast
    then show ?thesis
      using g tx(1) z0(1) z1(1) z2(1) w1(1) w2(1) unfolding i0_def i2_def
      by (subst karatsubaSqr.simps,
        simp only: Let_def n_def [symmetric] n2_def [symmetric] x0_def [symmetric] x1_def [symmetric]) force
  qed
qed

lemma Int_Mul_val:
  assumes "Int_ok x" "Int_ok y" "same \<Longrightarrow> x = y"
  shows "int_result (Int_Mul same x y) (ival x * ival y)"
proof (cases same)
  case True
  obtain z where "nat_sqr (iabs x) = Inr z" "val z = val (iabs x) * val (iabs x)" "normal z"
    using nat_sqr_val [of "iabs x"] by (auto simp: mul_result_def)
  then show ?thesis using True assms(3) by (simp add: Int_Mul_def int_result_def Int_ok_def ival_def)
qed (simp add: Int_Mul_def Int_mul_val)

end
