(* ===== verification/Big_Int.thy ===== *)
theory Big_Int
  imports Big_Sqr
begin

text \<open>
  Signed integers of any size (\<open>math/big/int.go\<close>): an \<open>Int\<close> is a sign and a magnitude, and
  zero has no sign.  The bit operations treat a negative number as an infinite two's
  complement string, which the code never builds: it rewrites them with \<open>-x = ^(x-1)\<close>.  The
  receiver only provides storage, as for \<open>nat\<close>.  Theorems: every operation returns (no panic is
  reached), its result is normalised, and its value is that of the operation on the integers.
\<close>

section \<open>Conversions\<close>


definition Int_Sign :: "BigInt \<Rightarrow> int" where
  "Int_Sign x = (if length (iabs x) = 0 then 0 else if ineg x then -1 else 1)"

definition SetInt64 :: "int64 \<Rightarrow> BigInt" where
  "SetInt64 x =
     (let (neg, x) = (if sint x < 0 then (True, - x) else (False, x))
      in \<lparr>ineg = neg, iabs = setUint64 x\<rparr>)"

definition SetUint64 :: "uint64 \<Rightarrow> BigInt" where
  "SetUint64 x = \<lparr>ineg = False, iabs = setUint64 x\<rparr>"

definition NewInt :: "int64 \<Rightarrow> BigInt" where
  "NewInt x =
     (let u = (if sint x < 0 then - x else x)
      in \<lparr>ineg = sint x < 0, iabs = (if x = 0 then [] else [u])\<rparr>)"

definition SetBits :: "Word list \<Rightarrow> BigInt" where
  "SetBits ws = \<lparr>ineg = False, iabs = nat_norm ws\<rparr>"

definition Int_Abs :: "BigInt \<Rightarrow> BigInt" where
  "Int_Abs x = x\<lparr>ineg := False\<rparr>"

definition Int_Neg :: "BigInt \<Rightarrow> BigInt" where
  "Int_Neg x = x\<lparr>ineg := length (iabs x) > 0 \<and> \<not> ineg x\<rparr>"

text \<open>The branch \<open>x == y\<close> compares pointers and returns what the comparison of equal values returns.\<close>

definition Int_Cmp :: "BigInt \<Rightarrow> BigInt \<Rightarrow> int" where
  "Int_Cmp x y =
     (if ineg x = ineg y then (let r = nat_cmp (iabs x) (iabs y) in if ineg x then - r else r)
      else if ineg x then -1 else 1)"

definition Int_CmpAbs :: "BigInt \<Rightarrow> BigInt \<Rightarrow> int" where
  "Int_CmpAbs x y = nat_cmp (iabs x) (iabs y)"

definition low64 :: "Word list \<Rightarrow> uint64" where
  "low64 x = (if length x = 0 then 0 else x ! 0)"

definition Int_Int64 :: "BigInt \<Rightarrow> int64" where
  "Int_Int64 x = (let v = low64 (iabs x) in if ineg x then - v else v)"

definition Int_Uint64 :: "BigInt \<Rightarrow> uint64" where
  "Int_Uint64 x = low64 (iabs x)"

definition IsInt64 :: "BigInt \<Rightarrow> bool" where
  "IsInt64 x \<longleftrightarrow>
     (if length (iabs x) \<le> 1 then let w = low64 (iabs x) in sint w \<ge> 0 \<or> ineg x \<and> w = - w else False)"

definition IsUint64 :: "BigInt \<Rightarrow> bool" where
  "IsUint64 x \<longleftrightarrow> \<not> ineg x \<and> length (iabs x) \<le> 1"

definition Int_BitLen :: "BigInt \<Rightarrow> nat" where
  "Int_BitLen x = nat_bitLen (iabs x)"

definition Int_TrailingZeroBits :: "BigInt \<Rightarrow> nat go" where
  "Int_TrailingZeroBits x = nat_trailingZeroBits (iabs x)"

section \<open>Bit operations\<close>

definition Int_Lsh :: "BigInt \<Rightarrow> nat \<Rightarrow> BigInt go" where
  "Int_Lsh x n = map_sum id (\<lambda>z. \<lparr>ineg = ineg x, iabs = z\<rparr>) (nat_lsh (iabs x) n)"

definition Int_Rsh :: "BigInt \<Rightarrow> nat \<Rightarrow> BigInt go" where
  "Int_Rsh x n =
     (if ineg x then
        bind_go (nat_sub (iabs x) natOne) (\<lambda>t.
        bind_go (nat_rsh t n) (\<lambda>t.
        bind_go (nat_add t natOne) (\<lambda>z. Inr \<lparr>ineg = True, iabs = z\<rparr>)))
      else bind_go (nat_rsh (iabs x) n) (\<lambda>z. Inr \<lparr>ineg = False, iabs = z\<rparr>))"

definition Int_Bit :: "BigInt \<Rightarrow> int \<Rightarrow> nat go" where
  "Int_Bit x i =
     (if i = 0 then (if length (iabs x) > 0 then Inr (unat (iabs x ! 0 AND 1)) else Inr 0)
      else if i < 0 then Inl (PanicMsg ''negative bit index'')
      else if ineg x then bind_go (nat_sub (iabs x) natOne) (\<lambda>t. Inr (nat_bit t (nat i) XOR 1))
      else Inr (nat_bit (iabs x) (nat i)))"

definition Int_SetBit :: "BigInt \<Rightarrow> int \<Rightarrow> nat \<Rightarrow> BigInt go" where
  "Int_SetBit x i b =
     (if i < 0 then Inl (PanicMsg ''negative bit index'')
      else if ineg x then
        bind_go (nat_sub (iabs x) natOne) (\<lambda>t.
        bind_go (nat_setBit t (nat i) (b XOR 1)) (\<lambda>t.
        bind_go (nat_add t natOne) (\<lambda>z. Inr \<lparr>ineg = length z > 0, iabs = z\<rparr>)))
      else bind_go (nat_setBit (iabs x) (nat i) b) (\<lambda>z. Inr \<lparr>ineg = False, iabs = z\<rparr>))"

definition Int_And :: "BigInt \<Rightarrow> BigInt \<Rightarrow> BigInt go" where
  "Int_And x y =
     (if ineg x = ineg y then
        if ineg x then
          bind_go (nat_sub (iabs x) natOne) (\<lambda>x1.
          bind_go (nat_sub (iabs y) natOne) (\<lambda>y1.
          bind_go (nat_add (nat_or x1 y1) natOne) (\<lambda>z. Inr \<lparr>ineg = True, iabs = z\<rparr>)))
        else Inr \<lparr>ineg = False, iabs = nat_and (iabs x) (iabs y)\<rparr>
      else
        let (x, y) = (if ineg x then (y, x) else (x, y)) in
        bind_go (nat_sub (iabs y) natOne) (\<lambda>y1. Inr \<lparr>ineg = False, iabs = nat_andNot (iabs x) y1\<rparr>))"

definition Int_AndNot :: "BigInt \<Rightarrow> BigInt \<Rightarrow> BigInt go" where
  "Int_AndNot x y =
     (if ineg x = ineg y then
        if ineg x then
          bind_go (nat_sub (iabs x) natOne) (\<lambda>x1.
          bind_go (nat_sub (iabs y) natOne) (\<lambda>y1. Inr \<lparr>ineg = False, iabs = nat_andNot y1 x1\<rparr>))
        else Inr \<lparr>ineg = False, iabs = nat_andNot (iabs x) (iabs y)\<rparr>
      else if ineg x then
        bind_go (nat_sub (iabs x) natOne) (\<lambda>x1.
        bind_go (nat_add (nat_or x1 (iabs y)) natOne) (\<lambda>z. Inr \<lparr>ineg = True, iabs = z\<rparr>))
      else
        bind_go (nat_sub (iabs y) natOne) (\<lambda>y1. Inr \<lparr>ineg = False, iabs = nat_and (iabs x) y1\<rparr>))"

definition Int_Or :: "BigInt \<Rightarrow> BigInt \<Rightarrow> BigInt go" where
  "Int_Or x y =
     (if ineg x = ineg y then
        if ineg x then
          bind_go (nat_sub (iabs x) natOne) (\<lambda>x1.
          bind_go (nat_sub (iabs y) natOne) (\<lambda>y1.
          bind_go (nat_add (nat_and x1 y1) natOne) (\<lambda>z. Inr \<lparr>ineg = True, iabs = z\<rparr>)))
        else Inr \<lparr>ineg = False, iabs = nat_or (iabs x) (iabs y)\<rparr>
      else
        let (x, y) = (if ineg x then (y, x) else (x, y)) in
        bind_go (nat_sub (iabs y) natOne) (\<lambda>y1.
        bind_go (nat_add (nat_andNot y1 (iabs x)) natOne) (\<lambda>z. Inr \<lparr>ineg = True, iabs = z\<rparr>)))"

definition Int_Xor :: "BigInt \<Rightarrow> BigInt \<Rightarrow> BigInt go" where
  "Int_Xor x y =
     (if ineg x = ineg y then
        if ineg x then
          bind_go (nat_sub (iabs x) natOne) (\<lambda>x1.
          bind_go (nat_sub (iabs y) natOne) (\<lambda>y1. Inr \<lparr>ineg = False, iabs = nat_xor x1 y1\<rparr>))
        else Inr \<lparr>ineg = False, iabs = nat_xor (iabs x) (iabs y)\<rparr>
      else
        let (x, y) = (if ineg x then (y, x) else (x, y)) in
        bind_go (nat_sub (iabs y) natOne) (\<lambda>y1.
        bind_go (nat_add (nat_xor (iabs x) y1) natOne) (\<lambda>z. Inr \<lparr>ineg = True, iabs = z\<rparr>)))"

definition Int_Not :: "BigInt \<Rightarrow> BigInt go" where
  "Int_Not x =
     (if ineg x then bind_go (nat_sub (iabs x) natOne) (\<lambda>z. Inr \<lparr>ineg = False, iabs = z\<rparr>)
      else bind_go (nat_add (iabs x) natOne) (\<lambda>z. Inr \<lparr>ineg = True, iabs = z\<rparr>))"

section \<open>Correctness\<close>

lemma ival_signs [simp]:
  "ival \<lparr>ineg = False, iabs = z\<rparr> = int (val z)" "ival \<lparr>ineg = True, iabs = z\<rparr> = - int (val z)"
  by (simp_all add: ival_def)

lemma ival_nonneg_abs: "\<not> ineg x \<Longrightarrow> ival x = int (val (iabs x))"
  by (simp add: ival_def)

lemma Int_ok_normal: "Int_ok x \<Longrightarrow> normal (iabs x)"
  by (simp add: Int_ok_def)

lemma int_result_Inr [simp]: "int_result (Inr z) v \<longleftrightarrow> Int_ok z \<and> ival z = v"
  by (simp add: int_result_def)

lemma Int_ok_pos [simp]: "Int_ok \<lparr>ineg = False, iabs = z\<rparr> \<longleftrightarrow> normal z"
  by (simp add: Int_ok_def)

lemma Int_ok_neg [simp]: "Int_ok \<lparr>ineg = True, iabs = z\<rparr> \<longleftrightarrow> normal z \<and> z \<noteq> []"
  by (simp add: Int_ok_def)

lemma Int_ok_unique: "Int_ok x \<Longrightarrow> Int_ok y \<Longrightarrow> ival x = ival y \<Longrightarrow> x = y"
  using normal_val_inject [of "iabs x" "iabs y"] normal_val_0 [of "iabs x"] normal_val_0 [of "iabs y"]
  unfolding Int_ok_def ival_def by (cases "ineg x"; cases "ineg y"; cases x; cases y) simp_all

text \<open>\<open>x-1\<close> for a negative number \<open>-x\<close>, and back: the complements.\<close>

lemma sub_one:
  assumes "Int_ok x" "ineg x"
  obtains t where "nat_sub (iabs x) natOne = Inr t" "normal t" "ival x = NOT (int (val t))"
proof -
  have v: "0 < val (iabs x)" using assms normal_val_0 [of "iabs x"] by (auto simp: Int_ok_def)
  have n: "normal natOne" "val natOne = 1" by (simp_all add: normal_def)
  from nat_sub_eq [OF Int_ok_normal [OF assms(1)] n(1)] v n(2) obtain t
    where "nat_sub (iabs x) natOne = Inr t" "normal t" "val t = val (iabs x) - 1" by auto
  with v show thesis by (intro that) (auto simp: ival_def assms(2) not_int_def of_nat_diff)
qed

lemma add_one:
  assumes "normal t"
  obtains z where "nat_add t natOne = Inr z" "normal z" "z \<noteq> []" "val z = Suc (val t)"
proof -
  have n: "normal natOne" "val natOne = 1" by (simp_all add: normal_def)
  then show thesis using nat_add_val [of t natOne] assms that by fastforce
qed

lemma Int_view:
  assumes "Int_ok x"
  obtains (pos) "\<not> ineg x" "normal (iabs x)" "ival x = int (val (iabs x))"
  | (neg) t where "ineg x" "nat_sub (iabs x) natOne = Inr t" "normal t" "ival x = NOT (int (val t))"
  using assms sub_one [OF assms] by (cases "ineg x") (auto simp: ival_def Int_ok_def)

lemma neg_result:
  "normal t \<Longrightarrow> int_result (bind_go (nat_add t natOne) (\<lambda>z. Inr \<lparr>ineg = True, iabs = z\<rparr>)) v \<longleftrightarrow> NOT (int (val t)) = v"
  by (rule add_one [of t]) (auto simp: not_int_def)

lemma int_nat_and_not: "int (nat_and_not a b) = int a AND NOT (int b)"
  by (rule bit_eqI) (simp add: bit_nat_and_not bit_and_iff bit_not_iff bit_of_nat_iff_bit)

lemmas int_bits = nat_and_val nat_or_val nat_xor_val nat_andNot_val
  of_nat_and_eq of_nat_or_eq of_nat_xor_eq int_nat_and_not

lemmas bool_bits = bit_and_iff bit_or_iff bit_xor_iff bit_not_iff

lemmas Int_bit_simps = int_bits neg_result

lemma Int_And_val: "Int_ok x \<Longrightarrow> Int_ok y \<Longrightarrow> int_result (Int_And x y) (ival x AND ival y)"
  by (elim Int_view) (simp_all add: Int_And_def Int_bit_simps and.commute)

lemma Int_Or_val: "Int_ok x \<Longrightarrow> Int_ok y \<Longrightarrow> int_result (Int_Or x y) (ival x OR ival y)"
  by (elim Int_view) (simp_all add: Int_Or_def Int_bit_simps or.commute)

lemma Int_Xor_val: "Int_ok x \<Longrightarrow> Int_ok y \<Longrightarrow> int_result (Int_Xor x y) (ival x XOR ival y)"
  by (elim Int_view) (simp_all add: Int_Xor_def Int_bit_simps xor.commute)

lemma Int_AndNot_val: "Int_ok x \<Longrightarrow> Int_ok y \<Longrightarrow> int_result (Int_AndNot x y) (ival x AND NOT (ival y))"
  by (elim Int_view) (simp_all add: Int_AndNot_def Int_bit_simps and.commute)

lemma Int_Not_val: "Int_ok x \<Longrightarrow> int_result (Int_Not x) (NOT (ival x))"
  by (elim Int_view) (simp_all add: Int_Not_def Int_bit_simps)

text \<open>Shifts and single bits.\<close>

lemma normal_lsh_zero: "nat_lsh x n = Inr z \<Longrightarrow> normal x \<Longrightarrow> z = [] \<longleftrightarrow> x = []"
  using nat_lsh_val [of x n] normal_val_0 [of x] normal_val_0 [of z] by auto

lemma Int_Lsh_val: "Int_ok x \<Longrightarrow> int_result (Int_Lsh x n) (push_bit n (ival x))"
proof -
  assume x: "Int_ok x"
  then obtain z where z: "nat_lsh (iabs x) n = Inr z" "val z = val (iabs x) * 2 ^ n" "normal z"
    using nat_lsh_val by (meson Int_ok_normal)
  then have "z = [] \<longleftrightarrow> iabs x = []" using normal_lsh_zero Int_ok_normal [OF x] by blast
  with x z show ?thesis by (simp add: Int_Lsh_def Int_ok_def ival_def push_bit_eq_mult)
qed

lemma drop_bit_not_int: "drop_bit n (NOT (k :: int)) = NOT (drop_bit n k)"
  by (rule bit_eqI) (simp add: bit_drop_bit_eq bit_not_iff)

lemma Int_Rsh_val: "Int_ok x \<Longrightarrow> int_result (Int_Rsh x n) (drop_bit n (ival x))"
proof (elim Int_view)
  assume x: "\<not> ineg x" "normal (iabs x)" "ival x = int (val (iabs x))"
  obtain z where "nat_rsh (iabs x) n = Inr z" "val z = val (iabs x) div 2 ^ n" "normal z" using nat_rsh_val [OF x(2)] by blast
  with x show ?thesis by (simp add: Int_Rsh_def drop_bit_eq_div zdiv_int)
next
  fix t
  assume x: "ineg x" "nat_sub (iabs x) natOne = Inr t" "normal t" "ival x = NOT (int (val t))"
  obtain z where "nat_rsh t n = Inr z" "val z = val t div 2 ^ n" "normal z" using nat_rsh_val [OF x(3)] by blast
  moreover have "int (val t div 2 ^ n) = drop_bit n (int (val t))" by (simp add: drop_bit_eq_div zdiv_int)
  ultimately show ?thesis using x by (simp add: Int_Rsh_def neg_result drop_bit_not_int)
qed

lemma bit_zero_word: "unat ((w :: Word) AND 1) = of_bool (bit w 0)"
  by (simp add: and_one_eq bit_0 mod_2_eq_odd)

lemma Int_Bit_val:
  assumes "Int_ok x"
  shows "Int_Bit x i = (if i < 0 then Inl (PanicMsg ''negative bit index'') else Inr (of_bool (bit (ival x) (nat i))))"
proof -
  consider "i = 0" | "i < 0" | "i > 0" by linarith
  then show ?thesis
  proof cases
    case 1
    have "even (val (iabs x)) \<longleftrightarrow> iabs x = [] \<or> \<not> bit (iabs x ! 0) 0"
      using bit_val [of "iabs x" 0] by (auto simp: bit_0)
    moreover have "odd (ival x) \<longleftrightarrow> odd (val (iabs x))" by (simp add: ival_def)
    ultimately show ?thesis using 1 by (auto simp: Int_Bit_def bit_zero_word bit_0)
  next
    case 2
    then show ?thesis by (simp add: Int_Bit_def)
  next
    case 3
    show ?thesis
      using assms 3 by (elim Int_view) (simp_all add: Int_Bit_def nat_bit_val bit_not_iff bit_of_nat_iff_bit of_bool_def)
  qed
qed

lemma int_set_bit: "int (set_bit i v) = set_bit i (int v)" "int (unset_bit i v) = unset_bit i (int v)"
  by (simp_all add: of_nat_set_bit_eq of_nat_unset_bit_eq)

lemma set_bit_NOT: "set_bit i (NOT (k :: int)) = NOT (unset_bit i k)" "unset_bit i (NOT (k :: int)) = NOT (set_bit i k)"
  by (auto intro!: bit_eqI simp: bit_set_bit_iff bit_unset_bit_iff bit_not_iff)

lemma Int_SetBit_val:
  assumes "Int_ok x" "b \<le> 1" "0 \<le> i"
  shows "int_result (Int_SetBit x i b) (if b = 0 then unset_bit (nat i) (ival x) else set_bit (nat i) (ival x))"
  using assms(1)
proof (cases rule: Int_view)
  case pos
  with assms(2,3) nat_setBit_val [OF pos(2) assms(2), of "nat i"] show ?thesis
    by (auto simp: Int_SetBit_def int_set_bit)
next
  case (neg t)
  have "b = 0 \<or> b = 1" using assms(2) by auto
  then have b: "b XOR 1 = 1 - b" "1 - b \<le> 1" by auto
  obtain z where z: "nat_setBit t (nat i) (1 - b) = Inr z" "normal z"
    "val z = (if 1 - b = 0 then unset_bit (nat i) (val t) else set_bit (nat i) (val t))"
    using nat_setBit_val [OF neg(3) b(2), of "nat i"] by blast
  obtain u where u: "nat_add z natOne = Inr u" "normal u" "u \<noteq> []" "val u = Suc (val z)" using add_one [OF z(2)] .
  have "- int (val u) = NOT (int (val z))" using u(4) by (simp add: not_int_def)
  with neg z u b assms(2,3) show ?thesis
    by (auto simp: Int_SetBit_def set_bit_NOT int_set_bit split: if_splits)
qed

text \<open>Signs, comparison and conversions.\<close>

lemma Int_Sign_val: "Int_ok x \<Longrightarrow> Int_Sign x = sgn (ival x)"
  using normal_val_0 [of "iabs x"] by (auto simp: Int_Sign_def Int_ok_def ival_def)

lemma Int_Neg_val: "Int_ok x \<Longrightarrow> Int_ok (Int_Neg x) \<and> ival (Int_Neg x) = - ival x"
  by (auto simp: Int_Neg_def Int_ok_def ival_def)

lemma Int_Abs_val: "Int_ok x \<Longrightarrow> Int_ok (Int_Abs x) \<and> ival (Int_Abs x) = \<bar>ival x\<bar>"
  by (auto simp: Int_Abs_def Int_ok_def ival_def)

lemma Int_Cmp_val: "Int_ok x \<Longrightarrow> Int_ok y \<Longrightarrow> Int_Cmp x y = sgn (ival x - ival y)"
  using normal_val_0 [of "iabs x"] normal_val_0 [of "iabs y"]
  by (auto simp: Int_Cmp_def Int_ok_def ival_def nat_cmp_val sgn_if)

lemma Int_CmpAbs_val: "Int_ok x \<Longrightarrow> Int_ok y \<Longrightarrow> Int_CmpAbs x y = sgn (\<bar>ival x\<bar> - \<bar>ival y\<bar>)"
  by (auto simp: Int_CmpAbs_def Int_ok_def ival_def nat_cmp_val)

lemma SetUint64_val: "Int_ok (SetUint64 w) \<and> ival (SetUint64 w) = uint w"
  by (simp add: SetUint64_def setUint64_def)

lemma unat_uminus_Word: "unat (- (w :: Word)) = (if w = 0 then 0 else B - unat w)"
proof (cases "w = 0")
  case False
  have "word_of_nat (B - unat w) = word_of_nat B - (word_of_nat (unat w) :: Word)"
    using less_imp_le [OF unat_less_B [of w]] by (rule of_nat_diff)
  also have "word_of_nat B = (0 :: Word)" by (simp add: B_def)
  finally have "- w = word_of_nat (B - unat w)" by simp
  moreover have "B - unat w < 2 ^ 64" using False by (simp add: B_def unat_gt_0 word_neq_0_conv)
  ultimately show ?thesis using False by (simp add: unsigned_of_nat take_bit_nat_eq_self)
qed simp

lemma SetInt64_val: "Int_ok (SetInt64 w) \<and> ival (SetInt64 w) = sint w"
proof (cases "sint w < 0")
  case True
  then have "\<not> unat w < 2 ^ 63" "w \<noteq> 0" by (auto simp: sint_unat split: if_splits)
  moreover have "unat w < B" by simp
  ultimately show ?thesis using True unat_uminus_Word [of w]
    by (simp add: SetInt64_def setUint64_def setWord_def sint_unat B_def normal_def)
next
  case False
  then have "unat w < 2 ^ 63"
    using of_nat_less_iff [of "unat w" B, where 'a = int] unat_less_B [of w] by (auto simp: sint_unat B_def split: if_splits)
  with False show ?thesis by (simp add: SetInt64_def setUint64_def sint_unat)
qed

lemma NewInt_eq: "NewInt w = SetInt64 w"
  by (auto simp: NewInt_def SetInt64_def setUint64_def setWord_def)

lemma single_word: "normal x \<Longrightarrow> length x \<le> 1 \<longleftrightarrow> val x < B"
  using normal_length_le [of x 1] val_less [of x] power_increasing [of "length x" 1 B] by (auto dest: less_le_trans)

lemma val_single: "length x \<le> 1 \<Longrightarrow> val x = unat (low64 x)"
  by (cases x) (auto simp: low64_def)

lemma sint_nonneg_iff: "0 \<le> sint (w :: Word) \<longleftrightarrow> unat w < 2 ^ 63"
  using of_nat_less_iff [of "unat w" B, where 'a = int] unat_less_B [of w] by (auto simp: sint_unat B_def)

lemma uminus_eq_self: "(w :: Word) = - w \<longleftrightarrow> unat w = 0 \<or> unat w = 2 ^ 63"
proof -
  have "w = - w \<longleftrightarrow> unat w = unat (- w)" by (simp add: word_unat_eq_iff)
  also have "\<dots> \<longleftrightarrow> unat w = 0 \<or> unat w = 2 ^ 63"
    using unat_less_B [of w] by (auto simp: unat_uminus_Word B_def unat_eq_0)
  finally show ?thesis .
qed

lemma IsUint64_iff: "Int_ok x \<Longrightarrow> IsUint64 x \<longleftrightarrow> 0 \<le> ival x \<and> ival x < 2 ^ 64"
  using single_word [of "iabs x"] normal_val_0 [of "iabs x"]
  by (auto simp: IsUint64_def Int_ok_def ival_def B_def simp del: of_nat_less_iff)

lemma IsInt64_iff:
  assumes "Int_ok x"
  shows "IsInt64 x \<longleftrightarrow> - (2 ^ 63) \<le> ival x \<and> ival x < 2 ^ 63"
proof (cases "length (iabs x) \<le> 1")
  case True
  define n where "n = unat (low64 (iabs x))"
  have "IsInt64 x \<longleftrightarrow> n < 2 ^ 63 \<or> ineg x \<and> (n = 0 \<or> n = 2 ^ 63)"
    using True by (simp only: IsInt64_def Let_def sint_nonneg_iff uminus_eq_self n_def if_True)
  moreover have "val (iabs x) = n" using True by (simp add: val_single n_def)
  ultimately show ?thesis by (auto simp: ival_def)
next
  case False
  then have "2 ^ 64 \<le> val (iabs x)" using single_word [OF Int_ok_normal [OF assms]] by (simp add: B_def)
  with False show ?thesis by (auto simp: IsInt64_def ival_def)
qed

lemma Int_Int64_val:
  assumes "Int_ok x" "IsInt64 x"
  shows "sint (Int_Int64 x) = ival x"
proof -
  define w n where "w = low64 (iabs x)" and "n = unat w"
  have "length (iabs x) \<le> 1" using assms(2) by (simp add: IsInt64_def split: if_splits)
  then have v: "val (iabs x) = n" by (simp add: val_single w_def n_def)
  from assms(2) IsInt64_iff [OF assms(1)] have b: "- (2 ^ 63) \<le> ival x" "ival x < 2 ^ 63" by blast+
  have w: "sint w = (if n < 2 ^ 63 then int n else int n - 2 ^ 64)" by (simp add: sint_unat n_def)
  have u: "sint (- w) = (if n = 0 then 0 else if B - n < 2 ^ 63 then int (B - n) else int (B - n) - 2 ^ 64)"
    by (simp add: sint_unat unat_uminus_Word n_def unat_eq_0)
  have "n < B" by (simp add: n_def)
  then show ?thesis using b
    by (cases "ineg x") (simp_all add: Int_Int64_def ival_def v w u B_def of_nat_diff flip: w_def, arith)
qed

lemma Int64_SetInt64: "Int_Int64 (SetInt64 w) = w"
  by (simp add: Int_Int64_def SetInt64_def setUint64_def setWord_def low64_def)

section \<open>Integers as an interface\<close>

text \<open>
  What the clients of \<open>Int\<close> rely on: the operations return, keep the representation valid,
  and compute in the integers; a value has one valid representation.  The laws of arithmetic
  then hold between the results themselves and not only between their values.
\<close>

locale integers =
  fixes ok :: "'a \<Rightarrow> bool" and v :: "'a \<Rightarrow> int"
    and add sub mul :: "'a \<Rightarrow> 'a \<Rightarrow> 'a go"
  assumes unique: "ok x \<Longrightarrow> ok y \<Longrightarrow> v x = v y \<Longrightarrow> x = y"
    and add: "ok x \<Longrightarrow> ok y \<Longrightarrow> \<exists>z. add x y = Inr z \<and> ok z \<and> v z = v x + v y"
    and sub: "ok x \<Longrightarrow> ok y \<Longrightarrow> \<exists>z. sub x y = Inr z \<and> ok z \<and> v z = v x - v y"
    and mul: "ok x \<Longrightarrow> ok y \<Longrightarrow> \<exists>z. mul x y = Inr z \<and> ok z \<and> v z = v x * v y"
begin

definition res :: "'a go \<Rightarrow> int \<Rightarrow> bool" where
  "res r k \<longleftrightarrow> (\<exists>z. r = Inr z \<and> ok z \<and> v z = k)"

lemma res_unique: "res r k \<Longrightarrow> res s k \<Longrightarrow> r = s"
  unfolding res_def using unique by blast

lemma res_Inr: "ok x \<Longrightarrow> res (Inr x) (v x)"
  by (simp add: res_def)

lemma res_bind: "res r k \<Longrightarrow> (\<And>x. ok x \<Longrightarrow> v x = k \<Longrightarrow> res (f x) l) \<Longrightarrow> res (bind_go r f) l"
  by (auto simp: res_def)

lemma res_ops:
  assumes "ok x" "ok y"
  shows "res (add x y) (v x + v y)" "res (sub x y) (v x - v y)" "res (mul x y) (v x * v y)"
  using add [OF assms] sub [OF assms] mul [OF assms] by (simp_all add: res_def)

lemma res_op:
  "ok x \<Longrightarrow> ok y \<Longrightarrow> v x + v y = k \<Longrightarrow> res (add x y) k"
  "ok x \<Longrightarrow> ok y \<Longrightarrow> v x - v y = k \<Longrightarrow> res (sub x y) k"
  "ok x \<Longrightarrow> ok y \<Longrightarrow> v x * v y = k \<Longrightarrow> res (mul x y) k"
  using res_ops by auto

lemma add_commute: "ok x \<Longrightarrow> ok y \<Longrightarrow> add x y = add y x"
  using res_ops(1) res_unique by (metis add.commute)

lemma mul_commute: "ok x \<Longrightarrow> ok y \<Longrightarrow> mul x y = mul y x"
  using res_ops(3) res_unique by (metis mult.commute)

lemma add_assoc:
  assumes "ok x" "ok y" "ok z"
  shows "bind_go (add x y) (\<lambda>s. add s z) = bind_go (add y z) (add x)"
proof (rule res_unique)
  show "res (bind_go (add x y) (\<lambda>s. add s z)) (v x + v y + v z)"
    by (rule res_bind, rule res_ops) (use assms in \<open>auto intro: res_op\<close>)
  show "res (bind_go (add y z) (add x)) (v x + v y + v z)"
    by (rule res_bind, rule res_ops) (use assms in \<open>auto intro: res_op\<close>)
qed

lemma mul_assoc:
  assumes "ok x" "ok y" "ok z"
  shows "bind_go (mul x y) (\<lambda>s. mul s z) = bind_go (mul y z) (mul x)"
proof (rule res_unique)
  show "res (bind_go (mul x y) (\<lambda>s. mul s z)) (v x * v y * v z)"
    by (rule res_bind, rule res_ops) (use assms in \<open>auto intro: res_op\<close>)
  show "res (bind_go (mul y z) (mul x)) (v x * v y * v z)"
    by (rule res_bind, rule res_ops) (use assms in \<open>auto intro: res_op\<close>)
qed

lemma mul_add:
  assumes "ok x" "ok y" "ok z"
  shows "bind_go (add y z) (mul x) = bind_go (mul x y) (\<lambda>p. bind_go (mul x z) (add p))"
proof (rule res_unique)
  show "res (bind_go (add y z) (mul x)) (v x * v y + v x * v z)"
    by (rule res_bind, rule res_ops) (use assms in \<open>auto intro!: res_op simp: algebra_simps\<close>)
  show "res (bind_go (mul x y) (\<lambda>p. bind_go (mul x z) (add p))) (v x * v y + v x * v z)"
    by (rule res_bind, rule res_ops; (rule res_bind, rule res_ops)?) (use assms in \<open>auto intro!: res_op\<close>)
qed

lemma sub_add: "ok x \<Longrightarrow> ok y \<Longrightarrow> bind_go (sub x y) (\<lambda>d. add d y) = Inr x"
  by (rule res_unique [OF _ res_Inr]) (auto intro!: res_bind [OF res_ops(2)] res_op)

end

interpretation Int: integers Int_ok ival Int_Add Int_Sub Int_mul
  using Int_ok_unique Int_Add_val Int_Sub_val Int_mul_val unfolding int_result_def
  by unfold_locales blast+

section \<open>Properties\<close>

text \<open>C9.
  \<open>nat.mul\<close> and \<open>karatsuba\<close>, with their recursion on halves of the operands, signed
  differences, padding and piecewise accumulation, return for all operands exactly what the
  schoolbook product returns, normalised, and that is the product of the two numbers.\<close>

theorem nat_mul_schoolbook:
  "nat_mul x y = map_sum id nat_norm (basicMul x y) \<and>
   (\<exists>z. nat_mul x y = Inr z \<and> normal z \<and> val z = val x * val y)"
proof -
  obtain z where z: "nat_mul x y = Inr z" "normal z" "val z = val x * val y"
    using nat_mul_val [of x y] by (auto simp: mul_result_def)
  obtain b where b: "basicMul x y = Inr b" "val b = val x * val y" using basicMul_val by blast
  have "z = nat_norm b" using normal_val_inject z(2,3) b(2) by simp
  with z b show ?thesis by simp
qed

text \<open>C33.
  \<open>nat.sub\<close> panics with \<open>underflow\<close> exactly when the subtrahend is the larger number, and
  returns the exact difference, normalised, otherwise; \<open>nat.cmp\<close> decides which.\<close>

theorem nat_sub_panics_iff:
  assumes "normal x" "normal y"
  shows "(nat_sub x y = Inl (PanicMsg ''underflow'') \<longleftrightarrow> nat_cmp x y = -1) \<and>
    (nat_cmp x y \<noteq> -1 \<longleftrightarrow> (\<exists>z. nat_sub x y = Inr z \<and> normal z \<and> val z + val y = val x))"
  using nat_sub_eq [OF assms] nat_cmp_val [OF assms] by (auto simp: sgn_if split: if_splits)

theorem nat_sub_panics_iff_witness:
  "nat_sub [1] [0, 1] = Inl (PanicMsg ''underflow'') \<and> (\<exists>z. nat_sub [0, 1] [1] = Inr z \<and> normal z \<and> val z + val [1] = val [0, 1])"
proof -
  have n: "normal [1]" "normal [0, 1]" by (simp_all add: normal_def)
  have "nat_cmp [1] [0, 1] = -1" "nat_cmp [0, 1] [1] \<noteq> -1" by (simp_all add: nat_cmp_def)
  then show ?thesis using nat_sub_panics_iff [OF n] nat_sub_panics_iff [OF n(2,1)] by simp
qed

text \<open>C26.
  Division by a word through its reciprocal (\<open>divW\<close>, \<open>modW\<close>): no hardware division, a
  multiplication and at most two corrections per word, and still the exact quotient and
  remainder; division by zero panics.\<close>

theorem nat_divW_exact:
  assumes "normal x"
  shows "if y = 0 then nat_divW x y = Some (Inl (PanicMsg ''division by zero''))
    else (\<exists>q. nat_divW x y = Some (Inr (q, word_of_nat (val x mod unat y))) \<and> normal q \<and> val q = val x div unat y) \<and>
      nat_modW x y = Some (Inr (word_of_nat (val x mod unat y)))"
proof (cases "y = 0")
  case False
  then obtain q r where "nat_divW x y = Some (Inr (q, r))" "val q = val x div unat y" "unat r = val x mod unat y" "normal q"
    using nat_divW_val [OF assms] by blast
  moreover from this(3) have "r = word_of_nat (val x mod unat y)" by (metis word_of_nat_eqI)
  ultimately show ?thesis using False nat_modW_val [of y x] by simp
qed (simp add: nat_divW_def)

theorem nat_divW_exact_witness:
  "\<exists>q. nat_divW [5, 7] 3 = Some (Inr (q, word_of_nat (val [5, 7] mod 3))) \<and> normal q \<and> val q = val [5, 7] div 3"
  using nat_divW_exact [of "[5, 7]" 3] by (simp add: normal_def)

text \<open>C11.
  Addition, subtraction, multiplication and comparison of signed integers never panic on
  valid operands, produce valid results (no leading zero word, no negative zero), and are exact.
  \<open>Mul\<close> of a variable with itself squares, by an algorithm of its own.\<close>

theorem Int_arith_exact:
  assumes "Int_ok x" "Int_ok y"
  shows "int_result (Int_Add x y) (ival x + ival y) \<and> int_result (Int_Sub x y) (ival x - ival y) \<and>
    int_result (Int_Mul False x y) (ival x * ival y) \<and> int_result (Int_Mul True x x) (ival x * ival x) \<and> Int_Cmp x y = sgn (ival x - ival y) \<and>
    Int_CmpAbs x y = sgn (\<bar>ival x\<bar> - \<bar>ival y\<bar>)"
  using Int_Add_val Int_Sub_val Int_Mul_val Int_Cmp_val Int_CmpAbs_val assms by simp

theorem Int_arith_exact_witness:
  "\<exists>z. Int_Sub \<lparr>ineg = False, iabs = [0, 1]\<rparr> \<lparr>ineg = True, iabs = [7]\<rparr> = Inr z \<and> Int_ok z \<and> ival z = int B + 7"
  using Int_arith_exact [of "\<lparr>ineg = False, iabs = [0, 1]\<rparr>" "\<lparr>ineg = True, iabs = [7]\<rparr>"]
  by (simp add: int_result_def normal_def)

lemma Int_SetBit_negative: "i < 0 \<Longrightarrow> Int_SetBit x i b = Inl (PanicMsg ''negative bit index'')"
  by (simp add: Int_SetBit_def)

text \<open>C13.
  The bit operations on signed integers agree with infinite two's complement, for every
  combination of signs: \<open>And\<close>, \<open>Or\<close>, \<open>Xor\<close>, \<open>AndNot\<close>, \<open>Not\<close>, the shifts (to the
  right rounding to minus infinity), and single bits, with a panic on a negative bit index.\<close>

theorem Int_twos_complement:
  assumes "Int_ok x" "Int_ok y"
  shows "int_result (Int_And x y) (ival x AND ival y) \<and> int_result (Int_Or x y) (ival x OR ival y) \<and>
    int_result (Int_Xor x y) (ival x XOR ival y) \<and> int_result (Int_AndNot x y) (ival x AND NOT (ival y)) \<and>
    int_result (Int_Not x) (NOT (ival x)) \<and>
    int_result (Int_Lsh x n) (ival x * 2 ^ n) \<and> int_result (Int_Rsh x n) (ival x div 2 ^ n) \<and>
    Int_Bit x i = (if i < 0 then Inl (PanicMsg ''negative bit index'') else Inr (of_bool (bit (ival x) (nat i)))) \<and>
    (if i < 0 then Int_SetBit x i 1 = Inl (PanicMsg ''negative bit index'')
     else int_result (Int_SetBit x i 1) (set_bit (nat i) (ival x)) \<and>
          int_result (Int_SetBit x i 0) (unset_bit (nat i) (ival x)))"
  using Int_And_val [OF assms] Int_Or_val [OF assms] Int_Xor_val [OF assms] Int_AndNot_val [OF assms]
    Int_Not_val [OF assms(1)] Int_Lsh_val [OF assms(1), of n] Int_Rsh_val [OF assms(1), of n]
    Int_Bit_val [OF assms(1), of i] Int_SetBit_val [OF assms(1), of 1 i] Int_SetBit_val [OF assms(1), of 0 i] Int_SetBit_negative [of i x 1]
  by (simp add: push_bit_eq_mult drop_bit_eq_div)

theorem Int_twos_complement_witness:
  "\<exists>z. Int_And \<lparr>ineg = True, iabs = [6]\<rparr> \<lparr>ineg = False, iabs = [12]\<rparr> = Inr z \<and> Int_ok z \<and> ival z = 8"
  using Int_twos_complement [of "\<lparr>ineg = True, iabs = [6]\<rparr>" "\<lparr>ineg = False, iabs = [12]\<rparr>" 0 0]
  by (simp add: int_result_def normal_def)

text \<open>The laws of a commutative ring hold between the results of the signed operations
  themselves, as sequences of words and a sign: the order in which a caller adds and
  multiplies does not show in the outcome.\<close>

theorem Int_ring_laws:
  assumes "Int_ok x" "Int_ok y" "Int_ok z"
  shows "Int_Add x y = Int_Add y x \<and> Int_mul x y = Int_mul y x \<and>
    bind_go (Int_Add x y) (\<lambda>s. Int_Add s z) = bind_go (Int_Add y z) (Int_Add x) \<and>
    bind_go (Int_mul x y) (\<lambda>s. Int_mul s z) = bind_go (Int_mul y z) (Int_mul x) \<and>
    bind_go (Int_Add y z) (Int_mul x) = bind_go (Int_mul x y) (\<lambda>p. bind_go (Int_mul x z) (Int_Add p)) \<and>
    bind_go (Int_Sub x y) (\<lambda>d. Int_Add d y) = Inr x"
  using assms Int.add_commute Int.mul_commute Int.add_assoc Int.mul_assoc Int.mul_add Int.sub_add by simp

theorem Int_ring_laws_witness:
  "Int_mul \<lparr>ineg = True, iabs = [1, 2]\<rparr> \<lparr>ineg = False, iabs = [0, 3]\<rparr> = Int_mul \<lparr>ineg = False, iabs = [0, 3]\<rparr> \<lparr>ineg = True, iabs = [1, 2]\<rparr>"
  using Int_ring_laws [of "\<lparr>ineg = True, iabs = [1, 2]\<rparr>" "\<lparr>ineg = False, iabs = [0, 3]\<rparr>" "\<lparr>ineg = False, iabs = []\<rparr>"]
  by (simp add: normal_def)

text \<open>Conversion from and to \<open>int64\<close>: every value survives the round trip, \<open>NewInt\<close> builds what
  \<open>SetInt64\<close> sets, and \<open>IsInt64\<close> tells exactly the integers that \<open>Int64\<close> returns unchanged.\<close>

theorem Int64_roundtrip:
  assumes "Int_ok x"
  shows "Int_ok (SetInt64 w) \<and> ival (SetInt64 w) = sint w \<and> Int_Int64 (SetInt64 w) = w \<and> NewInt w = SetInt64 w \<and>
    (IsInt64 x \<longleftrightarrow> - (2 ^ 63) \<le> ival x \<and> ival x < 2 ^ 63) \<and> (IsInt64 x \<longleftrightarrow> sint (Int_Int64 x) = ival x)"
  using SetInt64_val [of w] Int64_SetInt64 NewInt_eq IsInt64_iff [OF assms] Int_Int64_val [OF assms]
    sint_ge [of "Int_Int64 x"] sint_lt [of "Int_Int64 x"] by auto

theorem Int64_roundtrip_witness:
  "IsInt64 \<lparr>ineg = True, iabs = [2 ^ 63]\<rparr> \<and> \<not> IsInt64 \<lparr>ineg = False, iabs = [2 ^ 63]\<rparr>"
  using Int64_roundtrip [of "\<lparr>ineg = True, iabs = [2 ^ 63]\<rparr>" 0] Int64_roundtrip [of "\<lparr>ineg = False, iabs = [2 ^ 63]\<rparr>" 0]
  by (simp add: normal_def)

end
