(* ===== verification/Big_Div.thy ===== *)
theory Big_Div
  imports Big_Int
begin

text \<open>
  Division of numbers of any length (\<open>math/big/natdiv.go\<close>): long division with the quotient
  digit guessed from three words by two and corrected at most once, the recursive division
  that treats half of the divisor's words as one wide digit, the scaling that sets the top bit
  of the divisor, and the division operations of \<open>Int\<close> (\<open>int.go\<close>), truncated and Euclidean.

  The slices \<open>q\<close> and \<open>u\<close> that the code overwrites are arguments and results.  A slice
  expression beyond the length is a panic here, also where the source would find more
  capacity; the theorems show that no such expression is evaluated.
\<close>

section \<open>Long division\<close>

definition greaterThan :: "Word \<Rightarrow> Word \<Rightarrow> Word \<Rightarrow> Word \<Rightarrow> bool" where
  "greaterThan x1 x2 y1 y2 \<longleftrightarrow> x1 > y1 \<or> x1 = y1 \<and> x2 > y2"

lemma mulWW_zero [simp]: "mulWW 0 y = (0, 0)"
proof -
  obtain hi lo where m: "Mul64 0 y = (hi, lo)" by fastforce
  then have "unat hi * B + unat lo = 0" using Mul64_B [OF m] by simp
  then have "hi = 0 \<and> lo = 0" by (simp add: unat_eq_0)
  then show ?thesis using m by (simp add: mulWW_def)
qed

text \<open>The loop that refines the guess: it runs while \<open>qhat\<close> times the second word is too large.\<close>

function divBasic_refine :: "Word \<Rightarrow> Word \<Rightarrow> Word \<Rightarrow> Word \<Rightarrow> Word \<Rightarrow> Word" where
  "divBasic_refine vn1 vn2 ujn2 qhat rhat =
     (let (x1, x2) = mulWW qhat vn2 in
      if greaterThan x1 x2 rhat ujn2 then
        let qhat = qhat - 1; prevRhat = rhat; rhat = rhat + vn1
        in if rhat < prevRhat then qhat else divBasic_refine vn1 vn2 ujn2 qhat rhat
      else qhat)"
  by auto
termination
proof (relation "measure (\<lambda>(vn1, vn2, ujn2, qhat, rhat). unat qhat)", goal_cases)
  case (2 vn1 vn2 ujn2 qhat rhat x x1 x2 q p r)
  have "qhat \<noteq> 0"
  proof
    assume "qhat = 0"
    then have "x1 = 0" "x2 = 0" using 2(1,2) by simp_all
    then show False using 2(3) by (simp add: greaterThan_def)
  qed
  then show ?case using 2(4) by (simp add: unat_minus_one unat_gt_0 word_neq_0_conv)
qed simp

declare divBasic_refine.simps [simp del]

text \<open>One guess of a digit.\<close>

definition divBasic_guess :: "Word list \<Rightarrow> Word \<Rightarrow> Word list \<Rightarrow> nat \<Rightarrow> Word \<Rightarrow> Word go" where
  "divBasic_guess v rec u j ujn =
     (let n = length v; vn1 = v ! (n - 1) in
      if ujn \<noteq> vn1 then
        let (qhat, rhat) = divWW ujn (u ! (j + n - 1)) vn1 rec
        in if n < 2 then Inl IndexOutOfRange
           else Inr (divBasic_refine vn1 (v ! (n - 2)) (u ! (j + n - 2)) qhat rhat)
      else Inr (NOT 0))"

text \<open>One digit of the quotient: the new segment of \<open>u\<close> and the digit.\<close>

definition divBasic_digit :: "Word list \<Rightarrow> Word list \<Rightarrow> nat \<Rightarrow> Word \<Rightarrow> (Word list \<times> Word) go" where
  "divBasic_digit v u j qhat =
     (let n = length v in
      bind_go (mulAddVWW_g n v qhat 0) (\<lambda>(qv, top).
        let qhl = (if j + (n + 1) > length u \<and> top = 0 then n else n + 1);
            qhatv = qv @ [top]
        in if j + qhl > length u then Inl SliceBoundsOutOfRange
           else
             bind_go (subVV_g qhl (take qhl (drop j u)) (take qhl qhatv)) (\<lambda>(w, c).
               if c \<noteq> 0 then
                 bind_go (addVV_g n (take n w) v) (\<lambda>(w', c).
                   let w = w' @ drop n w; w = (if n < qhl then w[n := w ! n + c] else w)
                   in Inr (take j u @ w @ drop (j + qhl) u, qhat - 1))
               else Inr (take j u @ w @ drop (j + qhl) u, qhat))))"

text \<open>The loop over the digits, from the highest; the last argument counts the iterations left.\<close>

fun divBasic_loop :: "nat \<Rightarrow> Word list \<Rightarrow> Word \<Rightarrow> Word list \<Rightarrow> Word list \<Rightarrow> Word \<Rightarrow> nat \<Rightarrow> (Word list \<times> Word list) go" where
  "divBasic_loop m v rec q u ujn 0 = Inr (q, u)"
| "divBasic_loop m v rec q u ujn (Suc j) =
     bind_go (divBasic_guess v rec u j ujn) (\<lambda>qhat.
     bind_go (divBasic_digit v u j qhat) (\<lambda>(u, qhat).
       let ujn = u ! (j + length v - 1) in
       if j = m \<and> m = length q \<and> qhat = 0 then divBasic_loop m v rec q u ujn j
       else if j \<ge> length q then Inl IndexOutOfRange
       else divBasic_loop m v rec (q[j := qhat]) u ujn j))"

definition divBasic :: "Word list \<Rightarrow> Word list \<Rightarrow> Word list \<Rightarrow> (Word list \<times> Word list) go option" where
  "divBasic q u v =
     (let n = length v in
      if n = 0 then Some (Inl IndexOutOfRange)
      else
        map_option
          (\<lambda>rec. bind_go rec (\<lambda>rec.
             if length u < n then Inr (q, u)
             else divBasic_loop (length u - n) v rec q u 0 (length u - n + 1)))
          (reciprocalWord (v ! (n - 1))))"

section \<open>Recursive division\<close>

text \<open>Code after a call that may panic or not return.\<close>

definition bind_opt :: "'a go option \<Rightarrow> ('a \<Rightarrow> 'b go option) \<Rightarrow> 'b go option" where
  "bind_opt m f = (case m of None \<Rightarrow> None | Some (Inl p) \<Rightarrow> Some (Inl p) | Some (Inr x) \<Rightarrow> f x)"

lemma bind_opt_simps [simp]:
  "bind_opt None f = None" "bind_opt (Some (Inl p)) f = Some (Inl p)" "bind_opt (Some (Inr x)) f = f x"
  by (simp_all add: bind_opt_def)

lemma bind_opt_cong [fundef_cong]:
  "m = m' \<Longrightarrow> (\<And>x. m' = Some (Inr x) \<Longrightarrow> f x = g x) \<Longrightarrow> bind_opt m f = bind_opt m' g"
  by (auto simp: bind_opt_def split: option.split sum.split)

abbreviation divRecursiveThreshold :: nat where "divRecursiveThreshold \<equiv> 40"

text \<open>
  The guess is one too large: \<open>qhat\<close> is decremented, and \<open>v\<close> is added back, its low \<open>s\<close> words by
  taking them off \<open>qhatv\<close>, the others onto \<open>uu\<close>.  The storage of \<open>qhatv\<close> was cleared, so a slice
  of \<open>s\<close> words of a shorter \<open>qhatv\<close> has zeros above its length.
\<close>

definition divRec_decrement ::
  "nat \<Rightarrow> Word list \<Rightarrow> Word list \<Rightarrow> Word list \<Rightarrow> Word list \<Rightarrow> (Word list \<times> Word list \<times> Word list) go" where
  "divRec_decrement s v qhat qhatv uu =
     bind_go (subVW (length qhat) qhat 1) (\<lambda>(qhat, _).
     bind_go (subVV_g s (take s (pad s qhatv)) (take s v)) (\<lambda>(w, c).
     bind_go (if length qhatv > s then subVW (length qhatv - s) (drop s qhatv) c else Inr ([], 0)) (\<lambda>(w', _).
     bind_go (addTo (drop s uu) (drop s v)) (\<lambda>uu'.
       Inr (qhat, (if length qhatv > s then w @ w' else take (length qhatv) w), take s uu @ uu')))))"

fun divRec_adjust ::
  "nat \<Rightarrow> nat \<Rightarrow> Word list \<Rightarrow> Word list \<Rightarrow> Word list \<Rightarrow> Word list \<Rightarrow> (Word list \<times> Word list \<times> Word list) go" where
  "divRec_adjust 0 s v qhat qhatv uu = Inr (qhat, qhatv, uu)"
| "divRec_adjust (Suc i) s v qhat qhatv uu =
     (if nat_cmp qhatv (nat_norm uu) \<le> 0 then Inr (qhat, qhatv, uu)
      else bind_go (divRec_decrement s v qhat qhatv uu) (\<lambda>(qhat, qhatv, uu). divRec_adjust i s v qhat qhatv uu))"

text \<open>From the guess to the quotient digit and the remainder, with the last borrow.\<close>

definition divRec_finish :: "nat \<Rightarrow> Word list \<Rightarrow> Word list \<Rightarrow> Word list \<Rightarrow> (Word list \<times> Word list \<times> Word) go" where
  "divRec_finish s v qhat uu =
     bind_go (nat_mul qhat (take s v)) (\<lambda>qhatv.
     bind_go (divRec_adjust 2 s v qhat qhatv uu) (\<lambda>(qhat, qhatv, uu).
       let k = length qhatv in
       if nat_cmp qhatv (nat_norm uu) > 0 then Inl (PanicMsg ''impossible'')
       else if k > length uu then Inl SliceBoundsOutOfRange
       else
         bind_go (subVV_g k (take k uu) qhatv) (\<lambda>(w, c).
           if c > 0 then bind_go (subVW (length uu - k) (drop k uu) c) (\<lambda>(w', c). Inr (qhat, w @ w', c))
           else Inr (qhat, w @ drop k uu, c))))"

text \<open>
  \<open>divRecursiveStep\<close> and its loop over the wide digits of \<open>v\<close>, each of half as many words as \<open>v\<close>
  has.  A divisor reaches the loop with at least 40 words, so a wide digit has at least 20 and
  the second conjunct of its test always holds.
\<close>

function divRecursiveStep :: "Word list \<Rightarrow> Word list \<Rightarrow> Word list \<Rightarrow> (Word list \<times> Word list) go option"
  and divRecursive_loop :: "Word list \<Rightarrow> Word list \<Rightarrow> Word list \<Rightarrow> nat \<Rightarrow> (Word list \<times> Word list) go option"
where
  "divRecursiveStep z u0 v0 =
     (let u = nat_norm u0; v = nat_norm v0; rest = drop (length u) u0; n = length v in
      if length u = 0 then Some (Inr (replicate (length z) 0, u0))
      else if n < divRecursiveThreshold then
        bind_opt (divBasic z u v) (\<lambda>(z, u). Some (Inr (z, u @ rest)))
      else if length u < n then Some (Inr (z, u0))
      else
        bind_opt (divRecursive_loop z u v (length u - n)) (\<lambda>(z, u).
          let s = n div 2 - 1; w = nat_norm (drop s u) in
          bind_opt (divRecursiveStep (replicate (n div 2 + 1) 0) w (drop s v)) (\<lambda>(qhat, r).
            let u = take s u @ r @ drop (s + length w) u in
            bind_opt (Some (divRec_finish s v (nat_norm qhat) u)) (\<lambda>(qhat, u, c).
              if c > 0 then Some (Inl (PanicMsg ''impossible''))
              else bind_opt (Some (addTo z (nat_norm qhat))) (\<lambda>z. Some (Inr (z, u @ rest)))))))"
| "divRecursive_loop z u v j =
     (let n = length v; k = n div 2 in
      if j > k \<and> 2 \<le> k then
        let s = k - 1; uu = drop (j - k) u in
        bind_opt (divRecursiveStep (replicate (k + 1) 0) (take (k + n - s) (drop s uu)) (drop s v)) (\<lambda>(qhat, r).
          let uu = take s uu @ r @ drop (k + n) uu in
          bind_opt (Some (divRec_finish s v (nat_norm qhat) uu)) (\<lambda>(qhat, uu, c).
            bind_opt (Some (addTo (drop (j - k) z) qhat)) (\<lambda>zz.
              divRecursive_loop (take (j - k) z @ zz) (take (j - k) u @ uu) v (j - k))))
      else Some (Inr (z, u)))"
  by pat_completeness auto
termination
proof (relation "measures [case_sum (\<lambda>(z, u, v). length v) (\<lambda>(z, u, v, j). length v),
    case_sum (\<lambda>_. 1) (\<lambda>_. 0), case_sum (\<lambda>_. 0) (\<lambda>(z, u, v, j). j)]", goal_cases)
  case (2 z u0 v0)
  then show ?case using length_nat_norm [of v0] by (auto simp: le_less)
next
  case (3 z u0 v0)
  then show ?case using length_nat_norm [of v0] by auto
qed auto

declare divRecursiveStep.simps [simp del] divRecursive_loop.simps [simp del]

definition divRecursive :: "Word list \<Rightarrow> Word list \<Rightarrow> Word list \<Rightarrow> (Word list \<times> Word list) go option" where
  "divRecursive z u v = divRecursiveStep (replicate (length z) 0) u v"

section \<open>Division of normalised numbers\<close>

definition divLarge :: "Word list \<Rightarrow> Word list \<Rightarrow> (Word list \<times> Word list) go option" where
  "divLarge uIn vIn =
     (let n = length vIn; m = length uIn - n; shift = nlz (vIn ! (n - 1)) in
      bind_opt (Some (if shift = 0 then Inr (vIn, 0) else lshVU_g n vIn shift)) (\<lambda>(v, _).
      bind_opt (Some (if shift = 0 then Inr (uIn, 0) else lshVU_g (length uIn) uIn shift)) (\<lambda>(u, top).
        let u = u @ [top]; q = replicate (m + 1) 0 in
        bind_opt (if n < divRecursiveThreshold then divBasic q u v else divRecursive q u v) (\<lambda>(q, u).
        bind_opt (Some (if shift \<noteq> 0 then rshVU_g (length u) u shift else Inr (u, 0))) (\<lambda>(u, _).
          Some (Inr (nat_norm q, nat_norm u)))))))"

definition nat_div :: "Word list \<Rightarrow> Word list \<Rightarrow> (Word list \<times> Word list) go option" where
  "nat_div u v =
     (if length v = 0 then Some (Inl (PanicMsg ''division by zero''))
      else if length v = 1 then
        bind_opt (nat_divW u (v ! 0)) (\<lambda>(q, r2). Some (Inr (q, setWord r2)))
      else if nat_cmp u v < 0 then Some (Inr ([], u))
      else divLarge u v)"

definition nat_rem :: "Word list \<Rightarrow> Word list \<Rightarrow> Word list go option" where
  "nat_rem u v = bind_opt (nat_div u v) (\<lambda>(_, r). Some (Inr r))"

section \<open>Square roots\<close>

text \<open>
  Newton's iteration, which stops at the first value that is not smaller than the one before.
  The count of the iterations in the source only decides which of two buffers to copy.
\<close>

partial_function (option) nat_sqrt_loop :: "Word list \<Rightarrow> Word list \<Rightarrow> Word list go option" where
  "nat_sqrt_loop x z1 =
     (case nat_div x z1 of
        None \<Rightarrow> None
      | Some (Inl p) \<Rightarrow> Some (Inl p)
      | Some (Inr (z2, _)) \<Rightarrow>
          (case bind_go (nat_add z2 z1) (\<lambda>z2. nat_rsh z2 1) of
             Inl p \<Rightarrow> Some (Inl p)
           | Inr z2 \<Rightarrow> if nat_cmp z2 z1 \<ge> 0 then Some (Inr z1) else nat_sqrt_loop x z2))"

definition nat_sqrt :: "Word list \<Rightarrow> Word list go option" where
  "nat_sqrt x =
     (if nat_cmp x natOne \<le> 0 then Some (Inr x)
      else bind_opt (Some (nat_lsh (setUint64 1) ((nat_bitLen x + 1) div 2))) (\<lambda>z1. nat_sqrt_loop x z1))"

section \<open>Signed division\<close>

definition intOne :: BigInt where
  "intOne = \<lparr>ineg = False, iabs = natOne\<rparr>"

definition Int_QuoRem :: "BigInt \<Rightarrow> BigInt \<Rightarrow> (BigInt \<times> BigInt) go option" where
  "Int_QuoRem x y =
     bind_opt (nat_div (iabs x) (iabs y)) (\<lambda>(q, r).
       Some (Inr (\<lparr>ineg = length q > 0 \<and> ineg x \<noteq> ineg y, iabs = q\<rparr>, \<lparr>ineg = length r > 0 \<and> ineg x, iabs = r\<rparr>)))"

definition Int_Quo :: "BigInt \<Rightarrow> BigInt \<Rightarrow> BigInt go option" where
  "Int_Quo x y =
     bind_opt (nat_div (iabs x) (iabs y)) (\<lambda>(q, _). Some (Inr \<lparr>ineg = length q > 0 \<and> ineg x \<noteq> ineg y, iabs = q\<rparr>))"

definition Int_Rem :: "BigInt \<Rightarrow> BigInt \<Rightarrow> BigInt go option" where
  "Int_Rem x y =
     bind_opt (nat_div (iabs x) (iabs y)) (\<lambda>(_, r). Some (Inr \<lparr>ineg = length r > 0 \<and> ineg x, iabs = r\<rparr>))"

definition Int_Div :: "BigInt \<Rightarrow> BigInt \<Rightarrow> BigInt go option" where
  "Int_Div x y =
     bind_opt (Int_QuoRem x y) (\<lambda>(z, r).
       if ineg r then (if ineg y then Some (Int_Add z intOne) else Some (Int_Sub z intOne)) else Some (Inr z))"

definition Int_Mod :: "BigInt \<Rightarrow> BigInt \<Rightarrow> BigInt go option" where
  "Int_Mod x y =
     bind_opt (Int_QuoRem x y) (\<lambda>(_, z).
       if ineg z then (if ineg y then Some (Int_Sub z y) else Some (Int_Add z y)) else Some (Inr z))"

definition Int_DivMod :: "BigInt \<Rightarrow> BigInt \<Rightarrow> (BigInt \<times> BigInt) go option" where
  "Int_DivMod x y =
     bind_opt (Int_QuoRem x y) (\<lambda>(z, m).
       if ineg m then
         if ineg y then
           bind_opt (Some (Int_Add z intOne)) (\<lambda>z. bind_opt (Some (Int_Sub m y)) (\<lambda>m. Some (Inr (z, m))))
         else
           bind_opt (Some (Int_Sub z intOne)) (\<lambda>z. bind_opt (Some (Int_Add m y)) (\<lambda>m. Some (Inr (z, m))))
       else Some (Inr (z, m)))"

definition Int_Sqrt :: "BigInt \<Rightarrow> BigInt go option" where
  "Int_Sqrt x =
     (if ineg x then Some (Inl (PanicMsg ''square root of negative number''))
      else bind_opt (nat_sqrt (iabs x)) (\<lambda>z. Some (Inr \<lparr>ineg = False, iabs = z\<rparr>)))"

end
