(* ===== verification/Big_Div_Correct.thy ===== *)
theory Big_Div_Correct
  imports Big_Div
begin

text \<open>
  Correctness of the division of \<open>Big_Div\<close>: the guesses are at most one too large, every digit
  is exact after its correction, and quotient and remainder are those of the numbers.
\<close>

section \<open>The guess\<close>

lemma greaterThan_iff:
  "greaterThan x1 x2 y1 y2 \<longleftrightarrow> unat y1 * B + unat y2 < unat x1 * B + unat x2"
proof -
  have "Suc (unat x1) * B \<le> unat y1 * B" if "x1 < y1" using that by (intro mult_le_mono1) (simp add: word_less_nat_alt)
  moreover have "Suc (unat y1) * B \<le> unat x1 * B" if "y1 < x1" using that by (intro mult_le_mono1) (simp add: word_less_nat_alt)
  moreover have "unat x2 < B" "unat y2 < B" by simp_all
  ultimately show ?thesis
    unfolding greaterThan_def by (cases x1 y1 rule: linorder_cases) (auto simp: word_less_nat_alt simp del: unat_less_B)
qed

lemma mulWW_val: "mulWW x y = (hi, lo) \<Longrightarrow> unat hi * B + unat lo = unat x * unat y"
  unfolding mulWW_def by (rule Mul64_B)

text \<open>The refined guess is the exact quotient of three words by two.\<close>

lemma divBasic_refine_val:
  assumes "vn1 \<noteq> 0" "unat q * unat vn1 + unat r = N" "(N * B + unat u2) div (unat vn1 * B + unat vn2) \<le> unat q"
  shows "unat (divBasic_refine vn1 vn2 u2 q r) = (N * B + unat u2) div (unat vn1 * B + unat vn2)"
  using assms(2,3)
proof (induction "unat q" arbitrary: q r rule: less_induct)
  case less
  define V U where "V = unat vn1 * B + unat vn2" and "U = N * B + unat u2"
  have V: "0 < V" using assms(1) by (simp add: V_def unat_gt_0)
  obtain x1 x2 where x: "mulWW q vn2 = (x1, x2)" by fastforce
  have eq: "unat q * V = unat q * unat vn1 * B + unat q * unat vn2" by (simp add: V_def algebra_simps)
  have U: "U = unat q * unat vn1 * B + (unat r * B + unat u2)" unfolding U_def using less.prems(1) by (auto simp: algebra_simps)
  have gt: "greaterThan x1 x2 r u2 \<longleftrightarrow> U < unat q * V"
    unfolding greaterThan_iff mulWW_val [OF x] using eq U by simp
  show ?case
  proof (cases "greaterThan x1 x2 r u2")
    case False
    then have "unat q * V \<le> U" using gt by simp
    then have "unat q \<le> U div V" using V by (simp add: less_eq_div_iff_mult_less_eq)
    then have "unat q = U div V" using less.prems(2) by (simp add: U_def V_def)
    then show ?thesis using False x by (subst divBasic_refine.simps) (simp add: U_def V_def)
  next
    case True
    then have lt: "U < unat q * V" using gt by simp
    then have q: "0 < unat q" by (cases "unat q") auto
    have q1: "unat (q - 1) = unat q - 1" using q by (intro unat_minus_one) (auto simp: unat_gt_0)
    have le: "U div V \<le> unat (q - 1)"
      using lt V q1 by (metis div_less_iff_less_mult less_Suc_eq_le Suc_pred' q)
    show ?thesis
    proof (cases "r + vn1 < r")
      case over: True
      have "B \<le> unat r + unat vn1"
        using over no_olen_add_nat [of r vn1] by (auto simp: B_def not_le word_le_nat_alt word_less_nat_alt)
      then have "B * B \<le> (unat r + unat vn1) * B" by (intro mult_le_mono1)
      moreover have "unat (q - 1) * unat vn2 \<le> B * B" by (intro mult_le_mono) (simp_all add: less_imp_le)
      moreover have "U = unat (q - 1) * unat vn1 * B + ((unat r + unat vn1) * B + unat u2)"
        using U q unfolding q1 by (cases "unat q") (auto simp: algebra_simps)
      ultimately have "unat (q - 1) * V \<le> U" by (simp add: V_def algebra_simps)
      then have "unat (q - 1) \<le> U div V" using V by (simp add: less_eq_div_iff_mult_less_eq)
      then have "unat (q - 1) = U div V" using le by simp
      then show ?thesis using True over x by (subst divBasic_refine.simps) (simp add: U_def V_def)
    next
      case False
      then have ge: "r \<le> r + vn1" by simp
      have s: "unat (r + vn1) = unat r + unat vn1" using ge by (simp add: unat_plus_simple)
      have "unat (divBasic_refine vn1 vn2 u2 (q - 1) (r + vn1)) = U div V"
        unfolding U_def V_def
      proof (rule less.hyps)
        show "unat (q - 1) * unat vn1 + unat (r + vn1) = N"
          using less.prems(1) q unfolding q1 s by (cases "unat q") auto
        show "(N * B + unat u2) div (unat vn1 * B + unat vn2) \<le> unat (q - 1)" using le by (simp add: U_def V_def)
      qed (use q1 q in simp)
      then show ?thesis using True False x by (subst divBasic_refine.simps) (simp add: U_def V_def)
    qed
  qed
qed

text \<open>
  Two numbers that agree with \<open>W\<close> and \<open>V\<close> in their leading words: their quotient is the
  quotient of \<open>W\<close> by \<open>V\<close> or one more (Knuth).
\<close>

lemma guess_close:
  fixes W V U3 V2 b :: nat
  assumes "W div b = U3" "V div b = V2" "0 < b" "U3 div V2 \<le> V2" "0 < V2"
  shows "W div V \<le> U3 div V2 \<and> U3 div V2 \<le> Suc (W div V)"
proof
  have V: "V2 * b \<le> V" "V < Suc V2 * b" and W: "U3 * b \<le> W" "W < Suc U3 * b"
    using assms(1-3) dividend_less_div_times [of b V] dividend_less_div_times [of b W]
    by (auto simp: div_times_less_eq_dividend)
  have Vp: "0 < V" using V(1) assms(3,5) by (metis gr0I mult_is_0 not_le)
  define q where "q = W div V"
  have "q * V2 * b \<le> q * V" using V(1) by (simp add: mult.assoc)
  also have "\<dots> \<le> W" by (simp add: q_def)
  also have "\<dots> < Suc U3 * b" by (rule W)
  finally have "q * V2 < Suc U3" by (simp only: mult_less_cancel2)
  then show "W div V \<le> U3 div V2" using assms(5) by (simp add: q_def less_eq_div_iff_mult_less_eq)
  show "U3 div V2 \<le> Suc (W div V)"
  proof (cases "U3 div V2")
    case (Suc k)
    have "k * Suc V2 \<le> U3"
    proof -
      have "Suc k * V2 \<le> U3" using Suc by (metis div_times_less_eq_dividend)
      moreover have "k \<le> V2" using Suc assms(4) by simp
      ultimately show ?thesis by simp
    qed
    then have "k * Suc V2 * b \<le> U3 * b" by (rule mult_le_mono1)
    moreover have "k * V \<le> k * (Suc V2 * b)" using V(2) by (intro mult_le_mono2) simp
    ultimately have "k * V \<le> W" using W(1) by (simp only: mult.assoc)
    then have "k \<le> W div V" using Vp by (simp add: less_eq_div_iff_mult_less_eq)
    then show ?thesis using Suc by simp
  qed simp
qed

text \<open>The case of equal leading words, in which the guess is the largest digit.\<close>

lemma guess_max:
  fixes W V v1 b :: nat
  assumes "V div b = v1" "v1 * B \<le> W div b" "W < B * V" "B \<le> 2 * v1" "0 < b"
  shows "W div V \<le> B - 1 \<and> B - 1 \<le> Suc (W div V)"
proof
  have v1: "0 < v1" using assms(4) B_pos(1) by linarith
  have V: "v1 * b \<le> V" "V < Suc v1 * b" using assms(1,5) dividend_less_div_times [of b V] by (auto simp: div_times_less_eq_dividend)
  have Vp: "0 < V" using V(1) v1 assms(5) by (metis gr0I mult_is_0 not_le)
  have "W div V < B" using assms(3) Vp by (simp add: div_less_iff_less_mult)
  then show "W div V \<le> B - 1" by simp
  have "(B - 2) * Suc v1 \<le> v1 * B"
  proof -
    have "(B - 2) * Suc v1 = (B - 2) * v1 + (B - 2)" by simp
    also have "\<dots> \<le> (B - 2) * v1 + 2 * v1" using assms(4) by simp
    also have "\<dots> = v1 * B" by (simp add: B_def algebra_simps)
    finally show ?thesis .
  qed
  then have "(B - 2) * Suc v1 * b \<le> v1 * B * b" by (rule mult_le_mono1)
  moreover have "v1 * B * b \<le> W" using assms(2,5) by (simp add: less_eq_div_iff_mult_less_eq)
  moreover have "(B - 2) * V \<le> (B - 2) * (Suc v1 * b)" using V(2) by (intro mult_le_mono2) simp
  ultimately have "(B - 2) * V \<le> W" by (simp only: mult.assoc)
  then have "B - 2 \<le> W div V" using Vp by (simp add: less_eq_div_iff_mult_less_eq)
  then show "B - 1 \<le> Suc (W div V)" by simp
qed

lemma val_div_step: "k < length x \<Longrightarrow> Suc k = k' \<Longrightarrow> val x div B ^ k = unat (x ! k) + B * (val x div B ^ k')"
  by (metis Cons_nth_drop_Suc val.simps(2) val_drop_eq)

lemma val_div_length: "length x \<le> k \<Longrightarrow> val x div B ^ k = 0"
  by (metis drop_all val.simps(1) val_drop_eq)

text \<open>A divisor of at least two words whose top bit is set.\<close>

definition divisor_ok :: "Word list \<Rightarrow> bool" where
  "divisor_ok v \<longleftrightarrow> 2 \<le> length v \<and> B \<le> 2 * unat (v ! (length v - 1))"

lemma divisor_digits:
  assumes "divisor_ok v"
  defines "n \<equiv> length v"
  shows "val v div B ^ (n - 1) = unat (v ! (n - 1))" "val v div B ^ (n - 2) = unat (v ! (n - 1)) * B + unat (v ! (n - 2))"
    "B ^ n \<le> 2 * val v" "0 < unat (v ! (n - 1))" "0 < val v"
proof -
  have n: "2 \<le> n" "B \<le> 2 * unat (v ! (n - 1))" using assms(1) by (auto simp: divisor_ok_def n_def)
  show one: "val v div B ^ (n - 1) = unat (v ! (n - 1))"
    using val_div_step [of "n - 1" v n] val_div_length [of v n] n(1) by (simp add: n_def)
  have "Suc (n - 2) = n - 1" using n(1) by simp
  then show "val v div B ^ (n - 2) = unat (v ! (n - 1)) * B + unat (v ! (n - 2))"
    using val_div_step [of "n - 2" v "n - 1"] n(1) one by (simp add: n_def)
  have "unat (v ! (n - 1)) * B ^ (n - 1) \<le> val v" by (metis one div_times_less_eq_dividend)
  moreover have "B * B ^ (n - 1) \<le> 2 * unat (v ! (n - 1)) * B ^ (n - 1)" using n(2) by (rule mult_le_mono1)
  moreover have "B * B ^ (n - 1) = B ^ n" using n(1) by (cases n) simp_all
  ultimately show "B ^ n \<le> 2 * val v" by (simp only: mult.assoc)
  show "0 < unat (v ! (n - 1))" using n(2) B_pos(1) by (metis gr0I mult_0_right not_le)
  have "0 < B ^ n" by simp
  then show "0 < val v" using \<open>B ^ n \<le> 2 * val v\<close> by linarith
qed

lemma divBasic_guess_val:
  assumes v: "divisor_ok v" and rec: "reciprocalWord (v ! (length v - 1)) = Some (Inr rec)"
    and u: "j + length v \<le> length u" "W = val (drop j u)" "W < B * val v" "unat ujn = W div B ^ length v"
  shows "\<exists>q. divBasic_guess v rec u j ujn = Inr q \<and> W div val v \<le> unat q \<and> unat q \<le> Suc (W div val v) \<and>
    (length u = j + length v \<longrightarrow> unat q \<le> 1)"
proof -
  define n where "n = length v"
  define v1 v2 u1 u2 where "v1 = v ! (n - 1)" and "v2 = v ! (n - 2)" and "u1 = u ! (j + n - 1)" and "u2 = u ! (j + n - 2)"
  have n: "2 \<le> n" "B \<le> 2 * unat v1" using v by (auto simp: divisor_ok_def n_def v1_def)
  note vd = divisor_digits [OF v, folded n_def, folded v1_def v2_def]
  have nat: "Suc (n - 2) = n - 1" "Suc (n - 1) = n" "B * B ^ (n - 1) = B ^ n" using n(1) by (auto simp flip: power_Suc)
  have at: "drop j u ! (n - 1) = u1" "drop j u ! (n - 2) = u2"
    using u(1) n(1) by (simp_all add: u1_def u2_def n_def)
  have w1: "W div B ^ (n - 1) = unat u1 + B * unat ujn"
    using val_div_step [of "n - 1" "drop j u" n] u(1,2,4) n(1) nat(2) at by (simp add: n_def)
  have w2: "W div B ^ (n - 2) = unat u2 + B * (unat u1 + B * unat ujn)"
    using val_div_step [of "n - 2" "drop j u" "n - 1"] u(1,2) n(1) nat(1) at w1 by (simp add: n_def)
  have le: "unat ujn \<le> unat v1"
  proof -
    have "W div B ^ n \<le> (B * val v) div (B * B ^ (n - 1))" unfolding nat(3) using u(3) by (intro div_le_mono) simp
    also have "\<dots> = unat v1" using vd(1) by simp
    finally show ?thesis using u(4) by (simp add: n_def)
  qed
  show ?thesis
  proof (cases "ujn = v1")
    case True
    have "unat v1 * B \<le> W div B ^ (n - 1)" unfolding w1 True by (simp add: mult.commute)
    then have "W div val v \<le> B - 1 \<and> B - 1 \<le> Suc (W div val v)"
      using guess_max [OF vd(1) _ u(3) n(2)] by simp
    moreover have "unat (NOT 0 :: Word) = B - 1" by (simp add: B_def unsigned_minus_1_eq_mask mask_eq_exp_minus_1)
    moreover have "length u \<noteq> j + n"
    proof
      assume "length u = j + n"
      then have "W div B ^ n = 0" using u(2) by (intro val_div_length [of "drop j u" n, folded u(2)]) simp
      then show False using u(4) True vd(4) by (simp add: n_def)
    qed
    ultimately show ?thesis using True by (simp add: divBasic_guess_def n_def v1_def)
  next
    case False
    then have "unat ujn \<noteq> unat v1" by (simp add: word_unat_eq_iff)
    then have lt: "ujn < v1" using le by (simp add: word_less_nat_alt)
    have rec': "reciprocalWord v1 = Some (Inr rec)" using rec by (simp add: v1_def n_def)
    obtain q r where d: "divWW ujn u1 v1 rec = (q, r)" "unat q * unat v1 + unat r = unat ujn * B + unat u1" "r < v1"
      using divWW_val [OF lt rec'] by blast
    define N V2 where "N = unat ujn * B + unat u1" and "V2 = unat v1 * B + unat v2"
    have V2: "unat v1 * B \<le> V2" "0 < V2" "B \<le> V2" using vd(4) by (auto simp: V2_def intro: trans_le_add1)
    have q: "unat q = N div unat v1"
    proof -
      have "N div unat v1 = (unat r + unat q * unat v1) div unat v1" using d(2) by (simp add: N_def add.commute)
      also have "\<dots> = unat q" using d(3) vd(4) by (simp add: word_less_nat_alt)
      finally show ?thesis ..
    qed
    have "(N * B + unat u2) div V2 \<le> (N * B + unat u2) div (B * unat v1)"
      using V2(1) vd(4) by (intro div_le_mono2) (simp_all add: mult.commute)
    also have "\<dots> = unat q" unfolding q by (simp add: div_mult2_eq)
    finally have q2: "(N * B + unat u2) div V2 \<le> unat q" .
    have v10: "v1 \<noteq> 0" using vd(4) by auto
    have ref: "unat (divBasic_refine v1 v2 u2 q r) = (N * B + unat u2) div V2"
      unfolding V2_def using d(2) q2 by (intro divBasic_refine_val [OF v10]) (simp_all add: N_def V2_def)
    have w2': "W div B ^ (n - 2) = N * B + unat u2" unfolding w2 N_def by (simp add: algebra_simps)
    have "(N * B + unat u2) div V2 \<le> V2" using unat_less_B [of "divBasic_refine v1 v2 u2 q r"] V2(3) unfolding ref by simp
    then have close: "W div val v \<le> (N * B + unat u2) div V2 \<and> (N * B + unat u2) div V2 \<le> Suc (W div val v)"
      using guess_close [OF w2' vd(2) [folded V2_def] _ _ V2(2)] by simp
    have top: "(N * B + unat u2) div V2 \<le> 1" if "length u = j + n"
    proof -
      have "W div B ^ n = 0" using that u(2) by (intro val_div_length [of "drop j u" n, folded u(2)]) simp
      then have "N = unat u1" using u(4) by (simp add: N_def n_def)
      then have "N * B + unat u2 < Suc (unat u1) * B" by simp
      also have "\<dots> \<le> B * B" by (intro mult_le_mono1) (simp add: Suc_le_eq)
      also have "\<dots> \<le> 2 * unat v1 * B" using n(2) by (rule mult_le_mono1)
      also have "\<dots> \<le> 2 * V2" using V2(1) by simp
      finally have "(N * B + unat u2) div V2 < 2" using V2(2) by (simp add: div_less_iff_less_mult mult.commute)
      then show ?thesis by simp
    qed
    have "divBasic_guess v rec u j ujn = Inr (divBasic_refine v1 v2 u2 q r)"
      using False d(1) n(1) by (simp add: divBasic_guess_def Let_def v1_def v2_def u1_def u2_def n_def)
    then show ?thesis using ref close top by (simp add: n_def)
  qed
qed

section \<open>One digit\<close>

lemma val_take_all: "val x < B ^ k \<Longrightarrow> val (take k x) = val x \<and> val (drop k x) = 0"
  by (simp add: val_take_eq val_drop_eq)

lemma digit_eq_word: "unat w = k \<Longrightarrow> w = word_of_nat k"
  by (rule word_of_nat_eqI)

lemma digits_unique:
  fixes a r b x y :: nat
  assumes "a + x * b = r + y * b" "a < b" "r < b"
  shows "x = y \<and> a = r"
proof -
  have "(a + x * b) div b = x" "(r + y * b) div b = y" using assms(2,3) by simp_all
  then show ?thesis using assms(1) by simp
qed

text \<open>Adding the divisor back after a borrow.\<close>

lemma add_back:
  assumes w: "length w = k" "k = n \<or> k = Suc n" "length v = n" "val w + val v = R + B ^ k" "R < B ^ n"
  shows "\<exists>w' c. addVV_g n (take n w) v = Inr (w', c) \<and>
    (let x = w' @ drop n w; x = (if n < k then x[n := x ! n + c] else x) in val x = R \<and> length x = k)"
proof -
  obtain w' c where a: "addVV_loop (take n w) v 0 = (w', c)" by fastforce
  have len: "length (take n w) = length v" using w(1-3) by auto
  from addVV_loop_val [OF len _ a] have c: "val w' + unat c * B ^ n = val (take n w) + val v" "length w' = n" "unat c \<le> 1"
    using w(3) len by auto
  have w': "val w' < B ^ n" using val_less [of w'] c(2) by simp
  have g: "addVV_g n (take n w) v = Inr (w', c)" using a len w(3) by (simp add: addVV_g_def)
  show ?thesis
  proof (cases "k = n")
    case True
    then have "val w' + unat c * B ^ n = R + B ^ n" using c(1) w(1,4) by simp
    then have "val w' = R" using digits_unique [of "val w'" "unat c" "B ^ n" R 1] w' w(5) by simp
    then show ?thesis using g True w(1) c(2) by simp
  next
    case False
    then have k: "k = Suc n" using w(2) by simp
    have "length (drop n w) = Suc 0" using w(1) k by simp
    then obtain t where dn: "drop n w = [t]" by (metis length_0_conv length_Suc_conv)
    then have t: "w = take n w @ [t]" by (metis append_take_drop_id)
    have "val w = val (take n w) + B ^ n * unat t" by (subst t) (use w(1) k in \<open>simp add: val_append\<close>)
    then have "val w' + (unat c + unat t) * B ^ n = R + B * B ^ n"
      using c(1) w(4) k by (simp add: algebra_simps)
    then have s: "unat c + unat t = B \<and> val w' = R"
      using digits_unique w' w(5) by blast
    have "t + c = word_of_nat (unat t + unat c)" by simp
    also have "\<dots> = 0" unfolding add.commute [of "unat t"] using s by (simp add: B_def)
    finally have "t + c = 0" .
    then show ?thesis using g k s dn c(2) by (simp add: nth_append list_update_append val_append add.commute)
  qed
qed

lemma divBasic_digit_val:
  assumes v: "divisor_ok v" and u: "j + length v \<le> length u" "W = val (drop j u)" "W < B * val v"
    and q: "W div val v \<le> unat q" "unat q \<le> Suc (W div val v)" "length u = j + length v \<Longrightarrow> unat q \<le> 1"
  shows "\<exists>u' d. divBasic_digit v u j q = Inr (u', d) \<and> unat d = W div val v \<and> length u' = length u \<and>
    take j u' = take j u \<and> val (drop j u') = W mod val v"
proof -
  define n V where "n = length v" and "V = val v"
  have V: "0 < V" "V < B ^ n" using divisor_digits(5) [OF v] val_less [of v] by (simp_all add: V_def n_def)
  obtain qv top where m: "mulAddVWW_loop v q 0 = (qv, top)" by fastforce
  from mulAddVWW_loop_val [OF m] have qv: "val (qv @ [top]) = V * unat q" "length qv = n"
    by (simp_all add: val_append V_def n_def mult.commute)
  have qvt: "V * unat q = val qv + B ^ n * unat top" using qv by (simp add: val_append)
  define k where "k = (if j + (n + 1) > length u \<and> top = 0 then n else n + 1)"
  have k: "k = n \<or> k = Suc n" "j + k \<le> length u" "W < B ^ k" "val (take k (qv @ [top])) = V * unat q"
  proof -
    show "k = n \<or> k = Suc n" by (simp add: k_def)
    have WB: "W < B ^ Suc n" using u(3) V(2) by (simp add: V_def) (metis B_pos(1) mult_less_cancel1 order_less_trans)
    have "(j + k \<le> length u \<and> W < B ^ k) \<and> val (take k (qv @ [top])) = V * unat q"
    proof (cases "length u = j + n")
      case True
      then have "unat q \<le> 1" using q(3) by (simp add: n_def)
      then have "V * unat q < B ^ n" using V(2) by (cases "unat q") auto
      then have "B ^ n * unat top < B ^ n * 1" using qvt by linarith
      then have "top = 0" by (simp only: mult_less_cancel1) (simp add: unat_eq_0)
      then show ?thesis using True u(2) val_less [of "drop j u"] qv by (simp add: k_def val_append)
    next
      case False
      then show ?thesis using u(1) WB qv by (simp add: k_def n_def)
    qed
    then show "j + k \<le> length u" "W < B ^ k" "val (take k (qv @ [top])) = V * unat q" by auto
  qed
  define x y where "x = take k (drop j u)" and "y = take k (qv @ [top])"
  have x: "val x = W" "length x = k" "val (drop (j + k) u) = 0"
    using val_take_all [of "drop j u" k] k(2,3) u(2) by (auto simp: x_def add.commute)
  have y: "val y = V * unat q" "length y = k" using k(1,4) qv(2) by (auto simp: y_def)
  obtain w c where s: "subVV_loop x y 0 = (w, c)" by fastforce
  from subVV_loop_val [OF _ _ s] x(2) y(2) have w: "val w + V * unat q = W + unat c * B ^ k" "length w = k" "unat c \<le> 1"
    using x(1) y(1) by auto
  have wl: "val w < B ^ k" using val_less [of w] w(2) by simp
  define d R where "d = W div V" and "R = W mod V"
  have W: "W = V * d + R" "R < V" using V(1) by (simp_all add: d_def R_def)
  have res: "length (take j u @ z @ drop (j + k) u) = length u \<and> take j (take j u @ z @ drop (j + k) u) = take j u \<and>
      val (drop j (take j u @ z @ drop (j + k) u)) = R" if "length z = k" "val z = R" for z
    using that k(2) x(3) by (simp add: val_append)
  have eq: "divBasic_digit v u j q = (if c \<noteq> 0 then
                 bind_go (addVV_g n (take n w) v) (\<lambda>(w', c).
                   let w = w' @ drop n w; w = (if n < k then w[n := w ! n + c] else w)
                   in Inr (take j u @ w @ drop (j + k) u, q - 1))
               else Inr (take j u @ w @ drop (j + k) u, q))"
  proof -
    have "mulAddVWW_g n v q 0 = Inr (qv, top)" "subVV_g k x y = Inr (w, c)" "\<not> length u < j + k"
      using m s x(2) y(2) k(2) by (simp_all add: mulAddVWW_g_def subVV_g_def n_def)
    then show ?thesis
      unfolding divBasic_digit_def Let_def n_def [symmetric]
      by (simp only: bind_go_simps prod.case k_def [symmetric] x_def [symmetric] y_def [symmetric] if_False)
  qed
  show ?thesis
  proof (cases "unat q = d")
    case True
    have "c = 0"
    proof (rule ccontr)
      assume "c \<noteq> 0"
      then have "unat c = 1" using w(3) by (metis le_SucE le_zero_eq One_nat_def unat_eq_0)
      then show False using w(1) wl True W by simp
    qed
    then have "val w = R" using w(1) True W by simp
    then show ?thesis using eq \<open>c = 0\<close> res [OF w(2)] True by (simp add: d_def R_def V_def)
  next
    case False
    then have q1: "unat q = Suc d" using q(1,2) by (simp add: d_def V_def)
    have c1: "unat c = 1" "c \<noteq> 0"
    proof -
      show "c \<noteq> 0" using w(1) W q1 by auto
      then show "unat c = 1" using w(3) by (metis le_SucE le_zero_eq One_nat_def unat_eq_0)
    qed
    have "val w + val v = R + B ^ k" using w(1) W(1) q1 c1(1) by (simp add: V_def)
    moreover have "R < B ^ n" using W(2) V(2) by simp
    ultimately obtain w' c' where a: "addVV_g n (take n w) v = Inr (w', c')"
      "(let x = w' @ drop n w; x = (if n < k then x[n := x ! n + c'] else x) in val x = R \<and> length x = k)"
      using add_back [OF w(2) k(1), of v R] n_def by blast
    have "q \<noteq> 0" using q1 by auto
    then have "unat (q - 1) = d" using q1 by (simp add: unat_minus_one)
    then show ?thesis using eq c1(2) a res by (auto simp: Let_def d_def R_def V_def)
  qed
qed

section \<open>All digits\<close>

lemma val_drop_Suc: "i < length x \<Longrightarrow> val (drop i x) = unat (x ! i) + B * val (drop (Suc i) x)"
  by (metis Cons_nth_drop_Suc val.simps(2))

lemma val_at: "j \<le> length x \<Longrightarrow> val x = val (take j x) + B ^ j * val (drop j x)"
  using val_take_drop [of j x] by (simp add: min_def)

text \<open>What the next iteration finds: the window is less than \<open>B\<close> times the divisor, and the top word.\<close>

lemma next_window:
  assumes "val (drop (Suc i) u) < V" "V < B ^ n" "Suc i + n \<le> length u"
  shows "val (drop i u) < B * V" "unat (u ! (Suc i + n - 1)) = val (drop i u) div B ^ n"
proof -
  have s: "val (drop i u) = unat (u ! i) + B * val (drop (Suc i) u)" using assms(3) by (simp add: val_drop_Suc)
  also have "\<dots> < B * Suc (val (drop (Suc i) u))" by simp
  also have "\<dots> \<le> B * V" using assms(1) by (intro mult_le_mono2) simp
  finally show "val (drop i u) < B * V" .
  have "val (drop i u) div B ^ n = val (drop (i + n) u)" by (simp add: val_drop_eq [symmetric] add.commute)
  also have "\<dots> = unat (u ! (i + n)) + B * val (drop (Suc i + n) u)" using assms(3) by (simp add: val_drop_Suc)
  also have "val (drop (Suc i + n) u) = val (drop (Suc i) u) div B ^ n" by (simp add: val_drop_eq [symmetric] add.commute)
  also have "\<dots> = 0" using assms(1,2) by simp
  finally show "unat (u ! (Suc i + n - 1)) = val (drop i u) div B ^ n" by simp
qed

lemma divBasic_loop_val:
  assumes v: "divisor_ok v" and rec: "reciprocalWord (v ! (length v - 1)) = Some (Inr rec)"
  shows "c + length v \<le> Suc (length u) \<Longrightarrow> c \<le> length q \<Longrightarrow>
    (c \<noteq> 0 \<Longrightarrow> val (drop (c - 1) u) < B * val v \<and> unat ujn = val (drop (c - 1) u) div B ^ length v) \<Longrightarrow>
    (c = 0 \<Longrightarrow> val u < val v) \<Longrightarrow>
    \<exists>q' u'. divBasic_loop m v rec q u ujn c = Inr (q', u') \<and> length q' = length q \<and> drop c q' = drop c q \<and>
      val (take c q') = val u div val v \<and> length u' = length u \<and> val u' = val u mod val v"
proof (induction c arbitrary: q u ujn)
  case (Suc j)
  define n V W where "n = length v" and "V = val v" and "W = val (drop j u)"
  have V: "0 < V" "V < B ^ n" using divisor_digits(5) [OF v] val_less [of v] by (simp_all add: V_def n_def)
  have jn: "j + length v \<le> length u" and jq: "j < length q" using Suc.prems(1,2) by simp_all
  have WV: "W < B * val v" "unat ujn = W div B ^ length v" using Suc.prems(3) by (simp_all add: W_def)
  obtain g where g: "divBasic_guess v rec u j ujn = Inr g" "W div val v \<le> unat g" "unat g \<le> Suc (W div val v)"
    "length u = j + length v \<longrightarrow> unat g \<le> 1"
    using divBasic_guess_val [OF v rec jn W_def WV] by blast
  obtain u1 d where d: "divBasic_digit v u j g = Inr (u1, d)" "unat d = W div V" "length u1 = length u"
    "take j u1 = take j u" "val (drop j u1) = W mod V"
    using divBasic_digit_val [OF v jn W_def WV(1) g(2,3)] g(4) unfolding V_def by blast
  have R: "val (drop j u1) < V" using d(5) V(1) by simp
  have vu: "val u = val u1 + B ^ j * (unat d * V)"
  proof -
    have "val u = val (take j u) + B ^ j * (unat d * V + W mod V)" using val_at [of j u] jn by (simp add: W_def [symmetric] d(2))
    moreover have "val u1 = val (take j u) + B ^ j * (W mod V)" using val_at [of j u1] jn d(3-5) by simp
    ultimately show ?thesis by (simp add: algebra_simps)
  qed
  have "\<exists>q' u'. divBasic_loop m v rec (q[j := d]) u1 (u1 ! (j + n - 1)) j = Inr (q', u') \<and> length q' = length (q[j := d]) \<and>
    drop j q' = drop j (q[j := d]) \<and> val (take j q') = val u1 div val v \<and> length u' = length u1 \<and> val u' = val u1 mod val v"
  proof (rule Suc.IH)
    show "j + length v \<le> Suc (length u1)" "j \<le> length (q[j := d])" using jn jq d(3) by simp_all
    show "val u1 < val v" if "j = 0" using that R by (simp add: V_def)
    assume "j \<noteq> 0"
    then obtain i where i: "j = Suc i" by (cases j) auto
    show "val (drop (j - 1) u1) < B * val v \<and> unat (u1 ! (j + n - 1)) = val (drop (j - 1) u1) div B ^ length v"
      using next_window [of i u1 V n] R V(2) jn d(3) unfolding i V_def n_def by simp
  qed
  then obtain q' u' where IH: "divBasic_loop m v rec (q[j := d]) u1 (u1 ! (j + n - 1)) j = Inr (q', u')" "length q' = length q"
    "drop j q' = drop j (q[j := d])" "val (take j q') = val u1 div V" "length u' = length u" "val u' = val u1 mod V"
    using d(3) by (auto simp: V_def)
  have "drop j q' = d # drop (Suc j) q" unfolding IH(3) using jq by (simp add: drop_update_cancel Cons_nth_drop_Suc [symmetric])
  then have hi: "q' ! j = d" "drop (Suc j) q' = drop (Suc j) q"
    using jq IH(2) by (metis Cons_nth_drop_Suc list.inject)+
  have "val (take (Suc j) q') = val u1 div V + B ^ j * unat d"
    using jq IH(2,4) hi(1) by (simp add: take_Suc_conv_app_nth val_append)
  also have "\<dots> = val u div V" unfolding vu using V(1) by (simp add: mult.assoc [symmetric])
  finally have "val (take (Suc j) q') = val u div V" .
  moreover have "val u' = val u mod V" unfolding vu IH(6) by (simp add: mult.assoc [symmetric])
  moreover have "divBasic_loop m v rec q u ujn (Suc j) = Inr (q', u')" using g(1) d(1) IH(1) jq by (auto simp: Let_def n_def)
  ultimately show ?case using IH hi(2) unfolding V_def by blast
qed (auto)

text \<open>
  \<open>divBasic\<close>.  The quotient must fit into \<open>q\<close>, and the words of \<open>q\<close> above the digits that are
  computed must be zero.
\<close>

lemma divBasic_val:
  assumes v: "divisor_ok v" and q: "val u < B ^ length q * val v" "length u \<le> length q + length v"
    and z: "val (drop (Suc (length u) - length v) q) = 0"
  shows "\<exists>q' u'. divBasic q u v = Some (Inr (q', u')) \<and> length q' = length q \<and> val q' = val u div val v \<and>
    length u' = length u \<and> val u' = val u mod val v"
proof -
  define n V where "n = length v" and "V = val v"
  have V: "0 < V" "V < B ^ n" "B ^ n \<le> 2 * V" using divisor_digits(3,5) [OF v] val_less [of v] by (simp_all add: V_def n_def)
  have n: "2 \<le> n" "v ! (n - 1) \<noteq> 0" using v divisor_digits(4) [OF v] by (auto simp: divisor_ok_def n_def)
  have v0: "v \<noteq> []" using n(1) by (auto simp: n_def)
  obtain rec where rec: "reciprocalWord (v ! (n - 1)) = Some (Inr rec)" using reciprocalWord_val [OF n(2)] by blast
  show ?thesis
  proof (cases "length u < n")
    case True
    have "B ^ (n - 1) \<le> V"
      using divisor_digits(1,4) [OF v] by (metis V_def n_def div_less not_gr0 not_le)
    moreover have "B ^ length u \<le> B ^ (n - 1)" using True by (intro power_increasing) auto
    ultimately have "val u < V" using val_less [of u] by linarith
    then show ?thesis using True rec n z v0 by (simp add: divBasic_def Let_def n_def V_def)
  next
    case False
    define m where "m = length u - n"
    have m: "length u = m + n" using False by (simp add: m_def)
    have dm: "val (drop m u) < B ^ n" using val_less [of "drop m u"] m by simp
    have "2 * V \<le> B * V" by (intro mult_le_mono1) (simp add: B_def)
    then have w: "val (drop m u) < B * V" "val (drop m u) div B ^ n = 0" using dm V(3) by (linarith, simp)
    have eq: "divBasic q u v = Some (divBasic_loop m v rec q u 0 (Suc m))"
      using False rec v0 by (simp add: divBasic_def Let_def n_def m_def)
    show ?thesis
    proof (cases "m < length q")
      case True
      have "\<exists>q' u'. divBasic_loop m v rec q u 0 (Suc m) = Inr (q', u') \<and> length q' = length q \<and> drop (Suc m) q' = drop (Suc m) q \<and>
        val (take (Suc m) q') = val u div val v \<and> length u' = length u \<and> val u' = val u mod val v"
      proof (rule divBasic_loop_val [OF v rec [unfolded n_def]])
        show "Suc m + length v \<le> Suc (length u)" "Suc m \<le> length q" using m True by (simp_all add: n_def)
      qed (use w in \<open>simp_all add: n_def V_def\<close>)
      moreover have "val (drop (Suc m) q) = 0" using z m by (simp add: n_def)
      moreover have "val q' = val (take (Suc m) q')" if "length q' = length q" "drop (Suc m) q' = drop (Suc m) q" "val (drop (Suc m) q) = 0" for q'
        using val_at [of "Suc m" q'] that True by simp
      ultimately show ?thesis using eq by auto
    next
      case False
      then have mq: "m = length q" using q(2) m by (simp add: n_def)
      then have "val (drop m u) < V" using q(1) unfolding val_drop_eq by (simp add: V_def less_mult_imp_div_less mult.commute)
      define W where "W = val (drop m u)"
      have jn: "m + length v \<le> length u" and WV: "W < B * val v" "unat 0 = W div B ^ length v"
        using m w by (simp_all add: W_def n_def V_def)
      obtain g where g: "divBasic_guess v rec u m 0 = Inr g" "W div val v \<le> unat g" "unat g \<le> Suc (W div val v)"
        "length u = m + length v \<longrightarrow> unat g \<le> 1"
        using divBasic_guess_val [OF v rec [unfolded n_def] jn W_def WV] by blast
      obtain u1 d where d: "divBasic_digit v u m g = Inr (u1, d)" "unat d = W div V" "length u1 = length u"
        "take m u1 = take m u" "val (drop m u1) = W mod V"
        using divBasic_digit_val [OF v jn W_def WV(1) g(2,3)] g(4) unfolding V_def by blast
      have d0: "d = 0" using d(2) \<open>val (drop m u) < V\<close> by (simp add: W_def unat_eq_0)
      have vu: "val u1 = val u"
        using val_at [of m u] val_at [of m u1] d(3-5) jn \<open>val (drop m u) < V\<close> by (simp add: W_def)
      have R: "val (drop m u1) < V" using d(5) V(1) by simp
      have "\<exists>q' u'. divBasic_loop m v rec q u1 (u1 ! (m + n - 1)) m = Inr (q', u') \<and> length q' = length q \<and> drop m q' = drop m q \<and>
        val (take m q') = val u1 div val v \<and> length u' = length u1 \<and> val u' = val u1 mod val v"
      proof (rule divBasic_loop_val [OF v rec [unfolded n_def]])
        show "m + length v \<le> Suc (length u1)" "m \<le> length q" using jn d(3) mq by simp_all
        show "val u1 < val v" if "m = 0" using that R by (simp add: V_def)
        assume "m \<noteq> 0"
        then obtain i where i: "m = Suc i" by (cases m) auto
        show "val (drop (m - 1) u1) < B * val v \<and> unat (u1 ! (m + n - 1)) = val (drop (m - 1) u1) div B ^ length v"
          using next_window [of i u1 V n] R V(2) jn d(3) unfolding i V_def n_def by simp
      qed
      then obtain q' u' where l: "divBasic_loop m v rec q u1 (u1 ! (m + n - 1)) m = Inr (q', u')" "length q' = length q"
        "val (take m q') = val u1 div val v" "length u' = length u1" "val u' = val u1 mod val v" by blast
      have "divBasic_loop m v rec q u 0 (Suc m) = Inr (q', u')" using g(1) d(1) d0 l(1) mq by (simp add: Let_def n_def)
      moreover have "take m q' = q'" using l(2) mq by simp
      ultimately show ?thesis using eq l(2-5) vu d(3) by simp
    qed
  qed
qed

section \<open>Wide digits\<close>

lemma subVW_val: "\<exists>z c'. subVW (length x) x c = Inr (z, c') \<and> val z + unat c = val x + unat c' * B ^ length x \<and> length z = length x"
  using subVW_eq_ref [of x "length x" c] subVW_ref_val [of x c] by (metis surj_pair)

lemma no_borrow: "val z + k = v + c * B ^ n \<Longrightarrow> length z = n \<Longrightarrow> k \<le> v \<Longrightarrow> v < B ^ n \<Longrightarrow> c = 0 \<and> val z = v - k"
  using val_less [of z] by (cases c) auto

text \<open>Subtraction of a shorter number, as \<open>subVV\<close> on the low words and \<open>subVW\<close> on the others.\<close>

lemma sub_low_high:
  assumes "length y = k" "k \<le> length x" "val y \<le> val x"
  shows "\<exists>w c w' c'. subVV_g k (take k x) y = Inr (w, c) \<and> length w = k \<and>
    subVW (length x - k) (drop k x) c = Inr (w', c') \<and> length w' = length x - k \<and> c' = 0 \<and> val (w @ w') = val x - val y \<and>
    (c = 0 \<longrightarrow> w' = drop k x)"
proof -
  obtain w c where s: "subVV_loop (take k x) y 0 = (w, c)" by fastforce
  from subVV_loop_val [OF _ _ s] assms(1,2) have w: "val w + val y = val (take k x) + unat c * B ^ k" "length w = k" by auto
  obtain w' c' where t: "subVW (length x - k) (drop k x) c = Inr (w', c')"
    "val w' + unat c = val (drop k x) + unat c' * B ^ (length x - k)" "length w' = length x - k"
    using subVW_val [of "drop k x" c] by auto
  have "val (w @ w') + val y = val x + unat c' * B ^ length x"
  proof -
    have p: "B ^ length x = B ^ k * B ^ (length x - k)" using assms(2) by (simp flip: power_add)
    have "val x = val (take k x) + B ^ k * val (drop k x)" using assms(2) by (rule val_at)
    moreover have "B ^ k * (val w' + unat c) = B ^ k * (val (drop k x) + unat c' * B ^ (length x - k))" using t(2) by simp
    ultimately show ?thesis using w unfolding p by (simp add: val_append algebra_simps)
  qed
  moreover have "length (w @ w') = length x" using w(2) t(3) assms(2) by simp
  ultimately have "unat c' = 0 \<and> val (w @ w') = val x - val y" using assms(3) val_less [of x] by (intro no_borrow) auto
  moreover have "c = 0 \<longrightarrow> w' = drop k x"
    using t(1) subVW_eq_ref [of "drop k x" "length x - k" 0] by (auto simp: subVW_ref_0)
  moreover have "subVV_g k (take k x) y = Inr (w, c)" using s assms(1,2) by (simp add: subVV_g_def)
  ultimately show ?thesis using t w(2) by (auto simp: unat_eq_0)
qed

lemma addTo_high:
  assumes "s \<le> length x" "length y \<le> length x - s" "val x + B ^ s * val y < B ^ length x"
  shows "\<exists>z. addTo (drop s x) y = Inr z \<and> val (take s x @ z) = val x + B ^ s * val y \<and> length z = length x - s"
proof -
  have at: "val x = val (take s x) + B ^ s * val (drop s x)" using assms(1) by (rule val_at)
  have "B ^ s * (val (drop s x) + val y) < B ^ s * B ^ (length x - s)"
    using assms(1,3) at by (simp add: distrib_left flip: power_add)
  then have "val (drop s x) + val y < B ^ length (drop s x)" by simp
  then obtain z where "addTo (drop s x) y = Inr z" "val z = val (drop s x) + val y" "length z = length (drop s x)"
    using addTo_val [of y "drop s x"] assms(2) by auto
  then show ?thesis using at assms(1) by (simp add: val_append distrib_left)
qed

text \<open>
  A guess \<open>qhat\<close> for the quotient of \<open>U\<close> by \<open>v\<close>, where \<open>s\<close> words of \<open>v\<close> are left out of the
  guess: \<open>uu\<close> holds what remains of \<open>U\<close> without the others, and \<open>qhatv\<close> the product with the
  words left out.
\<close>

definition guess_state :: "nat \<Rightarrow> Word list \<Rightarrow> nat \<Rightarrow> Word list \<Rightarrow> Word list \<Rightarrow> Word list \<Rightarrow> bool" where
  "guess_state s v U qhat qhatv uu \<longleftrightarrow>
     val qhatv = val qhat * val (take s v) \<and> val uu + val qhat * val (drop s v) * B ^ s = U \<and>
     U < B ^ length uu \<and> length v \<le> length uu \<and> length qhatv \<le> length v \<and>
     (normal qhatv \<or> B ^ (length v - 1) \<le> val uu)"

lemma guess_state_cmp:
  assumes "guess_state s v U qhat qhatv uu" "s \<le> length v" "v \<noteq> []"
  shows "nat_cmp qhatv (nat_norm uu) \<le> 0 \<longleftrightarrow> val qhat \<le> U div val v \<or> val v = 0" "val qhatv \<le> val uu \<longleftrightarrow> val qhat * val v \<le> U"
proof -
  have c: "nat_cmp qhatv (nat_norm uu) = sgn (int (val qhatv) - int (val (nat_norm uu)))"
  proof (rule nat_cmp_longer)
    assume l: "length (nat_norm uu) < length qhatv"
    show "normal qhatv"
    proof (rule ccontr)
      assume "\<not> normal qhatv"
      then have "B ^ (length v - 1) \<le> val uu" using assms(1) by (simp add: guess_state_def)
      also have "val uu < B ^ length (nat_norm uu)" using val_less [of "nat_norm uu"] by simp
      also have "\<dots> \<le> B ^ (length v - 1)"
        using l assms(1,3) by (intro power_increasing) (auto simp: guess_state_def)
      finally show False by simp
    qed
  qed simp
  have v: "val v = val (take s v) + B ^ s * val (drop s v)" using assms(2) by (rule val_at)
  have "val qhat * val v = val qhatv + val qhat * val (drop s v) * B ^ s"
    using assms(1) unfolding v by (simp add: guess_state_def algebra_simps)
  then show le: "val qhatv \<le> val uu \<longleftrightarrow> val qhat * val v \<le> U" using assms(1) by (auto simp: guess_state_def)
  have "val qhat * val v \<le> U \<longleftrightarrow> val qhat \<le> U div val v \<or> val v = 0"
    by (cases "val v = 0") (auto simp: less_eq_div_iff_mult_less_eq)
  then show "nat_cmp qhatv (nat_norm uu) \<le> 0 \<longleftrightarrow> val qhat \<le> U div val v \<or> val v = 0"
    unfolding c using le by (auto simp: sgn_if)
qed

lemma divRec_decrement_val:
  assumes g: "guess_state s v U qhat qhatv uu" and s: "s < length v" and q: "0 < val qhat" and v: "B ^ (length v - 1) \<le> val (drop s v) * B ^ s"
  shows "\<exists>qhat' qhatv' uu'. divRec_decrement s v qhat qhatv uu = Inr (qhat', qhatv', uu') \<and>
    val qhat' = val qhat - 1 \<and> length qhat' = length qhat \<and> length uu' = length uu \<and> guess_state s v U qhat' qhatv' uu'"
proof -
  obtain qhat' c0 where q': "subVW (length qhat) qhat 1 = Inr (qhat', c0)" "val qhat' = val qhat - 1" "length qhat' = length qhat"
    using subVW_val [of qhat 1] no_borrow [of _ 1 "val qhat"] q val_less [of qhat] by fastforce
  have gs: "val qhatv = val qhat * val (take s v)" "val uu + val qhat * val (drop s v) * B ^ s = U"
    "U < B ^ length uu" "length v \<le> length uu" "length qhatv \<le> length v" using g by (auto simp: guess_state_def)
  have ge: "val (take s v) \<le> val qhatv" using gs(1) q by (cases "val qhat") auto
  have ls: "length (take s v) = s" using s by simp
  have "\<exists>w c w' c'. subVV_g s (take s (pad s qhatv)) (take s v) = Inr (w, c) \<and>
    (if length qhatv > s then subVW (length qhatv - s) (drop s qhatv) c else Inr ([], 0)) = Inr (w', c') \<and>
    val (if length qhatv > s then w @ w' else take (length qhatv) w) = val qhatv - val (take s v) \<and>
    length (if length qhatv > s then w @ w' else take (length qhatv) w) = length qhatv"
  proof (cases "length qhatv > s")
    case True
    then have "take s (pad s qhatv) = take s qhatv" by (simp add: pad_def)
    then show ?thesis using sub_low_high [OF ls _ ge] True by fastforce
  next
    case False
    then have p: "take s (pad s qhatv) = pad s qhatv" "length (pad s qhatv) = s" by (simp_all add: pad_def)
    obtain w c where w: "subVV_g s (take s (pad s qhatv)) (take s v) = Inr (w, c)" "length w = s" "val w = val qhatv - val (take s v)"
      using sub_low_high [OF ls, of "pad s qhatv"] ge p by (auto simp: subVW_def)
    have "val w < B ^ length qhatv" using w(3) val_less [of qhatv] by simp
    then have "val (take (length qhatv) w) = val w" using val_take_all by blast
    then show ?thesis using False w by auto
  qed
  then obtain w c w' c' where w: "subVV_g s (take s (pad s qhatv)) (take s v) = Inr (w, c)"
    "(if length qhatv > s then subVW (length qhatv - s) (drop s qhatv) c else Inr ([], 0)) = Inr (w', c')"
    "val (if length qhatv > s then w @ w' else take (length qhatv) w) = val qhatv - val (take s v)"
    "length (if length qhatv > s then w @ w' else take (length qhatv) w) = length qhatv" by blast
  have up: "val uu + B ^ s * val (drop s v) + (val qhat - 1) * val (drop s v) * B ^ s = U"
    using gs(2) q by (cases "val qhat") (auto simp: algebra_simps)
  then have "val uu + B ^ s * val (drop s v) < B ^ length uu" using gs(3) by linarith
  then obtain z where z: "addTo (drop s uu) (drop s v) = Inr z" "val (take s uu @ z) = val uu + B ^ s * val (drop s v)"
    "length z = length uu - s"
    using addTo_high [of s uu "drop s v"] s gs(4) diff_le_mono [OF gs(4), of s] by auto
  have d: "divRec_decrement s v qhat qhatv uu = Inr (qhat', if length qhatv > s then w @ w' else take (length qhatv) w, take s uu @ z)"
    unfolding divRec_decrement_def using q'(1) w(1,2) z(1) by simp
  have "guess_state s v U qhat' (if length qhatv > s then w @ w' else take (length qhatv) w) (take s uu @ z)"
    unfolding guess_state_def w(3,4) q'(2) z(2)
    using gs up v z(3) s q by (auto simp: diff_mult_distrib mult.commute [of "B ^ s"])
  then show ?thesis using d q' z(3) s gs(4) by auto
qed

lemma divRec_adjust_val:
  assumes s: "s < length v" and v: "B ^ (length v - 1) \<le> val (drop s v) * B ^ s" and vp: "0 < val v"
  shows "guess_state s v U qhat qhatv uu \<Longrightarrow> U div val v \<le> val qhat \<Longrightarrow> val qhat \<le> U div val v + i \<Longrightarrow>
    \<exists>qhat' qhatv' uu'. divRec_adjust i s v qhat qhatv uu = Inr (qhat', qhatv', uu') \<and> val qhat' = U div val v \<and>
      length qhat' = length qhat \<and> length uu' = length uu \<and> guess_state s v U qhat' qhatv' uu'"
proof (induction i arbitrary: qhat qhatv uu)
  case (Suc i)
  have ne: "v \<noteq> []" "s \<le> length v" using s by auto
  note cmp = guess_state_cmp(1) [OF Suc.prems(1) ne(2,1)]
  show ?case
  proof (cases "val qhat \<le> U div val v")
    case True
    then show ?thesis using cmp Suc.prems by simp
  next
    case False
    then obtain qhat' qhatv' uu' where d: "divRec_decrement s v qhat qhatv uu = Inr (qhat', qhatv', uu')"
      "val qhat' = val qhat - 1" "length qhat' = length qhat" "length uu' = length uu" "guess_state s v U qhat' qhatv' uu'"
      using divRec_decrement_val [OF Suc.prems(1) s _ v] by auto
    have b: "U div val v \<le> val qhat'" "val qhat' \<le> U div val v + i" using d(2) Suc.prems(3) False by simp_all
    have "\<not> nat_cmp qhatv (nat_norm uu) \<le> 0" using cmp False vp by simp
    then show ?thesis using d(1,3,4) Suc.IH [OF d(5) b] by simp
  qed
qed simp

lemma divRec_finish_val:
  assumes s: "s < length v" and v: "B ^ (length v - 1) \<le> val (drop s v) * B ^ s" and vp: "0 < val v"
    and u: "val uu + val qhat * val (drop s v) * B ^ s = U" "U < B ^ length uu" "length v \<le> length uu"
    and q: "U div val v \<le> val qhat" "val qhat \<le> U div val v + 2" "val qhat * val (take s v) < B ^ length v"
  shows "\<exists>qhat' uu'. divRec_finish s v qhat uu = Inr (qhat', uu', 0) \<and> val qhat' = U div val v \<and>
      length qhat' = length qhat \<and> length uu' = length uu \<and> val uu' = U mod val v"
proof -
  obtain qhatv where m: "nat_mul qhat (take s v) = Inr qhatv" "val qhatv = val qhat * val (take s v)" "normal qhatv"
    using nat_mul_val [of qhat "take s v"] by (auto simp: mul_result_def)
  have ne: "v \<noteq> []" "s \<le> length v" using s by auto
  have "length qhatv \<le> length v" using m q(3) by (intro normal_length_le) simp_all
  then have g: "guess_state s v U qhat qhatv uu" using m u by (simp add: guess_state_def)
  obtain qhat' qhatv' uu' where a: "divRec_adjust 2 s v qhat qhatv uu = Inr (qhat', qhatv', uu')" "val qhat' = U div val v"
    "length qhat' = length qhat" "length uu' = length uu" "guess_state s v U qhat' qhatv' uu'"
    using divRec_adjust_val [OF s v vp g q(1,2)] by blast
  define k where "k = length qhatv'"
  have k: "k \<le> length uu'" "length qhatv' = k" using a(5) by (auto simp: guess_state_def k_def)
  have "val qhat' * val v \<le> U" unfolding a(2) by simp
  then have le: "val qhatv' \<le> val uu'" using guess_state_cmp(2) [OF a(5) ne(2,1)] by simp
  have cmp: "\<not> nat_cmp qhatv' (nat_norm uu') > 0" using guess_state_cmp(1) [OF a(5) ne(2,1)] a(2) by simp
  obtain w c w' where w: "subVV_g k (take k uu') qhatv' = Inr (w, c)" "length w = k"
    "subVW (length uu' - k) (drop k uu') c = Inr (w', 0)" "length w' = length uu' - k" "val (w @ w') = val uu' - val qhatv'"
    "c = 0 \<longrightarrow> w' = drop k uu'"
    using sub_low_high [OF k(2,1) le] by blast
  have f: "divRec_finish s v qhat uu = Inr (qhat', w @ w', 0)"
    using m(1) a(1) cmp k w by (auto simp: divRec_finish_def Let_def word_gt_0)
  have "val uu' - val qhatv' = U mod val v"
  proof -
    have "val v = val (take s v) + B ^ s * val (drop s v)" using ne(2) by (rule val_at)
    then have "val qhatv' + val qhat' * val (drop s v) * B ^ s = (U div val v) * val v"
      using a(2,5) by (simp add: guess_state_def algebra_simps)
    moreover have "val uu' + val qhat' * val (drop s v) * B ^ s = U" using a(5) by (simp add: guess_state_def)
    moreover have "(U div val v) * val v + U mod val v = U" by (rule div_mult_mod_eq)
    ultimately show ?thesis by linarith
  qed
  then show ?thesis using f a(2-4) w k(1) by auto
qed

text \<open>The estimate for wide digits.\<close>

lemma wide_guess:
  fixes W V P vhi :: nat
  assumes V: "V = vlo + P * vhi" "vlo < P" "0 < vhi" and q: "W div P div vhi \<le> 2 * vhi"
  shows "W div V \<le> W div P div vhi" "W div P div vhi \<le> W div V + 2"
proof -
  have P: "0 < P" using V(2) by simp
  have Vp: "0 < V" using V P by simp
  have e: "W div P div vhi = W div (P * vhi)" by (simp add: div_mult2_eq)
  show "W div V \<le> W div P div vhi" unfolding e using V P by (intro div_le_mono2) simp_all
  define q where "q = W div P div vhi"
  have qW: "q * (P * vhi) \<le> W" unfolding q_def e by simp
  show "W div P div vhi \<le> W div V + 2"
  proof (cases "2 \<le> q")
    case True
    then obtain r where r: "q = r + 2" by (metis add.commute le_Suc_ex)
    have "r * vlo \<le> r * P" using V(2) by (intro mult_le_mono2) simp
    also have "\<dots> \<le> 2 * (P * vhi)" using q r unfolding q_def [symmetric] by (simp add: mult.commute [of r])
    finally have "r * V \<le> W" using qW unfolding r V(1) by (simp add: algebra_simps)
    then have "r \<le> W div V" using Vp by (simp add: less_eq_div_iff_mult_less_eq)
    then show ?thesis using r by (simp add: q_def)
  qed (simp add: q_def)
qed

lemma divisor_drop: "divisor_ok v \<Longrightarrow> s + 2 \<le> length v \<Longrightarrow> divisor_ok (drop s v)"
  by (simp add: divisor_ok_def)

lemma divisor_low: "divisor_ok v \<Longrightarrow> B ^ (length v - 1) \<le> val v"
  using divisor_digits(1,4) [of v] by (metis div_less not_gr0 not_le)

lemma divisor_norm: "divisor_ok v \<Longrightarrow> normal v \<and> nat_norm v = v"
proof -
  assume v: "divisor_ok v"
  then have "v \<noteq> []" by (auto simp: divisor_ok_def)
  moreover have "last v \<noteq> 0" using divisor_digits(4) [OF v] by (auto simp: last_conv_nth \<open>v \<noteq> []\<close>)
  ultimately have "normal v" by (simp add: normal_def)
  then show ?thesis using normal_val_inject [of "nat_norm v" v] by simp
qed

text \<open>The parameters of one wide digit.\<close>

definition wide :: "Word list \<Rightarrow> nat \<Rightarrow> nat \<Rightarrow> bool" where
  "wide v k s \<longleftrightarrow> divisor_ok v \<and> k = length v div 2 \<and> s = k - 1 \<and> 2 \<le> k"

lemma wide_facts:
  assumes "wide v k s"
  defines "n \<equiv> length v"
  shows "divisor_ok (drop s v)" "s < n" "Suc s = k" "k + k \<le> n" "B ^ (n - s) \<le> 2 * val (drop s v)"
    "B ^ (n - 1) \<le> val (drop s v) * B ^ s" "0 < val (drop s v)" "val (take s v) < B ^ s" "0 < val v"
proof -
  have v: "divisor_ok v" "k = n div 2" "s = k - 1" "2 \<le> k" using assms by (auto simp: wide_def)
  then show sn: "s < n" "Suc s = k" "k + k \<le> n" by auto
  show d: "divisor_ok (drop s v)" using v sn by (intro divisor_drop) (auto simp: n_def)
  show "B ^ (n - s) \<le> 2 * val (drop s v)" "0 < val (drop s v)" using divisor_digits(3,5) [OF d] by (simp_all add: n_def)
  have "B ^ (n - s - 1) * B ^ s \<le> val (drop s v) * B ^ s" using divisor_low [OF d] by (intro mult_le_mono1) (simp add: n_def)
  moreover have "B ^ (n - s - 1) * B ^ s = B ^ (n - 1)" using sn(1) by (simp flip: power_add)
  ultimately show "B ^ (n - 1) \<le> val (drop s v) * B ^ s" by (simp only:)
  show "val (take s v) < B ^ s" using val_less [of "take s v"] sn(1) by (simp add: n_def)
  show "0 < val v" using divisor_digits(5) [OF v(1)] .
qed

lemma wide_bounds:
  assumes w: "wide v k s" and W: "W < B ^ (k + length v)"
  shows "W div B ^ s < B ^ (k + 1) * val (drop s v)" "W div B ^ s div val (drop s v) \<le> 2 * val (drop s v)"
    "W div B ^ s div val (drop s v) * val (take s v) < B ^ length v" "W div B ^ s < B ^ (k + 1 + (length v - s) - 1)"
proof -
  define n vhi where "n = length v" and "vhi = val (drop s v)"
  note f = wide_facts [OF w, folded n_def vhi_def]
  have "k + n = (k + (n - s)) + s" using f(2) by simp
  then have e: "B ^ (k + n) = B ^ (k + (n - s)) * B ^ s" by (metis power_add)
  have X: "W div B ^ s < B ^ (k + (n - s))"
    using W unfolding n_def [symmetric] e by (simp add: less_mult_imp_div_less)
  then show "W div B ^ s < B ^ (k + 1 + (length v - s) - 1)" by (simp add: n_def)
  note X
  also have "B ^ (k + (n - s)) \<le> B ^ k * (2 * vhi)" using f(5) by (simp add: power_add)
  finally have X2: "W div B ^ s < 2 * B ^ k * vhi" by (simp add: ac_simps)
  also have "2 * B ^ k * vhi \<le> B ^ (k + 1) * vhi" by (intro mult_le_mono1) (simp add: B_def)
  finally show "W div B ^ s < B ^ (k + 1) * val (drop s v)" by (simp add: vhi_def)
  have q: "W div B ^ s div vhi < 2 * B ^ k" using X2 by (simp add: less_mult_imp_div_less)
  also have two: "2 * B ^ k \<le> B ^ (k + 1)" by (simp add: B_def)
  finally have q1: "W div B ^ s div vhi < B ^ (k + 1)" .
  also have "\<dots> \<le> B ^ (n - s)" using f(3,4) by (intro power_increasing) auto
  also have "\<dots> \<le> 2 * vhi" by (rule f(5))
  finally show "W div B ^ s div val (drop s v) \<le> 2 * val (drop s v)" by (simp add: vhi_def)
  have "W div B ^ s div vhi * val (take s v) \<le> W div B ^ s div vhi * B ^ s" using f(8) by (intro mult_le_mono2) simp
  also have "\<dots> < B ^ (k + 1) * B ^ s" using q1 by (rule mult_less_mono1) simp
  also have "\<dots> = B ^ (k + 1 + s)" by (rule power_add [symmetric])
  also have "\<dots> = B ^ (k + k)" using f(3) by (intro arg_cong [where f = "(^) B"]) simp
  also have "\<dots> \<le> B ^ n" using f(4) by (intro power_increasing) auto
  finally show "W div B ^ s div val (drop s v) * val (take s v) < B ^ length v" by (simp add: n_def vhi_def)
qed

lemma wide_digit:
  assumes w: "wide v k s" and W: "W < B ^ (k + length v)" "W < B ^ length uu" "length v \<le> length uu"
    and q: "val qhat = W div B ^ s div val (drop s v)" and u: "val uu = W mod B ^ s + B ^ s * (W div B ^ s mod val (drop s v))"
  shows "\<exists>qhat' uu'. divRec_finish s v qhat uu = Inr (qhat', uu', 0) \<and> val qhat' = W div val v \<and>
      length qhat' = length qhat \<and> length uu' = length uu \<and> val uu' = W mod val v"
proof (rule divRec_finish_val)
  note f = wide_facts [OF w] and b = wide_bounds [OF w W(1)]
  show "s < length v" "B ^ (length v - 1) \<le> val (drop s v) * B ^ s" "0 < val v" using f by simp_all
  show "W < B ^ length uu" "length v \<le> length uu" by fact+
  show "val uu + val qhat * val (drop s v) * B ^ s = W"
  proof -
    have "val qhat * val (drop s v) + W div B ^ s mod val (drop s v) = W div B ^ s" unfolding q by simp
    then have "B ^ s * (val qhat * val (drop s v) + W div B ^ s mod val (drop s v)) + W mod B ^ s = W" by simp
    then show ?thesis unfolding u by (simp add: algebra_simps)
  qed
  have "val v = val (take s v) + B ^ s * val (drop s v)" using f(2) by (intro val_at) simp
  from wide_guess [OF this f(8,7) b(2)] show "W div val v \<le> val qhat" "val qhat \<le> W div val v + 2" unfolding q .
  show "val qhat * val (take s v) < B ^ length v" unfolding q by (rule b(3))
qed

section \<open>Recursive division\<close>

lemma norm_zeros: "val (drop (length (nat_norm x)) x) = 0"
  using nat_norm_split [of x] by (metis append_eq_conv_conj val_replicate_0)

definition step_spec :: "Word list \<Rightarrow> Word list \<Rightarrow> Word list \<Rightarrow> bool" where
  "step_spec z u v \<longleftrightarrow> (\<exists>z' u'. divRecursiveStep z u v = Some (Inr (z', u')) \<and> length z' = length z \<and>
     val z' = val u div val v \<and> length u' = length u \<and> val u' = val u mod val v)"

definition loop_spec :: "Word list \<Rightarrow> Word list \<Rightarrow> Word list \<Rightarrow> nat \<Rightarrow> bool" where
  "loop_spec z u v j \<longleftrightarrow> (\<exists>z' u'. divRecursive_loop z u v j = Some (Inr (z', u')) \<and> length z' = length z \<and>
     length u' = length u \<and> val z' * val v + val u' = val z * val v + val u \<and> val u' < B ^ (length v div 2 + length v))"

text \<open>What a step needs: room for the quotient, and one word more unless the top words are in order.\<close>

definition room :: "nat \<Rightarrow> Word list \<Rightarrow> Word list \<Rightarrow> bool" where
  "room k u v \<longleftrightarrow> length (nat_norm u) < k + length v \<or>
     length (nat_norm u) = k + length v \<and> unat (last (nat_norm u)) < unat (last v)"

lemma window_less:
  assumes "val (drop j u) < c" "k \<le> j" "j \<le> length u"
  shows "val (drop (j - k) u) < B ^ k * c"
proof -
  have "val (drop (j - k) u) = val (take k (drop (j - k) u)) + B ^ k * val (drop k (drop (j - k) u))"
    using assms by (intro val_at) simp
  also have "drop k (drop (j - k) u) = drop j u" using assms(2) by simp
  also have "val (take k (drop (j - k) u)) + B ^ k * val (drop j u) < B ^ k * Suc (val (drop j u))"
    using val_less [of "take k (drop (j - k) u)"] assms by simp
  also have "\<dots> \<le> B ^ k * c" using assms(1) by (intro mult_le_mono2) simp
  finally show ?thesis .
qed

lemma fits_digit:
  fixes z V u q W p :: nat
  assumes "z * V + u < C * V" "p * W \<le> u" "q = W div V"
  shows "z + p * q < C"
proof -
  have "p * q * V \<le> p * W" unfolding assms(3) mult.assoc by (rule mult_le_mono2) simp
  then have "(z + p * q) * V < C * V" using assms(1,2) unfolding distrib_right by linarith
  then show ?thesis by simp
qed

lemma loop_from_step:
  assumes w: "wide v k s"
    and step: "\<And>z u. val z = 0 \<Longrightarrow> val u < B ^ length z * val (drop s v) \<Longrightarrow> room (length z) u (drop s v) \<Longrightarrow> step_spec z u (drop s v)"
  shows "j + length v \<le> length u \<Longrightarrow> val (drop j u) < B ^ length v \<Longrightarrow> val z * val v + val u < B ^ length z * val v \<Longrightarrow>
    j < length z \<or> j = length z \<and> val (drop j u) < unat (v ! (length v - 1)) * B ^ (length v - 1) \<Longrightarrow> loop_spec z u v j"
proof (induction j arbitrary: z u rule: less_induct)
  case (less j)
  define n V where "n = length v" and "V = val v"
  note f = wide_facts [OF w, folded n_def V_def]
  have k: "k = length v div 2" "s = k - 1" "2 \<le> k" and v: "divisor_ok v" using w by (auto simp: wide_def)
  note pr = less.prems [folded n_def V_def]
  show ?case
  proof (cases "k < j")
    case False
    have "val u < B ^ j * B ^ n" using window_less [OF pr(2), of j] pr(1) by simp
    also have "\<dots> \<le> B ^ k * B ^ n" using False by (intro mult_le_mono1 power_increasing) auto
    also have "\<dots> = B ^ (length v div 2 + length v)" by (simp add: power_add k(1) n_def)
    finally have "val u < B ^ (length v div 2 + length v)" .
    moreover have "divRecursive_loop z u v j = Some (Inr (z, u))"
      using False by (subst divRecursive_loop.simps) (simp add: k(1))
    ultimately show ?thesis by (simp add: loop_spec_def)
  next
    case True
    define uu W where "uu = drop (j - k) u" and "W = val uu"
    have luu: "length uu = length u - (j - k)" "k + n \<le> length uu" using pr(1) True by (auto simp: uu_def)
    have W: "W < B ^ (k + n)" using window_less [OF pr(2), of k] True pr(1) by (simp add: W_def uu_def power_add)
    note b = wide_bounds [OF w W [unfolded n_def], folded n_def]
    define X where "X = take (k + n - s) (drop s uu)"
    have "val (drop s uu) < B ^ (k + n - s)"
    proof -
      have "W < B ^ (k + n - s) * B ^ s" using W f(2) by (simp flip: power_add)
      then show ?thesis unfolding val_drop_eq W_def [symmetric] by (rule less_mult_imp_div_less)
    qed
    then have X: "val X = W div B ^ s" "length X = k + n - s"
      using val_take_all [of "drop s uu"] luu(2) by (auto simp: X_def val_drop_eq W_def)
    have lhi: "length (drop s v) = n - s" by (simp add: n_def)
    have "room (k + 1) X (drop s v)"
    proof -
      have "length (nat_norm X) \<le> k + 1 + (n - s) - 1" using b(4) X(1) by (intro normal_length_le) simp_all
      then show ?thesis unfolding room_def lhi using f(2) by auto
    qed
    then have "step_spec (replicate (k + 1) 0) X (drop s v)" using b(1) X(1) by (intro step) simp_all
    then obtain qhat r where r: "divRecursiveStep (replicate (k + 1) 0) X (drop s v) = Some (Inr (qhat, r))"
      "length qhat = k + 1" "val qhat = W div B ^ s div val (drop s v)" "length r = k + n - s" "val r = W div B ^ s mod val (drop s v)"
      using X by (auto simp: step_spec_def)
    define u1 where "u1 = take s uu @ r @ drop (k + n) uu"
    have u1: "length u1 = length uu" "val u1 = W mod B ^ s + B ^ s * (W div B ^ s mod val (drop s v))"
    proof -
      have "val (drop (k + n) uu) = 0" using W by (simp add: val_drop_eq W_def)
      then show "length u1 = length uu" "val u1 = W mod B ^ s + B ^ s * (W div B ^ s mod val (drop s v))"
        using r(4,5) luu(2) f(2) by (auto simp: u1_def val_append val_take_eq W_def)
    qed
    have Wu: "W < B ^ length u1" "length v \<le> length u1" using val_less [of uu] u1(1) luu(2) by (simp_all add: W_def n_def)
    obtain qh u2 where fin: "divRec_finish s v (nat_norm qhat) u1 = Inr (qh, u2, 0)" "val qh = W div V"
      "length qh = length (nat_norm qhat)" "length u2 = length uu" "val u2 = W mod V"
      using wide_digit [OF w W [unfolded n_def] Wu, of "nat_norm qhat"] r(3) u1 by (auto simp: V_def)
    have len: "length qh \<le> length z - (j - k)"
    proof (cases "j < length z")
      case True
      have "length (nat_norm qhat) \<le> k + 1" using length_nat_norm [of qhat] r(2) by simp
      then show ?thesis using True \<open>k < j\<close> fin(3) by simp
    next
      case False
      then have j: "j = length z" "val (drop j u) < unat (v ! (n - 1)) * B ^ (n - 1)" using pr(4) by auto
      have "val (drop s v) div B ^ (n - s - 1) = unat (v ! (n - 1))"
        using divisor_digits(1) [OF f(1)] f(2) by (simp add: n_def)
      then have lhi2: "unat (v ! (n - 1)) * B ^ (n - s - 1) \<le> val (drop s v)"
        by (metis div_times_less_eq_dividend)
      have "W < B ^ k * (unat (v ! (n - 1)) * B ^ (n - 1))"
        using window_less [OF j(2), of k] \<open>k < j\<close> pr(1) by (simp add: W_def uu_def)
      also have "B ^ (n - 1) = B ^ (n - s - 1) * B ^ s" using f(2) by (simp flip: power_add)
      also have "B ^ k * (unat (v ! (n - 1)) * (B ^ (n - s - 1) * B ^ s)) \<le> B ^ k * (val (drop s v) * B ^ s)"
        using lhi2 by (intro mult_le_mono2) (simp add: mult.assoc [symmetric])
      finally have "W div B ^ s div val (drop s v) < B ^ k"
        by (intro less_mult_imp_div_less) (simp add: mult.assoc)
      then have "length (nat_norm qhat) \<le> k" using r(3) by (intro normal_length_le) simp_all
      then show ?thesis using fin(3) j(1) \<open>k < j\<close> by simp
    qed
    have vu: "val u = val (take (j - k) u) + B ^ (j - k) * W"
      using val_at [of "j - k" u] pr(1) by (simp add: W_def uu_def)
    have "val z + B ^ (j - k) * val qh < B ^ length z"
      using fits_digit [OF pr(3), of "B ^ (j - k)" W "val qh"] vu fin(2) by simp
    then obtain zz where z: "addTo (drop (j - k) z) qh = Inr zz" "val (take (j - k) z @ zz) = val z + B ^ (j - k) * val qh"
      "length zz = length z - (j - k)"
      using addTo_high [of "j - k" z qh] len pr(4) by fastforce
    define z2 u3 where "z2 = take (j - k) z @ zz" and "u3 = take (j - k) u @ u2"
    have l: "length z2 = length z" "length u3 = length u" "drop (j - k) u3 = u2"
      using z(3) fin(4) luu(1) pr(1,4) by (auto simp: z2_def u3_def)
    have keep: "val z2 * V + val u3 = val z * V + val u"
    proof -
      have "val u3 = val (take (j - k) u) + B ^ (j - k) * (W mod V)"
        using pr(1) fin(5) by (simp add: u3_def val_append)
      moreover have "B ^ (j - k) * (W div V) * V + B ^ (j - k) * (W mod V) = B ^ (j - k) * W"
        by (metis add_mult_distrib2 div_mult_mod_eq mult.assoc)
      ultimately show ?thesis unfolding vu z2_def z(2) fin(2) by (simp add: distrib_right)
    qed
    have "loop_spec z2 u3 v (j - k)"
    proof (rule less.IH [folded n_def V_def])
      show "j - k < j" using True k(3) by simp
      show "j - k + n \<le> length u3" "val z2 * V + val u3 < B ^ length z2 * V" using l keep pr(1,3) by simp_all
      have "W mod V < V" using f(9) by simp
      then show "val (drop (j - k) u3) < B ^ n" using l(3) fin(5) val_less [of v] by (simp add: n_def V_def)
      show "j - k < length z2 \<or> j - k = length z2 \<and> val (drop (j - k) u3) < unat (v ! (n - 1)) * B ^ (n - 1)"
        using l(1) pr(4) True k(3) by auto
    qed
    moreover have "divRecursive_loop z u v j = divRecursive_loop z2 u3 v (j - k)"
      using True k r(1) fin(1) z(1)
      by (subst divRecursive_loop.simps) (simp add: Let_def X_def uu_def u1_def z2_def u3_def n_def)
    ultimately show ?thesis using keep l by (simp add: loop_spec_def V_def)
  qed
qed

lemma step_from_loop:
  assumes v: "divisor_ok v" and z: "val z = 0" and lt: "val u0 < B ^ length z * val v" and room: "room (length z) u0 v"
    and step: "\<And>k s z u. wide v k s \<Longrightarrow> val z = 0 \<Longrightarrow> val u < B ^ length z * val (drop s v) \<Longrightarrow>
      room (length z) u (drop s v) \<Longrightarrow> step_spec z u (drop s v)"
  shows "step_spec z u0 v"
proof -
  define n V u rest where "n = length v" and "V = val v" and "u = nat_norm u0" and "rest = drop (length u) u0"
  have vn: "nat_norm v = v" and Vp: "0 < V" using divisor_norm [OF v] divisor_digits(5) [OF v] by (simp_all add: V_def)
  have u0: "val u0 = val u" "val rest = 0" "length u0 = length u + length rest"
    using norm_zeros [of u0] length_nat_norm [of u0] by (simp_all add: u_def rest_def)
  have zs: "val (drop i z) = 0" for i using z by (simp add: val_drop_eq)
  have unf: "divRecursiveStep z u0 v =
      (if length u = 0 then Some (Inr (replicate (length z) 0, u0))
      else if n < divRecursiveThreshold then bind_opt (divBasic z u v) (\<lambda>(z, u). Some (Inr (z, u @ rest)))
      else if length u < n then Some (Inr (z, u0))
      else
        bind_opt (divRecursive_loop z u v (length u - n)) (\<lambda>(z, u).
          let s = n div 2 - 1; w = nat_norm (drop s u) in
          bind_opt (divRecursiveStep (replicate (n div 2 + 1) 0) w (drop s v)) (\<lambda>(qhat, r).
            let u = take s u @ r @ drop (s + length w) u in
            bind_opt (Some (divRec_finish s v (nat_norm qhat) u)) (\<lambda>(qhat, u, c).
              if c > 0 then Some (Inl (PanicMsg ''impossible''))
              else bind_opt (Some (addTo z (nat_norm qhat))) (\<lambda>z. Some (Inr (z, u @ rest)))))))"
    unfolding divRecursiveStep.simps [of z u0 v] Let_def vn u_def rest_def n_def ..
  consider (zero) "u = []" | (basic) "u \<noteq> []" "n < 40" | (small) "u \<noteq> []" "\<not> n < 40" "length u < n"
    | (wide) "u \<noteq> []" "\<not> n < 40" "\<not> length u < n" by blast
  then show ?thesis
  proof cases
    case zero
    then show ?thesis using unf u0 by (simp add: step_spec_def)
  next
    case basic
    have "length u \<le> length z + length v" using room by (auto simp: room_def u_def)
    then obtain q r where "divBasic z u v = Some (Inr (q, r))" "length q = length z" "val q = val u div val v" "length r = length u" "val r = val u mod val v"
      using divBasic_val [OF v _ _ zs, of u] lt u0(1) by auto
    then show ?thesis using unf basic u0 by (simp add: step_spec_def val_append)
  next
    case small
    have "val u < B ^ length u" by (rule val_less)
    also have "\<dots> \<le> B ^ (n - 1)" using small(3) by (intro power_increasing) auto
    also have "\<dots> \<le> V" using divisor_low [OF v] by (simp add: n_def V_def)
    finally show ?thesis using unf small u0 z by (simp add: step_spec_def V_def)
  next
    case wide
    define m k s where "m = length u - n" and "k = n div 2" and "s = k - 1"
    have w: "wide v k s" using v wide(2) by (auto simp: wide_def k_def s_def n_def)
    note f = wide_facts [OF w, folded n_def V_def]
    have m: "length u = m + n" using wide(3) by (simp add: m_def)
    have "loop_spec z u v m"
    proof (rule loop_from_step [OF w step [OF w]])
      show "m + length v \<le> length u" using m by (simp add: n_def)
      show "val (drop m u) < B ^ length v" using val_less [of "drop m u"] m by (simp add: n_def)
      show "val z * val v + val u < B ^ length z * val v" using z lt u0(1) by simp
      show "m < length z \<or> m = length z \<and> val (drop m u) < unat (v ! (length v - 1)) * B ^ (length v - 1)"
      proof (cases "length u < length z + n")
        case False
        then have r: "length u = length z + n" "unat (last u) < unat (last v)" using room by (auto simp: room_def u_def n_def)
        have ne: "u \<noteq> []" "v \<noteq> []" using wide(1,2) by (auto simp: n_def)
        have n0: "0 < n" using ne(2) by (simp add: n_def)
        have "val (drop m u) div B ^ (n - 1) = unat (drop m u ! (n - 1))"
          using val_div_step [of "n - 1" "drop m u" n] val_div_length [of "drop m u" n] m n0 by simp
        also have "\<dots> = unat (last u)" using m n0 ne(1) by (simp add: last_conv_nth add.commute)
        finally have "val (drop m u) div B ^ (n - 1) < unat (v ! (length v - 1))" using r(2) ne(2) by (simp add: last_conv_nth)
        then have "val (drop m u) < unat (v ! (length v - 1)) * B ^ (length v - 1)" by (simp add: div_less_iff_less_mult n_def)
        then show ?thesis using r(1) m by simp
      qed (use m in simp)
    qed
    then obtain z1 u1 where l: "divRecursive_loop z u v m = Some (Inr (z1, u1))" "length z1 = length z" "length u1 = length u"
      "val z1 * V + val u1 = val u" "val u1 < B ^ (k + n)"
      using z by (auto simp: loop_spec_def V_def n_def k_def)
    note b = wide_bounds [OF w l(5) [unfolded n_def], folded n_def]
    define x where "x = nat_norm (drop s u1)"
    have x: "val x = val u1 div B ^ s" "normal x" "val (drop (s + length x) u1) = 0" "length x \<le> length u - s"
      using norm_zeros [of "drop s u1"] length_nat_norm [of "drop s u1"] l(3)
      by (simp_all add: x_def val_drop_eq [symmetric] add.commute)
    have "room (k + 1) x (drop s v)"
    proof -
      have "length x \<le> k + 1 + (n - s) - 1" using b(4) x(1) by (intro normal_length_le [OF x(2)]) simp
      moreover have "nat_norm x = x" by (simp add: x_def normal_val_inject)
      ultimately show ?thesis unfolding room_def using f(2) by (auto simp: n_def)
    qed
    then have "step_spec (replicate (k + 1) 0) x (drop s v)" using b(1) x(1) by (intro step [OF w]) simp_all
    then obtain qhat r where r: "divRecursiveStep (replicate (k + 1) 0) x (drop s v) = Some (Inr (qhat, r))"
      "val qhat = val u1 div B ^ s div val (drop s v)" "length r = length x" "val r = val u1 div B ^ s mod val (drop s v)"
      using x(1) by (auto simp: step_spec_def)
    define u2 where "u2 = take s u1 @ r @ drop (s + length x) u1"
    have u2: "length u2 = length u" "val u2 = val u1 mod B ^ s + B ^ s * (val u1 div B ^ s mod val (drop s v))"
      using r(3,4) x(3,4) l(3) f(2) m by (auto simp: u2_def val_append val_take_eq)
    have "val u1 < B ^ length u2" "length v \<le> length u2" using val_less [of u1] u2(1) l(3) m by (simp_all add: n_def)
    then obtain qh u3 where fin: "divRec_finish s v (nat_norm qhat) u2 = Inr (qh, u3, 0)" "val qh = val u1 div V"
      "length u3 = length u" "val u3 = val u1 mod V"
      using wide_digit [OF w l(5) [unfolded n_def], of u2 "nat_norm qhat"] r(2) u2 by (auto simp: V_def)
    have fit: "val z1 + val qh < B ^ length z"
      using fits_digit [of "val z1" V "val u1" "B ^ length z" 1 "val u1" "val qh"] l(4) lt u0(1) fin(2) by (simp add: V_def)
    have "length (nat_norm qh) \<le> length z1" using fit l(2) by (intro normal_length_le) simp_all
    then obtain z2 where z2: "addTo z1 (nat_norm qh) = Inr z2" "val z2 = val z1 + val qh" "length z2 = length z"
      using addTo_val [of "nat_norm qh" z1] fit l(2) by auto
    have "val u = (val z1 + val u1 div V) * V + val u1 mod V"
      using l(4) by (metis add.assoc distrib_right div_mult_mod_eq)
    then have "val z2 = val u div V" "val u1 mod V = val u mod V"
      using Vp z2(2) fin(2) by simp_all
    moreover have "divRecursiveStep z u0 v = Some (Inr (z2, u3 @ rest))"
      unfolding unf using wide l(1) r(1) fin(1) z2(1) by (simp add: Let_def m_def x_def u2_def s_def k_def)
    ultimately show ?thesis using z2(3) fin(3,4) u0 by (simp add: step_spec_def V_def val_append)
  qed
qed

lemma divRecursiveStep_val:
  "divisor_ok v \<Longrightarrow> val z = 0 \<Longrightarrow> val u < B ^ length z * val v \<Longrightarrow> room (length z) u v \<Longrightarrow> step_spec z u v"
proof (induction "length v" arbitrary: z u v rule: less_induct)
  case less
  show ?case
  proof (rule step_from_loop [OF less.prems])
    fix k s z u
    assume w: "wide v k s" and zu: "val z = 0" "val u < B ^ length z * val (drop s v)" "room (length z) u (drop s v)"
    have "length (drop s v) < length v" using w by (auto simp: wide_def)
    then show "step_spec z u (drop s v)" using less.hyps [OF _ wide_facts(1) [OF w] zu] by simp
  qed
qed

section \<open>Division of normalised numbers\<close>

lemma divLarge_scaled:
  assumes n: "2 \<le> length v" "normal v"
  defines "s \<equiv> nlz (v ! (length v - 1))"
  shows "\<exists>v' c. (if s = 0 then Inr (v, 0) else lshVU_g (length v) v s) = Inr (v', c) \<and> divisor_ok v' \<and>
    length v' = length v \<and> val v' = val v * 2 ^ s \<and> s < 64"
proof -
  define k top where "k = length v - 1" and "top = v ! k"
  have k: "length v = Suc k" "k < length v" using n(1) by (simp_all add: k_def)
  have ne: "v \<noteq> []" using n(1) by auto
  have top: "top \<noteq> 0" using n(2) ne by (simp add: normal_def top_def k_def last_conv_nth)
  note z = nlz_normal [OF top]
  have s: "s = nlz top" by (simp add: s_def top_def k_def)
  have dig: "val v div B ^ k = unat top" using val_div_step [of k v "Suc k"] val_div_length [of v "Suc k"] k by (simp add: top_def)
  have vl: "unat top * B ^ k \<le> val v" "val v < Suc (unat top) * B ^ k"
    using dividend_less_div_times [of "B ^ k" "val v"] div_times_less_eq_dividend [of "val v" "B ^ k"] by (simp_all add: dig)
  have "val v * 2 ^ s < Suc (unat top) * B ^ k * 2 ^ s" using vl(2) by simp
  also have "\<dots> = Suc (unat top) * 2 ^ s * B ^ k" by (simp only: ac_simps)
  also have "Suc (unat top) * 2 ^ s * B ^ k \<le> B * B ^ k"
  proof (rule mult_le_mono1)
    have "B = 2 ^ (64 - s) * 2 ^ s" using z(1) unfolding s [symmetric] B_def by (simp flip: power_add)
    moreover have "Suc (unat top) \<le> 2 ^ (64 - s)" using z(3) unfolding s [symmetric] by simp
    ultimately show "Suc (unat top) * 2 ^ s \<le> B" by (metis mult_le_mono1)
  qed
  finally have lt: "val v * 2 ^ s < B ^ length v" by (simp add: k(1))
  obtain v' c where v': "(if s = 0 then Inr (v, 0) else lshVU_g (length v) v s) = Inr (v', c)" "val v' = val v * 2 ^ s" "length v' = length v"
  proof (cases "s = 0")
    case True
    then show thesis using that [of v 0] by simp
  next
    case False
    obtain y c where y: "lshVU_g (length v) v s = Inr (y, c)" "val y + unat c * B ^ length v = val v * 2 ^ s" "length y = length v"
      using lshVU_val [of v "length v" s] z s by auto
    have "unat c = 0" using lt y(2) by (cases "unat c") auto
    then show thesis using that y False by simp
  qed
  have "B ^ length v \<le> 2 * val v'"
  proof -
    have "B \<le> 2 * (unat top * 2 ^ s)" using z(2) unfolding s [symmetric] B_def by simp
    then have "B * B ^ k \<le> 2 * (unat top * 2 ^ s) * B ^ k" by (rule mult_le_mono1)
    also have "\<dots> = 2 * (unat top * B ^ k) * 2 ^ s" by simp
    also have "\<dots> \<le> 2 * val v * 2 ^ s" using vl(1) by simp
    finally show ?thesis by (simp add: v'(2) k(1) mult.assoc)
  qed
  moreover have "val v' div B ^ k = unat (v' ! k)"
    using val_div_step [of k v' "Suc k"] val_div_length [of v' "Suc k"] k v'(3) by simp
  moreover have "B ^ length v = 2 * (2 ^ 63 * B ^ k)" unfolding k(1) by (simp add: B_def)
  ultimately have "2 ^ 63 \<le> unat (v' ! k)" by (metis B_pos(1) less_eq_div_iff_mult_less_eq mult_le_cancel1 zero_less_numeral zero_less_power)
  then have "divisor_ok v'" using n(1) v'(3) by (simp add: divisor_ok_def k_def B_def)
  then show ?thesis using v' z s by auto
qed

lemma divLarge_room:
  assumes v: "divisor_ok v'" "length v' = n" and s: "s < 64" and u: "length u = m + n"
    and x: "val x = val u * 2 ^ s" "length x = Suc (length u)"
  shows "val x < B ^ (m + 1) * val v'" "room (m + 1) x v'"
proof -
  have B2: "B = 2 * 2 ^ 63" by (simp add: B_def)
  have p: "(2 :: nat) ^ s \<le> 2 ^ 63" using s by (intro power_increasing) auto
  have "val x < B ^ (m + n) * 2 ^ s" using val_less [of u] u x(1) by simp
  also have "\<dots> \<le> B ^ (m + n) * 2 ^ 63" using p by (rule mult_le_mono2)
  finally have xl: "val x < B ^ (m + n) * 2 ^ 63" .
  have "2 * (B ^ (m + n) * 2 ^ 63) = B ^ (m + 1) * B ^ n" by (simp add: B2 power_add)
  also have "\<dots> \<le> B ^ (m + 1) * (2 * val v')" using divisor_digits(3) [OF v(1)] v(2) by (intro mult_le_mono2) simp
  finally have "2 * (B ^ (m + n) * 2 ^ 63) \<le> 2 * (B ^ (m + 1) * val v')" by (simp only: mult.left_commute)
  then have "B ^ (m + n) * 2 ^ 63 \<le> B ^ (m + 1) * val v'" by (simp only: mult_le_cancel1)
  then show "val x < B ^ (m + 1) * val v'" using xl by simp
  show "room (m + 1) x v'"
  proof (cases "length (nat_norm x) < m + 1 + n")
    case False
    then have full: "length (nat_norm x) = Suc (m + n)" using length_nat_norm [of x] u x(2) by simp
    then have same: "nat_norm x = x" using nat_norm_split [of x] x(2) u
      by (metis append.right_neutral append_eq_conv_conj take_all le_refl)
    have ne: "x \<noteq> []" "v' \<noteq> []" using x(2) v by (auto simp: divisor_ok_def)
    have "unat (last x) = val x div B ^ (m + n)"
      using val_div_step [of "m + n" x "Suc (m + n)"] val_div_length [of x "Suc (m + n)"] x(2) u ne(1) by (simp add: last_conv_nth)
    also have "\<dots> < 2 ^ 63" using xl by (simp add: less_mult_imp_div_less mult.commute)
    also have "\<dots> \<le> unat (last v')" using v(1) ne(2) by (simp add: divisor_ok_def last_conv_nth B2)
    finally show ?thesis using full same v(2) by (simp add: room_def)
  qed (simp add: room_def v(2))
qed

lemma divLarge_val:
  assumes v: "2 \<le> length v" "normal v" and u: "length v \<le> length u" "normal u"
  shows "\<exists>q r. divLarge u v = Some (Inr (q, r)) \<and> normal q \<and> normal r \<and> val q = val u div val v \<and> val r = val u mod val v"
proof -
  define n m s where "n = length v" and "m = length u - n" and "s = nlz (v ! (n - 1))"
  obtain v' c where v': "(if s = 0 then Inr (v, 0) else lshVU_g n v s) = Inr (v', c)" "divisor_ok v'" "length v' = n"
    "val v' = val v * 2 ^ s" "s < 64"
    using divLarge_scaled [OF v, folded n_def, folded s_def] by blast
  obtain y top where y: "(if s = 0 then Inr (u, 0) else lshVU_g (length u) u s) = Inr (y, top)" "val (y @ [top]) = val u * 2 ^ s"
    "length y = length u"
  proof (cases "s = 0")
    case True
    then show thesis using that [of u 0] by (simp add: val_append)
  next
    case False
    then show thesis using lshVU_val [of u "length u" s] v'(5) that by (fastforce simp: val_append mult.commute)
  qed
  define x where "x = y @ [top]"
  have x: "val x = val u * 2 ^ s" "length x = Suc (length u)" using y by (simp_all add: x_def)
  have um: "length u = m + n" using u(1) by (simp add: m_def n_def)
  note rm = divLarge_room [OF v'(2,3,5) um x]
  define q0 where "q0 = replicate (m + 1) (0 :: Word)"
  have z: "length q0 = m + 1" "val q0 = 0" by (simp_all add: q0_def)
  have vp: "0 < val v" using divisor_digits(5) [OF v'(2)] v'(4) by simp
  have "\<exists>q r. (if n < divRecursiveThreshold then divBasic q0 x v' else divRecursive q0 x v') = Some (Inr (q, r)) \<and>
    val q = val x div val v' \<and> length r = length x \<and> val r = val x mod val v'"
  proof (cases "n < divRecursiveThreshold")
    case True
    have "val (drop i q0) = 0" for i using z(2) by (simp add: val_drop_eq)
    then show ?thesis using True divBasic_val [OF v'(2), of x q0] rm(1) z(1) x(2) um v'(3) by auto
  next
    case False
    have "replicate (length q0) 0 = q0" by (simp add: q0_def)
    then show ?thesis using False divRecursiveStep_val [OF v'(2) z(2), of x] rm z(1) by (auto simp: divRecursive_def step_spec_def)
  qed
  then obtain q r where d: "(if n < divRecursiveThreshold then divBasic q0 x v' else divRecursive q0 x v') = Some (Inr (q, r))"
    "val q = val u div val v" "length r = length x" "val r = val u mod val v * 2 ^ s"
    using div_mult_mult2 [of "2 ^ s" "val u" "val v"] mult_mod_left [of "val u" "val v" "2 ^ s"]
    unfolding x(1) v'(4) by auto
  obtain w c2 where w: "(if s \<noteq> 0 then rshVU_g (length r) r s else Inr (r, 0)) = Inr (w, c2)" "val w = val u mod val v"
    using rshVU_val [of r "length r" s] v'(5) d(4) by (cases "s = 0") auto
  have "divLarge u v = Some (Inr (nat_norm q, nat_norm w))"
    unfolding divLarge_def Let_def n_def [symmetric] m_def [symmetric] s_def [symmetric]
    by (simp only: bind_opt_simps prod.case v'(1) y(1) x_def [symmetric] q0_def [symmetric] d(1) w(1))
  then show ?thesis using d(2) w(2) by simp
qed

text \<open>\<open>nat.div\<close> on every pair of operands.\<close>

lemma nat_div_val:
  assumes "normal u" "normal v" "v \<noteq> []"
  shows "\<exists>q r. nat_div u v = Some (Inr (q, r)) \<and> normal q \<and> normal r \<and> val q = val u div val v \<and> val r = val u mod val v"
proof -
  consider (one) "length v = 1" | (less) "2 \<le> length v" "val u < val v" | (large) "2 \<le> length v" "\<not> val u < val v"
    using assms(3) by (cases v) (auto simp: Suc_le_eq)
  then show ?thesis
  proof cases
    case one
    then obtain w where w: "v = [w]" by (auto simp: length_Suc_conv)
    then have "w \<noteq> 0" using assms(2) by (simp add: normal_def)
    then show ?thesis using nat_divW_val [OF assms(1), of w] w by (auto simp: nat_div_def)
  next
    case less
    then show ?thesis using nat_cmp_val [OF assms(1,2)] assms(1) by (auto simp: nat_div_def)
  next
    case large
    have "length v \<le> length u" using normal_length_less [OF assms(2), of u] large(2) by linarith
    then show ?thesis using divLarge_val [OF large(1) assms(2) _ assms(1)] nat_cmp_val [OF assms(1,2)] large
      by (auto simp: nat_div_def)
  qed
qed

section \<open>Bit lengths\<close>

lemma or_shift_bounds:
  fixes a :: nat
  assumes "a < 2 ^ n"
  shows "a \<le> a OR drop_bit k a" "a OR drop_bit k a < 2 ^ n"
proof -
  have "int a \<le> int a OR int (drop_bit k a)" by (rule or_greater_eq) simp
  then show "a \<le> a OR drop_bit k a" by (simp only: of_nat_or_eq [symmetric] of_nat_le_iff)
  have "drop_bit k a < 2 ^ n" unfolding drop_bit_eq_div using div_le_dividend assms by (rule le_less_trans)
  then have "take_bit n (a OR drop_bit k a) = a OR drop_bit k a"
    using assms by (simp only: take_bit_or take_bit_nat_eq_self)
  then show "a OR drop_bit k a < 2 ^ n" by (simp only: take_bit_nat_eq_self_iff)
qed

lemma bitlen_unique: "bitlen m k \<Longrightarrow> bitlen m l \<Longrightarrow> k = l"
proof (cases "m = 0")
  case False
  assume "bitlen m k" "bitlen m l"
  then have m: "0 < k" "2 ^ (k - 1) \<le> m" "m < 2 ^ k" "0 < l" "2 ^ (l - 1) \<le> m" "m < 2 ^ l"
    using False by (simp_all add: bitlen_def)
  have b: "0 < k" "0 < l" "2 ^ (k - 1) < (2 :: nat) ^ l" "2 ^ (l - 1) < (2 :: nat) ^ k"
    using m(1,4) le_less_trans [OF m(2,6)] le_less_trans [OF m(5,3)] by blast+
  then have "k - 1 < l" "l - 1 < k"
    using power_less_imp_less_exp [of "2 :: nat" "k - 1" l] power_less_imp_less_exp [of "2 :: nat" "l - 1" k] by simp_all
  then show ?thesis using b(1,2) by linarith
qed (simp add: bitlen_def)

lemma unat_or_shift: "unat ((w :: Word) OR drop_bit k w) = unat w OR drop_bit k (unat w)"
  unfolding unsigned_or_eq unat_drop_bit by (simp add: drop_bit_eq_div)

lemma bitlen_smear: "bitlen (unat w) n \<Longrightarrow> bitlen (unat ((w :: Word) OR drop_bit k w)) n"
  using or_shift_bounds [of "unat w" n k] unfolding unat_or_shift bitlen_def
  by (auto split: if_splits)

lemma nat_bitLen_val:
  assumes "normal x"
  shows "bitlen (val x) (nat_bitLen x)"
proof (cases "x = []")
  case False
  define i t where "i = length x - 1" and "t = x ! i"
  define L where "L = Len64 t"
  have len: "length x = Suc i" using False by (simp add: i_def)
  have t: "t \<noteq> 0" using assms False by (simp add: normal_def t_def i_def last_conv_nth)
  have b: "bitlen (unat t) L" unfolding L_def by (rule bitlen_Len64)
  define t' where "t' = (let top = t; top = top OR drop_bit 1 top; top = top OR drop_bit 2 top; top = top OR drop_bit 4 top;
     top = top OR drop_bit 8 top; top = top OR drop_bit 16 top in top OR drop_bit 16 (drop_bit 16 top))"
  have "bitlen (unat t') L" unfolding t'_def Let_def drop_bit_drop_bit by (intro bitlen_smear b)
  then have "Len64 t' = L" using bitlen_unique [OF bitlen_Len64] by blast
  then have n: "nat_bitLen x = i * 64 + L"
    using False by (simp add: nat_bitLen_def Let_def bits_Len_def t'_def t_def i_def)
  have v: "unat t * B ^ i \<le> val x" "val x < Suc (unat t) * B ^ i"
  proof -
    have "val x div B ^ i = unat t" using val_div_step [of i x "Suc i"] val_div_length [of x "Suc i"] len by (simp add: t_def)
    then show "unat t * B ^ i \<le> val x" "val x < Suc (unat t) * B ^ i"
      using dividend_less_div_times [of "B ^ i" "val x"] div_times_less_eq_dividend [of "val x" "B ^ i"] by simp_all
  qed
  have B: "B ^ i = 2 ^ (64 * i)" by (simp add: B_def power_mult)
  have L: "0 < L" "2 ^ (L - 1) \<le> unat t" "unat t < 2 ^ L" using b t by (auto simp: bitlen_def unat_eq_0)
  have "2 ^ (i * 64 + L - 1) = 2 ^ (L - 1) * B ^ i" unfolding B using L(1) by (simp add: mult.commute flip: power_add)
  also have "\<dots> \<le> unat t * B ^ i" using L(2) by (rule mult_le_mono1)
  finally have lo: "2 ^ (i * 64 + L - 1) \<le> val x" using v(1) by linarith
  have "Suc (unat t) * B ^ i \<le> 2 ^ L * B ^ i" using L(3) by (intro mult_le_mono1) simp
  also have "\<dots> = 2 ^ (i * 64 + L)" unfolding B by (simp add: mult.commute flip: power_add)
  finally have "val x < 2 ^ (i * 64 + L)" using v(2) by linarith
  moreover have "0 < val x" using lo by (rule less_le_trans [rotated]) simp
  ultimately show ?thesis using lo L(1) unfolding n bitlen_def by auto
qed (simp add: nat_bitLen_def bitlen_def)

section \<open>Square roots\<close>

lemma newton_below:
  fixes x z :: nat
  assumes "0 < z" "(x div z + z) div 2 \<ge> z"
  shows "z * z \<le> x"
proof -
  have "z \<le> x div z" using assms(2) by linarith
  then have "z * z \<le> x div z * z" by (rule mult_le_mono1)
  also have "\<dots> \<le> x" by simp
  finally show ?thesis .
qed

lemma newton_above:
  fixes x z :: nat
  assumes "0 < z"
  shows "x < Suc ((x div z + z) div 2) * Suc ((x div z + z) div 2)"
proof -
  define q s where "q = x div z" and "s = Suc ((q + z) div 2)"
  have "q + z < 2 * s" unfolding s_def by presburger
  then have "int q + 1 + int z \<le> 2 * int s" by linarith
  have "x < Suc q * z" unfolding q_def using assms by (simp add: dividend_less_div_times)
  then have "int x < int (Suc q * z)" by (simp only: of_nat_less_iff)
  then have "4 * int x < 4 * ((int q + 1) * int z)" by (simp add: algebra_simps)
  also have "\<dots> \<le> (int q + 1 + int z) * (int q + 1 + int z)"
    using zero_le_square [of "int q + 1 - int z"] by (simp add: algebra_simps)
  also have "\<dots> \<le> (2 * int s) * (2 * int s)"
    using \<open>int q + 1 + int z \<le> 2 * int s\<close> by (intro mult_mono) auto
  finally have "int x < int s * int s" by simp
  then have "x < s * s" by (metis of_nat_less_iff of_nat_mult)
  then show ?thesis by (simp add: s_def q_def)
qed

lemma nat_sqrt_loop_val:
  "normal x \<Longrightarrow> 0 < val x \<Longrightarrow> normal z \<Longrightarrow> 0 < val z \<Longrightarrow> val x < Suc (val z) * Suc (val z) \<Longrightarrow>
     \<exists>r. nat_sqrt_loop x z = Some (Inr r) \<and> normal r \<and> val r * val r \<le> val x \<and> val x < Suc (val r) * Suc (val r)"
proof (induction "val z" arbitrary: z rule: less_induct)
  case less
  note pr = less.prems
  have "z \<noteq> []" using pr(4) by auto
  then obtain q r where d: "nat_div x z = Some (Inr (q, r))" "normal q" "val q = val x div val z"
    using nat_div_val [OF pr(1,3)] by blast
  obtain a where a: "nat_add q z = Inr a" "val a = val q + val z" "normal a" using nat_add_val [of q z] d(2) pr(3) by blast
  obtain y where y: "nat_rsh a (Suc 0) = Inr y" "val y = val a div 2" "normal y" using nat_rsh_val [OF a(3), of 1] by auto
  have c: "nat_cmp y z \<ge> 0 \<longleftrightarrow> val z \<le> val y" using nat_cmp_val [OF y(3) pr(3)] by (auto simp: sgn_if)
  have e: "nat_sqrt_loop x z = (if nat_cmp y z \<ge> 0 then Some (Inr z) else nat_sqrt_loop x y)"
    by (subst nat_sqrt_loop.simps) (simp add: d(1) a(1) y(1))
  have yv: "val y = (val x div val z + val z) div 2" using y(2) a(2) d(3) by simp
  show ?case
  proof (cases "val z \<le> val y")
    case True
    then have "val z * val z \<le> val x" using newton_below [OF pr(4)] yv by simp
    then show ?thesis using e c True pr by simp
  next
    case False
    have up: "val x < Suc (val y) * Suc (val y)" unfolding yv by (rule newton_above [OF pr(4)])
    have "0 < val y"
    proof (rule ccontr)
      assume "\<not> 0 < val y"
      then have "val x < 1" using up by simp
      then show False using pr(2) by simp
    qed
    then show ?thesis using less.hyps [of y] False y(3) up pr(1,2) e c by simp
  qed
qed

lemma nat_sqrt_val:
  assumes "normal x"
  shows "\<exists>r. nat_sqrt x = Some (Inr r) \<and> normal r \<and> val r * val r \<le> val x \<and> val x < Suc (val r) * Suc (val r)"
proof -
  have one: "normal natOne" "val natOne = 1" by (simp_all add: normal_def)
  have c: "nat_cmp x natOne \<le> 0 \<longleftrightarrow> val x \<le> 1" using nat_cmp_val [OF assms one(1)] one(2) by (auto simp: sgn_if)
  show ?thesis
  proof (cases "val x \<le> 1")
    case True
    then have "val x = 0 \<or> val x = 1" by linarith
    then show ?thesis using c assms by (auto simp: nat_sqrt_def)
  next
    case False
    define k where "k = (nat_bitLen x + 1) div 2"
    obtain z where z: "nat_lsh (setUint64 1) k = Inr z" "val z = 2 ^ k" "normal z"
      using nat_lsh_val [of "setUint64 1" k] by (auto simp: setUint64_def)
    have "val x < 2 ^ nat_bitLen x" using nat_bitLen_val [OF assms] False by (simp add: bitlen_def split: if_splits)
    also have "\<dots> \<le> 2 ^ (k + k)" unfolding k_def by (intro power_increasing) presburger+
    also have "\<dots> = val z * val z" by (simp add: z(2) power_add)
    also have "\<dots> \<le> Suc (val z) * Suc (val z)" by (intro mult_le_mono) simp_all
    finally show ?thesis
      using nat_sqrt_loop_val [OF assms _ z(3)] False z(1,2) c by (simp add: nat_sqrt_def k_def)
  qed
qed

section \<open>Signed division\<close>

lemma intOne_ok: "Int_ok intOne" "ival intOne = 1"
  by (simp_all add: intOne_def normal_def)

lemma Int_QuoRem_val:
  assumes "Int_ok x" "Int_ok y" "ival y \<noteq> 0"
  shows "\<exists>q r. Int_QuoRem x y = Some (Inr (q, r)) \<and> Int_Quo x y = Some (Inr q) \<and> Int_Rem x y = Some (Inr r) \<and>
    Int_ok q \<and> Int_ok r \<and> ival x = ival q * ival y + ival r \<and> \<bar>ival r\<bar> < \<bar>ival y\<bar> \<and>
    (ival r < 0 \<longrightarrow> ival x < 0) \<and> (0 < ival r \<longrightarrow> 0 < ival x)"
proof -
  have n: "normal (iabs x)" "normal (iabs y)" using assms(1,2) by (simp_all add: Int_ok_def)
  have y: "iabs y \<noteq> []" "0 < val (iabs y)" using assms(3) by (auto simp: ival_def split: if_splits)
  obtain q r where d: "nat_div (iabs x) (iabs y) = Some (Inr (q, r))" "normal q" "normal r"
    "val q = val (iabs x) div val (iabs y)" "val r = val (iabs x) mod val (iabs y)"
    using nat_div_val [OF n y(1)] by blast
  define Q R where "Q = \<lparr>ineg = length q > 0 \<and> ineg x \<noteq> ineg y, iabs = q\<rparr>" and "R = \<lparr>ineg = length r > 0 \<and> ineg x, iabs = r\<rparr>"
  have ok: "Int_ok Q" "Int_ok R" using d(2,3) by (auto simp: Q_def R_def Int_ok_def)
  have v: "ival Q = (if ineg x \<noteq> ineg y then - int (val q) else int (val q))" "ival R = (if ineg x then - int (val r) else int (val r))"
    by (auto simp: Q_def R_def ival_def)
  have "val (iabs x) = val q * val (iabs y) + val r" unfolding d(4,5) by simp
  then have X: "int (val (iabs x)) = int (val q) * int (val (iabs y)) + int (val r)" by (metis of_nat_add of_nat_mult)
  have "val r < val (iabs y)" using y(2) d(5) by simp
  then have lt: "int (val r) < int (val (iabs y))" by (simp only: of_nat_less_iff)
  have "ival x = ival Q * ival y + ival R" unfolding v using X by (auto simp: ival_def)
  moreover have "\<bar>ival R\<bar> < \<bar>ival y\<bar>" unfolding v using lt by (auto simp: ival_def)
  moreover have "val r \<le> val (iabs x)" using d(5) by simp
  then have "(ival R < 0 \<longrightarrow> ival x < 0) \<and> (0 < ival R \<longrightarrow> 0 < ival x)" unfolding v by (auto simp: ival_def)
  moreover have "Int_QuoRem x y = Some (Inr (Q, R)) \<and> Int_Quo x y = Some (Inr Q) \<and> Int_Rem x y = Some (Inr R)"
    by (simp add: Int_QuoRem_def Int_Quo_def Int_Rem_def d(1) Q_def R_def)
  ultimately show ?thesis using ok by blast
qed

lemma Int_DivMod_val:
  assumes "Int_ok x" "Int_ok y" "ival y \<noteq> 0"
  shows "\<exists>d m. Int_DivMod x y = Some (Inr (d, m)) \<and> Int_Div x y = Some (Inr d) \<and> Int_Mod x y = Some (Inr m) \<and>
    Int_ok d \<and> Int_ok m \<and> ival x = ival d * ival y + ival m \<and> 0 \<le> ival m \<and> ival m < \<bar>ival y\<bar>"
proof -
  obtain q r where d: "Int_QuoRem x y = Some (Inr (q, r))" "Int_ok q" "Int_ok r" "ival x = ival q * ival y + ival r"
    "\<bar>ival r\<bar> < \<bar>ival y\<bar>"
    using Int_QuoRem_val [OF assms] by blast
  have neg: "ineg w \<longleftrightarrow> ival w < 0" if "Int_ok w" for w
    using that normal_val_0 [of "iabs w"] by (auto simp: ival_def Int_ok_def)
  show ?thesis
  proof (cases "ineg r")
    case False
    then show ?thesis using d neg [OF d(3)] by (auto simp: Int_DivMod_def Int_Div_def Int_Mod_def)
  next
    case True
    show ?thesis
    proof (cases "ineg y")
      case y: True
      obtain a b where ab: "Int_Add q intOne = Inr a" "Int_ok a" "ival a = ival q + 1" "Int_Sub r y = Inr b" "Int_ok b" "ival b = ival r - ival y"
        using Int_Add_val [OF d(2) intOne_ok(1)] Int_Sub_val [OF d(3) assms(2)] intOne_ok(2) by (auto simp: int_result_def)
      then show ?thesis using d(1,4,5) True y neg [OF d(3)] neg [OF assms(2)]
        by (auto simp: Int_DivMod_def Int_Div_def Int_Mod_def algebra_simps)
    next
      case y: False
      obtain a b where ab: "Int_Sub q intOne = Inr a" "Int_ok a" "ival a = ival q - 1" "Int_Add r y = Inr b" "Int_ok b" "ival b = ival r + ival y"
        using Int_Sub_val [OF d(2) intOne_ok(1)] Int_Add_val [OF d(3) assms(2)] intOne_ok(2) by (auto simp: int_result_def)
      then have "ival x = ival a * ival y + ival b" using d(4) by (simp add: left_diff_distrib)
      then show ?thesis using ab d(1,5) True y neg [OF d(3)] neg [OF assms(2)]
        by (auto simp: Int_DivMod_def Int_Div_def Int_Mod_def)
    qed
  qed
qed

section \<open>Properties\<close>

text \<open>C10.
  \<open>nat.div\<close> returns for all operands the exact quotient and remainder, normalised, or panics on
  zero: by one word through a reciprocal, by long division for divisors of fewer than 40 words,
  and recursively above.  None of the internal panics is reached and no slice is too short.\<close>

theorem nat_div_exact:
  assumes "normal u" "normal v"
  shows "if v = [] then nat_div u v = Some (Inl (PanicMsg ''division by zero''))
    else \<exists>q r. nat_div u v = Some (Inr (q, r)) \<and> normal q \<and> normal r \<and>
      val u = val q * val v + val r \<and> val r < val v"
proof (cases "v = []")
  case False
  then have "0 < val v" using assms(2) normal_val_0 by auto
  moreover obtain q r where "nat_div u v = Some (Inr (q, r))" "normal q" "normal r" "val q = val u div val v" "val r = val u mod val v"
    using nat_div_val [OF assms False] by blast
  ultimately show ?thesis using False by simp
qed (simp add: nat_div_def)

theorem nat_div_exact_witness:
  "\<exists>q r. nat_div [1, 2, 3] [4, 5] = Some (Inr (q, r)) \<and> normal q \<and> normal r \<and>
      val [1, 2, 3] = val q * val [4, 5] + val r \<and> val r < val [4, 5]"
  using nat_div_exact [of "[1, 2, 3]" "[4, 5]"] by (simp add: normal_def)

text \<open>C12.
  Signed division: \<open>QuoRem\<close>, \<open>Quo\<close> and \<open>Rem\<close> truncate towards zero, with a remainder of the sign
  of the dividend; \<open>DivMod\<close>, \<open>Div\<close> and \<open>Mod\<close> are Euclidean, with a remainder that is never
  negative.\<close>

theorem Int_division:
  assumes "Int_ok x" "Int_ok y" "ival y \<noteq> 0"
  shows "(\<exists>q r. Int_QuoRem x y = Some (Inr (q, r)) \<and> Int_Quo x y = Some (Inr q) \<and> Int_Rem x y = Some (Inr r) \<and>
      Int_ok q \<and> Int_ok r \<and> ival x = ival q * ival y + ival r \<and> \<bar>ival r\<bar> < \<bar>ival y\<bar> \<and> 0 \<le> ival r * ival x) \<and>
    (\<exists>d m. Int_DivMod x y = Some (Inr (d, m)) \<and> Int_Div x y = Some (Inr d) \<and> Int_Mod x y = Some (Inr m) \<and>
      Int_ok d \<and> Int_ok m \<and> ival x = ival d * ival y + ival m \<and> 0 \<le> ival m \<and> ival m < \<bar>ival y\<bar>)"
proof -
  have sign: "0 \<le> r * x" if "r < 0 \<longrightarrow> x < 0" "0 < r \<longrightarrow> 0 < x" for r x :: int
    using that by (cases r "0 :: int" rule: linorder_cases) (auto intro: mult_nonpos_nonpos)
  show ?thesis using Int_QuoRem_val [OF assms] Int_DivMod_val [OF assms] sign by blast
qed

theorem Int_division_witness:
  "\<exists>d m. Int_DivMod \<lparr>ineg = True, iabs = [7]\<rparr> \<lparr>ineg = False, iabs = [2]\<rparr> = Some (Inr (d, m)) \<and>
      - 7 = ival d * 2 + ival m \<and> 0 \<le> ival m \<and> ival m < 2"
  using Int_division [of "\<lparr>ineg = True, iabs = [7]\<rparr>" "\<lparr>ineg = False, iabs = [2]\<rparr>"] by (auto simp: normal_def)

text \<open>C25.
  The square root: Newton's iteration ends for every number and gives the largest number whose
  square is at most the argument.\<close>

theorem nat_sqrt_exact:
  assumes "normal x"
  shows "\<exists>r. nat_sqrt x = Some (Inr r) \<and> normal r \<and> (val r)\<^sup>2 \<le> val x \<and> val x < (val r + 1)\<^sup>2"
  using nat_sqrt_val [OF assms] by (auto simp: power2_eq_square)

theorem nat_sqrt_exact_witness:
  "\<exists>r. nat_sqrt [0, 1] = Some (Inr r) \<and> normal r \<and> (val r)\<^sup>2 \<le> val [0, 1] \<and> val [0, 1] < (val r + 1)\<^sup>2"
  by (rule nat_sqrt_exact) (simp add: normal_def)

end
