(* ===== verification/Spec2Isabelle.thy ===== *)
theory Spec2Isabelle
  imports Field25519_Correct Linked_List_Correct Strconv_Correct Utf8_Correct Bits_Correct Sort_Stable Heap ByteOrder Buffer_Correct RWMutex_Correct Big_Div_Correct
begin

text \<open>
  Verification of core packages of the Go 1.26 standard library (\<open>src/go1.26/src\<close>).  The
  packages modelled are those that the rest of the library is built on and whose code is
  algorithmic: text encoding, bit and extended-precision arithmetic, sorting and heaps, byte
  orders and variable-length integers, byte buffers, linked lists, the mutexes, integers of any size, and
  the arithmetic of a field.

  \<^bold>\<open>How Go is modelled.\<close>  The unsigned types are machine words (\<open>uint64\<close> is \<^typ>\<open>64 word\<close>), a
  signed type is the word of its width read with \<^const>\<open>sint\<close>, and indices and lengths, which the
  language keeps non-negative, are natural numbers; where code converts to or from a wrapping
  type the model keeps the width.  A function that may panic returns a value of \<^typ>\<open>'a go\<close>, a sum
  with the panic on the left; an \<open>error\<close> result is an option.  A loop is a recursive function
  with a termination proof, or a \<^verbatim>\<open>partial_function (option)\<close> where the source can run
  forever, with \<^const>\<open>None\<close> for not returning; no function takes fuel.  A method that mutates its
  receiver returns the new state; concurrent code is a step relation whose steps are the
  atomic operations of the source.  Code that is not in a package modelled here is a
  parameter: the collection that \<open>sort\<close> and \<open>container/heap\<close> work on, the byte reader of
  \<open>encoding/binary\<close>, the growth policy of \<open>append\<close>, the clock and the spinning policy of the run
  time.

  \<^bold>\<open>Theories.\<close>
  \<^item> \<open>Prelude\<close>: the Go types, panics, sequencing of code that may panic, facts on words.
  \<^item> \<open>Utf8\<close>, \<open>Utf8_Correct\<close>: \<open>unicode/utf8/utf8.go\<close>, with the tables \<open>first\<close> and
    \<open>acceptRanges\<close> and the word-at-a-time scan for ASCII.  Decoding inverts encoding; \<open>DecodeRune\<close>
    accepts exactly the encodings of valid runes; \<open>Valid\<close> accepts exactly the concatenations of
    encodings; decoding from the end; what \<open>FullRune\<close> decides.
  \<^item> \<open>Bits\<close>, \<open>Bits_Correct\<close>: \<open>math/bits/bits.go\<close>.  Additions and subtractions with carry, the
    full product, the division of two words by one with its correction loops, bit lengths,
    trailing zeros through the de Bruijn table, and bit reversal are exact.
  \<^item> \<open>Sort\<close>, \<open>Sort_Correct\<close>: \<open>sort/sort.go\<close>, \<open>sort/zsortinterface.go\<close> and \<open>sort/search.go\<close>.
    Pattern-defeating quicksort with all its phases (insertion sort, heap sort, pivot choice,
    pattern breaking, partitioning, the recursion on the smaller side) sorts every collection
    whose operations keep the contract \<open>sort_data\<close>; binary search finds the first index.
  \<^item> \<open>Sort_Stable\<close>: \<open>sort.Stable\<close>, by insertion sort of blocks and in-place merging through
    rotations, keeps the order of equal elements.
  \<^item> \<open>Heap\<close>: \<open>container/heap/heap.go\<close>; the operations keep the heap order and the multiset of
    the elements, and popping everything sorts.
  \<^item> \<open>Linked_List\<close>, \<open>Linked_List_Correct\<close>: \<open>container/list/list.go\<close>, on a store of elements with
    pointers.  Any sequence of calls on any number of lists returns what it returns on plain
    lists, and the rings are well linked after it, provided that no call names an element that an
    earlier \<open>Init\<close> dropped; what a call that does can do is shown for \<open>Remove\<close>.
  \<^item> \<open>ByteOrder\<close>: \<open>internal/byteorder\<close>; what is written is read back, in both orders.
  \<^item> \<open>Varint\<close>: \<open>encoding/binary/varint.go\<close>; decoding inverts encoding, and the overflow
    cases.
  \<^item> \<open>Strconv\<close>, \<open>Strconv_Correct\<close>: the integers of \<open>internal/strconv\<close> (\<open>atoi.go\<close>, \<open>itoa.go\<close>), with
    the public functions of \<open>strconv/number.go\<close>.  Parsing is exact in every base and size, with all
    its errors; the four methods of formatting give the canonical text; parsing inverts formatting;
    base 0 accepts exactly the integer literals of the language.
  \<^item> \<open>Buffer\<close>, \<open>Buffer_Correct\<close>: \<open>bytes/buffer.go\<close>; the buffer, with its growth by reslicing,
    sliding and reallocation, refines a queue of bytes that remembers what the last read can
    give back.  That is unspecified after a line read of a drained buffer and after a \<open>Grow\<close> that
    follows a read, and the sequences of calls considered unread nothing there.
  \<^item> \<open>Mutex\<close>, \<open>Mutex_Correct\<close>: \<open>internal/sync/mutex.go\<close>; any number of goroutines, every
    interleaving of the atomic steps: mutual exclusion and absence of lost wake-ups.
  \<^item> \<open>RWMutex\<close>, \<open>RWMutex_Correct\<close>: \<open>sync/rwmutex.go\<close>, over the steps of the embedded mutex, whose
    invariant it reuses through a projection of the configurations: a writer is alone, and no
    wake-up is lost.
  \<^item> \<open>Big_Arith\<close>, \<open>Big_Correct\<close>, \<open>Big_Nat\<close>, \<open>Big_Nat_Correct\<close>, \<open>Big_Sqr\<close>, \<open>Big_Int\<close>: \<open>math/big\<close>.  The
    vector routines of \<open>arith.go\<close>; natural numbers (\<open>nat.go\<close>, \<open>natmul.go\<close>, the division by a
    word of \<open>natdiv.go\<close>); signed integers (\<open>int.go\<close>).  Exactness of every operation, Karatsuba's
    multiplication against the schoolbook method, squaring (which \<open>Int.Mul\<close> uses when both operands
    are the same variable), two's complement bit operations.
  \<^item> \<open>Big_Div\<close>, \<open>Big_Div_Correct\<close>: the rest of \<open>math/big/natdiv.go\<close>: long division with the
    quotient digit guessed from the leading words, recursive division, and on them the square
    root of \<open>nat.go\<close> and the truncated and Euclidean division of \<open>int.go\<close>; all exact.
  \<^item> \<open>Field25519\<close>, \<open>Field25519_Correct\<close>: \<open>crypto/internal/fips140/edwards25519/field\<close>, over the
    extended-precision operations of \<open>Bits\<close> and the byte orders of \<open>ByteOrder\<close>.  Arithmetic modulo
    \<open>2 ^ 255 - 19\<close> in five limbs is exact and keeps the bound on the limbs; encodings are
    canonical and keep the value.  \<open>Prime25519\<close> proves that the modulus is prime, from Fermat's little
    theorem and a chain of certificates; with it \<open>Invert\<close> gives inverses and \<open>SqrtRatio\<close> reports
    exactly the squares.

  \<^bold>\<open>Interfaces.\<close>  The contracts between components are locales, interpreted on the model's own
  definitions: a collection to be sorted, a heap, a byte reader, an integer type.

  \<^bold>\<open>Not modelled.\<close>  The run time, the compiler and the tools, code that talks to the operating
  system or the network, reflection, floating point, assembly, generated tables and vendored
  code.  Inside the modelled packages: the reflection-based entry points of \<open>sort\<close>, the
  population counts of \<open>math/bits\<close>, and in \<open>math/big\<close> modular
  arithmetic, conversion to text, rationals and floats.  Memory that is
  shared between two slices is not modelled: the destination of a vector routine may share
  its words with an operand, and the code reads every word before it writes it.  Storage that
  the code takes over without clearing it starts as zeros in the model, which is not seen where, as
  in \<open>divLarge\<close>, every word is written before it is read.  An index that the source computes with
  a difference of integers (\<open>rotate\<close> in \<open>sort\<close>) is a difference of natural numbers where the calls
  keep it non-negative.
\<close>

end
